(* ===== verification/Prelude.thy ===== *)
theory Prelude
  imports Main "HOL-Library.Word"
begin

text \<open>
  Shared vocabulary of the development: the C integer widths, the library's error codes
  (\<open>accudisc_err\<close> of \<^verbatim>\<open>include/accudisc/accudisc.h\<close>), big-endian byte access, byte slices,
  exclusive-or over lists, and the generic facts on them that the component theories use.
\<close>

unbundle bit_operations_syntax

type_synonym u8 = "8 word"
type_synonym u16 = "16 word"
type_synonym u32 = "32 word"
type_synonym u64 = "64 word"

named_theorems xor_algebra \<open>associativity, commutativity and cancellation of exclusive or\<close>

section \<open>Error codes\<close>

text \<open>
  A fallible C function returns \<open>ACCUDISC_OK\<close> or a negative code; the model returns
  \<open>Inl\<close> of the error or \<open>Inr\<close> of what the C function leaves in its out-parameters.
\<close>

datatype accudisc_err =
  ERR_INVAL | ERR_NOMEM | ERR_OPEN | ERR_IO | ERR_SENSE | ERR_SHORT | ERR_UNSUPPORTED
| ERR_CANCELLED | ERR_CRC | ERR_NOTFOUND | ERR_ABI | ERR_NOT_BLANK | ERR_AMBIGUOUS
| ERR_WRITE_BUDGET | ERR_WRITE_PARAMS

type_synonym 'a res = "accudisc_err + 'a"

fun err_code :: "accudisc_err \<Rightarrow> int" where
  "err_code ERR_INVAL = -1"
| "err_code ERR_NOMEM = -2"
| "err_code ERR_OPEN = -3"
| "err_code ERR_IO = -4"
| "err_code ERR_SENSE = -5"
| "err_code ERR_SHORT = -6"
| "err_code ERR_UNSUPPORTED = -7"
| "err_code ERR_CANCELLED = -8"
| "err_code ERR_CRC = -9"
| "err_code ERR_NOTFOUND = -10"
| "err_code ERR_ABI = -12"
| "err_code ERR_NOT_BLANK = -13"
| "err_code ERR_AMBIGUOUS = -14"
| "err_code ERR_WRITE_BUDGET = -15"
| "err_code ERR_WRITE_PARAMS = -16"

lemma err_code_inj: "err_code a = err_code b \<longleftrightarrow> a = b"
  by (cases a; cases b) simp_all

section \<open>Exclusive or\<close>

lemma xor_self_word: "(a :: 'a::len word) XOR a = 0"
  by (rule bit_eqI) (simp add: bit_xor_iff)

lemma xor_left_cancel: "(a :: 'a::len word) XOR (a XOR b) = b"
  by (rule bit_eqI) (auto simp add: bit_xor_iff)

lemma xor_eq_0_iff [simp]: "(a :: 'a::len word) XOR b = 0 \<longleftrightarrow> a = b"
  by (metis xor_left_cancel xor_self_word xor.right_neutral)

lemma xor_eq_left_iff: "(a :: 'a::len word) XOR b = a XOR c \<longleftrightarrow> b = c"
  by (metis xor_left_cancel)

lemma xor_eq_right_iff: "(a :: 'a::len word) XOR c = b XOR c \<longleftrightarrow> a = b"
  by (metis xor_left_cancel xor.commute)

lemma xor_eq_swap: "(a :: 'a::len word) XOR b = c \<longleftrightarrow> b = a XOR c"
  by (metis xor_left_cancel)

lemmas [xor_algebra] = xor.assoc xor.commute xor.left_commute xor_self_word xor_left_cancel

text \<open>The accumulator loops \<open>acc ^= x\<close> of the C code are exclusive-or sums.\<close>

fun xor_list :: "'a::len word list \<Rightarrow> 'a word" where
  "xor_list [] = 0"
| "xor_list (x # xs) = x XOR xor_list xs"

lemma xor_list_append [simp]: "xor_list (xs @ ys) = xor_list xs XOR xor_list ys"
  by (induction xs) (auto simp: xor.assoc)

lemma fold_xor_list: "fold (\<lambda>x acc. acc XOR f x) xs a = a XOR xor_list (map f xs)"
  by (induction xs arbitrary: a) (auto simp: xor.assoc)

lemma xor_list_map_xor:
  "xor_list (map (\<lambda>x. f x XOR g x) xs) = xor_list (map f xs) XOR xor_list (map g xs)"
  by (induction xs) (auto simp: xor_algebra)

lemma xor_list_zeros: "(\<And>x. x \<in> set xs \<Longrightarrow> f x = 0) \<Longrightarrow> xor_list (map f xs) = 0"
  by (induction xs) auto

lemma xor_list_filter: "xor_list (map f (filter (\<lambda>x. f x \<noteq> 0) xs)) = xor_list (map f xs)"
  by (induction xs) auto

lemma xor_list_delta:
  "distinct xs \<Longrightarrow>
   xor_list (map (\<lambda>x. if x = k then v else 0) xs) = (if k \<in> set xs then v else 0)"
  by (induction xs) auto

lemma xor_list_rev [simp]: "xor_list (rev xs) = xor_list xs"
  by (induction xs) (auto simp: xor.commute)

section \<open>Bytes and slices\<close>

text \<open>\<open>p[off .. off+n)\<close> as a list.\<close>

definition slice :: "nat \<Rightarrow> nat \<Rightarrow> 'a list \<Rightarrow> 'a list" where
  "slice off n xs = take n (drop off xs)"

lemma length_slice [simp]: "length (slice off n xs) = min n (length xs - off)"
  by (simp add: slice_def)

lemma nth_slice [simp]: "i < n \<Longrightarrow> off + i < length xs \<Longrightarrow> slice off n xs ! i = xs ! (off + i)"
  by (simp add: slice_def)

definition be16 :: "u8 list \<Rightarrow> nat \<Rightarrow> nat" where
  "be16 p i = unat (p ! i) * 256 + unat (p ! (i + 1))"

lemma be16_bound: "be16 p i < 65536"
proof -
  have "unat (p ! i) < 256" "unat (p ! (i + 1)) < 256"
    using unsigned_less [of "p ! i", where 'a=nat] unsigned_less [of "p ! (i + 1)", where 'a=nat] by simp_all
  then show ?thesis by (simp add: be16_def)
qed

lemma unat_u8_bound [simp]: "unat (b :: u8) < 256"
  using unsigned_less [of b, where 'a=nat] by simp

lemma unat_u32_bound [simp]: "unat (b :: u32) < 4294967296"
  using unsigned_less [of b, where 'a=nat] by simp

text \<open>The bits of the masks that the C code writes as literals.\<close>

lemma bit_mask_literals:
  "bit (0xff :: int) n \<longleftrightarrow> n < 8" "bit (0x0f :: int) n \<longleftrightarrow> n < 4"
  "bit (0x3f :: int) n \<longleftrightarrow> n < 6" "bit (0x07 :: int) n \<longleftrightarrow> n < 3" "bit (0x03 :: int) n \<longleftrightarrow> n < 2"
proof -
  have "(0xff :: int) = mask 8" "(0x0f :: int) = mask 4" "(0x3f :: int) = mask 6"
    "(0x07 :: int) = mask 3" "(0x03 :: int) = mask 2"
    by (simp_all add: mask_eq_exp_minus_1)
  then show "bit (0xff :: int) n \<longleftrightarrow> n < 8" "bit (0x0f :: int) n \<longleftrightarrow> n < 4"
    "bit (0x3f :: int) n \<longleftrightarrow> n < 6" "bit (0x07 :: int) n \<longleftrightarrow> n < 3" "bit (0x03 :: int) n \<longleftrightarrow> n < 2"
    by (simp_all only: bit_mask_iff possible_bit_def) simp_all
qed

section \<open>Lists\<close>

lemma list_all2_nth: "list_all2 P xs ys \<Longrightarrow> i < length xs \<Longrightarrow> P (xs ! i) (ys ! i)"
  by (simp add: list_all2_conv_all_nth)

lemma fold_invariant:
  assumes "\<And>x s. x \<in> set xs \<Longrightarrow> P s \<Longrightarrow> P (f x s)" and "P s"
  shows "P (fold f xs s)"
  using assms by (induction xs arbitrary: s) auto

lemma fold_invariant_upt:
  assumes "\<And>i s. i < n \<Longrightarrow> P i s \<Longrightarrow> P (Suc i) (f i s)" and "P 0 s"
  shows "P n (fold f [0..<n] s)"
  using assms by (induction n) auto

end
