(* ===== verification/Crc.thy ===== *)
theory Crc
  imports Prelude
begin

text \<open>
  The two checksums of the program: the CRC-16 that gates every Q frame and every CD-Text
  pack (\<^verbatim>\<open>src/cdda/crc16.c\<close>) and the CRC-32 of the CTDB repair path
  (\<^verbatim>\<open>src/repair/sweep.c\<close>), with its slicing-by-8 tables. The locale \<open>crc_register\<close> states
  what both registers promise (a linear, injective byte step); the two code models
  interpret it.
\<close>

section \<open>The register interface\<close>

locale crc_register =
  fixes step :: "'a::len word \<Rightarrow> 'a word"
    and absorb :: "u8 \<Rightarrow> 'a word"
  assumes step_xor: "step (x XOR y) = step x XOR step y"
    and step_inj: "step x = 0 \<Longrightarrow> x = 0"
    and absorb_xor: "absorb (a XOR b) = absorb a XOR absorb b"
    and absorb_inj: "absorb a = 0 \<Longrightarrow> a = 0"
    and pair_inj: "step (absorb a) = absorb b \<Longrightarrow> a = 0 \<and> b = 0"
begin

definition update :: "u8 \<Rightarrow> 'a word \<Rightarrow> 'a word" where
  "update b c = step (c XOR absorb b)"

definition run :: "u8 list \<Rightarrow> 'a word \<Rightarrow> 'a word" where
  "run bs c = fold update bs c"

lemma step_zero [simp]: "step 0 = 0"
  using step_xor [of 0 0] by simp

lemma run_Nil [simp]: "run [] c = c"
  and run_Cons [simp]: "run (b # bs) c = run bs (update b c)"
  by (simp_all add: run_def)

lemma run_append: "run (as @ bs) c = run bs (run as c)"
  by (simp add: run_def)

lemma update_xor: "update a c XOR update b d = update (a XOR b) (c XOR d)"
  by (simp add: update_def step_xor [symmetric] absorb_xor xor_algebra)

text \<open>The checksum of an exclusive or is the exclusive or of the checksums.\<close>

lemma run_xor:
  "length as = length bs \<Longrightarrow>
   run as c XOR run bs d = run (map2 (XOR) as bs) (c XOR d)"
proof (induction as arbitrary: bs c d)
  case Nil
  then show ?case by simp
next
  case (Cons a as)
  then obtain b bs' where "bs = b # bs'" "length as = length bs'"
    by (cases bs) auto
  then show ?case using Cons.IH by (simp add: update_xor)
qed

lemma update_zero_byte: "update 0 c = step c"
  using absorb_xor [of 0 0] by (simp add: update_def)

lemma run_inj: "run bs c = run bs d \<longleftrightarrow> c = d"
proof -
  have "run bs x = 0 \<Longrightarrow> set bs \<subseteq> {0} \<Longrightarrow> x = 0" for x
    by (induction bs arbitrary: x) (auto simp: update_zero_byte dest: step_inj)
  moreover have "run bs c XOR run bs d = run (map2 (XOR) bs bs) (c XOR d)"
    by (rule run_xor) simp
  moreover have "set (map2 (XOR) bs bs) \<subseteq> {0}"
    by (auto simp: zip_same_conv_map)
  moreover have "run zs x = 0 \<Longrightarrow> set zs \<subseteq> {0} \<Longrightarrow> x = 0" for zs x
    by (induction zs arbitrary: x) (auto simp: update_zero_byte dest: step_inj)
  ultimately show ?thesis by (metis xor_eq_0_iff)
qed

lemma update_byte_inj: "update a c = update b c \<longleftrightarrow> a = b"
proof
  assume "update a c = update b c"
  then have "step (absorb (a XOR b)) = 0"
    using update_xor [of a c b c] by (simp add: update_def)
  then show "a = b" using step_inj absorb_inj by fastforce
qed simp

lemma update_pair_inj: "update b (update a c) = update b' (update a' c) \<Longrightarrow> a = a' \<and> b = b'"
proof -
  assume eq: "update b (update a c) = update b' (update a' c)"
  have "update (b XOR b') (update (a XOR a') 0) =
      update b (update a c) XOR update b' (update a' c)"
    by (simp add: update_xor)
  then have "step (step (absorb (a XOR a')) XOR absorb (b XOR b')) = 0"
    using eq by (simp add: update_def)
  then have "step (absorb (a XOR a')) = absorb (b XOR b')"
    using step_inj by fastforce
  then show ?thesis using pair_inj by fastforce
qed

text \<open>
  Corruption confined to two adjacent bytes, wherever they are, always changes the checksum.
\<close>

lemma run_detects_pair:
  assumes "Suc i < length bs" and "run (bs[i := a, Suc i := b]) c = run bs c"
  shows "bs[i := a, Suc i := b] = bs"
proof -
  define pre post where "pre = take i bs" and "post = drop (Suc (Suc i)) bs"
  have split: "bs = pre @ bs ! i # bs ! Suc i # post"
    using assms(1) by (simp add: pre_def post_def Cons_nth_drop_Suc id_take_nth_drop [symmetric])
  have len: "length pre = i" using assms(1) by (simp add: pre_def)
  have upd: "bs[i := a, Suc i := b] = pre @ a # b # post"
    by (subst split, simp add: list_update_append len)
  have "run post (update b (update a (run pre c))) =
      run post (update (bs ! Suc i) (update (bs ! i) (run pre c)))"
    using assms(2) split upd by (metis run_append run_Cons)
  then have "a = bs ! i \<and> b = bs ! Suc i"
    using run_inj update_pair_inj by blast
  then show ?thesis using split upd by metis
qed

end

section \<open>CRC-16 of the Q subchannel and the CD-Text packs\<close>

definition crc16_bit :: "u16 \<Rightarrow> u16" where
  "crc16_bit crc = (if crc AND 0x8000 \<noteq> 0 then push_bit 1 crc XOR 0x1021 else push_bit 1 crc)"

definition crc16_byte :: "u16 \<Rightarrow> u16" where
  "crc16_byte crc = (crc16_bit ^^ 8) crc"

definition adsc_crc16 :: "u8 list \<Rightarrow> u16" where
  "adsc_crc16 data = fold (\<lambda>b crc. crc16_byte (crc XOR push_bit 8 (ucast b))) data 0"

lemma and_msb16: "(x :: u16) AND 0x8000 = 0 \<longleftrightarrow> \<not> bit x 15"
  using and_exp_eq_0_iff_not_bit [of x 15] by simp

lemma crc16_bit_xor: "crc16_bit (x XOR y) = crc16_bit x XOR crc16_bit y"
  by (simp add: crc16_bit_def and_msb16 bit_xor_iff xor_algebra)

lemma crc16_bit_inj: "crc16_bit x = 0 \<Longrightarrow> x = 0"
proof -
  assume z: "crc16_bit x = 0"
  have "\<not> bit x 15"
  proof
    assume "bit x 15"
    then have "push_bit 1 x = 0x1021"
      using z by (simp add: crc16_bit_def and_msb16)
    moreover have "\<not> bit (push_bit 1 x) 0" by (simp only: bit_push_bit_iff) simp
    moreover have "bit (0x1021 :: u16) 0" by simp
    ultimately show False by metis
  qed
  then have "push_bit 1 x = 0" using z by (simp add: crc16_bit_def and_msb16)
  show "x = 0"
  proof (rule bit_word_eqI)
    fix n assume "n < LENGTH(16)"
    moreover have "\<not> bit (push_bit 1 x) (Suc n)"
      by (simp only: \<open>push_bit 1 x = 0\<close> bit_0_eq) simp
    ultimately have "n = 15 \<or> \<not> bit x n"
      by (auto simp only: bit_push_bit_iff) auto
    then show "bit x n = bit 0 n"
      using \<open>\<not> bit x 15\<close> by auto
  qed
qed

lemma funpow_xor:
  fixes f :: "'a::len word \<Rightarrow> 'a word"
  assumes "\<And>x y. f (x XOR y) = f x XOR f y"
  shows "(f ^^ n) (x XOR y) = (f ^^ n) x XOR (f ^^ n) y"
  by (induction n) (simp_all add: assms)

lemma funpow_inj0:
  fixes f :: "'a::len word \<Rightarrow> 'a word"
  assumes "\<And>x. f x = 0 \<Longrightarrow> x = 0"
  shows "(f ^^ n) x = 0 \<Longrightarrow> x = 0"
  by (induction n) (auto dest: assms)

lemma push_ucast_inj:
  assumes "k + 8 \<le> LENGTH('a::len)" and "push_bit k (ucast (a :: u8) :: 'a word) = 0"
  shows "a = 0"
proof (rule bit_word_eqI)
  fix n assume n: "n < LENGTH(8)"
  have "bit (push_bit k (ucast a :: 'a word)) (k + n) = bit a n"
    using assms(1) n by (simp add: bit_push_bit_iff bit_ucast_iff)
  then show "bit a n = bit 0 n" using assms(2) by simp
qed

lemma crc16_bits_shift:
  "n \<le> 16 \<Longrightarrow> (\<And>k. 16 \<le> k + n \<Longrightarrow> \<not> bit x k) \<Longrightarrow> (crc16_bit ^^ n) x = push_bit n x"
proof (induction n)
  case 0
  then show ?case by simp
next
  case (Suc n)
  have "(crc16_bit ^^ Suc n) x = crc16_bit (push_bit n x)" using Suc by simp
  also have "\<dots> = push_bit 1 (push_bit n x)"
    using Suc.prems(2) [of "15 - n"] Suc.prems(1)
    by (simp add: crc16_bit_def and_msb16 bit_push_bit_iff)
  finally show ?case by (simp only: push_bit_push_bit) (simp only: plus_1_eq_Suc)
qed

interpretation c16: crc_register crc16_byte "\<lambda>b. push_bit 8 (ucast b)"
proof
  show lin: "crc16_byte (x XOR y) = crc16_byte x XOR crc16_byte y" for x y
    unfolding crc16_byte_def by (rule funpow_xor) (rule crc16_bit_xor)
  show inj: "crc16_byte x = 0 \<Longrightarrow> x = 0" for x
    unfolding crc16_byte_def by (rule funpow_inj0) (rule crc16_bit_inj)
  show "push_bit 8 (ucast (a XOR b)) = push_bit 8 (ucast a) XOR (push_bit 8 (ucast b) :: u16)"
    for a b :: u8
    by (rule bit_word_eqI) (auto simp: bit_push_bit_iff bit_xor_iff bit_ucast_iff)
  show "push_bit 8 (ucast a) = (0 :: u16) \<Longrightarrow> a = 0" for a :: u8
    by (rule push_ucast_inj [of 8]) simp_all
  show "a = 0 \<and> b = 0" if "crc16_byte (push_bit 8 (ucast a)) = push_bit 8 (ucast b)"
    for a b :: u8
  proof -
    have "crc16_byte (ucast b) = push_bit 8 (ucast b)"
      unfolding crc16_byte_def
      by (rule crc16_bits_shift) (auto simp: bit_ucast_iff dest: bit_imp_le_length)
    then have "crc16_byte (push_bit 8 (ucast a) XOR ucast b) = 0"
      using that lin [of "push_bit 8 (ucast a)" "ucast b"] by simp
    then have z: "(push_bit 8 (ucast a) XOR ucast b :: u16) = 0" by (rule inj)
    have "bit (push_bit 8 (ucast a) XOR ucast b :: u16) (8 + n) = bit a n"
      "bit (push_bit 8 (ucast a) XOR ucast b :: u16) n = bit b n" if "n < 8" for n
      using that by (auto simp: bit_xor_iff bit_push_bit_iff bit_ucast_iff
          dest: bit_imp_le_length)
    then have "\<not> bit a n \<and> \<not> bit b n" if "n < 8" for n using that z by simp
    then show ?thesis by (auto intro!: bit_word_eqI)
  qed
qed

lemma adsc_crc16_run: "adsc_crc16 bs = c16.run bs 0"
  by (simp add: adsc_crc16_def c16.run_def c16.update_def [abs_def])

section \<open>CRC-32 of the repair path\<close>

definition crc32_bit :: "u32 \<Rightarrow> u32" where
  "crc32_bit c = (if c AND 1 \<noteq> 0 then 0xEDB88320 XOR drop_bit 1 c else drop_bit 1 c)"

definition crc32_step :: "u32 \<Rightarrow> u32" where
  "crc32_step c = (crc32_bit ^^ 8) c"

text \<open>\<open>crc_tab[s][i]\<close> of \<open>crc_init\<close>: table 0 bit by bit, the others from the one before.\<close>

fun crc_tab :: "nat \<Rightarrow> u8 \<Rightarrow> u32" where
  "crc_tab 0 i = crc32_step (ucast i)"
| "crc_tab (Suc s) i = drop_bit 8 (crc_tab s i) XOR crc_tab 0 (ucast (crc_tab s i))"

definition le32 :: "u8 \<Rightarrow> u8 \<Rightarrow> u8 \<Rightarrow> u8 \<Rightarrow> u32" where
  "le32 b0 b1 b2 b3 =
     ucast b0 OR push_bit 8 (ucast b1) OR push_bit 16 (ucast b2) OR push_bit 24 (ucast b3)"

text \<open>The byte loop, and the whole of \<open>crc_update\<close>: eight bytes at a time while there are eight.\<close>

fun crc_update_tail :: "u32 \<Rightarrow> u8 list \<Rightarrow> u32" where
  "crc_update_tail crc [] = crc"
| "crc_update_tail crc (p # ps) =
     crc_update_tail (crc_tab 0 (ucast (crc XOR ucast p)) XOR drop_bit 8 crc) ps"

fun crc_update :: "u32 \<Rightarrow> u8 list \<Rightarrow> u32" where
  "crc_update crc (p0 # p1 # p2 # p3 # p4 # p5 # p6 # p7 # ps) =
     (let a = le32 p0 p1 p2 p3 XOR crc; b = le32 p4 p5 p6 p7
      in crc_update
           (crc_tab 7 (ucast a) XOR crc_tab 6 (ucast (drop_bit 8 a))
            XOR crc_tab 5 (ucast (drop_bit 16 a)) XOR crc_tab 4 (ucast (drop_bit 24 a))
            XOR crc_tab 3 (ucast b) XOR crc_tab 2 (ucast (drop_bit 8 b))
            XOR crc_tab 1 (ucast (drop_bit 16 b)) XOR crc_tab 0 (ucast (drop_bit 24 b))) ps)"
| "crc_update crc ps = crc_update_tail crc ps"

text \<open>16-bit samples as the little-endian bytes the checksum runs over.\<close>

definition le_bytes :: "u16 list \<Rightarrow> u8 list" where
  "le_bytes v = concat (map (\<lambda>w. [ucast w, ucast (drop_bit 8 w)]) v)"

definition adsc_ctdb_crc32_words :: "u16 list \<Rightarrow> u32" where
  "adsc_ctdb_crc32_words v = crc_update 0xFFFFFFFF (le_bytes v) XOR 0xFFFFFFFF"

lemma and_1_word: "(x :: u32) AND 1 = 0 \<longleftrightarrow> \<not> bit x 0"
  using and_exp_eq_0_iff_not_bit [of x 0] by simp

lemma crc32_bit_xor: "crc32_bit (x XOR y) = crc32_bit x XOR crc32_bit y"
  by (simp add: crc32_bit_def and_1_word bit_xor_iff xor_algebra)

lemma crc32_bit_inj: "crc32_bit x = 0 \<Longrightarrow> x = 0"
proof -
  assume z: "crc32_bit x = 0"
  have "\<not> bit x 0"
  proof
    assume "bit x 0"
    then have "drop_bit 1 x = 0xEDB88320"
      using z by (simp add: crc32_bit_def and_1_word)
    moreover have "\<not> bit (drop_bit 1 x) 31"
      using bit_imp_le_length [of x 32] by (auto simp only: bit_drop_bit_eq o_def) simp
    moreover have "bit (0xEDB88320 :: u32) 31" by simp
    ultimately show False by metis
  qed
  then have d: "drop_bit 1 x = 0" using z by (simp add: crc32_bit_def and_1_word)
  show "x = 0"
  proof (rule bit_word_eqI)
    fix n assume "n < LENGTH(32)"
    have "bit x (Suc n') = bit (drop_bit 1 x) n'" for n' by (simp only: bit_drop_bit_eq o_def) simp
    then show "bit x n = bit 0 n"
      using \<open>\<not> bit x 0\<close> d by (cases n) auto
  qed
qed

text \<open>A register whose low bits are clear is only shifted.\<close>

lemma crc32_bits_shift:
  "n \<le> 32 \<Longrightarrow> (\<And>k. k < n \<Longrightarrow> \<not> bit x k) \<Longrightarrow> (crc32_bit ^^ n) x = drop_bit n x"
proof (induction n)
  case 0
  then show ?case by simp
next
  case (Suc n)
  have "(crc32_bit ^^ Suc n) x = crc32_bit (drop_bit n x)" using Suc by simp
  also have "\<dots> = drop_bit 1 (drop_bit n x)"
    using Suc.prems(2) [of n] by (simp add: crc32_bit_def and_1_word bit_drop_bit_eq)
  finally show ?case by (simp only: drop_bit_drop_bit) (simp only: plus_1_eq_Suc)
qed

lemma crc32_step_xor: "crc32_step (x XOR y) = crc32_step x XOR crc32_step y"
  unfolding crc32_step_def by (rule funpow_xor) (rule crc32_bit_xor)

lemma crc32_step_split: "crc32_step x = crc_tab 0 (ucast x) XOR drop_bit 8 x"
proof -
  define hi where "hi = x XOR ucast (ucast x :: u8)"
  have bits: "bit hi k \<longleftrightarrow> bit x k \<and> 8 \<le> k" for k
    using bit_imp_le_length [of x k] by (auto simp: hi_def bit_xor_iff bit_ucast_iff)
  have "crc32_step hi = drop_bit 8 hi"
    unfolding crc32_step_def by (rule crc32_bits_shift) (auto simp: bits)
  also have "drop_bit 8 hi = drop_bit 8 x"
    by (rule bit_word_eqI) (auto simp: bit_drop_bit_eq bits)
  finally have "crc32_step (ucast (ucast x :: u8) XOR hi) =
      crc32_step (ucast (ucast x :: u8)) XOR drop_bit 8 x"
    by (simp add: crc32_step_xor)
  then show ?thesis by (simp add: hi_def xor_algebra)
qed

lemma crc_tab_power: "crc_tab s i = (crc32_step ^^ Suc s) (ucast i)"
proof (induction s)
  case (Suc s)
  have "crc_tab (Suc s) i = crc32_step (crc_tab s i)"
    by (simp only: crc32_step_split [of "crc_tab s i"] crc_tab.simps(2) xor.commute)
  then show ?case using Suc by simp
qed simp

lemma crc32_step_inj: "crc32_step x = 0 \<Longrightarrow> x = 0"
  unfolding crc32_step_def by (rule funpow_inj0) (rule crc32_bit_inj)

interpretation c32: crc_register crc32_step ucast
proof
  show "crc32_step (x XOR y) = crc32_step x XOR crc32_step y" for x y
    by (rule crc32_step_xor)
  show inj: "crc32_step x = 0 \<Longrightarrow> x = 0" for x
    by (rule crc32_step_inj)
  show "ucast (a XOR b) = ucast a XOR (ucast b :: u32)" for a b :: u8
    by (rule bit_word_eqI) (auto simp: bit_xor_iff bit_ucast_iff)
  show "ucast a = (0 :: u32) \<Longrightarrow> a = 0" for a :: u8
    using push_ucast_inj [of 0 a, where 'a = 32] by simp
  show "a = 0 \<and> b = 0" if eq: "crc32_step (ucast a) = ucast b" for a b :: u8
  proof -
    have "(crc32_bit ^^ 8) (push_bit 8 (ucast b)) = drop_bit 8 (push_bit 8 (ucast b))"
      by (rule crc32_bits_shift) (auto simp: bit_push_bit_iff)
    also have "drop_bit 8 (push_bit 8 (ucast b)) = (ucast b :: u32)"
      by (rule bit_word_eqI)
        (auto simp: bit_drop_bit_eq bit_push_bit_iff bit_ucast_iff dest: bit_imp_le_length)
    finally have "crc32_step (push_bit 8 (ucast b)) = crc32_step (ucast a)"
      using eq by (simp only: crc32_step_def)
    then have "crc32_step (push_bit 8 (ucast b) XOR ucast a) = 0"
      by (simp add: crc32_step_xor)
    then have z: "(push_bit 8 (ucast b) XOR ucast a :: u32) = 0" by (rule inj)
    have "bit (push_bit 8 (ucast b) XOR ucast a :: u32) (8 + n) = bit b n"
      "bit (push_bit 8 (ucast b) XOR ucast a :: u32) n = bit a n" if "n < 8" for n
      using that by (auto simp: bit_xor_iff bit_push_bit_iff bit_ucast_iff
          dest: bit_imp_le_length)
    then have "\<not> bit a n \<and> \<not> bit b n" if "n < 8" for n using that z by simp
    then show ?thesis by (auto intro!: bit_word_eqI)
  qed
qed

lemma drop_bit_ucast_byte: "drop_bit 8 (ucast (p :: u8) :: u32) = 0"
  by (rule bit_word_eqI) (auto simp: bit_drop_bit_eq bit_ucast_iff dest: bit_imp_le_length)

lemma crc_update_tail_run: "crc_update_tail c ps = c32.run ps c"
  by (induction ps arbitrary: c)
    (simp_all add: c32.update_def crc32_step_split drop_bit_ucast_byte del: crc_tab.simps)

lemma crc_tab_Suc_step: "crc_tab (Suc s) i = crc32_step (crc_tab s i)"
  by (simp only: crc_tab_power) simp

lemma crc_tab_nums:
  "crc_tab 1 i = crc32_step (crc_tab 0 i)" "crc_tab 2 i = crc32_step (crc_tab 1 i)"
  "crc_tab 3 i = crc32_step (crc_tab 2 i)" "crc_tab 4 i = crc32_step (crc_tab 3 i)"
  "crc_tab 5 i = crc32_step (crc_tab 4 i)" "crc_tab 6 i = crc32_step (crc_tab 5 i)"
  "crc_tab 7 i = crc32_step (crc_tab 6 i)"
  by (simp_all only: crc_tab_Suc_step [symmetric]) (simp_all add: eval_nat_numeral)

lemma funpow4: "(f ^^ 4) x = f (f (f (f x)))"
  by (simp add: eval_nat_numeral)

text \<open>Four zero bytes through the register, read off the tables byte by byte.\<close>

lemma crc32_step4:
  "(crc32_step ^^ 4) c = crc_tab 3 (ucast c) XOR crc_tab 2 (ucast (drop_bit 8 c))
     XOR crc_tab 1 (ucast (drop_bit 16 c)) XOR crc_tab 0 (ucast (drop_bit 24 c))"
proof -
  let ?S = crc32_step and ?T = crc_tab
  have d: "drop_bit 8 (drop_bit 8 c) = drop_bit 16 c" "drop_bit 8 (drop_bit 16 c) = drop_bit 24 c"
    by (simp_all add: drop_bit_drop_bit)
  have z: "drop_bit 8 (drop_bit 24 c) = 0"
    using bit_imp_le_length [of c] by (auto intro!: bit_word_eqI simp: bit_drop_bit_eq)
  have s1: "?S c = ?T 0 (ucast c) XOR drop_bit 8 c" by (rule crc32_step_split)
  have s2: "?S (?S c) = ?T 1 (ucast c) XOR ?T 0 (ucast (drop_bit 8 c)) XOR drop_bit 16 c"
    by (simp only: s1 c32.step_xor crc32_step_split [of "drop_bit 8 c"] d crc_tab_nums)
  have s3: "?S (?S (?S c)) = ?T 2 (ucast c) XOR ?T 1 (ucast (drop_bit 8 c))
      XOR ?T 0 (ucast (drop_bit 16 c)) XOR drop_bit 24 c"
    by (simp only: s2 c32.step_xor crc32_step_split [of "drop_bit 16 c"] d crc_tab_nums)
  show ?thesis
    by (simp only: funpow4 s3 c32.step_xor crc32_step_split [of "drop_bit 24 c"] z crc_tab_nums
        xor.right_neutral)
qed

lemma bit_le32:
  "bit (le32 p0 p1 p2 p3) n \<longleftrightarrow>
     (if n < 8 then bit p0 n else if n < 16 then bit p1 (n - 8)
      else if n < 24 then bit p2 (n - 16) else bit p3 (n - 24))"
  using bit_imp_le_length [of p0 n] bit_imp_le_length [of p1 "n - 8"]
    bit_imp_le_length [of p2 "n - 16"] bit_imp_le_length [of p3 "n - 24"]
  by (auto simp: le32_def bit_or_iff bit_push_bit_iff bit_ucast_iff)

lemma le32_bytes:
  "ucast (le32 p0 p1 p2 p3) = p0" "ucast (drop_bit 8 (le32 p0 p1 p2 p3)) = p1"
  "ucast (drop_bit 16 (le32 p0 p1 p2 p3)) = p2" "ucast (drop_bit 24 (le32 p0 p1 p2 p3)) = p3"
  by (rule bit_word_eqI, simp add: bit_le32 bit_drop_bit_eq bit_ucast_iff)+

lemma run4:
  "c32.run [p0, p1, p2, p3] c = (crc32_step ^^ 4) (le32 p0 p1 p2 p3 XOR c)"
proof -
  have "(crc32_step ^^ 4) (le32 p0 p1 p2 p3) =
      crc_tab 3 p0 XOR crc_tab 2 p1 XOR crc_tab 1 p2 XOR crc_tab 0 p3"
    by (simp only: crc32_step4 le32_bytes)
  then show ?thesis
    by (simp only: c32.run_Cons c32.run_Nil c32.update_def funpow4 c32.step_xor crc_tab_nums
        crc_tab.simps(1)) (simp only: xor_algebra)
qed

lemma crc_update_run: "crc_update c ps = c32.run ps c"
proof (induction c ps rule: crc_update.induct)
  case (1 crc p0 p1 p2 p3 p4 p5 p6 p7 ps)
  define a where "a = le32 p0 p1 p2 p3 XOR crc"
  define b where "b = le32 p4 p5 p6 p7"
  let ?x = "crc_tab 7 (ucast a) XOR crc_tab 6 (ucast (drop_bit 8 a))
            XOR crc_tab 5 (ucast (drop_bit 16 a)) XOR crc_tab 4 (ucast (drop_bit 24 a))
            XOR crc_tab 3 (ucast b) XOR crc_tab 2 (ucast (drop_bit 8 b))
            XOR crc_tab 1 (ucast (drop_bit 16 b)) XOR crc_tab 0 (ucast (drop_bit 24 b))"
  have shift: "(crc32_step ^^ 4) (crc_tab s i) = crc_tab (s + 4) i" for s i
    by (simp only: funpow4 crc_tab_Suc_step [symmetric]) (simp only: eval_nat_numeral arith_simps add_Suc_right add_0_right)
  have "c32.run [p0, p1, p2, p3, p4, p5, p6, p7] crc =
      c32.run [p4, p5, p6, p7] (c32.run [p0, p1, p2, p3] crc)"
    by simp
  also have "\<dots> = (crc32_step ^^ 4) b XOR (crc32_step ^^ 4) ((crc32_step ^^ 4) a)"
    by (simp only: run4 a_def b_def funpow_xor [OF c32.step_xor])
  also have "(crc32_step ^^ 4) ((crc32_step ^^ 4) a) =
      crc_tab 7 (ucast a) XOR crc_tab 6 (ucast (drop_bit 8 a))
      XOR crc_tab 5 (ucast (drop_bit 16 a)) XOR crc_tab 4 (ucast (drop_bit 24 a))"
    by (simp only: crc32_step4 [of a] funpow_xor [OF c32.step_xor] shift) simp
  finally have "c32.run [p0, p1, p2, p3, p4, p5, p6, p7] crc = ?x"
    by (simp only: crc32_step4 [of b]) (simp only: xor_algebra)
  moreover have "crc_update crc (p0 # p1 # p2 # p3 # p4 # p5 # p6 # p7 # ps) = crc_update ?x ps"
    by (simp only: crc_update.simps Let_def a_def b_def)
  ultimately show ?case using 1 by (simp add: a_def b_def)
qed (simp_all add: crc_update_tail_run)

text \<open>
  C24: the eight-bytes-at-a-time table kernel computes the bit-serial CRC-32 of the same bytes:
  for every register and every byte string, whatever its length modulo eight.
\<close>

theorem crc_update_slicing_correct:
  "crc_update crc ps = fold (\<lambda>p c. (crc32_bit ^^ 8) (c XOR ucast p)) ps crc"
  by (simp only: crc_update_run c32.run_def c32.update_def [abs_def] crc32_step_def)

lemma le_bytes_append: "le_bytes (u @ v) = le_bytes u @ le_bytes v"
  by (simp add: le_bytes_def)

lemma le_pair_inj:
  assumes "ucast v = (ucast w :: u8)" and "ucast (drop_bit 8 v) = (ucast (drop_bit 8 w) :: u8)"
  shows "v = (w :: u16)"
proof (rule bit_word_eqI)
  fix n assume "n < LENGTH(16)"
  moreover have "bit (ucast v :: u8) k = bit (ucast w :: u8) k"
    "bit (ucast (drop_bit 8 v) :: u8) k = bit (ucast (drop_bit 8 w) :: u8) k" for k
    using assms by simp_all
  then have "k < 8 \<Longrightarrow> bit v k = bit w k" "k < 8 \<Longrightarrow> bit v (8 + k) = bit w (8 + k)" for k
    by (auto simp: bit_ucast_iff bit_drop_bit_eq)
  ultimately show "bit v n = bit w n"
    by (cases "n < 8") (use le_Suc_ex [of 8 n] in auto)
qed

text \<open>
  Changing one 16-bit sample of the window, whatever the window and whatever the change,
  changes the CRC-32 the repair reports for it.
\<close>

theorem crc32_words_detects_sample:
  assumes "i < length v" and "w \<noteq> v ! i"
  shows "adsc_ctdb_crc32_words (v[i := w]) \<noteq> adsc_ctdb_crc32_words v"
proof
  assume "adsc_ctdb_crc32_words (v[i := w]) = adsc_ctdb_crc32_words v"
  then have eq: "c32.run (le_bytes (v[i := w])) 0xFFFFFFFF = c32.run (le_bytes v) 0xFFFFFFFF"
    by (simp only: adsc_ctdb_crc32_words_def crc_update_run xor_eq_right_iff)
  have split: "v = take i v @ v ! i # drop (Suc i) v" "v[i := w] = take i v @ w # drop (Suc i) v"
    using assms(1) by (simp_all add: id_take_nth_drop upd_conv_take_nth_drop)
  have "le_bytes (take i v @ x # drop (Suc i) v) =
      le_bytes (take i v) @ ucast x # ucast (drop_bit 8 x) # le_bytes (drop (Suc i) v)" for x
    by (simp add: le_bytes_def)
  then have "c32.update (ucast (drop_bit 8 w)) (c32.update (ucast w) (c32.run (le_bytes (take i v)) 0xFFFFFFFF))
    = c32.update (ucast (drop_bit 8 (v ! i))) (c32.update (ucast (v ! i)) (c32.run (le_bytes (take i v)) 0xFFFFFFFF))"
    using eq split by (metis c32.run_append c32.run_Cons c32.run_inj)
  then show False using c32.update_pair_inj le_pair_inj assms(2) by blast
qed

theorem crc32_words_detects_sample_witness:
  "adsc_ctdb_crc32_words ([1, 2, 3][1 := 7]) \<noteq> adsc_ctdb_crc32_words [1, 2, 3]"
  by (rule crc32_words_detects_sample) simp_all

end
