(* ===== verification/SubQ.thy ===== *)
theory SubQ
  imports Crc
begin

text \<open>
  The Q subchannel (\<^verbatim>\<open>src/cdda/subq.c\<close>): addresses as minute:second:frame, extraction of
  the Q frame from the interleaved P-W stream, and the CRC-gated frame decoder.
\<close>

section \<open>Addresses\<close>

definition accudisc_msf_to_lba :: "u8 \<Rightarrow> u8 \<Rightarrow> u8 \<Rightarrow> int" where
  "accudisc_msf_to_lba m s f = (uint m * 60 + uint s) * 75 + uint f - 150"

text \<open>The three out-parameters as a triple; a negative sum (deep lead-in) is clamped to 0.\<close>

definition accudisc_lba_to_msf :: "int \<Rightarrow> u8 \<times> u8 \<times> u8" where
  "accudisc_lba_to_msf lba =
     (let l = (if lba + 150 < 0 then 0 else lba + 150)
      in (word_of_int (l div (60 * 75)), word_of_int ((l div 75) mod 60), word_of_int (l mod 75)))"

text \<open>
  An address on disc as a value of its own, ordered as it is played: minute, second, frame.
\<close>

datatype msf = MSF (msf_min: u8) (msf_sec: u8) (msf_frm: u8)

instantiation msf :: linorder
begin

definition less_eq_msf :: "msf \<Rightarrow> msf \<Rightarrow> bool" where
  "less_eq_msf a b \<longleftrightarrow> msf_min a < msf_min b \<or> msf_min a = msf_min b \<and>
     (msf_sec a < msf_sec b \<or> msf_sec a = msf_sec b \<and> msf_frm a \<le> msf_frm b)"

definition less_msf :: "msf \<Rightarrow> msf \<Rightarrow> bool" where
  "less_msf a b \<longleftrightarrow> a \<le> b \<and> \<not> b \<le> (a :: msf)"

instance
  by standard (auto simp: less_eq_msf_def less_msf_def msf.expand)

end

definition msf_lba :: "msf \<Rightarrow> int" where
  "msf_lba a = accudisc_msf_to_lba (msf_min a) (msf_sec a) (msf_frm a)"

definition msf_canonical :: "msf \<Rightarrow> bool" where
  "msf_canonical a \<longleftrightarrow> msf_sec a < 60 \<and> msf_frm a < 75"

lemma uint_less_numeral_u8: "(w :: u8) < numeral n \<longleftrightarrow> uint w < uint (numeral n :: u8)"
  by (simp add: word_less_def)

lemma uint_u8_range [simp]: "0 \<le> uint (w :: u8)" "uint (w :: u8) < 256"
  using unsigned_less [of w, where 'a = int] by simp_all

lemma uint_word_of_int_small: "0 \<le> x \<Longrightarrow> x < 256 \<Longrightarrow> uint (word_of_int x :: u8) = x"
  by (simp add: uint_word_of_int_eq take_bit_int_eq_self)

lemma div_div_4500: "(l :: int) div 75 div 60 = l div 4500"
  by (simp add: zdiv_zmult2_eq [symmetric])

lemma div_mod_radix:
  fixes a f n :: int
  assumes "0 \<le> f" "f < n"
  shows "(a * n + f) div n = a" and "(a * n + f) mod n = f"
  using assms by simp_all

lemma msf_to_lba_inverse:
  assumes "s < 60" and "f < 75"
  shows "accudisc_lba_to_msf (accudisc_msf_to_lba m s f) = (m, s, f)"
proof -
  have b: "uint s < 60" "uint f < 75" using assms by (simp_all add: uint_less_numeral_u8)
  define l where "l = (uint m * 60 + uint s) * 75 + uint f"
  have l: "accudisc_msf_to_lba m s f + 150 = l" "0 \<le> l"
    by (simp_all add: accudisc_msf_to_lba_def l_def)
  have 1: "l div 75 = uint m * 60 + uint s" and 3: "l mod 75 = uint f"
    unfolding l_def by (rule div_mod_radix; use b in simp)+
  have 2: "l div 4500 = uint m" and 4: "(l div 75) mod 60 = uint s"
    using b by (simp_all only: 1 div_div_4500 [symmetric] div_mod_radix uint_u8_range)
  show ?thesis
    using l(2) unfolding accudisc_lba_to_msf_def Let_def l(1) by (simp add: 2 3 4)
qed

lemma lba_to_msf_inverse:
  assumes "- 150 \<le> lba" and "lba < 256 * 60 * 75 - 150"
    and "accudisc_lba_to_msf lba = (m, s, f)"
  shows "accudisc_msf_to_lba m s f = lba" and "s < 60" and "f < 75"
proof -
  define l where "l = lba + 150"
  have l: "0 \<le> l" "l < 1152000" using assms(1,2) by (simp_all add: l_def)
  have "m = word_of_int (l div 4500)" "s = word_of_int ((l div 75) mod 60)"
    "f = word_of_int (l mod 75)"
    using assms(3) l by (simp_all add: accudisc_lba_to_msf_def Let_def l_def)
  moreover have "0 \<le> l div 4500" "l div 4500 < 256" using l by simp_all
  moreover have "0 \<le> (l div 75) mod 60" "(l div 75) mod 60 < 60" "0 \<le> l mod 75" "l mod 75 < 75"
    by simp_all
  ultimately have u: "uint m = l div 75 div 60" "uint s = (l div 75) mod 60" "uint f = l mod 75"
    by (simp_all only: uint_word_of_int_small div_div_4500)
  have "(uint m * 60 + uint s) * 75 + uint f = l"
    unfolding u by (simp only: div_mult_mod_eq)
  then show "accudisc_msf_to_lba m s f = lba"
    by (simp add: accudisc_msf_to_lba_def l_def)
  show "s < 60" "f < 75" by (simp_all add: uint_less_numeral_u8 u)
qed

lemma lex3_le_iff:
  fixes a b :: int
  assumes "0 \<le> s" "s < 60" "0 \<le> t" "t < 60" "0 \<le> f" "f < 75" "0 \<le> g" "g < 75"
  shows "(a * 60 + s) * 75 + f \<le> (b * 60 + t) * 75 + g \<longleftrightarrow>
    a < b \<or> a = b \<and> (s < t \<or> s = t \<and> f \<le> g)"
proof -
  consider "a < b" | "b < a" | "a = b" "s < t" | "a = b" "t < s" | "a = b" "s = t" by linarith
  then show ?thesis using assms by cases auto
qed

lemma msf_le_iff_lba:
  assumes "msf_canonical a" and "msf_canonical b"
  shows "a \<le> b \<longleftrightarrow> msf_lba a \<le> msf_lba b"
  using assms lex3_le_iff [of "uint (msf_sec a)" "uint (msf_sec b)" "uint (msf_frm a)"
      "uint (msf_frm b)" "uint (msf_min a)" "uint (msf_min b)"]
  by (simp add: msf_canonical_def uint_less_numeral_u8 less_eq_msf_def msf_lba_def
      accudisc_msf_to_lba_def word_less_def word_le_def word_uint_eq_iff add.assoc)

section \<open>Extraction of the Q frame\<close>

text \<open>
  \<open>q[i >> 3] = (q[i >> 3] << 1) | ((raw[i] >> 6) & 1)\<close> for the 96 subcode bytes in turn.
\<close>

definition extract_step :: "u8 list \<Rightarrow> nat \<Rightarrow> u8 list \<Rightarrow> u8 list" where
  "extract_step raw i q =
     q[i div 8 := push_bit 1 (q ! (i div 8)) OR (drop_bit 6 (raw ! i) AND 1)]"

definition accudisc_sub_extract_q :: "u8 list \<Rightarrow> u8 list" where
  "accudisc_sub_extract_q raw = fold (extract_step raw) [0..<96] (replicate 12 0)"

lemma length_fold_extract [simp]: "length (fold (extract_step raw) is q) = length q"
  by (induction "is" arbitrary: q) (simp_all add: extract_step_def)

lemma length_sub_extract_q [simp]: "length (accudisc_sub_extract_q raw) = 12"
  by (simp add: accudisc_sub_extract_q_def)

lemma bit_and_1 [simp]: "bit (x AND 1 :: 'a::len word) n \<longleftrightarrow> n = 0 \<and> bit x 0"
  by (auto simp: bit_and_iff bit_1_iff)

definition shift_in :: "u8 list \<Rightarrow> nat \<Rightarrow> u8 \<Rightarrow> u8" where
  "shift_in raw i b = push_bit 1 b OR (drop_bit 6 (raw ! i) AND 1)"

lemma bit_shift_in:
  "bit (shift_in raw i b) j \<longleftrightarrow>
     (if j = 0 then bit (raw ! i) 6 else j < 8 \<and> bit b (j - 1))"
  unfolding shift_in_def
  by (simp only: bit_or_iff bit_push_bit_iff bit_and_1 bit_drop_bit_eq o_def) auto

lemma bit_fold_shift_in:
  "length is \<le> 8 \<Longrightarrow> bit (fold (shift_in raw) is 0) j \<longleftrightarrow>
     j < length is \<and> bit (raw ! (is ! (length is - Suc j))) 6"
proof (induction "is" arbitrary: j rule: rev_induct)
  case Nil
  then show ?case by simp
next
  case (snoc i "is")
  show ?case
  proof (cases j)
    case 0
    then show ?thesis by (simp add: bit_shift_in nth_append)
  next
    case (Suc k)
    have "bit (fold (shift_in raw) (is @ [i]) 0) j \<longleftrightarrow>
        j < 8 \<and> bit (fold (shift_in raw) is 0) k"
      by (simp add: Suc bit_shift_in)
    also have "\<dots> \<longleftrightarrow> j < 8 \<and> k < length is \<and> bit (raw ! (is ! (length is - Suc k))) 6"
      using snoc.IH [of k] snoc.prems by simp
    also have "\<dots> \<longleftrightarrow> j < length (is @ [i]) \<and>
        bit (raw ! ((is @ [i]) ! (length (is @ [i]) - Suc j))) 6"
      using snoc.prems by (auto simp: Suc nth_append)
    finally show ?thesis .
  qed
qed

lemma fold_extract_byte:
  "(\<And>i. i \<in> set is \<Longrightarrow> i div 8 = k) \<Longrightarrow> k < length q \<Longrightarrow>
   fold (extract_step raw) is q = q[k := fold (shift_in raw) is (q ! k)]"
  by (induction "is" arbitrary: q) (simp_all add: extract_step_def shift_in_def)

definition pack_byte :: "u8 list \<Rightarrow> nat \<Rightarrow> u8" where
  "pack_byte raw k = fold (shift_in raw) [8 * k..<8 * k + 8] 0"

lemma fold_extract_prefix:
  "n \<le> 12 \<Longrightarrow> fold (extract_step raw) [0..<8 * n] (replicate 12 0) =
     map (pack_byte raw) [0..<n] @ replicate (12 - n) 0"
proof (induction n)
  case 0
  then show ?case by simp
next
  case (Suc n)
  let ?q = "map (pack_byte raw) [0..<n] @ replicate (12 - n) 0"
  have split: "[0..<8 * Suc n] = [0..<8 * n] @ [8 * n..<8 * n + 8]"
    using upt_add_eq_append [of 0 "8 * n" 8] by (simp add: add.commute)
  have q: "?q ! n = 0" using Suc.prems by (simp add: nth_append)
  have "fold (extract_step raw) [0..<8 * Suc n] (replicate 12 0) =
      fold (extract_step raw) [8 * n..<8 * n + 8] ?q"
    using Suc by (simp only: split fold_append o_apply)
  also have "\<dots> = ?q[n := fold (shift_in raw) [8 * n..<8 * n + 8] (?q ! n)]"
    by (rule fold_extract_byte) (use Suc.prems in auto)
  also have "\<dots> = ?q[n := pack_byte raw n]"
    by (simp only: q pack_byte_def)
  also have "\<dots> = map (pack_byte raw) [0..<Suc n] @ replicate (12 - Suc n) 0"
    using Suc.prems by (cases "12 - n") (simp_all add: list_update_append Suc_diff_le)
  finally show ?case .
qed

lemma sub_extract_q_eq: "accudisc_sub_extract_q raw = map (pack_byte raw) [0..<12]"
  using fold_extract_prefix [of 12 raw] by (simp add: accudisc_sub_extract_q_def)

text \<open>Bit \<open>j\<close> of byte \<open>k\<close> is bit 6 of subcode byte \<open>8k + 7 - j\<close>: most significant bit first.\<close>

lemma bit_sub_extract_q:
  "k < 12 \<Longrightarrow> j < 8 \<Longrightarrow> bit (accudisc_sub_extract_q raw ! k) j \<longleftrightarrow> bit (raw ! (8 * k + 7 - j)) 6"
  by (simp add: sub_extract_q_eq pack_byte_def bit_fold_shift_in nth_append)

text \<open>
  The inverse the drive performs: one bit of each of the twelve bytes in bit 6 of each of the
  96 subcode bytes.
\<close>

definition sub_embed_q :: "u8 list \<Rightarrow> u8 list" where
  "sub_embed_q q = map (\<lambda>i. if bit (q ! (i div 8)) (7 - i mod 8) then 0x40 else 0) [0..<96]"

lemma sub_extract_embed:
  assumes "length q = 12"
  shows "accudisc_sub_extract_q (sub_embed_q q) = q"
proof (rule nth_equalityI)
  show "length (accudisc_sub_extract_q (sub_embed_q q)) = length q" using assms by simp
next
  fix k assume "k < length (accudisc_sub_extract_q (sub_embed_q q))"
  then have k: "k < 12" by simp
  have b6: "bit (if b then 0x40 else 0 :: u8) 6 \<longleftrightarrow> b" for b by simp
  show "accudisc_sub_extract_q (sub_embed_q q) ! k = q ! k"
  proof (rule bit_word_eqI)
    fix j assume "j < LENGTH(8)"
    then have j: "j < 8" by simp
    define r where "r = 7 - j"
    have r: "r < 8" "8 * k + 7 - j = 8 * k + r" "7 - r = j" using j by (simp_all add: r_def)
    then have "(8 * k + 7 - j) div 8 = k" "7 - (8 * k + 7 - j) mod 8 = j" "8 * k + 7 - j < 96"
      using k by simp_all
    then show "bit (accudisc_sub_extract_q (sub_embed_q q) ! k) j = bit (q ! k) j"
      by (simp only: bit_sub_extract_q [OF k j] sub_embed_q_def) (simp add: b6)
  qed
qed

lemma length_sub_embed_q [simp]: "length (sub_embed_q q) = 96"
  by (simp add: sub_embed_q_def)

lemma fold_extract_cong:
  assumes "\<forall>i \<in> set is. raw ! i = raw' ! i"
  shows "fold (extract_step raw) is q = fold (extract_step raw') is q"
  using assms by (intro List.fold_cong) (auto simp: extract_step_def)

lemma sub_extract_append:
  assumes "96 \<le> length s"
  shows "accudisc_sub_extract_q (s @ z) = accudisc_sub_extract_q s"
  unfolding accudisc_sub_extract_q_def using assms
  by (intro fold_extract_cong) (auto simp: nth_append)

lemma sub_extract_take:
  assumes "96 \<le> length s"
  shows "accudisc_sub_extract_q (take 96 s @ z) = accudisc_sub_extract_q s"
  using sub_extract_append [of "take 96 s" z] sub_extract_append [of "take 96 s" "drop 96 s"] assms
  by simp

section \<open>The Q frame decoder\<close>

record accudisc_q =
  q_adr :: u8
  q_control :: u8
  q_crc_ok :: bool
  q_tno :: u8
  q_index :: u8
  q_rel_m :: u8
  q_rel_s :: u8
  q_rel_f :: u8
  q_abs_m :: u8
  q_abs_s :: u8
  q_abs_f :: u8
  q_mcn :: "u8 list"
  q_isrc :: "u8 list"

definition q_zero :: accudisc_q where
  "q_zero = \<lparr>q_adr = 0, q_control = 0, q_crc_ok = False, q_tno = 0, q_index = 0,
     q_rel_m = 0, q_rel_s = 0, q_rel_f = 0, q_abs_m = 0, q_abs_s = 0, q_abs_f = 0,
     q_mcn = replicate 14 0, q_isrc = replicate 13 0\<rparr>"

definition bcd :: "u8 \<Rightarrow> u8" where
  "bcd v = drop_bit 4 v * 10 + (v AND 0x0f)"

definition isrc_char :: "u8 \<Rightarrow> u8" where
  "isrc_char v = v + 0x30"

text \<open>Nibble \<open>i\<close> of the packed digits that start at byte \<open>o\<close>, as an ASCII digit.\<close>

definition nibble_digit :: "u8 list \<Rightarrow> nat \<Rightarrow> nat \<Rightarrow> u8" where
  "nibble_digit q off i =
     (let byte = q ! (off + i div 2)
      in 0x30 + (if odd i then byte AND 0x0f else drop_bit 4 byte))"

definition q_decode_position :: "u8 list \<Rightarrow> accudisc_q \<Rightarrow> accudisc_q" where
  "q_decode_position q out = out\<lparr>q_tno := bcd (q ! 1), q_index := bcd (q ! 2),
     q_rel_m := bcd (q ! 3), q_rel_s := bcd (q ! 4), q_rel_f := bcd (q ! 5),
     q_abs_m := bcd (q ! 7), q_abs_s := bcd (q ! 8), q_abs_f := bcd (q ! 9)\<rparr>"

definition q_decode_mcn :: "u8 list \<Rightarrow> accudisc_q \<Rightarrow> accudisc_q" where
  "q_decode_mcn q out = out\<lparr>q_mcn := map (nibble_digit q 1) [0..<13] @ [0]\<rparr>"

definition q_decode_isrc :: "u8 list \<Rightarrow> accudisc_q \<Rightarrow> accudisc_q" where
  "q_decode_isrc q out = out\<lparr>q_isrc :=
     [isrc_char (drop_bit 2 (q ! 1)),
      isrc_char (push_bit 4 (q ! 1 AND 0x03) OR drop_bit 4 (q ! 2)),
      isrc_char (push_bit 2 (q ! 2 AND 0x0f) OR drop_bit 6 (q ! 3)),
      isrc_char (q ! 3 AND 0x3f), isrc_char (drop_bit 2 (q ! 4))]
     @ map (nibble_digit q 5) [0..<7] @ [0]\<rparr>"

definition be_word16 :: "u8 \<Rightarrow> u8 \<Rightarrow> u16" where
  "be_word16 hi lo = push_bit 8 (ucast hi) OR ucast lo"

text \<open>The decoded frame together with the return code (\<open>None\<close> is \<open>ACCUDISC_OK\<close>).\<close>

definition accudisc_q_parse :: "u8 list \<Rightarrow> accudisc_q \<times> accudisc_err option" where
  "accudisc_q_parse q =
     (let want = NOT (be_word16 (q ! 10) (q ! 11));
          out = q_zero\<lparr>q_control := drop_bit 4 (q ! 0), q_adr := q ! 0 AND 0x0f,
                       q_crc_ok := (adsc_crc16 (take 10 q) = want)\<rparr>
      in if \<not> q_crc_ok out then (out, Some ERR_CRC)
         else if q_adr out = 1 then (q_decode_position q out, None)
         else if q_adr out = 2 then (q_decode_mcn q out, None)
         else if q_adr out = 3 then (q_decode_isrc q out, None)
         else (out, None))"

lemma q_parse_crc_ok:
  "q_crc_ok (fst (accudisc_q_parse q)) \<longleftrightarrow>
     adsc_crc16 (take 10 q) = NOT (be_word16 (q ! 10) (q ! 11))"
  by (simp add: accudisc_q_parse_def Let_def q_decode_position_def q_decode_mcn_def
      q_decode_isrc_def)

lemma q_parse_bad:
  "\<not> q_crc_ok (fst (accudisc_q_parse q)) \<Longrightarrow>
   accudisc_q_parse q =
     (q_zero\<lparr>q_control := drop_bit 4 (q ! 0), q_adr := q ! 0 AND 0x0f\<rparr>, Some ERR_CRC)"
  unfolding q_parse_crc_ok by (simp add: accudisc_q_parse_def q_zero_def)

text \<open>What a disc carries: ten payload bytes sealed with the complemented checksum.\<close>

definition q_seal :: "u8 list \<Rightarrow> u8 list" where
  "q_seal p = (let c = NOT (adsc_crc16 p) in p @ [ucast (drop_bit 8 c), ucast c])"

lemma be_word16_split: "be_word16 (ucast (drop_bit 8 x)) (ucast x) = (x :: u16)"
  by (rule bit_word_eqI)
    (auto simp: be_word16_def bit_or_iff bit_push_bit_iff bit_ucast_iff bit_drop_bit_eq)

lemma q_seal_nth:
  assumes "length p = 10"
  shows "take 10 (q_seal p) = p" "i < 10 \<Longrightarrow> q_seal p ! i = p ! i"
    "be_word16 (q_seal p ! 10) (q_seal p ! 11) = NOT (adsc_crc16 p)"
    "length (q_seal p) = 12"
  using assms by (simp_all add: q_seal_def Let_def nth_append be_word16_split)

lemma q_seal_crc_ok: "length p = 10 \<Longrightarrow> q_crc_ok (fst (accudisc_q_parse (q_seal p)))"
  by (simp add: q_parse_crc_ok q_seal_nth)

definition to_bcd :: "nat \<Rightarrow> u8" where
  "to_bcd n = word_of_nat (n div 10 * 16 + n mod 10)"

lemma bcd_to_bcd: "n < 100 \<Longrightarrow> bcd (to_bcd n) = word_of_nat n"
proof -
  assume "n < 100"
  then have "n \<in> set [0..<100]" by simp
  moreover have "list_all (\<lambda>n. bcd (to_bcd n) = word_of_nat n) [0..<100]" by code_simp
  ultimately show ?thesis by (simp only: list_all_iff)
qed

text \<open>The payload of an ADR 1 frame: track, index, relative and absolute time.\<close>

definition position_payload ::
    "u8 \<Rightarrow> nat \<Rightarrow> nat \<Rightarrow> nat \<times> nat \<times> nat \<Rightarrow> nat \<times> nat \<times> nat \<Rightarrow> u8 list" where
  "position_payload control tno idx rt at =
     (case rt of (rm, rs, rf) \<Rightarrow> case at of (am, asec, af) \<Rightarrow>
       [push_bit 4 control OR 1, to_bcd tno, to_bcd idx, to_bcd rm, to_bcd rs, to_bcd rf, 0,
        to_bcd am, to_bcd asec, to_bcd af])"

lemma nibbles:
  assumes "(c :: u8) < 16"
  shows "drop_bit 4 (push_bit 4 c OR 1) = c" and "(push_bit 4 c OR 1) AND 0x0f = 1"
proof -
  have "unat c \<in> set [0..<16]" using assms by (simp add: word_less_nat_alt)
  moreover have "list_all (\<lambda>n. let c = (word_of_nat n :: u8) in
      drop_bit 4 (push_bit 4 c OR 1) = c \<and> (push_bit 4 c OR 1) AND 0x0f = 1) [0..<16]"
    by code_simp
  ultimately have "let c = (word_of_nat (unat c) :: u8) in
      drop_bit 4 (push_bit 4 c OR 1) = c \<and> (push_bit 4 c OR 1) AND 0x0f = 1"
    unfolding list_all_iff by blast
  then show "drop_bit 4 (push_bit 4 c OR 1) = c" "(push_bit 4 c OR 1) AND 0x0f = 1"
    by (simp_all only: Let_def of_nat_unat ucast_id)
qed

lemma q_parse_position:
  assumes "control < 16" and "tno < 100" and "idx < 100"
    and "rm < 100" "rs < 100" "rf < 100" "am < 100" "asec < 100" "af < 100"
  shows "accudisc_q_parse (q_seal (position_payload control tno idx (rm, rs, rf) (am, asec, af))) =
     (q_zero\<lparr>q_adr := 1, q_control := control, q_crc_ok := True,
        q_tno := word_of_nat tno, q_index := word_of_nat idx,
        q_rel_m := word_of_nat rm, q_rel_s := word_of_nat rs, q_rel_f := word_of_nat rf,
        q_abs_m := word_of_nat am, q_abs_s := word_of_nat asec, q_abs_f := word_of_nat af\<rparr>, None)"
proof -
  define p where "p = position_payload control tno idx (rm, rs, rf) (am, asec, af)"
  have len: "length p = 10" by (simp add: p_def position_payload_def)
  have c: "adsc_crc16 (take 10 (q_seal p)) = NOT (be_word16 (q_seal p ! 10) (q_seal p ! 11))"
    by (simp only: q_seal_nth [OF len]) simp
  have "q_seal p ! 0 = push_bit 4 control OR 1"
    using len by (simp add: q_seal_nth) (simp add: p_def position_payload_def)
  then have h: "drop_bit 4 (q_seal p ! 0) = control" "q_seal p ! 0 AND 0x0f = 1"
    using nibbles [OF assms(1)] by simp_all
  have "accudisc_q_parse (q_seal p) =
      (q_decode_position (q_seal p) (q_zero\<lparr>q_control := control, q_adr := 1, q_crc_ok := True\<rparr>),
       None)"
    unfolding accudisc_q_parse_def Let_def h c by simp
  then show ?thesis
    unfolding p_def [symmetric] using assms
    by (simp add: q_seal_nth [OF len] q_decode_position_def q_zero_def)
      (simp add: p_def position_payload_def bcd_to_bcd)
qed

lemma length_position_seal [simp]: "length (q_seal (position_payload c t i rt at)) = 12"
  by (simp add: position_payload_def q_seal_def Let_def split: prod.split)

text \<open>
  A position frame written to the P-W stream comes back from extraction and decoding as
  the track, index and times it was made from, for every value a two-digit field can hold.
\<close>

theorem q_position_roundtrip:
  assumes "control < 16" and "tno < 100" and "idx < 100"
    and "rm < 100" "rs < 100" "rf < 100" "am < 100" "asec < 100" "af < 100"
  shows "accudisc_q_parse (accudisc_sub_extract_q
       (sub_embed_q (q_seal (position_payload control tno idx (rm, rs, rf) (am, asec, af))))) =
     (q_zero\<lparr>q_adr := 1, q_control := control, q_crc_ok := True,
        q_tno := word_of_nat tno, q_index := word_of_nat idx,
        q_rel_m := word_of_nat rm, q_rel_s := word_of_nat rs, q_rel_f := word_of_nat rf,
        q_abs_m := word_of_nat am, q_abs_s := word_of_nat asec, q_abs_f := word_of_nat af\<rparr>, None)"
  by (simp only: sub_extract_embed [OF length_position_seal] q_parse_position [OF assms])

theorem q_position_roundtrip_witness:
  "q_tno (fst (accudisc_q_parse (accudisc_sub_extract_q
     (sub_embed_q (q_seal (position_payload 4 14 1 (3, 27, 74) (61, 0, 9))))))) = 14"
  by (subst q_position_roundtrip) (simp_all add: q_zero_def)

text \<open>
  C25: the CRC gate. A frame that left the disc sealed and was damaged within two adjacent
  payload bytes is refused, and none of its payload reaches the caller: every decoded field
  stays zero, only the frame-type header is reported.
\<close>

theorem q_parse_rejects_damage:
  assumes "length p = 10" and "Suc i < 10" and "p[i := a, Suc i := b] \<noteq> p"
    and "q = (q_seal p)[i := a, Suc i := b]"
  shows "accudisc_q_parse q =
     (q_zero\<lparr>q_control := drop_bit 4 (q ! 0), q_adr := q ! 0 AND 0x0f\<rparr>, Some ERR_CRC)"
proof -
  have tl: "take 10 q = p[i := a, Suc i := b]" "q ! 10 = q_seal p ! 10" "q ! 11 = q_seal p ! 11"
    using assms(1,2) by (simp_all add: assms(4) take_update_swap q_seal_nth)
  have "adsc_crc16 (p[i := a, Suc i := b]) \<noteq> adsc_crc16 p"
    using assms(1-3) c16.run_detects_pair [of i p a b 0] by (auto simp: adsc_crc16_run)
  then have "\<not> q_crc_ok (fst (accudisc_q_parse q))"
    using assms(1) by (simp add: q_parse_crc_ok tl q_seal_nth)
  then show ?thesis by (rule q_parse_bad)
qed

theorem q_parse_rejects_damage_witness:
  "snd (accudisc_q_parse ((q_seal (replicate 10 0))[3 := 0x99, 4 := 0])) = Some ERR_CRC"
proof -
  have "(replicate 10 0 :: u8 list)[3 := 0x99, Suc 3 := 0] \<noteq> replicate 10 0"
    by code_simp
  then show ?thesis
    using q_parse_rejects_damage [where p = "replicate 10 0" and i = 3 and a = "0x99" and b = "0"] by simp
qed

text \<open>
  Addresses. Every LBA from the start of the lead-in's two seconds to the last the 8-bit
  minute can hold survives the trip through minute:second:frame, and the disc order of
  canonical addresses is the order of their LBAs.
\<close>

theorem msf_lba_roundtrip_mono:
  assumes "- 150 \<le> lba" and "lba < 256 * 60 * 75 - 150"
    and "accudisc_lba_to_msf lba = (m, s, f)"
    and "- 150 \<le> lba'" and "lba' < 256 * 60 * 75 - 150"
    and "accudisc_lba_to_msf lba' = (m', s', f')"
  shows "accudisc_msf_to_lba m s f = lba \<and> (MSF m s f \<le> MSF m' s' f' \<longleftrightarrow> lba \<le> lba')"
proof -
  note r = lba_to_msf_inverse [OF assms(1-3)] and r' = lba_to_msf_inverse [OF assms(4-6)]
  show ?thesis
    using msf_le_iff_lba [of "MSF m s f" "MSF m' s' f'"] r r'
    by (simp add: msf_canonical_def msf_lba_def)
qed

theorem msf_lba_roundtrip_mono_witness:
  "accudisc_msf_to_lba 0 2 0 = 0 \<and> (MSF 0 2 0 \<le> MSF 74 0 1 \<longleftrightarrow> (0::int) \<le> 332851)"
  by (rule msf_lba_roundtrip_mono) (simp_all add: accudisc_lba_to_msf_def)

end
