(* ===== verification/Galois.thy ===== *)
theory Galois
  imports Prelude
begin

text \<open>
  What a Reed-Solomon decoder of the program needs of its field: a field of
  characteristic two whose non-zero elements are the powers of one element \<open>alpha\<close>, given by
  logarithm tables. The locale \<open>log_field\<close> is that interface; the tables of
  \<^verbatim>\<open>src/cdda/rw.c\<close> (64 elements) interpret it in theory \<open>Rw\<close>.
\<close>

section \<open>Fields given by logarithm tables\<close>

locale log_field =
  fixes mulx :: "'a::len word \<Rightarrow> 'a word"
    and E :: "'a word set"
    and N :: nat
    and lg :: "'a word \<Rightarrow> nat"
    and mul :: "'a word \<Rightarrow> 'a word \<Rightarrow> 'a word"
    and dv :: "'a word \<Rightarrow> 'a word \<Rightarrow> 'a word"
    and pw :: "nat \<Rightarrow> 'a word"
  assumes zero_in [simp]: "0 \<in> E" and one_in [simp]: "1 \<in> E"
    and xor_in [simp]: "a \<in> E \<Longrightarrow> b \<in> E \<Longrightarrow> a XOR b \<in> E"
    and mulx_in: "a \<in> E \<Longrightarrow> mulx a \<in> E"
    and mulx_xor: "a \<in> E \<Longrightarrow> b \<in> E \<Longrightarrow> mulx (a XOR b) = mulx a XOR mulx b"
    and N_pos: "0 < N"
    and period: "(mulx ^^ N) 1 = 1"
    and lg_less: "a \<in> E \<Longrightarrow> a \<noteq> 0 \<Longrightarrow> lg a < N"
    and pow_lg: "a \<in> E \<Longrightarrow> a \<noteq> 0 \<Longrightarrow> (mulx ^^ lg a) 1 = a"
    and lg_pow: "i < N \<Longrightarrow> lg ((mulx ^^ i) 1) = i"
    and pow_nonzero: "(mulx ^^ i) 1 \<noteq> 0"
    and mul_table: "a \<in> E \<Longrightarrow> b \<in> E \<Longrightarrow>
      mul a b = (if a = 0 \<or> b = 0 then 0 else (mulx ^^ (lg a + lg b)) 1)"
    and dv_table: "a \<in> E \<Longrightarrow> b \<in> E \<Longrightarrow> b \<noteq> 0 \<Longrightarrow>
      dv a b = (if a = 0 then 0 else (mulx ^^ (lg a + N - lg b)) 1)"
    and pw_table: "pw e = (mulx ^^ (e mod N)) 1"
begin

lemma funpow_in: "a \<in> E \<Longrightarrow> (mulx ^^ i) a \<in> E"
  by (induction i) (simp_all add: mulx_in)

lemma funpow_mulx_xor:
  "a \<in> E \<Longrightarrow> b \<in> E \<Longrightarrow> (mulx ^^ i) (a XOR b) = (mulx ^^ i) a XOR (mulx ^^ i) b"
  by (induction i) (simp_all add: mulx_xor funpow_in)

lemma funpow_mulx_0: "(mulx ^^ i) 0 = 0"
  using funpow_mulx_xor [of 0 0 i] by simp

lemma period_mult: "(mulx ^^ (N * k)) 1 = 1"
  by (induction k) (simp_all add: funpow_add period)

lemma funpow_mod: "(mulx ^^ (i mod N)) 1 = (mulx ^^ i) 1"
proof -
  have "(mulx ^^ i) 1 = (mulx ^^ (i mod N + N * (i div N))) 1" by simp
  also have "\<dots> = (mulx ^^ (i mod N)) ((mulx ^^ (N * (i div N))) 1)"
    by (simp only: funpow_add o_apply)
  finally show ?thesis by (simp add: period_mult)
qed

lemma pw_eq: "pw e = (mulx ^^ e) 1"
  by (simp add: pw_table funpow_mod)

lemma pw_in [simp]: "pw e \<in> E"
  by (simp add: pw_eq funpow_in)

lemma pw_nonzero [simp]: "pw e \<noteq> 0"
  by (simp add: pw_eq pow_nonzero)

lemma pw_0 [simp]: "pw 0 = 1"
  by (simp add: pw_eq)

lemma pw_lg [simp]: "a \<in> E \<Longrightarrow> a \<noteq> 0 \<Longrightarrow> pw (lg a) = a"
  by (simp add: pw_eq pow_lg)

lemma lg_pw: "lg (pw e) = e mod N"
  using N_pos by (simp add: pw_table lg_pow)

lemma pw_inject: "i < N \<Longrightarrow> j < N \<Longrightarrow> pw i = pw j \<longleftrightarrow> i = j"
  by (metis lg_pw mod_less)

lemma pw_mod: "pw (e mod N) = pw e"
  by (simp add: pw_table)

lemma pw_N [simp]: "pw N = 1"
  using pw_mod [of N] by simp

text \<open>Multiplying by \<open>alpha^i\<close> is shifting \<open>i\<close> times, so multiplication distributes.\<close>

lemma mul_pw_left: "b \<in> E \<Longrightarrow> mul (pw i) b = (mulx ^^ i) b"
proof (cases "b = 0")
  case True
  then show ?thesis by (simp add: mul_table funpow_mulx_0)
next
  case False
  assume b: "b \<in> E"
  have "mul (pw i) b = (mulx ^^ (i mod N + lg b)) 1"
    using b False by (simp add: mul_table lg_pw)
  also have "\<dots> = (mulx ^^ (lg b + i)) 1"
    by (metis add.commute funpow_mod mod_add_left_eq)
  also have "\<dots> = (mulx ^^ i) ((mulx ^^ lg b) 1)"
    by (simp only: funpow_add o_apply add.commute [of "lg b"])
  finally show ?thesis using b False by (simp add: pow_lg)
qed

lemma mul_in [simp]: "a \<in> E \<Longrightarrow> b \<in> E \<Longrightarrow> mul a b \<in> E"
  by (simp add: mul_table funpow_in)

lemma mul_commute: "a \<in> E \<Longrightarrow> b \<in> E \<Longrightarrow> mul a b = mul b a"
  by (simp add: mul_table add.commute)

lemma mul_0 [simp]: "a \<in> E \<Longrightarrow> mul a 0 = 0" "a \<in> E \<Longrightarrow> mul 0 a = 0"
  by (simp_all add: mul_table)

lemma mul_eq_0 [simp]: "a \<in> E \<Longrightarrow> b \<in> E \<Longrightarrow> mul a b = 0 \<longleftrightarrow> a = 0 \<or> b = 0"
  by (simp add: mul_table pow_nonzero)

lemma mul_pw_pw: "mul (pw i) (pw j) = pw (i + j)"
  using mul_pw_left [OF pw_in, of i j] by (simp add: pw_eq funpow_add)

lemma mul_1 [simp]: "a \<in> E \<Longrightarrow> mul 1 a = a" "a \<in> E \<Longrightarrow> mul a 1 = a"
  using mul_pw_left [of a 0] by (simp_all add: mul_commute)

lemma mul_xor_right:
  "a \<in> E \<Longrightarrow> b \<in> E \<Longrightarrow> c \<in> E \<Longrightarrow> mul a (b XOR c) = mul a b XOR mul a c"
proof (cases "a = 0")
  case False
  assume a: "a \<in> E" and bc: "b \<in> E" "c \<in> E"
  have "mul (pw (lg a)) (b XOR c) = mul (pw (lg a)) b XOR mul (pw (lg a)) c"
    using bc by (simp only: mul_pw_left xor_in funpow_mulx_xor)
  then show ?thesis using a False by simp
qed simp

lemma mul_xor_left:
  "a \<in> E \<Longrightarrow> b \<in> E \<Longrightarrow> c \<in> E \<Longrightarrow> mul (b XOR c) a = mul b a XOR mul c a"
  by (simp add: mul_commute [of _ a] mul_xor_right)

lemma mul_assoc: "a \<in> E \<Longrightarrow> b \<in> E \<Longrightarrow> c \<in> E \<Longrightarrow> mul (mul a b) c = mul a (mul b c)"
proof (cases "a = 0 \<or> b = 0 \<or> c = 0")
  case False
  assume in_E: "a \<in> E" "b \<in> E" "c \<in> E"
  have "mul (mul (pw (lg a)) (pw (lg b))) (pw (lg c)) =
      mul (pw (lg a)) (mul (pw (lg b)) (pw (lg c)))"
    by (simp only: mul_pw_pw add.assoc)
  then show ?thesis using in_E False by simp
qed auto

lemma mul_left_commute:
  "a \<in> E \<Longrightarrow> b \<in> E \<Longrightarrow> c \<in> E \<Longrightarrow> mul a (mul b c) = mul b (mul a c)"
  by (metis mul_assoc mul_commute)

lemmas mul_ac = mul_assoc mul_commute mul_left_commute

lemma mul_cancel_left:
  assumes "a \<in> E" "b \<in> E" "c \<in> E" "a \<noteq> 0"
  shows "mul a b = mul a c \<longleftrightarrow> b = c"
proof
  assume "mul a b = mul a c"
  then have "mul a (b XOR c) = 0" using assms by (simp add: mul_xor_right)
  then show "b = c" using assms by simp
qed simp

lemma dv_in [simp]: "a \<in> E \<Longrightarrow> b \<in> E \<Longrightarrow> b \<noteq> 0 \<Longrightarrow> dv a b \<in> E"
  by (simp add: dv_table funpow_in)

lemma mul_dv: "a \<in> E \<Longrightarrow> b \<in> E \<Longrightarrow> b \<noteq> 0 \<Longrightarrow> mul b (dv a b) = a"
proof (cases "a = 0")
  case False
  assume ab: "a \<in> E" "b \<in> E" "b \<noteq> 0"
  have "lg b \<le> lg a + N" using lg_less [OF ab(2,3)] by simp
  then have "mul b (dv a b) = pw (lg a + N)"
    using ab False mul_pw_pw [of "lg b" "lg a + N - lg b"] by (simp add: dv_table pw_eq [symmetric])
  also have "\<dots> = mul (pw (lg a)) (pw N)" by (simp only: mul_pw_pw)
  finally show ?thesis using ab False by simp
qed (simp add: dv_table)

lemma dv_eqI: "a \<in> E \<Longrightarrow> b \<in> E \<Longrightarrow> c \<in> E \<Longrightarrow> b \<noteq> 0 \<Longrightarrow> mul b c = a \<Longrightarrow> dv a b = c"
  by (metis dv_in mul_cancel_left mul_dv)

lemma mul_pw_mod: "a \<in> E \<Longrightarrow> a \<noteq> 0 \<Longrightarrow> (mulx ^^ (lg a + e mod N)) 1 = mul a (pw e)"
  by (metis mul_pw_pw pw_eq pw_lg pw_mod)

lemma xor_list_in: "set xs \<subseteq> E \<Longrightarrow> xor_list xs \<in> E"
  by (induction xs) simp_all

lemma mul_xor_list:
  "a \<in> E \<Longrightarrow> set xs \<subseteq> E \<Longrightarrow> mul a (xor_list xs) = xor_list (map (mul a) xs)"
  by (induction xs) (simp_all add: mul_xor_right xor_list_in)

end

section \<open>Reed-Solomon words over such a field\<close>

context log_field
begin

text \<open>
  Check equation \<open>r\<close> of a word of length \<open>n\<close>: position \<open>j\<close> counts from the end, so its
  locator is \<open>alpha^(n-1-j)\<close>.
\<close>

definition syn :: "nat \<Rightarrow> 'a word list \<Rightarrow> 'a word" where
  "syn r v = xor_list (map (\<lambda>j. mul (v ! j) (pw (r * (length v - 1 - j)))) [0..<length v])"

lemma syn_in: "set v \<subseteq> E \<Longrightarrow> syn r v \<in> E"
  unfolding syn_def by (rule xor_list_in) (auto simp: subset_iff)

text \<open>Changing one symbol changes each check by the change times its locator's power.\<close>

lemma syn_update:
  assumes "set v \<subseteq> E" and "j < length v" and "e \<in> E"
  shows "syn r (v[j := v ! j XOR e]) = syn r v XOR mul e (pw (r * (length v - 1 - j)))"
proof -
  let ?g = "\<lambda>i. pw (r * (length v - 1 - i))"
  have in_E: "i < length v \<Longrightarrow> v ! i \<in> E" for i using assms(1) by (simp add: subset_iff)
  have "syn r (v[j := v ! j XOR e]) =
      xor_list (map (\<lambda>i. mul (v ! i) (?g i) XOR (if i = j then mul e (?g j) else 0)) [0..<length v])"
    unfolding syn_def using assms(2,3) in_E
    by (intro arg_cong [where f = xor_list]) (auto simp: nth_list_update mul_xor_left)
  also have "\<dots> = syn r v XOR xor_list (map (\<lambda>i. if i = j then mul e (?g j) else 0) [0..<length v])"
    by (simp only: xor_list_map_xor syn_def)
  also have "xor_list (map (\<lambda>i. if i = j then mul e (?g j) else 0) [0..<length v]) =
      mul e (?g j)"
    using assms(2) by (simp add: xor_list_delta)
  finally show ?thesis .
qed

text \<open>Algebra of one and of two symbol errors \<open>e1\<close> at locator \<open>x1\<close>, \<open>e2\<close> at \<open>x2\<close>.\<close>

lemmas expand = mul_xor_right mul_xor_left mul_ac xor.assoc xor.commute xor.left_commute

lemma two_error_det:
  assumes [simp]: "e1 \<in> E" "e2 \<in> E" "x1 \<in> E" "x2 \<in> E"
    and "S0 = e1 XOR e2" "S1 = mul e1 x1 XOR mul e2 x2"
    and "S2 = mul e1 (mul x1 x1) XOR mul e2 (mul x2 x2)"
  shows "mul S1 S1 XOR mul S0 S2 = mul (mul e1 e2) (mul (x1 XOR x2) (x1 XOR x2))"
  unfolding assms(5-7) by (simp add: expand xor_left_cancel)

lemma two_error_l1:
  assumes [simp]: "e1 \<in> E" "e2 \<in> E" "x1 \<in> E" "x2 \<in> E"
    and "S0 = e1 XOR e2" "S1 = mul e1 x1 XOR mul e2 x2"
    and "S2 = mul e1 (mul x1 x1) XOR mul e2 (mul x2 x2)"
    and "S3 = mul e1 (mul x1 (mul x1 x1)) XOR mul e2 (mul x2 (mul x2 x2))"
  shows "mul S2 S1 XOR mul S0 S3 =
    mul (mul (mul e1 e2) (mul (x1 XOR x2) (x1 XOR x2))) (x1 XOR x2)"
  unfolding assms(5-8) by (simp add: expand xor_left_cancel)

lemma two_error_l2:
  assumes [simp]: "e1 \<in> E" "e2 \<in> E" "x1 \<in> E" "x2 \<in> E"
    and "S1 = mul e1 x1 XOR mul e2 x2"
    and "S2 = mul e1 (mul x1 x1) XOR mul e2 (mul x2 x2)"
    and "S3 = mul e1 (mul x1 (mul x1 x1)) XOR mul e2 (mul x2 (mul x2 x2))"
  shows "mul S1 S3 XOR mul S2 S2 =
    mul (mul (mul e1 e2) (mul (x1 XOR x2) (x1 XOR x2))) (mul x1 x2)"
  unfolding assms(5-7) by (simp add: expand xor_left_cancel)

lemma locator_factors:
  assumes [simp]: "x \<in> E" "x1 \<in> E" "x2 \<in> E"
  shows "1 XOR (mul (x1 XOR x2) x XOR mul (mul x1 x2) (mul x x)) =
    mul (1 XOR mul x1 x) (1 XOR mul x2 x)"
  by (simp add: expand)

lemma two_error_e1:
  assumes [simp]: "e1 \<in> E" "e2 \<in> E" "x1 \<in> E" "x2 \<in> E"
  shows "(mul e1 x1 XOR mul e2 x2) XOR mul (e1 XOR e2) x2 = mul (x1 XOR x2) e1"
  by (simp add: expand xor_left_cancel)

end

end
