(* ===== verification/Rw.thy ===== *)
theory Rw
  imports Galois
begin

text \<open>
  The R-W subchannel (\<^verbatim>\<open>src/cdda/rw.c\<close>): the field of 64 elements, the two Reed-Solomon
  codes over it, the eight-pack de-interleaving ring and the feed operation that turns
  subchannel sectors into corrected 24-symbol packs.
\<close>

section \<open>The field of 64 elements\<close>

record gf_tables =
  gf_exp :: "u8 list"
  gf_log :: "u8 list"

text \<open>\<open>x <<= 1; if (x & 0x40) x ^= 0x43\<close>; \<open>x\<close> never needs more than seven bits.\<close>

definition gf_mulx :: "u8 \<Rightarrow> u8" where
  "gf_mulx x = (let y = push_bit 1 x in if y AND 0x40 \<noteq> 0 then y XOR 0x43 else y)"

definition gf_init_step :: "nat \<Rightarrow> u8 \<times> gf_tables \<Rightarrow> u8 \<times> gf_tables" where
  "gf_init_step i = (\<lambda>(x, t). (gf_mulx x,
     \<lparr>gf_exp = (gf_exp t)[i := x, i + 63 := x], gf_log = (gf_log t)[unat x := word_of_nat i]\<rparr>))"

definition gf_init :: gf_tables where
  "gf_init = (let t = snd (fold gf_init_step [0..<63]
       (1, \<lparr>gf_exp = replicate 128 0, gf_log = replicate 64 0\<rparr>))
     in t\<lparr>gf_log := (gf_log t)[0 := 0]\<rparr>)"

definition gf_logn :: "u8 \<Rightarrow> nat" where
  "gf_logn a = unat (gf_log gf_init ! unat a)"

definition gf_mul :: "u8 \<Rightarrow> u8 \<Rightarrow> u8" where
  "gf_mul a b = (if a = 0 \<or> b = 0 then 0 else gf_exp gf_init ! (gf_logn a + gf_logn b))"

definition gf_div :: "u8 \<Rightarrow> u8 \<Rightarrow> u8" where
  "gf_div a b = (if a = 0 then 0 else gf_exp gf_init ! (gf_logn a + 63 - gf_logn b))"

definition gf_pow :: "nat \<Rightarrow> u8" where
  "gf_pow e = gf_exp gf_init ! (e mod 63)"

text \<open>The tables the initialisation leaves, computed by the kernel once and for all.\<close>

lemma gf_init_eval [code]:
  "gf_init = \<lparr>gf_exp =
     [1, 2, 4, 8, 16, 32, 3, 6, 12, 24, 48, 35, 5, 10, 20, 40, 19, 38, 15, 30, 60, 59, 53, 41,
      17, 34, 7, 14, 28, 56, 51, 37, 9, 18, 36, 11, 22, 44, 27, 54, 47, 29, 58, 55, 45, 25, 50,
      39, 13, 26, 52, 43, 21, 42, 23, 46, 31, 62, 63, 61, 57, 49, 33, 1, 2, 4, 8, 16, 32, 3, 6,
      12, 24, 48, 35, 5, 10, 20, 40, 19, 38, 15, 30, 60, 59, 53, 41, 17, 34, 7, 14, 28, 56, 51,
      37, 9, 18, 36, 11, 22, 44, 27, 54, 47, 29, 58, 55, 45, 25, 50, 39, 13, 26, 52, 43, 21,
      42, 23, 46, 31, 62, 63, 61, 57, 49, 33, 0, 0], gf_log =
     [0, 0, 1, 6, 2, 12, 7, 26, 3, 32, 13, 35, 8, 48, 27, 18, 4, 24, 33, 16, 14, 52, 36, 54, 9,
      45, 49, 38, 28, 41, 19, 56, 5, 62, 25, 11, 34, 31, 17, 47, 15, 23, 53, 51, 37, 44, 55,
      40, 10, 61, 46, 30, 50, 22, 39, 43, 29, 60, 42, 21, 20, 59, 57, 58]\<rparr>"
  unfolding gf_init_def by code_simp

lemma gf_mulx_xor: "gf_mulx (a XOR b) = gf_mulx a XOR gf_mulx b"
proof -
  have b: "y AND 0x40 = 0 \<longleftrightarrow> \<not> bit y 6" for y :: u8
    using and_exp_eq_0_iff_not_bit [of y 6] by simp
  show ?thesis
    unfolding gf_mulx_def Let_def b push_bit_xor bit_xor_iff by (simp add: xor_algebra)
qed

lemma less64_forall: "list_all (\<lambda>n. P (word_of_nat n :: u8)) [0..<64] \<Longrightarrow> x < 64 \<Longrightarrow> P x"
proof -
  assume a: "list_all (\<lambda>n. P (word_of_nat n :: u8)) [0..<64]" and "x < 64"
  then have "unat x \<in> set [0..<64]" by (simp add: word_less_nat_alt)
  then have "P (word_of_nat (unat x))" using a unfolding list_all_iff by blast
  then show "P x" by (simp only: of_nat_unat ucast_id)
qed

lemma gf_mulx_less: "x < 64 \<Longrightarrow> gf_mulx x < 64"
  by (rule less64_forall [of "\<lambda>x. gf_mulx x < 64"]) code_simp

lemma gf_exp_funpow: "i < 126 \<Longrightarrow> gf_exp gf_init ! i = (gf_mulx ^^ i) 1"
proof (induction i)
  case 0
  show ?case by code_simp
next
  case (Suc i)
  have "list_all (\<lambda>i. gf_exp gf_init ! Suc i = gf_mulx (gf_exp gf_init ! i)) [0..<125]"
    by code_simp
  moreover have "i \<in> set [0..<125]" using Suc.prems by simp
  ultimately have "gf_exp gf_init ! Suc i = gf_mulx (gf_exp gf_init ! i)"
    unfolding list_all_iff by blast
  then show ?case using Suc by simp
qed

lemma gf_period: "(gf_mulx ^^ 63) 1 = 1"
proof -
  have "gf_exp gf_init ! 63 = 1" by code_simp
  then show ?thesis using gf_exp_funpow [of 63] by simp
qed

lemma gf_logn_exp: "i < 63 \<Longrightarrow> gf_logn ((gf_mulx ^^ i) 1) = i"
proof -
  assume i: "i < 63"
  have "list_all (\<lambda>i. gf_logn (gf_exp gf_init ! i) = i) [0..<63]" by code_simp
  then have "gf_logn (gf_exp gf_init ! i) = i" using i unfolding list_all_iff by simp
  then show ?thesis using i by (simp add: gf_exp_funpow)
qed

lemma gf_exp_logn: "a < 64 \<Longrightarrow> a \<noteq> 0 \<Longrightarrow> gf_logn a < 63 \<and> gf_exp gf_init ! gf_logn a = a"
  by (rule less64_forall [of "\<lambda>a. a \<noteq> 0 \<longrightarrow> gf_logn a < 63 \<and> gf_exp gf_init ! gf_logn a = a",
        THEN mp]) code_simp

lemma xor_less64: "a < 64 \<Longrightarrow> b < 64 \<Longrightarrow> a XOR b < (64 :: u8)"
proof -
  assume "a < 64" "b < 64"
  then have "take_bit 6 (unat a) = unat a" "take_bit 6 (unat b) = unat b"
    by (simp_all add: take_bit_nat_eq_self_iff word_less_nat_alt)
  then have "take_bit 6 (unat (a XOR b)) = unat (a XOR b)"
    by (simp add: unsigned_xor_eq)
  then show "a XOR b < 64" by (simp add: take_bit_nat_eq_self_iff word_less_nat_alt)
qed

lemma gf_pow_nonzero: "(gf_mulx ^^ i) 1 \<noteq> 0"
proof -
  have inj: "gf_mulx x = 0 \<Longrightarrow> x < 64 \<Longrightarrow> x = 0" for x
    by (rule less64_forall [of "\<lambda>x. gf_mulx x = 0 \<longrightarrow> x = 0", THEN mp]) (code_simp, assumption)
  have "(gf_mulx ^^ i) 1 \<noteq> 0 \<and> (gf_mulx ^^ i) 1 < 64"
    by (induction i) (auto dest: inj simp: gf_mulx_less)
  then show ?thesis ..
qed

definition gf64 :: "u8 set" where
  "gf64 = {x. x < 64}"

lemma gf64_iff: "x \<in> gf64 \<longleftrightarrow> x < 64"
  by (simp add: gf64_def)

interpretation g64: log_field gf_mulx gf64 63 gf_logn gf_mul gf_div gf_pow
proof (unfold_locales, unfold gf64_iff)
  show "a < 64 \<Longrightarrow> b < 64 \<Longrightarrow> gf_mul a b =
      (if a = 0 \<or> b = 0 then 0 else (gf_mulx ^^ (gf_logn a + gf_logn b)) 1)" for a b
    using gf_exp_logn [of a] gf_exp_logn [of b] by (auto simp: gf_mul_def gf_exp_funpow)
  show "a < 64 \<Longrightarrow> b < 64 \<Longrightarrow> b \<noteq> 0 \<Longrightarrow> gf_div a b =
      (if a = 0 then 0 else (gf_mulx ^^ (gf_logn a + 63 - gf_logn b)) 1)" for a b
    using gf_exp_logn [of a] gf_exp_logn [of b]
    by (cases "a = 0") (auto simp: gf_div_def intro!: gf_exp_funpow)
  show "gf_pow e = (gf_mulx ^^ (e mod 63)) 1" for e
    by (simp add: gf_pow_def gf_exp_funpow)
  show "a < 64 \<Longrightarrow> a \<noteq> 0 \<Longrightarrow> (gf_mulx ^^ gf_logn a) 1 = a" for a
    using gf_exp_logn [of a] gf_exp_funpow [of "gf_logn a"] by simp
qed (use gf_exp_logn gf_pow_nonzero in \<open>simp_all add: xor_less64 gf_mulx_less gf_mulx_xor gf_period gf_logn_exp\<close>)

section \<open>The two Reed-Solomon codes\<close>

text \<open>
  \<open>rs_syndromes\<close>: check \<open>r\<close> is \<open>\<Sum> v[j] * a^(r * (n-1-j))\<close>; zero symbols are skipped and
  check 0 is a plain exclusive or.
\<close>

definition rs_syndrome :: "u8 list \<Rightarrow> nat \<Rightarrow> nat \<Rightarrow> u8" where
  "rs_syndrome v n r = fold (\<lambda>j acc. if v ! j = 0 then acc
      else acc XOR (if r \<noteq> 0 then gf_mul (v ! j) (gf_pow (r * (n - 1 - j))) else v ! j)) [0..<n] 0"

definition rs_syndromes :: "u8 list \<Rightarrow> nat \<Rightarrow> nat \<Rightarrow> u8 list" where
  "rs_syndromes v n nsyn = map (rs_syndrome v n) [0..<nsyn]"

definition rs_verify :: "u8 list \<Rightarrow> nat \<Rightarrow> nat \<Rightarrow> bool" where
  "rs_verify v n nsyn = list_all (\<lambda>x. x = 0) (rs_syndromes v n nsyn)"

text \<open>The single-error attempt; \<open>None\<close> when the block is left as it was.\<close>

definition rs_single :: "u8 list \<Rightarrow> nat \<Rightarrow> nat \<Rightarrow> u8 list \<Rightarrow> u8 list option" where
  "rs_single v n nsyn s =
     (if s ! 0 \<noteq> 0 then
        let e = s ! 0; k = gf_logn (gf_div (s ! 1) (s ! 0))
        in if s ! 1 \<noteq> 0 \<and> k < n then
             let j = n - 1 - k; v' = v[j := v ! j XOR e]
             in if rs_verify v' n nsyn then Some v' else None
           else None
      else None)"

text \<open>The root search stops at two positions.\<close>

definition rs_roots :: "u8 \<Rightarrow> u8 \<Rightarrow> nat \<Rightarrow> nat list" where
  "rs_roots l1 l2 n = take 2 (filter (\<lambda>k.
     let x = gf_pow (63 - k mod 63) in 1 XOR gf_mul l1 x XOR gf_mul l2 (gf_mul x x) = 0) [0..<n])"

definition rs_double :: "u8 list \<Rightarrow> nat \<Rightarrow> nat \<Rightarrow> u8 list \<Rightarrow> u8 list option" where
  "rs_double v n nsyn s =
     (let det = gf_mul (s ! 1) (s ! 1) XOR gf_mul (s ! 0) (s ! 2)
      in if det \<noteq> 0 then
           let l1 = gf_div (gf_mul (s ! 2) (s ! 1) XOR gf_mul (s ! 0) (s ! 3)) det;
               l2 = gf_div (gf_mul (s ! 1) (s ! 3) XOR gf_mul (s ! 2) (s ! 2)) det;
               pos = rs_roots l1 l2 n
           in if length pos = 2 then
                let x1 = gf_pow (pos ! 0); x2 = gf_pow (pos ! 1);
                    e1 = gf_div (s ! 1 XOR gf_mul (s ! 0) x2) (x1 XOR x2);
                    e2 = s ! 0 XOR e1;
                    j1 = n - 1 - pos ! 0; j2 = n - 1 - pos ! 1;
                    v' = v[j1 := v ! j1 XOR e1]; v'' = v'[j2 := v' ! j2 XOR e2]
                in if rs_verify v'' n nsyn then Some v'' else None
              else None
         else None)"

text \<open>The corrected block and the number of symbols corrected, \<open>None\<close> for the code's -1.\<close>

definition rs_correct :: "u8 list \<Rightarrow> nat \<Rightarrow> nat \<Rightarrow> u8 list \<times> nat option" where
  "rs_correct v n nsyn =
     (let s = rs_syndromes v n nsyn
      in if list_all (\<lambda>x. x = 0) s then (v, Some 0)
         else case rs_single v n nsyn s of
             Some v' \<Rightarrow> (v', Some 1)
           | None \<Rightarrow>
               if 4 \<le> nsyn then
                 (case rs_double v n nsyn s of Some v' \<Rightarrow> (v', Some 2) | None \<Rightarrow> (v, None))
               else (v, None))"

definition rs_symbols :: "u8 list \<Rightarrow> bool" where
  "rs_symbols v \<longleftrightarrow> set v \<subseteq> gf64"

lemma rs_symbols_nth: "rs_symbols v \<Longrightarrow> j < length v \<Longrightarrow> v ! j \<in> gf64"
  by (auto simp: rs_symbols_def)

lemma rs_symbols_list_all: "rs_symbols v \<longleftrightarrow> list_all (\<lambda>x. x < 64) v"
  by (auto simp: rs_symbols_def gf64_def list_all_iff)

lemma rs_symbols_update: "rs_symbols v \<Longrightarrow> e \<in> gf64 \<Longrightarrow> rs_symbols (v[j := v ! j XOR e])"
proof (cases "j < length v")
  case True
  assume "rs_symbols v" "e \<in> gf64"
  moreover from this True have "v ! j \<in> gf64" by (simp add: rs_symbols_nth)
  ultimately show ?thesis
    using set_update_subset_insert [of v j "v ! j XOR e"]
    by (auto simp: rs_symbols_def)
qed (simp add: list_update_beyond)

text \<open>The loop computes the check equations of the field.\<close>

lemma rs_syndrome_syn:
  assumes "rs_symbols v" and "n \<le> length v"
  shows "rs_syndrome v n r = g64.syn r (take n v)"
proof -
  have el: "j < n \<Longrightarrow> v ! j \<in> gf64" for j using assms by (simp add: rs_symbols_nth)
  let ?f = "\<lambda>j. gf_mul (v ! j) (gf_pow (r * (n - 1 - j)))"
  have "rs_syndrome v n r = fold (\<lambda>j acc. acc XOR ?f j) [0..<n] 0"
    unfolding rs_syndrome_def
  proof (rule fold_cong)
    fix j assume "j \<in> set [0..<n]"
    then show "(\<lambda>acc. if v ! j = 0 then acc
        else acc XOR (if r \<noteq> 0 then ?f j else v ! j)) = (\<lambda>acc. acc XOR ?f j)"
      using el [of j] by (auto simp: fun_eq_iff)
  qed simp_all
  then show ?thesis
    using assms(2) by (auto simp: fold_xor_list g64.syn_def intro!: arg_cong [where f = xor_list])
qed

lemma rs_syndromes_nth:
  "rs_symbols v \<Longrightarrow> n \<le> length v \<Longrightarrow> r < nsyn \<Longrightarrow> rs_syndromes v n nsyn ! r = g64.syn r (take n v)"
  by (simp add: rs_syndromes_def rs_syndrome_syn)

definition rs_codeword :: "u8 list \<Rightarrow> nat \<Rightarrow> nat \<Rightarrow> bool" where
  "rs_codeword v n nsyn \<longleftrightarrow> (\<forall>r < nsyn. rs_syndrome v n r = 0)"

lemma rs_codeword_iff: "rs_codeword v n nsyn \<longleftrightarrow> list_all (\<lambda>x. x = 0) (rs_syndromes v n nsyn)"
  by (auto simp: rs_codeword_def rs_syndromes_def list_all_iff)

lemma rs_verify_codeword: "rs_verify v n nsyn \<longleftrightarrow> rs_codeword v n nsyn"
  by (simp add: rs_verify_def rs_codeword_iff)

text \<open>Number of positions at which two blocks differ.\<close>

definition distance :: "'a list \<Rightarrow> 'a list \<Rightarrow> nat" where
  "distance v w = card {i. i < length v \<and> v ! i \<noteq> w ! i}"

lemma distance_refl [simp]: "distance v v = 0"
  by (simp add: distance_def)

lemma distance_update: "distance v (w[j := x]) \<le> Suc (distance v w)"
proof -
  have "{i. i < length v \<and> v ! i \<noteq> w[j := x] ! i} \<subseteq>
      insert j {i. i < length v \<and> v ! i \<noteq> w ! i}"
    by (auto simp: nth_list_update_neq)
  then have "distance v (w[j := x]) \<le> card (insert j {i. i < length v \<and> v ! i \<noteq> w ! i})"
    unfolding distance_def by (rule card_mono [rotated]) simp
  also have "\<dots> \<le> Suc (distance v w)" by (simp add: distance_def card_insert_if)
  finally show ?thesis .
qed

text \<open>A correction is never silent: what it returns satisfies every check equation.\<close>

lemma rs_single_SomeD:
  "rs_single v n nsyn s = Some w \<Longrightarrow>
     rs_codeword w n nsyn \<and> distance v w \<le> 1 \<and> length w = length v"
  using distance_update [of v v]
  by (auto simp: rs_single_def Let_def rs_verify_codeword split: if_splits)

lemma rs_single_at:
  "rs_single v n nsyn s = Some w \<Longrightarrow> \<exists>j < n. w = v[j := v ! j XOR s ! 0] \<and> rs_codeword w n nsyn"
  unfolding rs_single_def Let_def
  by (auto simp: rs_verify_codeword split: if_splits
      intro!: exI [of _ "n - Suc (gf_logn (gf_div (s ! Suc 0) (s ! 0)))"])

lemma rs_double_SomeD:
  assumes "rs_double v n nsyn s = Some w"
  shows "rs_codeword w n nsyn \<and> distance v w \<le> 2 \<and> length w = length v"
proof -
  obtain j1 x j2 y where w: "w = v[j1 := x, j2 := y]" and "rs_codeword w n nsyn"
    using assms by (auto simp: rs_double_def Let_def rs_verify_codeword split: if_splits)
  moreover have "distance v (v[j1 := x, j2 := y]) \<le> 2"
    using distance_update [of v "v[j1 := x]" j2 y] distance_update [of v v j1 x] by simp
  ultimately show ?thesis by simp
qed


subsection \<open>Every error pattern within the codes' capacity is repaired\<close>

lemma rs_codeword_syn:
  "rs_symbols v \<Longrightarrow> rs_codeword v (length v) nsyn \<longleftrightarrow> (\<forall>r < nsyn. g64.syn r v = 0)"
  by (simp add: rs_codeword_def rs_syndrome_syn)

lemma rs_syndromes_at:
  "rs_symbols v \<Longrightarrow> r < nsyn \<Longrightarrow> rs_syndromes v (length v) nsyn ! r = g64.syn r v"
  by (simp add: rs_syndromes_nth)

lemma flip_back: "j < length v \<Longrightarrow> (v[j := v ! j XOR e])[j := v[j := v ! j XOR e] ! j XOR e] = v"
  by (simp add: xor.assoc)

lemma rs_correct_single:
  assumes sym: "rs_symbols v" and cw: "rs_codeword v (length v) nsyn"
    and len: "length v \<le> 63" and j: "j < length v" and e: "e \<in> gf64" "e \<noteq> 0"
    and nsyn: "2 \<le> nsyn"
  shows "rs_correct (v[j := v ! j XOR e]) (length v) nsyn = (v, Some 1)"
proof -
  define w where "w = v[j := v ! j XOR e]"
  define k where "k = length v - 1 - j"
  have k: "k < length v" "k < 63" using j len by (simp_all add: k_def)
  have symw: "rs_symbols w" unfolding w_def using sym e(1) by (rule rs_symbols_update)
  have syn: "g64.syn r w = gf_mul e (gf_pow (r * k))" if "r < nsyn" for r
    using g64.syn_update [of v j e r] sym cw j e(1) that
    by (simp add: w_def k_def rs_codeword_syn rs_symbols_def)
  define s where "s = rs_syndromes w (length v) nsyn"
  have lw: "length v = length w" by (simp add: w_def)
  have sn: "s ! r = gf_mul e (gf_pow (r * k))" if "r < nsyn" for r
    using that symw syn unfolding s_def lw by (simp add: rs_syndromes_at)
  have s0: "s ! 0 = e" and s1: "s ! 1 = gf_mul e (gf_pow k)"
    using sn [of 0] sn [of 1] nsyn e by simp_all
  have ne: "\<not> list_all (\<lambda>x. x = 0) s"
    using s0 e nsyn by (auto simp: list_all_length s_def rs_syndromes_def intro!: exI [of _ 0])
  have dv: "gf_div (s ! 1) e = gf_pow k"
    unfolding s1 using e by (simp add: g64.dv_eqI)
  have "rs_single w (length v) nsyn s = Some v"
  proof -
    have lg: "gf_logn (gf_pow k) = k" using k by (simp add: g64.lg_pw)
    have j': "length v - 1 - k = j" using j by (simp add: k_def)
    have restore: "w[j := w ! j XOR e] = v" unfolding w_def using j by (rule flip_back)
    have s1n: "s ! 1 \<noteq> 0" unfolding s1 using e by simp
    show ?thesis
      unfolding rs_single_def Let_def s0 dv lg j' restore
      using s1n e k(1) cw by (simp add: rs_verify_codeword)
  qed
  then show ?thesis
    using ne by (simp add: rs_correct_def Let_def w_def [symmetric] s_def [symmetric])
qed

lemma filter_two:
  "a < b \<Longrightarrow> filter (\<lambda>k. k = a \<or> k = b) [0..<n] =
     (if b < n then [a, b] else if a < n then [a] else [])"
  by (induction n) auto

text \<open>The search finds exactly the two locators of the error positions, in order.\<close>

lemma rs_roots_two:
  assumes k: "k1 < k2" "k2 < n" "n \<le> 63"
  shows "rs_roots (gf_pow k1 XOR gf_pow k2) (gf_mul (gf_pow k1) (gf_pow k2)) n = [k1, k2]"
proof -
  have root: "(1 XOR gf_mul (gf_pow k1 XOR gf_pow k2) x XOR
      gf_mul (gf_mul (gf_pow k1) (gf_pow k2)) (gf_mul x x) = 0) \<longleftrightarrow> k = k1 \<or> k = k2"
    if "k < n" and x: "x = gf_pow (63 - k mod 63)" for k x
  proof -
    have inE: "x \<in> gf64" by (simp add: x)
    have inv: "gf_mul (gf_pow i) x = 1 \<longleftrightarrow> i = k" if "i < n" for i
    proof
      assume "gf_mul (gf_pow i) x = 1"
      then have "gf_mul (gf_pow i) x = gf_mul (gf_pow k) x"
        using \<open>k < n\<close> k by (simp add: x g64.mul_pw_pw)
      then have "gf_pow i = gf_pow k"
        by (metis g64.mul_cancel_left g64.mul_commute g64.pw_in g64.pw_nonzero x)
      then show "i = k" using that \<open>k < n\<close> k by (simp add: g64.pw_inject)
    next
      assume "i = k"
      then show "gf_mul (gf_pow i) x = 1" using \<open>k < n\<close> k by (simp add: x g64.mul_pw_pw)
    qed
    have "(1 XOR gf_mul (gf_pow k1 XOR gf_pow k2) x XOR
        gf_mul (gf_mul (gf_pow k1) (gf_pow k2)) (gf_mul x x)) =
        gf_mul (1 XOR gf_mul (gf_pow k1) x) (1 XOR gf_mul (gf_pow k2) x)"
      using g64.locator_factors [OF inE, of "gf_pow k1" "gf_pow k2"] by (simp add: xor.assoc)
    then show ?thesis using inE inv [of k1] inv [of k2] k by auto
  qed
  have "filter (\<lambda>k. let x = gf_pow (63 - k mod 63)
      in 1 XOR gf_mul (gf_pow k1 XOR gf_pow k2) x XOR
         gf_mul (gf_mul (gf_pow k1) (gf_pow k2)) (gf_mul x x) = 0) [0..<n] =
      filter (\<lambda>k. k = k1 \<or> k = k2) [0..<n]"
    by (rule filter_cong [OF refl]) (simp only: Let_def root [OF _ refl] set_upt atLeastLessThan_iff)
  then show ?thesis using k by (simp add: rs_roots_def filter_two)
qed

lemma rs_correct_double_ordered:
  assumes sym: "rs_symbols v" and cw: "rs_codeword v (length v) 4"
    and len: "length v \<le> 63" and j: "j2 < j1" "j1 < length v"
    and e: "e1 \<in> gf64" "e1 \<noteq> 0" "e2 \<in> gf64" "e2 \<noteq> 0"
  shows "rs_correct (v[j1 := v ! j1 XOR e1, j2 := v ! j2 XOR e2]) (length v) 4 = (v, Some 2)"
proof -
  define w1 where "w1 = v[j1 := v ! j1 XOR e1]"
  define w where "w = w1[j2 := w1 ! j2 XOR e2]"
  have w_eq: "v[j1 := v ! j1 XOR e1, j2 := v ! j2 XOR e2] = w"
    using j by (simp add: w_def w1_def)
  define k1 k2 where "k1 = length v - 1 - j1" and "k2 = length v - 1 - j2"
  have k: "k1 < k2" "k2 < length v" "k2 < 63" "k1 < 63" using j len by (simp_all add: k1_def k2_def)
  have lw: "length v = length w" by (simp add: w_def w1_def)
  have sym1: "rs_symbols w1" unfolding w1_def using sym e(1) by (rule rs_symbols_update)
  have symw: "rs_symbols w" unfolding w_def using sym1 e(3) by (rule rs_symbols_update)
  let ?x1 = "gf_pow k1" and ?x2 = "gf_pow k2"
  have syn: "g64.syn r w = gf_mul e1 (gf_pow (r * k1)) XOR gf_mul e2 (gf_pow (r * k2))"
    if "r < 4" for r
  proof -
    have "g64.syn r w1 = gf_mul e1 (gf_pow (r * k1))"
      using g64.syn_update [of v j1 e1 r] sym cw j e that
      by (simp add: w1_def k1_def rs_codeword_syn rs_symbols_def)
    moreover have "g64.syn r w = g64.syn r w1 XOR gf_mul e2 (gf_pow (r * k2))"
      using g64.syn_update [of w1 j2 e2 r] sym1 j e(3)
      by (simp add: w_def w1_def k2_def rs_symbols_def)
    ultimately show ?thesis by simp
  qed
  define s where "s = rs_syndromes w (length v) 4"
  have sn: "s ! r = gf_mul e1 (gf_pow (r * k1)) XOR gf_mul e2 (gf_pow (r * k2))" if "r < 4" for r
    using that symw syn unfolding s_def lw by (simp add: rs_syndromes_at)
  have p2: "gf_pow (2 * i) = gf_mul (gf_pow i) (gf_pow i)"
    and p3: "gf_pow (3 * i) = gf_mul (gf_pow i) (gf_mul (gf_pow i) (gf_pow i))" for i
    by (simp_all add: g64.mul_pw_pw mult_2 numeral_3_eq_3)
  have s0: "s ! 0 = e1 XOR e2" and s1: "s ! 1 = gf_mul e1 ?x1 XOR gf_mul e2 ?x2"
    and s2: "s ! 2 = gf_mul e1 (gf_mul ?x1 ?x1) XOR gf_mul e2 (gf_mul ?x2 ?x2)"
    and s3: "s ! 3 = gf_mul e1 (gf_mul ?x1 (gf_mul ?x1 ?x1)) XOR
      gf_mul e2 (gf_mul ?x2 (gf_mul ?x2 ?x2))"
    using sn [of 0] sn [of 1] sn [of 2] sn [of 3] e by (simp_all add: p2 p3)
  have sE: "s ! r \<in> gf64" if "r < 4" for r using sn [OF that] e by simp
  have xne: "?x1 XOR ?x2 \<noteq> 0" using k by (simp add: g64.pw_inject)
  define D where "D = gf_mul (gf_mul e1 e2) (gf_mul (?x1 XOR ?x2) (?x1 XOR ?x2))"
  have DE: "D \<in> gf64" "D \<noteq> 0" using e xne by (simp_all add: D_def)
  have det: "gf_mul (s ! 1) (s ! 1) XOR gf_mul (s ! 0) (s ! 2) = D"
    unfolding D_def by (rule g64.two_error_det) (use e s0 s1 s2 in simp_all)
  have l1: "gf_div (gf_mul (s ! 2) (s ! 1) XOR gf_mul (s ! 0) (s ! 3)) D = ?x1 XOR ?x2"
    using g64.two_error_l1 [OF e(1) e(3) _ _ s0 s1 s2 s3] e DE xne
    by (intro g64.dv_eqI) (simp_all add: D_def sE)
  have l2: "gf_div (gf_mul (s ! 1) (s ! 3) XOR gf_mul (s ! 2) (s ! 2)) D = gf_mul ?x1 ?x2"
    using g64.two_error_l2 [OF e(1) e(3) _ _ s1 s2 s3] e DE xne
    by (intro g64.dv_eqI) (simp_all add: D_def sE)
  have e1': "gf_div (s ! 1 XOR gf_mul (s ! 0) ?x2) (?x1 XOR ?x2) = e1"
    unfolding s0 s1 using e xne g64.two_error_e1 [of e1 e2 ?x1 ?x2]
    by (intro g64.dv_eqI) simp_all
  have e2': "s ! 0 XOR e1 = e2" by (simp add: s0 xor_algebra)
  have ne: "\<not> list_all (\<lambda>x. x = 0) s"
  proof
    assume "list_all (\<lambda>x. x = 0) s"
    then have "s ! 0 = 0" "s ! 1 = 0" by (simp_all add: list_all_length s_def rs_syndromes_def)
    then show False using det DE sE [of 2] by simp
  qed
  have single: "rs_single w (length v) 4 s = None"
  proof (rule ccontr)
    assume "rs_single w (length v) 4 s \<noteq> None"
    then obtain j where j': "j < length v" and
      cw': "rs_codeword (w[j := w ! j XOR s ! 0]) (length v) 4"
      by (auto dest: rs_single_at)
    define y where "y = gf_pow (length v - 1 - j)"
    have "g64.syn r (w[j := w ! j XOR s ! 0]) = 0" if "r < 4" for r
      using cw' that rs_codeword_syn [of "w[j := w ! j XOR s ! 0]" 4] symw sE [of 0]
      by (simp add: rs_symbols_update lw)
    then have "s ! r = gf_mul (s ! 0) (gf_pow (r * (length v - 1 - j)))" if "r < 4" for r
      using g64.syn_update [of w j "s ! 0" r] that symw j' sE [of 0] lw syn [OF that] sn [OF that]
      by (simp add: rs_symbols_def)
    from this [of 1] this [of 2]
    have "s ! 1 = gf_mul (s ! 0) y" "s ! 2 = gf_mul (s ! 0) (gf_mul y y)"
      by (simp_all add: y_def p2)
    moreover have "y \<in> gf64" by (simp add: y_def)
    ultimately have "gf_mul (s ! 1) (s ! 1) XOR gf_mul (s ! 0) (s ! 2) = 0"
      using sE [of 0] by (simp add: g64.mul_ac)
    then show False using det DE by simp
  qed
  have pos: "length v - 1 - k1 = j1" "length v - 1 - k2 = j2" using j by (simp_all add: k1_def k2_def)
  have restore: "w[j1 := w ! j1 XOR e1, j2 := w[j1 := w ! j1 XOR e1] ! j2 XOR e2] = v"
    using j by (auto simp: w_def w1_def xor.assoc list_eq_iff_nth_eq nth_list_update)
  have pl: "[k1, k2] ! 0 = k1" "[k1, k2] ! 1 = k2" "length [k1, k2] = 2 \<longleftrightarrow> True" by simp_all
  have "rs_double w (length v) 4 s = Some v"
    unfolding rs_double_def Let_def det l1 l2 rs_roots_two [OF k(1,2) len] pl e1' e2' pos restore
    using DE cw by (simp add: rs_verify_codeword)
  then show ?thesis
    using ne single unfolding w_eq by (simp add: rs_correct_def Let_def s_def [symmetric])
qed

lemma differ_two:
  fixes v w :: "u8 list"
  assumes "length w = length v" and "{i. i < length v \<and> v ! i \<noteq> w ! i} = {j1, j2}" and "j1 \<noteq> j2"
  shows "w = v[j1 := v ! j1 XOR (v ! j1 XOR w ! j1), j2 := v ! j2 XOR (v ! j2 XOR w ! j2)]"
proof (rule nth_equalityI)
  fix i assume i: "i < length w"
  have "i \<noteq> j1 \<Longrightarrow> i \<noteq> j2 \<Longrightarrow> v ! i = w ! i" using assms(1,2) i by (metis (mono_tags, lifting) insertE mem_Collect_eq singletonD)
  then show "w ! i = v[j1 := v ! j1 XOR (v ! j1 XOR w ! j1), j2 := v ! j2 XOR (v ! j2 XOR w ! j2)] ! i"
    using assms(1,3) i by (cases "i = j2"; cases "i = j1") (simp_all add: xor_left_cancel)
qed (simp add: assms(1))

lemma differ_one:
  fixes v w :: "u8 list"
  assumes "length w = length v" and "{i. i < length v \<and> v ! i \<noteq> w ! i} = {j}"
  shows "w = v[j := v ! j XOR (v ! j XOR w ! j)]"
proof (rule nth_equalityI)
  fix i assume i: "i < length w"
  have "i \<noteq> j \<Longrightarrow> v ! i = w ! i" using assms(1,2) i by (metis (mono_tags, lifting) mem_Collect_eq singletonD)
  then show "w ! i = v[j := v ! j XOR (v ! j XOR w ! j)] ! i"
    using assms(1) i by (cases "i = j") (simp_all add: xor_left_cancel)
qed (simp add: assms(1))

lemma rs_correct_p_repairs:
  assumes "length v = 24" and "rs_symbols v" and "rs_codeword v 24 4"
    and "length w = 24" and "rs_symbols w" and "distance v w \<le> 2"
  shows "rs_correct w 24 4 = (v, Some (distance v w))"
proof -
  let ?D = "{i. i < length v \<and> v ! i \<noteq> w ! i}"
  have fin: "finite ?D" by simp
  have flip: "v ! i XOR w ! i \<in> gf64" "v ! i \<noteq> w ! i \<longrightarrow> v ! i XOR w ! i \<noteq> 0"
    if "i < 24" for i
    using that assms rs_symbols_nth [of v i] rs_symbols_nth [of w i] by simp_all
  consider "?D = {}" | j where "?D = {j}" | j1 j2 where "j2 < j1" "?D = {j1, j2}"
  proof (cases "card ?D = 0")
    case True
    then show ?thesis using fin that(1) by simp
  next
    case False
    moreover have "card ?D \<le> 2" using assms(6) by (simp only: distance_def)
    ultimately have "card ?D = 1 \<or> card ?D = 2" by linarith
    then show ?thesis
    proof
      assume "card ?D = 1"
      then show ?thesis using that(2) by (auto simp: card_1_singleton_iff)
    next
      assume "card ?D = 2"
      then obtain a b where "?D = {a, b}" "a \<noteq> b" by (auto simp: card_2_iff)
      then show ?thesis
        using that(3) [of a b] that(3) [of b a] by (cases "a < b") (simp_all add: insert_commute)
    qed
  qed
  then show ?thesis
  proof cases
    case 1
    then have "w = v" using assms(1,4) by (auto intro!: nth_equalityI)
    then show ?thesis
      using assms by (simp add: rs_correct_def Let_def rs_codeword_iff [symmetric])
  next
    case (2 j)
    then have j: "j < length v" "v ! j \<noteq> w ! j" by blast+
    have "w = v[j := v ! j XOR (v ! j XOR w ! j)]"
      by (rule differ_one [OF _ 2]) (use assms in simp)
    moreover have "distance v w = 1" by (simp add: distance_def 2)
    ultimately show ?thesis
      using rs_correct_single [of v 4 j "v ! j XOR w ! j"] assms(1-3) j flip [of j] by simp
  next
    case (3 j1 j2)
    then have j: "j1 < length v" "v ! j1 \<noteq> w ! j1" "j2 < length v" "v ! j2 \<noteq> w ! j2" by blast+
    have "w = v[j1 := v ! j1 XOR (v ! j1 XOR w ! j1), j2 := v ! j2 XOR (v ! j2 XOR w ! j2)]"
      by (rule differ_two [OF _ 3(2)]) (use assms 3 in simp_all)
    moreover have "distance v w = 2" using 3 by (simp add: distance_def)
    moreover have "rs_correct (v[j1 := v ! j1 XOR (v ! j1 XOR w ! j1),
        j2 := v ! j2 XOR (v ! j2 XOR w ! j2)]) (length v) 4 = (v, Some 2)"
      by (rule rs_correct_double_ordered)
        (use assms(1-3) j flip [of j1] flip [of j2] 3(1) in simp_all)
    ultimately show ?thesis using assms(1) by metis
  qed
qed

text \<open>
  The P code repairs every pattern of at most two damaged symbols: whatever codeword of
  24 symbols was recorded, and whichever two symbols were changed to whatever values, the
  corrected block is the recorded one and the count is the number of damaged symbols.
\<close>

theorem rs_correct_p_complete:
  assumes "length v = 24" and "rs_symbols v" and "rs_codeword v 24 4"
    and "length w = 24" and "rs_symbols w" and "distance v w \<le> 2"
  shows "rs_correct w 24 4 = (v, Some (distance v w))"
  using assms by (rule rs_correct_p_repairs)

theorem rs_correct_p_complete_witness:
  "rs_correct ((replicate 24 0)[5 := 17, 9 := 63]) 24 4 = (replicate 24 0, Some 2)"
proof -
  define w :: "u8 list" where "w = (replicate 24 0)[5 := 17, 9 := 63]"
  have s: "rs_symbols (replicate 24 0)" "rs_symbols w"
    unfolding rs_symbols_list_all w_def by code_simp+
  have c: "rs_codeword (replicate 24 0) 24 4"
    unfolding rs_codeword_iff by code_simp
  have "{i. i < length (replicate 24 0) \<and> replicate 24 0 ! i \<noteq> w ! i} = {5, 9}"
    by (auto simp: w_def nth_list_update)
  then have d: "distance (replicate 24 0) w = 2" by (simp add: distance_def)
  show ?thesis
    using rs_correct_p_complete [of "replicate 24 0" w] s c d by (simp add: w_def)
qed

section \<open>De-interleaving\<close>

definition rw_perm :: "nat list" where
  "rw_perm = [0, 18, 5, 23, 4, 2, 6, 7, 8, 9, 10, 11, 12, 13, 14, 15,
              16, 17, 1, 19, 20, 21, 22, 3]"

record accudisc_rw_stats =
  st_packs :: u64
  st_p_fixed :: u64
  st_q_fixed :: u64
  st_p_failed :: u64
  st_q_failed :: u64
  st_mode_zero :: u64
  st_mode_graphics :: u64

record accudisc_rw_pack =
  pk_symbol :: "u8 list"
  pk_p_fixed :: u8
  pk_q_fixed :: u8
  pk_p_failed :: u8
  pk_q_failed :: u8

record accudisc_rw =
  rw_hist :: "u8 list list"
  rw_head :: nat
  rw_seen :: nat
  rw_st :: accudisc_rw_stats

definition accudisc_rw_open :: accudisc_rw where
  "accudisc_rw_open = \<lparr>rw_hist = replicate 8 (replicate 24 0), rw_head = 0, rw_seen = 0,
     rw_st = \<lparr>st_packs = 0, st_p_fixed = 0, st_q_fixed = 0, st_p_failed = 0, st_q_failed = 0,
              st_mode_zero = 0, st_mode_graphics = 0\<rparr>\<rparr>"

definition push_channel_pack :: "u8 list \<Rightarrow> accudisc_rw \<Rightarrow> accudisc_rw" where
  "push_channel_pack chp rw =
     (let h = (rw_head rw + 1) mod 8
      in rw\<lparr>rw_head := h, rw_hist := (rw_hist rw)[h := chp],
            rw_seen := (if rw_seen rw < 8 then rw_seen rw + 1 else rw_seen rw)\<rparr>)"

text \<open>The loop that gathers one logical pack from the ring.\<close>

definition gather :: "accudisc_rw \<Rightarrow> u8 list" where
  "gather rw = fold (\<lambda>i chp.
     let age = 7 - i mod 8; slot = (rw_head rw + 8 - age) mod 8
     in chp[rw_perm ! i := rw_hist rw ! slot ! i]) [0..<24] (replicate 24 0)"

definition rw_mode :: "accudisc_rw_pack \<Rightarrow> u8" where
  "rw_mode p = drop_bit 3 (pk_symbol p ! 0) AND 0x07"

definition count_pack :: "accudisc_rw_pack \<Rightarrow> accudisc_rw_stats \<Rightarrow> accudisc_rw_stats" where
  "count_pack p st =
     (let st' = st\<lparr>st_packs := st_packs st + 1,
          st_p_fixed := st_p_fixed st + ucast (pk_p_fixed p),
          st_q_fixed := st_q_fixed st + ucast (pk_q_fixed p),
          st_p_failed := st_p_failed st + ucast (pk_p_failed p),
          st_q_failed := st_q_failed st + ucast (pk_q_failed p)\<rparr>
      in if rw_mode p = 0 then st'\<lparr>st_mode_zero := st_mode_zero st' + 1\<rparr>
         else if rw_mode p = 1 then st'\<lparr>st_mode_graphics := st_mode_graphics st' + 1\<rparr>
         else st')"

definition emit_pack :: "accudisc_rw \<Rightarrow> accudisc_rw \<times> accudisc_rw_pack" where
  "emit_pack rw =
     (let (s1, p) = rs_correct (gather rw) 24 4;
          (s2, q) = rs_correct s1 4 2;
          out = \<lparr>pk_symbol = s2,
            pk_p_fixed = (case p of None \<Rightarrow> 0 | Some c \<Rightarrow> word_of_nat c),
            pk_q_fixed = (case q of None \<Rightarrow> 0 | Some c \<Rightarrow> word_of_nat c),
            pk_p_failed = (if p = None then 1 else 0), pk_q_failed = (if q = None then 1 else 0)\<rparr>
      in (rw\<lparr>rw_st := count_pack out (rw_st rw)\<rparr>, out))"

text \<open>Pack \<open>pk\<close> of a sector's 96 subcode bytes: R-W is the low six bits of each.\<close>

definition channel_pack :: "u8 list \<Rightarrow> nat \<Rightarrow> u8 list" where
  "channel_pack raw pk = map (\<lambda>i. raw ! (pk * 24 + i) AND 0x3f) [0..<24]"

definition feed_step :: "u8 list \<Rightarrow> nat \<Rightarrow> nat \<Rightarrow> accudisc_rw \<times> accudisc_rw_pack list \<Rightarrow>
    accudisc_rw \<times> accudisc_rw_pack list" where
  "feed_step raw mx pk = (\<lambda>(rw, out).
     let rw' = push_channel_pack (channel_pack raw pk) rw
     in if rw_seen rw' < 8 then (rw', out)
        else if length out < mx then (let (rw'', p) = emit_pack rw' in (rw'', out @ [p]))
        else (rw', out))"

definition accudisc_rw_feed ::
    "accudisc_rw \<Rightarrow> u8 list \<Rightarrow> nat \<Rightarrow> (accudisc_rw \<times> accudisc_rw_pack list) res" where
  "accudisc_rw_feed rw raw mx =
     (if mx \<noteq> 0 \<and> mx < 4 then Inl ERR_INVAL
      else Inr (fold (feed_step raw mx) [0..<4] (rw, [])))"

text \<open>A reader: sectors in order, every pack collected.\<close>

fun rw_feed_all :: "accudisc_rw \<Rightarrow> u8 list list \<Rightarrow> (accudisc_rw \<times> accudisc_rw_pack list) res" where
  "rw_feed_all rw [] = Inr (rw, [])"
| "rw_feed_all rw (raw # raws) =
     (case accudisc_rw_feed rw raw 4 of
        Inl e \<Rightarrow> Inl e
      | Inr (rw', ps) \<Rightarrow>
          (case rw_feed_all rw' raws of Inl e \<Rightarrow> Inl e | Inr (rw'', qs) \<Rightarrow> Inr (rw'', ps @ qs)))"

subsection \<open>The ring remembers the last eight channel packs\<close>

text \<open>\<open>cs\<close> is everything pushed so far, the most recent first.\<close>

definition ring_holds :: "accudisc_rw \<Rightarrow> u8 list list \<Rightarrow> bool" where
  "ring_holds rw cs \<longleftrightarrow> length (rw_hist rw) = 8 \<and> rw_head rw < 8 \<and>
     rw_seen rw = min 8 (length cs) \<and>
     (\<forall>a < min 8 (length cs). rw_hist rw ! ((rw_head rw + 8 - a) mod 8) = cs ! a)"

lemma ring_holds_open: "ring_holds accudisc_rw_open []"
  by (simp add: ring_holds_def accudisc_rw_open_def)

lemma ring_slot:
  assumes "h < 8" and "a < (8::nat)"
  shows "((h + 1) mod 8 + 8 - a) mod 8 = (if a = 0 then (h + 1) mod 8 else (h + 8 - (a - 1)) mod 8)"
    and "a \<noteq> 0 \<Longrightarrow> ((h + 1) mod 8 + 8 - a) mod 8 \<noteq> (h + 1) mod 8"
proof -
  have "list_all (\<lambda>h. list_all (\<lambda>a.
      ((h + 1) mod 8 + 8 - a) mod 8 = (if a = 0 then (h + 1) mod 8 else (h + 8 - (a - 1)) mod 8) \<and>
      (a \<noteq> 0 \<longrightarrow> ((h + 1) mod 8 + 8 - a) mod 8 \<noteq> (h + 1) mod 8)) [0..<8]) [0..<8]"
    by code_simp
  moreover have "h \<in> set [0..<8]" "a \<in> set [0..<8]" using assms by simp_all
  ultimately show "((h + 1) mod 8 + 8 - a) mod 8 =
      (if a = 0 then (h + 1) mod 8 else (h + 8 - (a - 1)) mod 8)"
    and "a \<noteq> 0 \<Longrightarrow> ((h + 1) mod 8 + 8 - a) mod 8 \<noteq> (h + 1) mod 8"
    unfolding list_all_iff by blast+
qed

lemma ring_holds_push:
  assumes "ring_holds rw cs"
  shows "ring_holds (push_channel_pack chp rw) (chp # cs)"
proof -
  let ?h = "(rw_head rw + 1) mod 8"
  have h: "rw_head rw < 8" "length (rw_hist rw) = 8" using assms by (simp_all add: ring_holds_def)
  have "(rw_hist rw)[?h := chp] ! ((?h + 8 - a) mod 8) = (chp # cs) ! a"
    if "a < min 8 (Suc (length cs))" for a
  proof (cases a)
    case 0
    then show ?thesis using h by simp
  next
    case (Suc b)
    then have "(?h + 8 - a) mod 8 = (rw_head rw + 8 - b) mod 8" "(?h + 8 - a) mod 8 \<noteq> ?h"
      using ring_slot [OF h(1), of a] that by simp_all
    then show ?thesis
      using assms that Suc by (simp add: ring_holds_def)
  qed
  then show ?thesis
    using assms by (auto simp: ring_holds_def push_channel_pack_def Let_def)
qed

subsection \<open>The de-interleaver undoes the recorder's interleaving\<close>

text \<open>
  Channel packs \<open>ch 0, ch 1, ...\<close>. Logical pack \<open>m\<close> has its symbol for position \<open>perm[i]\<close> at
  channel position \<open>i\<close>, delayed by \<open>i mod 8\<close> packs; \<open>perm\<close> is its own inverse.
\<close>

definition received_pack :: "(nat \<Rightarrow> u8 list) \<Rightarrow> nat \<Rightarrow> u8 list" where
  "received_pack ch m = map (\<lambda>p. ch (m + rw_perm ! p mod 8) ! (rw_perm ! p)) [0..<24]"

lemma rw_perm_involution: "i < 24 \<Longrightarrow> rw_perm ! i < 24 \<and> rw_perm ! (rw_perm ! i) = i"
proof -
  have "list_all (\<lambda>i. rw_perm ! i < 24 \<and> rw_perm ! (rw_perm ! i) = i) [0..<24]" by code_simp
  then show "i < 24 \<Longrightarrow> ?thesis" unfolding list_all_iff by simp
qed

lemma fold_scatter:
  fixes f :: "nat \<Rightarrow> u8"
  shows "fold (\<lambda>i ys. ys[rw_perm ! i := f i]) [0..<24] (replicate 24 0) =
     map (\<lambda>p. f (rw_perm ! p)) [0..<24]"
  by code_simp

text \<open>\<open>cs ! a\<close> is the channel pack of age \<open>a\<close>.\<close>

lemma gather_eq:
  assumes "ring_holds rw cs" and "8 \<le> length cs"
  shows "gather rw = map (\<lambda>p. cs ! (7 - rw_perm ! p mod 8) ! (rw_perm ! p)) [0..<24]"
proof -
  have "rw_hist rw ! ((rw_head rw + 8 - (7 - i mod 8)) mod 8) ! i = cs ! (7 - i mod 8) ! i" for i
  proof -
    have "\<forall>a < 8. rw_hist rw ! ((rw_head rw + 8 - a) mod 8) = cs ! a"
      using assms by (simp add: ring_holds_def)
    moreover have "7 - i mod 8 < 8" by simp
    ultimately show ?thesis by (simp only:)
  qed
  then show ?thesis by (simp add: gather_def Let_def fold_scatter)
qed

text \<open>The channel stream of a list of sectors.\<close>

definition stream_pack :: "u8 list list \<Rightarrow> nat \<Rightarrow> u8 list" where
  "stream_pack raws t = channel_pack (raws ! (t div 4)) (t mod 4)"

lemma rev_map_upt_nth: "a < t \<Longrightarrow> rev (map f [0..<t]) ! a = f (t - Suc a)"
  by (simp add: rev_nth)

lemma gather_stream:
  assumes "ring_holds rw (rev (map ch [0..<m + 8]))"
  shows "gather rw = received_pack ch m"
proof -
  have "rev (map ch [0..<m + 8]) ! (7 - q) = ch (m + q)" if "q < 8" for q
    using that by (simp only: rev_map_upt_nth) simp
  then show ?thesis
    using gather_eq [OF assms] by (simp add: received_pack_def)
qed

text \<open>What must come out for logical pack \<open>m\<close>: the recorded symbols, nothing failed.\<close>

definition delivers :: "u8 list \<Rightarrow> accudisc_rw_pack \<Rightarrow> bool" where
  "delivers v p \<longleftrightarrow> pk_symbol p = v \<and> pk_p_failed p = 0 \<and> pk_q_failed p = 0"

definition rw_recorded :: "u8 list \<Rightarrow> bool" where
  "rw_recorded v \<longleftrightarrow> length v = 24 \<and> rs_symbols v \<and> rs_codeword v 24 4 \<and> rs_codeword v 4 2"

lemma and_3f_less: "(x :: u8) AND 0x3f < 64"
proof -
  have "x AND 0x3f \<le> 0x3f" by (rule word_and_le1)
  then show ?thesis by (simp add: word_le_nat_alt word_less_nat_alt)
qed

lemma emit_delivers:
  assumes "rw_recorded v" and "length (gather rw) = 24" and "rs_symbols (gather rw)"
    and "distance v (gather rw) \<le> 2"
  shows "delivers v (snd (emit_pack rw))" and "rw_hist (fst (emit_pack rw)) = rw_hist rw"
    and "rw_head (fst (emit_pack rw)) = rw_head rw" and "rw_seen (fst (emit_pack rw)) = rw_seen rw"
proof -
  have p: "rs_correct (gather rw) 24 4 = (v, Some (distance v (gather rw)))"
    using assms by (intro rs_correct_p_repairs) (simp_all add: rw_recorded_def)
  have q: "rs_correct v 4 2 = (v, Some 0)"
    using assms(1) by (simp add: rs_correct_def rw_recorded_def rs_codeword_iff)
  show "delivers v (snd (emit_pack rw))" "rw_hist (fst (emit_pack rw)) = rw_hist rw"
    "rw_head (fst (emit_pack rw)) = rw_head rw" "rw_seen (fst (emit_pack rw)) = rw_seen rw"
    by (simp_all add: emit_pack_def p q delivers_def Let_def)
qed

lemma received_pack_wf:
  assumes "\<And>t. t < m + 8 \<Longrightarrow> length (ch t) = 24 \<and> rs_symbols (ch t)"
  shows "length (received_pack ch m) = 24" and "rs_symbols (received_pack ch m)"
proof -
  have "ch (m + rw_perm ! p mod 8) ! (rw_perm ! p) \<in> gf64" if "p < 24" for p
    using assms [of "m + rw_perm ! p mod 8"] rw_perm_involution [OF that]
    by (simp add: rs_symbols_nth)
  then show "rs_symbols (received_pack ch m)"
    by (auto simp: received_pack_def rs_symbols_def)
qed (simp add: received_pack_def)

text \<open>One channel pack: the ring advances and, once primed, one logical pack comes out.\<close>

lemma feed_step_stream:
  assumes ring: "ring_holds rw (rev (map ch [0..<t]))"
    and cht: "channel_pack raw pk = ch t" and room: "length out < mx"
    and wf: "\<And>u. u \<le> t \<Longrightarrow> length (ch u) = 24 \<and> rs_symbols (ch u)"
    and good: "\<And>m. m + 7 = t \<Longrightarrow> rw_recorded (P m) \<and> distance (P m) (received_pack ch m) \<le> 2"
  shows "\<exists>rw' ps. feed_step raw mx pk (rw, out) = (rw', out @ ps) \<and>
    ring_holds rw' (rev (map ch [0..<Suc t])) \<and>
    list_all2 delivers (map P [t - 7..<Suc t - 7]) ps"
proof -
  define rw1 where "rw1 = push_channel_pack (ch t) rw"
  have ring1: "ring_holds rw1 (rev (map ch [0..<Suc t]))"
    using ring_holds_push [OF ring, of "ch t"] by (simp add: rw1_def)
  then have seen: "rw_seen rw1 = min 8 (Suc t)" by (simp add: ring_holds_def)
  show ?thesis
  proof (cases "t < 7")
    case True
    then show ?thesis
      using ring1 seen by (simp add: feed_step_def cht rw1_def [symmetric] Let_def)
  next
    case False
    then obtain m where m: "t = m + 7" by (metis add.commute le_Suc_ex not_less)
    have gat: "gather rw1 = received_pack ch m"
      using ring1 m by (intro gather_stream) (simp add: add.commute)
    note w = received_pack_wf [of m ch]
    have emit: "delivers (P m) (snd (emit_pack rw1))"
      "rw_hist (fst (emit_pack rw1)) = rw_hist rw1" "rw_head (fst (emit_pack rw1)) = rw_head rw1"
      "rw_seen (fst (emit_pack rw1)) = rw_seen rw1"
      using emit_delivers [of "P m" rw1] good [of m] wf w m by (simp_all add: gat)
    have "feed_step raw mx pk (rw, out) = (fst (emit_pack rw1), out @ [snd (emit_pack rw1)])"
      unfolding feed_step_def cht Let_def prod.case rw1_def [symmetric]
      using room seen m by (simp add: split_beta)
    moreover have "ring_holds (fst (emit_pack rw1)) (rev (map ch [0..<Suc t]))"
      using ring1 emit by (simp add: ring_holds_def)
    ultimately show ?thesis using emit(1) m by (auto simp: Suc_diff_le)
  qed
qed

lemma list_all2_upt_extend:
  assumes "list_all2 R (map P [a..<b]) xs" and "list_all2 R (map P [b..<c]) ys" and "a \<le> b" "b \<le> c"
  shows "list_all2 R (map P [a..<c]) (xs @ ys)"
proof -
  have "[a..<c] = [a..<b] @ [b..<c]" using assms(3,4) by (metis le_Suc_ex upt_add_eq_append)
  then show ?thesis using assms(1,2) by (simp add: list_all2_appendI)
qed

lemma feed_packs_stream:
  assumes ring: "ring_holds rw (rev (map ch [0..<t]))"
    and cht: "\<And>pk. pk < 4 \<Longrightarrow> channel_pack raw pk = ch (t + pk)"
    and wf: "\<And>u. u < t + 4 \<Longrightarrow> length (ch u) = 24 \<and> rs_symbols (ch u)"
    and good: "\<And>m. m + 7 < t + 4 \<Longrightarrow> rw_recorded (P m) \<and> distance (P m) (received_pack ch m) \<le> 2"
    and k: "k \<le> 4"
  shows "\<exists>rw' ps. fold (feed_step raw 4) [0..<k] (rw, []) = (rw', ps) \<and>
    ring_holds rw' (rev (map ch [0..<t + k])) \<and>
    list_all2 delivers (map P [t - 7..<t + k - 7]) ps"
  using k
proof (induction k)
  case 0
  then show ?case using ring by simp
next
  case (Suc k)
  then obtain rw' ps where IH: "fold (feed_step raw 4) [0..<k] (rw, []) = (rw', ps)"
    "ring_holds rw' (rev (map ch [0..<t + k]))" "list_all2 delivers (map P [t - 7..<t + k - 7]) ps"
    by auto
  have "length ps \<le> k" using list_all2_lengthD [OF IH(3)] by simp
  then have "\<exists>rw'' qs. feed_step raw 4 k (rw', ps) = (rw'', ps @ qs) \<and>
      ring_holds rw'' (rev (map ch [0..<Suc (t + k)])) \<and>
      list_all2 delivers (map P [t + k - 7..<Suc (t + k) - 7]) qs"
    using Suc.prems by (intro feed_step_stream [OF IH(2)]) (auto simp: cht wf good)
  then obtain rw'' qs where "feed_step raw 4 k (rw', ps) = (rw'', ps @ qs)"
    "ring_holds rw'' (rev (map ch [0..<Suc (t + k)]))"
    "list_all2 delivers (map P [t + k - 7..<Suc (t + k) - 7]) qs" by blast
  moreover from this IH(3) have "list_all2 delivers (map P [t - 7..<Suc (t + k) - 7]) (ps @ qs)"
    by (intro list_all2_upt_extend [where b = "t + k - 7"]) (assumption | arith)+
  ultimately show ?case by (auto simp: IH(1))
qed

lemma rw_feed_all_stream:
  assumes "ring_holds rw (rev (map ch [0..<t]))"
    and "\<And>i pk. i < length raws \<Longrightarrow> pk < 4 \<Longrightarrow> channel_pack (raws ! i) pk = ch (t + 4 * i + pk)"
    and "\<And>u. u < t + 4 * length raws \<Longrightarrow> length (ch u) = 24 \<and> rs_symbols (ch u)"
    and "\<And>m. m + 7 < t + 4 * length raws \<Longrightarrow>
      rw_recorded (P m) \<and> distance (P m) (received_pack ch m) \<le> 2"
  shows "\<exists>rw' ps. rw_feed_all rw raws = Inr (rw', ps) \<and>
    list_all2 delivers (map P [t - 7..<t + 4 * length raws - 7]) ps"
  using assms
proof (induction raws arbitrary: rw t)
  case Nil
  then show ?case by simp
next
  case (Cons raw raws)
  have "\<exists>rw' ps. fold (feed_step raw 4) [0..<4] (rw, []) = (rw', ps) \<and>
      ring_holds rw' (rev (map ch [0..<t + 4])) \<and>
      list_all2 delivers (map P [t - 7..<t + 4 - 7]) ps"
  proof (rule feed_packs_stream [OF Cons.prems(1)])
    show "channel_pack raw pk = ch (t + pk)" if "pk < 4" for pk
      using Cons.prems(2) [of 0 pk] that by simp
  qed (use Cons.prems(3,4) in auto)
  then obtain rw' ps where 1: "fold (feed_step raw 4) [0..<4] (rw, []) = (rw', ps)"
    "ring_holds rw' (rev (map ch [0..<t + 4]))" "list_all2 delivers (map P [t - 7..<t + 4 - 7]) ps"
    by blast
  have "\<exists>rw'' qs. rw_feed_all rw' raws = Inr (rw'', qs) \<and>
      list_all2 delivers (map P [t + 4 - 7..<t + 4 + 4 * length raws - 7]) qs"
  proof (rule Cons.IH [OF 1(2)])
    show "channel_pack (raws ! i) pk = ch (t + 4 + 4 * i + pk)"
      if "i < length raws" "pk < 4" for i pk
      using Cons.prems(2) [of "Suc i" pk] that by (simp add: algebra_simps)
  qed (use Cons.prems(3,4) in \<open>auto simp: algebra_simps\<close>)
  then obtain rw'' qs where 2: "rw_feed_all rw' raws = Inr (rw'', qs)"
    "list_all2 delivers (map P [t + 4 - 7..<t + 4 + 4 * length raws - 7]) qs" by blast
  have "list_all2 delivers (map P [t - 7..<t + 4 * length (raw # raws) - 7]) (ps @ qs)"
    using list_all2_upt_extend [OF 1(3) 2(2)] by (simp add: algebra_simps)
  then show ?case using 1(1) 2(1) by (simp add: accudisc_rw_feed_def)
qed

text \<open>
  C10: the CD+G stream end to end. \<open>raws\<close> are the sectors a fresh decoder is fed, of which
  only the interleaved symbols matter; \<open>P m\<close> is the pack the recorder interleaved as logical
  pack \<open>m\<close>. If at most two symbols of each logical pack were damaged anywhere on the channel,
  the decoder delivers exactly the recorded packs, in order, none lost but the seven that
  prime the ring, and flags none of them.
\<close>

theorem rw_stream_recovered:
  assumes "\<And>m. m + 7 < 4 * length raws \<Longrightarrow>
      rw_recorded (P m) \<and> distance (P m) (received_pack (stream_pack raws) m) \<le> 2"
  shows "\<exists>rw ps. rw_feed_all accudisc_rw_open raws = Inr (rw, ps) \<and>
    list_all2 delivers (map P [0..<4 * length raws - 7]) ps"
proof -
  have wf: "length (stream_pack raws u) = 24 \<and> rs_symbols (stream_pack raws u)" for u
    by (auto simp: stream_pack_def channel_pack_def rs_symbols_list_all list_all_iff and_3f_less)
  have "\<exists>rw' ps. rw_feed_all accudisc_rw_open raws = Inr (rw', ps) \<and>
      list_all2 delivers (map P [0 - 7..<0 + 4 * length raws - 7]) ps"
    by (rule rw_feed_all_stream [where ch = "stream_pack raws"])
      (use assms wf ring_holds_open in \<open>simp_all add: stream_pack_def\<close>)
  then show ?thesis by simp
qed

text \<open>A run of all-zero packs with two symbols of logical pack 0 flipped on the channel.\<close>

theorem rw_stream_recovered_witness:
  "\<exists>rw ps. rw_feed_all accudisc_rw_open
       [(replicate 96 0)[25 := 0x15], (replicate 96 0)[4 := 0x3f]] = Inr (rw, ps) \<and>
     list_all2 delivers [replicate 24 0] ps"
proof -
  let ?raws = "[(replicate 96 0)[25 := 0x15], (replicate 96 0)[4 := 0x3f]] :: u8 list list"
  have rec: "rw_recorded (replicate 24 0)"
    unfolding rw_recorded_def rs_symbols_list_all rs_codeword_iff by code_simp
  have "received_pack (stream_pack ?raws) 0 = (replicate 24 0)[18 := 0x15, 4 := 0x3f]"
    by code_simp
  moreover have "{i. i < length (replicate 24 0) \<and>
      replicate 24 0 ! i \<noteq> (replicate 24 0)[18 := 0x15, 4 := 0x3f :: u8] ! i} = {18, 4}"
    by (auto simp: nth_list_update)
  ultimately have "distance (replicate 24 0) (received_pack (stream_pack ?raws) 0) \<le> 2"
    by (simp add: distance_def)
  then show ?thesis
    using rw_stream_recovered [of ?raws "\<lambda>_. replicate 24 0"] rec by simp
qed

end
