(* ===== verification/Extents.thy ===== *)
theory Extents
  imports SubQ
begin

text \<open>
  The parsed table of contents and the track extents derived from it (\<^verbatim>\<open>toc_fill_extents\<close> in
  \<^verbatim>\<open>src/toc/toc.c\<close>, data in \<^verbatim>\<open>include/accudisc/accudisc.h\<close>). Addresses keep their 32-bit
  width, so every subtraction is the C one; \<open>tracks[]\<close> and \<open>sessions[]\<close> are the lists of the
  entries in use, so \<open>track_count\<close> is a length. The lemmas give each loop its closed form, what
  an unset anomaly bit says about the geometry, and that non-empty extents are then disjoint.
\<close>

section \<open>Data\<close>

record accudisc_track =
  trk_number :: u8
  trk_adr_ctrl :: u8
  trk_session :: u8
  trk_lba :: u32
  trk_sectors :: u32
  trk_pregap :: u32

record accudisc_session =
  ses_number :: u8
  ses_first_track :: u8
  ses_last_track :: u8
  ses_audio_tracks :: u8
  ses_data_tracks :: u8
  ses_leadout_lba :: u32

record accudisc_toc =
  toc_first_track :: u8
  toc_last_track :: u8
  toc_leadout_lba :: u32
  toc_tracks :: "accudisc_track list"
  toc_sessions :: "accudisc_session list"
  toc_sessions_total :: u8
  toc_anomalies :: u16

definition track_is_audio :: "accudisc_track \<Rightarrow> bool" where
  "track_is_audio t \<longleftrightarrow> trk_adr_ctrl t AND 0x04 = 0"

definition toc_zero :: accudisc_toc where
  "toc_zero = \<lparr>toc_first_track = 0, toc_last_track = 0, toc_leadout_lba = 0, toc_tracks = [],
     toc_sessions = [], toc_sessions_total = 0, toc_anomalies = 0\<rparr>"

definition track_zero :: accudisc_track where
  "track_zero = \<lparr>trk_number = 0, trk_adr_ctrl = 0, trk_session = 0, trk_lba = 0,
     trk_sectors = 0, trk_pregap = 0\<rparr>"

definition session_zero :: accudisc_session where
  "session_zero = \<lparr>ses_number = 0, ses_first_track = 0, ses_last_track = 0,
     ses_audio_tracks = 0, ses_data_tracks = 0, ses_leadout_lba = 0\<rparr>"

text \<open>The anomaly bits.\<close>

definition anom_lba_order :: u16 where "anom_lba_order = 1"
definition anom_overlap :: u16 where "anom_overlap = 2"
definition anom_leadout_before :: u16 where "anom_leadout_before = 4"
definition anom_past_leadout :: u16 where "anom_past_leadout = 8"
definition anom_empty_track :: u16 where "anom_empty_track = 16"
definition anom_negative_lba :: u16 where "anom_negative_lba = 32"
definition anom_bad_track_num :: u16 where "anom_bad_track_num = 64"
definition anom_range_mismatch :: u16 where "anom_range_mismatch = 128"
definition anom_bad_session :: u16 where "anom_bad_session = 256"

definition anom_untrusted_geometry :: u16 where
  "anom_untrusted_geometry = anom_lba_order OR anom_overlap OR anom_leadout_before"

lemmas anom_defs = anom_lba_order_def anom_overlap_def anom_leadout_before_def
  anom_past_leadout_def anom_empty_track_def anom_negative_lba_def anom_bad_track_num_def
  anom_range_mismatch_def anom_bad_session_def

definition flag :: "u16 \<Rightarrow> bool \<Rightarrow> accudisc_toc \<Rightarrow> accudisc_toc" where
  "flag a c toc = (if c then toc\<lparr>toc_anomalies := toc_anomalies toc OR a\<rparr> else toc)"

section \<open>Track extents\<close>

text \<open>This session's lead-out, or the disc's when the session table does not hold it.\<close>

definition session_leadout :: "accudisc_toc \<Rightarrow> u8 \<Rightarrow> u32" where
  "session_leadout t n =
     (case find (\<lambda>s. ses_number s = n) (toc_sessions t) of
        Some s \<Rightarrow> ses_leadout_lba s | None \<Rightarrow> toc_leadout_lba t)"

text \<open>The loop of \<open>next_by_address\<close>: the first lowest address above track \<open>i\<close> in its session.\<close>

definition next_better :: "accudisc_track list \<Rightarrow> nat \<Rightarrow> nat \<Rightarrow> nat option \<Rightarrow> nat option" where
  "next_better ts i j best =
     (if j = i \<or> trk_session (ts ! j) \<noteq> trk_session (ts ! i) then best
      else if trk_lba (ts ! j) \<le> trk_lba (ts ! i) then best
      else case best of
          None \<Rightarrow> Some j
        | Some b \<Rightarrow> if trk_lba (ts ! j) < trk_lba (ts ! b) then Some j else best)"

definition next_by_address :: "accudisc_track list \<Rightarrow> nat \<Rightarrow> nat option" where
  "next_by_address ts i = fold (next_better ts i) [0..<length ts] None"

text \<open>Body of the first loop of \<open>toc_fill_extents\<close>.\<close>

definition fill_extent_at :: "nat \<Rightarrow> accudisc_toc \<Rightarrow> accudisc_toc" where
  "fill_extent_at i out =
     (let ts = toc_tracks out; t = ts ! i;
          out1 = flag anom_lba_order (i + 1 < length ts \<and>
             trk_session (ts ! (i + 1)) = trk_session t \<and> trk_lba (ts ! (i + 1)) \<le> trk_lba t) out;
          nx = (case next_by_address ts i of
                  Some j \<Rightarrow> trk_lba (ts ! j) | None \<Rightarrow> session_leadout out (trk_session t));
          out2 = flag anom_past_leadout (session_leadout out (trk_session t) \<le> trk_lba t) out1;
          sec = (if nx > trk_lba t then nx - trk_lba t else 0);
          out3 = out2\<lparr>toc_tracks := ts[i := t\<lparr>trk_sectors := sec\<rparr>]\<rparr>
      in flag anom_empty_track (sec = 0) out3)"

text \<open>Lowest track start among a list of tracks.\<close>

fun lowest_lba :: "accudisc_track list \<Rightarrow> u32 option" where
  "lowest_lba [] = None"
| "lowest_lba (t # ts) =
     (case lowest_lba ts of None \<Rightarrow> Some (trk_lba t)
      | Some l \<Rightarrow> Some (if l < trk_lba t then l else trk_lba t))"

definition leadout_before :: "u32 \<Rightarrow> accudisc_track list \<Rightarrow> bool" where
  "leadout_before leadout ts \<longleftrightarrow> (case lowest_lba ts of None \<Rightarrow> False | Some l \<Rightarrow> leadout \<le> l)"

definition check_leadouts :: "accudisc_toc \<Rightarrow> accudisc_toc" where
  "check_leadouts out =
     (let out1 = fold (\<lambda>s. flag anom_leadout_before (leadout_before (ses_leadout_lba s)
            (filter (\<lambda>t. trk_session t = ses_number s) (toc_tracks out)))) (toc_sessions out) out
      in flag anom_leadout_before
           (toc_sessions out = [] \<and> leadout_before (toc_leadout_lba out) (toc_tracks out)) out1)"

text \<open>The first of the lowest-addressed tracks of session 0 or 1, if there is one.\<close>

definition lower_start :: "accudisc_track list \<Rightarrow> nat \<Rightarrow> nat option \<Rightarrow> nat option" where
  "lower_start ts i lo =
     (if trk_session (ts ! i) > 1 then lo
      else case lo of None \<Rightarrow> Some i
        | Some l \<Rightarrow> if trk_lba (ts ! i) < trk_lba (ts ! l) then Some i else lo)"

definition first_pregap :: "accudisc_toc \<Rightarrow> accudisc_toc" where
  "first_pregap out =
     (let ts = toc_tracks out
      in case fold (lower_start ts) [0..<length ts] None of
           None \<Rightarrow> out
         | Some l \<Rightarrow> if trk_lba (ts ! l) \<noteq> 0
             then out\<lparr>toc_tracks := ts[l := (ts ! l)\<lparr>trk_pregap := trk_lba (ts ! l)\<rparr>]\<rparr> else out)"

definition tracks_overlap :: "accudisc_track \<Rightarrow> accudisc_track \<Rightarrow> bool" where
  "tracks_overlap a b \<longleftrightarrow>
     trk_lba a - trk_pregap a < trk_lba b + trk_sectors b \<and>
     trk_lba b - trk_pregap b < trk_lba a + trk_sectors a"

definition check_overlap :: "accudisc_toc \<Rightarrow> accudisc_toc" where
  "check_overlap out =
     (let ts = toc_tracks out
      in fold (\<lambda>i. if trk_sectors (ts ! i) = 0 then id
           else fold (\<lambda>j. flag anom_overlap
                  (trk_sectors (ts ! j) \<noteq> 0 \<and> tracks_overlap (ts ! i) (ts ! j)))
                [i + 1..<length ts]) [0..<length ts] out)"

definition toc_fill_extents :: "accudisc_toc \<Rightarrow> accudisc_toc" where
  "toc_fill_extents out =
     check_overlap (first_pregap (check_leadouts
       (fold fill_extent_at [0..<length (toc_tracks out)] out)))"

section \<open>Anomaly bits\<close>

definition anom_if :: "u16 \<Rightarrow> bool \<Rightarrow> u16" where
  "anom_if a c = (if c then a else 0)"

fun or_list :: "u16 list \<Rightarrow> u16" where
  "or_list [] = 0"
| "or_list (x # xs) = or_list xs OR x"

lemma or_and_eq_0: "(a OR b) AND m = 0 \<longleftrightarrow> a AND m = 0 \<and> b AND m = (0 :: 'a::len word)"
  by (auto simp: bit_eq_iff bit_simps)

lemma or_eq_0: "a OR b = 0 \<longleftrightarrow> a = 0 \<and> b = (0 :: 'a::len word)"
  by (auto simp: bit_eq_iff bit_simps)

lemma or_list_and_eq_0: "or_list xs AND m = 0 \<longleftrightarrow> (\<forall>x \<in> set xs. x AND m = 0)"
  by (induction xs) (auto simp: or_and_eq_0)

lemma or_list_eq_0: "or_list xs = 0 \<longleftrightarrow> (\<forall>x \<in> set xs. x = 0)"
  by (induction xs) (auto simp: or_eq_0)

lemma or_list_append: "or_list (xs @ ys) = or_list xs OR or_list ys"
  by (induction xs) (simp_all add: or.assoc or.commute or.left_commute)

lemma anom_if_eq_0: "a \<noteq> 0 \<Longrightarrow> anom_if a c = 0 \<longleftrightarrow> \<not> c"
  by (simp add: anom_if_def)

lemma anom_if_and_eq_0: "a AND m \<noteq> 0 \<Longrightarrow> anom_if a c AND m = 0 \<longleftrightarrow> \<not> c"
  by (simp add: anom_if_def)

lemma anom_nonzero [simp]: "anom_lba_order \<noteq> 0" "anom_overlap \<noteq> 0" "anom_leadout_before \<noteq> 0"
  "anom_past_leadout \<noteq> 0" "anom_empty_track \<noteq> 0"
  by (simp_all add: anom_defs)

lemma anom_untrusted [simp]: "anom_lba_order AND anom_untrusted_geometry \<noteq> 0"
  "anom_overlap AND anom_untrusted_geometry \<noteq> 0"
  "anom_leadout_before AND anom_untrusted_geometry \<noteq> 0"
  by (simp_all add: anom_defs anom_untrusted_geometry_def)

lemma flag_eq: "flag a c toc = toc\<lparr>toc_anomalies := toc_anomalies toc OR anom_if a c\<rparr>"
  by (simp add: flag_def anom_if_def)

lemma fold_flag_eq:
  "fold (\<lambda>x. flag a (c x)) xs toc =
   toc\<lparr>toc_anomalies := toc_anomalies toc OR or_list (map (\<lambda>x. anom_if a (c x)) xs)\<rparr>"
  by (induction xs arbitrary: toc) (simp_all add: flag_eq or.assoc or.commute or.left_commute)

section \<open>The next track by address\<close>

definition same_session_above :: "accudisc_track list \<Rightarrow> nat \<Rightarrow> nat \<Rightarrow> bool" where
  "same_session_above ts i j \<longleftrightarrow> j < length ts \<and> trk_session (ts ! j) = trk_session (ts ! i) \<and>
     trk_lba (ts ! i) < trk_lba (ts ! j)"

lemma next_by_address_spec:
  "case next_by_address ts i of
     None \<Rightarrow> \<forall>k. \<not> same_session_above ts i k
   | Some j \<Rightarrow> same_session_above ts i j \<and>
       (\<forall>k. same_session_above ts i k \<longrightarrow> trk_lba (ts ! j) \<le> trk_lba (ts ! k))"
proof -
  have "n \<le> length ts \<Longrightarrow> (case fold (next_better ts i) [0..<n] None of
      None \<Rightarrow> \<forall>k < n. \<not> same_session_above ts i k
    | Some j \<Rightarrow> j < n \<and> same_session_above ts i j \<and>
        (\<forall>k < n. same_session_above ts i k \<longrightarrow> trk_lba (ts ! j) \<le> trk_lba (ts ! k)))" for n
  proof (induction n)
    case (Suc n)
    define acc where "acc = fold (next_better ts i) [0..<n] None"
    have "case acc of None \<Rightarrow> \<forall>k < n. \<not> same_session_above ts i k
      | Some j \<Rightarrow> j < n \<and> same_session_above ts i j \<and>
          (\<forall>k < n. same_session_above ts i k \<longrightarrow> trk_lba (ts ! j) \<le> trk_lba (ts ! k))"
      using Suc by (simp add: acc_def)
    then have "case next_better ts i n acc of None \<Rightarrow> \<forall>k < Suc n. \<not> same_session_above ts i k
      | Some j \<Rightarrow> j < Suc n \<and> same_session_above ts i j \<and>
          (\<forall>k < Suc n. same_session_above ts i k \<longrightarrow> trk_lba (ts ! j) \<le> trk_lba (ts ! k))"
      using Suc.prems
      by (cases acc)
        (auto simp: next_better_def same_session_above_def less_Suc_eq not_le not_less)
    moreover have "fold (next_better ts i) [0..<Suc n] None = next_better ts i n acc"
      by (simp add: acc_def)
    ultimately show ?case by (simp only:)
  qed simp
  from this [of "length ts"] show ?thesis
    by (auto simp: next_by_address_def same_session_above_def split: option.splits)
qed

text \<open>Two track lists with the same addresses and sessions.\<close>

definition same_layout :: "accudisc_track list \<Rightarrow> accudisc_track list \<Rightarrow> bool" where
  "same_layout = list_all2 (\<lambda>a b. trk_lba a = trk_lba b \<and> trk_session a = trk_session b)"

lemma same_layout_length: "same_layout ts us \<Longrightarrow> length us = length ts"
  by (simp add: same_layout_def list_all2_lengthD)

lemma same_layout_nth: "same_layout ts us \<Longrightarrow> i < length ts \<Longrightarrow>
    trk_lba (us ! i) = trk_lba (ts ! i) \<and> trk_session (us ! i) = trk_session (ts ! i)"
  by (simp add: same_layout_def list_all2_conv_all_nth)

lemma next_by_address_layout:
  assumes "same_layout ts us" and "i < length ts"
  shows "next_by_address us i = next_by_address ts i"
proof -
  have "n \<le> length ts \<Longrightarrow>
      fold (next_better us i) [0..<n] None = fold (next_better ts i) [0..<n] None \<and>
      (\<forall>b. fold (next_better ts i) [0..<n] None = Some b \<longrightarrow> b < n)" for n
    by (induction n)
      (auto simp: next_better_def same_layout_nth [OF assms(1)] assms(2) less_Suc_eq
        split: option.splits)
  then show ?thesis
    by (simp add: next_by_address_def same_layout_length [OF assms(1)])
qed

section \<open>The extent loop in closed form\<close>

definition extent_next :: "accudisc_toc \<Rightarrow> nat \<Rightarrow> u32" where
  "extent_next out i = (case next_by_address (toc_tracks out) i of
     Some j \<Rightarrow> trk_lba (toc_tracks out ! j)
   | None \<Rightarrow> session_leadout out (trk_session (toc_tracks out ! i)))"

definition extent_len :: "accudisc_toc \<Rightarrow> nat \<Rightarrow> u32" where
  "extent_len out i = (if extent_next out i > trk_lba (toc_tracks out ! i)
     then extent_next out i - trk_lba (toc_tracks out ! i) else 0)"

definition out_of_order :: "accudisc_track list \<Rightarrow> nat \<Rightarrow> bool" where
  "out_of_order ts i \<longleftrightarrow> i + 1 < length ts \<and> trk_session (ts ! (i + 1)) = trk_session (ts ! i) \<and>
     trk_lba (ts ! (i + 1)) \<le> trk_lba (ts ! i)"

definition past_leadout :: "accudisc_toc \<Rightarrow> nat \<Rightarrow> bool" where
  "past_leadout out i \<longleftrightarrow>
     session_leadout out (trk_session (toc_tracks out ! i)) \<le> trk_lba (toc_tracks out ! i)"

definition extent_flags :: "accudisc_toc \<Rightarrow> nat \<Rightarrow> u16" where
  "extent_flags out i = anom_if anom_lba_order (out_of_order (toc_tracks out) i) OR
     anom_if anom_past_leadout (past_leadout out i) OR anom_if anom_empty_track (extent_len out i = 0)"

lemma fill_extent_at_eq:
  "fill_extent_at i out = out
     \<lparr>toc_tracks := (toc_tracks out)[i := (toc_tracks out ! i)\<lparr>trk_sectors := extent_len out i\<rparr>],
      toc_anomalies := toc_anomalies out OR extent_flags out i\<rparr>"
  by (simp add: fill_extent_at_def Let_def flag_eq extent_flags_def extent_len_def extent_next_def
      out_of_order_def past_leadout_def session_leadout_def or.assoc)

lemma extent_layout:
  assumes "same_layout (toc_tracks a) (toc_tracks b)" and "toc_sessions b = toc_sessions a"
    and "toc_leadout_lba b = toc_leadout_lba a" and "i < length (toc_tracks a)"
  shows "extent_len b i = extent_len a i" and "extent_flags b i = extent_flags a i"
proof -
  have so: "session_leadout b = session_leadout a"
    by (rule ext) (auto simp: session_leadout_def assms split: option.splits)
  have nx: "extent_next b i = extent_next a i"
    using next_by_address_layout [OF assms(1,4)] next_by_address_spec [of "toc_tracks a" i]
    by (auto simp: extent_next_def same_layout_nth [OF assms(1)] assms(4) so
        same_session_above_def split: option.splits)
  show len: "extent_len b i = extent_len a i"
    by (simp add: nx extent_len_def same_layout_nth [OF assms(1)] assms(4))
  have "out_of_order (toc_tracks b) i = out_of_order (toc_tracks a) i"
    by (auto simp: out_of_order_def same_layout_nth [OF assms(1)] same_layout_length [OF assms(1)])
  moreover have "past_leadout b i = past_leadout a i"
    by (simp add: past_leadout_def so same_layout_nth [OF assms(1)] assms(4))
  ultimately show "extent_flags b i = extent_flags a i"
    by (simp add: extent_flags_def len)
qed

definition extents_filled :: "accudisc_toc \<Rightarrow> accudisc_track list" where
  "extents_filled out = map (\<lambda>i. (toc_tracks out ! i)\<lparr>trk_sectors := extent_len out i\<rparr>)
     [0..<length (toc_tracks out)]"

lemma fill_loop_eq:
  assumes "k \<le> length (toc_tracks out)"
  shows "fold fill_extent_at [0..<k] out = out
     \<lparr>toc_tracks := take k (extents_filled out) @ drop k (toc_tracks out),
      toc_anomalies := toc_anomalies out OR or_list (map (extent_flags out) [0..<k])\<rparr>"
  using assms
proof (induction k)
  case (Suc k)
  define mid where "mid = out
     \<lparr>toc_tracks := take k (extents_filled out) @ drop k (toc_tracks out),
      toc_anomalies := toc_anomalies out OR or_list (map (extent_flags out) [0..<k])\<rparr>"
  have len: "length (extents_filled out) = length (toc_tracks out)"
    by (simp add: extents_filled_def)
  have lay: "same_layout (toc_tracks out) (toc_tracks mid)"
    using Suc.prems
    by (auto simp: mid_def same_layout_def list_all2_conv_all_nth len nth_append extents_filled_def)
  have k: "toc_tracks mid ! k = toc_tracks out ! k" "k < length (toc_tracks out)"
    using Suc.prems by (simp_all add: mid_def nth_append len)
  have upd: "(toc_tracks mid)[k := (toc_tracks mid ! k)\<lparr>trk_sectors := extent_len out k\<rparr>] =
      take (Suc k) (extents_filled out) @ drop (Suc k) (toc_tracks out)"
    using Suc.prems k(1)
    by (intro nth_equalityI) (auto simp: mid_def len nth_append nth_list_update extents_filled_def less_Suc_eq)
  have "fold fill_extent_at [0..<Suc k] out = fill_extent_at k mid"
    using Suc by (simp add: mid_def)
  also have "\<dots> = mid
     \<lparr>toc_tracks := take (Suc k) (extents_filled out) @ drop (Suc k) (toc_tracks out),
      toc_anomalies := toc_anomalies mid OR extent_flags out k\<rparr>"
    using extent_layout [OF lay _ _ k(2)] upd by (simp add: fill_extent_at_eq mid_def)
  finally show ?case by (simp add: mid_def or_list_append or.assoc)
qed simp

lemma fill_loop:
  "fold fill_extent_at [0..<length (toc_tracks out)] out = out
     \<lparr>toc_tracks := extents_filled out,
      toc_anomalies := toc_anomalies out OR
        or_list (map (extent_flags out) [0..<length (toc_tracks out)])\<rparr>"
  using fill_loop_eq [of "length (toc_tracks out)" out] by (simp add: extents_filled_def)

section \<open>Lead-outs, pregap and overlap\<close>

definition session_tracks :: "accudisc_toc \<Rightarrow> u8 \<Rightarrow> accudisc_track list" where
  "session_tracks out n = filter (\<lambda>t. trk_session t = n) (toc_tracks out)"

definition leadout_flags :: "accudisc_toc \<Rightarrow> u16" where
  "leadout_flags out =
     or_list (map (\<lambda>s. anom_if anom_leadout_before
        (leadout_before (ses_leadout_lba s) (session_tracks out (ses_number s)))) (toc_sessions out))
     OR anom_if anom_leadout_before
        (toc_sessions out = [] \<and> leadout_before (toc_leadout_lba out) (toc_tracks out))"

lemma check_leadouts_eq:
  "check_leadouts out = out\<lparr>toc_anomalies := toc_anomalies out OR leadout_flags out\<rparr>"
  by (simp add: check_leadouts_def leadout_flags_def Let_def fold_flag_eq flag_eq session_tracks_def or.assoc)

lemma lowest_lba_spec:
  "case lowest_lba ts of None \<Rightarrow> ts = []
   | Some l \<Rightarrow> l \<in> trk_lba ` set ts \<and> (\<forall>t \<in> set ts. l \<le> trk_lba t)"
  by (induction ts) (auto split: option.splits)

lemma leadout_before_iff:
  "leadout_before l ts \<longleftrightarrow> ts \<noteq> [] \<and> (\<forall>t \<in> set ts. l \<le> trk_lba t)"
  using lowest_lba_spec [of ts]
  by (fastforce simp: leadout_before_def split: option.splits)

lemma leadout_beforeI:
  "t \<in> set ts \<Longrightarrow> (\<And>u. u \<in> set ts \<Longrightarrow> l \<le> trk_lba u) \<Longrightarrow> leadout_before l ts"
  by (auto simp: leadout_before_iff)

lemma lower_start_spec:
  "case fold (lower_start ts) [0..<length ts] None of
     None \<Rightarrow> \<forall>i < length ts. trk_session (ts ! i) > 1
   | Some l \<Rightarrow> l < length ts \<and> trk_session (ts ! l) \<le> 1 \<and>
       (\<forall>i < length ts. trk_session (ts ! i) \<le> 1 \<longrightarrow> trk_lba (ts ! l) \<le> trk_lba (ts ! i))"
proof -
  have "n \<le> length ts \<Longrightarrow> (case fold (lower_start ts) [0..<n] None of
      None \<Rightarrow> \<forall>i < n. trk_session (ts ! i) > 1
    | Some l \<Rightarrow> l < n \<and> trk_session (ts ! l) \<le> 1 \<and>
        (\<forall>i < n. trk_session (ts ! i) \<le> 1 \<longrightarrow> trk_lba (ts ! l) \<le> trk_lba (ts ! i)))" for n
  proof (induction n)
    case (Suc n)
    define acc where "acc = fold (lower_start ts) [0..<n] None"
    have "case acc of None \<Rightarrow> \<forall>i < n. trk_session (ts ! i) > 1
      | Some l \<Rightarrow> l < n \<and> trk_session (ts ! l) \<le> 1 \<and>
        (\<forall>i < n. trk_session (ts ! i) \<le> 1 \<longrightarrow> trk_lba (ts ! l) \<le> trk_lba (ts ! i))"
      using Suc by (simp add: acc_def)
    then have "case lower_start ts n acc of None \<Rightarrow> \<forall>i < Suc n. trk_session (ts ! i) > 1
      | Some l \<Rightarrow> l < Suc n \<and> trk_session (ts ! l) \<le> 1 \<and>
        (\<forall>i < Suc n. trk_session (ts ! i) \<le> 1 \<longrightarrow> trk_lba (ts ! l) \<le> trk_lba (ts ! i))"
      by (cases acc) (auto simp: lower_start_def less_Suc_eq not_le not_less)
    moreover have "fold (lower_start ts) [0..<Suc n] None = lower_start ts n acc"
      by (simp add: acc_def)
    ultimately show ?case by (simp only:)
  qed simp
  then show ?thesis by simp
qed

text \<open>Which track the pregap goes to, as a function on the finished list.\<close>

definition pregap_of :: "accudisc_track list \<Rightarrow> nat \<Rightarrow> u32" where
  "pregap_of ts i = (if fold (lower_start ts) [0..<length ts] None = Some i \<and> trk_lba (ts ! i) \<noteq> 0
     then trk_lba (ts ! i) else trk_pregap (ts ! i))"

lemma first_pregap_eq:
  "first_pregap out = out\<lparr>toc_tracks :=
     map (\<lambda>i. (toc_tracks out ! i)\<lparr>trk_pregap := pregap_of (toc_tracks out) i\<rparr>)
       [0..<length (toc_tracks out)]\<rparr>"
proof -
  let ?ts = "toc_tracks out"
  have "toc_tracks (first_pregap out) =
      map (\<lambda>i. (?ts ! i)\<lparr>trk_pregap := pregap_of ?ts i\<rparr>) [0..<length ?ts]"
    using lower_start_spec [of ?ts]
    by (intro nth_equalityI)
      (auto simp: first_pregap_def pregap_of_def Let_def nth_list_update split: option.splits)
  moreover have "first_pregap out = out\<lparr>toc_tracks := toc_tracks (first_pregap out)\<rparr>"
    by (simp add: first_pregap_def Let_def split: option.splits)
  ultimately show ?thesis by (simp only:)
qed

definition overlap_at :: "accudisc_track list \<Rightarrow> nat \<Rightarrow> nat \<Rightarrow> bool" where
  "overlap_at ts i j \<longleftrightarrow> trk_sectors (ts ! i) \<noteq> 0 \<and> trk_sectors (ts ! j) \<noteq> 0 \<and>
     tracks_overlap (ts ! i) (ts ! j)"

definition overlap_flags :: "accudisc_track list \<Rightarrow> u16" where
  "overlap_flags ts = or_list (map (\<lambda>i. or_list (map (\<lambda>j. anom_if anom_overlap (overlap_at ts i j))
     [i + 1..<length ts])) [0..<length ts])"

lemma check_overlap_eq:
  "check_overlap out = out\<lparr>toc_anomalies := toc_anomalies out OR overlap_flags (toc_tracks out)\<rparr>"
proof -
  let ?ts = "toc_tracks out"
  have zero: "or_list (map (\<lambda>j. anom_if anom_overlap False) js) = 0" for js :: "nat list"
    by (simp add: or_list_eq_0 anom_if_def)
  have row: "(if trk_sectors (?ts ! i) = 0 then id
       else fold (\<lambda>j. flag anom_overlap
              (trk_sectors (?ts ! j) \<noteq> 0 \<and> tracks_overlap (?ts ! i) (?ts ! j))) [i + 1..<length ?ts]) x
      = x\<lparr>toc_anomalies := toc_anomalies x OR
          or_list (map (\<lambda>j. anom_if anom_overlap (overlap_at ?ts i j)) [i + 1..<length ?ts])\<rparr>" for i x
    by (simp add: fold_flag_eq overlap_at_def zero)
  have "fold (\<lambda>i. if trk_sectors (?ts ! i) = 0 then id
       else fold (\<lambda>j. flag anom_overlap
              (trk_sectors (?ts ! j) \<noteq> 0 \<and> tracks_overlap (?ts ! i) (?ts ! j))) [i + 1..<length ?ts]) is x
      = x\<lparr>toc_anomalies := toc_anomalies x OR or_list (map (\<lambda>i. or_list (map (\<lambda>j. anom_if anom_overlap
          (overlap_at ?ts i j)) [i + 1..<length ?ts])) is)\<rparr>" for "is" x
    by (induction "is" arbitrary: x) (simp_all only: fold.simps list.map or_list.simps comp_apply id_apply row, simp_all add: or.assoc or.commute)
  then show ?thesis
    by (simp add: check_overlap_def overlap_flags_def Let_def)
qed

section \<open>The finished table\<close>

definition finished_tracks :: "accudisc_toc \<Rightarrow> accudisc_track list" where
  "finished_tracks out = map (\<lambda>i. (extents_filled out ! i)\<lparr>trk_pregap := pregap_of (extents_filled out) i\<rparr>)
     [0..<length (toc_tracks out)]"

definition geometry_flags :: "accudisc_toc \<Rightarrow> u16" where
  "geometry_flags out = or_list (map (extent_flags out) [0..<length (toc_tracks out)]) OR
     leadout_flags out OR overlap_flags (finished_tracks out)"

lemma session_tracks_layout:
  assumes "same_layout (toc_tracks a) (toc_tracks b)"
  shows "leadout_before l (session_tracks b n) = leadout_before l (session_tracks a n)"
    and "leadout_before l (toc_tracks b) = leadout_before l (toc_tracks a)"
proof -
  have "list_all2 (\<lambda>a b. trk_lba a = trk_lba b \<and> trk_session a = trk_session b) ts us \<Longrightarrow>
      map trk_lba (filter (\<lambda>t. trk_session t = n) us) = map trk_lba (filter (\<lambda>t. trk_session t = n) ts) \<and>
      map trk_lba us = map trk_lba ts" for ts us
    by (induction rule: list_all2_induct) auto
  from this [OF assms [unfolded same_layout_def]]
  have "trk_lba ` set (session_tracks b n) = trk_lba ` set (session_tracks a n)"
    "trk_lba ` set (toc_tracks b) = trk_lba ` set (toc_tracks a)"
    by (metis session_tracks_def set_map)+
  moreover have "leadout_before l ts \<longleftrightarrow> trk_lba ` set ts \<noteq> {} \<and> (\<forall>x \<in> trk_lba ` set ts. l \<le> x)" for ts
    by (auto simp: leadout_before_iff)
  ultimately show "leadout_before l (session_tracks b n) = leadout_before l (session_tracks a n)"
    "leadout_before l (toc_tracks b) = leadout_before l (toc_tracks a)"
    by (simp_all only:)
qed

lemma extents_filled_nth [simp]:
  "i < length (toc_tracks out) \<Longrightarrow>
   extents_filled out ! i = (toc_tracks out ! i)\<lparr>trk_sectors := extent_len out i\<rparr>"
  by (simp add: extents_filled_def)

lemma length_extents_filled [simp]: "length (extents_filled out) = length (toc_tracks out)"
  by (simp add: extents_filled_def)

theorem toc_fill_extents_eq:
  "toc_fill_extents out = out\<lparr>toc_tracks := finished_tracks out,
     toc_anomalies := toc_anomalies out OR geometry_flags out\<rparr>"
proof -
  let ?o = "fold fill_extent_at [0..<length (toc_tracks out)] out"
  have lay: "same_layout (toc_tracks out) (toc_tracks ?o)"
    by (simp add: fill_loop same_layout_def list_all2_conv_all_nth)
  have "leadout_flags ?o = leadout_flags out"
    using session_tracks_layout [OF lay] by (simp add: leadout_flags_def fill_loop)
  then show ?thesis
    by (simp add: toc_fill_extents_def check_overlap_eq first_pregap_eq check_leadouts_eq fill_loop
        finished_tracks_def geometry_flags_def or.assoc or.commute or.left_commute)
qed

section \<open>What a trusted table says\<close>

text \<open>The sectors of a track, as addresses without wrap-around.\<close>

definition extent :: "accudisc_track \<Rightarrow> nat set" where
  "extent t = {unat (trk_lba t) - unat (trk_pregap t)..<unat (trk_lba t) + unat (trk_sectors t)}"

text \<open>No extent wraps, and a pregap reaches back to sector 0 or not at all.\<close>

definition track_sound :: "accudisc_track \<Rightarrow> bool" where
  "track_sound t \<longleftrightarrow> (trk_pregap t = 0 \<or> trk_pregap t = trk_lba t) \<and>
     unat (trk_lba t) + unat (trk_sectors t) < 2 ^ 32"

lemma track_sound_bounds:
  assumes "track_sound t"
  shows "unat (trk_lba t - trk_pregap t) = unat (trk_lba t) - unat (trk_pregap t)"
    and "unat (trk_lba t + trk_sectors t) = unat (trk_lba t) + unat (trk_sectors t)"
    and "unat (trk_pregap t) \<le> unat (trk_lba t)"
  using assms by (auto simp: track_sound_def unat_word_ariths)

lemma tracks_overlap_iff:
  assumes "track_sound a" and "track_sound b"
    and "trk_sectors a \<noteq> 0" and "trk_sectors b \<noteq> 0"
  shows "tracks_overlap a b \<longleftrightarrow> extent a \<inter> extent b \<noteq> {}"
proof -
  have pos: "0 < unat (trk_sectors a)" "0 < unat (trk_sectors b)"
    using assms(3,4) by (simp_all add: unat_gt_0)
  have "tracks_overlap a b \<longleftrightarrow>
      unat (trk_lba a) - unat (trk_pregap a) < unat (trk_lba b) + unat (trk_sectors b) \<and>
      unat (trk_lba b) - unat (trk_pregap b) < unat (trk_lba a) + unat (trk_sectors a)"
    by (simp add: tracks_overlap_def word_less_nat_alt track_sound_bounds [OF assms(1)]
        track_sound_bounds [OF assms(2)])
  also have "\<dots> \<longleftrightarrow> extent a \<inter> extent b \<noteq> {}"
    using pos by (auto simp: extent_def Int_atLeastLessThan max_def min_def split: if_splits)
  finally show ?thesis .
qed

definition no_pregap :: "accudisc_toc \<Rightarrow> bool" where
  "no_pregap out \<longleftrightarrow> (\<forall>t \<in> set (toc_tracks out). trk_pregap t = 0)"

lemma length_finished_tracks [simp]: "length (finished_tracks out) = length (toc_tracks out)"
  by (simp add: finished_tracks_def)

lemma finished_tracks_nth:
  assumes "i < length (toc_tracks out)"
  shows "finished_tracks out ! i = (toc_tracks out ! i)
     \<lparr>trk_sectors := extent_len out i, trk_pregap := pregap_of (extents_filled out) i\<rparr>"
  using assms by (simp add: finished_tracks_def)

lemma extent_len_bound: "unat (trk_lba (toc_tracks out ! i)) + unat (extent_len out i) < 2 ^ 32"
proof (cases "extent_next out i > trk_lba (toc_tracks out ! i)")
  case True
  then have "unat (extent_next out i - trk_lba (toc_tracks out ! i)) =
      unat (extent_next out i) - unat (trk_lba (toc_tracks out ! i))"
    by (simp add: unat_sub order_less_imp_le)
  then show ?thesis
    using True unat_u32_bound [of "extent_next out i"]
    by (simp add: extent_len_def word_less_nat_alt)
qed (simp add: extent_len_def)

lemma finished_tracks_sound:
  assumes "no_pregap out" and "t \<in> set (finished_tracks out)"
  shows "track_sound t"
proof -
  obtain i where i: "i < length (toc_tracks out)" "t = finished_tracks out ! i"
    using assms(2) by (metis in_set_conv_nth length_finished_tracks)
  have "trk_pregap (toc_tracks out ! i) = 0"
    using assms(1) i(1) by (simp add: no_pregap_def)
  then show ?thesis
    using i extent_len_bound [of out i]
    by (simp add: track_sound_def finished_tracks_nth pregap_of_def)
qed

text \<open>What the untrusted-geometry group being unset means.\<close>

lemma trusted_geometry:
  assumes "geometry_flags out AND anom_untrusted_geometry = 0"
  shows "i < length (toc_tracks out) \<Longrightarrow> \<not> out_of_order (toc_tracks out) i"
    and "i < j \<Longrightarrow> j < length (toc_tracks out) \<Longrightarrow> \<not> overlap_at (finished_tracks out) i j"
    and "s \<in> set (toc_sessions out) \<Longrightarrow>
      \<not> leadout_before (ses_leadout_lba s) (session_tracks out (ses_number s))"
    and "toc_sessions out = [] \<Longrightarrow> \<not> leadout_before (toc_leadout_lba out) (toc_tracks out)"
  using assms
  by (auto simp: geometry_flags_def or_and_eq_0 or_list_and_eq_0 extent_flags_def leadout_flags_def
      overlap_flags_def anom_if_and_eq_0)

lemma overlap_at_comm: "overlap_at ts i j = overlap_at ts j i"
  by (auto simp: overlap_at_def tracks_overlap_def)

theorem filled_extents_disjoint:
  assumes "no_pregap out" and "geometry_flags out AND anom_untrusted_geometry = 0"
    and "i < length (toc_tracks out)" and "j < length (toc_tracks out)" and "i \<noteq> j"
    and "trk_sectors (finished_tracks out ! i) \<noteq> 0" and "trk_sectors (finished_tracks out ! j) \<noteq> 0"
  shows "extent (finished_tracks out ! i) \<inter> extent (finished_tracks out ! j) = {}"
proof -
  have "track_sound (finished_tracks out ! i)" "track_sound (finished_tracks out ! j)"
    using assms(3,4) by (auto intro!: finished_tracks_sound [OF assms(1)] nth_mem)
  moreover have "\<not> overlap_at (finished_tracks out) i j"
    using trusted_geometry(2) [OF assms(2)] assms(3-5) overlap_at_comm by (metis nat_neq_iff)
  ultimately show ?thesis
    using tracks_overlap_iff assms(6,7) by (auto simp: overlap_at_def)
qed

text \<open>
  Whether the session table accounts for every track: all of them in mapped sessions, or, with no
  table at all, all in one. Then a track that got the program area's pregap is not empty.
\<close>

definition table_complete :: "accudisc_toc \<Rightarrow> bool" where
  "table_complete toc \<longleftrightarrow>
     (if toc_sessions toc = [] then \<forall>t \<in> set (toc_tracks toc). \<forall>u \<in> set (toc_tracks toc). trk_session t = trk_session u
      else \<forall>t \<in> set (toc_tracks toc). \<exists>s \<in> set (toc_sessions toc). ses_number s = trk_session t)"

lemma table_complete_flat:
  assumes "table_complete toc" and "toc_sessions toc = []" and "t \<in> set (toc_tracks toc)" and "u \<in> set (toc_tracks toc)"
  shows "trk_session t = trk_session u"
  using assms(1)[unfolded table_complete_def assms(2)] assms(3,4) by meson

lemma session_leadout_table:
  assumes "\<exists>s \<in> set (toc_sessions toc). ses_number s = n"
  obtains s where "s \<in> set (toc_sessions toc)" and "ses_number s = n" and "session_leadout toc n = ses_leadout_lba s"
proof -
  have "find (\<lambda>s. ses_number s = n) (toc_sessions toc) \<noteq> None"
    using assms by (auto simp: find_None_iff)
  then obtain s where s: "find (\<lambda>s. ses_number s = n) (toc_sessions toc) = Some s" by auto
  then have "s \<in> set (toc_sessions toc) \<and> ses_number s = n" by (auto simp: find_Some_iff)
  with s show thesis by (intro that [of s]) (simp_all add: session_leadout_def)
qed

lemma finished_pregap_nonempty:
  assumes "no_pregap out" and trusted: "geometry_flags out AND anom_untrusted_geometry = 0"
    and complete: "table_complete out" and i: "i < length (toc_tracks out)"
    and "trk_pregap (finished_tracks out ! i) \<noteq> 0"
  shows "trk_sectors (finished_tracks out ! i) \<noteq> 0"
proof
  let ?ts = "toc_tracks out" and ?t = "toc_tracks out ! i"
  assume "trk_sectors (finished_tracks out ! i) = 0"
  then have len: "extent_len out i = 0" by (simp add: finished_tracks_nth i)
  have mem: "?t \<in> set ?ts" using i by simp
  have "trk_pregap ?t = 0" using assms(1) mem by (simp add: no_pregap_def)
  then have "fold (lower_start (extents_filled out)) [0..<length (extents_filled out)] None = Some i"
    using assms(5) i by (auto simp: finished_tracks_nth pregap_of_def split: if_splits)
  then have low: "trk_session (extents_filled out ! i) \<le> 1 \<and> (\<forall>j < length (extents_filled out).
      trk_session (extents_filled out ! j) \<le> 1 \<longrightarrow> trk_lba (extents_filled out ! i) \<le> trk_lba (extents_filled out ! j))"
    using lower_start_spec [of "extents_filled out"] i by (auto simp only: option.case length_extents_filled)
  have below: "trk_lba ?t \<le> trk_lba u" if u: "u \<in> set ?ts" "trk_session u = trk_session ?t" for u
  proof -
    obtain j where "j < length ?ts" "u = ?ts ! j" using u(1) by (metis in_set_conv_nth)
    then show ?thesis using low u(2) i by simp
  qed
  have "extent_next out i \<le> trk_lba ?t"
    using len by (simp add: extent_len_def split: if_splits)
  moreover have "trk_lba ?t < extent_next out i" if "next_by_address ?ts i = Some j" for j
    using next_by_address_spec [of ?ts i] that by (simp add: extent_next_def same_session_above_def)
  ultimately have "next_by_address ?ts i = None" by (metis leD not_None_eq)
  then have lead: "session_leadout out (trk_session ?t) \<le> trk_lba ?t"
    using \<open>extent_next out i \<le> trk_lba ?t\<close> by (simp add: extent_next_def)
  show False
  proof (cases "toc_sessions out = []")
    case True
    then have "session_leadout out (trk_session ?t) = toc_leadout_lba out"
      by (simp add: session_leadout_def)
    then have "toc_leadout_lba out \<le> trk_lba u" if "u \<in> set ?ts" for u
      using lead below [OF that table_complete_flat [OF complete True that mem]] by simp
    then have "leadout_before (toc_leadout_lba out) ?ts" by (rule leadout_beforeI [OF mem])
    then show False using trusted_geometry(4) [OF trusted True] by simp
  next
    case False
    then obtain s where s: "s \<in> set (toc_sessions out)" "ses_number s = trk_session ?t"
        "session_leadout out (trk_session ?t) = ses_leadout_lba s"
      using complete mem by (metis session_leadout_table table_complete_def)
    have "?t \<in> set (session_tracks out (ses_number s))"
      using mem s(2) by (simp add: session_tracks_def)
    moreover have "ses_leadout_lba s \<le> trk_lba u" if "u \<in> set (session_tracks out (ses_number s))" for u
      using that lead below [of u] s by (simp add: session_tracks_def)
    ultimately have "leadout_before (ses_leadout_lba s) (session_tracks out (ses_number s))"
      by (rule leadout_beforeI)
    then show False using trusted_geometry(3) [OF trusted s(1)] by simp
  qed
qed

end
