(* ===== verification/Toc.thy ===== *)
theory Toc
  imports Extents
begin

text \<open>
  The two wire formats of the table of contents (\<^verbatim>\<open>src/toc/fulltoc.c\<close> and the format-0 and
  full-TOC paths of \<^verbatim>\<open>src/toc/toc.c\<close>) and the acquisition ladder that prefers one and degrades
  to the other. Both parsers end in \<open>toc_fill_extents\<close>.
\<close>

section \<open>Format 0\<close>

definition be32 :: "u8 list \<Rightarrow> nat \<Rightarrow> u32" where
  "be32 p i = push_bit 24 (ucast (p ! i)) OR push_bit 16 (ucast (p ! (i + 1)))
     OR push_bit 8 (ucast (p ! (i + 2))) OR ucast (p ! (i + 3))"

definition resp_end :: "u8 list \<Rightarrow> nat" where
  "resp_end buf = (let e = be16 buf 0 + 2 in if e > length buf then length buf else e)"

text \<open>One descriptor; the flag is \<open>have_leadout\<close>.\<close>

definition toc_descriptor :: "u8 list \<Rightarrow> nat \<Rightarrow> accudisc_toc \<times> bool \<Rightarrow> accudisc_toc \<times> bool" where
  "toc_descriptor buf off s =
     (case s of (out, have) \<Rightarrow>
        let track = buf ! (off + 2); lba = be32 buf (off + 4)
        in if track = 0xAA then (out\<lparr>toc_leadout_lba := lba\<rparr>, True)
           else if 1 \<le> track \<and> track \<le> 99 \<and> length (toc_tracks out) < 99 then
             (out\<lparr>toc_tracks := toc_tracks out @
                [track_zero\<lparr>trk_number := track, trk_adr_ctrl := buf ! (off + 1),
                            trk_lba := lba\<rparr>]\<rparr>, have)
           else (out, have))"

function toc_parse_loop ::
    "u8 list \<Rightarrow> nat \<Rightarrow> nat \<Rightarrow> accudisc_toc \<times> bool \<Rightarrow> accudisc_toc \<times> bool" where
  "toc_parse_loop buf e off s =
     (if off + 8 \<le> e then toc_parse_loop buf e (off + 8) (toc_descriptor buf off s) else s)"
  by pat_completeness auto
termination
  by (relation "measure (\<lambda>(buf, e, off, s). e - off)") auto

declare toc_parse_loop.simps [simp del]

definition adsc_toc_parse :: "u8 list \<Rightarrow> accudisc_toc res" where
  "adsc_toc_parse buf =
     (if length buf < 4 then Inl ERR_SHORT
      else let (out, have) = toc_parse_loop buf (resp_end buf) 4
             (toc_zero\<lparr>toc_first_track := buf ! 2, toc_last_track := buf ! 3\<rparr>, False)
           in if \<not> have then Inl ERR_SHORT else Inr (toc_fill_extents out))"

section \<open>Format 2: the full TOC\<close>

record accudisc_fulltoc_entry =
  fe_session :: u8
  fe_adr_ctrl :: u8
  fe_point :: u8
  fe_min :: u8
  fe_sec :: u8
  fe_frame :: u8
  fe_pmin :: u8
  fe_psec :: u8
  fe_pframe :: u8

record accudisc_fulltoc =
  ft_first_session :: u8
  ft_last_session :: u8
  ft_entries :: "accudisc_fulltoc_entry list"

definition fulltoc_entry :: "u8 list \<Rightarrow> nat \<Rightarrow> accudisc_fulltoc_entry" where
  "fulltoc_entry raw off =
     \<lparr>fe_session = raw ! off, fe_adr_ctrl = raw ! (off + 1), fe_point = raw ! (off + 3),
      fe_min = raw ! (off + 4), fe_sec = raw ! (off + 5), fe_frame = raw ! (off + 6),
      fe_pmin = raw ! (off + 8), fe_psec = raw ! (off + 9), fe_pframe = raw ! (off + 10)\<rparr>"

text \<open>\<open>entries[136]\<close>: one more descriptor than that is malformed.\<close>

definition fulltoc_max :: nat where "fulltoc_max = 136"

function fulltoc_loop ::
    "u8 list \<Rightarrow> nat \<Rightarrow> nat \<Rightarrow> accudisc_fulltoc_entry list \<Rightarrow> accudisc_fulltoc_entry list res" where
  "fulltoc_loop raw e off es =
     (if off + 11 \<le> e then
        if length es \<ge> fulltoc_max then Inl ERR_SHORT
        else fulltoc_loop raw e (off + 11) (es @ [fulltoc_entry raw off])
      else Inr es)"
  by pat_completeness auto
termination
  by (relation "measure (\<lambda>(raw, e, off, es). e - off)") auto

declare fulltoc_loop.simps [simp del]

definition accudisc_fulltoc_parse :: "u8 list \<Rightarrow> accudisc_fulltoc res" where
  "accudisc_fulltoc_parse raw =
     (if length raw < 4 then Inl ERR_SHORT
      else case fulltoc_loop raw (resp_end raw) 4 [] of
          Inl e \<Rightarrow> Inl e
        | Inr es \<Rightarrow> if es = [] then Inl ERR_SHORT
            else Inr \<lparr>ft_first_session = raw ! 2, ft_last_session = raw ! 3, ft_entries = es\<rparr>)"

section \<open>From the full TOC to the parsed table\<close>

record accudisc_toc_info =
  ti_source :: u8
  ti_degrade :: u8
  ti_degrade_err :: int
  ti_first_session :: u8
  ti_last_session :: u8
  ti_session_count :: u8
  ti_disc_type :: u8

definition toc_info_zero :: accudisc_toc_info where
  "toc_info_zero = \<lparr>ti_source = 0, ti_degrade = 0, ti_degrade_err = 0, ti_first_session = 0,
     ti_last_session = 0, ti_session_count = 0, ti_disc_type = 0\<rparr>"

text \<open>The locals of \<open>adsc_toc_from_fulltoc\<close>, arrays as functions of their index.\<close>

record toc_acc =
  acc_slot :: "u8 \<Rightarrow> accudisc_track"
  acc_have :: "u8 \<Rightarrow> bool"
  acc_sess :: "u8 \<Rightarrow> accudisc_session"
  acc_sess_seen :: "u8 \<Rightarrow> bool"
  acc_first_track :: u8
  acc_last_track :: u8
  acc_disc_type :: u8
  acc_first_session :: u8
  acc_last_session :: u8
  acc_leadout :: u32
  acc_have_leadout :: bool
  acc_anomalies :: u16

definition acc_zero :: toc_acc where
  "acc_zero = \<lparr>acc_slot = (\<lambda>_. track_zero), acc_have = (\<lambda>_. False), acc_sess = (\<lambda>_. session_zero),
     acc_sess_seen = (\<lambda>_. False), acc_first_track = 0, acc_last_track = 0, acc_disc_type = 0,
     acc_first_session = 0, acc_last_session = 0, acc_leadout = 0, acc_have_leadout = False,
     acc_anomalies = 0\<rparr>"

definition acc_flag :: "u16 \<Rightarrow> toc_acc \<Rightarrow> toc_acc" where
  "acc_flag a st = st\<lparr>acc_anomalies := acc_anomalies st OR a\<rparr>"

definition legal_number :: "u8 \<Rightarrow> bool" where
  "legal_number n \<longleftrightarrow> 1 \<le> n \<and> n \<le> 99"

text \<open>Session bounds and the session accumulator.\<close>

definition note_session :: "u8 \<Rightarrow> toc_acc \<Rightarrow> toc_acc" where
  "note_session n st =
     (let st1 = (if acc_first_session st = 0 \<or> n < acc_first_session st
                 then st\<lparr>acc_first_session := n\<rparr> else st);
          st2 = (if n > acc_last_session st1 then st1\<lparr>acc_last_session := n\<rparr> else st1)
      in if legal_number n \<and> \<not> acc_sess_seen st2 n
         then st2\<lparr>acc_sess_seen := (acc_sess_seen st2)(n := True),
                  acc_sess := (acc_sess st2)(n := (acc_sess st2 n)\<lparr>ses_number := n\<rparr>)\<rparr>
         else if \<not> legal_number n then acc_flag anom_bad_session st2 else st2)"

definition note_track :: "accudisc_fulltoc_entry \<Rightarrow> int \<Rightarrow> toc_acc \<Rightarrow> toc_acc" where
  "note_track e lba st =
     (if lba < 0 then acc_flag anom_negative_lba st
      else if acc_have st (fe_point e) then st
      else st\<lparr>acc_have := (acc_have st)(fe_point e := True),
              acc_slot := (acc_slot st)(fe_point e := (acc_slot st (fe_point e))
                \<lparr>trk_number := fe_point e, trk_adr_ctrl := fe_adr_ctrl e,
                 trk_session := fe_session e, trk_lba := word_of_int lba\<rparr>)\<rparr>)"

definition note_a0 :: "accudisc_fulltoc_entry \<Rightarrow> toc_acc \<Rightarrow> toc_acc" where
  "note_a0 e st =
     (if \<not> legal_number (fe_pmin e) then acc_flag anom_bad_track_num st
      else if legal_number (fe_session e) then
        let s = fe_session e;
            st1 = st\<lparr>acc_sess := (acc_sess st)(s := (acc_sess st s)\<lparr>ses_first_track := fe_pmin e\<rparr>)\<rparr>;
            st2 = (if acc_first_track st1 = 0 \<or> s \<le> acc_first_session st1
                   then st1\<lparr>acc_first_track := fe_pmin e\<rparr> else st1)
        in if acc_disc_type st2 = 0 \<or> s \<le> acc_first_session st2
           then st2\<lparr>acc_disc_type := fe_psec e\<rparr> else st2
      else st)"

definition note_a1 :: "accudisc_fulltoc_entry \<Rightarrow> toc_acc \<Rightarrow> toc_acc" where
  "note_a1 e st =
     (if \<not> legal_number (fe_pmin e) then acc_flag anom_bad_track_num st
      else if legal_number (fe_session e) then
        let s = fe_session e;
            st1 = st\<lparr>acc_sess := (acc_sess st)(s := (acc_sess st s)\<lparr>ses_last_track := fe_pmin e\<rparr>)\<rparr>
        in if acc_last_track st1 = 0 \<or> s \<ge> acc_last_session st1
           then st1\<lparr>acc_last_track := fe_pmin e\<rparr> else st1
      else st)"

definition note_a2 :: "accudisc_fulltoc_entry \<Rightarrow> int \<Rightarrow> toc_acc \<Rightarrow> toc_acc" where
  "note_a2 e lba st =
     (let s = fe_session e;
          st1 = (if legal_number s
                 then st\<lparr>acc_sess := (acc_sess st)(s := (acc_sess st s)\<lparr>ses_leadout_lba := word_of_int lba\<rparr>)\<rparr>
                 else st)
      in if \<not> acc_have_leadout st1 \<or> s \<ge> acc_last_session st1
         then st1\<lparr>acc_leadout := word_of_int lba, acc_have_leadout := True\<rparr> else st1)"

definition fulltoc_step :: "accudisc_fulltoc_entry \<Rightarrow> toc_acc \<Rightarrow> toc_acc" where
  "fulltoc_step e st =
     (let lba = accudisc_msf_to_lba (fe_pmin e) (fe_psec e) (fe_pframe e);
          st1 = note_session (fe_session e) st
      in if 0x01 \<le> fe_point e \<and> fe_point e \<le> 0x63 then note_track e lba st1
         else if fe_point e = 0xA0 then note_a0 e st1
         else if fe_point e = 0xA1 then note_a1 e st1
         else if fe_point e = 0xA2 \<and> 0 \<le> lba then note_a2 e lba st1
         else st1)"

definition numbers :: "u8 list" where
  "numbers = map word_of_nat [1..<100]"

definition placed_tracks :: "toc_acc \<Rightarrow> accudisc_track list" where
  "placed_tracks st = map (acc_slot st) (filter (acc_have st) numbers)"

text \<open>The A0/A1 pointers against the tracks present.\<close>

definition range_mismatch :: "toc_acc \<Rightarrow> accudisc_track list \<Rightarrow> bool" where
  "range_mismatch st ts =
     (let f = acc_first_track st; l = acc_last_track st
      in if (f \<noteq> 0 \<and> f \<noteq> trk_number (hd ts)) \<or> (l \<noteq> 0 \<and> l \<noteq> trk_number (last ts)) then True
         else l \<noteq> 0 \<and> f \<noteq> 0 \<and> l \<ge> f \<and> int (length ts) \<noteq> uint l - uint f + 1)"

text \<open>Body of the session-table loop: the census of the tracks a session owns.\<close>

definition census_step :: "u8 \<Rightarrow> accudisc_track \<Rightarrow> accudisc_session \<times> u8 \<times> u8 \<Rightarrow> accudisc_session \<times> u8 \<times> u8" where
  "census_step n t a =
     (case a of (s, obs_first, obs_last) \<Rightarrow>
        if trk_session t \<noteq> n then (s, obs_first, obs_last)
        else (if track_is_audio t then s\<lparr>ses_audio_tracks := ses_audio_tracks s + 1\<rparr>
              else s\<lparr>ses_data_tracks := ses_data_tracks s + 1\<rparr>,
              if obs_first = 0 then trk_number t else obs_first, trk_number t))"

definition close_session :: "accudisc_track list \<Rightarrow> u8 \<Rightarrow> accudisc_session \<Rightarrow> accudisc_session" where
  "close_session ts n s0 =
     (case fold (census_step n) ts (s0, 0, 0) of (s, obs_first, obs_last) \<Rightarrow>
        let s1 = (if ses_first_track s = 0 then s\<lparr>ses_first_track := obs_first\<rparr> else s)
        in if ses_last_track s1 = 0 then s1\<lparr>ses_last_track := obs_last\<rparr> else s1)"

definition session_table :: "toc_acc \<Rightarrow> accudisc_track list \<Rightarrow> accudisc_session list" where
  "session_table st ts =
     map (\<lambda>n. close_session ts n (acc_sess st n))
       (filter (\<lambda>n. acc_sess_seen st n \<and> ses_leadout_lba (acc_sess st n) \<noteq> 0) numbers)"

definition adsc_toc_from_fulltoc ::
    "accudisc_fulltoc \<Rightarrow> accudisc_toc_info \<Rightarrow> (accudisc_toc \<times> accudisc_toc_info) res" where
  "adsc_toc_from_fulltoc ft info =
     (let st = fold fulltoc_step (ft_entries ft) acc_zero;
          ts = placed_tracks st
      in if \<not> acc_have_leadout st \<or> ts = [] then Inl ERR_SHORT
         else Inr (toc_fill_extents
             \<lparr>toc_first_track = (if acc_first_track st \<noteq> 0 then acc_first_track st else trk_number (hd ts)),
              toc_last_track = (if acc_last_track st \<noteq> 0 then acc_last_track st else trk_number (last ts)),
              toc_leadout_lba = acc_leadout st, toc_tracks = ts, toc_sessions = session_table st ts,
              toc_sessions_total = 0,
              toc_anomalies = (if range_mismatch st ts then acc_anomalies st OR anom_range_mismatch
                               else acc_anomalies st)\<rparr>,
           info\<lparr>ti_first_session := acc_first_session st, ti_last_session := acc_last_session st,
                ti_disc_type := acc_disc_type st\<rparr>))"

section \<open>The acquisition ladder\<close>

text \<open>
  A drive's answer to a command is an argument: an error code or the bytes of the response
  (\<open>accudisc_read_full_toc\<close>, READ TOC format 0 and READ DISC INFORMATION).
\<close>

definition toc_src_fulltoc :: u8 where "toc_src_fulltoc = 0"
definition toc_src_toc :: u8 where "toc_src_toc = 1"
definition degrade_none :: u8 where "degrade_none = 0"
definition degrade_leadin_unreadable :: u8 where "degrade_leadin_unreadable = 1"
definition degrade_leadin_absent :: u8 where "degrade_leadin_absent = 2"
definition degrade_leadin_malformed :: u8 where "degrade_leadin_malformed = 3"

definition accudisc_toc_source_str :: "u8 \<Rightarrow> string" where
  "accudisc_toc_source_str s =
     (if s = toc_src_fulltoc then ''fulltoc'' else if s = toc_src_toc then ''toc'' else ''unknown'')"

definition accudisc_toc_degrade_str :: "u8 \<Rightarrow> string" where
  "accudisc_toc_degrade_str d =
     (if d = degrade_none then ''none''
      else if d = degrade_leadin_unreadable then ''leadin_unreadable''
      else if d = degrade_leadin_absent then ''leadin_absent''
      else if d = degrade_leadin_malformed then ''leadin_malformed'' else ''unknown'')"

definition disc_session_count :: "u8 list res \<Rightarrow> u8" where
  "disc_session_count r =
     (case r of Inl _ \<Rightarrow> 0 | Inr buf \<Rightarrow> if length buf < 5 then 0 else buf ! 4)"

definition accudisc_read_toc :: "u8 list res \<Rightarrow> accudisc_toc res" where
  "accudisc_read_toc r = (case r of Inl e \<Rightarrow> Inl e | Inr buf \<Rightarrow> adsc_toc_parse buf)"

text \<open>Rung 1: the parsed full TOC, or the degrade it forces.\<close>

definition toc_rung1 :: "u8 list res \<Rightarrow> (accudisc_toc \<times> accudisc_toc_info) + accudisc_toc_info" where
  "toc_rung1 r =
     (case r of
        Inr raw \<Rightarrow>
          (case (case accudisc_fulltoc_parse raw of Inl e \<Rightarrow> Inl e
                 | Inr ft \<Rightarrow> adsc_toc_from_fulltoc ft toc_info_zero) of
             Inr (toc, info) \<Rightarrow>
               Inl (toc\<lparr>toc_sessions_total := ti_last_session info\<rparr>,
                    info\<lparr>ti_source := toc_src_fulltoc, ti_degrade := degrade_none, ti_degrade_err := 0,
                         ti_session_count := ti_last_session info\<rparr>)
           | Inl e \<Rightarrow> Inr (toc_info_zero\<lparr>ti_degrade := degrade_leadin_malformed, ti_degrade_err := err_code e\<rparr>))
      | Inl e \<Rightarrow>
          Inr (toc_info_zero\<lparr>ti_degrade := (if e = ERR_NOTFOUND then degrade_leadin_absent
                                            else degrade_leadin_unreadable),
                             ti_degrade_err := err_code e\<rparr>))"

text \<open>With exactly one session the flat list is all of it.\<close>

definition adopt_track :: "accudisc_track \<Rightarrow> accudisc_session \<Rightarrow> accudisc_session" where
  "adopt_track t s = (if track_is_audio t then s\<lparr>ses_audio_tracks := ses_audio_tracks s + 1\<rparr>
     else s\<lparr>ses_data_tracks := ses_data_tracks s + 1\<rparr>)"

definition synthesise_session :: "accudisc_toc \<Rightarrow> accudisc_toc" where
  "synthesise_session out =
     (let ts = toc_tracks out; s = fold adopt_track ts session_zero
      in out\<lparr>toc_tracks := map (\<lambda>t. t\<lparr>trk_session := 1\<rparr>) ts,
             toc_sessions := [s\<lparr>ses_number := 1, ses_first_track := trk_number (hd ts),
                ses_last_track := trk_number (last ts), ses_leadout_lba := toc_leadout_lba out\<rparr>]\<rparr>)"

definition accudisc_read_toc_src ::
    "u8 list res \<Rightarrow> u8 list res \<Rightarrow> u8 list res \<Rightarrow> (accudisc_toc \<times> accudisc_toc_info) res" where
  "accudisc_read_toc_src full fmt0 discinfo =
     (case toc_rung1 full of
        Inl r \<Rightarrow> Inr r
      | Inr local \<Rightarrow>
          (case accudisc_read_toc fmt0 of
             Inl e \<Rightarrow> Inl e
           | Inr out \<Rightarrow>
               let n = disc_session_count discinfo;
                   info = local\<lparr>ti_source := toc_src_toc, ti_first_session := 0, ti_last_session := 0,
                                ti_disc_type := 0, ti_session_count := n\<rparr>;
                   out1 = out\<lparr>toc_sessions_total := n\<rparr>
               in Inr (if n = 1 \<and> toc_tracks out1 \<noteq> [] then synthesise_session out1 else out1, info)))"

section \<open>Geometry of a parsed table\<close>

definition exclusive :: "accudisc_track list \<Rightarrow> bool" where
  "exclusive ts \<longleftrightarrow> (\<forall>i < length ts. \<forall>j < length ts. i \<noteq> j \<longrightarrow>
     trk_sectors (ts ! i) \<noteq> 0 \<longrightarrow> trk_sectors (ts ! j) \<noteq> 0 \<longrightarrow> extent (ts ! i) \<inter> extent (ts ! j) = {})"

definition pregaps_owned :: "accudisc_track list \<Rightarrow> bool" where
  "pregaps_owned ts \<longleftrightarrow> (\<forall>t \<in> set ts. trk_pregap t \<noteq> 0 \<longrightarrow> trk_sectors t \<noteq> 0)"

definition geometry_ok :: "accudisc_toc \<Rightarrow> bool" where
  "geometry_ok toc \<longleftrightarrow> (\<forall>t \<in> set (toc_tracks toc). track_sound t) \<and>
     (toc_anomalies toc AND anom_untrusted_geometry = 0 \<longrightarrow> exclusive (toc_tracks toc) \<and>
        (table_complete toc \<longrightarrow> pregaps_owned (toc_tracks toc)))"

lemma table_complete_filled: "table_complete (toc_fill_extents out) = table_complete out"
proof -
  have "trk_session ` set (toc_tracks (toc_fill_extents out)) = trk_session ` set (toc_tracks out)"
  proof -
    have "map trk_session (toc_tracks (toc_fill_extents out)) = map trk_session (toc_tracks out)"
      by (rule nth_equalityI) (simp_all add: toc_fill_extents_eq finished_tracks_nth)
    then show ?thesis by (metis set_map)
  qed
  moreover have "table_complete toc \<longleftrightarrow>
      (if toc_sessions toc = [] then \<forall>m \<in> trk_session ` set (toc_tracks toc). \<forall>n \<in> trk_session ` set (toc_tracks toc). m = n
       else \<forall>n \<in> trk_session ` set (toc_tracks toc). \<exists>s \<in> set (toc_sessions toc). ses_number s = n)" for toc :: accudisc_toc
    by (auto simp: table_complete_def)
  ultimately show ?thesis by (simp add: toc_fill_extents_eq)
qed

lemma fill_extents_geometry_ok:
  assumes "no_pregap out"
  shows "geometry_ok (toc_fill_extents out)"
proof -
  have sound: "\<forall>t \<in> set (finished_tracks out). track_sound t"
    using finished_tracks_sound [OF assms] by blast
  have "exclusive (finished_tracks out)" if "geometry_flags out AND anom_untrusted_geometry = 0"
    using filled_extents_disjoint [OF assms that] by (simp add: exclusive_def)
  moreover have "pregaps_owned (finished_tracks out)"
    if "geometry_flags out AND anom_untrusted_geometry = 0" and "table_complete out"
    using finished_pregap_nonempty [OF assms that] by (simp add: pregaps_owned_def all_set_conv_all_nth)
  ultimately show ?thesis
    unfolding geometry_ok_def table_complete_filled
    using sound by (simp add: toc_fill_extents_eq or_and_eq_0)
qed

lemma geometry_ok_cong:
  assumes "geometry_ok a" and "toc_anomalies b = toc_anomalies a" and "table_complete b \<Longrightarrow> table_complete a"
    and "list_all2 (\<lambda>t u. trk_lba u = trk_lba t \<and> trk_pregap u = trk_pregap t \<and>
           trk_sectors u = trk_sectors t) (toc_tracks a) (toc_tracks b)"
  shows "geometry_ok b"
proof -
  have ext: "extent u = extent t \<and> track_sound u = track_sound t"
    if "trk_lba u = trk_lba t \<and> trk_pregap u = trk_pregap t \<and> trk_sectors u = trk_sectors t" for t u :: accudisc_track
    using that by (simp add: extent_def track_sound_def)
  have len: "length (toc_tracks b) = length (toc_tracks a)" using assms(4) by (simp add: list_all2_lengthD)
  have nth: "extent (toc_tracks b ! i) = extent (toc_tracks a ! i) \<and> track_sound (toc_tracks b ! i) = track_sound (toc_tracks a ! i) \<and>
      trk_sectors (toc_tracks b ! i) = trk_sectors (toc_tracks a ! i) \<and> trk_pregap (toc_tracks b ! i) = trk_pregap (toc_tracks a ! i)"
    if "i < length (toc_tracks a)" for i
    using ext [OF list_all2_nthD [OF assms(4) that]] list_all2_nthD [OF assms(4) that] by blast
  have "exclusive (toc_tracks b) = exclusive (toc_tracks a)"
    unfolding exclusive_def len using nth by simp
  moreover have "pregaps_owned (toc_tracks b) = pregaps_owned (toc_tracks a)"
    unfolding pregaps_owned_def all_set_conv_all_nth len using nth by simp
  moreover have "(\<forall>t \<in> set (toc_tracks b). track_sound t) = (\<forall>t \<in> set (toc_tracks a). track_sound t)"
    unfolding all_set_conv_all_nth len using nth by simp
  ultimately show ?thesis
    using assms(1-3) unfolding geometry_ok_def by simp
qed

text \<open>What holds before and is kept by a descriptor holds after the loop.\<close>

lemma toc_parse_loop_invariant:
  assumes "\<And>off s. P s \<Longrightarrow> P (toc_descriptor buf off s)" and "P s"
  shows "P (toc_parse_loop buf e off s)"
  using assms
proof (induction buf e off s rule: toc_parse_loop.induct)
  case (1 buf e off s)
  have "off + 8 \<le> e \<Longrightarrow> P (toc_parse_loop buf e (off + 8) (toc_descriptor buf off s))"
    by (rule "1.IH") (use "1.prems" in blast)+
  then show ?case
    using "1.prems"(2) by (simp add: toc_parse_loop.simps [of buf e off s])
qed

text \<open>A format-0 table is flat: no session table, every track of session 0.\<close>

definition flat_state :: "accudisc_toc \<times> bool \<Rightarrow> bool" where
  "flat_state s \<longleftrightarrow> no_pregap (fst s) \<and> toc_sessions (fst s) = [] \<and>
     (\<forall>t \<in> set (toc_tracks (fst s)). trk_session t = 0)"

lemma toc_parse_geometry_ok:
  assumes "adsc_toc_parse buf = Inr toc"
  shows "geometry_ok toc" and "table_complete toc"
proof -
  let ?s = "toc_parse_loop buf (resp_end buf) 4
    (toc_zero\<lparr>toc_first_track := buf ! 2, toc_last_track := buf ! 3\<rparr>, False)"
  have flat: "flat_state ?s"
    by (rule toc_parse_loop_invariant)
      (auto simp: flat_state_def no_pregap_def toc_descriptor_def toc_zero_def track_zero_def
        Let_def split: prod.splits)
  have toc: "toc = toc_fill_extents (fst ?s)"
    using assms by (auto simp: adsc_toc_parse_def split: if_splits prod.splits)
  show "geometry_ok toc" using flat by (simp add: toc flat_state_def fill_extents_geometry_ok)
  show "table_complete toc" using flat unfolding toc table_complete_filled by (simp add: flat_state_def table_complete_def)
qed

section \<open>The accumulator of the full-TOC path\<close>

definition acc_ok :: "toc_acc \<Rightarrow> bool" where
  "acc_ok st \<longleftrightarrow> (\<forall>n. trk_pregap (acc_slot st n) = 0 \<and>
     (acc_have st n \<longrightarrow> trk_number (acc_slot st n) = n) \<and>
     (acc_sess_seen st n \<longrightarrow> ses_number (acc_sess st n) = n) \<and>
     ses_audio_tracks (acc_sess st n) = 0 \<and> ses_data_tracks (acc_sess st n) = 0)"

lemma acc_ok_zero: "acc_ok acc_zero"
  by (simp add: acc_ok_def acc_zero_def track_zero_def session_zero_def)

lemma acc_ok_note_session: "acc_ok st \<Longrightarrow> acc_ok (note_session n st)"
  by (auto simp: acc_ok_def note_session_def acc_flag_def Let_def)

lemma acc_ok_note_track: "acc_ok st \<Longrightarrow> acc_ok (note_track e lba st)"
  by (auto simp: acc_ok_def note_track_def acc_flag_def)

lemma acc_ok_note_a0: "acc_ok st \<Longrightarrow> acc_ok (note_a0 e st)"
  by (auto simp: acc_ok_def note_a0_def acc_flag_def Let_def)

lemma acc_ok_note_a1: "acc_ok st \<Longrightarrow> acc_ok (note_a1 e st)"
  by (auto simp: acc_ok_def note_a1_def acc_flag_def Let_def)

lemma acc_ok_note_a2: "acc_ok st \<Longrightarrow> acc_ok (note_a2 e lba st)"
  by (auto simp: acc_ok_def note_a2_def Let_def)

lemma acc_ok_step: "acc_ok st \<Longrightarrow> acc_ok (fulltoc_step e st)"
  by (simp add: fulltoc_step_def Let_def acc_ok_note_session acc_ok_note_track acc_ok_note_a0
      acc_ok_note_a1 acc_ok_note_a2)

lemma acc_ok_fold: "acc_ok (fold fulltoc_step es acc_zero)"
  by (rule fold_invariant) (simp_all add: acc_ok_step acc_ok_zero)

lemma set_numbers: "n \<in> set numbers \<longleftrightarrow> legal_number n"
proof -
  have "n \<in> word_of_nat ` {1..<100} \<longleftrightarrow> unat n \<in> {1..<100}"
  proof
    assume "unat n \<in> {1..<100}"
    then have "(word_of_nat (unat n) :: u8) \<in> word_of_nat ` {1..<100}" by (rule imageI)
    then show "n \<in> word_of_nat ` {1..<100}" by simp
  qed (auto simp: unat_of_nat)
  then show ?thesis
    by (auto simp: numbers_def legal_number_def word_le_nat_alt)
qed

lemma sorted_numbers: "sorted_wrt (<) numbers"
  unfolding numbers_def sorted_wrt_map
  by (rule sorted_wrt_mono_rel [where P = "(<)"]) (auto simp: word_less_nat_alt unat_of_nat)

lemma placed_tracks_numbers:
  "acc_ok st \<Longrightarrow> map trk_number (placed_tracks st) = filter (acc_have st) numbers"
  by (auto simp: placed_tracks_def acc_ok_def comp_def intro!: map_idI)

lemma census_fold:
  "fold (census_step n) ts (s, f, l) = (s', f', l') \<Longrightarrow>
   ses_number s' = ses_number s \<and> ses_leadout_lba s' = ses_leadout_lba s \<and>
   ses_first_track s' = ses_first_track s \<and> ses_last_track s' = ses_last_track s \<and>
   ses_audio_tracks s' = ses_audio_tracks s +
     word_of_nat (length (filter (\<lambda>t. trk_session t = n \<and> track_is_audio t) ts)) \<and>
   ses_data_tracks s' = ses_data_tracks s +
     word_of_nat (length (filter (\<lambda>t. trk_session t = n \<and> \<not> track_is_audio t) ts))"
proof (induction ts arbitrary: s f l)
  case (Cons t ts)
  then show ?case
    by (auto simp: census_step_def split: if_splits dest!: Cons.IH)
qed simp

lemma close_session_fields:
  shows "ses_number (close_session ts n s) = ses_number s"
    and "ses_leadout_lba (close_session ts n s) = ses_leadout_lba s"
    and "ses_audio_tracks (close_session ts n s) = ses_audio_tracks s +
      word_of_nat (length (filter (\<lambda>t. trk_session t = n \<and> track_is_audio t) ts))"
    and "ses_data_tracks (close_session ts n s) = ses_data_tracks s +
      word_of_nat (length (filter (\<lambda>t. trk_session t = n \<and> \<not> track_is_audio t) ts))"
proof -
  obtain s' f l where eq: "fold (census_step n) ts (s, 0, 0) = (s', f, l)"
    by (cases "fold (census_step n) ts (s, 0, 0)")
  note fields = census_fold [OF eq]
  show "ses_number (close_session ts n s) = ses_number s"
    and "ses_leadout_lba (close_session ts n s) = ses_leadout_lba s"
    and "ses_audio_tracks (close_session ts n s) = ses_audio_tracks s +
      word_of_nat (length (filter (\<lambda>t. trk_session t = n \<and> track_is_audio t) ts))"
    and "ses_data_tracks (close_session ts n s) = ses_data_tracks s +
      word_of_nat (length (filter (\<lambda>t. trk_session t = n \<and> \<not> track_is_audio t) ts))"
    using fields by (simp_all add: close_session_def eq Let_def)
qed

text \<open>The table before the extents are filled.\<close>

definition fulltoc_table :: "toc_acc \<Rightarrow> accudisc_toc" where
  "fulltoc_table st =
     \<lparr>toc_first_track = (if acc_first_track st \<noteq> 0 then acc_first_track st else trk_number (hd (placed_tracks st))),
      toc_last_track = (if acc_last_track st \<noteq> 0 then acc_last_track st else trk_number (last (placed_tracks st))),
      toc_leadout_lba = acc_leadout st, toc_tracks = placed_tracks st,
      toc_sessions = session_table st (placed_tracks st), toc_sessions_total = 0,
      toc_anomalies = (if range_mismatch st (placed_tracks st) then acc_anomalies st OR anom_range_mismatch
                       else acc_anomalies st)\<rparr>"

lemma from_fulltocE:
  assumes "adsc_toc_from_fulltoc ft info = Inr (toc, info')"
  obtains st where "st = fold fulltoc_step (ft_entries ft) acc_zero" and "acc_ok st"
    and "placed_tracks st \<noteq> []" and "acc_have_leadout st" and "toc = toc_fill_extents (fulltoc_table st)"
    and "info' = info\<lparr>ti_first_session := acc_first_session st, ti_last_session := acc_last_session st,
           ti_disc_type := acc_disc_type st\<rparr>"
  using assms acc_ok_fold [of "ft_entries ft"]
  by (auto simp: adsc_toc_from_fulltoc_def Let_def fulltoc_table_def split: if_splits)

lemma from_fulltoc_geometry_ok:
  assumes "adsc_toc_from_fulltoc ft info = Inr (toc, info')"
  shows "geometry_ok toc"
  using assms
  by (rule from_fulltocE)
    (auto simp: no_pregap_def fulltoc_table_def placed_tracks_def acc_ok_def
      intro!: fill_extents_geometry_ok)

lemma synthesise_geometry_ok:
  assumes "geometry_ok toc" and "table_complete toc"
  shows "geometry_ok (synthesise_session toc)"
  by (rule geometry_ok_cong [OF assms(1)])
    (simp_all add: synthesise_session_def Let_def list_all2_conv_all_nth assms(2))

lemma table_complete_total: "table_complete (toc\<lparr>toc_sessions_total := n\<rparr>) = table_complete toc"
  by (simp add: table_complete_def)

lemma geometry_ok_total: "geometry_ok (toc\<lparr>toc_sessions_total := n\<rparr>) = geometry_ok toc"
  by (simp add: geometry_ok_def table_complete_total)

lemma read_toc_src_geometry_ok:
  assumes "accudisc_read_toc_src full fmt0 di = Inr (toc, info)"
  shows "geometry_ok toc"
proof (cases "toc_rung1 full")
  case (Inl r)
  then obtain ft t i where "adsc_toc_from_fulltoc ft toc_info_zero = Inr (t, i)"
    and "toc = t\<lparr>toc_sessions_total := ti_last_session i\<rparr>"
    using assms by (auto simp: accudisc_read_toc_src_def toc_rung1_def split: sum.splits prod.splits)
  then show ?thesis by (simp add: geometry_ok_total from_fulltoc_geometry_ok)
next
  case (Inr local)
  then obtain buf t where "adsc_toc_parse buf = Inr t"
    and "toc = t\<lparr>toc_sessions_total := disc_session_count di\<rparr> \<or>
      toc = synthesise_session (t\<lparr>toc_sessions_total := disc_session_count di\<rparr>)"
    using assms
    by (auto simp: accudisc_read_toc_src_def accudisc_read_toc_def Let_def split: sum.splits if_splits)
  then show ?thesis
    using toc_parse_geometry_ok by (auto simp: geometry_ok_total table_complete_total synthesise_geometry_ok)
qed

text \<open>
  C20: a table whose geometry is not flagged untrusted never claims one sector for two tracks.
  Whichever rung of the ladder answered and whatever bytes the drive sent, the full extents
  (pregap included) of two different non-empty tracks are disjoint.
\<close>

theorem toc_extents_disjoint:
  assumes "accudisc_read_toc_src full fmt0 discinfo = Inr (toc, info)"
    and "toc_anomalies toc AND anom_untrusted_geometry = 0"
    and "i < length (toc_tracks toc)" and "j < length (toc_tracks toc)" and "i \<noteq> j"
    and "trk_sectors (toc_tracks toc ! i) \<noteq> 0" and "trk_sectors (toc_tracks toc ! j) \<noteq> 0"
  shows "extent (toc_tracks toc ! i) \<inter> extent (toc_tracks toc ! j) = {}"
  using read_toc_src_geometry_ok [OF assms(1)] assms(2-)
  by (simp add: geometry_ok_def exclusive_def)

theorem toc_extents_disjoint_witness:
  "case accudisc_read_toc_src (Inl ERR_IO)
      (Inr [0, 26, 1, 2, 0, 0, 1, 0, 0, 0, 0, 0, 0, 0, 2, 0, 0, 0, 3, 232, 0, 0, 0xAA, 0, 0, 0, 19, 136])
      (Inl ERR_IO) of
     Inr (toc, info) \<Rightarrow> extent (toc_tracks toc ! 0) \<inter> extent (toc_tracks toc ! 1) = {}
   | Inl e \<Rightarrow> False" (is "case ?r of Inr (toc, info) \<Rightarrow> _ | Inl e \<Rightarrow> _")
proof -
  have "case ?r of Inr (toc, info) \<Rightarrow> toc_anomalies toc AND anom_untrusted_geometry = 0 \<and>
      length (toc_tracks toc) = 2 \<and> trk_sectors (toc_tracks toc ! 0) \<noteq> 0 \<and> trk_sectors (toc_tracks toc ! 1) \<noteq> 0
    | Inl e \<Rightarrow> False"
    by code_simp
  then obtain toc info where r: "?r = Inr (toc, info)"
    and h: "toc_anomalies toc AND anom_untrusted_geometry = 0" "length (toc_tracks toc) = 2"
      "trk_sectors (toc_tracks toc ! 0) \<noteq> 0" "trk_sectors (toc_tracks toc ! 1) \<noteq> 0"
    by (auto split: sum.splits prod.splits)
  show ?thesis
    using toc_extents_disjoint [OF r h(1), of 0 1] h unfolding r by simp
qed

section \<open>Shape of a table from the full TOC\<close>

text \<open>What callers rely on: track numbers ascend within 1..99, sessions ascend with a known
  end, and each session's census counts the tracks that carry its number.\<close>

definition toc_shape :: "accudisc_toc \<Rightarrow> bool" where
  "toc_shape toc \<longleftrightarrow> toc_tracks toc \<noteq> [] \<and>
     sorted_wrt (<) (map trk_number (toc_tracks toc)) \<and>
     (\<forall>t \<in> set (toc_tracks toc). legal_number (trk_number t)) \<and>
     sorted_wrt (<) (map ses_number (toc_sessions toc)) \<and>
     (\<forall>s \<in> set (toc_sessions toc). legal_number (ses_number s) \<and> ses_leadout_lba s \<noteq> 0 \<and>
        unat (ses_audio_tracks s) =
          length (filter (\<lambda>t. trk_session t = ses_number s \<and> track_is_audio t) (toc_tracks toc)) \<and>
        unat (ses_data_tracks s) =
          length (filter (\<lambda>t. trk_session t = ses_number s \<and> \<not> track_is_audio t) (toc_tracks toc)))"

lemma length_placed_tracks: "length (placed_tracks st) \<le> 99"
  by (simp add: placed_tracks_def numbers_def order.trans [OF length_filter_le])

lemma session_table_numbers:
  assumes "acc_ok st"
  shows "map ses_number (session_table st ts) =
    filter (\<lambda>n. acc_sess_seen st n \<and> ses_leadout_lba (acc_sess st n) \<noteq> 0) numbers"
  using assms
  by (auto simp: session_table_def acc_ok_def close_session_fields(1) comp_def intro!: map_idI)

lemma unat_of_nat_small: "n \<le> 99 \<Longrightarrow> unat (word_of_nat n :: u8) = n"
  by (simp add: unat_of_nat)

lemma session_table_census:
  assumes "acc_ok st" and "s \<in> set (session_table st ts)" and "length ts \<le> 99"
  shows "ses_leadout_lba s \<noteq> 0" and "legal_number (ses_number s)"
    and "unat (ses_audio_tracks s) = length (filter (\<lambda>t. trk_session t = ses_number s \<and> track_is_audio t) ts)"
    and "unat (ses_data_tracks s) = length (filter (\<lambda>t. trk_session t = ses_number s \<and> \<not> track_is_audio t) ts)"
proof -
  obtain n where n: "n \<in> set numbers" "acc_sess_seen st n" "ses_leadout_lba (acc_sess st n) \<noteq> 0"
      "s = close_session ts n (acc_sess st n)"
    using assms(2) by (auto simp: session_table_def)
  have num: "ses_number s = n" and zero: "ses_audio_tracks (acc_sess st n) = 0" "ses_data_tracks (acc_sess st n) = 0"
    using n assms(1) by (auto simp: close_session_fields acc_ok_def)
  have small: "length (filter P ts) \<le> 99" for P
    using assms(3) length_filter_le order.trans by blast
  show "ses_leadout_lba s \<noteq> 0" and "legal_number (ses_number s)"
    and "unat (ses_audio_tracks s) = length (filter (\<lambda>t. trk_session t = ses_number s \<and> track_is_audio t) ts)"
    and "unat (ses_data_tracks s) = length (filter (\<lambda>t. trk_session t = ses_number s \<and> \<not> track_is_audio t) ts)"
    using n num by (simp_all add: close_session_fields set_numbers zero unat_of_nat_small small)
qed

text \<open>Filling extents touches neither numbers, nor types, nor sessions.\<close>

lemma fill_extents_tracks:
  "list_all2 (\<lambda>a b. trk_number b = trk_number a \<and> trk_session b = trk_session a \<and>
      trk_adr_ctrl b = trk_adr_ctrl a \<and> trk_lba b = trk_lba a) (toc_tracks out) (toc_tracks (toc_fill_extents out))"
  by (simp add: toc_fill_extents_eq list_all2_conv_all_nth finished_tracks_nth)

lemma fill_extents_filter:
  assumes "\<And>a b. trk_number b = trk_number a \<Longrightarrow> trk_session b = trk_session a \<Longrightarrow>
      trk_adr_ctrl b = trk_adr_ctrl a \<Longrightarrow> P b = P a"
  shows "length (filter P (toc_tracks (toc_fill_extents out))) = length (filter P (toc_tracks out))"
  using fill_extents_tracks [of out] by (induction rule: list_all2_induct) (auto dest: assms)

lemma fill_extents_numbers:
  "map trk_number (toc_tracks (toc_fill_extents out)) = map trk_number (toc_tracks out)"
  using fill_extents_tracks [of out] by (induction rule: list_all2_induct) auto

text \<open>
  Whatever entries the lead-in holds, in whatever order, a table built from them lists its
  tracks by ascending number in 1..99 and its sessions by ascending number in 1..99, every
  session with the address where it ends and the true count of its audio and data tracks.
\<close>

theorem from_fulltoc_shape:
  assumes "adsc_toc_from_fulltoc ft info = Inr (toc, info')"
  shows "toc_shape toc"
  using assms
proof (rule from_fulltocE)
  fix st assume ok: "acc_ok st" and ne: "placed_tracks st \<noteq> []"
    and toc: "toc = toc_fill_extents (fulltoc_table st)"
  let ?ts = "placed_tracks st"
  have nums: "map trk_number (toc_tracks toc) = filter (acc_have st) numbers"
    by (simp add: toc fill_extents_numbers fulltoc_table_def placed_tracks_numbers [OF ok])
  then have trk: "trk_number t \<in> set numbers" if "t \<in> set (toc_tracks toc)" for t
  proof -
    have "trk_number t \<in> set (map trk_number (toc_tracks toc))" using that by simp
    then show ?thesis unfolding nums by simp
  qed
  have ses: "toc_sessions toc = session_table st ?ts"
    by (simp add: toc toc_fill_extents_eq fulltoc_table_def)
  have cnt: "length (filter (\<lambda>t. trk_session t = n \<and> track_is_audio t) (toc_tracks toc)) =
        length (filter (\<lambda>t. trk_session t = n \<and> track_is_audio t) ?ts)"
    "length (filter (\<lambda>t. trk_session t = n \<and> \<not> track_is_audio t) (toc_tracks toc)) =
        length (filter (\<lambda>t. trk_session t = n \<and> \<not> track_is_audio t) ?ts)" for n
    unfolding toc
    by (subst fill_extents_filter; simp add: track_is_audio_def fulltoc_table_def)+
  have "toc_tracks toc \<noteq> []"
    using ne by (simp add: toc toc_fill_extents_eq fulltoc_table_def finished_tracks_def)
  then show "toc_shape toc"
    using trk session_table_census [OF ok _ length_placed_tracks]
    by (auto simp: toc_shape_def nums ses cnt session_table_numbers [OF ok] sorted_wrt_filter
        sorted_numbers set_numbers)
qed

theorem from_fulltoc_shape_witness:
  "case adsc_toc_from_fulltoc \<lparr>ft_first_session = 1, ft_last_session = 1, ft_entries =
      [\<lparr>fe_session = 1, fe_adr_ctrl = 0x10, fe_point = 1, fe_min = 0, fe_sec = 0, fe_frame = 0,
         fe_pmin = 0, fe_psec = 2, fe_pframe = 0\<rparr>,
       \<lparr>fe_session = 1, fe_adr_ctrl = 0x10, fe_point = 0xA2, fe_min = 0, fe_sec = 0, fe_frame = 0,
         fe_pmin = 60, fe_psec = 0, fe_pframe = 0\<rparr>]\<rparr> toc_info_zero of
     Inr (toc, info) \<Rightarrow> toc_shape toc | Inl e \<Rightarrow> False" (is "case ?r of Inr (toc, info) \<Rightarrow> _ | Inl e \<Rightarrow> _")
proof -
  have "\<not> (case ?r of Inr (toc, info) \<Rightarrow> False | Inl e \<Rightarrow> True)" by code_simp
  then obtain toc info where r: "?r = Inr (toc, info)"
    by (auto split: sum.splits prod.splits)
  show ?thesis
    using from_fulltoc_shape [OF r] unfolding r by simp
qed

end
