(* ===== verification/TocWire.thy ===== *)
theory TocWire
  imports Toc
begin

text \<open>
  What a well-formed single-session disc looks like through each of the two TOC formats. The
  responses a drive would send for it are written out as bytes; both parse to the table that
  describes the disc, with no anomaly, so degrading from the lead-in to the cooked TOC loses
  nothing on such a disc (\<^verbatim>\<open>adsc_toc_parse\<close>, \<^verbatim>\<open>accudisc_fulltoc_parse\<close>,
  \<^verbatim>\<open>adsc_toc_from_fulltoc\<close> and \<^verbatim>\<open>accudisc_read_toc_src\<close> in \<^verbatim>\<open>src/toc\<close>).
\<close>

section \<open>Tables whose extents tile\<close>

definition tiled :: "u8 \<Rightarrow> u32 \<Rightarrow> accudisc_toc \<Rightarrow> bool" where
  "tiled s leadout out \<longleftrightarrow> toc_tracks out \<noteq> [] \<and> no_pregap out \<and> s \<le> 1 \<and>
     (\<forall>t \<in> set (toc_tracks out). trk_session t = s \<and> trk_lba t < leadout) \<and>
     sorted_wrt (<) (map trk_lba (toc_tracks out)) \<and> toc_leadout_lba out = leadout \<and>
     (toc_sessions out = [] \<or> (\<exists>x. toc_sessions out = [x] \<and> ses_number x = s \<and> ses_leadout_lba x = leadout))"

definition next_start :: "u32 \<Rightarrow> accudisc_track list \<Rightarrow> nat \<Rightarrow> u32" where
  "next_start leadout ts i = (if i + 1 < length ts then trk_lba (ts ! (i + 1)) else leadout)"

lemma tiled_lba_less:
  "tiled s leadout out \<Longrightarrow> i < j \<Longrightarrow> j < length (toc_tracks out) \<Longrightarrow>
   trk_lba (toc_tracks out ! i) < trk_lba (toc_tracks out ! j)"
  by (simp add: tiled_def sorted_wrt_iff_nth_less)

lemma tiled_lba_iff:
  "tiled s leadout out \<Longrightarrow> i < length (toc_tracks out) \<Longrightarrow> j < length (toc_tracks out) \<Longrightarrow>
   trk_lba (toc_tracks out ! i) < trk_lba (toc_tracks out ! j) \<longleftrightarrow> i < j"
  by (metis tiled_lba_less less_asym nat_neq_iff)

lemma tiled_nth:
  assumes "tiled s leadout out" and "i < length (toc_tracks out)"
  shows "trk_session (toc_tracks out ! i) = s" and "trk_lba (toc_tracks out ! i) < leadout"
    and "trk_pregap (toc_tracks out ! i) = 0"
  using assms by (auto simp: tiled_def no_pregap_def)

lemma tiled_leadout: "tiled s leadout out \<Longrightarrow> session_leadout out s = leadout"
  by (auto simp: tiled_def session_leadout_def)

lemma tiled_next_by_address:
  assumes t: "tiled s leadout out" and "i < length (toc_tracks out)"
  shows "next_by_address (toc_tracks out) i = (if i + 1 < length (toc_tracks out) then Some (i + 1) else None)"
proof -
  have above: "same_session_above (toc_tracks out) i k \<longleftrightarrow> k < length (toc_tracks out) \<and> i < k" for k
    using tiled_nth(1) [OF t] tiled_lba_iff [OF t assms(2)] assms(2)
    by (auto simp: same_session_above_def)
  show ?thesis
  proof (cases "next_by_address (toc_tracks out) i")
    case None
    then show ?thesis
      using next_by_address_spec [of "toc_tracks out" i] above [of "i + 1"] by auto
  next
    case (Some j)
    then have j: "j < length (toc_tracks out)" "i < j"
      and min: "\<And>k. k < length (toc_tracks out) \<Longrightarrow> i < k \<Longrightarrow> trk_lba (toc_tracks out ! j) \<le> trk_lba (toc_tracks out ! k)"
      using next_by_address_spec [of "toc_tracks out" i] by (auto simp: above)
    have "\<not> i + 1 < j"
    proof
      assume "i + 1 < j"
      then have "trk_lba (toc_tracks out ! (i + 1)) < trk_lba (toc_tracks out ! j)"
        "trk_lba (toc_tracks out ! j) \<le> trk_lba (toc_tracks out ! (i + 1))"
        using tiled_lba_less [OF t] min [of "i + 1"] j(1) by simp_all
      then show False by simp
    qed
    then have "j = i + 1" using j(2) by simp
    then show ?thesis using j(1) Some by simp
  qed
qed

lemma tiled_extent_next:
  "tiled s leadout out \<Longrightarrow> i < length (toc_tracks out) \<Longrightarrow>
   extent_next out i = next_start leadout (toc_tracks out) i"
  by (simp add: extent_next_def tiled_next_by_address next_start_def tiled_nth tiled_leadout)

lemma tiled_next_above:
  "tiled s leadout out \<Longrightarrow> i < length (toc_tracks out) \<Longrightarrow>
   trk_lba (toc_tracks out ! i) < next_start leadout (toc_tracks out) i"
  by (simp add: next_start_def tiled_lba_less tiled_nth)

lemma tiled_extent_len:
  assumes "tiled s leadout out" and "i < length (toc_tracks out)"
  shows "extent_len out i = next_start leadout (toc_tracks out) i - trk_lba (toc_tracks out ! i)"
    and "extent_len out i \<noteq> 0"
  using tiled_next_above [OF assms] by (auto simp: extent_len_def tiled_extent_next [OF assms])

lemma tiled_extent_flags:
  assumes "tiled s leadout out" and "i < length (toc_tracks out)"
  shows "extent_flags out i = 0"
  using tiled_lba_less [OF assms(1), of i "i + 1"] tiled_nth(2) [OF assms]
  by (auto simp: extent_flags_def or_eq_0 anom_if_eq_0 out_of_order_def past_leadout_def
      tiled_extent_len(2) [OF assms] tiled_nth [OF assms] tiled_leadout [OF assms(1)] not_le)

lemma tiled_leadout_flags:
  assumes "tiled s leadout out"
  shows "leadout_flags out = 0"
proof -
  have "\<not> leadout_before leadout (toc_tracks out)"
    using assms by (auto simp: leadout_before_iff tiled_def not_le ex_in_conv)
  moreover have "session_tracks out s = toc_tracks out"
    using assms by (simp add: session_tracks_def tiled_def)
  ultimately show ?thesis
    using assms by (auto simp: leadout_flags_def or_eq_0 or_list_eq_0 anom_if_eq_0 tiled_def)
qed

lemma tiled_pregap:
  assumes t: "tiled s leadout out" and "i < length (toc_tracks out)"
  shows "pregap_of (extents_filled out) i = (if i = 0 then trk_lba (toc_tracks out ! 0) else 0)"
proof -
  have s: "s \<le> 1" and ne: "0 < length (toc_tracks out)" using t by (auto simp: tiled_def)
  obtain l where l: "fold (lower_start (extents_filled out)) [0..<length (extents_filled out)] None = Some l"
    "l < length (toc_tracks out)" "trk_lba (toc_tracks out ! l) \<le> trk_lba (toc_tracks out ! 0)"
    using lower_start_spec [of "extents_filled out"] ne s
    by (fastforce simp: tiled_nth [OF t] split: option.splits)
  then have "l = 0" using tiled_lba_less [OF t, of 0 l] by (metis leD neq0_conv)
  then show ?thesis
    using l assms by (auto simp: pregap_of_def tiled_nth)
qed

definition tiled_track :: "u32 \<Rightarrow> accudisc_track list \<Rightarrow> nat \<Rightarrow> accudisc_track" where
  "tiled_track leadout ts i = (ts ! i)
     \<lparr>trk_sectors := next_start leadout ts i - trk_lba (ts ! i),
      trk_pregap := if i = 0 then trk_lba (ts ! 0) else 0\<rparr>"

lemma tiled_finished:
  assumes "tiled s leadout out"
  shows "finished_tracks out = map (tiled_track leadout (toc_tracks out)) [0..<length (toc_tracks out)]"
  by (rule nth_equalityI)
    (simp_all add: finished_tracks_nth tiled_track_def tiled_extent_len(1) [OF assms] tiled_pregap [OF assms])

lemma tiled_overlap_flags:
  assumes t: "tiled s leadout out"
  shows "overlap_flags (finished_tracks out) = 0"
proof -
  have "\<not> overlap_at (finished_tracks out) i j" if "i < j" "j < length (toc_tracks out)" for i j
  proof -
    have "trk_lba (finished_tracks out ! i) + trk_sectors (finished_tracks out ! i) = next_start leadout (toc_tracks out) i"
      using that by (simp add: finished_tracks_nth tiled_extent_len [OF t])
    moreover have "next_start leadout (toc_tracks out) i \<le> trk_lba (toc_tracks out ! j)"
      using that tiled_lba_less [OF t, of "i + 1" j] by (cases "j = i + 1") (auto simp: next_start_def)
    moreover have "trk_lba (finished_tracks out ! j) - trk_pregap (finished_tracks out ! j) = trk_lba (toc_tracks out ! j)"
      using that by (simp add: finished_tracks_nth tiled_pregap [OF t])
    ultimately show ?thesis by (auto simp: overlap_at_def tracks_overlap_def)
  qed
  then show ?thesis by (simp add: overlap_flags_def or_list_eq_0 anom_if_eq_0)
qed

theorem tiled_fill_extents:
  assumes t: "tiled s leadout out"
  shows "toc_fill_extents out =
    out\<lparr>toc_tracks := map (tiled_track leadout (toc_tracks out)) [0..<length (toc_tracks out)]\<rparr>"
proof -
  have "or_list (map (extent_flags out) [0..<length (toc_tracks out)]) = 0"
    by (simp add: or_list_eq_0 tiled_extent_flags [OF t])
  then show ?thesis
    using tiled_overlap_flags [OF t] tiled_leadout_flags [OF t] tiled_finished [OF t]
    by (simp add: toc_fill_extents_eq geometry_flags_def)
qed

section \<open>Bytes of the responses\<close>

definition be16_bytes :: "nat \<Rightarrow> u8 list" where
  "be16_bytes n = [word_of_nat (n div 256), word_of_nat n]"

definition be32_bytes :: "u32 \<Rightarrow> u8 list" where
  "be32_bytes l = [ucast (drop_bit 24 l), ucast (drop_bit 16 l), ucast (drop_bit 8 l), ucast l]"

lemma be16_be16_bytes: "n < 65536 \<Longrightarrow> be16 (be16_bytes n @ r) 0 = n"
  by (simp add: be16_def be16_bytes_def unat_of_nat take_bit_eq_mod)

lemma be32_be32_bytes:
  assumes "p = length pre"
  shows "be32 (pre @ be32_bytes l @ r) p = l"
proof (rule bit_word_eqI)
  fix n assume "n < LENGTH(32)"
  then consider "n < 8" | "8 \<le> n" "n < 16" | "16 \<le> n" "n < 24" | "24 \<le> n" "n < 32" by force
  then show "bit (be32 (pre @ be32_bytes l @ r) p) n = bit l n"
    by cases (auto simp: assms be32_def be32_bytes_def nth_append bit_simps dest: bit_imp_le_length)
qed

text \<open>One track of the disc: its ADR/CTRL byte and where its INDEX 01 is.\<close>

type_synonym rec_track = "u8 \<times> u32"

section \<open>Format 0\<close>

definition format0_desc :: "u8 \<Rightarrow> rec_track \<Rightarrow> u8 list" where
  "format0_desc n t = [0, fst t, n, 0] @ be32_bytes (snd t)"

lemma length_format0_desc [simp]: "length (format0_desc n t) = 8"
  by (simp add: format0_desc_def be32_bytes_def)

definition disc_numbers :: "u8 \<Rightarrow> rec_track list \<Rightarrow> u8 list" where
  "disc_numbers first trks = map (\<lambda>i. first + word_of_nat i) [0..<length trks]"

definition format0_response :: "u8 \<Rightarrow> rec_track list \<Rightarrow> u32 \<Rightarrow> u8 list" where
  "format0_response first trks leadout =
     be16_bytes (2 + 8 * (length trks + 1)) @ [first, first + word_of_nat (length trks - 1)] @
     concat (map2 format0_desc (disc_numbers first trks) trks) @ format0_desc 0xAA (0, leadout)"

definition raw_track :: "u8 \<Rightarrow> u8 \<Rightarrow> rec_track \<Rightarrow> accudisc_track" where
  "raw_track s n t = track_zero\<lparr>trk_number := n, trk_adr_ctrl := fst t, trk_session := s, trk_lba := snd t\<rparr>"

lemma toc_descriptor_desc:
  "toc_descriptor (pre @ format0_desc n t @ post) (length pre) (out, h) =
     (if n = 0xAA then (out\<lparr>toc_leadout_lba := snd t\<rparr>, True)
      else if 1 \<le> n \<and> n \<le> 99 \<and> length (toc_tracks out) < 99
        then (out\<lparr>toc_tracks := toc_tracks out @ [raw_track 0 n t]\<rparr>, h) else (out, h))"
proof -
  have "be32 (pre @ format0_desc n t @ post) (length pre + 4) = snd t"
    using be32_be32_bytes [of "length pre + 4" "pre @ [0, fst t, n, 0]"] by (simp add: format0_desc_def)
  moreover have "(pre @ format0_desc n t @ post) ! (length pre + 2) = n"
    "(pre @ format0_desc n t @ post) ! (length pre + 1) = fst t"
    by (simp_all add: format0_desc_def nth_append)
  ultimately show ?thesis
    by (simp add: toc_descriptor_def Let_def raw_track_def track_zero_def)
qed

lemma toc_parse_loop_tracks:
  assumes "list_all legal_number ns" and "length ns = length ts"
    and "length (toc_tracks out) + length ts \<le> 99"
  shows "toc_parse_loop (pre @ concat (map2 format0_desc ns ts) @ post)
      (length pre + 8 * length ts + m) (length pre) (out, h) =
    toc_parse_loop (pre @ concat (map2 format0_desc ns ts) @ post)
      (length pre + 8 * length ts + m) (length pre + 8 * length ts)
      (out\<lparr>toc_tracks := toc_tracks out @ map2 (raw_track 0) ns ts\<rparr>, h)"
  using assms
proof (induction ns ts arbitrary: pre out rule: list_induct2')
  case (4 n ns t ts pre out)
  let ?buf = "pre @ format0_desc n t @ concat (map2 format0_desc ns ts) @ post"
  let ?out = "out\<lparr>toc_tracks := toc_tracks out @ [raw_track 0 n t]\<rparr>"
  have n: "1 \<le> n" "n \<le> 99" "n \<noteq> 0xAA" using 4 by (auto simp: legal_number_def)
  have "toc_parse_loop ?buf (length pre + 8 * length (t # ts) + m) (length pre) (out, h) =
      toc_parse_loop ?buf (length pre + 8 * length (t # ts) + m) (length pre + 8) (?out, h)"
    using 4 n by (subst toc_parse_loop.simps) (simp add: toc_descriptor_desc)
  also have "\<dots> = toc_parse_loop ?buf (length pre + 8 * length (t # ts) + m) (length pre + 8 * length (t # ts))
      (out\<lparr>toc_tracks := toc_tracks out @ map2 (raw_track 0) (n # ns) (t # ts)\<rparr>, h)"
    using "4.IH" [of ?out "pre @ format0_desc n t"] 4 by (simp add: add.assoc)
  finally show ?case by simp
qed simp_all

text \<open>A single-session disc as it was recorded.\<close>

definition honest_disc :: "u8 \<Rightarrow> rec_track list \<Rightarrow> u32 \<Rightarrow> bool" where
  "honest_disc first trks leadout \<longleftrightarrow> trks \<noteq> [] \<and> 1 \<le> first \<and> unat first + length trks \<le> 100 \<and>
     sorted_wrt (<) (map snd trks) \<and> (\<forall>t \<in> set trks. snd t < leadout) \<and> leadout < 1151850"

lemma honest_length: "honest_disc first trks leadout \<Longrightarrow> length trks \<le> 99"
  by (auto simp: honest_disc_def word_le_nat_alt)

lemma length_disc_numbers [simp]: "length (disc_numbers first trks) = length trks"
  by (simp add: disc_numbers_def)

lemma honest_number:
  assumes "honest_disc first trks leadout" and "i < length trks"
  shows "unat (first + word_of_nat i) = unat first + i" and "legal_number (first + word_of_nat i)"
proof -
  have b: "unat first + i < 100" "1 \<le> unat first"
    using assms by (auto simp: honest_disc_def word_le_nat_alt)
  then have "unat (word_of_nat i :: u8) = i" by (simp add: unat_of_nat)
  then show "unat (first + word_of_nat i) = unat first + i"
    using b by (simp add: unat_word_ariths)
  then show "legal_number (first + word_of_nat i)"
    using b by (simp add: legal_number_def word_le_nat_alt)
qed

lemma honest_numbers: "honest_disc first trks leadout \<Longrightarrow> list_all legal_number (disc_numbers first trks)"
  by (auto simp: disc_numbers_def list_all_iff honest_number)

definition disc_tracks :: "u8 \<Rightarrow> u8 \<Rightarrow> rec_track list \<Rightarrow> accudisc_track list" where
  "disc_tracks s first trks = map2 (raw_track s) (disc_numbers first trks) trks"

lemma length_disc_tracks [simp]: "length (disc_tracks s first trks) = length trks"
  by (simp add: disc_tracks_def)

lemma disc_tracks_nth:
  "i < length trks \<Longrightarrow> disc_tracks s first trks ! i = raw_track s (first + word_of_nat i) (trks ! i)"
  by (simp add: disc_tracks_def disc_numbers_def)

lemma map_lba_disc_tracks: "map trk_lba (disc_tracks s first trks) = map snd trks"
  by (rule nth_equalityI) (simp_all add: disc_tracks_nth raw_track_def)

lemma disc_tracks_tiled:
  assumes "honest_disc first trks leadout" and "s \<le> 1"
    and "toc_sessions out = [] \<or> (\<exists>x. toc_sessions out = [x] \<and> ses_number x = s \<and> ses_leadout_lba x = leadout)"
    and "toc_tracks out = disc_tracks s first trks" and "toc_leadout_lba out = leadout"
  shows "tiled s leadout out"
proof -
  have "trk_session t = s \<and> trk_pregap t = 0 \<and> trk_lba t < leadout" if "t \<in> set (disc_tracks s first trks)" for t
    using that assms(1)
    by (auto simp: in_set_conv_nth disc_tracks_nth raw_track_def track_zero_def honest_disc_def
        dest: nth_mem)
  moreover have "disc_tracks s first trks \<noteq> []"
    using assms(1) by (metis honest_disc_def length_0_conv length_disc_tracks)
  ultimately show ?thesis
    using assms by (auto simp: tiled_def no_pregap_def map_lba_disc_tracks honest_disc_def)
qed

text \<open>The table that describes the disc, its tracks given the session number \<open>s\<close>.\<close>

definition disc_toc :: "u8 \<Rightarrow> u8 \<Rightarrow> rec_track list \<Rightarrow> u32 \<Rightarrow> accudisc_toc" where
  "disc_toc s first trks leadout =
     \<lparr>toc_first_track = first, toc_last_track = first + word_of_nat (length trks - 1),
      toc_leadout_lba = leadout,
      toc_tracks = map (tiled_track leadout (disc_tracks s first trks)) [0..<length trks],
      toc_sessions = [], toc_sessions_total = 0, toc_anomalies = 0\<rparr>"

lemma length_concat_desc: "length ns = length ts \<Longrightarrow> length (concat (map2 format0_desc ns ts)) = 8 * length ts"
  by (induction ns ts rule: list_induct2) simp_all

lemma format0_parse:
  assumes "honest_disc first trks leadout"
  shows "adsc_toc_parse (format0_response first trks leadout) = Inr (disc_toc 0 first trks leadout)"
proof -
  let ?last = "first + word_of_nat (length trks - 1)"
  let ?pre = "be16_bytes (2 + 8 * (length trks + 1)) @ [first, ?last]"
  let ?ds = "concat (map2 format0_desc (disc_numbers first trks) trks)"
  let ?stop = "format0_desc 0xAA (0, leadout)"
  let ?buf = "format0_response first trks leadout"
  have n: "length trks \<le> 99" by (rule honest_length [OF assms])
  have buf: "?buf = ?pre @ ?ds @ ?stop" and pre: "length ?pre = 4"
    by (simp_all add: format0_response_def be16_bytes_def)
  have len: "length ?buf = 4 + 8 * length trks + 8"
    using pre by (simp add: buf length_concat_desc del: append_assoc)
  have e: "resp_end ?buf = 4 + 8 * length trks + 8"
    using n len be16_be16_bytes [of "2 + 8 * (length trks + 1)"]
    by (simp add: resp_end_def format0_response_def)
  let ?out0 = "toc_zero\<lparr>toc_first_track := first, toc_last_track := ?last\<rparr>"
  define out where "out = ?out0\<lparr>toc_tracks := toc_tracks ?out0 @ map2 (raw_track 0) (disc_numbers first trks) trks\<rparr>"
  have fl: "?buf ! 2 = first" "?buf ! 3 = ?last"
    by (simp_all add: format0_response_def be16_bytes_def)
  have "length (toc_tracks ?out0) + length trks \<le> 99" using n by (simp add: toc_zero_def)
  note loop1 = toc_parse_loop_tracks [OF honest_numbers [OF assms] length_disc_numbers this,
      where pre = ?pre and post = ?stop and m = 8 and h = False,
      folded buf out_def, unfolded pre]
  have at: "length (?pre @ ?ds) = 4 + 8 * length trks"
    using pre by (simp add: length_concat_desc del: append_assoc)
  have buf': "?buf = (?pre @ ?ds) @ ?stop @ []" by (simp add: buf)
  have "toc_descriptor ?buf (4 + 8 * length trks) (out, False) = (out\<lparr>toc_leadout_lba := leadout\<rparr>, True)"
    unfolding buf' toc_descriptor_desc [of "?pre @ ?ds" "0xAA" "(0, leadout)" "[]" out False, unfolded at]
    by simp
  then have "toc_parse_loop ?buf (4 + 8 * length trks + 8) (4 + 8 * length trks) (out, False) =
      (out\<lparr>toc_leadout_lba := leadout\<rparr>, True)"
    by (simp add: toc_parse_loop.simps [of _ _ "4 + 8 * length trks"]
        toc_parse_loop.simps [of _ _ "12 + 8 * length trks"])
  then have loop: "toc_parse_loop ?buf (resp_end ?buf) 4
      (toc_zero\<lparr>toc_first_track := ?buf ! 2, toc_last_track := ?buf ! 3\<rparr>, False) =
      (out\<lparr>toc_leadout_lba := leadout\<rparr>, True)"
    using loop1 by (simp only: e fl)
  have parsed: "adsc_toc_parse ?buf = Inr (toc_fill_extents (out\<lparr>toc_leadout_lba := leadout\<rparr>))"
    using len by (simp add: adsc_toc_parse_def loop)
  have "tiled 0 leadout (out\<lparr>toc_leadout_lba := leadout\<rparr>)"
    by (rule disc_tracks_tiled [OF assms]) (simp_all add: out_def toc_zero_def disc_tracks_def)
  from tiled_fill_extents [OF this]
  show ?thesis
    by (simp add: parsed out_def toc_zero_def disc_toc_def disc_tracks_def)
qed

section \<open>Format 2\<close>

definition fulltoc_entry_bytes :: "accudisc_fulltoc_entry \<Rightarrow> u8 list" where
  "fulltoc_entry_bytes e = [fe_session e, fe_adr_ctrl e, 0, fe_point e, fe_min e, fe_sec e,
     fe_frame e, 0, fe_pmin e, fe_psec e, fe_pframe e]"

definition fulltoc_bytes :: "accudisc_fulltoc \<Rightarrow> u8 list" where
  "fulltoc_bytes ft = be16_bytes (2 + 11 * length (ft_entries ft)) @
     [ft_first_session ft, ft_last_session ft] @ concat (map fulltoc_entry_bytes (ft_entries ft))"

lemma length_fulltoc_entry_bytes [simp]: "length (fulltoc_entry_bytes e) = 11"
  by (simp add: fulltoc_entry_bytes_def)

lemma fulltoc_entry_entry_bytes:
  "fulltoc_entry (pre @ fulltoc_entry_bytes e @ post) (length pre) = e"
  by (simp add: fulltoc_entry_def fulltoc_entry_bytes_def nth_append)

lemma length_concat_fulltoc: "length (concat (map fulltoc_entry_bytes es)) = 11 * length es"
  by (induction es) simp_all

lemma fulltoc_loop_entries:
  assumes "length acc + length es \<le> fulltoc_max"
  shows "fulltoc_loop (pre @ concat (map fulltoc_entry_bytes es)) (length pre + 11 * length es)
    (length pre) acc = Inr (acc @ es)"
  using assms
proof (induction es arbitrary: pre acc)
  case Nil
  then show ?case by (simp add: fulltoc_loop.simps [of _ _ "length pre"])
next
  case (Cons e es)
  let ?raw = "pre @ fulltoc_entry_bytes e @ concat (map fulltoc_entry_bytes es)"
  have "fulltoc_loop ?raw (length pre + 11 * length (e # es)) (length pre) acc =
      fulltoc_loop ?raw (length pre + 11 * length (e # es)) (length pre + 11) (acc @ [e])"
    using Cons.prems
    by (simp add: fulltoc_loop.simps [of _ _ "length pre"] fulltoc_entry_entry_bytes)
  also have "\<dots> = Inr (acc @ e # es)"
    using Cons.IH [of "acc @ [e]" "pre @ fulltoc_entry_bytes e"] Cons.prems
    by (simp add: add.assoc)
  finally show ?case by simp
qed

text \<open>Parsing the bytes of a full TOC gives back its entries, up to the 136 the table holds.\<close>

lemma fulltoc_parse_bytes:
  assumes "ft_entries ft \<noteq> []" and "length (ft_entries ft) \<le> fulltoc_max"
  shows "accudisc_fulltoc_parse (fulltoc_bytes ft) = Inr ft"
proof -
  let ?es = "ft_entries ft"
  let ?pre = "be16_bytes (2 + 11 * length ?es) @ [ft_first_session ft, ft_last_session ft]"
  have pre: "length ?pre = 4" by (simp add: be16_bytes_def)
  have bytes: "fulltoc_bytes ft = ?pre @ concat (map fulltoc_entry_bytes ?es)"
    by (simp add: fulltoc_bytes_def)
  have len: "length (fulltoc_bytes ft) = 4 + 11 * length ?es"
    by (simp add: fulltoc_bytes_def be16_bytes_def length_concat_fulltoc)
  have e: "resp_end (fulltoc_bytes ft) = 4 + 11 * length ?es"
    using assms(2) be16_be16_bytes [of "2 + 11 * length ?es"] len
    by (simp add: resp_end_def fulltoc_bytes_def fulltoc_max_def)
  have "fulltoc_loop (fulltoc_bytes ft) (4 + 11 * length ?es) 4 [] = Inr ?es"
    using fulltoc_loop_entries [of "[]" ?es ?pre, unfolded pre, folded bytes] assms(2) by simp
  moreover have "fulltoc_bytes ft ! 2 = ft_first_session ft" "fulltoc_bytes ft ! 3 = ft_last_session ft"
    by (simp_all add: fulltoc_bytes_def be16_bytes_def)
  ultimately show ?thesis
    using assms(1) len by (simp add: accudisc_fulltoc_parse_def e)
qed

section \<open>The lead-in of a single-session disc\<close>

definition leadin_entry :: "u8 \<Rightarrow> u8 \<Rightarrow> u8 \<times> u8 \<times> u8 \<Rightarrow> accudisc_fulltoc_entry" where
  "leadin_entry c point p = \<lparr>fe_session = 1, fe_adr_ctrl = c, fe_point = point, fe_min = 0, fe_sec = 0,
     fe_frame = 0, fe_pmin = fst p, fe_psec = fst (snd p), fe_pframe = snd (snd p)\<rparr>"

definition entry_a0 :: "u8 \<Rightarrow> u8 \<Rightarrow> accudisc_fulltoc_entry" where
  "entry_a0 first disc_type = leadin_entry 0 0xA0 (first, disc_type, 0)"

definition disc_last :: "u8 \<Rightarrow> rec_track list \<Rightarrow> u8" where
  "disc_last first trks = first + word_of_nat (length trks - 1)"

definition entry_a1 :: "u8 \<Rightarrow> rec_track list \<Rightarrow> accudisc_fulltoc_entry" where
  "entry_a1 first trks = leadin_entry 0 0xA1 (disc_last first trks, 0, 0)"

definition entry_a2 :: "u32 \<Rightarrow> accudisc_fulltoc_entry" where
  "entry_a2 leadout = leadin_entry 0 0xA2 (accudisc_lba_to_msf (uint leadout))"

definition entry_track :: "u8 \<Rightarrow> rec_track list \<Rightarrow> nat \<Rightarrow> accudisc_fulltoc_entry" where
  "entry_track first trks i =
     leadin_entry (fst (trks ! i)) (first + word_of_nat i) (accudisc_lba_to_msf (uint (snd (trks ! i))))"

text \<open>Which entries the lead-in repeats; the order and the repetitions are the drive's.\<close>

definition leadin :: "u8 \<Rightarrow> u8 \<Rightarrow> rec_track list \<Rightarrow> u32 \<Rightarrow> accudisc_fulltoc_entry set" where
  "leadin dt first trks leadout =
     {entry_a0 first dt, entry_a1 first trks, entry_a2 leadout} \<union> entry_track first trks ` {..<length trks}"

text \<open>The accumulator after entries with these points.\<close>

definition acc_of :: "u8 \<Rightarrow> u8 \<Rightarrow> rec_track list \<Rightarrow> u32 \<Rightarrow> u8 set \<Rightarrow> toc_acc" where
  "acc_of dt first trks leadout P =
     \<lparr>acc_slot = (\<lambda>n. if legal_number n \<and> n \<in> P then raw_track 1 n (trks ! (unat n - unat first)) else track_zero),
      acc_have = (\<lambda>n. legal_number n \<and> n \<in> P),
      acc_sess = (\<lambda>n. if n = 1 \<and> P \<noteq> {} then
         \<lparr>ses_number = 1, ses_first_track = (if 0xA0 \<in> P then first else 0),
          ses_last_track = (if 0xA1 \<in> P then disc_last first trks else 0),
          ses_audio_tracks = 0, ses_data_tracks = 0,
          ses_leadout_lba = (if 0xA2 \<in> P then leadout else 0)\<rparr> else session_zero),
      acc_sess_seen = (\<lambda>n. n = 1 \<and> P \<noteq> {}),
      acc_first_track = (if 0xA0 \<in> P then first else 0),
      acc_last_track = (if 0xA1 \<in> P then disc_last first trks else 0),
      acc_disc_type = (if 0xA0 \<in> P then dt else 0),
      acc_first_session = (if P = {} then 0 else 1), acc_last_session = (if P = {} then 0 else 1),
      acc_leadout = (if 0xA2 \<in> P then leadout else 0), acc_have_leadout = (0xA2 \<in> P),
      acc_anomalies = 0\<rparr>"

lemma msf_of_lba:
  assumes "l < 1151850"
  shows "case accudisc_lba_to_msf (uint (l :: u32)) of (m, s, f) \<Rightarrow> accudisc_msf_to_lba m s f = uint l"
proof -
  obtain m s f where msf: "accudisc_lba_to_msf (uint l) = (m, s, f)" by (cases "accudisc_lba_to_msf (uint l)")
  have "- 150 \<le> uint l" by (rule order.trans [of _ 0]) simp_all
  moreover have "uint l < 256 * 60 * 75 - 150" using assms by (simp add: word_less_def)
  ultimately show ?thesis using lba_to_msf_inverse(1) [OF _ _ msf] msf by simp
qed

lemma acc_of_note_session:
  "note_session 1 (acc_of dt first trks leadout P) =
   (acc_of dt first trks leadout P)
     \<lparr>acc_first_session := 1, acc_last_session := 1,
      acc_sess := (\<lambda>n. if n = 1 then (acc_sess (acc_of dt first trks leadout P) 1)\<lparr>ses_number := 1\<rparr> else session_zero),
      acc_sess_seen := (\<lambda>n. n = 1)\<rparr>"
  by (cases "P = {}")
    (auto simp: note_session_def acc_of_def Let_def legal_number_def session_zero_def
      intro!: ext split: if_splits)

lemma step_a0:
  assumes "legal_number first"
  shows "fulltoc_step (entry_a0 first dt) (acc_of dt first trks leadout P) =
    acc_of dt first trks leadout (insert 0xA0 P)"
proof -
  have "fulltoc_step (entry_a0 first dt) (acc_of dt first trks leadout P) =
      note_a0 (entry_a0 first dt) (note_session 1 (acc_of dt first trks leadout P))"
    by (simp add: fulltoc_step_def entry_a0_def leadin_entry_def)
  also have "\<dots> = acc_of dt first trks leadout (insert 0xA0 P)"
    unfolding acc_of_note_session using assms
    by (auto simp: note_a0_def entry_a0_def leadin_entry_def acc_of_def Let_def legal_number_def
        session_zero_def intro!: ext)
  finally show ?thesis .
qed

lemma step_a1:
  assumes "legal_number (disc_last first trks)"
  shows "fulltoc_step (entry_a1 first trks) (acc_of dt first trks leadout P) =
    acc_of dt first trks leadout (insert 0xA1 P)"
proof -
  have "fulltoc_step (entry_a1 first trks) (acc_of dt first trks leadout P) =
      note_a1 (entry_a1 first trks) (note_session 1 (acc_of dt first trks leadout P))"
    by (simp add: fulltoc_step_def entry_a1_def leadin_entry_def)
  also have "\<dots> = acc_of dt first trks leadout (insert 0xA1 P)"
    unfolding acc_of_note_session using assms
    by (auto simp: note_a1_def entry_a1_def leadin_entry_def acc_of_def Let_def legal_number_def
        session_zero_def intro!: ext)
  finally show ?thesis .
qed

lemma step_a2:
  assumes "leadout < 1151850"
  shows "fulltoc_step (entry_a2 leadout) (acc_of dt first trks leadout P) =
    acc_of dt first trks leadout (insert 0xA2 P)"
proof -
  have "fulltoc_step (entry_a2 leadout) (acc_of dt first trks leadout P) =
      note_a2 (entry_a2 leadout) (uint leadout) (note_session 1 (acc_of dt first trks leadout P))"
    using msf_of_lba [OF assms]
    by (auto simp: fulltoc_step_def entry_a2_def leadin_entry_def split: prod.splits)
  also have "\<dots> = acc_of dt first trks leadout (insert 0xA2 P)"
    unfolding acc_of_note_session
    by (auto simp: note_a2_def entry_a2_def leadin_entry_def acc_of_def Let_def legal_number_def
        session_zero_def intro!: ext)
  finally show ?thesis .
qed

lemma step_track:
  assumes honest: "honest_disc first trks leadout" and i: "i < length trks"
  shows "fulltoc_step (entry_track first trks i) (acc_of dt first trks leadout P) =
    acc_of dt first trks leadout (insert (first + word_of_nat i) P)"
proof -
  let ?n = "first + word_of_nat i" and ?l = "snd (trks ! i)"
  have "?l < leadout" "leadout < 1151850"
    using honest nth_mem [OF i] by (auto simp: honest_disc_def)
  then have lba: "case accudisc_lba_to_msf (uint ?l) of (m, s, f) \<Rightarrow> accudisc_msf_to_lba m s f = uint ?l"
    by (intro msf_of_lba) (rule less_trans)
  have n: "unat ?n - unat first = i" "legal_number ?n" "1 \<le> ?n" "?n \<le> 99" "?n \<noteq> 0xA0" "?n \<noteq> 0xA1" "?n \<noteq> 0xA2"
    using honest_number [OF honest i] by (auto simp: legal_number_def)
  have "fulltoc_step (entry_track first trks i) (acc_of dt first trks leadout P) =
      note_track (entry_track first trks i) (uint ?l) (note_session 1 (acc_of dt first trks leadout P))"
    using lba n by (auto simp: fulltoc_step_def entry_track_def leadin_entry_def split: prod.splits)
  also have "\<dots> = acc_of dt first trks leadout (insert ?n P)"
    unfolding acc_of_note_session using n
    by (auto simp: note_track_def entry_track_def leadin_entry_def acc_of_def Let_def
        raw_track_def track_zero_def session_zero_def intro!: ext split: if_splits)
  finally show ?thesis .
qed

lemma acc_of_empty: "acc_of dt first trks leadout {} = acc_zero"
  by (simp add: acc_of_def acc_zero_def)

lemma honest_last:
  assumes "honest_disc first trks leadout"
  shows "legal_number (disc_last first trks)" and "unat (disc_last first trks) = unat first + (length trks - 1)"
proof -
  have "length trks - 1 < length trks" using assms by (auto simp: honest_disc_def)
  from honest_number [OF assms this]
  show "legal_number (disc_last first trks)" and "unat (disc_last first trks) = unat first + (length trks - 1)"
    by (simp_all add: disc_last_def)
qed

lemma honest_first: "honest_disc first trks leadout \<Longrightarrow> legal_number first"
  using honest_number(2) [of first trks leadout 0] by (auto simp: honest_disc_def)

lemma leadin_fold:
  assumes honest: "honest_disc first trks leadout" and "set es \<subseteq> leadin dt first trks leadout"
  shows "fold fulltoc_step es (acc_of dt first trks leadout P) =
    acc_of dt first trks leadout (P \<union> fe_point ` set es)"
  using assms(2)
proof (induction es arbitrary: P)
  case (Cons e es)
  have "fulltoc_step e (acc_of dt first trks leadout P) = acc_of dt first trks leadout (insert (fe_point e) P)"
    using Cons.prems step_a0 [OF honest_first [OF honest]] step_a1 [OF honest_last(1) [OF honest]]
      step_a2 step_track [OF honest] honest
    by (auto simp: leadin_def honest_disc_def entry_a0_def entry_a1_def entry_a2_def entry_track_def
        leadin_entry_def)
  then show ?case using Cons by simp
qed simp

text \<open>Points of the whole lead-in: the pointers and the track numbers.\<close>

lemma leadin_points:
  "fe_point ` leadin dt first trks leadout = {0xA0, 0xA1, 0xA2} \<union> set (disc_numbers first trks)"
  by (auto simp: leadin_def entry_a0_def entry_a1_def entry_a2_def entry_track_def leadin_entry_def
      disc_numbers_def image_image)

lemma sorted_disc_numbers:
  assumes "honest_disc first trks leadout"
  shows "sorted_wrt (<) (disc_numbers first trks)"
  using honest_number(1) [OF assms]
  by (auto simp: disc_numbers_def sorted_wrt_iff_nth_less word_less_nat_alt)

lemma filter_numbers:
  assumes "sorted_wrt (<) ns" and "\<And>n. legal_number n \<Longrightarrow> P n \<longleftrightarrow> n \<in> set ns" and "\<And>n. n \<in> set ns \<Longrightarrow> legal_number n"
  shows "filter P numbers = ns"
  using assms
  by (intro strict_sorted_equal) (auto simp: sorted_wrt_filter sorted_numbers set_numbers)

definition disc_points :: "u8 \<Rightarrow> rec_track list \<Rightarrow> u8 set" where
  "disc_points first trks = {0xA0, 0xA1, 0xA2} \<union> set (disc_numbers first trks)"

lemma leadin_placed:
  assumes honest: "honest_disc first trks leadout"
  shows "placed_tracks (acc_of dt first trks leadout (disc_points first trks)) = disc_tracks 1 first trks"
proof -
  have legal: "n \<in> set (disc_numbers first trks) \<Longrightarrow> legal_number n" for n
    using honest_numbers [OF honest] by (simp add: list_all_iff)
  have filt: "filter (\<lambda>n. legal_number n \<and> n \<in> disc_points first trks) numbers = disc_numbers first trks"
    by (rule filter_numbers [OF sorted_disc_numbers [OF honest]])
      (auto simp: disc_points_def legal, auto simp: legal_number_def)
  show ?thesis
  proof (rule nth_equalityI)
    fix i assume "i < length (placed_tracks (acc_of dt first trks leadout (disc_points first trks)))"
    then have i: "i < length trks" by (simp add: placed_tracks_def acc_of_def filt)
    then have mem: "first + word_of_nat i \<in> disc_points first trks"
      by (auto simp: disc_points_def disc_numbers_def)
    show "placed_tracks (acc_of dt first trks leadout (disc_points first trks)) ! i = disc_tracks 1 first trks ! i"
      using i mem honest_number [OF honest i]
      by (simp add: placed_tracks_def acc_of_def filt disc_tracks_nth) (simp add: disc_numbers_def)
  qed (simp add: placed_tracks_def acc_of_def filt)
qed

definition disc_session :: "u8 \<Rightarrow> rec_track list \<Rightarrow> u32 \<Rightarrow> accudisc_session" where
  "disc_session first trks leadout =
     \<lparr>ses_number = 1, ses_first_track = first, ses_last_track = disc_last first trks,
      ses_audio_tracks = word_of_nat (length (filter (\<lambda>t. fst t AND 0x04 = 0) trks)),
      ses_data_tracks = word_of_nat (length (filter (\<lambda>t. fst t AND 0x04 \<noteq> 0) trks)),
      ses_leadout_lba = leadout\<rparr>"

lemma filter_map2_raw:
  assumes "length ns = length trks"
  shows "length (filter (\<lambda>t. trk_session t = s \<and> track_is_audio t) (map2 (raw_track s) ns trks)) =
      length (filter (\<lambda>t. fst t AND 0x04 = 0) trks)"
    and "length (filter (\<lambda>t. trk_session t = s \<and> \<not> track_is_audio t) (map2 (raw_track s) ns trks)) =
      length (filter (\<lambda>t. fst t AND 0x04 \<noteq> 0) trks)"
  using assms by (induction ns trks rule: list_induct2) (simp_all add: raw_track_def track_is_audio_def track_zero_def)

lemma honest_session_table:
  assumes honest: "honest_disc first trks leadout"
  shows "session_table (acc_of dt first trks leadout (disc_points first trks)) (disc_tracks 1 first trks) =
    [disc_session first trks leadout]"
proof -
  let ?acc = "acc_of dt first trks leadout (disc_points first trks)"
  have "leadout \<noteq> 0" using honest by (cases trks) (auto simp: honest_disc_def)
  then have "filter (\<lambda>n. acc_sess_seen ?acc n \<and> ses_leadout_lba (acc_sess ?acc n) \<noteq> 0) numbers = [1]"
    by (intro filter_numbers) (auto simp: acc_of_def disc_points_def legal_number_def)
  moreover have "close_session (disc_tracks 1 first trks) 1 (acc_sess ?acc 1) = disc_session first trks leadout"
  proof -
    let ?s = "\<lparr>ses_number = 1, ses_first_track = first, ses_last_track = disc_last first trks,
      ses_audio_tracks = 0, ses_data_tracks = 0, ses_leadout_lba = leadout\<rparr>"
    have s: "acc_sess ?acc 1 = ?s" by (simp add: acc_of_def disc_points_def)
    obtain s' f l where fold: "fold (census_step 1) (disc_tracks 1 first trks) (?s, 0, 0) = (s', f, l)"
      by (cases "fold (census_step 1) (disc_tracks 1 first trks) (?s, 0, 0)")
    have "first \<noteq> 0" "disc_last first trks \<noteq> 0"
      using honest_first [OF honest] honest_last(1) [OF honest] by (auto simp: legal_number_def)
    moreover have "s' = disc_session first trks leadout"
      using census_fold [OF fold] filter_map2_raw [of "disc_numbers first trks" trks 1]
      by (cases s') (simp add: disc_session_def disc_tracks_def)
    ultimately show ?thesis
      by (simp add: s close_session_def fold Let_def disc_session_def)
  qed
  ultimately show ?thesis by (simp add: session_table_def)
qed

lemma hd_last_disc_tracks:
  assumes "honest_disc first trks leadout"
  shows "trk_number (hd (disc_tracks s first trks)) = first"
    and "trk_number (last (disc_tracks s first trks)) = disc_last first trks"
    and "disc_tracks s first trks \<noteq> []"
proof -
  have n: "0 < length trks" using assms by (auto simp: honest_disc_def)
  then show ne: "disc_tracks s first trks \<noteq> []"
    by (metis length_disc_tracks less_numeral_extra(3) list.size(3))
  show "trk_number (hd (disc_tracks s first trks)) = first"
    using n by (simp add: hd_conv_nth ne disc_tracks_nth raw_track_def)
  show "trk_number (last (disc_tracks s first trks)) = disc_last first trks"
    using n by (simp add: last_conv_nth ne disc_tracks_nth raw_track_def disc_last_def)
qed

definition disc_table :: "u8 \<Rightarrow> rec_track list \<Rightarrow> u32 \<Rightarrow> accudisc_toc" where
  "disc_table first trks leadout = (disc_toc 1 first trks leadout)
     \<lparr>toc_sessions := [disc_session first trks leadout], toc_sessions_total := 1\<rparr>"

lemma leadin_from_fulltoc:
  assumes honest: "honest_disc first trks leadout" and es: "set (ft_entries ft) = leadin dt first trks leadout"
  shows "adsc_toc_from_fulltoc ft info =
    Inr ((disc_table first trks leadout)\<lparr>toc_sessions_total := 0\<rparr>,
         info\<lparr>ti_first_session := 1, ti_last_session := 1, ti_disc_type := dt\<rparr>)"
proof -
  let ?acc = "acc_of dt first trks leadout (disc_points first trks)"
  have fold: "fold fulltoc_step (ft_entries ft) acc_zero = ?acc"
    using leadin_fold [OF honest, of "ft_entries ft" dt "{}"] es
    by (simp add: acc_of_empty leadin_points disc_points_def)
  have acc: "acc_have_leadout ?acc" "acc_first_track ?acc = first" "acc_last_track ?acc = disc_last first trks"
    "acc_leadout ?acc = leadout" "acc_anomalies ?acc = 0" "acc_first_session ?acc = 1"
    "acc_last_session ?acc = 1" "acc_disc_type ?acc = dt"
    by (simp_all add: acc_of_def disc_points_def)
  have ne: "first \<noteq> 0" "disc_last first trks \<noteq> 0"
    using honest_first [OF honest] honest_last(1) [OF honest] by (auto simp: legal_number_def)
  have "0 < length trks" using honest by (simp add: honest_disc_def)
  moreover have "int (unat (disc_last first trks)) = int (unat first + (length trks - 1))"
    by (rule arg_cong [OF honest_last(2) [OF honest]])
  ultimately have "int (length trks) = uint (disc_last first trks) - uint first + 1"
    by (cases "length trks") simp_all
  then have "\<not> range_mismatch ?acc (disc_tracks 1 first trks)"
    by (simp add: range_mismatch_def Let_def acc hd_last_disc_tracks [OF honest])
  moreover have "tiled 1 leadout (fulltoc_table ?acc)"
    by (rule disc_tracks_tiled [OF honest])
      (simp_all add: fulltoc_table_def leadin_placed [OF honest] honest_session_table [OF honest] acc disc_session_def)
  from tiled_fill_extents [OF this]
  have "toc_fill_extents (fulltoc_table ?acc) = (fulltoc_table ?acc)
    \<lparr>toc_tracks := map (tiled_track leadout (disc_tracks 1 first trks)) [0..<length trks]\<rparr>"
    by (simp add: fulltoc_table_def leadin_placed [OF honest])
  ultimately show ?thesis
    using ne
    by (simp add: adsc_toc_from_fulltoc_def fold Let_def acc leadin_placed [OF honest]
        hd_last_disc_tracks [OF honest] honest_session_table [OF honest] fulltoc_table_def disc_table_def
        disc_toc_def disc_last_def)
qed

text \<open>
  C26: a single-session disc read through its lead-in. Whatever order the drive lists the entries
  in and however often it repeats them (up to the table's 136), the result is the table that
  describes the disc: tracks tiling the program area, a pregap back to sector 0, one session
  with its census, no anomaly.
\<close>

theorem read_toc_leadin_correct:
  assumes "honest_disc first trks leadout" and "set es = leadin dt first trks leadout"
    and "length es \<le> fulltoc_max"
  shows "accudisc_read_toc_src
      (Inr (fulltoc_bytes \<lparr>ft_first_session = 1, ft_last_session = 1, ft_entries = es\<rparr>)) fmt0 discinfo =
    Inr (disc_table first trks leadout,
      \<lparr>ti_source = toc_src_fulltoc, ti_degrade = degrade_none, ti_degrade_err = 0, ti_first_session = 1,
       ti_last_session = 1, ti_session_count = 1, ti_disc_type = dt\<rparr>)"
proof -
  let ?ft = "\<lparr>ft_first_session = 1, ft_last_session = 1, ft_entries = es\<rparr> :: accudisc_fulltoc"
  have "es \<noteq> []" using assms(2) by (auto simp: leadin_def)
  then have parse: "accudisc_fulltoc_parse (fulltoc_bytes ?ft) = Inr ?ft"
    using assms(3) by (intro fulltoc_parse_bytes) simp_all
  show ?thesis
    using leadin_from_fulltoc [OF assms(1), of ?ft dt toc_info_zero] assms(2)
    by (simp add: accudisc_read_toc_src_def toc_rung1_def parse toc_info_zero_def disc_table_def)
qed

definition sample_tracks :: "rec_track list" where
  "sample_tracks = [(0x10, 0), (0x14, 1000)]"

lemma sample_honest: "honest_disc 1 sample_tracks 5000"
  by (simp add: honest_disc_def sample_tracks_def)

theorem read_toc_leadin_correct_witness:
  "accudisc_read_toc_src
      (Inr (fulltoc_bytes \<lparr>ft_first_session = 1, ft_last_session = 1, ft_entries =
         [entry_a0 1 0, entry_track 1 sample_tracks 1, entry_a1 1 sample_tracks, entry_a2 5000,
          entry_track 1 sample_tracks 0, entry_a2 5000]\<rparr>)) (Inl ERR_IO) (Inl ERR_IO) =
    Inr (disc_table 1 sample_tracks 5000,
      \<lparr>ti_source = toc_src_fulltoc, ti_degrade = degrade_none, ti_degrade_err = 0, ti_first_session = 1,
       ti_last_session = 1, ti_session_count = 1, ti_disc_type = 0\<rparr>)"
proof (rule read_toc_leadin_correct [OF sample_honest])
  have "{..<length sample_tracks} = {0, 1}" by (auto simp: sample_tracks_def)
  then show "set [entry_a0 1 0, entry_track 1 sample_tracks 1, entry_a1 1 sample_tracks, entry_a2 5000,
      entry_track 1 sample_tracks 0, entry_a2 5000] = leadin 0 1 sample_tracks 5000"
    by (auto simp: leadin_def)
qed (simp add: fulltoc_max_def)

lemma adopt_fold:
  "fold adopt_track ts s = s
     \<lparr>ses_audio_tracks := ses_audio_tracks s + word_of_nat (length (filter track_is_audio ts)),
      ses_data_tracks := ses_data_tracks s + word_of_nat (length (filter (\<lambda>t. \<not> track_is_audio t) ts))\<rparr>"
  by (induction ts arbitrary: s) (simp_all add: adopt_track_def)

lemma synthesise_disc:
  assumes honest: "honest_disc first trks leadout"
  shows "synthesise_session ((disc_toc 0 first trks leadout)\<lparr>toc_sessions_total := 1\<rparr>) = disc_table first trks leadout"
proof -
  let ?ts = "toc_tracks (disc_toc 0 first trks leadout)"
  have nth: "?ts ! i = tiled_track leadout (disc_tracks 0 first trks) i" if "i < length trks" for i
    using that by (simp add: disc_toc_def)
  have len: "length ?ts = length trks" and pos: "0 < length trks"
    using honest by (auto simp: disc_toc_def honest_disc_def)
  have tracks: "map (\<lambda>t. t\<lparr>trk_session := 1\<rparr>) ?ts = toc_tracks (disc_table first trks leadout)"
    by (rule nth_equalityI)
      (use pos in \<open>auto simp: disc_toc_def disc_table_def tiled_track_def next_start_def disc_tracks_nth
        raw_track_def track_zero_def\<close>)
  have "map trk_adr_ctrl ?ts = map fst trks"
    by (rule nth_equalityI) (auto simp: disc_toc_def tiled_track_def disc_tracks_nth raw_track_def)
  then have "length (filter (\<lambda>c. P c) (map trk_adr_ctrl ?ts)) = length (filter (\<lambda>c. P c) (map fst trks))" for P
    by simp
  then have census: "length (filter (\<lambda>t. P (trk_adr_ctrl t)) ?ts) = length (filter (\<lambda>t. P (fst t)) trks)" for P
    by (simp add: filter_map comp_def)
  have "length (filter track_is_audio ?ts) = length (filter (\<lambda>t. fst t AND 0x04 = 0) trks)"
    "length (filter (\<lambda>t. \<not> track_is_audio t) ?ts) = length (filter (\<lambda>t. fst t AND 0x04 \<noteq> 0) trks)"
    unfolding track_is_audio_def by (rule census)+
  note census = this
  have num: "trk_number (?ts ! i) = first + word_of_nat i" if "i < length trks" for i
    using that by (simp add: nth tiled_track_def disc_tracks_nth raw_track_def)
  have "hd ?ts = ?ts ! 0" "last ?ts = ?ts ! (length trks - 1)"
    using len pos by (simp_all add: hd_conv_nth last_conv_nth flip: length_greater_0_conv)
  then have "trk_number (hd ?ts) = first" "trk_number (last ?ts) = disc_last first trks"
    using pos num [of 0] num [of "length trks - 1"] by (simp_all only: disc_last_def) simp_all
  then show ?thesis
    using tracks
    by (simp add: synthesise_session_def Let_def adopt_fold census session_zero_def
        disc_session_def disc_table_def)
      (simp add: disc_toc_def)
qed

text \<open>
  Degrading loses nothing on a single-session disc. When the lead-in cannot be read at all,
  the cooked TOC and a session count of one yield the very table the lead-in would have given;
  only the report of where it came from differs.
\<close>

theorem degrade_lossless:
  assumes "honest_disc first trks leadout" and "5 \<le> length di" and "di ! 4 = 1"
  shows "accudisc_read_toc_src (Inl e) (Inr (format0_response first trks leadout)) (Inr di) =
    Inr (disc_table first trks leadout,
      \<lparr>ti_source = toc_src_toc,
       ti_degrade = (if e = ERR_NOTFOUND then degrade_leadin_absent else degrade_leadin_unreadable),
       ti_degrade_err = err_code e, ti_first_session = 0, ti_last_session = 0, ti_session_count = 1,
       ti_disc_type = 0\<rparr>)"
proof -
  have "toc_tracks (disc_toc 0 first trks leadout) \<noteq> []"
    using assms(1) by (simp add: disc_toc_def honest_disc_def)
  moreover have "disc_session_count (Inr di) = 1"
    using assms(2,3) by (simp add: disc_session_count_def)
  ultimately show ?thesis
    using synthesise_disc [OF assms(1)]
    by (simp add: accudisc_read_toc_src_def toc_rung1_def accudisc_read_toc_def format0_parse [OF assms(1)]
        Let_def toc_info_zero_def)
qed

theorem degrade_lossless_witness:
  "accudisc_read_toc_src (Inl ERR_IO) (Inr (format0_response 1 sample_tracks 5000)) (Inr [0, 0, 14, 1, 1]) =
    Inr (disc_table 1 sample_tracks 5000,
      \<lparr>ti_source = toc_src_toc, ti_degrade = degrade_leadin_unreadable, ti_degrade_err = err_code ERR_IO,
       ti_first_session = 0, ti_last_session = 0, ti_session_count = 1, ti_disc_type = 0\<rparr>)"
  using degrade_lossless [OF sample_honest, of "[0, 0, 14, 1, 1]" ERR_IO] by simp

end
