(* ===== verification/Session.thy ===== *)
theory Session
  imports Toc
begin

text \<open>
  Session selection and the audio-range guard (\<^verbatim>\<open>src/toc/session.c\<close>): pure functions over a
  parsed table. A reason is a \<open>datatype\<close> with the source's constructors; an operation with
  out-parameters returns them in \<open>Inr\<close>, and the guard returns its report together with the
  error, because the report is filled in either way.
\<close>

section \<open>Selecting a range\<close>

definition find_session :: "accudisc_toc \<Rightarrow> u8 \<Rightarrow> accudisc_session option" where
  "find_session toc n = find (\<lambda>s. ses_number s = n) (toc_sessions toc)"

text \<open>The census loop: how many sessions hold audio, and the first of them.\<close>

definition audio_session_step :: "accudisc_session \<Rightarrow> nat \<times> u8 \<Rightarrow> nat \<times> u8" where
  "audio_session_step s a =
     (case a of (found, which) \<Rightarrow>
        if ses_audio_tracks s = 0 then (found, which)
        else (found + 1, if found + 1 = 1 then ses_number s else which))"

definition accudisc_toc_default_audio_session :: "accudisc_toc \<Rightarrow> u8 res" where
  "accudisc_toc_default_audio_session toc =
     (if toc_sessions toc = [] then Inl ERR_INVAL
      else case fold audio_session_step (toc_sessions toc) (0, 0) of (found, which) \<Rightarrow>
        if found = 0 then Inl ERR_NOTFOUND else if found > 1 then Inl ERR_UNSUPPORTED else Inr which)"

definition accudisc_toc_session_range :: "accudisc_toc \<Rightarrow> u8 \<Rightarrow> (u32 \<times> u32) res" where
  "accudisc_toc_session_range toc session =
     (case find_session toc session of
        None \<Rightarrow> Inl ERR_NOTFOUND
      | Some s \<Rightarrow>
          (case lowest_lba (filter (\<lambda>t. trk_session t = session) (toc_tracks toc)) of
             None \<Rightarrow> Inl ERR_NOTFOUND
           | Some start \<Rightarrow> if ses_leadout_lba s \<le> start then Inl ERR_SHORT
               else Inr (start, ses_leadout_lba s - start)))"

text \<open>First and last audio track of the session; a data track after audio has begun is refused.\<close>

fun audio_span :: "u8 \<Rightarrow> accudisc_track list \<Rightarrow> (accudisc_track \<times> accudisc_track) option \<Rightarrow>
    (accudisc_track \<times> accudisc_track) option res" where
  "audio_span session [] acc = Inr acc"
| "audio_span session (t # ts) acc =
     (if trk_session t \<noteq> session then audio_span session ts acc
      else if \<not> track_is_audio t then
        (if acc \<noteq> None then Inl ERR_UNSUPPORTED else audio_span session ts acc)
      else audio_span session ts (case acc of None \<Rightarrow> Some (t, t) | Some (first, _) \<Rightarrow> Some (first, t)))"

definition span_range :: "accudisc_track \<Rightarrow> accudisc_track \<Rightarrow> u32 \<times> u32" where
  "span_range a b =
     (let lba = trk_lba a - trk_pregap a in (lba, trk_lba b + trk_sectors b - lba))"

definition accudisc_toc_session_audio_range :: "accudisc_toc \<Rightarrow> u8 \<Rightarrow> (u32 \<times> u32) res" where
  "accudisc_toc_session_audio_range toc session =
     (if find_session toc session = None then Inl ERR_NOTFOUND
      else case audio_span session (toc_tracks toc) None of
          Inl e \<Rightarrow> Inl e
        | Inr None \<Rightarrow> Inl ERR_NOTFOUND
        | Inr (Some (a, b)) \<Rightarrow>
            if trk_sectors b = 0 then Inl ERR_SHORT else Inr (span_range a b))"

text \<open>The loop keeps the last match.\<close>

definition track_numbered :: "accudisc_toc \<Rightarrow> u8 \<Rightarrow> accudisc_track option" where
  "track_numbered toc n = find (\<lambda>t. trk_number t = n) (rev (toc_tracks toc))"

definition accudisc_toc_track_range :: "accudisc_toc \<Rightarrow> u8 \<Rightarrow> u8 \<Rightarrow> (u32 \<times> u32) res" where
  "accudisc_toc_track_range toc n m =
     (if m < n then Inl ERR_INVAL
      else case (track_numbered toc n, track_numbered toc m) of
          (Some a, Some b) \<Rightarrow>
            if trk_session a \<noteq> trk_session b then Inl ERR_UNSUPPORTED
            else if trk_sectors b = 0 \<or> trk_lba b + trk_sectors b \<le> trk_lba a then Inl ERR_SHORT
            else Inr (span_range a b)
        | _ \<Rightarrow> Inl ERR_NOTFOUND)"

section \<open>The audio-range guard\<close>

datatype range_reason = RANGE_OK | RANGE_DATA_TRACK | RANGE_NOT_IN_TRACK | RANGE_CROSSES_SESSION
  | RANGE_BEYOND_LEADOUT | RANGE_NO_SESSION_INFO | RANGE_SESSION_UNMAPPED | RANGE_EMPTY
  | RANGE_TOC_UNTRUSTED

fun accudisc_range_reason_str :: "range_reason \<Rightarrow> string" where
  "accudisc_range_reason_str RANGE_OK = ''ok''"
| "accudisc_range_reason_str RANGE_DATA_TRACK = ''data_track''"
| "accudisc_range_reason_str RANGE_NOT_IN_TRACK = ''not_in_track''"
| "accudisc_range_reason_str RANGE_CROSSES_SESSION = ''crosses_session''"
| "accudisc_range_reason_str RANGE_BEYOND_LEADOUT = ''beyond_leadout''"
| "accudisc_range_reason_str RANGE_NO_SESSION_INFO = ''no_session_info''"
| "accudisc_range_reason_str RANGE_SESSION_UNMAPPED = ''session_unmapped''"
| "accudisc_range_reason_str RANGE_EMPTY = ''empty''"
| "accudisc_range_reason_str RANGE_TOC_UNTRUSTED = ''toc_untrusted''"

definition accudisc_toc_anomaly_str :: "u16 \<Rightarrow> string" where
  "accudisc_toc_anomaly_str b =
     (if b = anom_lba_order then ''lba_order''
      else if b = anom_overlap then ''overlap''
      else if b = anom_leadout_before then ''leadout_before''
      else if b = anom_past_leadout then ''past_leadout''
      else if b = anom_empty_track then ''empty_track''
      else if b = anom_negative_lba then ''negative_lba''
      else if b = anom_bad_track_num then ''bad_track_num''
      else if b = anom_range_mismatch then ''range_mismatch''
      else if b = anom_bad_session then ''bad_session'' else ''unknown'')"

record accudisc_range_check =
  rc_ok :: bool
  rc_reason :: range_reason
  rc_session :: u8
  rc_track :: u8
  rc_first_bad_lba :: u32

definition owns :: "accudisc_track \<Rightarrow> u32 \<Rightarrow> bool" where
  "owns t lba \<longleftrightarrow> lba \<ge> trk_lba t - trk_pregap t \<and> lba < trk_lba t + trk_sectors t"

definition track_at :: "accudisc_toc \<Rightarrow> u32 \<Rightarrow> accudisc_track option" where
  "track_at toc lba = find (\<lambda>t. owns t lba) (toc_tracks toc)"

definition reject :: "range_reason \<Rightarrow> u8 \<Rightarrow> u8 \<Rightarrow> u32 \<Rightarrow> accudisc_range_check \<times> accudisc_err option" where
  "reject reason session track bad =
     (\<lparr>rc_ok = False, rc_reason = reason, rc_session = session, rc_track = track,
       rc_first_bad_lba = bad\<rparr>, Some ERR_UNSUPPORTED)"

definition accept :: "u8 \<Rightarrow> accudisc_range_check \<times> accudisc_err option" where
  "accept session =
     (\<lparr>rc_ok = True, rc_reason = RANGE_OK, rc_session = session, rc_track = 0,
       rc_first_bad_lba = 0\<rparr>, None)"

lemma track_at_Some:
  assumes "track_at toc p = Some t"
  shows "t \<in> set (toc_tracks toc)" and "owns t p" and "p < trk_lba t + trk_sectors t"
  using assms by (auto simp: track_at_def find_Some_iff owns_def)

text \<open>The sector loop. It skips to the end of the track it found, so \<open>p\<close> always advances.\<close>

function range_walk :: "accudisc_toc \<Rightarrow> u32 \<Rightarrow> u32 \<Rightarrow> u8 \<Rightarrow> accudisc_range_check \<times> accudisc_err option" where
  "range_walk toc e p session =
     (if \<not> p < e then accept session
      else case track_at toc p of
          None \<Rightarrow> reject RANGE_NOT_IN_TRACK session 0 p
        | Some t \<Rightarrow>
            if \<not> track_is_audio t then reject RANGE_DATA_TRACK (trk_session t) (trk_number t) p
            else if session = 0 then range_walk toc e (trk_lba t + trk_sectors t - 1 + 1) (trk_session t)
            else if trk_session t \<noteq> session then reject RANGE_CROSSES_SESSION session (trk_number t) p
            else range_walk toc e (trk_lba t + trk_sectors t - 1 + 1) session)"
  by pat_completeness auto
termination
  by (relation "measure (\<lambda>(toc, e, p, s). unat e - unat p)")
    (auto dest!: track_at_Some(3) simp: word_less_nat_alt)

declare range_walk.simps [simp del]

definition accudisc_check_audio_range ::
    "accudisc_toc \<Rightarrow> u32 \<Rightarrow> u32 \<Rightarrow> accudisc_range_check \<times> accudisc_err option" where
  "accudisc_check_audio_range toc lba count =
     (if count = 0 then reject RANGE_EMPTY 0 0 lba
      else if toc_anomalies toc AND anom_untrusted_geometry \<noteq> 0 then reject RANGE_TOC_UNTRUSTED 0 0 lba
      else if lba \<ge> toc_leadout_lba toc \<or> count > toc_leadout_lba toc - lba then
        reject RANGE_BEYOND_LEADOUT 0 0 (if lba < toc_leadout_lba toc then toc_leadout_lba toc else lba)
      else if toc_sessions toc = [] \<and> toc_sessions_total toc > 1 then reject RANGE_SESSION_UNMAPPED 0 0 lba
      else case (if toc_sessions toc = [] then find (\<lambda>t. \<not> track_is_audio t) (toc_tracks toc) else None) of
          Some t \<Rightarrow> reject RANGE_NO_SESSION_INFO 0 (trk_number t) lba
        | None \<Rightarrow> range_walk toc (lba + count) lba 0)"

section \<open>The jumping loop against a walk of every sector\<close>

lemma unat_next:
  assumes "p < (e :: u32)"
  shows "unat (p + 1) = unat p + 1"
proof -
  have "unat p + 1 < 4294967296"
    using assms unat_u32_bound [of e] unfolding word_less_nat_alt by linarith
  then show ?thesis by (simp add: unat_word_ariths)
qed

text \<open>The specification: every sector of the range asked in turn.\<close>

function sector_walk :: "accudisc_toc \<Rightarrow> u32 \<Rightarrow> u32 \<Rightarrow> u8 \<Rightarrow> accudisc_range_check \<times> accudisc_err option" where
  "sector_walk toc e p session =
     (if \<not> p < e then accept session
      else case track_at toc p of
          None \<Rightarrow> reject RANGE_NOT_IN_TRACK session 0 p
        | Some t \<Rightarrow>
            if \<not> track_is_audio t then reject RANGE_DATA_TRACK (trk_session t) (trk_number t) p
            else if session = 0 then sector_walk toc e (p + 1) (trk_session t)
            else if trk_session t \<noteq> session then reject RANGE_CROSSES_SESSION session (trk_number t) p
            else sector_walk toc e (p + 1) session)"
  by pat_completeness auto
termination
  by (relation "measure (\<lambda>(toc, e, p, s). unat e - unat p)")
    (auto simp: unat_next word_less_nat_alt)

declare sector_walk.simps [simp del]

lemma sector_walk_done: "\<not> p < e \<Longrightarrow> sector_walk toc e p s = accept s"
  by (simp add: sector_walk.simps [of toc e p])

lemma sector_walk_step:
  "p < e \<Longrightarrow> track_at toc p = Some t \<Longrightarrow> track_is_audio t \<Longrightarrow> s = 0 \<or> trk_session t = s \<Longrightarrow>
   sector_walk toc e p s = sector_walk toc e (p + 1) (trk_session t)"
  by (auto simp: sector_walk.simps [of toc e p])

text \<open>Every sector from \<open>q\<close> to the end of a track that \<open>track_at\<close> keeps answering with.\<close>

lemma sector_walk_track:
  assumes "\<And>r. q \<le> r \<Longrightarrow> r < last_sector \<Longrightarrow> track_at toc r = Some t" and "track_is_audio t"
    and "q \<le> last_sector"
  shows "sector_walk toc e q (trk_session t) = sector_walk toc e last_sector (trk_session t)"
  using assms
proof (induction "unat last_sector - unat q" arbitrary: q)
  case 0
  then have "q = last_sector" by (simp add: word_le_nat_alt word_unat_eq_iff)
  then show ?case by simp
next
  case (Suc n)
  then have less: "q < last_sector" by (simp add: word_less_nat_alt)
  then have step: "q + 1 \<le> last_sector" "unat (q + 1) = unat q + 1"
    using unat_next [OF less] by (simp_all add: word_le_nat_alt word_less_nat_alt)
  have "sector_walk toc e (q + 1) (trk_session t) = sector_walk toc e last_sector (trk_session t)"
  proof (rule Suc.hyps(1))
    show "n = unat last_sector - unat (q + 1)" using Suc.hyps(2) step(2) by simp
    show "track_at toc r = Some t" if "q + 1 \<le> r" "r < last_sector" for r
      using Suc.prems(1) [of r] that step(2) by (simp add: word_le_nat_alt)
  qed (use Suc.prems step in simp_all)
  moreover have "track_at toc q = Some t" using Suc.prems(1) less by simp
  ultimately show ?case
    using Suc.prems(2) less sector_walk_step [of q e toc t "trk_session t"]
    by (cases "q < e") (auto simp: sector_walk_done)
qed

definition unique_owner :: "accudisc_toc \<Rightarrow> bool" where
  "unique_owner toc \<longleftrightarrow> (\<forall>t \<in> set (toc_tracks toc). \<forall>u \<in> set (toc_tracks toc). \<forall>p.
     owns t p \<longrightarrow> owns u p \<longrightarrow> t = u)"

lemma track_at_unique:
  assumes "unique_owner toc" and "t \<in> set (toc_tracks toc)" and "owns t p"
  shows "track_at toc p = Some t"
proof -
  have "find (\<lambda>t. owns t p) (toc_tracks toc) \<noteq> None" using assms by (auto simp: find_None_iff)
  then obtain u where u: "track_at toc p = Some u" by (auto simp: track_at_def)
  then have "u = t" using track_at_Some(1,2) [OF u] assms by (auto simp: unique_owner_def)
  with u show ?thesis by simp
qed

lemma range_walk_sector_walk:
  assumes "unique_owner toc"
  shows "range_walk toc e p session = sector_walk toc e p session"
  using assms
proof (induction toc e p session rule: range_walk.induct)
  case (1 toc e p session)
  show ?case
  proof (cases "p < e")
    case p: True
    show ?thesis
    proof (cases "track_at toc p")
      case None
      then show ?thesis using p by (simp add: range_walk.simps [of toc e p] sector_walk.simps [of toc e p])
    next
      case (Some t)
      note t = track_at_Some [OF Some]
      let ?stop = "trk_lba t + trk_sectors t"
      have next_le: "p + 1 \<le> ?stop"
        using t(3) unat_next [OF t(3)] by (simp add: word_le_nat_alt word_less_nat_alt)
      have skip: "sector_walk toc e (p + 1) (trk_session t) = sector_walk toc e ?stop (trk_session t)"
        if "track_is_audio t"
      proof (rule sector_walk_track [OF _ that next_le])
        fix r assume r: "p + 1 \<le> r" "r < ?stop"
        then have "p \<le> r" using unat_next [OF t(3)] by (simp add: word_le_nat_alt)
        then have "owns t r" using t(2) r(2) by (auto simp: owns_def)
        then show "track_at toc r = Some t" by (rule track_at_unique [OF "1.prems" t(1)])
      qed
      have ih: "track_is_audio t \<Longrightarrow> session = 0 \<Longrightarrow> range_walk toc e ?stop (trk_session t) = sector_walk toc e ?stop (trk_session t)"
        "track_is_audio t \<Longrightarrow> session \<noteq> 0 \<Longrightarrow> trk_session t = session \<Longrightarrow> range_walk toc e ?stop session = sector_walk toc e ?stop session"
        using "1.IH" [OF _ Some] p "1.prems" by simp_all
      show ?thesis
      proof (cases "track_is_audio t \<and> (session = 0 \<or> trk_session t = session)")
        case True
        then have "range_walk toc e p session = range_walk toc e ?stop (trk_session t)"
          using p Some by (auto simp: range_walk.simps [of toc e p])
        also have "\<dots> = sector_walk toc e ?stop (trk_session t)" using True ih by auto
        also have "\<dots> = sector_walk toc e p session"
          using True skip sector_walk_step [OF p Some] by simp
        finally show ?thesis .
      next
        case False
        then show ?thesis
          using p Some by (auto simp: range_walk.simps [of toc e p] sector_walk.simps [of toc e p])
      qed
    qed
  qed (simp add: range_walk.simps [of toc e p] sector_walk.simps [of toc e p])
qed

section \<open>What an accepted range means\<close>

lemma sector_walk_session:
  assumes "sector_walk toc e p s = (out, None)"
  shows "s \<noteq> 0 \<Longrightarrow> rc_session out = s"
  using assms
proof (induction toc e p s rule: sector_walk.induct)
  case (1 toc e p s)
  then show ?case
    by (subst (asm) (3) sector_walk.simps) (auto simp: accept_def reject_def split: option.splits if_splits)
qed

lemma sector_walk_accepts:
  assumes "sector_walk toc e p s = (out, None)" and "p \<le> q" and "q < e"
  shows "\<exists>t. track_at toc q = Some t \<and> track_is_audio t \<and> (trk_session t = 0 \<or> trk_session t = rc_session out)"
  using assms
proof (induction toc e p s rule: sector_walk.induct)
  case (1 toc e p s)
  then have less: "p < e" by simp
  obtain t where t: "track_at toc p = Some t" "track_is_audio t" "s = 0 \<or> trk_session t = s"
    using "1.prems"(1) less
    by (auto simp: sector_walk.simps [of toc e p] reject_def split: option.splits if_splits)
  then have walk: "sector_walk toc e (p + 1) (trk_session t) = (out, None)"
    using "1.prems"(1) sector_walk_step [OF less] by simp
  show ?case
  proof (cases "q = p")
    case True
    then show ?thesis using t sector_walk_session [OF walk] by (cases "trk_session t = 0") auto
  next
    case False
    then have "p + 1 \<le> q"
      using "1.prems"(2) unat_next [OF less] by (simp add: word_le_nat_alt word_unat_eq_iff)
    then show ?thesis
      using "1.IH" [OF _ t(1)] less t walk "1.prems"(3) by (cases "s = 0") auto
  qed
qed

lemma sector_walk_complete:
  assumes "\<And>q. p \<le> q \<Longrightarrow> q < e \<Longrightarrow> \<exists>t. track_at toc q = Some t \<and> track_is_audio t \<and> trk_session t = n"
    and "s = 0 \<or> s = n" and "p < e \<or> s = n"
  shows "sector_walk toc e p s = accept n"
  using assms
proof (induction toc e p s rule: sector_walk.induct)
  case (1 toc e p s)
  show ?case
  proof (cases "p < e")
    case less: True
    then obtain t where t: "track_at toc p = Some t" "track_is_audio t" "trk_session t = n"
      using "1.prems"(1) by blast
    have "p + 1 \<le> q \<Longrightarrow> p \<le> q" for q
      using unat_next [OF less] by (simp add: word_le_nat_alt)
    then have later: "\<exists>t. track_at toc q = Some t \<and> track_is_audio t \<and> trk_session t = n"
      if "p + 1 \<le> q" "q < e" for q
      using "1.prems"(1) that by blast
    have "sector_walk toc e (p + 1) n = accept n"
      using "1.IH" [OF _ t(1)] less t later "1.prems"(2) by (cases "s = 0") auto
    then show ?thesis
      using sector_walk_step [OF less t(1,2)] t(3) "1.prems"(2) by auto
  qed (use "1.prems" sector_walk_done in auto)
qed

section \<open>The guard on tables that were read\<close>

lemma owns_extent: "track_sound t \<Longrightarrow> owns t p \<longleftrightarrow> unat p \<in> extent t"
  by (auto simp: owns_def extent_def word_le_nat_alt word_less_nat_alt track_sound_bounds)

lemma unique_owner_read:
  assumes "geometry_ok toc" and "toc_anomalies toc AND anom_untrusted_geometry = 0" and "table_complete toc"
  shows "unique_owner toc"
  unfolding unique_owner_def
proof (intro ballI allI impI)
  fix t u p assume mem: "t \<in> set (toc_tracks toc)" "u \<in> set (toc_tracks toc)" and own: "owns t p" "owns u p"
  have sound: "track_sound t" "track_sound u" and ex: "exclusive (toc_tracks toc)" and pre: "pregaps_owned (toc_tracks toc)"
    using assms mem by (auto simp: geometry_ok_def)
  have full: "trk_sectors x \<noteq> 0" if "x \<in> set (toc_tracks toc)" "owns x p" for x
    using that pre by (auto simp: pregaps_owned_def owns_def)
  obtain i j where ij: "i < length (toc_tracks toc)" "t = toc_tracks toc ! i" "j < length (toc_tracks toc)" "u = toc_tracks toc ! j"
    using mem by (metis in_set_conv_nth)
  have "i = j"
    using ex ij full [OF mem(1) own(1)] full [OF mem(2) own(2)] own sound
    by (auto simp: exclusive_def owns_extent)
  then show "t = u" using ij by simp
qed

definition check_every_sector ::
    "accudisc_toc \<Rightarrow> u32 \<Rightarrow> u32 \<Rightarrow> accudisc_range_check \<times> accudisc_err option" where
  "check_every_sector toc lba count =
     (if count = 0 then reject RANGE_EMPTY 0 0 lba
      else if toc_anomalies toc AND anom_untrusted_geometry \<noteq> 0 then reject RANGE_TOC_UNTRUSTED 0 0 lba
      else if lba \<ge> toc_leadout_lba toc \<or> count > toc_leadout_lba toc - lba then
        reject RANGE_BEYOND_LEADOUT 0 0 (if lba < toc_leadout_lba toc then toc_leadout_lba toc else lba)
      else if toc_sessions toc = [] \<and> toc_sessions_total toc > 1 then reject RANGE_SESSION_UNMAPPED 0 0 lba
      else case (if toc_sessions toc = [] then find (\<lambda>t. \<not> track_is_audio t) (toc_tracks toc) else None) of
          Some t \<Rightarrow> reject RANGE_NO_SESSION_INFO 0 (trk_number t) lba
        | None \<Rightarrow> sector_walk toc (lba + count) lba 0)"

lemma check_range_sector_walk:
  assumes "geometry_ok toc" and "table_complete toc"
  shows "accudisc_check_audio_range toc lba count = check_every_sector toc lba count"
  using unique_owner_read [OF assms(1) _ assms(2)]
  by (auto simp: accudisc_check_audio_range_def check_every_sector_def range_walk_sector_walk
      split: option.splits)

lemma range_end:
  assumes "lba < leadout" and "count \<le> leadout - lba"
  shows "unat lba + unat count \<le> unat leadout" and "unat (lba + count) = unat lba + unat (count :: u32)"
proof -
  have "unat (leadout - lba) = unat leadout - unat lba"
    using assms(1) by (intro unat_sub) simp
  then show le: "unat lba + unat count \<le> unat leadout"
    using assms by (simp add: word_le_nat_alt word_less_nat_alt)
  then have "unat lba + unat count < 4294967296"
    using unat_u32_bound [of leadout] by linarith
  then show "unat (lba + count) = unat lba + unat count" by (simp add: unat_word_ariths)
qed


lemma check_range_sound:
  assumes geo: "geometry_ok toc" and "table_complete toc"
    and "accudisc_check_audio_range toc lba count = (out, None)"
    and "unat lba \<le> unat q" and "unat q < unat lba + unat count"
  shows "q < toc_leadout_lba toc \<and>
    (\<exists>t \<in> set (toc_tracks toc). owns t q \<and> track_is_audio t \<and>
       (trk_session t = 0 \<or> trk_session t = rc_session out)) \<and>
    (\<forall>u \<in> set (toc_tracks toc). owns u q \<longrightarrow> track_is_audio u)"
proof -
  have trusted: "toc_anomalies toc AND anom_untrusted_geometry = 0"
    and lead: "lba < toc_leadout_lba toc" "count \<le> toc_leadout_lba toc - lba"
    and walk: "sector_walk toc (lba + count) lba 0 = (out, None)"
    using assms(3) unfolding check_range_sector_walk [OF geo assms(2)]
    by (auto simp: check_every_sector_def reject_def not_le not_less split: if_splits option.splits)
  have q: "lba \<le> q" "q < lba + count"
    using assms(4,5) range_end(2) [OF lead] by (simp_all add: word_le_nat_alt word_less_nat_alt)
  obtain t where t: "track_at toc q = Some t" "track_is_audio t" "trk_session t = 0 \<or> trk_session t = rc_session out"
    using sector_walk_accepts [OF walk q] by blast
  have "track_is_audio u" if "u \<in> set (toc_tracks toc)" "owns u q" for u
    using track_at_unique [OF unique_owner_read [OF geo trusted assms(2)] that] t by simp
  moreover have "q < toc_leadout_lba toc"
    using range_end(1) [OF lead] assms(5) by (simp add: word_less_nat_alt)
  ultimately show ?thesis
    using t track_at_Some(1,2) [OF t(1)] by blast
qed

lemma check_range_complete:
  assumes geo: "geometry_ok toc" and "table_complete toc"
    and "toc_anomalies toc AND anom_untrusted_geometry = 0" and "toc_sessions toc \<noteq> []"
    and "0 < count" and "lba < toc_leadout_lba toc" and "count \<le> toc_leadout_lba toc - lba"
    and "\<And>q. unat lba \<le> unat q \<Longrightarrow> unat q < unat lba + unat count \<Longrightarrow>
      \<exists>t \<in> set (toc_tracks toc). owns t q \<and> track_is_audio t \<and> trk_session t = n"
  shows "accudisc_check_audio_range toc lba count = accept n"
proof -
  note e = range_end(2) [OF assms(6,7)]
  have "\<exists>t. track_at toc q = Some t \<and> track_is_audio t \<and> trk_session t = n" if "lba \<le> q" "q < lba + count" for q
  proof -
    have "unat lba \<le> unat q" "unat q < unat lba + unat count"
      using that e by (simp_all add: word_le_nat_alt word_less_nat_alt)
    then show ?thesis
      using assms(8) track_at_unique [OF unique_owner_read [OF geo assms(3,2)]] by blast
  qed
  moreover have "lba < lba + count"
    using e assms(5) by (simp add: word_less_nat_alt)
  ultimately have "sector_walk toc (lba + count) lba 0 = accept n"
    by (intro sector_walk_complete) auto
  then show ?thesis
    unfolding check_range_sector_walk [OF geo assms(2)]
    using assms(3-7) by (auto simp: check_every_sector_def)
qed

text \<open>
  C2: what an accepted range is. Every sector of it lies before the lead-out in an audio track,
  no data track claims it, and no two sectors belong to different known sessions.
\<close>

theorem guard_sound:
  assumes "accudisc_read_toc_src full fmt0 discinfo = Inr (toc, info)" and "table_complete toc"
    and "accudisc_check_audio_range toc lba count = (out, None)"
    and "unat lba \<le> unat q" and "unat q < unat lba + unat count"
  shows "q < toc_leadout_lba toc \<and>
    (\<exists>t \<in> set (toc_tracks toc). owns t q \<and> track_is_audio t \<and>
       (trk_session t = 0 \<or> trk_session t = rc_session out)) \<and>
    (\<forall>u \<in> set (toc_tracks toc). owns u q \<longrightarrow> track_is_audio u)"
  by (rule check_range_sound [OF read_toc_src_geometry_ok [OF assms(1)] assms(2-5)])

text \<open>
  The guard refuses nothing it need not. A non-empty range before the lead-out of a trusted
  table whose sectors all lie in audio tracks of one mapped session is accepted for that session.
\<close>

theorem guard_complete:
  assumes "accudisc_read_toc_src full fmt0 discinfo = Inr (toc, info)" and "table_complete toc"
    and "toc_anomalies toc AND anom_untrusted_geometry = 0" and "toc_sessions toc \<noteq> []"
    and "0 < count" and "lba < toc_leadout_lba toc" and "count \<le> toc_leadout_lba toc - lba"
    and "\<And>q. unat lba \<le> unat q \<Longrightarrow> unat q < unat lba + unat count \<Longrightarrow>
      \<exists>t \<in> set (toc_tracks toc). owns t q \<and> track_is_audio t \<and> trk_session t = n"
  shows "accudisc_check_audio_range toc lba count = accept n"
  by (rule check_range_complete [OF read_toc_src_geometry_ok [OF assms(1)] assms(2-8)])

section \<open>An unmapped session\<close>

definition hostile_leadin :: accudisc_fulltoc where
  "hostile_leadin = \<lparr>ft_first_session = 1, ft_last_session = 2, ft_entries =
     [\<lparr>fe_session = 1, fe_adr_ctrl = 0x10, fe_point = 1, fe_min = 0, fe_sec = 0, fe_frame = 0,
        fe_pmin = 0, fe_psec = 22, fe_pframe = 0\<rparr>,
      \<lparr>fe_session = 2, fe_adr_ctrl = 0x14, fe_point = 2, fe_min = 0, fe_sec = 0, fe_frame = 0,
        fe_pmin = 0, fe_psec = 6, fe_pframe = 0\<rparr>,
      \<lparr>fe_session = 2, fe_adr_ctrl = 0x14, fe_point = 0xA2, fe_min = 0, fe_sec = 0, fe_frame = 0,
        fe_pmin = 0, fe_psec = 12, fe_pframe = 0\<rparr>]\<rparr>"

definition hostile_toc :: accudisc_toc where
  "hostile_toc = (case adsc_toc_from_fulltoc hostile_leadin toc_info_zero of Inr (toc, _) \<Rightarrow> toc | Inl _ \<Rightarrow> toc_zero)"

lemma hostile_toc_eq:
  "adsc_toc_from_fulltoc hostile_leadin toc_info_zero =
     Inr (hostile_toc, toc_info_zero\<lparr>ti_first_session := 1, ti_last_session := 2\<rparr>)"
  by code_simp

text \<open>
  A table that slips past the guard. The lead-in gives session 1 no lead-out of its own and
  starts its audio track past the disc's: the track is empty, but its pregap is taken to reach
  back to sector 0, over the data track of session 2. Only non-empty tracks are tested for
  overlap, so the geometry counts as trusted and a range inside the data track is accepted.
\<close>

theorem guard_accepts_hidden_data_track:
  "adsc_toc_from_fulltoc hostile_leadin toc_info_zero =
     Inr (hostile_toc, toc_info_zero\<lparr>ti_first_session := 1, ti_last_session := 2\<rparr>) \<and>
   toc_anomalies hostile_toc AND anom_untrusted_geometry = 0 \<and>
   accudisc_check_audio_range hostile_toc 400 100 = accept 1 \<and>
   \<not> track_is_audio (toc_tracks hostile_toc ! 1) \<and>
   {400..<500} \<subseteq> extent (toc_tracks hostile_toc ! 1)"
proof (intro conjI)
  show "toc_anomalies hostile_toc AND anom_untrusted_geometry = 0" by code_simp
  show "accudisc_check_audio_range hostile_toc 400 100 = accept 1" by code_simp
  show "\<not> track_is_audio (toc_tracks hostile_toc ! 1)" by code_simp
  have "unat (trk_lba (toc_tracks hostile_toc ! 1)) = 300 \<and> unat (trk_sectors (toc_tracks hostile_toc ! 1)) = 450"
    by code_simp
  then show "{400..<500} \<subseteq> extent (toc_tracks hostile_toc ! 1)" by (auto simp: extent_def)
qed (rule hostile_toc_eq)

section \<open>A table to apply them to\<close>

definition sample_toc :: accudisc_toc where
  "sample_toc = \<lparr>toc_first_track = 1, toc_last_track = 2, toc_leadout_lba = 5000, toc_tracks =
     [\<lparr>trk_number = 1, trk_adr_ctrl = 0, trk_session = 1, trk_lba = 0, trk_sectors = 1000, trk_pregap = 0\<rparr>,
      \<lparr>trk_number = 2, trk_adr_ctrl = 0, trk_session = 1, trk_lba = 1000, trk_sectors = 4000, trk_pregap = 0\<rparr>],
     toc_sessions = [\<lparr>ses_number = 1, ses_first_track = 1, ses_last_track = 2, ses_audio_tracks = 2,
       ses_data_tracks = 0, ses_leadout_lba = 5000\<rparr>], toc_sessions_total = 1, toc_anomalies = 0\<rparr>"

definition sample_format0 :: "u8 list" where
  "sample_format0 = [0, 26, 1, 2, 0, 0, 1, 0, 0, 0, 0, 0, 0, 0, 2, 0, 0, 0, 3, 232, 0, 0, 0xAA, 0, 0, 0, 19, 136]"

lemma sample_read:
  "accudisc_read_toc_src (Inl ERR_IO) (Inr sample_format0) (Inr [0, 0, 14, 1, 1]) =
     Inr (sample_toc, \<lparr>ti_source = 1, ti_degrade = 1, ti_degrade_err = - 4, ti_first_session = 0,
       ti_last_session = 0, ti_session_count = 1, ti_disc_type = 0\<rparr>)"
  by code_simp

lemma sample_table: "table_complete sample_toc"
  by (simp add: table_complete_def sample_toc_def)


theorem guard_sound_witness:
  "(1005 :: u32) < toc_leadout_lba sample_toc \<and>
    (\<exists>t \<in> set (toc_tracks sample_toc). owns t 1005 \<and> track_is_audio t \<and>
       (trk_session t = 0 \<or> trk_session t = rc_session (fst (accept 1)))) \<and>
    list_all (\<lambda>u. owns u 1005 \<longrightarrow> track_is_audio u) (toc_tracks sample_toc)"
proof -
  have "accudisc_check_audio_range sample_toc 990 20 = (fst (accept 1), None)" by code_simp
  from guard_sound [OF sample_read sample_table this, of 1005] show ?thesis by (simp add: list_all_iff)
qed

theorem guard_complete_witness: "accudisc_check_audio_range sample_toc 990 20 = accept 1"
proof (rule guard_complete [OF sample_read sample_table])
  fix q :: u32 assume "unat (990 :: u32) \<le> unat q" "unat q < unat (990 :: u32) + unat (20 :: u32)"
  then have "990 \<le> q" "q < 1010" by (simp_all add: word_le_nat_alt word_less_nat_alt)
  then show "\<exists>t \<in> set (toc_tracks sample_toc). owns t q \<and> track_is_audio t \<and> trk_session t = 1"
    by (cases "q < 1000") (auto simp: sample_toc_def owns_def track_is_audio_def intro: order.strict_trans)
qed (simp_all add: sample_toc_def)

end
