(* ===== verification/Abi.thy ===== *)
theory Abi
  imports Prelude
begin

text \<open>
  Negotiation of a caller-declared struct size (\<^verbatim>\<open>src/abi.c\<close>). A struct is its bytes: the caller's
  is the memory from its address on, a function of the offset (its declared size is a claim, so
  there is no length to trust), and the imported one is a list of this build's size. The
  \<open>size\<close> member is the first four bytes, little-endian.
\<close>

definition abi_growth_max :: nat where "abi_growth_max = 256"

definition size_bytes :: "nat \<Rightarrow> u8 list" where
  "size_bytes n = map (\<lambda>i. word_of_nat (n div 256 ^ i)) [0..<4]"

text \<open>The scan of the bytes past our end.\<close>

definition tail_clear :: "(nat \<Rightarrow> u8) \<Rightarrow> nat \<Rightarrow> nat \<Rightarrow> bool" where
  "tail_clear mem dst_size src_size \<longleftrightarrow> list_all (\<lambda>i. mem (dst_size + i) = 0) [0..<src_size - dst_size]"

definition adsc_abi_import :: "nat \<Rightarrow> (nat \<Rightarrow> u8) \<Rightarrow> nat \<Rightarrow> u8 list res" where
  "adsc_abi_import dst_size mem src_size =
     (if dst_size < 4 then Inl ERR_INVAL
      else if src_size < 4 then Inl ERR_ABI
      else if src_size > dst_size + abi_growth_max then Inl ERR_ABI
      else if src_size > dst_size \<and> \<not> tail_clear mem dst_size src_size then Inl ERR_ABI
      else let n = (if src_size > dst_size then dst_size else src_size);
               dst = map mem [0..<n] @ replicate (dst_size - n) 0
           in Inr (size_bytes dst_size @ drop 4 dst))"

definition adsc_abi_export :: "nat \<Rightarrow> nat \<Rightarrow> nat res" where
  "adsc_abi_export want have' =
     (if have' < 4 then Inl ERR_INVAL
      else if want < 4 then Inl ERR_ABI
      else if want > have' then Inl ERR_ABI
      else Inr want)"

text \<open>The member of \<open>n\<close> bytes at an offset, unsigned and signed.\<close>

fun le_nat :: "u8 list \<Rightarrow> nat" where
  "le_nat [] = 0"
| "le_nat (b # bs) = unat b + 256 * le_nat bs"

definition le_unsigned :: "nat \<Rightarrow> nat \<Rightarrow> u8 list \<Rightarrow> nat" where
  "le_unsigned off n bs = le_nat (slice off n bs)"

definition le_signed :: "nat \<Rightarrow> nat \<Rightarrow> u8 list \<Rightarrow> int" where
  "le_signed off n bs =
     (let v = int (le_unsigned off n bs) in if v < 2 ^ (8 * n - 1) then v else v - 2 ^ (8 * n))"

lemma tail_clear_iff:
  "tail_clear mem dst_size src_size \<longleftrightarrow> (\<forall>i. dst_size \<le> i \<longrightarrow> i < src_size \<longrightarrow> mem i = 0)"
proof
  assume clear: "tail_clear mem dst_size src_size"
  show "\<forall>i. dst_size \<le> i \<longrightarrow> i < src_size \<longrightarrow> mem i = 0"
  proof (intro allI impI)
    fix i assume "dst_size \<le> i" "i < src_size"
    then have "i - dst_size \<in> set [0..<src_size - dst_size]" and i: "dst_size + (i - dst_size) = i" by auto
    then have "mem (dst_size + (i - dst_size)) = 0"
      using clear unfolding tail_clear_def list_all_iff by blast
    then show "mem i = 0" unfolding i .
  qed
qed (auto simp: tail_clear_def list_all_iff)

lemma length_size_bytes [simp]: "length (size_bytes n) = 4"
  by (simp add: size_bytes_def)

lemma le_nat_size_bytes:
  assumes "n < 2 ^ 32"
  shows "le_nat (size_bytes n) = n"
proof -
  have "le_nat (size_bytes n) = n mod 256 + 256 * (n div 256 mod 256 + 256 * (n div 65536 mod 256 + 256 * (n div 16777216 mod 256)))"
    by (simp add: size_bytes_def unat_of_nat upt_rec)
  also have "\<dots> = n"
  proof -
    have a: "n div 16777216 < 256" using assms by simp
    have "n div 65536 mod 256 + 256 * (n div 16777216) = n div 65536"
      using mod_mult_div_eq [of "n div 65536" 256] by (simp add: div_mult2_eq [symmetric])
    moreover have "n div 256 mod 256 + 256 * (n div 65536) = n div 256"
      using mod_mult_div_eq [of "n div 256" 256] by (simp add: div_mult2_eq [symmetric])
    moreover have "n mod 256 + 256 * (n div 256) = n" by (rule mod_mult_div_eq)
    ultimately show ?thesis by (simp only: mod_less [OF a])
  qed
  finally show ?thesis .
qed

lemma abi_import_Inr:
  assumes "4 \<le> dst_size" and "dst_size < 2 ^ 32" and "adsc_abi_import dst_size mem src_size = Inr dst"
  shows "4 \<le> src_size" and "src_size \<le> dst_size + abi_growth_max"
    and "tail_clear mem dst_size src_size" and "length dst = dst_size" and "le_unsigned 0 4 dst = dst_size"
    and "\<And>i. 4 \<le> i \<Longrightarrow> i < dst_size \<Longrightarrow> dst ! i = (if i < src_size then mem i else 0)"
proof -
  have size: "le_unsigned 0 4 (size_bytes dst_size @ xs) = dst_size" for xs
    using le_nat_size_bytes [OF assms(2)] by (simp add: le_unsigned_def slice_def)
  show "4 \<le> src_size" and "src_size \<le> dst_size + abi_growth_max"
    and "tail_clear mem dst_size src_size" and "length dst = dst_size" and "le_unsigned 0 4 dst = dst_size"
    and "\<And>i. 4 \<le> i \<Longrightarrow> i < dst_size \<Longrightarrow> dst ! i = (if i < src_size then mem i else 0)"
    using assms(1,3)
    by (auto simp: adsc_abi_import_def Let_def nth_append size not_less tail_clear_iff split: if_splits)
qed

text \<open>
  The negotiation, in full. An import succeeds exactly when the declared size can hold the
  member itself, lies within the growth window and sets nothing this build does not know. Then
  the result has this build's size and says so, every byte the caller declared arrives unchanged,
  and every byte it did not declare is zero.
\<close>

theorem abi_import_spec:
  assumes "4 \<le> dst_size" and "dst_size < 2 ^ 32"
  shows "case adsc_abi_import dst_size mem src_size of
      Inl e \<Rightarrow> e = ERR_ABI \<and> (src_size < 4 \<or> src_size > dst_size + abi_growth_max \<or>
         (\<exists>i. dst_size \<le> i \<and> i < src_size \<and> mem i \<noteq> 0))
    | Inr dst \<Rightarrow> 4 \<le> src_size \<and> src_size \<le> dst_size + abi_growth_max \<and>
         (\<forall>i. dst_size \<le> i \<longrightarrow> i < src_size \<longrightarrow> mem i = 0) \<and>
         length dst = dst_size \<and> le_unsigned 0 4 dst = dst_size \<and>
         (\<forall>i. 4 \<le> i \<longrightarrow> i < dst_size \<longrightarrow> dst ! i = (if i < src_size then mem i else 0))"
proof (cases "adsc_abi_import dst_size mem src_size")
  case (Inl e)
  then show ?thesis
    using assms(1) by (auto simp: adsc_abi_import_def tail_clear_iff Let_def split: if_splits)
next
  case (Inr dst)
  then show ?thesis
    using abi_import_Inr [OF assms Inr] by (simp add: tail_clear_iff)
qed

theorem abi_import_spec_witness:
  "case adsc_abi_import 40 (\<lambda>i. if i < 8 then 1 else 0) 44 of
      Inl e \<Rightarrow> e = ERR_ABI \<and> ((44::nat) < 4 \<or> 44 > 40 + abi_growth_max \<or>
         (\<exists>i. 40 \<le> i \<and> i < (44::nat) \<and> (if i < 8 then 1 else 0) \<noteq> (0 :: u8)))
    | Inr dst \<Rightarrow> (4::nat) \<le> 44 \<and> 44 \<le> 40 + abi_growth_max \<and>
         (\<forall>i. 40 \<le> i \<longrightarrow> i < (44::nat) \<longrightarrow> (if i < 8 then 1 else 0) = (0 :: u8)) \<and>
         length dst = 40 \<and> le_unsigned 0 4 dst = 40 \<and>
         (\<forall>i. 4 \<le> i \<longrightarrow> i < 40 \<longrightarrow> dst ! i = (if i < (44::nat) then if i < 8 then 1 else 0 else 0))"
  by (rule abi_import_spec) simp_all

end
