(* ===== verification/Plan.thy ===== *)
theory Plan
  imports Session TocWire Abi
begin

text \<open>
  Read-range planning (\<^verbatim>\<open>src/toc/plan.c\<close>): which sectors a request means, decided from the table
  alone. The 64-bit signed intermediates of the source are \<open>int\<close>; the sums it forms stay within
  64 bits for every 64-bit \<open>start\<close> and \<open>count\<close> the source lets through. The request is the
  caller's struct, imported through the size negotiation and read at the offsets of this
  build's layout. The plan is returned with the error, because it is always written.
\<close>

section \<open>Request and plan\<close>

record accudisc_range_spec =
  rs_session :: int
  rs_first_track :: int
  rs_last_track :: int
  rs_start :: int
  rs_count :: int
  rs_force :: bool

definition range_spec_size :: nat where "range_spec_size = 40"

definition range_spec_of :: "u8 list \<Rightarrow> accudisc_range_spec" where
  "range_spec_of bs =
     \<lparr>rs_session = le_signed 4 4 bs, rs_first_track = le_signed 8 4 bs, rs_last_track = le_signed 12 4 bs,
      rs_start = le_signed 16 8 bs, rs_count = le_signed 24 8 bs, rs_force = (bs ! 32 \<noteq> 0)\<rparr>"

datatype plan_reason = PLAN_OK | PLAN_TRACKS_NOT_FOUND | PLAN_TRACKS_CROSS_SESSION
  | PLAN_TRACKS_NO_EXTENT | PLAN_MULTIPLE_AUDIO_SESSIONS | PLAN_NO_AUDIO_SESSION
  | PLAN_SESSION_SPLIT_BY_DATA | PLAN_SESSION_NOT_FOUND | PLAN_START_PAST_LEADOUT
  | PLAN_EMPTY_RANGE | PLAN_GUARD_REFUSED | PLAN_BAD_ARGUMENT

fun accudisc_plan_reason_str :: "plan_reason \<Rightarrow> string" where
  "accudisc_plan_reason_str PLAN_OK = ''ok''"
| "accudisc_plan_reason_str PLAN_TRACKS_NOT_FOUND = ''tracks_not_found''"
| "accudisc_plan_reason_str PLAN_TRACKS_CROSS_SESSION = ''tracks_cross_session''"
| "accudisc_plan_reason_str PLAN_TRACKS_NO_EXTENT = ''tracks_no_extent''"
| "accudisc_plan_reason_str PLAN_MULTIPLE_AUDIO_SESSIONS = ''multiple_audio_sessions''"
| "accudisc_plan_reason_str PLAN_NO_AUDIO_SESSION = ''no_audio_session''"
| "accudisc_plan_reason_str PLAN_SESSION_SPLIT_BY_DATA = ''session_split_by_data''"
| "accudisc_plan_reason_str PLAN_SESSION_NOT_FOUND = ''session_not_found''"
| "accudisc_plan_reason_str PLAN_START_PAST_LEADOUT = ''start_past_leadout''"
| "accudisc_plan_reason_str PLAN_EMPTY_RANGE = ''empty_range''"
| "accudisc_plan_reason_str PLAN_GUARD_REFUSED = ''guard_refused''"
| "accudisc_plan_reason_str PLAN_BAD_ARGUMENT = ''bad_argument''"

record accudisc_range_plan =
  rp_lba :: u32
  rp_count :: u32
  rp_resolved_count :: int
  rp_session :: u8
  rp_plan_reason :: plan_reason
  rp_check :: accudisc_range_check

definition plan_init :: accudisc_range_plan where
  "plan_init = \<lparr>rp_lba = 0, rp_count = 0, rp_resolved_count = 0, rp_session = 0,
     rp_plan_reason = PLAN_BAD_ARGUMENT,
     rp_check = \<lparr>rc_ok = False, rc_reason = RANGE_OK, rc_session = 0, rc_track = 0, rc_first_bad_lba = 0\<rparr>\<rparr>"

type_synonym plan_result = "accudisc_range_plan \<times> accudisc_err option"

definition refuse :: "accudisc_range_plan \<Rightarrow> plan_reason \<Rightarrow> plan_result" where
  "refuse out why = (out\<lparr>rp_plan_reason := why\<rparr>, Some ERR_UNSUPPORTED)"

section \<open>Resolution\<close>

text \<open>
  The two branches end early with a result (\<open>Inl\<close>) or go on with the plan so far, the start and
  the count (\<open>Inr\<close>).
\<close>

type_synonym plan_branch = "plan_result + accudisc_range_plan \<times> int \<times> int"

definition plan_tracks :: "accudisc_toc \<Rightarrow> accudisc_range_spec \<Rightarrow> bool \<Rightarrow> int \<Rightarrow> int \<Rightarrow> plan_branch" where
  "plan_tracks toc spec have_start start cnt =
     (if rs_first_track spec > 99 \<or> rs_last_track spec < 1 \<or> rs_last_track spec > 99
      then Inl (plan_init, Some ERR_INVAL)
      else case accudisc_toc_track_range toc (word_of_int (rs_first_track spec)) (word_of_int (rs_last_track spec)) of
          Inl e \<Rightarrow> Inl (refuse plan_init
             (if e = ERR_NOTFOUND then PLAN_TRACKS_NOT_FOUND
              else if e = ERR_UNSUPPORTED then PLAN_TRACKS_CROSS_SESSION else PLAN_TRACKS_NO_EXTENT))
        | Inr (tlba, tcount) \<Rightarrow>
            let start' = (if \<not> have_start then uint tlba else start);
                cnt' = (if cnt < 0 then uint tlba + uint tcount - start' else cnt);
                out = (case find (\<lambda>t. trk_number t = word_of_int (rs_first_track spec)) (toc_tracks toc) of
                         Some t \<Rightarrow> plan_init\<lparr>rp_session := trk_session t\<rparr> | None \<Rightarrow> plan_init)
            in Inr (out, start', cnt'))"

text \<open>The session asked for, or the only one with audio when nothing was asked for.\<close>

definition choose_session :: "accudisc_toc \<Rightarrow> accudisc_range_spec \<Rightarrow> bool \<Rightarrow> int \<Rightarrow> plan_result + int" where
  "choose_session toc spec have_start cnt =
     (if rs_session spec < 0 \<and> \<not> have_start \<and> cnt < 0 then
        case accudisc_toc_default_audio_session toc of
          Inl e \<Rightarrow> if e = ERR_UNSUPPORTED then Inl (refuse plan_init PLAN_MULTIPLE_AUDIO_SESSIONS)
            else if e = ERR_NOTFOUND then Inl (refuse plan_init PLAN_NO_AUDIO_SESSION)
            else Inr (rs_session spec)
        | Inr s \<Rightarrow> Inr (if uint s > 0 then uint s else rs_session spec)
      else Inr (rs_session spec))"

definition plan_session :: "accudisc_toc \<Rightarrow> accudisc_range_spec \<Rightarrow> bool \<Rightarrow> int \<Rightarrow> int \<Rightarrow> plan_branch" where
  "plan_session toc spec have_start start cnt =
     (case choose_session toc spec have_start cnt of
        Inl r \<Rightarrow> Inl r
      | Inr session \<Rightarrow>
          if session > 0 then
            case accudisc_toc_session_audio_range toc (word_of_int session) of
              Inl e \<Rightarrow> Inl (refuse plan_init
                 (if e = ERR_UNSUPPORTED then PLAN_SESSION_SPLIT_BY_DATA else PLAN_SESSION_NOT_FOUND))
            | Inr (slba, scount) \<Rightarrow>
                let start' = (if \<not> have_start then uint slba else start);
                    cnt' = (if cnt < 0 then uint slba + uint scount - start' else cnt)
                in Inr (plan_init\<lparr>rp_session := word_of_int session\<rparr>, start', cnt')
          else if cnt < 0 then
            if start \<ge> uint (toc_leadout_lba toc)
            then Inl (refuse (plan_init\<lparr>rp_lba := word_of_int start\<rparr>) PLAN_START_PAST_LEADOUT)
            else Inr (plan_init, start, uint (toc_leadout_lba toc) - start)
          else Inr (plan_init, start, cnt))"

definition plan_finish :: "accudisc_toc \<Rightarrow> accudisc_range_spec \<Rightarrow> accudisc_range_plan \<Rightarrow> int \<Rightarrow> int \<Rightarrow> plan_result" where
  "plan_finish toc spec out0 start cnt =
     (let out1 = out0\<lparr>rp_resolved_count := cnt\<rparr>
      in if cnt \<le> 0 then refuse (out1\<lparr>rp_lba := word_of_int start\<rparr>) PLAN_EMPTY_RANGE
         else if start > 2 ^ 32 - 1 \<or> cnt > 2 ^ 32 - 1 \<or> start + cnt > 2 ^ 32 - 1 + 1 then (out1, Some ERR_INVAL)
         else let out2 = out1\<lparr>rp_lba := word_of_int start, rp_count := word_of_int cnt\<rparr>
              in if rs_force spec then (out2\<lparr>rp_plan_reason := PLAN_OK\<rparr>, None)
                 else case accudisc_check_audio_range toc (rp_lba out2) (rp_count out2) of
                     (check, None) \<Rightarrow> (out2\<lparr>rp_check := check, rp_plan_reason := PLAN_OK\<rparr>, None)
                   | (check, Some _) \<Rightarrow> refuse (out2\<lparr>rp_check := check\<rparr>) PLAN_GUARD_REFUSED)"

definition plan_resolve :: "accudisc_toc \<Rightarrow> accudisc_range_spec \<Rightarrow> plan_result" where
  "plan_resolve toc spec =
     (if rs_start spec < - 1 \<or> rs_count spec < - 1 then (plan_init, Some ERR_INVAL)
      else let have_start = (rs_start spec \<ge> 0);
               start = (if have_start then rs_start spec else 0);
               cnt = rs_count spec
           in case (if rs_first_track spec > 0 then plan_tracks toc spec have_start start cnt
                    else plan_session toc spec have_start start cnt) of
               Inl r \<Rightarrow> r
             | Inr (out, start', cnt') \<Rightarrow> plan_finish toc spec out start' cnt')"

definition accudisc_plan_read_range :: "accudisc_toc \<Rightarrow> (nat \<Rightarrow> u8) \<Rightarrow> plan_result" where
  "accudisc_plan_read_range toc mem =
     (case adsc_abi_import range_spec_size mem (le_nat (map mem [0..<4])) of
        Inl e \<Rightarrow> (plan_init, Some e)
      | Inr bs \<Rightarrow> plan_resolve toc (range_spec_of bs))"

section \<open>Refusals\<close>

definition plan_coherent :: "plan_result \<Rightarrow> bool" where
  "plan_coherent r \<longleftrightarrow> (case r of (out, err) \<Rightarrow>
     (err = None \<longleftrightarrow> rp_plan_reason out = PLAN_OK) \<and>
     (err = Some ERR_UNSUPPORTED \<longleftrightarrow> rp_plan_reason out \<notin> {PLAN_OK, PLAN_BAD_ARGUMENT}) \<and>
     (err \<in> {None, Some ERR_UNSUPPORTED, Some ERR_INVAL, Some ERR_ABI}) \<and>
     (err = None \<longrightarrow> rp_count out \<noteq> 0 \<and> rp_resolved_count out = uint (rp_count out) \<and>
        uint (rp_lba out) + uint (rp_count out) \<le> 2 ^ 32))"

lemma coherent_refuse: "why \<notin> {PLAN_OK, PLAN_BAD_ARGUMENT} \<Longrightarrow> plan_coherent (refuse out why)"
  by (simp add: plan_coherent_def refuse_def)

lemma coherent_init: "e \<in> {ERR_INVAL, ERR_ABI} \<Longrightarrow> plan_coherent (plan_init, Some e)"
  by (auto simp: plan_coherent_def plan_init_def)

text \<open>What a branch that goes on hands over: an untouched reason and a start that is no error.\<close>

definition branch_ok :: "plan_branch \<Rightarrow> bool" where
  "branch_ok b \<longleftrightarrow> (case b of Inl r \<Rightarrow> plan_coherent r
     | Inr (out, start, cnt) \<Rightarrow> rp_plan_reason out = PLAN_BAD_ARGUMENT \<and> 0 \<le> start)"

lemma plan_init_reason [simp]: "rp_plan_reason plan_init = PLAN_BAD_ARGUMENT"
  by (simp add: plan_init_def)

lemma tracks_branch_ok: "0 \<le> start \<Longrightarrow> branch_ok (plan_tracks toc spec hs start cnt)"
  by (auto simp: plan_tracks_def branch_ok_def Let_def plan_coherent_def refuse_def
      split: sum.splits option.splits)

lemma choose_session_coherent: "choose_session toc spec hs cnt = Inl r \<Longrightarrow> plan_coherent r"
  by (auto simp: choose_session_def coherent_refuse split: sum.splits if_splits)

lemma session_branch_ok: "0 \<le> start \<Longrightarrow> branch_ok (plan_session toc spec hs start cnt)"
  using choose_session_coherent [of toc spec hs cnt]
  by (auto simp: plan_session_def branch_ok_def Let_def plan_coherent_def refuse_def split: sum.splits)

lemma finish_coherent:
  assumes "rp_plan_reason out = PLAN_BAD_ARGUMENT" and "0 \<le> start"
  shows "plan_coherent (plan_finish toc spec out start cnt)"
proof -
  consider "cnt \<le> 0" | "0 < cnt" "start > 2 ^ 32 - 1 \<or> cnt > 2 ^ 32 - 1 \<or> start + cnt > 2 ^ 32 - 1 + 1"
    | "0 < cnt" "start \<le> 2 ^ 32 - 1" "cnt \<le> 2 ^ 32 - 1" "start + cnt \<le> 2 ^ 32" by linarith
  then show ?thesis
  proof cases
    case 1
    then show ?thesis by (simp add: plan_finish_def Let_def coherent_refuse)
  next
    case 2
    then have "plan_finish toc spec out start cnt = (out\<lparr>rp_resolved_count := cnt\<rparr>, Some ERR_INVAL)"
      by (simp add: plan_finish_def Let_def)
    then show ?thesis using assms(1) by (simp add: plan_coherent_def)
  next
    case 3
    then have u: "uint (word_of_int start :: u32) = start" "uint (word_of_int cnt :: u32) = cnt"
      using assms(2) by (simp_all add: uint_word_of_int_eq take_bit_int_eq_self)
    then have "(word_of_int cnt :: u32) \<noteq> 0" using 3(1) by (metis less_irrefl unsigned_0)
    then show ?thesis
      using 3 u
      by (cases "accudisc_check_audio_range toc (word_of_int start) (word_of_int cnt)")
        (auto simp: plan_finish_def Let_def plan_coherent_def refuse_def split: option.splits)
  qed
qed

lemma resolve_coherent: "plan_coherent (plan_resolve toc spec)"
proof -
  define start where "start = (if rs_start spec \<ge> 0 then rs_start spec else 0)"
  define b where "b = (if rs_first_track spec > 0 then plan_tracks toc spec (rs_start spec \<ge> 0) start (rs_count spec)
      else plan_session toc spec (rs_start spec \<ge> 0) start (rs_count spec))"
  have "0 \<le> start" by (simp add: start_def)
  then have "branch_ok b" by (simp add: b_def tracks_branch_ok session_branch_ok)
  moreover have "plan_resolve toc spec = (if rs_start spec < - 1 \<or> rs_count spec < - 1 then (plan_init, Some ERR_INVAL)
      else case b of Inl r \<Rightarrow> r | Inr (out, start', cnt') \<Rightarrow> plan_finish toc spec out start' cnt')"
    by (simp add: plan_resolve_def b_def start_def Let_def)
  ultimately show ?thesis
    by (auto simp: branch_ok_def coherent_init finish_coherent split: sum.splits)
qed

lemma abi_import_err: "adsc_abi_import range_spec_size mem n = Inl e \<Longrightarrow> e = ERR_ABI"
  by (auto simp: adsc_abi_import_def range_spec_size_def Let_def split: if_splits)

text \<open>
  The return code and the reason never disagree. Success and only success has reason OK; the
  refusals and only they return ERR_UNSUPPORTED; everything else is a bad argument or a bad
  struct size. A successful plan is a non-empty range that fits 32-bit addresses.
\<close>

theorem plan_result_coherent: "plan_coherent (accudisc_plan_read_range toc mem)"
  by (auto simp: accudisc_plan_read_range_def resolve_coherent coherent_init dest: abi_import_err split: sum.splits)

section \<open>Accepted plans\<close>

lemma finish_guarded:
  assumes "plan_finish toc spec out0 start cnt = (out, None)" and "\<not> rs_force spec"
  shows "accudisc_check_audio_range toc (rp_lba out) (rp_count out) = (rp_check out, None)"
  using assms
  by (auto simp: plan_finish_def Let_def refuse_def split: if_splits prod.splits option.splits)

lemma branch_not_accepted:
  "plan_tracks toc spec hs start cnt = Inl (out, None) \<Longrightarrow> False"
  "plan_session toc spec hs start cnt = Inl (out, None) \<Longrightarrow> False"
  by (auto simp: plan_tracks_def plan_session_def choose_session_def refuse_def Let_def split: if_splits sum.splits prod.splits)

lemma resolve_guarded:
  assumes "plan_resolve toc spec = (out, None)" and "\<not> rs_force spec"
  shows "accudisc_check_audio_range toc (rp_lba out) (rp_count out) = (rp_check out, None)"
  using assms branch_not_accepted
  by (fastforce simp: plan_resolve_def Let_def split: if_splits sum.splits prod.splits intro: finish_guarded)

text \<open>The request sets \<open>force\<close>, and is long enough to have it.\<close>

definition asks_force :: "(nat \<Rightarrow> u8) \<Rightarrow> bool" where
  "asks_force mem \<longleftrightarrow> 32 < le_nat (map mem [0..<4]) \<and> mem 32 \<noteq> 0"

lemma imported_force:
  assumes "adsc_abi_import range_spec_size mem (le_nat (map mem [0..<4])) = Inr bs"
  shows "rs_force (range_spec_of bs) = asks_force mem"
  using abi_import_Inr(6) [OF _ _ assms, of 32]
  by (simp add: range_spec_size_def range_spec_of_def asks_force_def)


section \<open>The default plan\<close>

lemma audio_span_all:
  assumes "\<forall>t \<in> set ts. trk_session t = n \<and> track_is_audio t" and "ts \<noteq> []"
  shows "audio_span n ts acc =
    Inr (Some (case acc of None \<Rightarrow> hd ts | Some (a, _) \<Rightarrow> a, last ts))"
  using assms
proof (induction ts arbitrary: acc)
  case (Cons t ts)
  then show ?case by (cases "ts = []") (auto split: option.splits)
qed simp

lemma disc_table_geometry:
  assumes "honest_disc first trks leadout"
  shows "geometry_ok (disc_table first trks leadout)"
  using toc_parse_geometry_ok [OF format0_parse [OF assms]]
  unfolding synthesise_disc [OF assms, symmetric]
  by (intro synthesise_geometry_ok) (simp_all add: geometry_ok_total table_complete_total)

lemma disc_table_fields:
  "toc_leadout_lba (disc_table first trks leadout) = leadout"
  "toc_sessions (disc_table first trks leadout) = [disc_session first trks leadout]"
  "toc_anomalies (disc_table first trks leadout) = 0"
  "toc_tracks (disc_table first trks leadout) = map (tiled_track leadout (disc_tracks 1 first trks)) [0..<length trks]"
  by (simp_all add: disc_table_def disc_toc_def)

lemma disc_table_track:
  assumes "i < length trks"
  shows "toc_tracks (disc_table first trks leadout) ! i =
    \<lparr>trk_number = first + word_of_nat i, trk_adr_ctrl = fst (trks ! i), trk_session = 1, trk_lba = snd (trks ! i),
     trk_sectors = (if i + 1 < length trks then snd (trks ! (i + 1)) else leadout) - snd (trks ! i),
     trk_pregap = (if i = 0 then snd (trks ! 0) else 0)\<rparr>"
proof -
  have "0 < length trks" using assms by (rule order.strict_trans1 [OF le0])
  then show ?thesis
    using assms by (simp del: length_greater_0_conv add: disc_table_fields tiled_track_def next_start_def disc_tracks_nth raw_track_def track_zero_def)
qed

text \<open>Every sector of the disc is owned.\<close>

lemma disc_table_owned:
  assumes "trks \<noteq> []" and "q < leadout"
  shows "\<exists>t \<in> set (toc_tracks (disc_table first trks leadout)). owns t q \<and> trk_session t = 1 \<and>
    (\<exists>r \<in> set trks. trk_adr_ctrl t = fst r)"
proof -
  let ?P = "\<lambda>i. i < length trks \<and> (i = 0 \<or> snd (trks ! i) \<le> q)"
  have "?P 0" using assms(1) by simp
  moreover have bound: "\<forall>i. ?P i \<longrightarrow> i \<le> length trks" by simp
  ultimately have i: "?P (GREATEST i. ?P i)" and max: "\<And>j. ?P j \<Longrightarrow> j \<le> (GREATEST i. ?P i)"
    using GreatestI_nat [of ?P 0 "length trks"] Greatest_le_nat [of ?P _ "length trks"] by blast+
  define i where "i = (GREATEST i. ?P i)"
  have "\<not> ?P (i + 1)" using max [of "i + 1"] by (auto simp: i_def)
  then have above: "q < (if i + 1 < length trks then snd (trks ! (i + 1)) else leadout)"
    using assms(2) by auto
  let ?t = "toc_tracks (disc_table first trks leadout) ! i"
  have len: "i < length trks" using i by (simp add: i_def)
  then have "?t \<in> set (toc_tracks (disc_table first trks leadout))"
    by (intro nth_mem) (simp add: disc_table_fields)
  moreover have "owns ?t q"
    using i above by (auto simp: owns_def disc_table_track [OF len] i_def [symmetric])
  moreover have "trk_session ?t = 1" "trk_adr_ctrl ?t = fst (trks ! i)"
    by (simp_all add: disc_table_track [OF len])
  ultimately show ?thesis using nth_mem [OF len] by blast
qed

definition default_spec :: accudisc_range_spec where
  "default_spec = \<lparr>rs_session = - 1, rs_first_track = - 1, rs_last_track = - 1, rs_start = - 1,
     rs_count = - 1, rs_force = False\<rparr>"

text \<open>
  Asking for nothing reads the whole disc. On a single-session audio disc, whose table any
  rung of the ladder yields, the default request is planned as sector 0 (the first track's pregap
  included) up to the lead-out, in session 1, and the guard passes it.
\<close>

theorem default_plan_whole_disc:
  assumes honest: "honest_disc first trks leadout" and audio: "\<forall>t \<in> set trks. fst t AND 0x04 = 0"
  shows "plan_resolve (disc_table first trks leadout) default_spec =
    (\<lparr>rp_lba = 0, rp_count = leadout, rp_resolved_count = uint leadout, rp_session = 1,
      rp_plan_reason = PLAN_OK, rp_check = fst (accept 1)\<rparr>, None)"
proof -
  let ?toc = "disc_table first trks leadout"
  let ?ts = "toc_tracks ?toc" and ?n = "length trks - 1"
  have ne: "trks \<noteq> []" using honest by (simp add: honest_disc_def)
  then have n: "?n < length trks" "0 < length trks" and len: "length ?ts = length trks"
    by (simp_all add: disc_table_fields)
  have sess: "toc_sessions ?toc = [disc_session first trks leadout]" by (rule disc_table_fields)
  have lead: "0 < leadout"
    using honest ne by (cases trks) (auto simp: honest_disc_def intro: le_less_trans [OF word_zero_le])
  have "ses_audio_tracks (disc_session first trks leadout) \<noteq> 0"
  proof -
    have "filter (\<lambda>t. fst t AND 0x04 = 0) trks = trks" using audio by simp
    moreover have "unat (word_of_nat (length trks) :: u8) = length trks"
      using honest_length [OF honest] by (rule unat_of_nat_small)
    ultimately show ?thesis using ne by (auto simp: disc_session_def)
  qed
  then have dflt: "accudisc_toc_default_audio_session ?toc = Inr 1"
    by (simp add: accudisc_toc_default_audio_session_def sess audio_session_step_def disc_session_def)
  have all: "\<forall>t \<in> set ?ts. trk_session t = 1 \<and> track_is_audio t"
    using audio by (auto simp: in_set_conv_nth [of _ ?ts] len disc_table_track track_is_audio_def)
  have "?ts \<noteq> []" using n(2) len by auto
  then have "hd ?ts = ?ts ! 0" "last ?ts = ?ts ! ?n"
    by (simp_all add: hd_conv_nth last_conv_nth len)
  then have span: "audio_span 1 ?ts None = Inr (Some (?ts ! 0, ?ts ! ?n))"
    using audio_span_all [OF all \<open>?ts \<noteq> []\<close>] by simp
  have "\<not> ?n + 1 < length trks" by simp
  then have b: "trk_lba (?ts ! ?n) + trk_sectors (?ts ! ?n) = leadout" "trk_sectors (?ts ! ?n) \<noteq> 0"
    using honest nth_mem [OF n(1)] unfolding disc_table_track [OF n(1)] by (auto simp: honest_disc_def)
  have a: "trk_lba (?ts ! 0) - trk_pregap (?ts ! 0) = 0"
    by (simp add: disc_table_track [OF n(2)])
  have range: "accudisc_toc_session_audio_range ?toc 1 = Inr (0, leadout)"
    using b by (simp add: accudisc_toc_session_audio_range_def find_session_def sess disc_session_def span
        span_range_def a)
  have guard: "accudisc_check_audio_range ?toc 0 leadout = accept 1"
  proof (rule check_range_complete [OF disc_table_geometry [OF honest]])
    show "table_complete ?toc"
      using all by (simp add: table_complete_def sess disc_session_def)
    fix q :: u32 assume "unat q < unat (0 :: u32) + unat leadout"
    then have "q < leadout" by (simp add: word_less_nat_alt)
    then show "\<exists>t \<in> set ?ts. owns t q \<and> track_is_audio t \<and> trk_session t = 1"
      using disc_table_owned [OF ne] audio by (fastforce simp: track_is_audio_def)
  qed (use lead in \<open>simp_all add: disc_table_fields\<close>)
  have "0 < uint leadout" using lead by (simp add: word_less_def)
  moreover have "uint leadout < 4294967296"
    using unsigned_less [of leadout, where 'a = int] by simp
  ultimately show ?thesis
    using dflt range guard
    by (simp add: plan_resolve_def default_spec_def plan_session_def choose_session_def plan_finish_def Let_def
        plan_init_def accept_def)
qed

theorem default_plan_whole_disc_witness:
  "plan_resolve (disc_table 1 [(0, 150), (0, 9000)] 20000) default_spec =
    (\<lparr>rp_lba = 0, rp_count = 20000, rp_resolved_count = 20000, rp_session = 1,
      rp_plan_reason = PLAN_OK, rp_check = fst (accept 1)\<rparr>, None)"
  using default_plan_whole_disc [of 1 "[(0, 150), (0, 9000)]" 20000]
  by (simp add: honest_disc_def)

text \<open>A request in memory: \<open>size\<close> 32, so without \<open>force\<close>; start 990, count 20.\<close>

definition sample_request_bytes :: "u8 list" where
  "sample_request_bytes = [32, 0, 0, 0, 0xFF, 0xFF, 0xFF, 0xFF, 0, 0, 0, 0, 0, 0, 0, 0,
     222, 3, 0, 0, 0, 0, 0, 0, 20, 0, 0, 0, 0, 0, 0, 0, 1]"

definition sample_request :: "nat \<Rightarrow> u8" where
  "sample_request i = sample_request_bytes ! i"

definition sample_bytes :: "u8 list" where
  "sample_bytes = [40, 0, 0, 0, 0xFF, 0xFF, 0xFF, 0xFF, 0, 0, 0, 0, 0, 0, 0, 0,
     222, 3, 0, 0, 0, 0, 0, 0, 20, 0, 0, 0, 0, 0, 0, 0, 0, 0, 0, 0, 0, 0, 0, 0]"


text \<open>
  A session number outside a byte is not refused. The request names session 257, the cast to
  \<open>uint8_t\<close> makes it session 1, and the plan reads session 1's audio as if it had been asked for.
\<close>

theorem plan_session_truncated:
  "plan_resolve sample_toc (default_spec\<lparr>rs_session := 257\<rparr>) = plan_resolve sample_toc (default_spec\<lparr>rs_session := 1\<rparr>) \<and>
   snd (plan_resolve sample_toc (default_spec\<lparr>rs_session := 257\<rparr>)) = None"
proof
  show "snd (plan_resolve sample_toc (default_spec\<lparr>rs_session := 257\<rparr>)) = None" by code_simp
  show "plan_resolve sample_toc (default_spec\<lparr>rs_session := 257\<rparr>) = plan_resolve sample_toc (default_spec\<lparr>rs_session := 1\<rparr>)"
    by code_simp
qed

end
