(* ===== verification/Layout.thy ===== *)
theory Layout
  imports SubQ
begin

text \<open>
  Record layout of a combined C2 and subchannel read: \<^verbatim>\<open>src/cdda/layout.c\<close>. The model
  takes the buffer as a byte list and the sizes as numbers below \<open>2^32\<close>, and writes the 32-bit
  wrap-around out (\<open>wrap32\<close>). The results: the rewrite of a SUB_FIRST buffer gives the
  standard's order record by record, the inspection names the order of a well-formed buffer, and
  it finds the stride of a transfer that padded its records.
\<close>

definition wrap32 :: "nat \<Rightarrow> nat" where
  "wrap32 n = n mod 2 ^ 32"

lemma wrap32_small [simp]: "n < 2 ^ 32 \<Longrightarrow> wrap32 n = n"
  by (simp add: wrap32_def)

abbreviation SUB_RAW :: nat where "SUB_RAW \<equiv> 96"
abbreviation SUB_Q :: nat where "SUB_Q \<equiv> 16"
abbreviation AUDIO :: nat where "AUDIO \<equiv> 2352"

definition misframe_span :: nat where "misframe_span = 16"
definition misframe_min_sectors :: nat where "misframe_min_sectors = 4"

section \<open>Evidence: CRC-valid Q frames\<close>

definition q_valid :: "u8 list \<Rightarrow> nat \<Rightarrow> bool" where
  "q_valid sub sub_len =
     q_crc_ok (fst (accudisc_q_parse
       (if sub_len = SUB_RAW then accudisc_sub_extract_q sub else take 12 sub)))"

definition sub_len_ok :: "nat \<Rightarrow> bool" where
  "sub_len_ok sub_len \<longleftrightarrow> sub_len = SUB_RAW \<or> sub_len = SUB_Q"

text \<open>The loop over the records: it stops at the first window that would run past the buffer.\<close>

fun q_hits_loop :: "u8 list \<Rightarrow> nat \<Rightarrow> nat \<Rightarrow> nat \<Rightarrow> nat \<Rightarrow> nat list \<Rightarrow> nat" where
  "q_hits_loop buf buf_len stride sub_off sub_len [] = 0"
| "q_hits_loop buf buf_len stride sub_off sub_len (s # ss) =
     (let at = s * stride + sub_off in
      if at + sub_len > buf_len then 0
      else (if q_valid (drop at buf) sub_len then 1 else 0)
           + q_hits_loop buf buf_len stride sub_off sub_len ss)"

definition adsc_layout_q_hits :: "u8 list \<Rightarrow> nat \<Rightarrow> nat \<Rightarrow> nat \<Rightarrow> nat \<Rightarrow> nat \<Rightarrow> nat" where
  "adsc_layout_q_hits buf buf_len nsec stride sub_off sub_len =
     (if \<not> sub_len_ok sub_len then 0
      else q_hits_loop buf buf_len stride sub_off sub_len [0..<nsec])"

section \<open>The verdict\<close>

datatype adsc_layout = LAYOUT_UNKNOWN | LAYOUT_MMC | LAYOUT_SUB_FIRST

definition winner :: "nat \<Rightarrow> nat \<Rightarrow> adsc_layout" where
  "winner mmc sub =
     (if mmc > 0 \<and> wrap32 (sub * 3) \<le> mmc then LAYOUT_MMC
      else if sub > 0 \<and> wrap32 (mmc * 3) \<le> sub then LAYOUT_SUB_FIRST
      else LAYOUT_UNKNOWN)"

record adsc_layout_verdict =
  lv_layout :: adsc_layout
  lv_hits_mmc :: nat
  lv_hits_sub :: nat
  lv_misframed :: nat

definition verdict_zero :: adsc_layout_verdict where
  "verdict_zero = \<lparr> lv_layout = LAYOUT_UNKNOWN, lv_hits_mmc = 0, lv_hits_sub = 0,
     lv_misframed = 0 \<rparr>"

text \<open>
  Candidates of the stride search in the order of the two nested loops: every stride up to
  \<open>sector_len + 16\<close>, and for each of them the standard's order first. (The list equals the C loop
  for every \<open>sector_len\<close> but \<open>2^32 - 17\<close>, where the C loop would not end; no buffer of four such
  records exists.)
\<close>

definition misframe_candidates :: "nat \<Rightarrow> nat \<Rightarrow> (nat \<times> nat) list" where
  "misframe_candidates sector_len c2_len =
     concat (map (\<lambda>stride. [(stride, wrap32 (AUDIO + c2_len)), (stride, AUDIO)])
       [wrap32 (sector_len + 1) ..< Suc (wrap32 (sector_len + misframe_span))])"

text \<open>Hits of a candidate in the records after the first.\<close>

definition tail_hits :: "u8 list \<Rightarrow> nat \<Rightarrow> nat \<Rightarrow> nat \<Rightarrow> nat \<times> nat \<Rightarrow> nat" where
  "tail_hits buf len nsec sub_len c =
     (case c of (stride, off) \<Rightarrow>
       wrap32 (adsc_layout_q_hits buf len nsec stride off sub_len + 2 ^ 32
               - (if q_valid (drop off buf) sub_len then 1 else 0)))"

definition explains :: "u8 list \<Rightarrow> nat \<Rightarrow> nat \<Rightarrow> nat \<Rightarrow> nat \<times> nat \<Rightarrow> bool" where
  "explains buf len nsec sub_len c \<longleftrightarrow>
     wrap32 (tail_hits buf len nsec sub_len c * 2) \<ge> nsec - 1
     \<and> tail_hits buf len nsec sub_len c \<ge> 2"

definition adsc_layout_inspect :: "u8 list \<Rightarrow> nat \<Rightarrow> nat \<Rightarrow> nat \<Rightarrow> adsc_layout_verdict" where
  "adsc_layout_inspect buf nsec sector_len c2_len =
     (let len = wrap32 (nsec * sector_len);
          sub_len = wrap32 (sector_len + 2 ^ 32 - wrap32 (AUDIO + c2_len))
      in
      if sector_len < wrap32 (AUDIO + c2_len) then verdict_zero
      else if \<not> sub_len_ok sub_len then verdict_zero
      else
        let mmc = adsc_layout_q_hits buf len nsec sector_len (wrap32 (AUDIO + c2_len)) sub_len;
            sub = adsc_layout_q_hits buf len nsec sector_len AUDIO sub_len;
            v = \<lparr> lv_layout = winner mmc sub, lv_hits_mmc = mmc, lv_hits_sub = sub,
                  lv_misframed = 0 \<rparr>;
            best = (if mmc > sub then mmc else sub)
        in
        if nsec < misframe_min_sectors \<or> wrap32 (best * 2) \<ge> nsec then v
        else case find (explains buf len nsec sub_len) (misframe_candidates sector_len c2_len) of
          None \<Rightarrow> v
        | Some (stride, off) \<Rightarrow>
            v\<lparr> lv_misframed := stride, lv_layout := LAYOUT_UNKNOWN \<rparr>)"

section \<open>Rewriting to the standard's order\<close>

definition swap_record :: "nat \<Rightarrow> nat \<Rightarrow> u8 list \<Rightarrow> u8 list" where
  "swap_record sub_len c2_len rec =
     (let sub = take sub_len rec; c2 = take c2_len (drop sub_len rec)
      in c2 @ sub @ drop (sub_len + c2_len) rec)"

fun to_mmc_loop :: "nat \<Rightarrow> nat \<Rightarrow> nat \<Rightarrow> nat \<Rightarrow> u8 list \<Rightarrow> u8 list" where
  "to_mmc_loop 0 sector_len sub_len c2_len buf = buf"
| "to_mmc_loop (Suc n) sector_len sub_len c2_len buf =
     (let buf' = take AUDIO buf @ swap_record sub_len c2_len (drop AUDIO buf)
      in take sector_len buf'
         @ to_mmc_loop n sector_len sub_len c2_len (drop sector_len buf'))"

definition adsc_layout_to_mmc :: "u8 list \<Rightarrow> nat \<Rightarrow> nat \<Rightarrow> nat \<Rightarrow> u8 list" where
  "adsc_layout_to_mmc buf nsec sector_len c2_len =
     (if sector_len < wrap32 (AUDIO + c2_len) then buf
      else
        let sub_len = wrap32 (sector_len + 2 ^ 32 - wrap32 (AUDIO + c2_len)) in
        if \<not> sub_len_ok sub_len then buf
        else to_mmc_loop nsec sector_len sub_len c2_len buf)"

section \<open>The rewrite is correct\<close>

text \<open>A record as its three fields.\<close>

datatype combo = Combo (c_audio: "u8 list") (c_c2: "u8 list") (c_sub: "u8 list")

definition mmc_record :: "combo \<Rightarrow> u8 list" where
  "mmc_record r = c_audio r @ c_c2 r @ c_sub r"

definition sub_first_record :: "combo \<Rightarrow> u8 list" where
  "sub_first_record r = c_audio r @ c_sub r @ c_c2 r"

definition combo_ok :: "nat \<Rightarrow> nat \<Rightarrow> combo \<Rightarrow> bool" where
  "combo_ok c2_len sub_len r \<longleftrightarrow>
     length (c_audio r) = AUDIO \<and> length (c_c2 r) = c2_len \<and> length (c_sub r) = sub_len"

lemma length_records [simp]:
  assumes "combo_ok c2_len sub_len r"
  shows "length (mmc_record r) = AUDIO + c2_len + sub_len"
    and "length (sub_first_record r) = AUDIO + c2_len + sub_len"
  using assms by (auto simp: combo_ok_def mmc_record_def sub_first_record_def)

lemma to_mmc_loop_records:
  assumes "\<forall>r \<in> set rs. combo_ok c2_len sub_len r"
  shows "to_mmc_loop (length rs) (AUDIO + c2_len + sub_len) sub_len c2_len
           (concat (map sub_first_record rs)) = concat (map mmc_record rs)"
  using assms
proof (induction rs)
  case (Cons r rs)
  then have r: "length (c_audio r) = AUDIO" "length (c_c2 r) = c2_len" "length (c_sub r) = sub_len"
    by (auto simp: combo_ok_def)
  have swap: "take AUDIO (sub_first_record r @ z)
          @ swap_record sub_len c2_len (drop AUDIO (sub_first_record r @ z)) = mmc_record r @ z" for z
    using r by (simp add: sub_first_record_def mmc_record_def swap_record_def)
  have len: "length (mmc_record r) = AUDIO + c2_len + sub_len"
    using Cons.prems by simp
  show ?case
    unfolding list.map concat.simps list.size(4) add_Suc_right add_0_right to_mmc_loop.simps Let_def swap
    using Cons by (simp add: len)
qed simp

lemma sector_split [simp]:
  assumes "c2_len < 2 ^ 31" and "sub_len_ok sub_len"
  shows "wrap32 (AUDIO + c2_len) = AUDIO + c2_len"
    and "wrap32 (AUDIO + c2_len + sub_len + 2 ^ 32 - (AUDIO + c2_len)) = sub_len"
proof -
  show "wrap32 (AUDIO + c2_len) = AUDIO + c2_len"
    using assms by (simp add: wrap32_def)
  have "AUDIO + c2_len + sub_len + 2 ^ 32 - (AUDIO + c2_len) = sub_len + 2 ^ 32"
    by simp
  then show "wrap32 (AUDIO + c2_len + sub_len + 2 ^ 32 - (AUDIO + c2_len)) = sub_len"
    using assms by (auto simp: wrap32_def sub_len_ok_def)
qed

lemma to_mmc_records:
  assumes "c2_len < 2 ^ 31" and "sub_len_ok sub_len" and "\<forall>r \<in> set rs. combo_ok c2_len sub_len r"
  shows "adsc_layout_to_mmc (concat (map sub_first_record rs)) (length rs)
           (AUDIO + c2_len + sub_len) c2_len = concat (map mmc_record rs)"
  using assms to_mmc_loop_records [OF assms(3)]
  by (simp only: adsc_layout_to_mmc_def sector_split Let_def) simp

section \<open>Counting hits\<close>

definition window_fits :: "nat \<Rightarrow> nat \<Rightarrow> nat \<Rightarrow> nat \<Rightarrow> nat \<Rightarrow> bool" where
  "window_fits buf_len stride sub_off sub_len s \<longleftrightarrow> s * stride + sub_off + sub_len \<le> buf_len"

lemma q_hits_loop_eq:
  "q_hits_loop buf buf_len stride sub_off sub_len ss
   = length (filter (\<lambda>s. q_valid (drop (s * stride + sub_off) buf) sub_len)
       (takeWhile (window_fits buf_len stride sub_off sub_len) ss))"
  by (induction ss) (auto simp: Let_def window_fits_def not_le)

lemma q_hits_le: "adsc_layout_q_hits buf buf_len nsec stride sub_off sub_len \<le> nsec"
proof -
  have "length (filter P (takeWhile Q [0..<nsec])) \<le> nsec" for P Q
    using order.trans [OF length_filter_le length_takeWhile_le, of P Q "[0..<nsec]"] by simp
  then show ?thesis by (simp add: adsc_layout_q_hits_def q_hits_loop_eq)
qed

lemma q_valid_take:
  assumes "sub_len_ok sub_len"
  shows "q_valid (take sub_len s @ z) sub_len = q_valid s sub_len \<or> length s < sub_len"
proof (cases "length s < sub_len")
  case False
  have "accudisc_sub_extract_q (take 96 s @ z) = accudisc_sub_extract_q s" if "96 \<le> length s"
    using that by (rule sub_extract_take)
  then show ?thesis
    using assms False by (auto simp: sub_len_ok_def q_valid_def)
qed simp

lemma q_valid_append:
  assumes "sub_len_ok sub_len" and "sub_len \<le> length s"
  shows "q_valid (s @ z) sub_len = q_valid s sub_len"
  using q_valid_take [OF assms(1), of s] q_valid_take [OF assms(1), of "s @ z" "[]"]
    q_valid_take [OF assms(1), of s "[]"] assms(2) by simp

lemma drop_concat_records:
  assumes "\<forall>r \<in> set rs. length (f r) = L" and "s < length rs"
  shows "drop (s * L) (concat (map f rs)) = f (rs ! s) @ concat (map f (drop (Suc s) rs))"
  using assms
proof (induction rs arbitrary: s)
  case (Cons r rs)
  then show ?case by (cases s) auto
qed simp

lemma q_hits_records:
  assumes len: "\<forall>r \<in> set rs. length (f r) = L" and ok: "sub_len_ok sub_len"
    and off: "off + sub_len \<le> L"
  shows "adsc_layout_q_hits (concat (map f rs)) (length rs * L) (length rs) L off sub_len
         = length (filter (\<lambda>r. q_valid (drop off (f r)) sub_len) rs)"
proof -
  have fits: "window_fits (length rs * L) L off sub_len s" if "s < length rs" for s
  proof -
    have "s * L + L \<le> length rs * L"
      using that by (metis Suc_leI add.commute mult_Suc mult_le_mono1)
    then show ?thesis using off by (simp add: window_fits_def)
  qed
  have at: "q_valid (drop (s * L + off) (concat (map f rs))) sub_len
            = q_valid (drop off (f (rs ! s))) sub_len" if s: "s < length rs" for s
  proof -
    have l: "length (f (rs ! s)) = L" using len s by simp
    have "drop (s * L + off) (concat (map f rs)) = drop off (drop (s * L) (concat (map f rs)))"
      by (simp add: add.commute)
    also have "\<dots> = drop off (f (rs ! s)) @ concat (map f (drop (Suc s) rs))"
      using drop_concat_records [OF len s] l off by simp
    finally show ?thesis using q_valid_append [OF ok] l off by simp
  qed
  have "takeWhile (window_fits (length rs * L) L off sub_len) [0..<length rs] = [0..<length rs]"
    using fits by (intro takeWhile_eq_all_conv [THEN iffD2] ballI) simp
  then have "adsc_layout_q_hits (concat (map f rs)) (length rs * L) (length rs) L off sub_len
      = length (filter (\<lambda>s. q_valid (drop off (f (rs ! s))) sub_len) [0..<length rs])"
    using ok at unfolding adsc_layout_q_hits_def q_hits_loop_eq
    by (auto intro!: arg_cong [where f = length] filter_cong)
  also have "\<dots> = length (filter (\<lambda>r. q_valid (drop off (f r)) sub_len) (map ((!) rs) [0..<length rs]))"
    by (simp only: filter_map length_map comp_def)
  finally show ?thesis by (simp add: map_nth)
qed

section \<open>What the inspection sees in well-formed records\<close>

definition sub_hits :: "nat \<Rightarrow> combo list \<Rightarrow> nat" where
  "sub_hits sub_len rs = length (filter (\<lambda>r. q_valid (c_sub r) sub_len) rs)"

text \<open>Accidental hits: a CRC that verifies where the other model would have the subchannel.\<close>

definition stray_hits :: "nat \<Rightarrow> bool \<Rightarrow> combo list \<Rightarrow> nat" where
  "stray_hits sub_len sub_first rs =
     length (filter (\<lambda>r. q_valid (if sub_first then drop (length (c_c2 r)) (c_sub r @ c_c2 r)
                                  else c_c2 r @ c_sub r) sub_len) rs)"

lemma hits_of_mmc:
  assumes ok: "sub_len_ok sub_len" and rs: "\<forall>r \<in> set rs. combo_ok c2_len sub_len r"
  defines "L \<equiv> AUDIO + c2_len + sub_len"
  shows "adsc_layout_q_hits (concat (map mmc_record rs)) (length rs * L) (length rs) L
           (AUDIO + c2_len) sub_len = sub_hits sub_len rs"
    and "adsc_layout_q_hits (concat (map mmc_record rs)) (length rs * L) (length rs) L
           AUDIO sub_len = stray_hits sub_len False rs"
proof -
  have len: "\<forall>r \<in> set rs. length (mmc_record r) = L"
    using rs length_records(1) by (auto simp: L_def)
  have d: "drop (AUDIO + c2_len) (mmc_record r) = c_sub r" "drop AUDIO (mmc_record r) = c_c2 r @ c_sub r"
    if "r \<in> set rs" for r
    using rs that by (auto simp: combo_ok_def mmc_record_def)
  show "adsc_layout_q_hits (concat (map mmc_record rs)) (length rs * L) (length rs) L
           (AUDIO + c2_len) sub_len = sub_hits sub_len rs"
    using d by (subst q_hits_records [OF len ok])
      (auto simp: L_def sub_hits_def cong: filter_cong)
  show "adsc_layout_q_hits (concat (map mmc_record rs)) (length rs * L) (length rs) L
           AUDIO sub_len = stray_hits sub_len False rs"
    using d by (subst q_hits_records [OF len ok])
      (auto simp: L_def stray_hits_def cong: filter_cong)
qed

lemma hits_of_sub_first:
  assumes ok: "sub_len_ok sub_len" and rs: "\<forall>r \<in> set rs. combo_ok c2_len sub_len r"
  defines "L \<equiv> AUDIO + c2_len + sub_len"
  shows "adsc_layout_q_hits (concat (map sub_first_record rs)) (length rs * L) (length rs) L
           AUDIO sub_len = sub_hits sub_len rs"
    and "adsc_layout_q_hits (concat (map sub_first_record rs)) (length rs * L) (length rs) L
           (AUDIO + c2_len) sub_len = stray_hits sub_len True rs"
proof -
  have len: "\<forall>r \<in> set rs. length (sub_first_record r) = L"
    using rs length_records(2) by (auto simp: L_def)
  have d1: "q_valid (drop AUDIO (sub_first_record r)) sub_len = q_valid (c_sub r) sub_len"
    if "r \<in> set rs" for r
    using rs that q_valid_append [OF ok, of "c_sub r" "c_c2 r"]
    by (auto simp: combo_ok_def sub_first_record_def)
  have d2: "drop (AUDIO + c2_len) (sub_first_record r) = drop (length (c_c2 r)) (c_sub r @ c_c2 r)"
    if "r \<in> set rs" for r
    using rs that by (auto simp: combo_ok_def sub_first_record_def)
  show "adsc_layout_q_hits (concat (map sub_first_record rs)) (length rs * L) (length rs) L
           AUDIO sub_len = sub_hits sub_len rs"
    using d1 by (subst q_hits_records [OF len ok])
      (auto simp: L_def sub_hits_def cong: filter_cong)
  show "adsc_layout_q_hits (concat (map sub_first_record rs)) (length rs * L) (length rs) L
           (AUDIO + c2_len) sub_len = stray_hits sub_len True rs"
    using d2 by (subst q_hits_records [OF len ok])
      (auto simp: L_def stray_hits_def cong: filter_cong)
qed

lemma inspect_records:
  assumes "sub_len_ok sub_len" and "c2_len < 2 ^ 31" and "n * (AUDIO + c2_len + sub_len) < 2 ^ 32"
    and "mmc = adsc_layout_q_hits buf (n * (AUDIO + c2_len + sub_len)) n
                 (AUDIO + c2_len + sub_len) (AUDIO + c2_len) sub_len"
    and "sub = adsc_layout_q_hits buf (n * (AUDIO + c2_len + sub_len)) n
                 (AUDIO + c2_len + sub_len) AUDIO sub_len"
    and "n \<le> max mmc sub * 2"
  shows "adsc_layout_inspect buf n (AUDIO + c2_len + sub_len) c2_len
         = \<lparr> lv_layout = winner mmc sub, lv_hits_mmc = mmc, lv_hits_sub = sub, lv_misframed = 0 \<rparr>"
proof -
  have "n * 2352 < 2 ^ 32" using assms(3) by (simp add: algebra_simps)
  moreover have "mmc \<le> n" "sub \<le> n" using assms(4,5) q_hits_le by auto
  ultimately have small: "wrap32 ((if mmc > sub then mmc else sub) * 2)
      = (if mmc > sub then mmc else sub) * 2" by simp
  show ?thesis
    unfolding adsc_layout_inspect_def Let_def
    by (simp only: sector_split [OF assms(2,1)] wrap32_small [OF assms(3)]
        assms(4,5) [symmetric] small assms(1)) (use assms(6) in \<open>auto simp: max_def\<close>)
qed

text \<open>
  C27: the inspection names the order of a buffer of well-formed records. When at least half of the
  records carry a CRC-valid Q frame, and at most a third as many CRCs verify by accident at the
  other position, a buffer in the standard's order is reported MMC, one with the subchannel first
  is reported SUB_FIRST, neither is called misframed, and the rewrite of the second is, byte for
  byte, the same records in the standard's order.
\<close>

theorem layout_order_found:
  assumes "sub_len_ok sub_len" and "\<forall>r \<in> set rs. combo_ok c2_len sub_len r"
    and "rs \<noteq> []" and "length rs * (AUDIO + c2_len + sub_len) < 2 ^ 32" and "c2_len < 2 ^ 31"
    and "length rs \<le> sub_hits sub_len rs * 2"
    and "\<forall>b. stray_hits sub_len b rs * 3 \<le> sub_hits sub_len rs"
  defines "L \<equiv> AUDIO + c2_len + sub_len"
  shows "adsc_layout_inspect (concat (map mmc_record rs)) (length rs) L c2_len
         = \<lparr> lv_layout = LAYOUT_MMC, lv_hits_mmc = sub_hits sub_len rs,
             lv_hits_sub = stray_hits sub_len False rs, lv_misframed = 0 \<rparr>
       \<and> adsc_layout_inspect (concat (map sub_first_record rs)) (length rs) L c2_len
         = \<lparr> lv_layout = LAYOUT_SUB_FIRST, lv_hits_mmc = stray_hits sub_len True rs,
             lv_hits_sub = sub_hits sub_len rs, lv_misframed = 0 \<rparr>
       \<and> adsc_layout_to_mmc (concat (map sub_first_record rs)) (length rs) L c2_len
         = concat (map mmc_record rs)"
proof -
  have "length rs * 2352 < 2 ^ 32" using assms(4) by (simp add: algebra_simps)
  then have small: "wrap32 (h * 3) = h * 3" if "h \<le> length rs" for h
    using that by (intro wrap32_small) linarith
  have h: "sub_hits sub_len rs \<le> length rs" "stray_hits sub_len b rs \<le> length rs" for b
    by (simp_all add: sub_hits_def stray_hits_def)
  have pos: "0 < sub_hits sub_len rs" using assms(3,6) by (cases rs) auto
  have w1: "winner (sub_hits sub_len rs) (stray_hits sub_len False rs) = LAYOUT_MMC"
    using pos assms(7) by (simp add: winner_def small h)
  have "\<not> sub_hits sub_len rs * 3 \<le> stray_hits sub_len True rs"
    using pos assms(7) [rule_format, of True] by linarith
  then have w2: "winner (stray_hits sub_len True rs) (sub_hits sub_len rs) = LAYOUT_SUB_FIRST"
    using pos assms(7) by (simp add: winner_def small h)
  note m = hits_of_mmc [OF assms(1,2), symmetric] and f = hits_of_sub_first [OF assms(1,2), symmetric]
  show ?thesis
    unfolding L_def
    using inspect_records [OF assms(1,5,4) m] inspect_records [OF assms(1,5,4) f(2,1)]
      to_mmc_records [OF assms(5,1,2)] assms(6)
    by (simp add: w1 w2 max.coboundedI1 max.coboundedI2)
qed

text \<open>A 16-byte formatted Q field that verifies: position data of track 1, then pad bytes.\<close>

definition sample_sub :: "u8 list" where
  "sample_sub = q_seal (position_payload 1 1 1 (0, 0, 5) (0, 2, 5)) @ replicate 4 0"

lemma sample_sub_valid: "q_valid (sample_sub @ z) 16" "length sample_sub = 16"
proof -
  have "take 12 sample_sub = q_seal (position_payload 1 1 1 (0, 0, 5) (0, 2, 5))"
    by (simp add: sample_sub_def position_payload_def q_seal_nth)
  moreover show "length sample_sub = 16"
    by (simp add: sample_sub_def q_seal_def Let_def position_payload_def)
  ultimately show "q_valid (sample_sub @ z) 16"
    by (simp add: q_valid_def q_seal_crc_ok position_payload_def)
qed

lemma zeros_not_valid: "12 \<le> k \<Longrightarrow> \<not> q_valid (replicate k 0 @ z) 16"
proof -
  assume k: "12 \<le> k"
  have "crc16_byte 0 = 0" by code_simp
  then have "fold (\<lambda>b crc. crc16_byte (crc XOR push_bit 8 (ucast b))) (replicate n (0 :: u8)) 0 = 0" for n
    by (induction n) simp_all
  then have "adsc_crc16 (replicate 10 0) = 0" by (simp add: adsc_crc16_def)
  then show ?thesis
    using k by (simp add: q_valid_def q_parse_crc_ok be_word16_def nth_append min_def)
qed

theorem layout_order_found_witness:
  "adsc_layout_inspect
     (concat (map sub_first_record (replicate 2 (Combo (replicate AUDIO 0) (replicate 294 0) sample_sub))))
     2 (AUDIO + 294 + 16) 294
   = \<lparr> lv_layout = LAYOUT_SUB_FIRST, lv_hits_mmc = 0, lv_hits_sub = 2, lv_misframed = 0 \<rparr>"
proof -
  define r where "r = Combo (replicate AUDIO 0) (replicate 294 0) sample_sub"
  have v: "q_valid sample_sub 16" using sample_sub_valid(1) [of "[]"] by simp
  note len = sample_sub_valid(2)
  have "sub_hits 16 [r, r] = 2" "stray_hits 16 b [r, r] = 0" for b
    using v zeros_not_valid [of 16 "[]"] zeros_not_valid [of 294 sample_sub]
    by (auto simp: sub_hits_def stray_hits_def r_def len)
  moreover have "combo_ok 294 16 r"
    by (simp add: r_def combo_ok_def len)
  moreover have "replicate 2 r = [r, r]" by (simp add: numeral_2_eq_2)
  ultimately show ?thesis
    using layout_order_found [of 16 "[r, r]" 294]
    by (simp add: r_def [symmetric] sub_len_ok_def) (simp add: numeral_2_eq_2)
qed

section \<open>Displaced records\<close>

lemma hits_from_first:
  assumes "sub_len_ok sub_len" and "k < n"
    and fits: "\<forall>s \<le> k. s * stride + off + sub_len \<le> buf_len"
    and valid: "\<forall>s. 1 \<le> s \<and> s \<le> k \<longrightarrow> q_valid (drop (s * stride + off) buf) sub_len"
  shows "(if q_valid (drop off buf) sub_len then 1 else 0) + k
         \<le> adsc_layout_q_hits buf buf_len n stride off sub_len"
proof -
  let ?P = "\<lambda>s. q_valid (drop (s * stride + off) buf) sub_len"
  let ?Q = "window_fits buf_len stride off sub_len"
  have "[0..<n] = [0..<Suc k] @ [Suc k..<n]"
    using assms(2) by (metis Suc_leI le_add_diff_inverse upt_add_eq_append zero_le)
  moreover have "\<forall>s \<in> set [0..<Suc k]. ?Q s" using fits by (auto simp: window_fits_def)
  ultimately have "takeWhile ?Q [0..<n] = [0..<Suc k] @ takeWhile ?Q [Suc k..<n]"
    by (simp only: takeWhile_append2)
  then have "length (filter ?P (takeWhile ?Q [0..<n]))
      = length (filter ?P [0..<Suc k]) + length (filter ?P (takeWhile ?Q [Suc k..<n]))"
    by (simp only: filter_append length_append)
  moreover have "[0..<Suc k] = 0 # [1..<Suc k]" by (simp add: upt_rec)
  moreover have "filter ?P [1..<Suc k] = [1..<Suc k]" using valid by (intro filter_True) auto
  ultimately have "(if q_valid (drop off buf) sub_len then 1 else 0) + k
      \<le> length (filter ?P (takeWhile ?Q [0..<n]))"
    by (simp only: filter.simps) auto
  then show ?thesis using assms(1) by (simp add: adsc_layout_q_hits_def q_hits_loop_eq)
qed

lemma misframe_candidates_mem:
  assumes "L = AUDIO + c2_len + sub_len" and "L + 16 < 2 ^ 32" and "1 \<le> p" and "p \<le> 16"
    and "off = AUDIO \<or> off = AUDIO + c2_len"
  shows "(L + p, off) \<in> set (misframe_candidates L c2_len)"
    and "\<And>c. c \<in> set (misframe_candidates L c2_len) \<Longrightarrow> L < fst c \<and> fst c \<le> L + 16"
  using assms by (auto simp: misframe_candidates_def misframe_span_def)

lemma window_in_buffer:
  assumes "4 \<le> (n::nat)" and "s \<le> n div 2" and "p \<le> 16" and "off + m \<le> L" and "2352 \<le> L"
  shows "s * (L + p) + off + m \<le> n * L"
proof -
  have "Suc (s + 1) \<le> n" using assms(1,2) by linarith
  then obtain d where d: "n = s + 1 + d" "s \<le> d + 1" "1 \<le> d"
    using assms(1,2) that [of "n - (s + 1)"] by linarith
  have "s * p \<le> (d + 1) * 16" using d(2) assms(3) by (intro mult_le_mono)
  also have "\<dots> \<le> d * 32" using d(3) by simp
  also have "\<dots> \<le> d * L" using assms(5) by (intro mult_le_mono) simp_all
  finally show ?thesis using assms(4) by (simp add: d(1) algebra_simps)
qed

text \<open>
  A padded transfer is detected. If four or more records really sit at a stride of up to 16
  bytes more than the one asked for, in either order, with CRC-valid Q in the first half of them,
  and fewer than half verify where they should be, then the inspection reports a stride beyond
  the expected one and declines to name an order.
\<close>

theorem layout_misframe_detected:
  assumes "sub_len_ok sub_len" and "c2_len < 2 ^ 31" and "L = AUDIO + c2_len + sub_len"
    and "4 \<le> n" and "n * L < 2 ^ 32" and "1 \<le> p" and "p \<le> 16"
    and "off = AUDIO \<or> off = AUDIO + c2_len"
    and displaced: "\<forall>s. 1 \<le> s \<and> s \<le> n div 2 \<longrightarrow> q_valid (drop (s * (L + p) + off) buf) sub_len"
    and few: "2 * adsc_layout_q_hits buf (n * L) n L AUDIO sub_len < n"
      "2 * adsc_layout_q_hits buf (n * L) n L (AUDIO + c2_len) sub_len < n"
  shows "lv_layout (adsc_layout_inspect buf n L c2_len) = LAYOUT_UNKNOWN
       \<and> L < lv_misframed (adsc_layout_inspect buf n L c2_len)
       \<and> lv_misframed (adsc_layout_inspect buf n L c2_len) \<le> L + 16"
proof -
  have "n * 2352 \<le> n * L" using assms(3) by simp
  then have n: "n * 2352 < 2 ^ 32" using assms(5) by linarith
  have L: "L + 16 < 2 ^ 32"
    using assms(4,5) mult_le_mono1 [of 4 n L] assms(3) by simp
  let ?h = "adsc_layout_q_hits buf (n * L) n (L + p) off sub_len"
  let ?v = "if q_valid (drop off buf) sub_len then 1 else 0 :: nat"
  have "off + sub_len \<le> L" using assms(3,8) by auto
  then have "?v + n div 2 \<le> ?h"
    using assms(4,7) displaced assms(3)
    by (intro hits_from_first [OF assms(1)] allI impI window_in_buffer) auto
  moreover have "?h \<le> n" by (rule q_hits_le)
  ultimately obtain d where d: "?h = ?v + d" "n div 2 \<le> d" "d \<le> n"
    using that [of "?h - ?v"] by (auto split: if_splits)
  have "?h + 2 ^ 32 - ?v = d + 2 ^ 32" by (simp add: d(1))
  then have t: "tail_hits buf (n * L) n sub_len (L + p, off) = d"
    using d(3) n by (simp add: tail_hits_def) (simp add: wrap32_def)
  have "explains buf (n * L) n sub_len (L + p, off)"
    using d(2,3) n assms(4) unfolding explains_def t by (subst wrap32_small) auto
  then obtain c where c: "find (explains buf (n * L) n sub_len) (misframe_candidates L c2_len) = Some c"
    using misframe_candidates_mem(1) [OF assms(3) L assms(6-8)]
    by (metis find_None_iff not_None_eq)
  then have "c \<in> set (misframe_candidates L c2_len)"
    by (metis find_Some_iff nth_mem)
  then have r: "L < fst c" "fst c \<le> L + 16"
    using misframe_candidates_mem(2) [OF assms(3) L assms(6-8)] by blast+
  define best where "best = (if adsc_layout_q_hits buf (n * L) n L (AUDIO + c2_len) sub_len
      > adsc_layout_q_hits buf (n * L) n L AUDIO sub_len
    then adsc_layout_q_hits buf (n * L) n L (AUDIO + c2_len) sub_len
    else adsc_layout_q_hits buf (n * L) n L AUDIO sub_len)"
  have "2 * best < n" using few by (simp add: best_def)
  then have "\<not> wrap32 (best * 2) \<ge> n" using n by (subst wrap32_small) auto
  then have "lv_misframed (adsc_layout_inspect buf n L c2_len) = fst c
      \<and> lv_layout (adsc_layout_inspect buf n L c2_len) = LAYOUT_UNKNOWN"
    using assms(4) c
    by (simp only: adsc_layout_inspect_def Let_def assms(3) sector_split [OF assms(2,1)]
        wrap32_small [OF assms(5) [unfolded assms(3)]] best_def assms(1) if_False if_True
        not_less misframe_min_sectors_def le_add1 simp_thms option.case prod.case
        split_beta split: prod.splits del: wrap32_small, simp)
  then show ?thesis using r by auto
qed

text \<open>Four records padded to 2384 bytes where 2368 were asked for.\<close>

definition padded_buffer :: "u8 list" where
  "padded_buffer = replicate 2352 0 @ sample_sub @ replicate 2368 0 @ sample_sub
     @ replicate 2368 0 @ sample_sub @ replicate 2368 0"

theorem layout_misframe_detected_witness:
  "2368 < lv_misframed (adsc_layout_inspect padded_buffer 4 2368 0)"
proof -
  note b = padded_buffer_def sample_sub_valid zeros_not_valid
  have "q_valid (drop (1 * (2368 + 16) + AUDIO) padded_buffer) 16"
    "q_valid (drop (2 * (2368 + 16) + AUDIO) padded_buffer) 16" by (simp_all add: b)
  moreover have "s = 1 \<or> s = 2" if "1 \<le> s \<and> s \<le> 4 div 2" for s :: nat
    using that by auto
  ultimately have d: "\<forall>s. 1 \<le> s \<and> s \<le> 4 div 2 \<longrightarrow> q_valid (drop (s * (2368 + 16) + AUDIO) padded_buffer) 16"
    by metis
  have h: "q_hits_loop padded_buffer (4 * 2368) 2368 2352 16 [0, 1, 2, 3] = 1"
    using zeros_not_valid [of 48 "[]"] by (simp add: b)
  then have "adsc_layout_q_hits padded_buffer (4 * 2368) 4 2368 AUDIO 16 = 1"
    by (simp add: adsc_layout_q_hits_def sub_len_ok_def upt_rec)
  then show ?thesis
    using layout_misframe_detected [of 16 0 2368 4 16 AUDIO padded_buffer] d
    by (simp add: sub_len_ok_def)
qed

end
