(* ===== verification/IndexMap.thy ===== *)
theory IndexMap
  imports Extents
begin

text \<open>
  The index and pregap map: \<^verbatim>\<open>src/cdda/index_map.c\<close>, which reads a raw subchannel scan
  against the table of contents. Addresses are unbounded integers here (\<open>L - 400\<close> of the C code
  is meant for disc addresses, far from the ends of \<open>int32_t\<close>). The results: on a scan of an honest
  disc, with any frames damaged, the map never reports a pregap longer than the recorded one, gives
  its exact length when the transition frame is readable, and reports \<open>NONE\<close> only where the
  recorded pregap shows no position frame at all.
\<close>

section \<open>Data\<close>

datatype accudisc_pregap_state = PREGAP_NO_DATA | PREGAP_NONE | PREGAP_PRESENT | PREGAP_UNKNOWN

record accudisc_index_map =
  im_track :: u8
  im_pregap_state :: accudisc_pregap_state
  im_max_index :: u8
  im_index1_lba :: int
  im_q_index1_lba :: int
  im_index0_lba :: int
  im_pregap_frames :: nat
  im_crc_ok :: nat
  im_crc_bad :: nat

definition pregap_scan_frames :: int where "pregap_scan_frames = 400"
definition clean_window_frames :: int where "clean_window_frames = 150"

definition rel_frames :: "accudisc_q \<Rightarrow> nat" where
  "rel_frames q = (unat (q_rel_m q) * 60 + unat (q_rel_s q)) * 75 + unat (q_rel_f q)"

section \<open>Decoding one boundary\<close>

definition frame_at :: "u8 list \<Rightarrow> int \<Rightarrow> int \<Rightarrow> accudisc_q" where
  "frame_at raw base_lba lba =
     fst (accudisc_q_parse (accudisc_sub_extract_q (drop (nat (lba - base_lba) * 96) raw)))"

definition index_map_init :: "accudisc_track \<Rightarrow> accudisc_index_map" where
  "index_map_init trk =
     \<lparr> im_track = trk_number trk, im_pregap_state = PREGAP_NO_DATA, im_max_index = 0,
       im_index1_lba = sint (trk_lba trk), im_q_index1_lba = -1, im_index0_lba = -1,
       im_pregap_frames = 0, im_crc_ok = 0, im_crc_bad = 0 \<rparr>"

text \<open>What one frame of the walk contributes; the accumulator is \<open>(m, pregap_seen, max_rel)\<close>.\<close>

definition note_index :: "accudisc_q \<Rightarrow> int \<Rightarrow> int
    \<Rightarrow> accudisc_index_map \<times> bool \<times> nat \<Rightarrow> accudisc_index_map \<times> bool \<times> nat" where
  "note_index q L lba = (\<lambda>(m, seen, max_rel).
     let m = (if q_index q > im_max_index m then m\<lparr> im_max_index := q_index q \<rparr> else m) in
     if q_index q = 0 \<and> lba < L then
       (m, True, if rel_frames q > max_rel then rel_frames q else max_rel)
     else if q_index q = 1 then
       (if im_q_index1_lba m < 0 \<or> lba < im_q_index1_lba m
        then m\<lparr> im_q_index1_lba := lba \<rparr> else m, seen, max_rel)
     else (m, seen, max_rel))"

definition scan_step :: "u8 list \<Rightarrow> int \<Rightarrow> int \<Rightarrow> int \<Rightarrow> int
    \<Rightarrow> accudisc_index_map \<times> bool \<times> nat \<Rightarrow> accudisc_index_map \<times> bool \<times> nat" where
  "scan_step raw base_lba scan_end L lba acc =
     (if lba < base_lba \<or> lba \<ge> scan_end then acc
      else
        let q = frame_at raw base_lba lba;
            in_clean = (lba \<ge> L - clean_window_frames \<and> lba < L)
        in
        if \<not> q_crc_ok q then
          (if in_clean then (apfst (\<lambda>m. m\<lparr> im_crc_bad := im_crc_bad m + 1 \<rparr>) acc) else acc)
        else
          let acc = (if in_clean then (apfst (\<lambda>m. m\<lparr> im_crc_ok := im_crc_ok m + 1 \<rparr>) acc) else acc)
          in
          if q_adr q \<noteq> 1 then acc
          else if q_tno q = im_track (fst acc) then note_index q L lba acc
          else acc)"

text \<open>The walk down from the boundary when no index-0 frame was seen.\<close>

fun boundary_state :: "u8 list \<Rightarrow> int \<Rightarrow> int list \<Rightarrow> accudisc_pregap_state" where
  "boundary_state raw base_lba [] = PREGAP_UNKNOWN"
| "boundary_state raw base_lba (lba # lbas) =
     (let q = frame_at raw base_lba lba in
      if \<not> q_crc_ok q then PREGAP_UNKNOWN
      else if q_adr q \<noteq> 1 then boundary_state raw base_lba lbas
      else PREGAP_NONE)"

definition index_map_track ::
    "u8 list \<Rightarrow> int \<Rightarrow> int \<Rightarrow> accudisc_track \<Rightarrow> accudisc_index_map" where
  "index_map_track raw base_lba scan_end trk =
     (let m = index_map_init trk; L = sint (trk_lba trk); scan_lo = L - pregap_scan_frames in
      if base_lba > L - 1 \<or> scan_end \<le> L - 1 then m\<lparr> im_pregap_state := PREGAP_NO_DATA \<rparr>
      else
        let (m, pregap_seen, max_rel) =
              fold (scan_step raw base_lba scan_end L) [scan_lo..L] (m, False, 0)
        in
        if pregap_seen \<and> max_rel > 0 then
          m\<lparr> im_pregap_state := PREGAP_PRESENT, im_pregap_frames := max_rel,
             im_index0_lba := L - int max_rel \<rparr>
        else
          m\<lparr> im_pregap_state :=
               boundary_state raw base_lba (rev [max scan_lo base_lba..L - 1]) \<rparr>)"

definition accudisc_index_map_decode ::
    "u8 list \<Rightarrow> int \<Rightarrow> u32 \<Rightarrow> accudisc_toc \<Rightarrow> nat \<Rightarrow> accudisc_index_map list" where
  "accudisc_index_map_decode raw base_lba count toc max_out =
     (let scan_end = base_lba + sint count in
      map (index_map_track raw base_lba scan_end) (take max_out (toc_tracks toc)))"

section \<open>What the walk accumulates\<close>

definition index0_frame :: "u8 list \<Rightarrow> int \<Rightarrow> int \<Rightarrow> int \<Rightarrow> u8 \<Rightarrow> int \<Rightarrow> bool" where
  "index0_frame raw base_lba scan_end L track lba \<longleftrightarrow>
     base_lba \<le> lba \<and> lba < scan_end \<and> lba < L
     \<and> (let q = frame_at raw base_lba lba in
        q_crc_ok q \<and> q_adr q = 1 \<and> q_tno q = track \<and> q_index q = 0)"

lemma scan_step_track [simp]:
  "im_track (fst (scan_step raw base_lba scan_end L lba acc)) = im_track (fst acc)"
  by (cases acc) (auto simp: scan_step_def note_index_def Let_def)

lemma scan_step_rel:
  "snd (scan_step raw base_lba scan_end L lba acc) =
     (if index0_frame raw base_lba scan_end L (im_track (fst acc)) lba
      then (True, max (rel_frames (frame_at raw base_lba lba)) (snd (snd acc)))
      else snd acc)"
  by (cases acc) (auto simp: scan_step_def note_index_def Let_def index0_frame_def max_def)

lemma scan_fold_track [simp]:
  "im_track (fst (fold (scan_step raw base_lba scan_end L) lbas acc)) = im_track (fst acc)"
  by (induction lbas arbitrary: acc) auto

lemma scan_fold_rel:
  "snd (fold (scan_step raw base_lba scan_end L) lbas acc) =
     (let hits = filter (index0_frame raw base_lba scan_end L (im_track (fst acc))) lbas in
      (fst (snd acc) \<or> hits \<noteq> [],
       fold max (map (\<lambda>lba. rel_frames (frame_at raw base_lba lba)) hits) (snd (snd acc))))"
  by (induction lbas arbitrary: acc) (auto simp: scan_step_rel Let_def)

lemma fold_max_start: "(r :: nat) \<le> fold max xs r"
  by (induction xs arbitrary: r) (auto intro: order.trans [OF max.cobounded2])

lemma fold_max_ge: "x \<in> set xs \<Longrightarrow> (x :: nat) \<le> fold max xs r"
  by (induction xs arbitrary: r) (auto intro: order.trans [OF max.cobounded1 fold_max_start])

lemma fold_max_le: "(r :: nat) \<le> b \<Longrightarrow> (\<And>x. x \<in> set xs \<Longrightarrow> x \<le> b) \<Longrightarrow> fold max xs r \<le> b"
  by (induction xs arbitrary: r) auto

lemma boundary_state_cases:
  "boundary_state raw base_lba lbas \<in> {PREGAP_UNKNOWN, PREGAP_NONE}"
  by (induction lbas) (auto simp: Let_def)

lemma boundary_none:
  assumes "boundary_state raw base_lba lbas = PREGAP_NONE"
  shows "\<exists>xs z ys. lbas = xs @ z # ys
      \<and> (\<forall>x \<in> set xs. q_crc_ok (frame_at raw base_lba x) \<and> q_adr (frame_at raw base_lba x) \<noteq> 1)
      \<and> q_crc_ok (frame_at raw base_lba z) \<and> q_adr (frame_at raw base_lba z) = 1"
  using assms
proof (induction lbas)
  case (Cons l ls)
  show ?case
  proof (cases "q_adr (frame_at raw base_lba l) = 1")
    case True
    then show ?thesis using Cons.prems by (intro exI [of _ "[]"]) (auto simp: Let_def split: if_splits)
  next
    case False
    with Cons obtain xs z ys where "ls = xs @ z # ys"
      "\<forall>x \<in> set xs. q_crc_ok (frame_at raw base_lba x) \<and> q_adr (frame_at raw base_lba x) \<noteq> 1"
      "q_crc_ok (frame_at raw base_lba z)" "q_adr (frame_at raw base_lba z) = 1"
      by (auto simp: Let_def split: if_splits)
    then show ?thesis
      using False Cons.prems
      by (intro exI [of _ "l # xs"] exI [of _ z] exI [of _ ys]) (auto simp: Let_def split: if_splits)
  qed
qed simp

section \<open>Honest discs\<close>

text \<open>
  A recorded boundary: track \<open>t\<close> starts at \<open>L\<close> with a pregap of \<open>n\<close> frames. Every frame is
  damaged, or carries something other than a position, or carries the position the disc has
  there: another track before the pregap, index 0 counting down to the boundary within it.
\<close>

definition recorded_at :: "int \<Rightarrow> nat \<Rightarrow> u8 \<Rightarrow> int \<Rightarrow> accudisc_q \<Rightarrow> bool" where
  "recorded_at L n t lba q \<longleftrightarrow>
     (q_crc_ok q \<and> q_adr q = 1 \<longrightarrow>
        (if lba < L - int n then q_tno q \<noteq> t
         else if lba < L then q_tno q = t \<and> q_index q = 0 \<and> int (rel_frames q) = L - lba
         else q_tno q = t \<and> q_index q = 1))"

definition readable_position :: "accudisc_q \<Rightarrow> bool" where
  "readable_position q \<longleftrightarrow> q_crc_ok q \<and> q_adr q = 1"

definition index0_scan :: "u8 list \<Rightarrow> int \<Rightarrow> int \<Rightarrow> accudisc_track \<Rightarrow> int list" where
  "index0_scan raw base_lba scan_end trk =
     filter (index0_frame raw base_lba scan_end (sint (trk_lba trk)) (trk_number trk))
       [sint (trk_lba trk) - pregap_scan_frames..sint (trk_lba trk)]"

lemma index_map_track_result:
  assumes "base_lba \<le> L - 1" and "L - 1 < scan_end" and "L = sint (trk_lba trk)"
    and hits_def: "hits = index0_scan raw base_lba scan_end trk"
    and r_def: "r = fold max (map (\<lambda>lba. rel_frames (frame_at raw base_lba lba)) hits) 0"
    and m_def: "m = index_map_track raw base_lba scan_end trk"
  shows "hits \<noteq> [] \<and> 0 < r \<Longrightarrow> im_pregap_state m = PREGAP_PRESENT \<and> im_pregap_frames m = r
            \<and> im_index0_lba m = L - int r"
    and "\<not> (hits \<noteq> [] \<and> 0 < r) \<Longrightarrow> im_pregap_state m
            = boundary_state raw base_lba (rev [max (L - pregap_scan_frames) base_lba..L - 1])"
proof -
  have "snd (fold (scan_step raw base_lba scan_end L) [L - pregap_scan_frames..L]
          (index_map_init trk, False, 0)) = (hits \<noteq> [], r)"
    using assms(3) by (simp add: scan_fold_rel hits_def r_def index0_scan_def Let_def index_map_init_def)
  then obtain m' where "fold (scan_step raw base_lba scan_end L) [L - pregap_scan_frames..L]
      (index_map_init trk, False, 0) = (m', hits \<noteq> [], r)"
    by (metis prod.collapse)
  then have m: "m = (if hits \<noteq> [] \<and> 0 < r
      then m'\<lparr> im_pregap_state := PREGAP_PRESENT, im_pregap_frames := r, im_index0_lba := L - int r \<rparr>
      else m'\<lparr> im_pregap_state := boundary_state raw base_lba
        (rev [max (L - pregap_scan_frames) base_lba..L - 1]) \<rparr>)"
    using assms(1,2) by (simp add: m_def index_map_track_def Let_def assms(3) [symmetric])
  show "hits \<noteq> [] \<and> 0 < r \<Longrightarrow> im_pregap_state m = PREGAP_PRESENT \<and> im_pregap_frames m = r
            \<and> im_index0_lba m = L - int r"
    by (subst (1 2 3) m) simp
  show "\<not> (hits \<noteq> [] \<and> 0 < r) \<Longrightarrow> im_pregap_state m
            = boundary_state raw base_lba (rev [max (L - pregap_scan_frames) base_lba..L - 1])"
    by (subst m) auto
qed

text \<open>A scan that holds the boundary of a track recorded with a pregap of \<open>n\<close> frames, any of them damaged.\<close>

definition honest_scan :: "u8 list \<Rightarrow> int \<Rightarrow> int \<Rightarrow> accudisc_track \<Rightarrow> int \<Rightarrow> nat \<Rightarrow> bool" where
  "honest_scan raw base_lba scan_end trk L n \<longleftrightarrow>
     L = sint (trk_lba trk) \<and> n \<le> 400 \<and> base_lba \<le> L - int n \<and> base_lba \<le> L - 1 \<and> L - 1 < scan_end
     \<and> (\<forall>lba. base_lba \<le> lba \<and> L - 400 \<le> lba \<and> lba < L
          \<longrightarrow> recorded_at L n (trk_number trk) lba (frame_at raw base_lba lba))"

definition longest_rel :: "u8 list \<Rightarrow> int \<Rightarrow> int \<Rightarrow> accudisc_track \<Rightarrow> nat" where
  "longest_rel raw base_lba scan_end trk =
     fold max (map (\<lambda>lba. rel_frames (frame_at raw base_lba lba)) (index0_scan raw base_lba scan_end trk)) 0"

lemma honest_hit_iff:
  assumes "honest_scan raw base_lba scan_end trk L n"
  shows "lba \<in> set (index0_scan raw base_lba scan_end trk) \<longleftrightarrow> L - 400 \<le> lba \<and> lba < L \<and> base_lba \<le> lba
      \<and> readable_position (frame_at raw base_lba lba) \<and> q_tno (frame_at raw base_lba lba) = trk_number trk
      \<and> q_index (frame_at raw base_lba lba) = 0"
  using assms by (auto simp: honest_scan_def index0_scan_def index0_frame_def pregap_scan_frames_def
      readable_position_def Let_def)

lemma honest_recorded:
  assumes "honest_scan raw base_lba scan_end trk L n" and "base_lba \<le> lba" and "L - 400 \<le> lba" and "lba < L"
  shows "recorded_at L n (trk_number trk) lba (frame_at raw base_lba lba)"
  using assms unfolding honest_scan_def by blast

lemma honest_hit_rel:
  assumes "honest_scan raw base_lba scan_end trk L n" and "lba \<in> set (index0_scan raw base_lba scan_end trk)"
  shows "L - int n \<le> lba \<and> int (rel_frames (frame_at raw base_lba lba)) = L - lba"
  using assms(2) honest_recorded [OF assms(1), of lba]
  by (auto simp: honest_hit_iff [OF assms(1)] recorded_at_def readable_position_def split: if_splits)

lemma honest_hit_readable:
  assumes "honest_scan raw base_lba scan_end trk L n"
    and "L - int n \<le> lba" and "lba < L" and "readable_position (frame_at raw base_lba lba)"
  shows "lba \<in> set (index0_scan raw base_lba scan_end trk)"
proof -
  have "L - 400 \<le> lba" "base_lba \<le> lba" using assms(1,2) by (auto simp: honest_scan_def)
  then show ?thesis
    using assms honest_recorded [OF assms(1), of lba]
    by (simp add: honest_hit_iff [OF assms(1)] recorded_at_def readable_position_def)
qed

lemma longest_rel_le:
  assumes "honest_scan raw base_lba scan_end trk L n"
  shows "longest_rel raw base_lba scan_end trk \<le> n"
  unfolding longest_rel_def using honest_hit_rel [OF assms] by (intro fold_max_le) (auto, force)

lemma longest_rel_ge:
  assumes "lba \<in> set (index0_scan raw base_lba scan_end trk)"
  shows "rel_frames (frame_at raw base_lba lba) \<le> longest_rel raw base_lba scan_end trk"
  unfolding longest_rel_def using assms by (intro fold_max_ge) simp

lemma longest_rel_pos:
  assumes "honest_scan raw base_lba scan_end trk L n" and "index0_scan raw base_lba scan_end trk \<noteq> []"
  shows "0 < longest_rel raw base_lba scan_end trk"
proof -
  obtain lba where h: "lba \<in> set (index0_scan raw base_lba scan_end trk)" using hd_in_set [OF assms(2)] by blast
  then show ?thesis
    using longest_rel_ge [OF h] honest_hit_rel [OF assms(1) h] honest_hit_iff [OF assms(1), of lba] by linarith
qed

text \<open>A boundary reported \<open>NONE\<close>: every frame after the first readable one, read backwards, is of another kind.\<close>

lemma honest_none:
  assumes h: "honest_scan raw base_lba scan_end trk L n" and "index0_scan raw base_lba scan_end trk = []"
    and "boundary_state raw base_lba (rev [max (L - 400) base_lba..L - 1]) = PREGAP_NONE"
    and lba: "L - int n \<le> lba" "lba < L"
  shows "q_crc_ok (frame_at raw base_lba lba) \<and> q_adr (frame_at raw base_lba lba) \<noteq> 1"
proof -
  obtain xs z ys where sp: "rev [max (L - 400) base_lba..L - 1] = xs @ z # ys"
    and xs: "\<forall>x \<in> set xs. q_crc_ok (frame_at raw base_lba x) \<and> q_adr (frame_at raw base_lba x) \<noteq> 1"
    and z: "readable_position (frame_at raw base_lba z)"
    using boundary_none [OF assms(3)] unfolding readable_position_def by metis
  have "z \<in> set (rev [max (L - 400) base_lba..L - 1])" by (simp add: sp del: set_rev)
  then have "z < L" by auto
  then have "z < L - int n"
    using assms(2) z honest_hit_readable [OF h, of z] by (metis empty_iff list.set(1) not_less)
  then have "z < lba" using lba(1) by simp
  moreover have "lba \<in> set (rev [max (L - 400) base_lba..L - 1])"
    using lba h by (auto simp: honest_scan_def)
  moreover have "x < z" if "x \<in> set ys" for x
  proof -
    have "sorted_wrt (<) (rev ys @ z # rev xs)"
      using sp by (metis rev_append rev_rev_ident rev.simps(2) append_assoc append_Cons append_Nil
          sorted_wrt_upto)
    then show ?thesis using that by (simp add: sorted_wrt_append)
  qed
  ultimately have "lba \<in> set xs" unfolding sp
    by (metis Un_iff insert_iff less_asym less_irrefl list.set(2) set_append)
  then show ?thesis using xs by blast
qed

lemma honest_result:
  assumes h: "honest_scan raw base_lba scan_end trk L n" and m: "m = index_map_track raw base_lba scan_end trk"
  defines "hits \<equiv> index0_scan raw base_lba scan_end trk" and "r \<equiv> longest_rel raw base_lba scan_end trk"
  shows "im_pregap_state m = PREGAP_PRESENT \<longleftrightarrow> hits \<noteq> []"
    and "hits \<noteq> [] \<Longrightarrow> im_pregap_frames m = r \<and> im_index0_lba m = L - int r"
    and "hits = [] \<Longrightarrow> im_pregap_state m = boundary_state raw base_lba (rev [max (L - 400) base_lba..L - 1])"
proof -
  have b: "base_lba \<le> L - 1" "L - 1 < scan_end" "L = sint (trk_lba trk)" using h by (auto simp: honest_scan_def)
  note res = index_map_track_result [OF b refl longest_rel_def m]
  have st: "im_pregap_state m = (if hits \<noteq> [] then PREGAP_PRESENT
      else boundary_state raw base_lba (rev [max (L - pregap_scan_frames) base_lba..L - 1]))"
    using res longest_rel_pos [OF h] by (auto simp: hits_def)
  show "im_pregap_state m = PREGAP_PRESENT \<longleftrightarrow> hits \<noteq> []"
    using st boundary_state_cases [of raw base_lba "rev [max (L - pregap_scan_frames) base_lba..L - 1]"] by auto
  show "hits \<noteq> [] \<Longrightarrow> im_pregap_frames m = r \<and> im_index0_lba m = L - int r"
    using res longest_rel_pos [OF h] by (auto simp: hits_def r_def)
  show "hits = [] \<Longrightarrow> im_pregap_state m = boundary_state raw base_lba (rev [max (L - 400) base_lba..L - 1])"
    using st by (simp add: pregap_scan_frames_def)
qed

lemma honest_transition:
  assumes h: "honest_scan raw base_lba scan_end trk L n" and "0 < n"
    and "readable_position (frame_at raw base_lba (L - int n))"
  shows "index0_scan raw base_lba scan_end trk \<noteq> [] \<and> longest_rel raw base_lba scan_end trk = n"
proof -
  have t: "L - int n \<in> set (index0_scan raw base_lba scan_end trk)"
    using assms(2,3) by (intro honest_hit_readable [OF h]) simp_all
  then have "n \<le> longest_rel raw base_lba scan_end trk"
    using longest_rel_ge [OF t] honest_hit_rel [OF h t] by simp
  then show ?thesis using t longest_rel_le [OF h] by auto
qed

lemma honest_gapless:
  assumes h: "honest_scan raw base_lba scan_end trk L 0" and "readable_position (frame_at raw base_lba (L - 1))"
  shows "index0_scan raw base_lba scan_end trk = []
    \<and> boundary_state raw base_lba (rev [max (L - 400) base_lba..L - 1]) = PREGAP_NONE"
proof
  have "lba \<notin> set (index0_scan raw base_lba scan_end trk)" for lba
    using honest_hit_rel [OF h, of lba] honest_hit_iff [OF h, of lba] by fastforce
  then show "index0_scan raw base_lba scan_end trk = []"
    by (cases "index0_scan raw base_lba scan_end trk") auto
  have "base_lba \<le> L - 1" using h by (simp add: honest_scan_def)
  then have "rev [max (L - 400) base_lba..L - 1] = (L - 1) # rev [max (L - 400) base_lba..L - 2]"
    by (subst upto_rec2) simp_all
  then show "boundary_state raw base_lba (rev [max (L - 400) base_lba..L - 1]) = PREGAP_NONE"
    using assms(2) by (simp add: readable_position_def Let_def)
qed


text \<open>
  A scan of five sectors before track 2 at address 5: two frames of track 1, a damaged frame,
  then a pregap of two.
\<close>

definition sample_scan :: "u8 list" where
  "sample_scan =
     sub_embed_q (q_seal (position_payload 0 1 1 (0, 0, 10) (0, 2, 0)))
     @ sub_embed_q (q_seal (position_payload 0 1 1 (0, 0, 11) (0, 2, 1)))
     @ replicate 96 0
     @ sub_embed_q (q_seal (position_payload 0 2 0 (0, 0, 2) (0, 2, 3)))
     @ sub_embed_q (q_seal (position_payload 0 2 0 (0, 0, 1) (0, 2, 4)))"

definition sample_track :: accudisc_track where
  "sample_track = \<lparr> trk_number = 2, trk_adr_ctrl = 0x10, trk_session = 1, trk_lba = 5,
     trk_sectors = 100, trk_pregap = 0 \<rparr>"

lemma frame_at_embedded:
  assumes "length a = k * 96" and "length q = 12" and "lba - base_lba = int k"
  shows "frame_at (a @ sub_embed_q q @ z) base_lba lba = fst (accudisc_q_parse q)"
  using assms by (simp add: frame_at_def sub_extract_append sub_extract_embed)

lemma sample_frames:
  "frame_at sample_scan 0 0 = fst (accudisc_q_parse (q_seal (position_payload 0 1 1 (0, 0, 10) (0, 2, 0))))"
  "frame_at sample_scan 0 1 = fst (accudisc_q_parse (q_seal (position_payload 0 1 1 (0, 0, 11) (0, 2, 1))))"
  "frame_at sample_scan 0 3 = fst (accudisc_q_parse (q_seal (position_payload 0 2 0 (0, 0, 2) (0, 2, 3))))"
  "frame_at sample_scan 0 4 = fst (accudisc_q_parse (q_seal (position_payload 0 2 0 (0, 0, 1) (0, 2, 4))))"
  by (simp_all add: frame_at_def sample_scan_def sub_extract_append sub_extract_embed)

lemma sample_damaged: "\<not> q_crc_ok (frame_at sample_scan 0 2)"
proof -
  have "\<not> q_crc_ok (fst (accudisc_q_parse (accudisc_sub_extract_q (replicate 96 0))))"
    by code_simp
  then show ?thesis by (simp add: frame_at_def sample_scan_def sub_extract_append)
qed


end
