(* ===== verification/Cdb.thy ===== *)
theory Cdb
  imports Toc
begin

text \<open>
  The command descriptor blocks: \<^verbatim>\<open>src/mmc/cdb.c\<close> and \<^verbatim>\<open>src/mmc/cdb.h\<close>. Every
  builder is a byte list written out field by field, and every conversion to \<open>uint8_t\<close> a
  truncation. The results: whatever arguments a caller passes, each block has the length its
  operation code's group prescribes, a zero control byte and zero reserved bits; the fields a drive
  reads back are the arguments, up to the width of the field; READ CD asks for exactly as many
  bytes per record as the library reserves; and the speed conversion saturates, until it wraps.
\<close>

section \<open>Builders\<close>

definition adsc_cdb_inquiry :: "u8 \<Rightarrow> u8 list" where
  "adsc_cdb_inquiry alloc = [0x12, 0, 0, 0, alloc, 0]"

definition adsc_cdb_start_stop :: "u32 \<Rightarrow> u32 \<Rightarrow> u8 list" where
  "adsc_cdb_start_stop start loej =
     [0x1B, 0, 0, 0, ucast (push_bit 1 (loej AND 1) OR (start AND 1)), 0]"

definition hi8 :: "u16 \<Rightarrow> u8" where "hi8 v = ucast (drop_bit 8 v)"
definition lo8 :: "u16 \<Rightarrow> u8" where "lo8 v = ucast (v AND 0xff)"

definition adsc_cdb_read_toc :: "u32 \<Rightarrow> u32 \<Rightarrow> u32 \<Rightarrow> u16 \<Rightarrow> u8 list" where
  "adsc_cdb_read_toc format time_bit track alloc =
     [0x43, ucast (push_bit 1 (time_bit AND 1)), ucast (format AND 0x0f), 0, 0, 0, ucast track,
      hi8 alloc, lo8 alloc, 0]"

definition adsc_cdb_read_buffer_capacity :: "u8 list" where
  "adsc_cdb_read_buffer_capacity = [0x5C, 0, 0, 0, 0, 0, 0, 0, 12, 0]"

definition adsc_cdb_read_disc_info :: "u16 \<Rightarrow> u8 list" where
  "adsc_cdb_read_disc_info alloc = [0x51, 0x00, 0, 0, 0, 0, 0, hi8 alloc, lo8 alloc, 0]"

definition put_be32 :: "u32 \<Rightarrow> u8 list" where
  "put_be32 v = [ucast (drop_bit 24 v), ucast (drop_bit 16 v), ucast (drop_bit 8 v), ucast v]"

definition adsc_cdb_write10 :: "u32 \<Rightarrow> u16 \<Rightarrow> u8 list" where
  "adsc_cdb_write10 lba nblocks =
     [0x2A, 0, ucast (drop_bit 24 lba), ucast (drop_bit 16 lba), ucast (drop_bit 8 lba), ucast lba,
      0, hi8 nblocks, lo8 nblocks, 0]"

definition adsc_cdb_sync_cache :: "u8 list" where
  "adsc_cdb_sync_cache = [0x35, 0, 0, 0, 0, 0, 0, 0, 0, 0]"

definition adsc_cdb_send_cue :: "u32 \<Rightarrow> u8 list" where
  "adsc_cdb_send_cue len =
     [0x5D, 0, 0, 0, 0, 0, ucast (drop_bit 16 len), ucast (drop_bit 8 len), ucast (len AND 0xff), 0]"

definition adsc_cdb_send_opc :: "u8 list" where
  "adsc_cdb_send_opc = [0x54, 0x01, 0, 0, 0, 0, 0, 0, 0, 0]"

definition adsc_cdb_get_performance :: "u32 \<Rightarrow> u16 \<Rightarrow> u32 \<Rightarrow> u8 list" where
  "adsc_cdb_get_performance start_lba max_desc typ =
     [0xAC, 0, ucast (drop_bit 24 start_lba), ucast (drop_bit 16 start_lba),
      ucast (drop_bit 8 start_lba), ucast start_lba, 0, 0, hi8 max_desc, lo8 max_desc,
      ucast typ, 0]"

definition adsc_cdb_set_streaming :: "u16 \<Rightarrow> u8 list" where
  "adsc_cdb_set_streaming param_len =
     [0xB6, 0, 0, 0, 0, 0, 0, 0, 0, hi8 param_len, lo8 param_len, 0]"

text \<open>The 28-byte performance descriptor: flags, range, then the two rates as size per time.\<close>

definition adsc_cdb_set_streaming_desc :: "u32 \<Rightarrow> u32 \<Rightarrow> u32 \<Rightarrow> u32 \<Rightarrow> u32 \<Rightarrow> u8 list" where
  "adsc_cdb_set_streaming_desc speed_x start_lba end_lba exact write_kbps =
     (let read_size = speed_x * 1764 div 10 in
      if speed_x = 0 then
        [0x04, 0, 0, 0] @ put_be32 start_lba @ put_be32 end_lba @ replicate 16 0
      else
        [if exact \<noteq> 0 then 0x02 else 0x00, 0, 0, 0] @ put_be32 start_lba @ put_be32 end_lba
        @ put_be32 read_size @ put_be32 1000 @ put_be32 write_kbps @ put_be32 1000)"

definition adsc_cd_speed_kbps :: "u32 \<Rightarrow> u16" where
  "adsc_cd_speed_kbps speed_x =
     (let kbps = speed_x * 177 in if kbps > 0xFFFF then 0xFFFF else ucast kbps)"

definition adsc_cdb_set_cd_speed :: "u16 \<Rightarrow> u16 \<Rightarrow> u32 \<Rightarrow> u8 list" where
  "adsc_cdb_set_cd_speed read_kbps write_kbps rotctl =
     [0xBB, ucast (rotctl AND 0x03), hi8 read_kbps, lo8 read_kbps, hi8 write_kbps, lo8 write_kbps,
      0, 0, 0, 0, 0, 0]"

definition adsc_cdb_get_configuration :: "u32 \<Rightarrow> u16 \<Rightarrow> u16 \<Rightarrow> u8 list" where
  "adsc_cdb_get_configuration rt feature alloc =
     [0x46, ucast (rt AND 0x03), hi8 feature, lo8 feature, 0, 0, 0, hi8 alloc, lo8 alloc, 0]"

definition adsc_cdb_mode_sense10 :: "u32 \<Rightarrow> u16 \<Rightarrow> u8 list" where
  "adsc_cdb_mode_sense10 page alloc =
     [0x5A, 0, ucast (page AND 0x3f), 0, 0, 0, 0, hi8 alloc, lo8 alloc, 0]"

definition adsc_cdb_mode_select10 :: "u16 \<Rightarrow> u8 list" where
  "adsc_cdb_mode_select10 param_len =
     [0x55, 0x10, 0, 0, 0, 0, 0, hi8 param_len, lo8 param_len, 0]"

definition adsc_cdb_read_cd :: "u32 \<Rightarrow> u32 \<Rightarrow> u32 \<Rightarrow> u32 \<Rightarrow> u32 \<Rightarrow> u8 list" where
  "adsc_cdb_read_cd lba nsec sector_type c2 sub =
     [0xBE, ucast (push_bit 2 (sector_type AND 0x07)),
      ucast (drop_bit 24 lba), ucast (drop_bit 16 lba), ucast (drop_bit 8 lba), ucast lba,
      ucast (drop_bit 16 nsec), ucast (drop_bit 8 nsec), ucast nsec,
      ucast (0x10 OR push_bit 1 (c2 AND 0x03)), ucast (sub AND 0x07), 0]"

definition adsc_read_cd_sector_len :: "u32 \<Rightarrow> u32 \<Rightarrow> u32" where
  "adsc_read_cd_sector_len c2 sub =
     2352 + (if c2 = 1 then 294 else if c2 = 2 then 296 else 0)
          + (if sub = 1 then 96 else if sub = 2 then 16 else 0)"

section \<open>What a drive reads from a block\<close>

text \<open>The group code, the top three bits of the operation code, fixes the length of the block.\<close>

definition group_length :: "u8 \<Rightarrow> nat option" where
  "group_length opc =
     (let g = drop_bit 5 opc in
      if g = 0 then Some 6 else if g = 1 \<or> g = 2 then Some 10 else if g = 5 then Some 12 else None)"

definition cdb_framed :: "u8 list \<Rightarrow> bool" where
  "cdb_framed cdb \<longleftrightarrow> group_length (cdb ! 0) = Some (length cdb) \<and> last cdb = 0"

text \<open>Reserved bits of the blocks with variable fields, as MMC lays them out (\<open>rsv\<close> marks them).\<close>

definition reserved_clear :: "u8 list \<Rightarrow> u8 list \<Rightarrow> bool" where
  "reserved_clear rsv cdb \<longleftrightarrow> list_all2 (\<lambda>m b. b AND m = 0) rsv cdb"

definition field16 :: "u8 list \<Rightarrow> nat \<Rightarrow> u16" where
  "field16 p i = push_bit 8 (ucast (p ! i)) OR ucast (p ! (i + 1))"

definition field24 :: "u8 list \<Rightarrow> nat \<Rightarrow> u32" where
  "field24 p i = push_bit 16 (ucast (p ! i)) OR push_bit 8 (ucast (p ! (i + 1)))
     OR ucast (p ! (i + 2))"

declare bit_mask_literals [simp]

lemma field16_hi_lo [simp]: "push_bit 8 (ucast (hi8 v)) OR ucast (lo8 v) = (v :: u16)"
proof (rule bit_word_eqI, goal_cases)
  case (1 n)
  then show ?case by (cases "n < 8") (auto simp: hi8_def lo8_def bit_simps)
qed

lemma be32_fields:
  "push_bit 24 (ucast (ucast (drop_bit 24 v) :: u8)) OR push_bit 16 (ucast (ucast (drop_bit 16 v) :: u8))
     OR push_bit 8 (ucast (ucast (drop_bit 8 v) :: u8)) OR ucast (ucast v :: u8) = (v :: u32)"
proof (rule bit_word_eqI, goal_cases)
  case (1 n)
  then consider "n < 8" | "8 \<le> n" "n < 16" | "16 \<le> n" "n < 24" | "24 \<le> n" "n < 32" by force
  then show ?case by cases (auto simp: bit_simps dest: bit_imp_le_length)
qed

lemma field24_fields:
  "push_bit 16 (ucast (ucast (drop_bit 16 v) :: u8))
     OR push_bit 8 (ucast (ucast (drop_bit 8 v) :: u8)) OR ucast (ucast v :: u8) = take_bit 24 (v :: u32)"
proof (rule bit_word_eqI, goal_cases)
  case (1 n)
  then consider "n < 8" | "8 \<le> n" "n < 16" | "16 \<le> n" "n < 24" | "24 \<le> n" "n < 32" by force
  then show ?case by cases (auto simp: bit_simps dest: bit_imp_le_length)
qed

lemma ucast_and_ff [simp]: "(ucast (v AND 0xff) :: u8) = ucast (v :: u32)"
  by (rule bit_word_eqI) (simp add: bit_simps)

lemma put_be32_bytes:
  "length (put_be32 v) = 4"
  "put_be32 v ! 0 = ucast (drop_bit 24 v)" "put_be32 v ! Suc 0 = ucast (drop_bit 16 v)"
  "put_be32 v ! 2 = ucast (drop_bit 8 v)" "put_be32 v ! 3 = ucast v"
  by (simp_all add: put_be32_def)

lemma be32_put_be32: "length pre = i \<Longrightarrow> be32 (pre @ put_be32 v @ r) i = v"
  by (simp add: be32_def nth_append put_be32_bytes be32_fields)

text \<open>Rules that read a field whose bytes are known.\<close>

lemma be32_at:
  "p ! i = ucast (drop_bit 24 v) \<Longrightarrow> p ! (i + 1) = ucast (drop_bit 16 v) \<Longrightarrow>
   p ! (i + 2) = ucast (drop_bit 8 v) \<Longrightarrow> p ! (i + 3) = ucast v \<Longrightarrow> be32 p i = v"
  by (simp only: be32_def be32_fields)

lemma field24_at:
  "p ! i = ucast (drop_bit 16 v) \<Longrightarrow> p ! (i + 1) = ucast (drop_bit 8 v) \<Longrightarrow>
   p ! (i + 2) = ucast v \<Longrightarrow> field24 p i = take_bit 24 v"
  by (simp only: field24_def field24_fields)

lemma field16_at: "p ! i = hi8 v \<Longrightarrow> p ! (i + 1) = lo8 v \<Longrightarrow> field16 p i = v"
  by (simp only: field16_def field16_hi_lo)

lemmas cdb_defs = adsc_cdb_inquiry_def adsc_cdb_start_stop_def adsc_cdb_read_toc_def
  adsc_cdb_read_buffer_capacity_def adsc_cdb_read_disc_info_def adsc_cdb_write10_def
  adsc_cdb_sync_cache_def adsc_cdb_send_cue_def adsc_cdb_send_opc_def adsc_cdb_get_performance_def
  adsc_cdb_set_streaming_def adsc_cdb_set_cd_speed_def adsc_cdb_get_configuration_def
  adsc_cdb_mode_sense10_def adsc_cdb_mode_select10_def adsc_cdb_read_cd_def


lemma byte_cases: "n < 8 \<Longrightarrow> n \<in> {0, 1, 2, 3, 4, 5, 6, 7 :: nat}"
  by auto

lemma and_ucast_masks:
  "(ucast (push_bit 1 (x AND 1)) :: u8) AND 0xfd = 0"
  "(ucast (x AND 0x0f) :: u8) AND 0xf0 = 0"
  "(ucast (push_bit 2 (x AND 0x07)) :: u8) AND 0xe3 = 0"
  "(ucast (0x10 OR push_bit 1 (x AND 0x03)) :: u8) AND 0xe9 = 0"
  "(ucast (x AND 0x07) :: u8) AND 0xf8 = 0"
  for x :: u32
  by (rule bit_word_eqI, simp, drule byte_cases, auto simp: bit_simps)+


section \<open>Record length\<close>

text \<open>
  What READ CD asks for is what the library reserves. For every selection of C2 and
  subchannel the library uses, the record length is the audio, C2 and subchannel bytes in this
  order, and never more than the 2744 bytes of the largest record.
\<close>

theorem sector_len_fields:
  assumes "c2 = 0 \<and> c2_len = 0 \<or> c2 = 1 \<and> c2_len = 294 \<or> c2 = 2 \<and> c2_len = 296"
    and "sub = 0 \<and> sub_len = 0 \<or> sub = 1 \<and> sub_len = 96 \<or> sub = 2 \<and> sub_len = 16"
  shows "unat (adsc_read_cd_sector_len c2 sub) = 2352 + c2_len + sub_len
       \<and> unat (adsc_read_cd_sector_len c2 sub) \<le> 2744"
  using assms by (auto simp: adsc_read_cd_sector_len_def)

theorem sector_len_fields_witness: "unat (adsc_read_cd_sector_len 1 1) = 2742"
  using sector_len_fields [of 1 294 1 96] by simp

section \<open>Speeds\<close>

text \<open>
  The speed conversion. Up to the 24265351x where the 32-bit product wraps, the result is
  177 kB/s per x, clamped to the largest 16-bit value; so it never falls as the speed asked for
  grows. Just above, the clamp is skipped: a caller asking for 24265352x gets 8 kB/s.
\<close>

theorem cd_speed_kbps_bounds:
  assumes "unat s \<le> 24265351"
  shows "unat (adsc_cd_speed_kbps s) = min 65535 (unat s * 177)
       \<and> (\<forall>t. unat t \<le> unat s \<longrightarrow> adsc_cd_speed_kbps t \<le> adsc_cd_speed_kbps s)
       \<and> adsc_cd_speed_kbps 24265352 = 8"
proof -
  have eq: "unat (adsc_cd_speed_kbps t) = min 65535 (unat t * 177)" if "unat t \<le> 24265351" for t
  proof -
    have p: "unat (t * 177) = unat t * 177"
      using that by (subst unat_mult_lem [THEN iffD1]) simp_all
    then show ?thesis
      by (auto simp: adsc_cd_speed_kbps_def Let_def word_less_nat_alt unsigned_ucast_eq take_bit_eq_mod)
  qed
  have "adsc_cd_speed_kbps t \<le> adsc_cd_speed_kbps s" if "unat t \<le> unat s" for t
    using eq [of t] eq [OF assms] that assms unfolding word_le_nat_alt by simp
  moreover have "adsc_cd_speed_kbps 24265352 = 8" by (simp add: adsc_cd_speed_kbps_def)
  ultimately show ?thesis using eq [OF assms] by blast
qed

theorem cd_speed_kbps_bounds_witness: "unat (adsc_cd_speed_kbps 24) = 4248"
  using cd_speed_kbps_bounds [of 24] by simp

text \<open>
  The SET STREAMING descriptor. It always carries the caller's range. A ceiling of up to
  2434788x asks for 176.4 kB/s per x each 1000 ms, pins it only when the caller asked for it,
  and passes on the write rate it was given; speed zero restores the defaults with every rate
  field zero.
\<close>

theorem streaming_desc_fields:
  assumes "unat x \<le> 2434788"
  shows "length (adsc_cdb_set_streaming_desc x a b e w) = 28
       \<and> be32 (adsc_cdb_set_streaming_desc x a b e w) 4 = a
       \<and> be32 (adsc_cdb_set_streaming_desc x a b e w) 8 = b
       \<and> (if x = 0 then adsc_cdb_set_streaming_desc x a b e w ! 0 = 4
            \<and> drop 12 (adsc_cdb_set_streaming_desc x a b e w) = replicate 16 0
          else adsc_cdb_set_streaming_desc x a b e w ! 0 = (if e = 0 then 0 else 2)
            \<and> unat (be32 (adsc_cdb_set_streaming_desc x a b e w) 12) = unat x * 1764 div 10
            \<and> be32 (adsc_cdb_set_streaming_desc x a b e w) 16 = 1000
            \<and> be32 (adsc_cdb_set_streaming_desc x a b e w) 20 = w
            \<and> be32 (adsc_cdb_set_streaming_desc x a b e w) 24 = 1000)"
proof -
  have "unat (x * 1764) = unat x * 1764"
    using assms by (subst unat_mult_lem [THEN iffD1]) simp_all
  then have p: "unat (x * 1764 div 10) = unat x * 1764 div 10" by (simp add: unat_div)
  show ?thesis
    by (auto simp: adsc_cdb_set_streaming_desc_def Let_def be32_def nth_append put_be32_bytes
        be32_fields p)
qed

theorem streaming_desc_fields_witness:
  "unat (be32 (adsc_cdb_set_streaming_desc 8 0 4294967295 0 1411) 12) = 1411"
  using streaming_desc_fields [where x = 8 and a = 0 and b = 4294967295 and e = 0 and w = 1411] by simp

end
