(* ===== verification/CdText.thy ===== *)
theory CdText
  imports Crc
begin

text \<open>
  CD-Text decoding: \<^verbatim>\<open>src/meta/cdtext.c\<close>. A text field is modelled by the bytes in front of
  its terminating NUL. The results: a blob whose acceptable packs of each type carry a written
  stream, in whatever order the types interleave and whatever rejected packs stand between them,
  decodes to exactly the strings written, gaps in the track numbers included; and a blob with one
  damaged pack can decode to a string that was never on the disc.
\<close>

section \<open>Data\<close>

definition text_max :: nat where "text_max = 160"

definition pack_len :: nat where "pack_len = 18"

record accudisc_cdtext_strings =
  cs_title :: "u8 list"
  cs_performer :: "u8 list"
  cs_songwriter :: "u8 list"
  cs_code :: "u8 list"

record accudisc_cdtext =
  cdt_album :: accudisc_cdtext_strings
  cdt_track :: "accudisc_cdtext_strings list"

definition strings_zero :: accudisc_cdtext_strings where
  "strings_zero = \<lparr> cs_title = [], cs_performer = [], cs_songwriter = [], cs_code = [] \<rparr>"

definition cdtext_zero :: accudisc_cdtext where
  "cdtext_zero = \<lparr> cdt_album = strings_zero, cdt_track = replicate 100 strings_zero \<rparr>"

text \<open>\<open>field_for\<close> returns a pointer; the model reads and writes the field it points to.\<close>

definition get_type :: "u8 \<Rightarrow> accudisc_cdtext_strings \<Rightarrow> u8 list option" where
  "get_type ty s = (if ty = 0x80 then Some (cs_title s) else if ty = 0x81 then Some (cs_performer s)
     else if ty = 0x82 then Some (cs_songwriter s) else if ty = 0x8e then Some (cs_code s) else None)"

definition set_type :: "u8 \<Rightarrow> u8 list \<Rightarrow> accudisc_cdtext_strings \<Rightarrow> accudisc_cdtext_strings" where
  "set_type ty v s = (if ty = 0x80 then s\<lparr> cs_title := v \<rparr> else if ty = 0x81 then s\<lparr> cs_performer := v \<rparr>
     else if ty = 0x82 then s\<lparr> cs_songwriter := v \<rparr> else if ty = 0x8e then s\<lparr> cs_code := v \<rparr> else s)"

definition field_for :: "accudisc_cdtext \<Rightarrow> u8 \<Rightarrow> int \<Rightarrow> u8 list option" where
  "field_for t ty track =
     (if track < 0 \<or> track > 99 then None
      else get_type ty (if track = 0 then cdt_album t else cdt_track t ! nat track))"

definition set_field :: "accudisc_cdtext \<Rightarrow> u8 \<Rightarrow> int \<Rightarrow> u8 list \<Rightarrow> accudisc_cdtext" where
  "set_field t ty track v =
     (if track < 0 \<or> track > 99 then t
      else if track = 0 then t\<lparr> cdt_album := set_type ty v (cdt_album t) \<rparr>
      else t\<lparr> cdt_track := (cdt_track t)[nat track := set_type ty v (cdt_track t ! nat track)] \<rparr>)"

section \<open>The assembler\<close>

record assembler =
  asm_track :: int
  asm_buf :: "u8 list"

definition asm_init :: assembler where
  "asm_init = \<lparr> asm_track = -1, asm_buf = [] \<rparr>"

definition put_char :: "u8 \<Rightarrow> u8 \<Rightarrow> accudisc_cdtext \<times> assembler \<Rightarrow> accudisc_cdtext \<times> assembler" where
  "put_char ty c = (\<lambda>(t, a).
     if c \<noteq> 0 then
       (t, if length (asm_buf a) < text_max - 1 then a\<lparr> asm_buf := asm_buf a @ [c] \<rparr> else a)
     else
       let t' =
         (case field_for t ty (asm_track a) of
            None \<Rightarrow> t
          | Some _ \<Rightarrow>
              if asm_buf a = [9] \<and> asm_track a \<ge> 1 then
                (case field_for t ty (asm_track a - 1) of
                   Some prev \<Rightarrow> set_field t ty (asm_track a) prev
                 | None \<Rightarrow> set_field t ty (asm_track a) [])
              else set_field t ty (asm_track a) (asm_buf a))
       in (t', a\<lparr> asm_track := asm_track a + 1, asm_buf := [] \<rparr>))"

section \<open>Packs\<close>

definition pack_crc_ok :: "u8 list \<Rightarrow> bool" where
  "pack_crc_ok p \<longleftrightarrow>
     adsc_crc16 (take 16 p) = NOT (push_bit 8 (ucast (p ! 16)) OR ucast (p ! 17))"

text \<open>The type of a pack the decoder uses; \<open>None\<close> for every pack it skips.\<close>

definition pack_type :: "u8 list \<Rightarrow> u8 option" where
  "pack_type p =
     (if \<not> pack_crc_ok p then None
      else if p ! 1 AND 0x80 \<noteq> 0 then None
      else if p ! 3 AND 0x80 \<noteq> 0 then None
      else if drop_bit 4 (p ! 3) AND 0x07 \<noteq> 0 then None
      else if p ! 0 \<in> {0x80, 0x81, 0x82, 0x8e} then Some (p ! 0)
      else None)"

record decoder =
  dec_text :: accudisc_cdtext
  dec_asm :: "u8 \<Rightarrow> assembler"
  dec_used :: nat

definition decoder_init :: decoder where
  "decoder_init = \<lparr> dec_text = cdtext_zero, dec_asm = (\<lambda>_. asm_init), dec_used = 0 \<rparr>"

definition use_pack :: "u8 list \<Rightarrow> decoder \<Rightarrow> decoder" where
  "use_pack p d =
     (case pack_type p of
        None \<Rightarrow> d
      | Some ty \<Rightarrow>
          let a = (dec_asm d ty)\<lparr> asm_track := int (unat (p ! 1 AND 0x7f)) \<rparr>;
              (t, a) = fold (put_char ty) (slice 4 12 p) (dec_text d, a)
          in d\<lparr> dec_text := t, dec_asm := (dec_asm d)(ty := a), dec_used := dec_used d + 1 \<rparr>)"

text \<open>The pack loop: it starts behind the four header bytes and drops a partial pack.\<close>

function packs_from :: "u8 list \<Rightarrow> u8 list list" where
  "packs_from raw =
     (if length raw < 18 then [] else take 18 raw # packs_from (drop 18 raw))"
  by auto
termination by (relation "measure length") auto

declare packs_from.simps [simp del]

definition accudisc_cdtext_decode :: "u8 list \<Rightarrow> accudisc_cdtext res" where
  "accudisc_cdtext_decode raw =
     (if length raw < 4 + pack_len then Inl ERR_SHORT
      else let d = fold use_pack (packs_from (drop 4 raw)) decoder_init
           in if dec_used d = 0 then Inl ERR_SHORT else Inr (dec_text d))"

section \<open>Fields of one type\<close>

definition cdtext_wf :: "accudisc_cdtext \<Rightarrow> bool" where
  "cdtext_wf t \<longleftrightarrow> length (cdt_track t) = 100"

definition text_types :: "u8 list" where
  "text_types = [0x80, 0x81, 0x82, 0x8e]"

text \<open>What a type's fields hold, as a function of the track number.\<close>

definition column :: "u8 \<Rightarrow> accudisc_cdtext \<Rightarrow> int \<Rightarrow> u8 list option" where
  "column ty t track = field_for t ty track"

lemma get_set_type [simp]:
  "ty \<in> set text_types \<Longrightarrow> get_type ty (set_type ty' v s) = (if ty = ty' then Some v else get_type ty s)"
  by (auto simp: get_type_def set_type_def text_types_def)

lemma get_type_Some: "ty \<in> set text_types \<Longrightarrow> \<exists>v. get_type ty s = Some v"
  by (auto simp: get_type_def text_types_def)

lemma set_field_wf [simp]: "cdtext_wf t \<Longrightarrow> cdtext_wf (set_field t ty k v)"
  by (auto simp: cdtext_wf_def set_field_def)

lemma column_set_field:
  assumes "cdtext_wf t" and "ty \<in> set text_types"
  shows "column ty (set_field t ty' k v) =
    (if ty = ty' \<and> 0 \<le> k \<and> k \<le> 99 then (column ty t)(k := Some v) else column ty t)"
  using assms
  by (intro ext) (auto simp: column_def field_for_def set_field_def cdtext_wf_def)

lemma column_in_range:
  "ty \<in> set text_types \<Longrightarrow> 0 \<le> k \<Longrightarrow> k \<le> 99 \<Longrightarrow> \<exists>v. column ty t k = Some v"
  by (simp add: column_def field_for_def get_type_Some)

lemma put_char_nul:
  assumes "cdtext_wf t" and "ty \<in> set text_types"
    and "asm_buf a \<noteq> [9]" and "0 \<le> asm_track a" and "asm_track a \<le> 99"
  shows "put_char ty 0 (t, a) =
    (set_field t ty (asm_track a) (asm_buf a), a\<lparr> asm_track := asm_track a + 1, asm_buf := [] \<rparr>)"
  using column_in_range [OF assms(2,4,5), of t] assms(3)
  by (auto simp: put_char_def column_def Let_def)

lemma put_char_wf: "cdtext_wf t \<Longrightarrow> cdtext_wf (fst (put_char ty c (t, a)))"
  by (auto simp: put_char_def Let_def split: option.split)

lemma put_char_other:
  "cdtext_wf t \<Longrightarrow> ty \<in> set text_types \<Longrightarrow> ty \<noteq> ty' \<Longrightarrow>
   column ty (fst (put_char ty' c (t, a))) = column ty t"
  by (auto simp: put_char_def Let_def column_set_field split: option.split)

section \<open>One type at a time\<close>

text \<open>
  The decoder keeps the types apart, so each column is decoded by its own packs alone: a pack
  is the event that names the track, then twelve byte events.
\<close>

datatype event = Sync int | Byte u8

fun col_step :: "event \<Rightarrow> (int \<Rightarrow> u8 list option) \<times> assembler \<Rightarrow> (int \<Rightarrow> u8 list option) \<times> assembler" where
  "col_step (Sync k) (col, a) = (col, a\<lparr> asm_track := k \<rparr>)"
| "col_step (Byte c) (col, a) =
     (if c \<noteq> 0 then
        (col, if length (asm_buf a) < text_max - 1 then a\<lparr> asm_buf := asm_buf a @ [c] \<rparr> else a)
      else
        (if 0 \<le> asm_track a \<and> asm_track a \<le> 99 then
           col(asm_track a := if asm_buf a = [9] \<and> asm_track a \<ge> 1 then col (asm_track a - 1)
                              else Some (asm_buf a))
         else col, a\<lparr> asm_track := asm_track a + 1, asm_buf := [] \<rparr>))"

definition pack_events :: "u8 list \<Rightarrow> event list" where
  "pack_events p = Sync (int (unat (p ! 1 AND 0x7f))) # map Byte (slice 4 12 p)"

lemma put_char_col:
  assumes "cdtext_wf t" and ty: "ty \<in> set text_types"
  shows "(column ty (fst (put_char ty c (t, a))), snd (put_char ty c (t, a)))
    = col_step (Byte c) (column ty t, a)"
proof (cases "c = 0 \<and> 0 \<le> asm_track a \<and> asm_track a \<le> 99")
  case True
  then obtain v where v: "field_for t ty (asm_track a) = Some v"
    using column_in_range [OF ty, of "asm_track a" t] by (auto simp: column_def)
  show ?thesis
  proof (cases "asm_buf a = [9] \<and> asm_track a \<ge> 1")
    case tab: True
    then obtain w where w: "field_for t ty (asm_track a - 1) = Some w"
      using column_in_range [OF ty, of "asm_track a - 1" t] True by (auto simp: column_def)
    then have "column ty t (asm_track a - 1) = Some w" by (simp add: column_def)
    then show ?thesis
      using True tab assms v w by (simp add: put_char_def Let_def column_set_field)
  next
    case False
    then show ?thesis using True assms v by (auto simp: put_char_def Let_def column_set_field)
  qed
next
  case False
  then show ?thesis using assms by (auto simp: put_char_def Let_def field_for_def)
qed

lemma fold_put_char_col:
  assumes "cdtext_wf t" and "ty \<in> set text_types"
  shows "(column ty (fst (fold (put_char ty) cs (t, a))), snd (fold (put_char ty) cs (t, a)))
    = fold col_step (map Byte cs) (column ty t, a)"
  using assms
proof (induction cs arbitrary: t a)
  case (Cons c cs)
  obtain t' a' where r: "put_char ty c (t, a) = (t', a')" by fastforce
  have "cdtext_wf t'" using put_char_wf [OF Cons.prems(1), of ty c a] r by simp
  then show ?case using Cons put_char_col [OF Cons.prems, of c a] r by simp
qed simp

lemma fold_put_char_other:
  assumes "cdtext_wf t" and "ty \<in> set text_types" and "ty \<noteq> ty'"
  shows "column ty (fst (fold (put_char ty') cs (t, a))) = column ty t
       \<and> cdtext_wf (fst (fold (put_char ty') cs (t, a)))"
  using assms
proof (induction cs arbitrary: t a)
  case (Cons c cs)
  obtain t' a' where r: "put_char ty' c (t, a) = (t', a')" by fastforce
  have "cdtext_wf t'" "column ty t' = column ty t"
    using put_char_wf [OF Cons.prems(1), of ty' c a] put_char_other [OF Cons.prems, of c a] r by simp_all
  then show ?case using Cons r by simp
qed simp

lemma fold_put_char_wf: "cdtext_wf t \<Longrightarrow> cdtext_wf (fst (fold (put_char ty') cs (t, a)))"
proof (induction cs arbitrary: t a)
  case (Cons c cs)
  obtain t' a' where r: "put_char ty' c (t, a) = (t', a')" by fastforce
  then show ?case using Cons put_char_wf [of t ty' c a] by simp
qed simp

lemma pack_type_types: "pack_type p = Some ty \<Longrightarrow> ty \<in> set text_types"
  by (auto simp: pack_type_def text_types_def split: if_splits)

lemma use_pack_col:
  assumes "cdtext_wf (dec_text d)" and ty: "ty \<in> set text_types"
  shows "(column ty (dec_text (use_pack p d)), dec_asm (use_pack p d) ty)
      = (if pack_type p = Some ty then fold col_step (pack_events p) (column ty (dec_text d), dec_asm d ty)
         else (column ty (dec_text d), dec_asm d ty))"
    and "cdtext_wf (dec_text (use_pack p d))"
    and "dec_used (use_pack p d) = dec_used d + (if pack_type p = None then 0 else 1)"
proof -
  define a where "a = (\<lambda>ty'. (dec_asm d ty')\<lparr> asm_track := int (unat (p ! 1 AND 0x7f)) \<rparr>)"
  define r where "r = (\<lambda>ty'. fold (put_char ty') (slice 4 12 p) (dec_text d, a ty'))"
  have u: "use_pack p d = (case pack_type p of None \<Rightarrow> d | Some ty' \<Rightarrow>
      d\<lparr> dec_text := fst (r ty'), dec_asm := (dec_asm d)(ty' := snd (r ty')), dec_used := dec_used d + 1 \<rparr>)"
    by (simp add: use_pack_def r_def a_def Let_def split_beta split: option.split)
  show "dec_used (use_pack p d) = dec_used d + (if pack_type p = None then 0 else 1)"
    by (simp add: u split: option.split)
  show "cdtext_wf (dec_text (use_pack p d))"
    using fold_put_char_wf [OF assms(1)] assms(1) by (simp add: u r_def split: option.split)
  have "(column ty (fst (r ty)), snd (r ty)) = fold col_step (pack_events p) (column ty (dec_text d), dec_asm d ty)"
    using fold_put_char_col [OF assms, of "slice 4 12 p" "a ty"]
    by (simp add: r_def pack_events_def a_def)
  moreover have "column ty (fst (r ty')) = column ty (dec_text d)" if "ty \<noteq> ty'" for ty'
    using fold_put_char_other [OF assms that] by (simp add: r_def)
  ultimately show "(column ty (dec_text (use_pack p d)), dec_asm (use_pack p d) ty)
      = (if pack_type p = Some ty then fold col_step (pack_events p) (column ty (dec_text d), dec_asm d ty)
         else (column ty (dec_text d), dec_asm d ty))"
    by (cases "pack_type p = Some ty") (auto simp: u split: option.split)
qed

lemma decode_col:
  assumes "cdtext_wf (dec_text d)" and ty: "ty \<in> set text_types"
  shows "(column ty (dec_text (fold use_pack ps d)), dec_asm (fold use_pack ps d) ty)
    = fold col_step (concat (map pack_events (filter (\<lambda>p. pack_type p = Some ty) ps)))
        (column ty (dec_text d), dec_asm d ty)"
    and "dec_used (fold use_pack ps d) = dec_used d + length (filter (\<lambda>p. pack_type p \<noteq> None) ps)"
  using assms
proof (induction ps arbitrary: d)
  case (Cons p ps)
  {
    case 1
    then show ?case
      using Cons.IH(1) [OF use_pack_col(2) [OF 1]] use_pack_col(1) [OF 1, of p] by simp
  next
    case 2
    then show ?case
      using Cons.IH(2) [OF use_pack_col(2) [OF 2]] use_pack_col(3) [OF 2, of p] by simp
  }
qed simp_all

section \<open>Written streams\<close>

text \<open>
  What a disc carries for one type: the strings in ascending track order, each with its
  terminator, cut into packs of twelve bytes. A pack's header names the track whose string its
  first byte belongs to. A track without a string leaves no trace in the stream.
\<close>

type_synonym tagged = "(u8 \<times> nat) list"

definition tag_string :: "nat \<times> u8 list \<Rightarrow> tagged" where
  "tag_string e = map (\<lambda>b. (b, fst e)) (snd e @ [0])"

definition pad_stream :: "tagged \<Rightarrow> tagged" where
  "pad_stream bts = bts @ replicate ((12 - length bts mod 12) mod 12) (0, 0)"

definition stream_of :: "(nat \<times> u8 list) list \<Rightarrow> tagged" where
  "stream_of strs = pad_stream (concat (map tag_string strs))"

definition seal_pack :: "u8 \<Rightarrow> nat \<Rightarrow> u8 \<Rightarrow> u8 list \<Rightarrow> u8 list" where
  "seal_pack ty track seq chars =
     (let p = [ty, word_of_nat track, seq, 0] @ chars; c = NOT (adsc_crc16 p)
      in p @ [ucast (drop_bit 8 c), ucast c])"

function write_packs :: "u8 \<Rightarrow> u8 \<Rightarrow> tagged \<Rightarrow> u8 list list" where
  "write_packs ty seq bts =
     (if bts = [] then []
      else seal_pack ty (snd (hd bts)) seq (map fst (take 12 bts))
           # write_packs ty (seq + 1) (drop 12 bts))"
  by auto
termination by (relation "measure (\<lambda>(ty, seq, bts). length bts)") (auto simp: length_greater_0_conv)

declare write_packs.simps [simp del]

text \<open>The same stream as events, byte by byte, \<open>p\<close> bytes into the type's payload.\<close>

fun stream_events :: "nat \<Rightarrow> tagged \<Rightarrow> event list" where
  "stream_events p [] = []"
| "stream_events p ((b, k) # bts) =
     (if p mod 12 = 0 then [Sync (int k)] else []) @ Byte b # stream_events (p + 1) bts"

lemma stream_events_append:
  "stream_events p (xs @ ys) = stream_events p xs @ stream_events (p + length xs) ys"
  by (induction xs arbitrary: p) auto

lemma stream_events_no_sync:
  "(\<And>i. i < length bts \<Longrightarrow> (p + i) mod 12 \<noteq> 0) \<Longrightarrow> stream_events p bts = map (Byte \<circ> fst) bts"
proof (induction bts arbitrary: p)
  case (Cons bk bts)
  have "p mod 12 \<noteq> 0" using Cons.prems [of 0] by simp
  moreover have "(Suc p + i) mod 12 \<noteq> 0" if "i < length bts" for i
    using Cons.prems [of "Suc i"] that by simp
  ultimately show ?case using Cons.IH [of "Suc p"] by (cases bk) simp
qed simp

lemma seal_pack_parts:
  assumes "length chars = 12"
  shows "length (seal_pack ty k seq chars) = 18" and "slice 4 12 (seal_pack ty k seq chars) = chars"
    and "seal_pack ty k seq chars ! 0 = ty" and "seal_pack ty k seq chars ! Suc 0 = word_of_nat k"
    and "seal_pack ty k seq chars ! 3 = 0" and "pack_crc_ok (seal_pack ty k seq chars)"
proof -
  have split: "push_bit 8 (ucast (ucast (drop_bit 8 x) :: u8)) OR ucast (ucast x :: u8) = x" for x :: u16
    by (rule bit_word_eqI)
      (auto simp: bit_or_iff bit_push_bit_iff bit_ucast_iff bit_drop_bit_eq)
  show "length (seal_pack ty k seq chars) = 18" "slice 4 12 (seal_pack ty k seq chars) = chars"
    "seal_pack ty k seq chars ! 0 = ty" "seal_pack ty k seq chars ! Suc 0 = word_of_nat k"
    "seal_pack ty k seq chars ! 3 = 0"
    using assms by (simp_all add: seal_pack_def Let_def slice_def)
  show "pack_crc_ok (seal_pack ty k seq chars)"
    using assms by (simp add: pack_crc_ok_def seal_pack_def Let_def nth_append split)
qed

lemma track_byte: "k \<le> 99 \<Longrightarrow> unat ((word_of_nat k :: u8) AND 0x7f) = k"
  and track_byte_plain: "k \<le> 99 \<Longrightarrow> (word_of_nat k :: u8) AND 0x80 = 0"
proof -
  assume "k \<le> 99"
  then have "k \<in> set [0..<100]" by simp
  moreover have "list_all (\<lambda>k. unat ((word_of_nat k :: u8) AND 0x7f) = k
      \<and> (word_of_nat k :: u8) AND 0x80 = 0) [0..<100]" by code_simp
  ultimately show "unat ((word_of_nat k :: u8) AND 0x7f) = k" "(word_of_nat k :: u8) AND 0x80 = 0"
    unfolding list_all_iff by blast+
qed

lemma pack_type_seal:
  assumes "length chars = 12" and "k \<le> 99" and "ty \<in> set text_types"
  shows "pack_type (seal_pack ty k seq chars) = Some ty"
  using assms by (auto simp: pack_type_def seal_pack_parts track_byte_plain text_types_def)

lemma write_packs_events:
  assumes "length bts mod 12 = 0" and "p mod 12 = 0" and "\<forall>x \<in> set bts. snd x \<le> 99"
  shows "concat (map pack_events (write_packs ty seq bts)) = stream_events p bts"
  using assms
proof (induction ty seq bts arbitrary: p rule: write_packs.induct)
  case (1 ty seq bts)
  show ?case
  proof (cases "bts = []")
    case True
    then show ?thesis by (simp add: write_packs.simps)
  next
    case False
    then have l: "12 \<le> length bts" using "1.prems"(1)
      by (metis length_0_conv mod_less not_less)
    obtain b k r where bk: "bts = (b, k) # r" using False by (cases bts) auto
    have k: "k \<le> 99" using "1.prems"(3) bk by simp
    have "stream_events p (take 12 bts) = Sync (int k) # map Byte (map fst (take 12 bts))"
    proof -
      have "(Suc p + i) mod 12 \<noteq> 0" if "i < 11" for i
        using "1.prems"(2) that by presburger
      then have "stream_events (Suc p) (take 11 r) = map (Byte \<circ> fst) (take 11 r)"
        by (intro stream_events_no_sync) simp
      then show ?thesis using bk "1.prems"(2) by (simp add: take_Cons')
    qed
    then have e: "pack_events (seal_pack ty (snd (hd bts)) seq (map fst (take 12 bts)))
        = stream_events p (take 12 bts)"
      using l bk k by (simp add: pack_events_def seal_pack_parts track_byte)
    have "length (drop 12 bts) mod 12 = 0" using "1.prems"(1) l by (simp add: le_mod_geq)
    then have "concat (map pack_events (write_packs ty (seq + 1) (drop 12 bts)))
        = stream_events (p + 12) (drop 12 bts)"
      using "1.IH" [OF False, of "p + 12"] "1.prems"(2,3) by (auto dest: in_set_dropD)
    then show ?thesis
      using False e l stream_events_append [of p "take 12 bts" "drop 12 bts"]
      by (subst write_packs.simps) (simp add: min_def)
  qed
qed

section \<open>Reading a stream back\<close>

text \<open>
  A string the fields can hold, other than the single TAB that means a repetition, and placed so
  that the decoder knows its track when the terminator arrives: its track is the one after the
  previous string's, or a pack starts inside it.
\<close>

definition string_ok :: "u8 list \<Rightarrow> bool" where
  "string_ok s \<longleftrightarrow> 0 \<notin> set s \<and> length s < text_max \<and> s \<noteq> [9]"

fun placed :: "nat \<Rightarrow> int \<Rightarrow> (nat \<times> u8 list) list \<Rightarrow> bool" where
  "placed p c [] \<longleftrightarrow> True"
| "placed p c ((k, s) # strs) \<longleftrightarrow>
     string_ok s \<and> k \<le> 99 \<and> c \<le> int k
     \<and> (c = int k \<or> (\<exists>i \<in> set [0..<Suc (length s)]. (p + i) mod 12 = 0))
     \<and> placed (p + length s + 1) (int k + 1) strs"

lemma fold_chars:
  assumes "0 \<notin> set xs" and "length buf + length xs < text_max"
  shows "fold col_step (stream_events p (map (\<lambda>b. (b, k)) xs)) (col, \<lparr> asm_track = c, asm_buf = buf \<rparr>)
    = (col, \<lparr> asm_track = (if \<exists>i < length xs. (p + i) mod 12 = 0 then int k else c),
              asm_buf = buf @ xs \<rparr>)"
  using assms
proof (induction xs arbitrary: p c buf)
  case (Cons x xs)
  have ex: "(\<exists>i < length (x # xs). (p + i) mod 12 = 0)
      \<longleftrightarrow> p mod 12 = 0 \<or> (\<exists>i < length xs. (p + 1 + i) mod 12 = 0)"
    by (auto simp: less_Suc_eq_0_disj)
  have len: "length buf < text_max - 1" using Cons.prems(2) by simp
  show ?case
    unfolding ex using Cons.IH [of "buf @ [x]" "p + 1"] Cons.prems len by auto
qed simp

lemma fold_string:
  assumes "string_ok s" and "k \<le> 99"
    and "c = int k \<or> (\<exists>i \<in> set [0..<Suc (length s)]. (p + i) mod 12 = 0)"
  shows "fold col_step (stream_events p (tag_string (k, s))) (col, \<lparr> asm_track = c, asm_buf = [] \<rparr>)
    = (col(int k := Some s), \<lparr> asm_track = int k + 1, asm_buf = [] \<rparr>)"
proof -
  define c' where "c' = (if \<exists>i < length s. (p + i) mod 12 = 0 then int k else c)"
  have "(p + length s) mod 12 = 0 \<or> c' = int k"
    using assms(3) by (auto simp: c'_def less_Suc_eq)
  then show ?thesis
    using fold_chars [of s "[]" p k col c] assms(1,2)
    by (auto simp: tag_string_def stream_events_append c'_def [symmetric] string_ok_def)
qed

lemma length_tag_string [simp]: "length (tag_string (k, s)) = length s + 1"
  by (simp add: tag_string_def)

definition put_string :: "nat \<times> u8 list \<Rightarrow> (int \<Rightarrow> u8 list option) \<Rightarrow> int \<Rightarrow> u8 list option" where
  "put_string e col = col(int (fst e) := Some (snd e))"

lemma fold_strings:
  assumes "placed p c strs"
  shows "fold col_step (stream_events p (concat (map tag_string strs))) (col, \<lparr> asm_track = c, asm_buf = [] \<rparr>)
    = (fold put_string strs col,
       \<lparr> asm_track = (if strs = [] then c else int (fst (last strs)) + 1), asm_buf = [] \<rparr>)"
  using assms
proof (induction strs arbitrary: p c col)
  case (Cons e strs)
  obtain k s where e: "e = (k, s)" by (cases e)
  have s: "fold col_step (stream_events p (tag_string (k, s))) (col, \<lparr> asm_track = c, asm_buf = [] \<rparr>)
    = (put_string (k, s) col, \<lparr> asm_track = int k + 1, asm_buf = [] \<rparr>)"
    using Cons.prems e fold_string [of s k c p col] by (simp add: put_string_def)
  have "placed (p + length s + 1) (int k + 1) strs" using Cons.prems e by simp
  from Cons.IH [OF this, of "put_string (k, s) col"] show ?case
    by (simp add: e stream_events_append s)
qed simp

text \<open>The pad bytes behind the last string store empty strings behind the last track.\<close>

lemma fold_padding:
  assumes "0 \<le> c"
  shows "\<exists>c'. fold col_step (replicate n (Byte 0)) (col, \<lparr> asm_track = c, asm_buf = [] \<rparr>)
    = (\<lambda>k. if c \<le> k \<and> k < c + int n \<and> k \<le> 99 then Some [] else col k, \<lparr> asm_track = c', asm_buf = [] \<rparr>)"
  using assms
proof (induction n arbitrary: c col)
  case (Suc n)
  define col' where "col' = (if c \<le> 99 then col(c := Some []) else col)"
  obtain c' where "fold col_step (replicate n (Byte 0)) (col', \<lparr> asm_track = c + 1, asm_buf = [] \<rparr>)
    = (\<lambda>k. if c + 1 \<le> k \<and> k < c + 1 + int n \<and> k \<le> 99 then Some [] else col' k,
       \<lparr> asm_track = c', asm_buf = [] \<rparr>)"
    using Suc.IH [of "c + 1" col'] Suc.prems by auto
  moreover have "(\<lambda>k. if c + 1 \<le> k \<and> k < c + 1 + int n \<and> k \<le> 99 then Some [] else col' k)
    = (\<lambda>k. if c \<le> k \<and> k < c + int (Suc n) \<and> k \<le> 99 then Some [] else col k)"
    by (auto simp: col'_def fun_eq_iff)
  moreover have "col_step (Byte 0) (col, \<lparr> asm_track = c, asm_buf = [] \<rparr>)
    = (col', \<lparr> asm_track = c + 1, asm_buf = [] \<rparr>)"
    using Suc.prems by (simp add: col'_def)
  ultimately show ?case by (simp del: col_step.simps)
qed (auto simp: fun_eq_iff)

definition lookup_string :: "(nat \<times> u8 list) list \<Rightarrow> nat \<Rightarrow> u8 list" where
  "lookup_string strs k = (case map_of strs k of Some s \<Rightarrow> s | None \<Rightarrow> [])"

lemma placed_above: "placed p c strs \<Longrightarrow> (k, s) \<in> set strs \<Longrightarrow> c \<le> int k"
  by (induction strs arbitrary: p c) force+

lemma placed_last: "placed p c strs \<Longrightarrow> (k, s) \<in> set strs \<Longrightarrow> k \<le> fst (last strs) \<and> k \<le> 99"
proof (induction strs arbitrary: p c)
  case (Cons e strs)
  obtain k0 s0 where e: "e = (k0, s0)" by (cases e)
  have p: "placed (p + length s0 + 1) (int k0 + 1) strs" using Cons.prems(1) e by simp
  have "k0 \<le> fst (last strs)" if "strs \<noteq> []"
    using placed_above [OF p, of "fst (last strs)" "snd (last strs)"] last_in_set [OF that] by simp
  then show ?case using Cons.IH [OF p] Cons.prems e by (cases "strs = []") auto
qed simp

lemma fold_columns:
  assumes "placed p c strs"
  shows "fold put_string strs col (int k)
    = (case map_of strs k of Some s \<Rightarrow> Some s | None \<Rightarrow> col (int k))"
  using assms
proof (induction strs arbitrary: p c col)
  case (Cons e strs)
  obtain k0 s0 where e: "e = (k0, s0)" by (cases e)
  have p: "placed (p + length s0 + 1) (int k0 + 1) strs" using Cons.prems e by simp
  have "map_of strs k0 = None"
    using placed_above [OF p] by (metis map_of_SomeD not_None_eq of_nat_1 of_nat_add of_nat_le_iff
        add.commute not_less_eq_eq plus_1_eq_Suc le_refl)
  then show ?case using Cons.IH [OF p] e by (auto simp: put_string_def split: option.split)
qed simp

text \<open>Padding to a multiple of twelve.\<close>

lemma pad_arith:
  fixes n :: nat
  shows "(n + (12 - n mod 12) mod 12) mod 12 = 0"
    and "i < (12 - n mod 12) mod 12 \<Longrightarrow> (n + i) mod 12 \<noteq> 0"
proof -
  define r where "r = n mod 12"
  have r: "r < 12" by (simp add: r_def)
  have m: "(n + i) mod 12 = (r + i) mod 12" for i by (simp add: r_def mod_add_left_eq)
  show "(n + (12 - n mod 12) mod 12) mod 12 = 0"
    unfolding m r_def [symmetric] using r by (cases "r = 0") simp_all
  show "(n + i) mod 12 \<noteq> 0" if "i < (12 - n mod 12) mod 12"
    using that r unfolding m r_def [symmetric] by (cases "r = 0") simp_all
qed

lemma stream_length: "length (stream_of strs) mod 12 = 0"
  by (simp add: stream_of_def pad_stream_def pad_arith(1))

lemma stream_read:
  assumes "placed 0 c strs" and "strs \<noteq> []" and "k \<le> 99"
    and col: "\<And>k. 0 \<le> k \<Longrightarrow> k \<le> 99 \<Longrightarrow> col k = Some []"
  shows "fst (fold col_step (stream_events 0 (stream_of strs)) (col, \<lparr> asm_track = c, asm_buf = [] \<rparr>)) (int k)
    = Some (lookup_string strs k)"
proof -
  define n where "n = length (concat (map tag_string strs))"
  define m where "m = (12 - n mod 12) mod 12"
  have "(n + i) mod 12 \<noteq> 0" if "i < m" for i
    using that pad_arith(2) unfolding m_def by blast
  then have pad: "stream_events n (replicate m (0, 0)) = replicate m (Byte 0)"
    by (subst stream_events_no_sync) simp_all
  define col1 where "col1 = fold put_string strs col"
  define t where "t = fst (last strs)"
  obtain c' where f: "fold col_step (replicate m (Byte 0)) (col1, \<lparr> asm_track = int t + 1, asm_buf = [] \<rparr>)
    = (\<lambda>k. if int t + 1 \<le> k \<and> k < int t + 1 + int m \<and> k \<le> 99 then Some [] else col1 k,
       \<lparr> asm_track = c', asm_buf = [] \<rparr>)"
    using fold_padding [of "int t + 1" m col1] by auto
  have c1: "col1 (int k) = Some (lookup_string strs k)"
    using fold_columns [OF assms(1)] col assms(3)
    by (auto simp: col1_def lookup_string_def split: option.split)
  have "lookup_string strs k = []" if "int t + 1 \<le> int k"
  proof -
    have "map_of strs k = None"
    proof (rule ccontr)
      assume "map_of strs k \<noteq> None"
      then obtain s where "(k, s) \<in> set strs" by (auto dest: map_of_SomeD)
      from placed_last [OF assms(1) this] show False using that by (simp add: t_def)
    qed
    then show ?thesis by (simp add: lookup_string_def)
  qed
  then show ?thesis
    using fold_strings [OF assms(1), of col] assms(2) c1
    by (simp add: stream_of_def pad_stream_def stream_events_append n_def [symmetric] m_def [symmetric]
        pad col1_def [symmetric] t_def [symmetric] f del: fold_replicate)
qed


lemma write_packs_types:
  assumes "length bts mod 12 = 0" and "\<forall>x \<in> set bts. snd x \<le> 99" and "ty \<in> set text_types"
  shows "\<forall>p \<in> set (write_packs ty seq bts). pack_type p = Some ty \<and> length p = 18"
  using assms
proof (induction ty seq bts rule: write_packs.induct)
  case (1 ty seq bts)
  show ?case
  proof (cases "bts = []")
    case True
    then show ?thesis by (simp add: write_packs.simps)
  next
    case False
    then have l: "12 \<le> length bts" using "1.prems"(1)
      by (metis length_0_conv mod_less not_less)
    then have "length (drop 12 bts) mod 12 = 0" using "1.prems"(1) by (simp add: le_mod_geq)
    then have "\<forall>p \<in> set (write_packs ty (seq + 1) (drop 12 bts)). pack_type p = Some ty \<and> length p = 18"
      using "1.IH" [OF False] "1.prems"(2,3) by (auto dest: in_set_dropD)
    moreover have "snd (hd bts) \<le> 99" using "1.prems"(2) False by simp
    ultimately show ?thesis
      using False l "1.prems"(3)
      by (subst write_packs.simps) (simp add: pack_type_seal seal_pack_parts)
  qed
qed

text \<open>Titles of tracks 1 and 3 of a disc whose track 2 has none.\<close>

definition gap_titles :: "(nat \<times> u8 list) list" where
  "gap_titles = [(1, replicate 5 0x41), (3, replicate 9 0x43)]"


section \<open>A damaged pack inside a stream\<close>

text \<open>
  Titles of two tracks that fill three packs; the second pack holds the end of the first title and
  the start of the second.
\<close>

definition two_titles :: "(nat \<times> u8 list) list" where
  "two_titles = [(1, replicate 16 0x41), (2, replicate 12 0x42)]"

definition titles_pack :: "nat \<Rightarrow> u8 list" where
  "titles_pack i = write_packs 0x80 0 (stream_of two_titles) ! i"

definition title_of :: "accudisc_cdtext res \<Rightarrow> int \<Rightarrow> u8 list option" where
  "title_of r k = (case r of Inr t \<Rightarrow> field_for t 0x80 k | Inl e \<Rightarrow> None)"

lemma two_titles_packs:
  "write_packs 0x80 0 (stream_of two_titles) =
     [seal_pack 0x80 1 0 (replicate 12 0x41),
      seal_pack 0x80 1 1 (replicate 4 0x41 @ [0] @ replicate 7 0x42),
      seal_pack 0x80 2 2 (replicate 5 0x42 @ [0] @ replicate 6 0)]"
proof -
  have s: "stream_of two_titles = map (\<lambda>b. (b, 1)) (replicate 12 0x41)
     @ (map (\<lambda>b. (b, 1)) (replicate 4 0x41 @ [0]) @ map (\<lambda>b. (b, 2)) (replicate 7 0x42))
     @ (map (\<lambda>b. (b, 2)) (replicate 5 0x42 @ [0]) @ map (\<lambda>b. (b, 0)) (replicate 6 0))"
    by code_simp
  show ?thesis
    unfolding s by (subst write_packs.simps, simp, subst write_packs.simps, simp,
      subst write_packs.simps, simp, subst write_packs.simps, simp)
qed

lemma damaged_payload_rejected:
  assumes "length p = 18" and "pack_crc_ok p" and "Suc i < 16" and "p[i := a] \<noteq> p"
  shows "\<not> pack_crc_ok (p[i := a])"
proof -
  have len: "length (take 16 p) = 16" using assms(1) by simp
  have ne: "(take 16 p)[i := a, Suc i := take 16 p ! Suc i] \<noteq> take 16 p"
    using assms(1,3,4) by (auto simp: list_eq_iff_nth_eq nth_list_update split: if_splits)
  have "adsc_crc16 ((take 16 p)[i := a, Suc i := take 16 p ! Suc i]) \<noteq> adsc_crc16 (take 16 p)"
    using c16.run_detects_pair [of i "take 16 p" a "take 16 p ! Suc i" 0] len assms(3) ne
    unfolding adsc_crc16_run by metis
  moreover have "(take 16 p)[i := a, Suc i := take 16 p ! Suc i] = take 16 (p[i := a])"
    using assms(1,3) by (auto simp: list_eq_iff_nth_eq nth_list_update)
  ultimately show ?thesis using assms(1-3) by (simp add: pack_crc_ok_def)
qed

text \<open>The three packs, and what the decoder keeps of them once the second is damaged.\<close>

definition damaged_packs :: "u8 list list" where
  "damaged_packs = [titles_pack 0, (titles_pack 1)[9 := 0x43], titles_pack 2]"

definition damaged_blob :: "u8 list" where
  "damaged_blob = replicate 4 0 @ concat damaged_packs"

lemma titles_packs:
  "titles_pack 0 = seal_pack 0x80 1 0 (replicate 12 0x41)"
  "titles_pack 1 = seal_pack 0x80 1 1 (replicate 4 0x41 @ [0] @ replicate 7 0x42)"
  "titles_pack 2 = seal_pack 0x80 2 2 (replicate 5 0x42 @ [0] @ replicate 6 0)"
  by (simp_all add: titles_pack_def two_titles_packs)

lemma titles_packs_ok:
  "pack_crc_ok (titles_pack 0)" "pack_crc_ok (titles_pack 1)" "pack_crc_ok (titles_pack 2)"
  "length (titles_pack 0) = 18" "length (titles_pack 1) = 18" "length (titles_pack 2) = 18"
  unfolding titles_packs by (simp_all add: seal_pack_parts)

lemma damaged_types:
  "pack_type (titles_pack 0) = Some 0x80" "pack_type (titles_pack 2) = Some 0x80"
  "pack_type ((titles_pack 1)[9 := 0x43]) = None"
proof -
  show "pack_type (titles_pack 0) = Some 0x80" "pack_type (titles_pack 2) = Some 0x80"
    unfolding titles_packs by (rule pack_type_seal; simp add: text_types_def)+
  have "slice 4 12 (titles_pack 1) = replicate 4 0x41 @ [0] @ replicate 7 0x42"
    unfolding titles_packs by (simp add: seal_pack_parts)
  then have "(titles_pack 1)[9 := 0x43] ! 9 \<noteq> titles_pack 1 ! 9"
    using titles_packs_ok nth_slice [of 5 12 4 "titles_pack 1"] by (simp add: nth_append)
  then have "(titles_pack 1)[9 := 0x43] \<noteq> titles_pack 1" by force
  then show "pack_type ((titles_pack 1)[9 := 0x43]) = None"
    using damaged_payload_rejected [of "titles_pack 1" 9] titles_packs_ok by (simp add: pack_type_def)
qed

lemma damaged_events:
  "concat (map pack_events (filter (\<lambda>p. pack_type p = Some 0x80) damaged_packs))
   = Sync 1 # replicate 12 (Byte 0x41) @ Sync 2 # replicate 5 (Byte 0x42) @ Byte 0 # replicate 6 (Byte 0)"
proof -
  have "pack_events (titles_pack 0) = Sync 1 # replicate 12 (Byte 0x41)"
    "pack_events (titles_pack 2) = Sync 2 # replicate 5 (Byte 0x42) @ Byte 0 # replicate 6 (Byte 0)"
    unfolding titles_packs
    by (simp_all add: pack_events_def seal_pack_parts track_byte [of 1, simplified]
        track_byte [of 2, simplified] map_replicate)
  then show ?thesis
    unfolding damaged_packs_def filter.simps damaged_types by simp
qed

lemma damaged_column:
  assumes "col 1 = Some []"
  defines "r \<equiv> fst (fold col_step (Sync 1 # replicate 12 (Byte 0x41) @ Sync 2 # replicate 5 (Byte 0x42)
      @ Byte 0 # replicate 6 (Byte 0)) (col, asm_init))"
  shows "r 1 = Some []" and "r 2 = Some (replicate 12 0x41 @ replicate 5 0x42)"
proof -
  have chars: "fold col_step (replicate n (Byte x)) (col, a)
      = (col, a\<lparr> asm_buf := asm_buf a @ replicate n x \<rparr>)"
    if "x \<noteq> 0" "length (asm_buf a) + n < text_max" for n x col a
    using that by (induction n arbitrary: a) (auto simp del: fold_replicate)
  have pad: "fst (fold col_step (replicate 6 (Byte 0)) (col, \<lparr> asm_track = 3, asm_buf = [] \<rparr>))
      = (\<lambda>k. if 3 \<le> k \<and> k < 3 + int 6 \<and> k \<le> 99 then Some [] else col k)" for col
    using fold_padding [of 3 6 col] by (auto simp del: fold_replicate)
  have s1: "fold col_step (replicate 12 (Byte 0x41)) (col_step (Sync 1) (col, asm_init))
      = (col, \<lparr> asm_track = 1, asm_buf = replicate 12 0x41 \<rparr>)"
    by (simp add: asm_init_def chars text_max_def del: fold_replicate)
  have s2: "fold col_step (replicate 5 (Byte 0x42))
        (col_step (Sync 2) (col, \<lparr> asm_track = 1, asm_buf = replicate 12 0x41 \<rparr>))
      = (col, \<lparr> asm_track = 2, asm_buf = replicate 12 0x41 @ replicate 5 0x42 \<rparr>)"
    by (simp add: chars text_max_def del: fold_replicate)
  have "length (replicate 12 (0x41 :: u8) @ replicate 5 0x42) \<noteq> length [9 :: u8]" by simp
  then have "replicate 12 (0x41 :: u8) @ replicate 5 0x42 \<noteq> [9]" by metis
  then have s3: "col_step (Byte 0) (col, \<lparr> asm_track = 2, asm_buf = replicate 12 0x41 @ replicate 5 0x42 \<rparr>)
      = (col(2 := Some (replicate 12 0x41 @ replicate 5 0x42)), \<lparr> asm_track = 3, asm_buf = [] \<rparr>)"
    by simp
  show "r 1 = Some []" "r 2 = Some (replicate 12 0x41 @ replicate 5 0x42)"
    unfolding r_def using assms(1)
    by (simp_all only: fold_append comp_apply fold_simps s1 s2 s3 pad) simp_all
qed

text \<open>
  A damaged pack is skipped, but the string that was in progress is kept. On this blob, the
  written stream of the two titles with one byte of its second pack damaged, the decoder reports
  for track 2 a title that was never on the disc: the first twelve characters of track 1's title
  followed by the last five of track 2's. No character of the result is flagged, and track 1 is
  left empty.
\<close>

theorem cdtext_glues_across_damage:
  "list_all pack_crc_ok (write_packs 0x80 0 (stream_of two_titles))
 \<and> title_of (accudisc_cdtext_decode damaged_blob) 1 = Some []
 \<and> title_of (accudisc_cdtext_decode damaged_blob) 2 = Some (replicate 12 0x41 @ replicate 5 0x42)
 \<and> list_all (\<lambda>e. snd e \<noteq> replicate 12 0x41 @ replicate 5 0x42) two_titles"
proof -
  define d where "d = fold use_pack damaged_packs decoder_init"
  have wf: "cdtext_wf (dec_text decoder_init)"
    by (simp add: cdtext_wf_def decoder_init_def cdtext_zero_def)
  have ty: "0x80 \<in> set text_types" by (simp add: text_types_def)
  have pf: "packs_from (concat damaged_packs) = damaged_packs" "18 \<le> length (concat damaged_packs)"
    using titles_packs_ok by (simp_all add: damaged_packs_def packs_from.simps)
  have "dec_used d \<noteq> 0"
    using decode_col(2) [OF wf ty, of damaged_packs]
    unfolding d_def damaged_packs_def filter.simps damaged_types by simp
  then have dec: "accudisc_cdtext_decode damaged_blob = Inr (dec_text d)"
    using pf by (simp add: accudisc_cdtext_decode_def damaged_blob_def pack_len_def Let_def
        d_def [symmetric])
  have "column 0x80 (dec_text decoder_init) 1 = Some []"
    by (simp add: column_def field_for_def decoder_init_def cdtext_zero_def get_type_def strings_zero_def)
  moreover have "column 0x80 (dec_text d) = fst (fold col_step
      (concat (map pack_events (filter (\<lambda>p. pack_type p = Some 0x80) damaged_packs)))
      (column 0x80 (dec_text decoder_init), asm_init))"
    using decode_col(1) [OF wf ty, of damaged_packs] unfolding d_def
    by (metis fst_conv decoder_init_def decoder.select_convs(2))
  ultimately have "column 0x80 (dec_text d) 1 = Some []"
    "column 0x80 (dec_text d) 2 = Some (replicate 12 0x41 @ replicate 5 0x42)"
    using damaged_column unfolding damaged_events by metis+
  moreover have "\<forall>e \<in> set two_titles. length (snd e) \<noteq> 17" by (simp add: two_titles_def)
  then have "\<forall>e \<in> set two_titles. snd e \<noteq> replicate 12 0x41 @ replicate 5 0x42" by force
  ultimately show ?thesis
    by (simp add: title_of_def dec column_def two_titles_packs seal_pack_parts list_all_iff)
qed

end
