(* ===== verification/CdTextBlob.thy ===== *)
theory CdTextBlob
  imports CdText
begin

text \<open>
  CD-Text for the burn path: validation of a raw blob (\<^verbatim>\<open>src/meta/cdtext_blob.c\<close>) and
  its encoding into R-W subchannel blocks (\<^verbatim>\<open>src/meta/cdtext_encode.c\<close>). The results: a
  blob that validates leaves with every payload byte it came with, every pack CRC valid, and
  validates again without change; the encoded blocks unpack to the pack ring, a whole number of
  times round.
\<close>

section \<open>Validation\<close>

definition hdr_len :: nat where "hdr_len = 4"

record adsc_cdtext_info =
  ci_npacks :: nat
  ci_crc_recomputed :: nat
  ci_have_size_info :: bool
  ci_si_first_track :: u8
  ci_si_last_track :: u8
  ci_bad_pack :: nat

definition info_zero :: adsc_cdtext_info where
  "info_zero = \<lparr> ci_npacks = 0, ci_crc_recomputed = 0, ci_have_size_info = False,
     ci_si_first_track = 0, ci_si_last_track = 0, ci_bad_pack = 0 \<rparr>"

definition stored_crc :: "u8 list \<Rightarrow> u16" where
  "stored_crc p = push_bit 8 (ucast (p ! 16)) OR ucast (p ! 17)"

definition want_crc :: "u8 list \<Rightarrow> u16" where
  "want_crc p = NOT (adsc_crc16 (take 16 p))"

definition put_crc :: "u8 list \<Rightarrow> u8 list" where
  "put_crc p = p[16 := ucast (drop_bit 8 (want_crc p)), 17 := ucast (want_crc p AND 0xff)]"

definition note_size_info :: "u8 list \<Rightarrow> adsc_cdtext_info \<Rightarrow> adsc_cdtext_info" where
  "note_size_info p info =
     (if \<not> ci_have_size_info info \<and> p ! 0 = 0x8f \<and> p ! 1 AND 0x80 = 0
         \<and> drop_bit 4 (p ! 3) AND 0x07 = 0
      then info\<lparr> ci_have_size_info := True, ci_si_first_track := p ! 5, ci_si_last_track := p ! 6 \<rparr>
      else info)"

text \<open>
  The pack loop over \<open>i = 0, 1, \<dots>\<close>: the packs as they are left in the buffer, what was observed, and
  \<open>Some ERR_CRC\<close> when a pack stopped it.
\<close>

fun validate_packs :: "nat \<Rightarrow> u8 list list \<Rightarrow> adsc_cdtext_info
    \<Rightarrow> u8 list list \<times> adsc_cdtext_info \<times> accudisc_err option" where
  "validate_packs i [] info = ([], info, None)"
| "validate_packs i (p # ps) info =
     (if stored_crc p \<noteq> want_crc p \<and> stored_crc p \<noteq> 0 then
        (p # ps, info\<lparr> ci_bad_pack := i \<rparr>, Some ERR_CRC)
      else
        let fix_it = (stored_crc p \<noteq> want_crc p);
            p' = (if fix_it then put_crc p else p);
            info = (if fix_it then info\<lparr> ci_crc_recomputed := ci_crc_recomputed info + 1 \<rparr> else info)
        in apfst ((#) p') (validate_packs (i + 1) ps (note_size_info p' info)))"

definition adsc_cdtext_blob_validate :: "u8 list \<Rightarrow> u8 list \<times> adsc_cdtext_info \<times> accudisc_err option" where
  "adsc_cdtext_blob_validate blob =
     (let len = length blob in
      if len < hdr_len + pack_len then (blob, info_zero, Some ERR_SHORT)
      else if (len - hdr_len) mod pack_len \<noteq> 0 then (blob, info_zero, Some ERR_INVAL)
      else if be16 blob 0 \<noteq> len - 2 then (blob, info_zero, Some ERR_INVAL)
      else
        let npacks = (len - hdr_len) div pack_len;
            (packs, info, err) = validate_packs 0 (packs_from (drop hdr_len blob))
              (info_zero\<lparr> ci_npacks := npacks \<rparr>)
        in (take hdr_len blob @ concat packs, info, err))"

definition adsc_cdtext_sizeinfo_mismatch :: "adsc_cdtext_info \<Rightarrow> int \<Rightarrow> bool" where
  "adsc_cdtext_sizeinfo_mismatch info ntracks =
     (if \<not> ci_have_size_info info \<or> ntracks < 1 then False
      else ci_si_first_track info \<noteq> 1 \<or> int (unat (ci_si_last_track info)) \<noteq> ntracks)"

section \<open>What validation guarantees\<close>

lemma and_ff_16: "(ucast (x AND 0xff) :: u8) = ucast (x :: u16)"
  by (intro bit_word_eqI) (simp add: bit_simps bit_mask_literals)

lemma put_crc_ok:
  assumes "length p = 18"
  shows "take 16 (put_crc p) = take 16 p" and "stored_crc (put_crc p) = want_crc (put_crc p)"
    and "length (put_crc p) = 18"
proof -
  have split: "push_bit 8 (ucast (ucast (drop_bit 8 x) :: u8)) OR ucast (ucast x :: u8) = x" for x :: u16
    by (rule bit_word_eqI) (auto simp: bit_or_iff bit_push_bit_iff bit_ucast_iff bit_drop_bit_eq)
  show t: "take 16 (put_crc p) = take 16 p" by (simp add: put_crc_def)
  show "stored_crc (put_crc p) = want_crc (put_crc p)"
    using assms unfolding want_crc_def t
    by (simp add: stored_crc_def put_crc_def and_ff_16 split want_crc_def)
  show "length (put_crc p) = 18" using assms by (simp add: put_crc_def)
qed

definition same_payload :: "u8 list \<Rightarrow> u8 list \<Rightarrow> bool" where
  "same_payload p p' \<longleftrightarrow> take 16 p' = take 16 p \<and> length p' = length p"

definition crc_valid :: "u8 list \<Rightarrow> bool" where
  "crc_valid p \<longleftrightarrow> stored_crc p = want_crc p"

lemma validate_packs_payload:
  assumes "\<forall>p \<in> set ps. length p = 18"
  shows "list_all2 same_payload ps (fst (validate_packs i ps info))"
  using assms
proof (induction ps arbitrary: i info)
  case (Cons p ps)
  have r: "list_all2 same_payload xs xs" for xs
    by (simp add: list_all2_same same_payload_def)
  have "same_payload p (put_crc p)" "same_payload p p"
    using put_crc_ok [of p] Cons.prems by (auto simp: same_payload_def)
  then show ?case using Cons r by (simp add: Let_def)
qed simp

lemma validate_packs_valid:
  assumes "\<forall>p \<in> set ps. length p = 18" and "snd (snd (validate_packs i ps info)) = None"
  shows "\<forall>p \<in> set (fst (validate_packs i ps info)). crc_valid p"
  using assms
proof (induction ps arbitrary: i info)
  case (Cons p ps)
  then show ?case
    using put_crc_ok(2) [of p]
    by (cases "stored_crc p = want_crc p"; cases "stored_crc p = 0") (simp_all add: Let_def crc_valid_def)
qed simp

lemma validate_packs_error:
  assumes "\<forall>p \<in> set ps. length p = 18"
  shows "snd (snd (validate_packs i ps info)) = None
         \<longleftrightarrow> (\<forall>p \<in> set ps. crc_valid p \<or> stored_crc p = 0)"
  using assms
  by (induction ps arbitrary: i info) (auto simp: Let_def crc_valid_def)

lemma validate_packs_again:
  assumes "\<forall>p \<in> set ps. crc_valid p"
  shows "fst (validate_packs i ps info) = ps
       \<and> ci_crc_recomputed (fst (snd (validate_packs i ps info))) = ci_crc_recomputed info
       \<and> snd (snd (validate_packs i ps info)) = None"
  using assms
proof (induction ps arbitrary: i info)
  case (Cons p ps)
  have "ci_crc_recomputed (note_size_info p info) = ci_crc_recomputed info"
    by (simp add: note_size_info_def)
  then show ?case using Cons by (simp add: Let_def crc_valid_def)
qed simp

text \<open>The buffer as a header and packs.\<close>

lemma packs_from_concat:
  assumes "\<forall>p \<in> set ps. length p = 18"
  shows "packs_from (concat ps) = ps"
  using assms by (induction ps) (auto simp: packs_from.simps [of "[]"] packs_from.simps [of "_ @ _"])

lemma packs_from_whole:
  assumes "length raw mod 18 = 0"
  shows "concat (packs_from raw) = raw" and "\<forall>p \<in> set (packs_from raw). length p = 18"
    and "length (packs_from raw) = length raw div 18"
proof -
  have "concat (packs_from raw) = raw \<and> (\<forall>p \<in> set (packs_from raw). length p = 18)
      \<and> length (packs_from raw) = length raw div 18"
    using assms
  proof (induction raw rule: packs_from.induct)
    case (1 raw)
    show ?case
    proof (cases "length raw < 18")
      case True
      then have "packs_from raw = []" "raw = []"
        using "1.prems" by (simp_all add: packs_from.simps)
      then show ?thesis by simp
    next
      case False
      then have m: "length (drop 18 raw) mod 18 = 0" using "1.prems" by (simp add: le_mod_geq)
      have "packs_from raw = take 18 raw # packs_from (drop 18 raw)"
        using False by (simp add: packs_from.simps [of raw])
      moreover have "length raw div 18 = Suc (length (drop 18 raw) div 18)"
        using False by (simp add: le_div_geq)
      moreover note IH = "1.IH" [OF False m]
      moreover have "length (take 18 raw) = 18" using False by simp
      ultimately show ?thesis
        by (simp only: concat.simps IH append_take_drop_id list.set ball_simps list.size) simp
    qed
  qed
  then show "concat (packs_from raw) = raw" "\<forall>p \<in> set (packs_from raw). length p = 18"
    "length (packs_from raw) = length raw div 18" by blast+
qed

lemma length_concat_packs: "\<forall>p \<in> set ps. length p = 18 \<Longrightarrow> length (concat ps) = 18 * length ps"
  by (induction ps) auto

text \<open>
  Validation keeps the disc's text. A blob of the declared length and a whole number of packs
  is accepted exactly when every pack's CRC is valid or was dropped by the transport; the blob
  that is left has the same length, the same header and the same sixteen payload bytes in every
  pack, every pack now has its CRC, and validating it again changes nothing.
\<close>

theorem blob_validate_repairs:
  assumes "length blob = 4 + 18 * n" and "0 < n" and "be16 blob 0 = length blob - 2"
    and "packs = packs_from (drop 4 blob)"
  shows "(snd (snd (adsc_cdtext_blob_validate blob)) = None
            \<longleftrightarrow> (\<forall>p \<in> set packs. crc_valid p \<or> stored_crc p = 0))
       \<and> (snd (snd (adsc_cdtext_blob_validate blob)) = None \<longrightarrow>
            (\<exists>packs'. fst (adsc_cdtext_blob_validate blob) = take 4 blob @ concat packs'
               \<and> list_all2 same_payload packs packs' \<and> (\<forall>p \<in> set packs'. crc_valid p))
          \<and> fst (adsc_cdtext_blob_validate (fst (adsc_cdtext_blob_validate blob)))
              = fst (adsc_cdtext_blob_validate blob)
          \<and> ci_crc_recomputed (fst (snd (adsc_cdtext_blob_validate (fst (adsc_cdtext_blob_validate blob))))) = 0)"
proof -
  define inf where "inf = info_zero\<lparr> ci_npacks := n \<rparr>"
  define r where "r = validate_packs 0 packs inf"
  have w: "length (drop 4 blob) mod 18 = 0" using assms(1) by simp
  have p18: "\<forall>p \<in> set packs. length p = 18" using packs_from_whole(2) [OF w] assms(4) by simp
  have v: "adsc_cdtext_blob_validate b = (take 4 b @ concat (fst (validate_packs 0 ps inf)),
      fst (snd (validate_packs 0 ps inf)), snd (snd (validate_packs 0 ps inf)))"
    if "length b = 4 + 18 * n" "be16 b 0 = length b - 2" "ps = packs_from (drop 4 b)" for b ps
    using that assms(2)
    by (simp add: adsc_cdtext_blob_validate_def hdr_len_def pack_len_def Let_def inf_def split_beta)
  note vb = v [OF assms(1,3,4), folded r_def]
  have pay: "list_all2 same_payload packs (fst r)"
    unfolding r_def by (rule validate_packs_payload [OF p18])
  then have l18: "\<forall>p \<in> set (fst r). length p = 18"
    using p18 by (auto simp: list_all2_conv_all_nth in_set_conv_nth same_payload_def) (metis nth_mem)
  have again: "fst (adsc_cdtext_blob_validate (fst (adsc_cdtext_blob_validate blob)))
        = fst (adsc_cdtext_blob_validate blob)
      \<and> ci_crc_recomputed (fst (snd (adsc_cdtext_blob_validate (fst (adsc_cdtext_blob_validate blob))))) = 0"
    if ok: "snd (snd r) = None"
  proof -
    define b where "b = take 4 blob @ concat (fst r)"
    have valid: "\<forall>p \<in> set (fst r). crc_valid p"
      using validate_packs_valid [OF p18] ok by (simp add: r_def)
    have "length (fst r) = n"
      using list_all2_lengthD [OF pay] packs_from_whole(3) [OF w] assms(1,4) by simp
    then have "length (concat (fst r)) = 18 * n"
      using length_concat_packs [OF l18] by simp
    then have "length b = 4 + 18 * n" "be16 b 0 = length b - 2"
      using assms(1,3) by (simp_all add: b_def be16_def nth_append)
    moreover have "fst r = packs_from (drop 4 b)"
      using packs_from_concat [OF l18] assms(1) by (simp add: b_def)
    ultimately have "adsc_cdtext_blob_validate b = (take 4 b @ concat (fst (validate_packs 0 (fst r) inf)),
      fst (snd (validate_packs 0 (fst r) inf)), snd (snd (validate_packs 0 (fst r) inf)))"
      by (rule v)
    then show ?thesis
      using validate_packs_again [OF valid, of 0 inf] assms(1)
      by (simp add: vb b_def [symmetric]) (simp add: b_def inf_def info_zero_def)
  qed
  show ?thesis
    using validate_packs_error [OF p18, of 0 inf] validate_packs_valid [OF p18, of 0 inf] pay again
    by (auto simp: vb r_def [symmetric])
qed

text \<open>A one-pack blob whose CRC field the drive zeroed.\<close>

definition zeroed_blob :: "u8 list" where
  "zeroed_blob = [0, 20, 0, 0] @ [0x80, 1, 0, 0] @ replicate 12 0x41 @ [0, 0]"

theorem blob_validate_repairs_witness:
  "snd (snd (adsc_cdtext_blob_validate zeroed_blob)) = None"
proof -
  have "packs_from (drop 4 zeroed_blob) = [drop 4 zeroed_blob]"
    by (simp add: zeroed_blob_def packs_from.simps)
  moreover have "stored_crc (drop 4 zeroed_blob) = 0"
    by (simp add: zeroed_blob_def stored_crc_def nth_append)
  ultimately show ?thesis
    using blob_validate_repairs [of zeroed_blob 1 "[drop 4 zeroed_blob]"]
    by (simp add: zeroed_blob_def be16_def)
qed

section \<open>Encoding for the R-W subchannel\<close>

definition gcd4 :: "nat \<Rightarrow> nat" where
  "gcd4 a = (if a mod 4 = 0 then 4 else if a mod 2 = 0 then 2 else 1)"

definition adsc_cdtext_rw_block_count :: "nat \<Rightarrow> nat" where
  "adsc_cdtext_rw_block_count npacks = (if npacks = 0 then 0 else npacks div gcd4 npacks)"

definition pack3 :: "u8 \<Rightarrow> u8 \<Rightarrow> u8 \<Rightarrow> u8 list" where
  "pack3 a b c =
     [drop_bit 2 a AND 0x3f,
      (push_bit 4 a AND 0x30) OR (drop_bit 4 b AND 0x0f),
      (push_bit 2 b AND 0x3c) OR (drop_bit 6 c AND 0x03),
      c AND 0x3f]"

text \<open>The inner loop over the 24 groups of a block: three bytes in, four symbols out.\<close>

fun pack_groups :: "u8 list \<Rightarrow> u8 list" where
  "pack_groups (a # b # c # r) = pack3 a b c @ pack_groups r"
| "pack_groups _ = []"

definition gather_packs :: "u8 list list \<Rightarrow> nat \<Rightarrow> u8 list" where
  "gather_packs packs b = concat (map (\<lambda>j. packs ! ((4 * b + j) mod length packs)) [0..<4])"

definition adsc_cdtext_encode_rw :: "u8 list list \<Rightarrow> u8 list res" where
  "adsc_cdtext_encode_rw packs =
     (if packs = [] then Inl ERR_INVAL
      else Inr (concat (map (\<lambda>b. pack_groups (gather_packs packs b))
        [0..<adsc_cdtext_rw_block_count (length packs)])))"

text \<open>The inverse, which a reader of the lead-in applies to the low six bits of each symbol.\<close>

fun unpack_groups :: "u8 list \<Rightarrow> u8 list" where
  "unpack_groups (w # x # y # z # r) =
     (push_bit 2 w OR drop_bit 4 x) # (push_bit 4 x OR drop_bit 2 y) # (push_bit 6 y OR z)
     # unpack_groups r"
| "unpack_groups _ = []"

lemma bits_of_groups:
  "push_bit 2 (drop_bit 2 a AND 0x3f) OR drop_bit 4 ((push_bit 4 a AND 0x30) OR (drop_bit 4 b AND 0x0f)) = a"
  "push_bit 4 ((push_bit 4 a AND 0x30) OR (drop_bit 4 b AND 0x0f))
     OR drop_bit 2 ((push_bit 2 b AND 0x3c) OR (drop_bit 6 c AND 0x03)) = b"
  "push_bit 6 ((push_bit 2 b AND 0x3c) OR (drop_bit 6 c AND 0x03)) OR (c AND 0x3f) = c"
  for a b c :: u8
proof -
  have cases: "n < 8 \<Longrightarrow> n \<in> {0, 1, 2, 3, 4, 5, 6, 7 :: nat}" for n by auto
  show "push_bit 2 (drop_bit 2 a AND 0x3f) OR drop_bit 4 ((push_bit 4 a AND 0x30) OR (drop_bit 4 b AND 0x0f)) = a"
    by (rule bit_word_eqI, simp, drule cases, auto simp: bit_simps)
      (simp_all add: numeral_2_eq_2 numeral_3_eq_3)?
  show "push_bit 4 ((push_bit 4 a AND 0x30) OR (drop_bit 4 b AND 0x0f))
     OR drop_bit 2 ((push_bit 2 b AND 0x3c) OR (drop_bit 6 c AND 0x03)) = b"
    by (rule bit_word_eqI, simp, drule cases, auto simp: bit_simps)
      (simp_all add: numeral_2_eq_2 numeral_3_eq_3)?
  show "push_bit 6 ((push_bit 2 b AND 0x3c) OR (drop_bit 6 c AND 0x03)) OR (c AND 0x3f) = c"
    by (rule bit_word_eqI, simp, drule cases, auto simp: bit_simps)
      (simp_all add: numeral_2_eq_2 numeral_3_eq_3)?
qed

lemma unpack_pack3 [simp]: "unpack_groups (pack3 a b c @ r) = a # b # c # unpack_groups r"
  unfolding pack3_def append_Cons append_Nil unpack_groups.simps bits_of_groups ..

lemma unpack_pack_groups: "length xs mod 3 = 0 \<Longrightarrow> unpack_groups (pack_groups xs @ r) = xs @ unpack_groups r"
proof (induction xs rule: pack_groups.induct)
  case (1 a b c r)
  then show ?case by (simp add: mod_Suc split: if_splits)
qed (auto split: if_splits)

lemma six_bits:
  "(drop_bit 2 a AND 0x3f) AND 0x3f = drop_bit 2 a AND 0x3f"
  "((push_bit 4 a AND 0x30) OR (drop_bit 4 b AND 0x0f)) AND 0x3f
    = (push_bit 4 a AND 0x30) OR (drop_bit 4 b AND 0x0f)"
  "((push_bit 2 b AND 0x3c) OR (drop_bit 6 c AND 0x03)) AND 0x3f
    = (push_bit 2 b AND 0x3c) OR (drop_bit 6 c AND 0x03)"
  "(c AND 0x3f) AND 0x3f = c AND 0x3f"
  for a b c :: u8
proof -
  have cases: "n < 8 \<Longrightarrow> n \<in> {0, 1, 2, 3, 4, 5, 6, 7 :: nat}" for n by auto
  show "(drop_bit 2 a AND 0x3f) AND 0x3f = drop_bit 2 a AND 0x3f"
    by (simp add: and.assoc)
  show "((push_bit 4 a AND 0x30) OR (drop_bit 4 b AND 0x0f)) AND 0x3f
    = (push_bit 4 a AND 0x30) OR (drop_bit 4 b AND 0x0f)"
    by (rule bit_word_eqI, simp, drule cases, auto simp: bit_simps)
  show "((push_bit 2 b AND 0x3c) OR (drop_bit 6 c AND 0x03)) AND 0x3f
    = (push_bit 2 b AND 0x3c) OR (drop_bit 6 c AND 0x03)"
    by (rule bit_word_eqI, simp, drule cases, auto simp: bit_simps)
  show "(c AND 0x3f) AND 0x3f = c AND 0x3f"
    by (simp add: and.assoc)
qed

lemma pack_groups_symbols: "\<forall>x \<in> set (pack_groups xs). x < 64"
proof (induction xs rule: pack_groups.induct)
  case (1 a b c r)
  have m: "x AND 0x3f < 64" for x :: u8
  proof -
    have "x AND 0x3f = take_bit 6 x"
      using take_bit_eq_mask [of 6 x] by (simp add: mask_eq_exp_minus_1)
    moreover have "unat (take_bit 6 x) < 2 ^ 6"
      unfolding unsigned_take_bit_eq by (rule take_bit_nat_less_exp)
    ultimately show ?thesis by (simp only: word_less_nat_alt) simp
  qed
  note six_bits
  then have "y = y AND 0x3f" if "y \<in> set (pack3 a b c)" for y
    using that unfolding pack3_def by (metis empty_iff insert_iff list.set)
  then show ?case using 1 m by (metis Un_iff pack_groups.simps(1) set_append)
qed auto

lemma length_pack_groups: "length xs mod 3 = 0 \<Longrightarrow> length (pack_groups xs) = length xs div 3 * 4"
proof (induction xs rule: pack_groups.induct)
  case (1 a b c r)
  then have "length r mod 3 = 0" by (simp add: mod_Suc split: if_splits)
  moreover have "Suc (Suc (Suc (length r))) div 3 = Suc (length r div 3)" by presburger
  ultimately show ?case using 1 by (simp add: pack3_def)
qed (auto split: if_splits)

lemma concat_replicate_swap: "concat (replicate k xs) @ xs = xs @ concat (replicate k xs)"
  by (induction k) auto

lemma ring_concat:
  assumes "packs \<noteq> []"
  shows "concat (map (\<lambda>i. packs ! (i mod length packs)) [0..<k * length packs])
    = concat (replicate k (concat packs))"
proof (induction k)
  case (Suc k)
  have "map (\<lambda>i. packs ! (i mod length packs)) [k * length packs..<k * length packs + length packs]
      = map (\<lambda>i. packs ! (i mod length packs)) (map (\<lambda>i. k * length packs + i) [0..<length packs])"
    using map_add_upt [of "k * length packs" "length packs"] by (simp add: add.commute)
  also have "\<dots> = map ((!) packs) [0..<length packs]" by simp
  finally have r: "map (\<lambda>i. packs ! (i mod length packs)) [k * length packs..<k * length packs + length packs]
      = packs" by (simp add: map_nth)
  have "[0..<Suc k * length packs] = [0..<k * length packs] @ [k * length packs..<k * length packs + length packs]"
    by (metis add.commute mult_Suc upt_add_eq_append zero_le)
  then show ?case using Suc r by (simp only: map_append concat_append concat_replicate_swap
        replicate_Suc concat.simps)
qed simp

lemma blocks_as_ring:
  "concat (map (\<lambda>b. gather_packs packs b) [0..<n])
    = concat (map (\<lambda>i. packs ! (i mod length packs)) [0..<4 * n])"
proof (induction n)
  case (Suc n)
  have "[0..<4 * Suc n] = [0..<4 * n] @ [4 * n..<4 * n + 4]"
    by (metis add.commute mult_Suc_right upt_add_eq_append zero_le)
  moreover have "[4 * n..<4 * n + 4] = map (\<lambda>j. 4 * n + j) [0..<4]"
    using map_add_upt [of "4 * n" 4] by (simp add: add.commute)
  ultimately show ?case using Suc by (simp add: gather_packs_def comp_def)
qed simp

lemma gcd4_gcd: "gcd4 n = gcd n 4"
proof -
  have "gcd n 4 = gcd (n mod 4) 4" by (metis gcd.commute gcd_red_nat)
  moreover have "n mod 4 = 0 \<or> n mod 4 = 1 \<or> n mod 4 = 2 \<or> n mod 4 = 3" by linarith
  moreover have "n mod 2 = n mod 4 mod 2" by (simp add: mod_mod_cancel)
  moreover have "gcd (2 :: nat) 4 = 2" "gcd (3 :: nat) 4 = 1" by code_simp+
  ultimately show ?thesis by (auto simp: gcd4_def)
qed

text \<open>
  The lead-in encoding. For every non-empty list of 18-byte packs the encoder succeeds with
  whole 96-byte blocks of six-bit symbols, and unpacking them gives the packs in order, repeated a
  whole number of times: the least number for which four packs always fill a block.
\<close>

theorem encode_rw_roundtrip:
  assumes "packs \<noteq> []" and "\<forall>p \<in> set packs. length p = 18"
  shows "\<exists>out. adsc_cdtext_encode_rw packs = Inr out
       \<and> length out = 96 * adsc_cdtext_rw_block_count (length packs)
       \<and> (\<forall>x \<in> set out. x < 64)
       \<and> unpack_groups out = concat (replicate (4 div gcd4 (length packs)) (concat packs))
       \<and> adsc_cdtext_rw_block_count (length packs) * 4 = lcm (length packs) 4"
proof -
  define n where "n = length packs"
  define nb where "nb = adsc_cdtext_rw_block_count n"
  have g: "gcd4 n = gcd n 4" by (rule gcd4_gcd)
  have n: "n \<noteq> 0" using assms(1) by (simp add: n_def)
  have nb4: "nb * 4 = lcm n 4"
    using n by (simp add: nb_def adsc_cdtext_rw_block_count_def g lcm_nat_def dvd_div_mult)
  also have "\<dots> = 4 div gcd4 n * n"
    by (simp add: g lcm_nat_def div_mult_swap mult.commute)
  finally have ring: "4 * nb = 4 div gcd4 n * n" by simp
  have in_ring: "packs ! (i mod n) \<in> set packs" for i
    using n by (simp add: n_def)
  have gl: "length (gather_packs packs b) = 72" for b
    unfolding gather_packs_def n_def [symmetric] using assms(2) in_ring
    by (subst length_concat_packs) auto
  define out where "out = concat (map (\<lambda>b. pack_groups (gather_packs packs b)) [0..<nb])"
  have "unpack_groups (concat (map (\<lambda>b. pack_groups (gather_packs packs b)) bs)) = concat (map (gather_packs packs) bs)" for bs
    by (induction bs) (simp_all add: unpack_pack_groups gl)
  then have "unpack_groups out = concat (replicate (4 div gcd4 n) (concat packs))"
    using blocks_as_ring [of packs nb] ring_concat [OF assms(1), of "4 div gcd4 n"]
    by (simp add: out_def ring n_def)
  moreover have "length (concat (map (\<lambda>b. pack_groups (gather_packs packs b)) bs)) = 96 * length bs" for bs
    by (induction bs) (simp_all add: length_pack_groups gl)
  then have "length out = 96 * nb" by (simp add: out_def)
  moreover have "\<forall>x \<in> set out. x < 64"
    using pack_groups_symbols by (auto simp: out_def)
  moreover have "adsc_cdtext_encode_rw packs = Inr out"
    using assms(1) by (simp add: adsc_cdtext_encode_rw_def out_def nb_def n_def)
  ultimately show ?thesis using nb4 by (auto simp: nb_def n_def)
qed

theorem encode_rw_roundtrip_witness:
  "\<exists>out. adsc_cdtext_encode_rw (replicate 3 (replicate 18 0x41)) = Inr out \<and> length out = 288"
proof -
  have "adsc_cdtext_rw_block_count 3 = 3" by code_simp
  then show ?thesis
    using encode_rw_roundtrip [of "replicate 3 (replicate 18 0x41)"] by auto
qed

end
