(* ===== verification/WriteToc.thy ===== *)
theory WriteToc
  imports Prelude
begin

text \<open>
  The .toc parser of the recording engine: \<^verbatim>\<open>src/write/tocparse.c\<close>, with the layout model
  of \<^verbatim>\<open>src/write/write.h\<close>. A C pointer into the text is modelled by the suffix it points to,
  its end by the empty list; so what the C code searches is what it searches there, to the end
  of the text and not to the end of the line where the source does so. \<open>long\<close> has 64 bits: \<open>strtol\<close>
  saturates, and the products formed from its result are unbounded here (they overflow in C from
  \<open>2^63\<close> on).
\<close>

section \<open>Data\<close>

record adsc_write_track =
  wt_audio :: bool
  wt_preemphasis :: bool
  wt_copy :: bool
  wt_isrc :: string
  wt_index1_lba :: u32
  wt_pregap :: u32
  wt_sectors :: u32
  wt_file_offset :: u64

record adsc_write_toc =
  wtoc_mcn :: string
  wtoc_leadout_lba :: u32
  wtoc_track :: "adsc_write_track list"

definition write_track_zero :: adsc_write_track where
  "write_track_zero = \<lparr> wt_audio = False, wt_preemphasis = False, wt_copy = False, wt_isrc = [],
     wt_index1_lba = 0, wt_pregap = 0, wt_sectors = 0, wt_file_offset = 0 \<rparr>"

definition write_toc_zero :: adsc_write_toc where
  "write_toc_zero = \<lparr> wtoc_mcn = [], wtoc_leadout_lba = 0, wtoc_track = [] \<rparr>"

definition sector_bytes :: int where "sector_bytes = 2352"

section \<open>Character level\<close>

abbreviation NL :: char where "NL \<equiv> CHR 0x0A"
abbreviation TAB :: char where "TAB \<equiv> CHR 0x09"
abbreviation CR :: char where "CR \<equiv> CHR 0x0D"
abbreviation QUOTE :: char where "QUOTE \<equiv> CHR 0x22"

definition is_ws :: "char \<Rightarrow> bool" where
  "is_ws c \<longleftrightarrow> c = CHR '' '' \<or> c = TAB"

definition skipws :: "string \<Rightarrow> string" where
  "skipws p = dropWhile is_ws p"

text \<open>\<open>kw\<close>: the keyword, then white space, the end of the line or the end of the text.\<close>

definition kw :: "string \<Rightarrow> string \<Rightarrow> bool" where
  "kw p k \<longleftrightarrow> take (length k) p = k
     \<and> (case drop (length k) p of [] \<Rightarrow> True | c # _ \<Rightarrow> is_ws c \<or> c = CR \<or> c = NL)"

text \<open>\<open>strtol\<close> and \<open>strtoll\<close> in base ten: the value and the rest, or \<open>None\<close> when no digit was read.\<close>

definition is_space :: "char \<Rightarrow> bool" where
  "is_space c \<longleftrightarrow> c = CHR '' '' \<or> (0x09 \<le> (of_char c :: nat) \<and> (of_char c :: nat) \<le> 0x0D)"

definition is_digit :: "char \<Rightarrow> bool" where
  "is_digit c \<longleftrightarrow> 0x30 \<le> (of_char c :: nat) \<and> (of_char c :: nat) \<le> 0x39"

definition digits_value :: "string \<Rightarrow> int" where
  "digits_value ds = fold (\<lambda>c v. 10 * v + (of_char c - 0x30)) ds 0"

definition strtol :: "string \<Rightarrow> (int \<times> string) option" where
  "strtol p =
     (let q = dropWhile is_space p;
          neg = (case q of c # _ \<Rightarrow> c = CHR ''-'' | [] \<Rightarrow> False);
          q' = (case q of c # r \<Rightarrow> if c = CHR ''-'' \<or> c = CHR ''+'' then r else q | [] \<Rightarrow> q);
          ds = takeWhile is_digit q';
          v = (if neg then - digits_value ds else digits_value ds)
      in if ds = [] then None
         else Some (max (- (2 ^ 63)) (min (2 ^ 63 - 1) v), dropWhile is_digit q'))"

text \<open>\<open>strstr\<close>, to the end of the text.\<close>

fun strstr :: "string \<Rightarrow> string \<Rightarrow> bool" where
  "strstr [] k \<longleftrightarrow> k = []"
| "strstr (c # p) k \<longleftrightarrow> take (length k) (c # p) = k \<or> strstr p k"

section \<open>Fields\<close>

definition parse_msf :: "string \<Rightarrow> (int \<times> string) option" where
  "parse_msf p0 =
     (case strtol (skipws p0) of
        Some (mm, c1 # p1) \<Rightarrow>
          if c1 \<noteq> CHR '':'' then None
          else (case strtol p1 of
             Some (ss, c2 # p2) \<Rightarrow>
               if c2 \<noteq> CHR '':'' then None
               else (case strtol p2 of
                  Some (ff, e) \<Rightarrow>
                    if mm < 0 \<or> ss < 0 \<or> ss > 59 \<or> ff < 0 \<or> ff > 74 then None
                    else Some ((mm * 60 + ss) * 75 + ff, e)
                | None \<Rightarrow> None)
           | _ \<Rightarrow> None)
      | _ \<Rightarrow> None)"

definition parse_file_start :: "string \<Rightarrow> (int \<times> string) option" where
  "parse_file_start p0 =
     (case strtol (skipws p0) of
        None \<Rightarrow> None
      | Some (n, e) \<Rightarrow>
          if n < 0 then None
          else if (case e of c # _ \<Rightarrow> c \<noteq> CHR '':'' | [] \<Rightarrow> True) then Some (n, e)
          else (case parse_msf p0 of
              None \<Rightarrow> None
            | Some (frames, e) \<Rightarrow> Some (frames * sector_bytes, e)))"

text \<open>
  A quoted string that closes before the end of the line: its first \<open>cap - 1\<close> characters and the
  text behind the closing quote.
\<close>

definition parse_qstr :: "string \<Rightarrow> nat \<Rightarrow> (string \<times> string) option" where
  "parse_qstr p cap =
     (case skipws p of
        c # r \<Rightarrow>
          if c \<noteq> QUOTE then None
          else
            let body = takeWhile (\<lambda>c. c \<noteq> QUOTE \<and> c \<noteq> NL) r;
                rest = dropWhile (\<lambda>c. c \<noteq> QUOTE \<and> c \<noteq> NL) r
            in (case rest of
                  c # r \<Rightarrow> if c = QUOTE then Some (take (cap - 1) body, r) else None
                | [] \<Rightarrow> None)
      | [] \<Rightarrow> None)"

section \<open>Lines\<close>

text \<open>State of the first pass: the model so far and \<open>have_file\<close>; \<open>cur\<close> is the last track.\<close>

type_synonym pass = "adsc_write_toc \<times> bool list"

type_synonym parse_error = "nat \<times> string"

definition parse_catalog :: "string \<Rightarrow> adsc_write_toc \<Rightarrow> adsc_write_toc" where
  "parse_catalog ls out =
     (case parse_qstr (drop 7 ls) 32 of
        None \<Rightarrow> out
      | Some (m, _) \<Rightarrow>
          let ds = take 13 (filter is_digit m)
          in out\<lparr> wtoc_mcn := (if length ds \<noteq> 13 then [] else ds) \<rparr>)"

definition update_cur :: "(adsc_write_track \<Rightarrow> adsc_write_track) \<Rightarrow> adsc_write_toc \<Rightarrow> adsc_write_toc" where
  "update_cur f out = out\<lparr> wtoc_track := butlast (wtoc_track out) @ [f (last (wtoc_track out))] \<rparr>"

definition parse_file_line :: "nat \<Rightarrow> string \<Rightarrow> pass \<Rightarrow> parse_error + pass" where
  "parse_file_line lineno ls = (\<lambda>(out, have_file).
     case parse_qstr (drop (if hd ls = CHR ''A'' then 9 else 4) ls) 0 of
       None \<Rightarrow> Inl (lineno, ''FILE needs a quoted filename'')
     | Some (_, q) \<Rightarrow>
         (case parse_file_start q of
            None \<Rightarrow> Inl (lineno, ''FILE start offset must be a byte count or MM:SS:FF'')
          | Some (fstart, q) \<Rightarrow>
              (case parse_msf q of
                 None \<Rightarrow> Inl (lineno, ''FILE needs an explicit MM:SS:FF length'')
               | Some (flen, _) \<Rightarrow>
                   Inr (update_cur (\<lambda>t. t\<lparr> wt_file_offset := word_of_int fstart,
                          wt_sectors := word_of_int flen \<rparr>) out,
                        butlast have_file @ [True]))))"

definition parse_start :: "string \<Rightarrow> adsc_write_track \<Rightarrow> adsc_write_track" where
  "parse_start ls t =
     t\<lparr> wt_pregap := (case parse_msf (drop 5 ls) of
          Some (g, _) \<Rightarrow> if g > 0 then word_of_int g else 0 | None \<Rightarrow> 0) \<rparr>"

definition parse_isrc :: "string \<Rightarrow> adsc_write_track \<Rightarrow> adsc_write_track" where
  "parse_isrc ls t =
     (case parse_qstr (drop 4 ls) 32 of
        Some (s, _) \<Rightarrow> if length s = 12 then t\<lparr> wt_isrc := s \<rparr> else t
      | None \<Rightarrow> t)"

text \<open>
  One line: \<open>ls\<close> is the text from its first non-blank character on, \<open>len\<close> the number of characters
  from there to the end of the line.
\<close>

definition parse_line :: "nat \<Rightarrow> string \<Rightarrow> nat \<Rightarrow> pass \<Rightarrow> parse_error + pass" where
  "parse_line lineno ls len st =
     (case st of (out, have_file) \<Rightarrow>
        if kw ls ''CATALOG'' then Inr (parse_catalog ls out, have_file)
        else if kw ls ''TRACK'' then
          if length (wtoc_track out) \<ge> 99 then Inl (lineno, ''more than 99 tracks'')
          else Inr (out\<lparr> wtoc_track := wtoc_track out @
                 [write_track_zero\<lparr> wt_audio := (strstr ls ''AUDIO'' \<and> len < 64) \<rparr>] \<rparr>,
               have_file @ [False])
        else if wtoc_track out = [] then Inr st
        else if kw ls ''ISRC'' then Inr (update_cur (parse_isrc ls) out, have_file)
        else if kw ls ''NO'' then
          Inr (if strstr ls ''PRE_EMPHASIS'' then
                 (update_cur (\<lambda>t. t\<lparr> wt_preemphasis := False \<rparr>) out, have_file)
               else if strstr ls ''COPY'' then
                 (update_cur (\<lambda>t. t\<lparr> wt_copy := False \<rparr>) out, have_file)
               else st)
        else if kw ls ''PRE_EMPHASIS'' then
          Inr (update_cur (\<lambda>t. t\<lparr> wt_preemphasis := True \<rparr>) out, have_file)
        else if kw ls ''COPY'' then Inr (update_cur (\<lambda>t. t\<lparr> wt_copy := True \<rparr>) out, have_file)
        else if kw ls ''FILE'' \<or> kw ls ''AUDIOFILE'' then parse_file_line lineno ls st
        else if kw ls ''START'' then Inr (update_cur (parse_start ls) out, have_file)
        else Inr st)"

definition in_quotes :: "string \<Rightarrow> bool" where
  "in_quotes line \<longleftrightarrow> odd (length (filter (\<lambda>c. c = QUOTE) line))"

lemma length_skipws: "length (skipws p) \<le> length p"
  by (simp add: skipws_def length_dropWhile_le)

lemma next_line_shorter:
  assumes "p \<noteq> []"
  shows "length (dropWhile (\<lambda>c. c \<noteq> NL) (skipws p)) - Suc 0 < length p"
proof -
  have "length (dropWhile (\<lambda>c. c \<noteq> NL) (skipws p)) \<le> length p"
    using length_dropWhile_le [of "\<lambda>c. c \<noteq> NL" "skipws p"] length_skipws [of p] by linarith
  moreover have "0 < length p" using assms by simp
  ultimately show ?thesis by linarith
qed

function parse_lines :: "nat \<Rightarrow> string \<Rightarrow> pass \<Rightarrow> parse_error + nat \<times> pass" where
  "parse_lines lineno p st =
     (if p = [] then Inr (lineno, st)
      else
        let ls = skipws p;
            line = takeWhile (\<lambda>c. c \<noteq> NL) ls;
            le = dropWhile (\<lambda>c. c \<noteq> NL) ls
        in if in_quotes line then
             Inl (lineno + 1, ''unterminated quote (a value may not span a line)'')
           else (case parse_line (lineno + 1) ls (length line) st of
               Inl e \<Rightarrow> Inl e
             | Inr st \<Rightarrow> parse_lines (lineno + 1) (drop 1 le) st))"
  by auto
termination
  by (relation "measure (\<lambda>(lineno, p, st). length p)") (simp_all add: next_line_shorter)

declare parse_lines.simps [simp del]

section \<open>The second pass\<close>

fun place_tracks :: "u32 \<Rightarrow> (adsc_write_track \<times> bool) list
    \<Rightarrow> string + adsc_write_track list \<times> u32" where
  "place_tracks cum [] = Inr ([], cum)"
| "place_tracks cum ((t, hf) # ts) =
     (if \<not> wt_audio t then Inl ''track is not TRACK AUDIO''
      else if \<not> hf then Inl ''track has no FILE line''
      else if wt_pregap t > wt_sectors t then Inl ''START pregap exceeds the FILE length''
      else (case place_tracks (cum + wt_sectors t) ts of
          Inl e \<Rightarrow> Inl e
        | Inr (ts', leadout) \<Rightarrow> Inr (t\<lparr> wt_index1_lba := cum + wt_pregap t \<rparr> # ts', leadout)))"

definition adsc_toc_parse_cue :: "string \<Rightarrow> parse_error + adsc_write_toc" where
  "adsc_toc_parse_cue text =
     (case parse_lines 0 text (write_toc_zero, []) of
        Inl e \<Rightarrow> Inl e
      | Inr (lineno, (out, have_file)) \<Rightarrow>
          if wtoc_track out = [] then Inl (lineno, ''no TRACK found'')
          else (case place_tracks 0 (zip (wtoc_track out) have_file) of
              Inl what \<Rightarrow> Inl (0, what)
            | Inr (ts, leadout) \<Rightarrow> Inr (out\<lparr> wtoc_track := ts, wtoc_leadout_lba := leadout \<rparr>)))"

section \<open>Lines cannot be broken by a quote\<close>

function split_lines :: "string \<Rightarrow> string list" where
  "split_lines p =
     (if p = [] then []
      else takeWhile (\<lambda>c. c \<noteq> NL) p # split_lines (drop 1 (dropWhile (\<lambda>c. c \<noteq> NL) p)))"
  by auto
termination
proof (relation "measure length", goal_cases)
  case (2 p)
  have "length (dropWhile (\<lambda>c. c \<noteq> NL) p) \<le> length p" by (rule length_dropWhile_le)
  moreover have "0 < length p" using 2 by simp
  ultimately have "length (dropWhile (\<lambda>c. c \<noteq> NL) p) - 1 < length p" by linarith
  then show ?case by simp
qed simp

declare split_lines.simps [simp del]

text \<open>Skipping leading blanks changes neither the end of the line nor its quotes.\<close>

lemma skipws_line:
  "dropWhile (\<lambda>c. c \<noteq> NL) (skipws p) = dropWhile (\<lambda>c. c \<noteq> NL) p"
  "in_quotes (takeWhile (\<lambda>c. c \<noteq> NL) (skipws p)) = in_quotes (takeWhile (\<lambda>c. c \<noteq> NL) p)"
  by (induction p) (auto simp: skipws_def is_ws_def in_quotes_def)

lemma parse_lines_quotes:
  "parse_lines lineno p st = Inr r \<Longrightarrow> \<forall>line \<in> set (split_lines p). \<not> in_quotes line"
proof (induction lineno p st rule: parse_lines.induct)
  case (1 lineno p st)
  show ?case
  proof (cases "p = []")
    case True
    then show ?thesis by (simp add: split_lines.simps)
  next
    case False
    note u = "1.prems" [unfolded parse_lines.simps [of lineno p st] Let_def]
    have q: "\<not> in_quotes (takeWhile (\<lambda>c. c \<noteq> NL) (skipws p))"
      using u False by (auto split: if_splits)
    then obtain st' where st': "parse_line (lineno + 1) (skipws p)
        (length (takeWhile (\<lambda>c. c \<noteq> NL) (skipws p))) st = Inr st'"
      using u False by (auto split: if_splits sum.splits)
    have "\<forall>line \<in> set (split_lines (drop 1 (dropWhile (\<lambda>c. c \<noteq> NL) (skipws p)))). \<not> in_quotes line"
      using u False q st' by (intro "1.IH" [OF False refl refl refl q st']) simp
    then show ?thesis
      using False q skipws_line [of p] by (subst split_lines.simps) simp
  qed
qed

section \<open>Placement\<close>

definition track_length_sum :: "adsc_write_track list \<Rightarrow> nat" where
  "track_length_sum ts = (\<Sum>t \<leftarrow> ts. unat (wt_sectors t))"

lemma place_tracks_spec:
  assumes "place_tracks cum (zip ts hf) = Inr (ts', leadout)" and "length hf = length ts"
    and "unat cum + track_length_sum ts < 2 ^ 32"
  shows "length ts' = length ts \<and> unat leadout = unat cum + track_length_sum ts
       \<and> map wt_sectors ts' = map wt_sectors ts
       \<and> (\<forall>i < length ts'. wt_audio (ts' ! i) \<and> wt_pregap (ts' ! i) \<le> wt_sectors (ts' ! i)
            \<and> unat (wt_index1_lba (ts' ! i))
              = unat cum + track_length_sum (take i ts') + unat (wt_pregap (ts' ! i)))"
  using assms
proof (induction ts arbitrary: cum hf ts' leadout)
  case (Cons t ts)
  obtain h hf' where hf: "hf = h # hf'" using Cons.prems(2) by (cases hf) auto
  have ok: "wt_audio t" "wt_pregap t \<le> wt_sectors t"
    using Cons.prems(1) by (auto simp: hf not_less split: if_splits)
  obtain us where us: "place_tracks (cum + wt_sectors t) (zip ts hf') = Inr (us, leadout)"
    "ts' = t\<lparr> wt_index1_lba := cum + wt_pregap t \<rparr> # us"
    using Cons.prems(1) by (auto simp: hf split: if_splits sum.splits)
  have sum: "track_length_sum (t # ts) = unat (wt_sectors t) + track_length_sum ts"
    by (simp add: track_length_sum_def)
  have c: "unat (cum + wt_sectors t) = unat cum + unat (wt_sectors t)"
    using Cons.prems(3) sum by (subst unat_add_lem [THEN iffD1]) simp_all
  have "unat (wt_pregap t) \<le> unat (wt_sectors t)" using ok(2) by (simp add: word_le_nat_alt)
  then have p: "unat (cum + wt_pregap t) = unat cum + unat (wt_pregap t)"
    using Cons.prems(3) sum by (subst unat_add_lem [THEN iffD1]) simp_all
  have IH: "length us = length ts \<and> unat leadout = unat (cum + wt_sectors t) + track_length_sum ts
       \<and> map wt_sectors us = map wt_sectors ts
       \<and> (\<forall>i < length us. wt_audio (us ! i) \<and> wt_pregap (us ! i) \<le> wt_sectors (us ! i)
            \<and> unat (wt_index1_lba (us ! i)) = unat (cum + wt_sectors t)
                + track_length_sum (take i us) + unat (wt_pregap (us ! i)))"
    using Cons.prems(2,3) c sum by (intro Cons.IH [OF us(1)]) (simp_all add: hf)
  show ?case
    unfolding us(2)
  proof (intro conjI allI impI)
    fix i assume i: "i < length (t\<lparr> wt_index1_lba := cum + wt_pregap t \<rparr> # us)"
    show "wt_audio ((t\<lparr> wt_index1_lba := cum + wt_pregap t \<rparr> # us) ! i)"
      "wt_pregap ((t\<lparr> wt_index1_lba := cum + wt_pregap t \<rparr> # us) ! i)
        \<le> wt_sectors ((t\<lparr> wt_index1_lba := cum + wt_pregap t \<rparr> # us) ! i)"
      using i IH ok by (cases i; simp)+
    show "unat (wt_index1_lba ((t\<lparr> wt_index1_lba := cum + wt_pregap t \<rparr> # us) ! i))
      = unat cum + track_length_sum (take i (t\<lparr> wt_index1_lba := cum + wt_pregap t \<rparr> # us))
        + unat (wt_pregap ((t\<lparr> wt_index1_lba := cum + wt_pregap t \<rparr> # us) ! i))"
      using i IH p c by (cases i) (simp_all add: track_length_sum_def)
  qed (use IH c sum in simp_all)
qed (simp add: track_length_sum_def)

lemma parse_line_length:
  assumes "parse_line n ls len (out, hf) = Inr (out', hf')" and "length hf = length (wtoc_track out)"
  shows "length hf' = length (wtoc_track out')"
  using assms
  by (auto simp: parse_line_def parse_catalog_def update_cur_def parse_file_line_def Let_def
      split: if_splits option.splits prod.splits)

lemma parse_lines_length:
  "parse_lines n p (out, hf) = Inr (m, out', hf') \<Longrightarrow> length hf = length (wtoc_track out) \<Longrightarrow>
   length hf' = length (wtoc_track out')"
proof (induction n p "(out, hf)" arbitrary: out hf rule: parse_lines.induct)
  case (1 n p out hf)
  show ?case
  proof (cases "p = []")
    case True
    then show ?thesis using "1.prems" by (simp add: parse_lines.simps)
  next
    case False
    note u = "1.prems"(1) [unfolded parse_lines.simps [of n p] Let_def]
    have q: "\<not> in_quotes (takeWhile (\<lambda>c. c \<noteq> NL) (skipws p))"
      using u False by (auto split: if_splits)
    then obtain st' where st': "parse_line (n + 1) (skipws p)
        (length (takeWhile (\<lambda>c. c \<noteq> NL) (skipws p))) (out, hf) = Inr st'"
      using u False by (auto split: if_splits sum.splits)
    obtain o2 h2 where s2: "st' = (o2, h2)" by (cases st')
    have r: "parse_lines (n + 1) (drop 1 (dropWhile (\<lambda>c. c \<noteq> NL) (skipws p))) (o2, h2) = Inr (m, out', hf')"
      using u False q st' s2 by simp
    show ?thesis
      by (rule "1.hyps" [OF False refl refl refl q st' [unfolded s2] r
            parse_line_length [OF st' [unfolded s2] "1.prems"(2)]])
  qed
qed

lemma track_length_sum_map: "track_length_sum ts = (\<Sum>n \<leftarrow> map wt_sectors ts. unat n)"
  by (simp add: track_length_sum_def comp_def)


definition two_track_toc :: string where
  "two_track_toc = ''CD_DA'' @ [NL] @ ''TRACK AUDIO'' @ [NL]
     @ ''FILE '' @ [QUOTE] @ ''a.bin'' @ [QUOTE] @ '' 0 00:04:00'' @ [NL]
     @ ''TRACK AUDIO'' @ [NL]
     @ ''FILE '' @ [QUOTE] @ ''a.bin'' @ [QUOTE] @ '' 705600 00:06:00'' @ [NL]
     @ ''START 00:02:00'' @ [NL]"

lemma two_track_toc_parse:
  "(case adsc_toc_parse_cue two_track_toc of Inr out \<Rightarrow>
      map (\<lambda>t. (wt_index1_lba t, wt_pregap t, wt_sectors t)) (wtoc_track out)
        = [(0, 0, 300), (450, 150, 450)] \<and> wtoc_leadout_lba out = 750 | Inl e \<Rightarrow> False)"
  by code_simp


section \<open>Directives read beyond their line\<close>

definition file_line :: string where
  "file_line = ''FILE '' @ [QUOTE] @ ''a.bin'' @ [QUOTE]"

definition flags_of :: "parse_error + adsc_write_toc \<Rightarrow> (bool \<times> bool \<times> u32) list" where
  "flags_of r = (case r of
     Inr out \<Rightarrow> map (\<lambda>t. (wt_audio t, wt_preemphasis t, wt_sectors t)) (wtoc_track out) | Inl e \<Rightarrow> [])"

text \<open>
  Three fields are searched for to the end of the text, not of the line. On these layouts the
  parser (1) accepts a data track as audio, because a later line says AUDIO; (2) drops the
  pre-emphasis flag of track 1 on its NO COPY line, because track 2 mentions PRE_EMPHASIS; and
  (3) reads the length of a FILE line that has none from the digits that start the next line.
\<close>

theorem toc_directives_leak:
  "flags_of (adsc_toc_parse_cue
     (''TRACK MODE1'' @ [NL] @ file_line @ '' 0 00:04:00'' @ [NL]
      @ ''TRACK AUDIO'' @ [NL] @ file_line @ '' 0 00:04:00'' @ [NL]))
   = [(True, False, 300), (True, False, 300)]
 \<and> flags_of (adsc_toc_parse_cue
     (''TRACK AUDIO'' @ [NL] @ ''PRE_EMPHASIS'' @ [NL] @ ''NO COPY'' @ [NL] @ file_line @ '' 0 00:04:00'' @ [NL]
      @ ''TRACK AUDIO'' @ [NL] @ ''PRE_EMPHASIS'' @ [NL] @ file_line @ '' 0 00:04:00'' @ [NL]))
   = [(True, False, 300), (True, True, 300)]
 \<and> flags_of (adsc_toc_parse_cue
     (''TRACK AUDIO'' @ [NL] @ file_line @ '' 0'' @ [NL] @ ''00:00:09'' @ [NL]))
   = [(True, False, 9)]"
  by (intro conjI; code_simp)

section \<open>Writing a layout\<close>

text \<open>
  The text of a layout, one directive to a line: numbers without sign, times as
  minute:second:frame, the offset of a FILE line as a byte count.
\<close>

definition digit_char :: "nat \<Rightarrow> char" where
  "digit_char d = char_of (48 + d)"

function show_nat :: "nat \<Rightarrow> string" where
  "show_nat n = (if n < 10 then [digit_char n] else show_nat (n div 10) @ [digit_char (n mod 10)])"
  by auto
termination by (relation "measure id") auto

declare show_nat.simps [simp del]

definition show2 :: "nat \<Rightarrow> string" where
  "show2 n = [digit_char (n div 10), digit_char (n mod 10)]"

definition show_msf :: "nat \<Rightarrow> string" where
  "show_msf n = show_nat (n div 4500) @ CHR '':'' # show2 (n div 75 mod 60) @ CHR '':'' # show2 (n mod 75)"

definition show_track :: "string \<Rightarrow> adsc_write_track \<Rightarrow> string list" where
  "show_track name t =
     [''TRACK AUDIO'']
     @ (if wt_copy t then [''COPY''] else [])
     @ (if wt_preemphasis t then [''PRE_EMPHASIS''] else [])
     @ (if wt_isrc t \<noteq> [] then [''ISRC '' @ [QUOTE] @ wt_isrc t @ [QUOTE]] else [])
     @ [''FILE '' @ [QUOTE] @ name @ [QUOTE, CHR '' ''] @ show_nat (unat (wt_file_offset t))
        @ CHR '' '' # show_msf (unat (wt_sectors t))]
     @ (if wt_pregap t \<noteq> 0 then [''START '' @ show_msf (unat (wt_pregap t))] else [])"

definition show_toc :: "string \<Rightarrow> adsc_write_toc \<Rightarrow> string list" where
  "show_toc name toc =
     ''CD_DA'' # (if wtoc_mcn toc \<noteq> [] then [''CATALOG '' @ [QUOTE] @ wtoc_mcn toc @ [QUOTE]] else [])
     @ concat (map (show_track name) (wtoc_track toc))"

definition unlines :: "string list \<Rightarrow> string" where
  "unlines ls = concat (map (\<lambda>l. l @ [NL]) ls)"

subsection \<open>Numbers\<close>

lemma digit_char [simp]:
  assumes "d < 10"
  shows "is_digit (digit_char d)" and "of_char (digit_char d) = (48 + int d)"
proof -
  have "(of_char (digit_char d) :: nat) = 48 + d"
    using assms by (simp add: digit_char_def)
  then show "is_digit (digit_char d)" "of_char (digit_char d) = (48 + int d)"
    using assms by (simp_all add: is_digit_def) (metis of_nat_add of_nat_numeral of_nat_of_char)
qed

lemma show_nat_digits: "show_nat n \<noteq> [] \<and> (\<forall>c \<in> set (show_nat n). is_digit c)"
proof (induction n rule: show_nat.induct)
  case (1 n)
  then show ?case by (subst (1 2) show_nat.simps) auto
qed

lemma digits_value_snoc: "digits_value (ds @ [c]) = 10 * digits_value ds + (of_char c - 0x30)"
  by (simp add: digits_value_def)

lemma int_radix10: "10 * int (n div 10) + int (n mod 10) = int n"
  by (metis of_nat_add of_nat_mult of_nat_numeral mult_div_mod_eq)

lemma show_nat_value: "digits_value (show_nat n) = int n"
proof (induction n rule: show_nat.induct)
  case (1 n)
  show ?case
  proof (cases "n < 10")
    case True
    then show ?thesis by (subst show_nat.simps) (simp add: digits_value_def)
  next
    case False
    then show ?thesis using 1 False int_radix10 [of n] by (subst show_nat.simps) (simp add: digits_value_snoc)
  qed
qed

lemma digit_not_space: "is_digit c \<Longrightarrow> \<not> is_space c \<and> c \<noteq> CHR ''-'' \<and> c \<noteq> CHR ''+'' \<and> \<not> is_ws c"
  by (auto simp: is_digit_def is_space_def is_ws_def)

lemma strtol_digits:
  assumes "ds \<noteq> []" and "\<forall>c \<in> set ds. is_digit c" and "r = [] \<or> \<not> is_digit (hd r)"
    and "0 \<le> digits_value ds" and "digits_value ds < 2 ^ 63" and "\<forall>c \<in> set ws. is_space c"
  shows "strtol (ws @ ds @ r) = Some (digits_value ds, r)"
proof -
  obtain c cs where ds: "ds = c # cs" using assms(1) by (cases ds) auto
  have c: "\<not> is_space c" "c \<noteq> CHR ''-''" "c \<noteq> CHR ''+''"
    using digit_not_space [of c] assms(2) ds by auto
  have s: "dropWhile is_space (ws @ ds @ r) = ds @ r"
    using assms(6) c by (induction ws) (auto simp: ds)
  have t: "takeWhile is_digit (ds @ r) = ds" "dropWhile is_digit (ds @ r) = r"
    using assms(2,3) by (cases r; simp)+
  show ?thesis
    unfolding strtol_def s using c t assms(4,5) by (simp add: ds Let_def)
qed

lemma digits_value_show2: "n < 100 \<Longrightarrow> digits_value (show2 n) = int n"
  using int_radix10 [of n] by (simp add: show2_def digits_value_def)

lemma is_digit_colon [simp]: "\<not> is_digit (CHR '':'')" "\<not> is_digit (CHR '' '')" "\<not> is_digit NL"
  by (simp_all add: is_digit_def)

lemma parse_msf_show:
  assumes "n < 2 ^ 32" and "r = [] \<or> \<not> is_digit (hd r)"
  shows "parse_msf (CHR '' '' # show_msf n @ r) = Some (int n, r)"
proof -
  define mm ss ff where "mm = n div 4500" and "ss = n div 75 mod 60" and "ff = n mod 75"
  have b: "ss < 60" "ff < 75" "mm < 2 ^ 32" using assms(1) by (simp_all add: mm_def ss_def ff_def)
  have "n div 4500 = n div 75 div 60" by (simp add: div_mult2_eq [symmetric])
  then have n: "(int mm * 60 + int ss) * 75 + int ff = int n"
    by (simp add: mm_def ss_def ff_def zdiv_int zmod_int)
  obtain c cs where mm: "show_nat mm = c # cs" "is_digit c"
    using show_nat_digits [of mm] by (cases "show_nat mm") auto
  have "\<not> is_ws c" using digit_not_space mm(2) by blast
  then have s: "skipws (CHR '' '' # show_msf n @ r)
      = show_nat mm @ CHR '':'' # show2 ss @ CHR '':'' # show2 ff @ r"
    by (simp add: show_msf_def mm_def [symmetric] ss_def [symmetric] ff_def [symmetric] mm(1)
        skipws_def is_ws_def)
  have d2: "show2 k \<noteq> [] \<and> (\<forall>c \<in> set (show2 k). is_digit c)" if "k < 100" for k
    using that by (auto simp: show2_def)
  have 1: "strtol (show_nat mm @ CHR '':'' # show2 ss @ CHR '':'' # show2 ff @ r)
      = Some (int mm, CHR '':'' # show2 ss @ CHR '':'' # show2 ff @ r)"
    using strtol_digits [of "show_nat mm" "CHR '':'' # show2 ss @ CHR '':'' # show2 ff @ r" "[]"]
      show_nat_digits [of mm] show_nat_value [of mm] b by simp
  have 2: "strtol (show2 ss @ CHR '':'' # show2 ff @ r) = Some (int ss, CHR '':'' # show2 ff @ r)"
    using strtol_digits [of "show2 ss" "CHR '':'' # show2 ff @ r" "[]"]
      d2 [of ss] digits_value_show2 [of ss] b by simp
  have 3: "strtol (show2 ff @ r) = Some (int ff, r)"
    using strtol_digits [of "show2 ff" r "[]"] d2 [of ff] digits_value_show2 [of ff] b assms(2) by simp
  show ?thesis
    unfolding parse_msf_def s using b n by (simp add: 1 2 3)
qed

subsection \<open>Lines\<close>

lemma parse_one_line:
  assumes "line \<noteq> []" and "\<not> is_ws (hd line)" and "NL \<notin> set line" and "\<not> in_quotes line"
  shows "parse_lines n (line @ NL # rest) st =
    (case parse_line (n + 1) (line @ NL # rest) (length line) st of
       Inl e \<Rightarrow> Inl e | Inr st \<Rightarrow> parse_lines (n + 1) rest st)"
proof -
  have s: "skipws (line @ NL # rest) = line @ NL # rest"
    using assms(1,2) by (cases line) (simp_all add: skipws_def)
  have t: "takeWhile (\<lambda>c. c \<noteq> NL) (line @ NL # rest) = line"
    "dropWhile (\<lambda>c. c \<noteq> NL) (line @ NL # rest) = NL # rest"
    using assms(3) by (induction line) auto
  show ?thesis
    using assms(1,4) unfolding parse_lines.simps [of n] Let_def s t by (simp split: sum.split)
qed

lemma strstr_prefix: "strstr (k @ r) k"
proof (cases "k @ r")
  case (Cons c p)
  then have "take (length k) (c # p) = k" by (metis append_eq_conv_conj)
  then show ?thesis unfolding Cons by simp
qed simp

lemma strstr_later: "strstr r k \<Longrightarrow> strstr (p @ r) k"
  by (induction p) auto

lemma no_quotes: "QUOTE \<notin> set l \<Longrightarrow> \<not> in_quotes l"
proof -
  assume "QUOTE \<notin> set l"
  then have "filter (\<lambda>c. c = QUOTE) l = []" by (auto simp: filter_empty_conv)
  then show ?thesis by (simp add: in_quotes_def)
qed

lemma quoted_once:
  assumes "QUOTE \<notin> set a" and "QUOTE \<notin> set b" and "QUOTE \<notin> set c"
  shows "\<not> in_quotes (a @ QUOTE # b @ QUOTE # c)"
proof -
  have "filter (\<lambda>c. c = QUOTE) a = []" "filter (\<lambda>c. c = QUOTE) b = []" "filter (\<lambda>c. c = QUOTE) c = []"
    using assms by (auto simp: filter_empty_conv)
  then show ?thesis by (simp add: in_quotes_def)
qed

lemma parse_qstr_quoted:
  assumes "QUOTE \<notin> set b" and "NL \<notin> set b"
  shows "parse_qstr (CHR '' '' # QUOTE # b @ QUOTE # r) cap = Some (take (cap - 1) b, r)"
proof -
  have "takeWhile (\<lambda>c. c \<noteq> QUOTE \<and> c \<noteq> NL) (b @ QUOTE # r) = b"
    "dropWhile (\<lambda>c. c \<noteq> QUOTE \<and> c \<noteq> NL) (b @ QUOTE # r) = QUOTE # r"
    using assms by (induction b) auto
  then show ?thesis by (simp add: parse_qstr_def skipws_def is_ws_def Let_def)
qed

lemma digits_plain: "\<forall>c \<in> set ds. is_digit c \<Longrightarrow> QUOTE \<notin> set ds \<and> NL \<notin> set ds"
  by (auto simp: is_digit_def)

lemma show2_digits: "n < 100 \<Longrightarrow> \<forall>c \<in> set (show2 n). is_digit c"
  by (auto simp: show2_def)

lemma show_msf_plain: "QUOTE \<notin> set (show_msf n) \<and> NL \<notin> set (show_msf n)"
  using digits_plain [of "show_nat (n div 4500)"] digits_plain [of "show2 (n div 75 mod 60)"]
    digits_plain [of "show2 (n mod 75)"] show_nat_digits [of "n div 4500"]
    show2_digits [of "n div 75 mod 60"] show2_digits [of "n mod 75"]
  by (auto simp: show_msf_def)

lemma show_nat_plain: "QUOTE \<notin> set (show_nat n) \<and> NL \<notin> set (show_nat n)"
  using digits_plain show_nat_digits by blast

text \<open>Every kind of line, as the parser reads it behind the tracks it already has.\<close>

lemma kw_line [simp]:
  "kw (''CATALOG'' @ CHR '' '' # r) ''CATALOG''" "kw (''TRACK'' @ CHR '' '' # r) ''TRACK''"
  by (simp_all add: kw_def is_ws_def)

lemma parse_track_line:
  "length (wtoc_track out) < 99 \<Longrightarrow>
   parse_line n (''TRACK AUDIO'' @ NL # rest) (length ''TRACK AUDIO'') (out, hf)
   = Inr (out\<lparr> wtoc_track := wtoc_track out @ [write_track_zero\<lparr> wt_audio := True \<rparr>] \<rparr>, hf @ [False])"
  using strstr_later [OF strstr_prefix [of "''AUDIO''" "NL # rest"], of "''TRACK ''"]
  by (simp add: parse_line_def kw_def is_ws_def)

lemma parse_copy_line:
  "wtoc_track out \<noteq> [] \<Longrightarrow> parse_line n (''COPY'' @ NL # rest) len (out, hf)
   = Inr (update_cur (\<lambda>t. t\<lparr> wt_copy := True \<rparr>) out, hf)"
  by (simp add: parse_line_def kw_def is_ws_def)

lemma parse_pre_line:
  "wtoc_track out \<noteq> [] \<Longrightarrow> parse_line n (''PRE_EMPHASIS'' @ NL # rest) len (out, hf)
   = Inr (update_cur (\<lambda>t. t\<lparr> wt_preemphasis := True \<rparr>) out, hf)"
  by (simp add: parse_line_def kw_def is_ws_def)

lemma parse_isrc_line:
  assumes "wtoc_track out \<noteq> []" and "length s = 12" and "QUOTE \<notin> set s" and "NL \<notin> set s"
  shows "parse_line n ((''ISRC '' @ [QUOTE] @ s @ [QUOTE]) @ NL # rest) len (out, hf)
    = Inr (update_cur (\<lambda>t. t\<lparr> wt_isrc := s \<rparr>) out, hf)"
proof -
  have "parse_isrc ((''ISRC '' @ [QUOTE] @ s @ [QUOTE]) @ NL # rest) t = t\<lparr> wt_isrc := s \<rparr>" for t
    using parse_qstr_quoted [OF assms(3,4), of "NL # rest" 32] assms(2) by (simp add: parse_isrc_def)
  then have e: "parse_isrc ((''ISRC '' @ [QUOTE] @ s @ [QUOTE]) @ NL # rest) = (\<lambda>t. t\<lparr> wt_isrc := s \<rparr>)"
    by blast
  show ?thesis
    unfolding parse_line_def e using assms(1) by (simp add: kw_def is_ws_def)
qed

lemma parse_file_show:
  assumes "wtoc_track out \<noteq> []" and "QUOTE \<notin> set name" and "NL \<notin> set name"
    and "off < 2 ^ 63" and "len < 2 ^ 32"
  shows "parse_line n ((''FILE '' @ [QUOTE] @ name @ [QUOTE, CHR '' ''] @ show_nat off
        @ CHR '' '' # show_msf len) @ NL # rest) k (out, hf)
    = Inr (update_cur (\<lambda>t. t\<lparr> wt_file_offset := word_of_nat off, wt_sectors := word_of_nat len \<rparr>) out,
           butlast hf @ [True])"
proof -
  let ?q = "CHR '' '' # show_nat off @ CHR '' '' # show_msf len @ NL # rest"
  have q: "parse_qstr (CHR '' '' # QUOTE # name @ QUOTE # ?q) 0 = Some ([], ?q)"
    using parse_qstr_quoted [OF assms(2,3), of ?q 0] by simp
  obtain c cs where d: "show_nat off = c # cs" "is_digit c"
    using show_nat_digits [of off] by (cases "show_nat off") auto
  then have "skipws ?q = show_nat off @ CHR '' '' # show_msf len @ NL # rest"
    using digit_not_space [of c] by (simp add: skipws_def is_ws_def)
  then have f: "parse_file_start ?q = Some (int off, CHR '' '' # show_msf len @ NL # rest)"
    using strtol_digits [of "show_nat off" "CHR '' '' # show_msf len @ NL # rest" "[]"]
      show_nat_digits [of off] show_nat_value [of off] assms(4)
    by (simp add: parse_file_start_def)
  have m: "parse_msf (CHR '' '' # show_msf len @ NL # rest) = Some (int len, NL # rest)"
    using assms(5) by (intro parse_msf_show) simp_all
  show ?thesis
    using assms(1) q f m by (simp add: parse_line_def kw_def is_ws_def parse_file_line_def)
qed

lemma parse_start_show:
  assumes "wtoc_track out \<noteq> []" and "0 < g" and "g < 2 ^ 32"
  shows "parse_line n ((''START '' @ show_msf g) @ NL # rest) k (out, hf)
    = Inr (update_cur (\<lambda>t. t\<lparr> wt_pregap := word_of_nat g \<rparr>) out, hf)"
proof -
  have "parse_msf (CHR '' '' # show_msf g @ NL # rest) = Some (int g, NL # rest)"
    using assms(3) by (intro parse_msf_show) simp_all
  then have e: "parse_start ((''START '' @ show_msf g) @ NL # rest) = (\<lambda>t. t\<lparr> wt_pregap := word_of_nat g \<rparr>)"
    using assms(2) by (auto simp: parse_start_def)
  show ?thesis
    unfolding parse_line_def e using assms(1) by (simp add: kw_def is_ws_def)
qed

subsection \<open>Reading the text back\<close>

text \<open>A layout that can be written: at least one and at most 99 audio tracks.\<close>

definition plain :: "string \<Rightarrow> bool" where
  "plain s \<longleftrightarrow> QUOTE \<notin> set s \<and> NL \<notin> set s"

definition track_writable :: "adsc_write_track \<Rightarrow> bool" where
  "track_writable t \<longleftrightarrow> wt_audio t \<and> plain (wt_isrc t) \<and> (wt_isrc t = [] \<or> length (wt_isrc t) = 12)
     \<and> unat (wt_file_offset t) < 2 ^ 63"

definition bare_track :: "adsc_write_track \<Rightarrow> adsc_write_track" where
  "bare_track t = t\<lparr> wt_index1_lba := 0 \<rparr>"

lemma unlines_append [simp]: "unlines (a @ b) = unlines a @ unlines b"
  by (simp add: unlines_def)

lemma unlines_single [simp]: "unlines [l] @ r = l @ NL # r" "unlines [] = []"
  by (simp_all add: unlines_def)

lemma update_cur_snoc [simp]:
  "update_cur f (out\<lparr> wtoc_track := ts @ [t] \<rparr>) = out\<lparr> wtoc_track := ts @ [f t] \<rparr>"
  by (simp add: update_cur_def)

text \<open>One lemma per line of a track, on the track being read.\<close>

definition with_cur :: "adsc_write_toc \<Rightarrow> adsc_write_track \<Rightarrow> adsc_write_toc" where
  "with_cur out u = out\<lparr> wtoc_track := wtoc_track out @ [u] \<rparr>"

lemma with_cur [simp]: "wtoc_track (with_cur out u) \<noteq> []" "update_cur f (with_cur out u) = with_cur out (f u)"
  by (simp_all add: with_cur_def update_cur_def)

lemma read_track:
  assumes "length (wtoc_track out) < 99"
  shows "parse_lines n (unlines [''TRACK AUDIO''] @ r) (out, hf)
      = parse_lines (n + 1) r (with_cur out (write_track_zero\<lparr> wt_audio := True \<rparr>), hf @ [False])"
  unfolding unlines_single using parse_track_line [OF assms, of "n + 1" r hf]
  by (subst parse_one_line) (simp_all add: is_ws_def no_quotes with_cur_def)

lemma read_copy:
  assumes "\<not> wt_copy u"
  shows "parse_lines n (unlines (if b then [''COPY''] else []) @ r) (with_cur out u, h)
      = parse_lines (n + length (if b then [''COPY''] else [])) r (with_cur out (u\<lparr> wt_copy := b \<rparr>), h)"
proof (cases b)
  case True
  have "parse_lines n (''COPY'' @ NL # r) (with_cur out u, h)
      = parse_lines (n + 1) r (with_cur out (u\<lparr> wt_copy := True \<rparr>), h)"
    using parse_copy_line [of "with_cur out u"] by (subst parse_one_line) (simp_all add: is_ws_def no_quotes)
  then show ?thesis using True by simp
qed (use assms in \<open>cases u; simp\<close>)

lemma read_pre:
  assumes "\<not> wt_preemphasis u"
  shows "parse_lines n (unlines (if b then [''PRE_EMPHASIS''] else []) @ r) (with_cur out u, h)
      = parse_lines (n + length (if b then [''PRE_EMPHASIS''] else [])) r
          (with_cur out (u\<lparr> wt_preemphasis := b \<rparr>), h)"
proof (cases b)
  case True
  have "parse_lines n (''PRE_EMPHASIS'' @ NL # r) (with_cur out u, h)
      = parse_lines (n + 1) r (with_cur out (u\<lparr> wt_preemphasis := True \<rparr>), h)"
    using parse_pre_line [of "with_cur out u"] by (subst parse_one_line) (simp_all add: is_ws_def no_quotes)
  then show ?thesis using True by simp
qed (use assms in \<open>cases u; simp\<close>)

definition isrc_line :: "string \<Rightarrow> string" where
  "isrc_line s = ''ISRC '' @ [QUOTE] @ s @ [QUOTE]"

lemma read_isrc:
  assumes "wt_isrc u = []" and "plain s" and "s = [] \<or> length s = 12"
  shows "parse_lines n (unlines (if s \<noteq> [] then [isrc_line s] else []) @ r) (with_cur out u, h)
      = parse_lines (n + length (if s \<noteq> [] then [isrc_line s] else [])) r
          (with_cur out (u\<lparr> wt_isrc := s \<rparr>), h)"
proof (cases "s = []")
  case False
  have "parse_lines n (isrc_line s @ NL # r) (with_cur out u, h)
      = parse_lines (n + 1) r (with_cur out (u\<lparr> wt_isrc := s \<rparr>), h)"
    using parse_isrc_line [of "with_cur out u" s] assms(2,3) False quoted_once [of "''ISRC ''" s "[]"]
    by (subst parse_one_line) (simp_all add: is_ws_def plain_def isrc_line_def)
  then show ?thesis using False by simp
qed (use assms in \<open>cases u; simp\<close>)

definition file_directive :: "string \<Rightarrow> nat \<Rightarrow> nat \<Rightarrow> string" where
  "file_directive name off len = ''FILE '' @ [QUOTE] @ name @ [QUOTE, CHR '' ''] @ show_nat off
     @ CHR '' '' # show_msf len"

lemma read_file:
  assumes "plain name" and "off < 2 ^ 63" and "len < 2 ^ 32"
  shows "parse_lines n (unlines [file_directive name off len] @ r) (with_cur out u, hf @ [b])
      = parse_lines (n + 1) r (with_cur out (u\<lparr> wt_file_offset := word_of_nat off,
          wt_sectors := word_of_nat len \<rparr>), hf @ [True])"
  unfolding unlines_single file_directive_def
  using parse_file_show [of "with_cur out u" name off len "n + 1" r] assms show_nat_plain show_msf_plain
    quoted_once [of "''FILE ''" name "CHR '' '' # show_nat off @ CHR '' '' # show_msf len"]
  by (subst parse_one_line) (auto simp: is_ws_def plain_def)

definition start_directive :: "nat \<Rightarrow> string" where
  "start_directive g = ''START '' @ show_msf g"

lemma read_start:
  assumes "wt_pregap u = 0"
  shows "parse_lines n (unlines (if g \<noteq> 0 then [start_directive (unat g)] else []) @ r) (with_cur out u, h)
      = parse_lines (n + length (if g \<noteq> 0 then [start_directive (unat g)] else [])) r
          (with_cur out (u\<lparr> wt_pregap := g \<rparr>), h)"
proof (cases "g = 0")
  case False
  then have "0 < unat g" by (simp add: unat_gt_0)
  then have "parse_lines n (start_directive (unat g) @ NL # r) (with_cur out u, h)
      = parse_lines (n + 1) r (with_cur out (u\<lparr> wt_pregap := g \<rparr>), h)"
    using parse_start_show [of "with_cur out u" "unat g" "n + 1" r] show_msf_plain [of "unat g"]
      no_quotes [of "''START '' @ show_msf (unat g)"]
    by (subst parse_one_line) (auto simp: is_ws_def start_directive_def)
  then show ?thesis using False by simp
qed (use assms in \<open>cases u; simp\<close>)

lemma parse_show_track:
  assumes "track_writable t" and "plain name" and "length (wtoc_track out) < 99"
  shows "parse_lines n (unlines (show_track name t) @ rest) (out, hf)
    = parse_lines (n + length (show_track name t)) rest (with_cur out (bare_track t), hf @ [True])"
proof -
  have t: "plain (wt_isrc t)" "wt_isrc t = [] \<or> length (wt_isrc t) = 12" "unat (wt_file_offset t) < 2 ^ 63"
    "wt_audio t" using assms(1) by (simp_all add: track_writable_def)
  have sh: "show_track name t = [''TRACK AUDIO''] @ (if wt_copy t then [''COPY''] else [])
     @ (if wt_preemphasis t then [''PRE_EMPHASIS''] else [])
     @ (if wt_isrc t \<noteq> [] then [isrc_line (wt_isrc t)] else [])
     @ [file_directive name (unat (wt_file_offset t)) (unat (wt_sectors t))]
     @ (if wt_pregap t \<noteq> 0 then [start_directive (unat (wt_pregap t))] else [])"
    unfolding show_track_def isrc_line_def file_directive_def start_directive_def ..
  have e: "bare_track t = write_track_zero
     \<lparr> wt_audio := True, wt_copy := wt_copy t, wt_preemphasis := wt_preemphasis t, wt_isrc := wt_isrc t,
       wt_file_offset := wt_file_offset t, wt_sectors := wt_sectors t, wt_pregap := wt_pregap t \<rparr>"
    using t(4) by (simp add: bare_track_def write_track_zero_def)
  show ?thesis
    unfolding sh unlines_append append_assoc e
    by (subst read_track [OF assms(3)], subst read_copy, simp add: write_track_zero_def,
        subst read_pre, simp add: write_track_zero_def, subst read_isrc,
        simp add: write_track_zero_def, rule t, rule t, subst read_file, rule assms, rule t, simp,
        subst read_start, simp add: write_track_zero_def, simp add: add.assoc)
qed

lemma parse_show_tracks:
  assumes "\<forall>t \<in> set ts. track_writable t" and "plain name" and "length (wtoc_track out) + length ts \<le> 99"
  shows "\<exists>m. parse_lines n (unlines (concat (map (show_track name) ts))) (out, hf)
    = Inr (m, out\<lparr> wtoc_track := wtoc_track out @ map bare_track ts \<rparr>, hf @ replicate (length ts) True)"
  using assms
proof (induction ts arbitrary: n out hf)
  case Nil
  then show ?case by (simp add: parse_lines.simps)
next
  case (Cons t ts)
  define out' where "out' = with_cur out (bare_track t)"
  have "parse_lines n (unlines (show_track name t) @ unlines (concat (map (show_track name) ts))) (out, hf)
    = parse_lines (n + length (show_track name t)) (unlines (concat (map (show_track name) ts))) (out', hf @ [True])"
    unfolding out'_def using Cons.prems by (intro parse_show_track) auto
  moreover obtain m where "parse_lines (n + length (show_track name t))
      (unlines (concat (map (show_track name) ts))) (out', hf @ [True])
    = Inr (m, out'\<lparr> wtoc_track := wtoc_track out' @ map bare_track ts \<rparr>, (hf @ [True]) @ replicate (length ts) True)"
    using Cons.IH [of out' "n + length (show_track name t)" "hf @ [True]"] Cons.prems
    by (auto simp: out'_def with_cur_def)
  ultimately show ?case by (simp add: out'_def with_cur_def)
qed

lemma place_bare:
  "place_tracks c (zip (map bare_track ts) (replicate (length ts) True))
   = place_tracks c (zip ts (replicate (length ts) True))"
proof (induction ts arbitrary: c)
  case (Cons t ts)
  have "bare_track t\<lparr> wt_index1_lba := x \<rparr> = t\<lparr> wt_index1_lba := x \<rparr>" for x
    by (simp add: bare_track_def)
  moreover have "wt_audio (bare_track t) = wt_audio t" "wt_pregap (bare_track t) = wt_pregap t"
    "wt_sectors (bare_track t) = wt_sectors t" by (simp_all add: bare_track_def)
  ultimately show ?case by (simp add: Cons.IH split: sum.split)
qed simp

definition mcn_writable :: "string \<Rightarrow> bool" where
  "mcn_writable m \<longleftrightarrow> m = [] \<or> length m = 13 \<and> (\<forall>c \<in> set m. is_digit c)"

lemma read_mcn:
  assumes "mcn_writable m"
  shows "parse_lines n (unlines (if m \<noteq> [] then [''CATALOG '' @ [QUOTE] @ m @ [QUOTE]] else []) @ r) (write_toc_zero, h)
      = parse_lines (n + length (if m \<noteq> [] then [''CATALOG '' @ [QUOTE] @ m @ [QUOTE]] else [])) r
          (write_toc_zero\<lparr> wtoc_mcn := m \<rparr>, h)"
proof (cases "m = []")
  case False
  then have m: "length m = 13" "\<forall>c \<in> set m. is_digit c" using assms by (auto simp: mcn_writable_def)
  then have pl: "QUOTE \<notin> set m" "NL \<notin> set m" using digits_plain by blast+
  have f: "filter is_digit m = m" using m(2) by (simp add: filter_id_conv)
  have "parse_catalog ((''CATALOG '' @ [QUOTE] @ m @ [QUOTE]) @ NL # r) write_toc_zero
      = write_toc_zero\<lparr> wtoc_mcn := m \<rparr>"
    using parse_qstr_quoted [OF pl, of "NL # r" 32] m(1) f by (simp add: parse_catalog_def)
  then have "parse_line k ((''CATALOG '' @ [QUOTE] @ m @ [QUOTE]) @ NL # r) l (write_toc_zero, h)
      = Inr (write_toc_zero\<lparr> wtoc_mcn := m \<rparr>, h)" for k l
    by (simp add: parse_line_def kw_def is_ws_def)
  then have "parse_lines n ((''CATALOG '' @ [QUOTE] @ m @ [QUOTE]) @ NL # r) (write_toc_zero, h)
      = parse_lines (n + 1) r (write_toc_zero\<lparr> wtoc_mcn := m \<rparr>, h)"
    using pl quoted_once [of "''CATALOG ''" m "[]"] by (subst parse_one_line) (simp_all add: is_ws_def)
  then show ?thesis using False by simp
qed (simp add: write_toc_zero_def)

text \<open>
  C33: writing a layout and reading it back. For every layout of one to 99 audio tracks with legal
  texts, whose index and lead-out addresses are the ones its lengths and pregaps give, the parser
  returns exactly that layout from its text.
\<close>

theorem toc_show_parse:
  assumes "1 \<le> length (wtoc_track toc)" and "length (wtoc_track toc) \<le> 99"
    and "\<forall>t \<in> set (wtoc_track toc). track_writable t" and "mcn_writable (wtoc_mcn toc)" and "plain name"
    and "place_tracks 0 (zip (wtoc_track toc) (replicate (length (wtoc_track toc)) True))
          = Inr (wtoc_track toc, wtoc_leadout_lba toc)"
  shows "adsc_toc_parse_cue (unlines (show_toc name toc)) = Inr toc"
proof -
  let ?m = "wtoc_mcn toc"
  have h: "parse_lines 0 (''CD_DA'' @ NL # r) (write_toc_zero, []) = parse_lines 1 r (write_toc_zero, [])" for r
  proof -
    have "parse_line k (''CD_DA'' @ NL # r) l (write_toc_zero, []) = Inr (write_toc_zero, [])" for k l
      by (simp add: parse_line_def kw_def write_toc_zero_def)
    then show ?thesis by (subst parse_one_line) (simp_all add: is_ws_def no_quotes)
  qed
  define body where "body = unlines (concat (map (show_track name) (wtoc_track toc)))"
  have text_eq: "unlines (show_toc name toc)
      = ''CD_DA'' @ NL # (unlines (if ?m \<noteq> [] then [''CATALOG '' @ [QUOTE] @ ?m @ [QUOTE]] else []) @ body)"
    unfolding show_toc_def body_def unlines_append [symmetric] by (simp add: unlines_def)
  obtain k where "parse_lines (1 + length (if ?m \<noteq> [] then [''CATALOG '' @ [QUOTE] @ ?m @ [QUOTE]] else []))
      body (write_toc_zero\<lparr> wtoc_mcn := ?m \<rparr>, [])
    = Inr (k, write_toc_zero\<lparr> wtoc_mcn := ?m, wtoc_track := map bare_track (wtoc_track toc) \<rparr>,
           replicate (length (wtoc_track toc)) True)"
    unfolding body_def
    using parse_show_tracks [OF assms(3,5), where out = "write_toc_zero\<lparr> wtoc_mcn := ?m \<rparr>"
        and n = "1 + length (if ?m \<noteq> [] then [''CATALOG '' @ [QUOTE] @ ?m @ [QUOTE]] else [])"
        and hf = "[]"] assms(2)
    by (auto simp: write_toc_zero_def simp del: length_0_conv)
  then have p: "parse_lines 0 (unlines (show_toc name toc)) (write_toc_zero, [])
    = Inr (k, write_toc_zero\<lparr> wtoc_mcn := ?m, wtoc_track := map bare_track (wtoc_track toc) \<rparr>,
           replicate (length (wtoc_track toc)) True)"
    unfolding text_eq h read_mcn [OF assms(4)] .
  have "wtoc_track toc \<noteq> []" using assms(1) by auto
  then show ?thesis
    unfolding adsc_toc_parse_cue_def p using assms(6) place_bare [of 0 "wtoc_track toc"]
    by (simp add: write_toc_zero_def)
qed

definition sample_layout :: adsc_write_toc where
  "sample_layout = \<lparr> wtoc_mcn = ''0731453938229'', wtoc_leadout_lba = 750, wtoc_track =
     [\<lparr> wt_audio = True, wt_preemphasis = False, wt_copy = True, wt_isrc = ''GBAYE0000351'',
        wt_index1_lba = 0, wt_pregap = 0, wt_sectors = 300, wt_file_offset = 0 \<rparr>,
      \<lparr> wt_audio = True, wt_preemphasis = True, wt_copy = False, wt_isrc = [],
        wt_index1_lba = 450, wt_pregap = 150, wt_sectors = 450, wt_file_offset = 705600 \<rparr>] \<rparr>"

theorem toc_show_parse_witness:
  "adsc_toc_parse_cue (unlines (show_toc ''a.bin'' sample_layout)) = Inr sample_layout"
  by (rule toc_show_parse)
    (simp_all add: sample_layout_def track_writable_def plain_def mcn_writable_def is_digit_def)

end
