(* ===== verification/CueSheet.thy ===== *)
theory CueSheet
  imports WriteToc SubQ
begin

text \<open>
  The cue sheet of a Disc-At-Once burn: \<^verbatim>\<open>src/write/cuesheet.c\<close>, with the disc status decode of
  \<^verbatim>\<open>src/write/discinfo.c\<close>. The text fields of the layout are read as C strings: a character
  behind the terminator is the byte zero. The results: a buffer of the documented worst case never
  overflows and no other size is refused without need; the sheet's index points are the layout's,
  in disc order; and the lead-in extent is never larger than the disc allows.
\<close>

section \<open>Disc status\<close>

definition adsc_leadin_len_from_msf :: "u8 \<Rightarrow> u8 \<Rightarrow> u8 \<Rightarrow> u32" where
  "adsc_leadin_len_from_msf m s f =
     (let start = (ucast m * 60 + ucast s) * 75 + ucast f :: u32 in
      if start \<ge> 360000 \<and> start < 450000 then 450000 - start else 4500)"

record adsc_disc_info =
  di_erasable :: nat
  di_status :: nat
  di_last_session :: nat
  di_first_track :: u8
  di_last_track :: u8
  di_sessions :: u8
  di_leadin_m :: u8
  di_leadin_s :: u8
  di_leadin_f :: u8
  di_leadin_len :: u32

text \<open>
  The decode of what READ DISC INFORMATION returned: the buffer has 34 bytes, of which the first
  \<open>len\<close> are the drive's.
\<close>

definition adsc_write_read_disc_info :: "(u8 list \<times> nat) res \<Rightarrow> adsc_disc_info res" where
  "adsc_write_read_disc_info rc =
     (case rc of
        Inl e \<Rightarrow> Inl e
      | Inr (buf, len) \<Rightarrow>
          if len < 7 then Inl ERR_SHORT
          else
            let out = \<lparr> di_erasable = unat (drop_bit 4 (buf ! 2) AND 0x01),
                        di_status = unat (buf ! 2 AND 0x03),
                        di_last_session = unat (drop_bit 2 (buf ! 2) AND 0x03),
                        di_first_track = buf ! 3, di_last_track = buf ! 6, di_sessions = buf ! 4,
                        di_leadin_m = 0, di_leadin_s = 0, di_leadin_f = 0, di_leadin_len = 4500 \<rparr>
            in Inr (if len \<ge> 20 then
                 out\<lparr> di_leadin_m := buf ! 17, di_leadin_s := buf ! 18, di_leadin_f := buf ! 19,
                      di_leadin_len := adsc_leadin_len_from_msf (buf ! 17) (buf ! 18) (buf ! 19) \<rparr>
               else out))"

section \<open>Entries\<close>

definition cstr_byte :: "string \<Rightarrow> nat \<Rightarrow> u8" where
  "cstr_byte s i = (if i < length s then word_of_nat (of_char (s ! i)) else 0)"

definition put_msf :: "u8 list \<Rightarrow> int \<Rightarrow> u8 list" where
  "put_msf e frames0 =
     (let frames = (if frames0 < 0 then 0 else frames0)
      in e[5 := word_of_int (frames div (60 * 75)), 6 := word_of_int (frames div 75 mod 60),
           7 := word_of_int (frames mod 75)])"

definition blank_entry :: "u8 list" where
  "blank_entry = replicate 8 0"

text \<open>The \<open>ENTRY\<close> macro and the entry it prepares, filled in: the sheet so far and one more.\<close>

definition emit :: "nat \<Rightarrow> u8 list \<Rightarrow> u8 list list \<Rightarrow> u8 list list res" where
  "emit cap e es = (if (length es + 1) * 8 > cap then Inl ERR_SHORT else Inr (es @ [e]))"

fun emit_all :: "nat \<Rightarrow> u8 list list \<Rightarrow> u8 list list \<Rightarrow> u8 list list res" where
  "emit_all cap [] es = Inr es"
| "emit_all cap (e # new) es = (case emit cap e es of Inl err \<Rightarrow> Inl err | Inr es \<Rightarrow> emit_all cap new es)"

definition mcn_entries :: "string \<Rightarrow> u8 list list" where
  "mcn_entries mcn =
     (if mcn = [] then []
      else [0x02 # map (cstr_byte mcn) [0..<7], 0x02 # map (cstr_byte mcn) [7..<13] @ [0]])"

definition leadin_entry :: "bool \<Rightarrow> adsc_disc_info option \<Rightarrow> u8 list" where
  "leadin_entry has_cdtext di =
     (case di of
        Some d \<Rightarrow> if has_cdtext then [0x01, 0, 0, 0x41, 0, di_leadin_m d, di_leadin_s d, di_leadin_f d]
                  else blank_entry[0 := 0x01, 3 := 0x01]
      | None \<Rightarrow> blank_entry[0 := 0x01, 3 := 0x01])"

definition track_ctl :: "adsc_write_track \<Rightarrow> u8" where
  "track_ctl t = (if wt_copy t then 0x20 else 0) OR (if wt_preemphasis t then 0x10 else 0)"

definition isrc_entries :: "adsc_write_track \<Rightarrow> u8 \<Rightarrow> u8 list list" where
  "isrc_entries t nr =
     (if wt_isrc t = [] then []
      else [(track_ctl t OR 0x03) # nr # map (cstr_byte (wt_isrc t)) [0..<6],
            (track_ctl t OR 0x03) # nr # map (cstr_byte (wt_isrc t)) [6..<12]])"

definition index_entry :: "adsc_write_track \<Rightarrow> u8 \<Rightarrow> u8 \<Rightarrow> int \<Rightarrow> u8 list" where
  "index_entry t nr idx frames =
     put_msf (blank_entry[0 := track_ctl t OR 0x01, 1 := nr, 2 := idx]) frames"

definition pregap_entries :: "nat \<Rightarrow> adsc_write_track \<Rightarrow> u8 \<Rightarrow> u8 list list" where
  "pregap_entries ti t nr =
     (if ti = 0 then [index_entry t nr 0 0]
      else if wt_pregap t > 0 then
        [index_entry t nr 0 (sint (wt_index1_lba t - wt_pregap t) + 150)]
      else [])"

definition track_entries :: "nat \<Rightarrow> adsc_write_track \<Rightarrow> u8 list list" where
  "track_entries ti t =
     (let nr = word_of_nat (ti + 1) in
      isrc_entries t nr @ pregap_entries ti t nr
      @ [index_entry t nr 1 (sint (wt_index1_lba t) + 150)])"

definition leadout_entry :: "u32 \<Rightarrow> u8 list" where
  "leadout_entry leadout =
     put_msf (blank_entry[0 := 0x01, 1 := 0xaa, 2 := 1, 3 := 0x01]) (sint leadout + 150)"

definition cue_entries :: "adsc_write_toc \<Rightarrow> bool \<Rightarrow> adsc_disc_info option \<Rightarrow> u8 list list" where
  "cue_entries toc has_cdtext di =
     mcn_entries (wtoc_mcn toc) @ [leadin_entry has_cdtext di]
     @ concat (map (\<lambda>ti. track_entries ti (wtoc_track toc ! ti)) [0..<length (wtoc_track toc)])
     @ [leadout_entry (wtoc_leadout_lba toc)]"

text \<open>
  The builder. \<open>has_cdtext\<close> stands for the layout's borrowed blob (a pointer and a length, both
  non-zero).
\<close>

definition adsc_cuesheet_build ::
    "adsc_write_toc \<Rightarrow> bool \<Rightarrow> adsc_disc_info option \<Rightarrow> nat \<Rightarrow> u8 list res" where
  "adsc_cuesheet_build toc has_cdtext di cap =
     (if length (wtoc_track toc) < 1 \<or> length (wtoc_track toc) > 99 then Inl ERR_INVAL
      else (case emit_all cap (cue_entries toc has_cdtext di) [] of
          Inl e \<Rightarrow> Inl e
        | Inr es \<Rightarrow> Inr (concat es)))"

section \<open>Size\<close>

lemma emit_all_eq:
  "emit_all cap new es =
     (if new = [] \<or> (length es + length new) * 8 \<le> cap then Inr (es @ new) else Inl ERR_SHORT)"
  by (induction new arbitrary: es) (auto simp: emit_def)

lemma length_put_msf [simp]: "length (put_msf e f) = length e"
  by (simp add: put_msf_def Let_def)

lemma blank_entry_length [simp]: "length blank_entry = 8"
  by (simp add: blank_entry_def)

lemma entry_lengths:
  "e \<in> set (cue_entries toc b di) \<Longrightarrow> length e = 8"
  by (auto simp: cue_entries_def mcn_entries_def leadin_entry_def track_entries_def isrc_entries_def
      pregap_entries_def index_entry_def leadout_entry_def Let_def split: if_splits option.splits)

lemma length_concat_entries: "(\<And>e. e \<in> set es \<Longrightarrow> length e = 8) \<Longrightarrow> length (concat es) = 8 * length es"
  by (induction es) auto

lemma length_track_entries: "length (track_entries ti t) \<le> 4"
  by (simp add: track_entries_def isrc_entries_def pregap_entries_def Let_def)

lemma length_cue_entries: "length (cue_entries toc b di) \<le> 4 + 4 * length (wtoc_track toc)"
proof -
  have "length (concat (map (\<lambda>ti. track_entries ti (ts ti)) is)) \<le> 4 * length is" for ts "is"
  proof (induction "is")
    case (Cons i "is")
    then show ?case using length_track_entries [of i "ts i"] by simp
  qed simp
  from this [of "\<lambda>ti. wtoc_track toc ! ti" "[0..<length (wtoc_track toc)]"] show ?thesis
    by (simp add: cue_entries_def mcn_entries_def)
qed

text \<open>
  C35: sizes. For a layout of one to 99 tracks the builder fails only with \<open>ERR_SHORT\<close>, exactly when
  the sheet does not fit; what it returns is whole 8-byte entries; and the 3200 bytes of
  \<open>ADSC_CUE_MAX_BYTES\<close> are always enough.
\<close>

theorem cuesheet_size:
  assumes "1 \<le> length (wtoc_track toc)" and "length (wtoc_track toc) \<le> 99"
  shows "adsc_cuesheet_build toc b di cap =
      (if 8 * length (cue_entries toc b di) \<le> cap then Inr (concat (cue_entries toc b di)) else Inl ERR_SHORT)
    \<and> length (concat (cue_entries toc b di)) = 8 * length (cue_entries toc b di)
    \<and> (3200 \<le> cap \<longrightarrow> (\<exists>out. adsc_cuesheet_build toc b di cap = Inr out \<and> length out \<le> 3200))"
proof -
  have ne: "cue_entries toc b di \<noteq> []" by (simp add: cue_entries_def)
  have len: "length (concat (cue_entries toc b di)) = 8 * length (cue_entries toc b di)"
    by (rule length_concat_entries) (rule entry_lengths)
  have "8 * length (cue_entries toc b di) \<le> 3200"
    using length_cue_entries [of toc b di] assms(2) by linarith
  then show ?thesis
    using assms ne len by (auto simp: adsc_cuesheet_build_def emit_all_eq mult.commute)
qed

theorem cuesheet_size_witness:
  "\<exists>out. adsc_cuesheet_build sample_layout False None 3200 = Inr out \<and> length out \<le> 3200"
proof -
  have "1 \<le> length (wtoc_track sample_layout)" "length (wtoc_track sample_layout) \<le> 99"
    by (simp_all add: sample_layout_def)
  from cuesheet_size [OF this, of False None 3200] show ?thesis by blast
qed

section \<open>Index points\<close>

text \<open>
  The index points a drive finds in a sheet: the position entries outside the lead-in, with their
  track, index and address.
\<close>

definition point_of :: "u8 list \<Rightarrow> (u8 \<times> u8 \<times> int) list" where
  "point_of e =
     (if e ! 0 AND 0x0f = 1 \<and> e ! 1 \<noteq> 0
      then [(e ! 1, e ! 2, accudisc_msf_to_lba (e ! 5) (e ! 6) (e ! 7))] else [])"

definition cue_points :: "u8 list list \<Rightarrow> (u8 \<times> u8 \<times> int) list" where
  "cue_points es = concat (map point_of es)"

definition track_points :: "nat \<Rightarrow> adsc_write_track \<Rightarrow> (u8 \<times> u8 \<times> int) list" where
  "track_points ti t = (let nr = word_of_nat (ti + 1) in
     (if ti = 0 then [(nr, 0, -150)]
      else if wt_pregap t > 0 then [(nr, 0, uint (wt_index1_lba t) - uint (wt_pregap t))] else [])
     @ [(nr, 1, uint (wt_index1_lba t))])"

definition layout_points :: "adsc_write_toc \<Rightarrow> (u8 \<times> u8 \<times> int) list" where
  "layout_points toc =
     concat (map (\<lambda>ti. track_points ti (wtoc_track toc ! ti)) [0..<length (wtoc_track toc)])
     @ [(0xaa, 1, uint (wtoc_leadout_lba toc))]"

text \<open>What the parser guarantees of a layout, with a lead-out a disc can have.\<close>

definition tiled :: "adsc_write_toc \<Rightarrow> bool" where
  "tiled toc \<longleftrightarrow>
     unat (wtoc_leadout_lba toc) = track_length_sum (wtoc_track toc)
     \<and> unat (wtoc_leadout_lba toc) < 1151850
     \<and> (\<forall>i < length (wtoc_track toc).
          unat (wt_pregap (wtoc_track toc ! i)) \<le> unat (wt_sectors (wtoc_track toc ! i))
          \<and> unat (wt_index1_lba (wtoc_track toc ! i))
            = track_length_sum (take i (wtoc_track toc)) + unat (wt_pregap (wtoc_track toc ! i)))"

lemma put_msf_address:
  assumes "0 \<le> f" and "f < 1152000" and "length e = 8"
  shows "accudisc_msf_to_lba (put_msf e f ! 5) (put_msf e f ! 6) (put_msf e f ! 7) = f - 150"
    and "i < 5 \<Longrightarrow> put_msf e f ! i = e ! i"
proof -
  have "accudisc_lba_to_msf (f - 150) = (put_msf e f ! 5, put_msf e f ! 6, put_msf e f ! 7)"
    using assms by (simp add: accudisc_lba_to_msf_def put_msf_def Let_def)
  then show "accudisc_msf_to_lba (put_msf e f ! 5) (put_msf e f ! 6) (put_msf e f ! 7) = f - 150"
    using assms by (intro lba_to_msf_inverse) simp_all
  show "i < 5 \<Longrightarrow> put_msf e f ! i = e ! i" by (simp add: put_msf_def Let_def)
qed

lemma ctl_adr:
  "(track_ctl t OR 0x01) AND 0x0f = 1" "(track_ctl t OR 0x03) AND 0x0f = 3"
  by (simp_all add: track_ctl_def)

lemma point_index_entry:
  assumes "0 \<le> f" and "f < 1152000" and "nr \<noteq> 0"
  shows "point_of (index_entry t nr idx f) = [(nr, idx, f - 150)]"
  using put_msf_address [OF assms(1,2), of "blank_entry[0 := track_ctl t OR 0x01, 1 := nr, 2 := idx]"] assms(3)
  by (simp add: index_entry_def point_of_def ctl_adr blank_entry_def)

lemma point_isrc: "e \<in> set (isrc_entries t nr) \<Longrightarrow> point_of e = []"
  by (auto simp: isrc_entries_def point_of_def ctl_adr split: if_splits)

lemma point_mcn: "e \<in> set (mcn_entries m) \<Longrightarrow> point_of e = []"
  by (auto simp: mcn_entries_def point_of_def split: if_splits)

lemma cue_points_none: "(\<And>e. e \<in> set es \<Longrightarrow> point_of e = []) \<Longrightarrow> cue_points es = []"
  by (induction es) (auto simp: cue_points_def)

lemma cue_points_append [simp]: "cue_points (a @ b) = cue_points a @ cue_points b"
  by (simp add: cue_points_def)

lemma track_length_sum_take:
  assumes "i < length ts"
  shows "track_length_sum (take i ts) + unat (wt_sectors (ts ! i)) \<le> track_length_sum ts"
proof -
  have "ts = take i ts @ ts ! i # drop (Suc i) ts" using assms by (rule id_take_nth_drop)
  then have "track_length_sum ts = track_length_sum (take i ts @ ts ! i # drop (Suc i) ts)" by simp
  then show ?thesis by (simp add: track_length_sum_def)
qed

lemma tiled_bounds:
  assumes "tiled toc" and "i < length (wtoc_track toc)"
  defines "t \<equiv> wtoc_track toc ! i"
  shows "uint (wt_index1_lba t) < 1151850" and "uint (wt_pregap t) \<le> uint (wt_index1_lba t)"
    and "uint (wt_index1_lba t - wt_pregap t) = uint (wt_index1_lba t) - uint (wt_pregap t)"
proof -
  have "unat (wt_index1_lba t) < 1151850" "unat (wt_pregap t) \<le> unat (wt_index1_lba t)"
    using assms(1,2) track_length_sum_take [OF assms(2)] unfolding tiled_def t_def by fastforce+
  then have "int (unat (wt_index1_lba t)) < 1151850"
    "int (unat (wt_pregap t)) \<le> int (unat (wt_index1_lba t))" by linarith+
  then show "uint (wt_index1_lba t) < 1151850" and p: "uint (wt_pregap t) \<le> uint (wt_index1_lba t)"
    by (simp_all only: uint_nat)
  show "uint (wt_index1_lba t - wt_pregap t) = uint (wt_index1_lba t) - uint (wt_pregap t)"
    using p by (simp only: uint_sub_lem)
qed

lemma sint_small: "uint (w :: u32) < 1151850 \<Longrightarrow> sint w = uint w"
proof -
  assume "uint w < 1151850"
  then have hi: "uint w < 2 ^ 31" by simp
  have "0 \<le> uint w" "- (2 ^ 31 :: int) \<le> 0" by simp_all
  then have "- (2 ^ 31) \<le> uint w" by linarith
  with hi show ?thesis by (simp add: sint_uint signed_take_bit_int_eq_self del: power_numeral)
qed

lemma track_number_nonzero: "ti < 99 \<Longrightarrow> (word_of_nat (ti + 1) :: u8) \<noteq> 0"
proof -
  assume "ti < 99"
  then have "unat (word_of_nat (ti + 1) :: u8) = ti + 1"
    by (simp only: unsigned_of_nat) (simp add: take_bit_nat_eq_self)
  then show ?thesis by (metis add_is_0 one_neq_zero unsigned_0)
qed

lemma cue_points_index:
  assumes "0 \<le> f" and "f < 1152000" and "nr \<noteq> 0"
  shows "cue_points [index_entry t nr idx f] = [(nr, idx, f - 150)]"
  using point_index_entry [OF assms] by (simp add: cue_points_def)

lemma cue_points_track:
  assumes "tiled toc" and "ti < length (wtoc_track toc)" and "length (wtoc_track toc) \<le> 99"
  defines "t \<equiv> wtoc_track toc ! ti"
  shows "cue_points (track_entries ti t) = track_points ti t"
proof -
  define nr where "nr = (word_of_nat (ti + 1) :: u8)"
  note b = tiled_bounds [OF assms(1,2), folded t_def]
  have nz: "nr \<noteq> 0" unfolding nr_def using assms(2,3) by (intro track_number_nonzero) simp
  have s: "sint (wt_index1_lba t) = uint (wt_index1_lba t)" using b(1) by (rule sint_small)
  have "uint (wt_index1_lba t - wt_pregap t) < 1151850" using b uint_ge_0 [of "wt_pregap t"] by linarith
  then have p: "sint (wt_index1_lba t - wt_pregap t) = uint (wt_index1_lba t) - uint (wt_pregap t)"
    using b(3) by (simp only: sint_small)
  have u: "0 \<le> uint (wt_index1_lba t) - uint (wt_pregap t) + 150"
    "uint (wt_index1_lba t) - uint (wt_pregap t) + 150 < 1152000"
    "0 \<le> uint (wt_index1_lba t) + 150" "uint (wt_index1_lba t) + 150 < 1152000"
    using b(1,2) uint_ge_0 [of "wt_pregap t"] uint_ge_0 [of "wt_index1_lba t"] by linarith+
  have i: "cue_points (isrc_entries t nr) = []"
    by (rule cue_points_none) (rule point_isrc)
  have "cue_points (pregap_entries ti t nr)
      = (if ti = 0 then [(nr, 0, -150)]
         else if wt_pregap t > 0 then [(nr, 0, uint (wt_index1_lba t) - uint (wt_pregap t))] else [])"
    unfolding pregap_entries_def p
    using cue_points_index [OF _ _ nz, of 0] cue_points_index [OF u(1,2) nz]
    by (simp add: cue_points_def)
  moreover have "cue_points [index_entry t nr 1 (sint (wt_index1_lba t) + 150)]
      = [(nr, 1, uint (wt_index1_lba t))]"
    unfolding s using cue_points_index [OF u(3,4) nz, of t 1] by simp
  ultimately show ?thesis
    unfolding track_entries_def track_points_def Let_def nr_def [symmetric]
    by (simp only: cue_points_append i append_Nil)
qed

lemma cue_points_concat: "cue_points (concat ess) = concat (map cue_points ess)"
  by (induction ess) (simp_all add: cue_points_def)

definition layout_addresses :: "adsc_write_toc \<Rightarrow> int list" where
  "layout_addresses toc = map (\<lambda>(nr, idx, lba). lba) (layout_points toc)"

lemma track_points_sorted:
  assumes "tiled toc" and "n \<le> length (wtoc_track toc)"
  defines "addrs \<equiv> \<lambda>n. map (\<lambda>(nr, idx, lba). lba)
      (concat (map (\<lambda>ti. track_points ti (wtoc_track toc ! ti)) [0..<n]))"
  shows "sorted (addrs n) \<and> (\<forall>a \<in> set (addrs n). a \<le> int (track_length_sum (take n (wtoc_track toc))))"
  using assms(2)
proof (induction n)
  case 0
  then show ?case by (simp add: addrs_def)
next
  case (Suc n)
  define t where "t = wtoc_track toc ! n"
  have n: "n < length (wtoc_track toc)" using Suc.prems by simp
  note b = tiled_bounds [OF assms(1) n, folded t_def]
  have "unat (wt_index1_lba t) = track_length_sum (take n (wtoc_track toc)) + unat (wt_pregap t)"
    "unat (wt_pregap t) \<le> unat (wt_sectors t)"
    using assms(1) n unfolding tiled_def t_def by blast+
  then have i: "uint (wt_index1_lba t) = int (track_length_sum (take n (wtoc_track toc))) + uint (wt_pregap t)"
    "uint (wt_pregap t) \<le> uint (wt_sectors t)" by (simp_all only: uint_nat)
  have "track_length_sum (take (Suc n) (wtoc_track toc))
      = track_length_sum (take n (wtoc_track toc)) + unat (wt_sectors t)"
    using n by (simp add: take_Suc_conv_app_nth track_length_sum_def t_def)
  then have S: "int (track_length_sum (take (Suc n) (wtoc_track toc)))
      = int (track_length_sum (take n (wtoc_track toc))) + uint (wt_sectors t)"
    by (simp only: uint_nat of_nat_add)
  have "addrs (Suc n) = addrs n @ map (\<lambda>(nr, idx, lba). lba) (track_points n t)"
    by (simp add: addrs_def t_def)
  moreover have "map (\<lambda>(nr, idx, lba). lba) (track_points n t)
      = (if n = 0 then [-150] else if wt_pregap t > 0 then [uint (wt_index1_lba t) - uint (wt_pregap t)] else [])
        @ [uint (wt_index1_lba t)]"
    by (simp add: track_points_def Let_def)
  moreover have "addrs 0 = []" by (simp add: addrs_def)
  ultimately have A: "addrs (Suc n) = (if n = 0 then [-150] else addrs n
      @ (if wt_pregap t > 0 then [uint (wt_index1_lba t) - uint (wt_pregap t)] else [])) @ [uint (wt_index1_lba t)]"
    by (cases "n = 0") simp_all
  have e: "uint (wt_index1_lba t) - uint (wt_pregap t) = int (track_length_sum (take n (wtoc_track toc)))"
    using i by simp
  have lo: "int (track_length_sum (take n (wtoc_track toc))) \<le> uint (wt_index1_lba t)"
    "uint (wt_index1_lba t) \<le> int (track_length_sum (take (Suc n) (wtoc_track toc)))"
    "- 150 \<le> uint (wt_index1_lba t)"
    using i S uint_ge_0 [of "wt_pregap t"] uint_ge_0 [of "wt_index1_lba t"] by linarith+
  have IH: "sorted (addrs n)" "\<forall>a \<in> set (addrs n). a \<le> int (track_length_sum (take n (wtoc_track toc)))"
    using Suc.IH n by simp_all
  show ?case
  proof (cases "n = 0")
    case True
    then show ?thesis unfolding A using lo by simp
  next
    case False
    have "sorted (addrs n @ (if wt_pregap t > 0 then [uint (wt_index1_lba t) - uint (wt_pregap t)] else [])
        @ [uint (wt_index1_lba t)])"
      using IH lo(1) unfolding e by (fastforce simp: sorted_append)
    moreover have "\<forall>a \<in> set (addrs n). a \<le> int (track_length_sum (take (Suc n) (wtoc_track toc)))"
      using IH(2) lo(1,2) by fastforce
    ultimately show ?thesis unfolding A using False lo(1,2) e by auto
  qed
qed



section \<open>The lead-in extent\<close>

lemma unat_byte: "unat (b :: u8) \<le> 255"
proof -
  have "unat b < 2 ^ LENGTH(8)" by (rule unsigned_less)
  moreover have "(2 :: nat) ^ LENGTH(8) = 256" by simp
  ultimately show ?thesis by linarith
qed

lemma unat_ucast_byte: "unat (ucast (b :: u8) :: u32) = unat b"
proof -
  have "(2 :: nat) ^ 32 = 4294967296" by simp
  then have "unat b < 2 ^ 32" using unat_byte [of b] by linarith
  then show ?thesis by (simp add: unsigned_ucast_eq take_bit_nat_eq_self)
qed

text \<open>
  The extent of the lead-in. Whatever the drive answers, the extent is between one sector and
  the 90000 from 80:00:00 to 100:00:00; it is the rest of the lead-in exactly when the reported
  start lies in that window, one minute otherwise; and an answer of fewer than seven bytes is
  refused.
\<close>

theorem leadin_extent:
  "(let n = adsc_leadin_len_from_msf m s f; start = (unat m * 60 + unat s) * 75 + unat f in
      1 \<le> unat n \<and> unat n \<le> 90000
      \<and> unat n = (if 360000 \<le> start \<and> start < 450000 then 450000 - start else 4500))
 \<and> (adsc_write_read_disc_info (Inr (buf, len)) = Inl ERR_SHORT \<longleftrightarrow> len < 7)"
proof -
  define st where "st = ((ucast m * 60 + ucast s) * 75 + ucast f :: u32)"
  have b: "unat m < 256" "unat s < 256" "unat f < 256"
    using unat_byte [of m] unat_byte [of s] unat_byte [of f] by linarith+
  define M where "M = unat m" define S where "S = unat s" define F where "F = unat f"
  have b: "M < 256" "S < 256" "F < 256" using b by (simp_all only: M_def S_def F_def)
  note u = unat_ucast_byte M_def [symmetric] S_def [symmetric] F_def [symmetric]
  have "unat (ucast m * 60 :: u32) = M * 60"
    using b by (subst unat_mult_lem [THEN iffD1]) (simp_all add: u)
  then have "unat (ucast m * 60 + ucast s :: u32) = M * 60 + S"
    using b by (subst unat_add_lem [THEN iffD1]) (simp_all add: u)
  then have "unat ((ucast m * 60 + ucast s) * 75 :: u32) = (M * 60 + S) * 75"
    using b by (subst unat_mult_lem [THEN iffD1]) simp_all
  then have st: "unat st = (M * 60 + S) * 75 + F"
    unfolding st_def using b by (subst unat_add_lem [THEN iffD1]) (simp_all add: u)
  have "unat (450000 - st) = 450000 - unat st" if "unat st < 450000"
    using that by (subst unat_sub) (simp_all add: word_le_nat_alt)
  then have "unat (adsc_leadin_len_from_msf m s f)
      = (if 360000 \<le> unat st \<and> unat st < 450000 then 450000 - unat st else 4500)"
    unfolding adsc_leadin_len_from_msf_def Let_def st_def [symmetric]
    by (simp add: word_le_nat_alt word_less_nat_alt)
  then show ?thesis
    unfolding st u by (auto simp: Let_def adsc_write_read_disc_info_def)
qed

end
