(* ===== verification/Transport.thy ===== *)
theory Transport
  imports Prelude
begin

text \<open>
  The pass-through transport: \<^verbatim>\<open>src/transport/sgio.c\<close>, \<^verbatim>\<open>sense.c\<close> and
  \<^verbatim>\<open>transport.h\<close>. The kernel and the drive behind it are the parameter \<open>K\<close> of every
  operation: a record of the ioctls the code makes, each a function of the kernel's state (which
  the drive's is part of) to its answer and the next state, the passing of time, and what fresh memory holds. Nothing is
  assumed of it here. A buffer is the list of its bytes; a transfer from the drive overwrites its
  front and leaves the rest, so bytes that never arrived are still there to be read.
\<close>

section \<open>The kernel interface\<close>

datatype adsc_xfer_dir = XFER_NONE | XFER_IN | XFER_OUT

text \<open>What \<open>ioctl(SG_IO)\<close> leaves in \<open>sg_io_hdr_t\<close>, in the sense buffer and in the data buffer.\<close>

record sg_reply =
  sgr_errno :: int
  sgr_resid :: int
  sgr_host :: u16
  sgr_driver :: u16
  sgr_status :: u8
  sgr_info_ok :: bool
  sgr_sb_len :: nat
  sgr_sense :: "u8 list"
  sgr_data :: "u8 list"

record 'k kernel =
  k_sg_io :: "u8 list \<Rightarrow> adsc_xfer_dir \<Rightarrow> u8 list \<Rightarrow> u32 \<Rightarrow> 'k \<Rightarrow> sg_reply \<times> 'k"
  k_select_speed :: "u32 \<Rightarrow> 'k \<Rightarrow> bool \<times> 'k"
  k_unlock_door :: "'k \<Rightarrow> int \<times> 'k"
  k_eject :: "'k \<Rightarrow> bool \<times> 'k"
  k_disc_ok :: "'k \<Rightarrow> bool \<times> 'k"
  k_close_tray :: "'k \<Rightarrow> bool \<times> 'k"
  k_sleep :: "nat \<Rightarrow> 'k \<Rightarrow> 'k"
  k_fresh :: "nat \<Rightarrow> 'k \<Rightarrow> u8 list"

definition overlay :: "'a list \<Rightarrow> 'a list \<Rightarrow> 'a list" where
  "overlay data buf = take (length buf) (data @ drop (length data) buf)"

lemma length_overlay [simp]: "length (overlay data buf) = length buf"
  by (simp add: overlay_def)

text \<open>Memory as it is handed out, of indeterminate content.\<close>

definition fresh_bytes :: "'k kernel \<Rightarrow> nat \<Rightarrow> 'k \<Rightarrow> u8 list" where
  "fresh_bytes K n k = overlay (k_fresh K n k) (replicate n 0)"

lemma overlay_Nil [simp]: "overlay [] buf = buf"
  by (simp add: overlay_def)

lemma take_overlay: "n \<le> length data \<Longrightarrow> n \<le> length buf \<Longrightarrow> take n (overlay data buf) = take n data"
  by (simp add: overlay_def min_def)

lemma overlay_all: "length data = length buf \<Longrightarrow> overlay data buf = data"
  by (simp add: overlay_def)

lemma nth_overlay:
  "i < length buf \<Longrightarrow> overlay data buf ! i = (if i < length data then data ! i else buf ! i)"
  by (simp add: overlay_def nth_append)

section \<open>Sense data\<close>

record accudisc_sense =
  sn_valid :: bool
  sn_key :: u8
  sn_asc :: u8
  sn_ascq :: u8

definition sense_zero :: accudisc_sense where
  "sense_zero = \<lparr> sn_valid = False, sn_key = 0, sn_asc = 0, sn_ascq = 0 \<rparr>"

definition adsc_sense_decode :: "u8 list \<Rightarrow> nat \<Rightarrow> accudisc_sense" where
  "adsc_sense_decode sense len =
     (if len < 1 then sense_zero
      else
        let code = sense ! 0 AND 0x7f in
        if (code = 0x70 \<or> code = 0x71) \<and> len \<ge> 14
        then \<lparr> sn_valid = True, sn_key = sense ! 2 AND 0x0f, sn_asc = sense ! 12,
               sn_ascq = sense ! 13 \<rparr>
        else if (code = 0x72 \<or> code = 0x73) \<and> len \<ge> 4
        then \<lparr> sn_valid = True, sn_key = sense ! 1 AND 0x0f, sn_asc = sense ! 2,
               sn_ascq = sense ! 3 \<rparr>
        else sense_zero)"

section \<open>Commands\<close>

definition adsc_sense_len :: nat where "adsc_sense_len = 32"
definition timeout_read_ms :: u32 where "timeout_read_ms = 60000"
definition timeout_ctrl_ms :: u32 where "timeout_ctrl_ms = 30000"
definition timeout_write_ms :: u32 where "timeout_write_ms = 120000"

record adsc_cmd =
  cmd_cdb :: "u8 list"
  cmd_dir :: adsc_xfer_dir
  cmd_buf :: "u8 list"
  cmd_timeout :: u32
  cmd_sense :: "u8 list"
  cmd_sense_len :: nat
  cmd_resid :: nat
  cmd_io_errno :: int
  cmd_host :: u16
  cmd_driver :: u16
  cmd_status :: u8

definition new_cmd :: "u8 list \<Rightarrow> adsc_xfer_dir \<Rightarrow> u8 list \<Rightarrow> u32 \<Rightarrow> adsc_cmd" where
  "new_cmd cdb dir buf timeout =
     \<lparr> cmd_cdb = cdb, cmd_dir = dir, cmd_buf = buf, cmd_timeout = timeout,
       cmd_sense = replicate adsc_sense_len 0, cmd_sense_len = 0, cmd_resid = 0, cmd_io_errno = 0,
       cmd_host = 0, cmd_driver = 0, cmd_status = 0 \<rparr>"

lemma new_cmd_simps [simp]:
  "cmd_cdb (new_cmd cdb dir buf t) = cdb" "cmd_dir (new_cmd cdb dir buf t) = dir"
  "cmd_buf (new_cmd cdb dir buf t) = buf" "cmd_timeout (new_cmd cdb dir buf t) = t"
  "cmd_sense_len (new_cmd cdb dir buf t) = 0" "cmd_resid (new_cmd cdb dir buf t) = 0"
  "cmd_driver (new_cmd cdb dir buf t) = 0"
  by (simp_all add: new_cmd_def)

definition adsc_resid_clamp :: "int \<Rightarrow> nat \<Rightarrow> nat" where
  "adsc_resid_clamp raw buf_len =
     (if raw \<le> 0 then 0 else if nat raw > buf_len then buf_len else nat raw)"

lemma resid_clamp_le: "adsc_resid_clamp raw n \<le> n"
  by (simp add: adsc_resid_clamp_def)

definition adsc_exec_check_short :: "unit res \<Rightarrow> nat \<Rightarrow> nat \<Rightarrow> unit res" where
  "adsc_exec_check_short rc resid slack = (if rc = Inr () \<and> resid > slack then Inl ERR_SHORT else rc)"

definition adsc_transport_exec :: "'k kernel \<Rightarrow> adsc_cmd \<Rightarrow> 'k \<Rightarrow> unit res \<times> adsc_cmd \<times> 'k" where
  "adsc_transport_exec K cmd k =
     (let timeout = (if cmd_timeout cmd \<noteq> 0 then cmd_timeout cmd else timeout_ctrl_ms);
          (r, k') = k_sg_io K (cmd_cdb cmd) (cmd_dir cmd) (cmd_buf cmd) timeout k;
          c = cmd\<lparr> cmd_sense := overlay (sgr_sense r) (replicate adsc_sense_len 0),
                   cmd_sense_len := 0, cmd_io_errno := 0, cmd_host := 0, cmd_driver := 0,
                   cmd_status := 0,
                   cmd_buf := (if cmd_dir cmd = XFER_IN then overlay (sgr_data r) (cmd_buf cmd)
                               else cmd_buf cmd) \<rparr>
      in
      if sgr_errno r \<noteq> 0 then (Inl ERR_IO, c\<lparr> cmd_io_errno := sgr_errno r \<rparr>, k')
      else
        let c = c\<lparr> cmd_resid := adsc_resid_clamp (sgr_resid r) (length (cmd_buf cmd)),
                   cmd_host := sgr_host r, cmd_driver := sgr_driver r, cmd_status := sgr_status r \<rparr>
        in
        if \<not> sgr_info_ok r
        then if sgr_sb_len r > 0 then (Inl ERR_SENSE, c\<lparr> cmd_sense_len := sgr_sb_len r \<rparr>, k')
             else (Inl ERR_IO, c, k')
        else (Inr (), c, k'))"

lemma transport_exec_cmd:
  assumes "adsc_transport_exec K cmd k = (rc, cmd', k')"
  shows "cmd_cdb cmd' = cmd_cdb cmd" "cmd_dir cmd' = cmd_dir cmd"
    "cmd_timeout cmd' = cmd_timeout cmd" "length (cmd_buf cmd') = length (cmd_buf cmd)"
    "cmd_dir cmd \<noteq> XFER_IN \<Longrightarrow> cmd_buf cmd' = cmd_buf cmd"
    "rc \<in> {Inr (), Inl ERR_IO, Inl ERR_SENSE}"
  using assms by (auto simp: adsc_transport_exec_def Let_def split: prod.splits if_splits)

section \<open>Why a transfer failed\<close>

text \<open>
  \<open>adsc_io_detail\<close> renders a failure for the user. The model keeps the fields it prints in place of
  the sentence.
\<close>

datatype io_note =
  IO_NONE
| IO_UNKNOWN
| IO_IOCTL int
| IO_TIMEOUT u16 u16
| IO_STATUS u16 u16 u8
| IO_NO_DETAIL
| IO_NOT_READY nat accudisc_sense
| IO_MISFRAMED nat nat
| IO_EJECT_FAILED
| IO_EJECT_LOCKED nat
| IO_EJECT_STUCK nat int

definition adsc_io_detail :: "adsc_cmd \<Rightarrow> io_note" where
  "adsc_io_detail cmd =
     (if cmd_io_errno cmd \<noteq> 0 then IO_IOCTL (cmd_io_errno cmd)
      else if cmd_driver cmd AND 0x0f = 0x06 then IO_TIMEOUT (cmd_driver cmd) (cmd_host cmd)
      else if cmd_host cmd \<noteq> 0 \<or> cmd_driver cmd \<noteq> 0 \<or> cmd_status cmd \<noteq> 0
      then IO_STATUS (cmd_host cmd) (cmd_driver cmd) (cmd_status cmd)
      else IO_NO_DETAIL)"

section \<open>Speed and tray\<close>

definition adsc_transport_select_speed :: "'k kernel \<Rightarrow> u32 \<Rightarrow> 'k \<Rightarrow> unit res \<times> 'k" where
  "adsc_transport_select_speed K speed k =
     (let (ok, k') = k_select_speed K speed k in (if ok then Inr () else Inl ERR_IO, k'))"

definition eject_verify_ms :: nat where "eject_verify_ms = 5000"
definition eject_poll_ms :: nat where "eject_poll_ms = 100"
definition ebusy :: int where "ebusy = 16"

function eject_verify :: "'k kernel \<Rightarrow> nat \<Rightarrow> 'k \<Rightarrow> bool \<times> 'k" where
  "eject_verify K waited k =
     (let (present, k') = k_disc_ok K k in
      if waited < eject_verify_ms
      then if \<not> present then (True, k')
           else eject_verify K (waited + eject_poll_ms) (k_sleep K eject_poll_ms k')
      else (\<not> present, k'))"
  by auto
termination
  by (relation "measure (\<lambda>(K, waited, k). eject_verify_ms - waited)") (auto simp: eject_poll_ms_def)

declare eject_verify.simps [simp del]

definition adsc_transport_eject :: "'k kernel \<Rightarrow> io_note \<Rightarrow> 'k \<Rightarrow> unit res \<times> io_note \<times> 'k" where
  "adsc_transport_eject K why k =
     (let (lock_errno, k) = k_unlock_door K k;
          (ok, k) = k_eject K k in
      if \<not> ok then (Inl ERR_IO, IO_EJECT_FAILED, k)
      else
        let (gone, k) = eject_verify K 0 k in
        if gone then (Inr (), why, k)
        else (Inl ERR_IO,
              if lock_errno = ebusy then IO_EJECT_LOCKED eject_verify_ms
              else IO_EJECT_STUCK eject_verify_ms lock_errno, k))"

definition adsc_transport_load :: "'k kernel \<Rightarrow> 'k \<Rightarrow> unit res \<times> 'k" where
  "adsc_transport_load K k =
     (let (ok, k') = k_close_tray K k in (if ok then Inr () else Inl ERR_IO, k'))"

section \<open>What a sound transport promises\<close>

text \<open>
  Linux documents \<open>resid\<close> as the transfer length less what was actually transferred; a command that
  completes well has transferred exactly that much. Nothing is promised of one that fails.
\<close>

definition resid_honest :: "'k kernel \<Rightarrow> bool" where
  "resid_honest K \<longleftrightarrow>
     (\<forall>cdb buf t k r k'. k_sg_io K cdb XFER_IN buf t k = (r, k') \<longrightarrow> sgr_errno r = 0 \<longrightarrow> sgr_info_ok r \<longrightarrow>
        length (sgr_data r) + adsc_resid_clamp (sgr_resid r) (length buf) = length buf)"

lemma exec_delivers:
  assumes "resid_honest K" and "adsc_transport_exec K cmd k = (Inr (), cmd', k')" and "cmd_dir cmd = XFER_IN"
    and "n + cmd_resid cmd' \<le> length (cmd_buf cmd)"
  obtains r where "k_sg_io K (cmd_cdb cmd) XFER_IN (cmd_buf cmd)
      (if cmd_timeout cmd \<noteq> 0 then cmd_timeout cmd else timeout_ctrl_ms) k = (r, k')"
    and "n \<le> length (sgr_data r)" and "take n (cmd_buf cmd') = take n (sgr_data r)"
proof -
  obtain r k1 where r: "k_sg_io K (cmd_cdb cmd) XFER_IN (cmd_buf cmd)
      (if cmd_timeout cmd \<noteq> 0 then cmd_timeout cmd else timeout_ctrl_ms) k = (r, k1)"
    by fastforce
  with assms(2,3) have c: "sgr_errno r = 0" "sgr_info_ok r" "k1 = k'"
    "cmd_buf cmd' = overlay (sgr_data r) (cmd_buf cmd)"
    "cmd_resid cmd' = adsc_resid_clamp (sgr_resid r) (length (cmd_buf cmd))"
    by (auto simp: adsc_transport_exec_def Let_def split: if_splits prod.splits)
  with assms(1) r have "length (sgr_data r) + cmd_resid cmd' = length (cmd_buf cmd)"
    unfolding resid_honest_def by metis
  with assms(4) c r show thesis
    by (intro that [of r]) (auto intro: take_overlay)
qed

end
