(* ===== verification/Device.thy ===== *)
theory Device
  imports Transport Layout
begin

text \<open>
  The device handle and the one place every command passes: \<open>struct accudisc_device\<close> of
  \<^verbatim>\<open>src/internal.h\<close>, \<open>exec_once\<close> and \<open>adsc_dev_exec\<close> of \<^verbatim>\<open>src/device.c\<close>, and the readiness
  layer \<^verbatim>\<open>src/drive/ready.c\<close>. The handle carries the kernel's state; log and trace output
  is left out, it changes nothing. The results: a command that is not on the allow list is sent
  exactly once; one that is, is repeated at most 243 times and only while the drive says it did
  not execute; and waiting for the drive ends, except on a drive that never stops raising unit
  attentions.
\<close>

section \<open>The handle\<close>

record accudisc_drive_id =
  id_vendor :: "u8 list"
  id_product :: "u8 list"
  id_revision :: "u8 list"

record 'k accudisc_device =
  dev_k :: 'k
  dev_last_sense :: accudisc_sense
  dev_id :: accudisc_drive_id
  dev_id_valid :: bool
  dev_streaming :: int
  dev_ready_wait_off :: bool
  dev_uncap_set :: int
  dev_last_io :: io_note
  dev_xfer_bounce :: "u8 list"
  dev_xfer_exact :: int
  dev_layout :: "nat \<Rightarrow> nat \<Rightarrow> adsc_layout"
  dev_wr_live :: u32
  dev_wr_budget :: u32
  dev_wr_base_settle :: u32
  dev_wr_base_pay :: u32
  dev_wr_base_sect :: u32
  dev_wr_last_settle :: u32
  dev_wr_last_pay :: u32
  dev_wr_last_sect :: u32
  dev_wr_anomaly :: u32

text \<open>What \<open>accudisc_open\<close> leaves of a calloc'ed handle.\<close>

definition accudisc_open :: "'k \<Rightarrow> 'k accudisc_device" where
  "accudisc_open k =
     \<lparr> dev_k = k, dev_last_sense = sense_zero,
       dev_id = \<lparr> id_vendor = [], id_product = [], id_revision = [] \<rparr>, dev_id_valid = False,
       dev_streaming = 0, dev_ready_wait_off = False, dev_uncap_set = 0, dev_last_io = IO_NONE,
       dev_xfer_bounce = [], dev_xfer_exact = 0, dev_layout = (\<lambda>_ _. LAYOUT_UNKNOWN), dev_wr_live = 0, dev_wr_budget = 0,
       dev_wr_base_settle = 0, dev_wr_base_pay = 0, dev_wr_base_sect = 0, dev_wr_last_settle = 0,
       dev_wr_last_pay = 0, dev_wr_last_sect = 0, dev_wr_anomaly = 0 \<rparr>"

definition exec_once :: "'k kernel \<Rightarrow> adsc_cmd \<Rightarrow> 'k accudisc_device
    \<Rightarrow> unit res \<times> adsc_cmd \<times> 'k accudisc_device" where
  "exec_once K cmd dev =
     (let (rc, cmd, k) = adsc_transport_exec K cmd (dev_k dev);
          dev = dev\<lparr> dev_k := k,
                     dev_last_sense := (if rc = Inr () then sense_zero
                       else adsc_sense_decode (cmd_sense cmd) (cmd_sense_len cmd)),
                     dev_last_io := (if rc = Inl ERR_IO then adsc_io_detail cmd else dev_last_io dev) \<rparr>
      in (rc, cmd, dev))"

section \<open>Readiness\<close>

datatype readiness = READY_YES | READY_WAIT | READY_RETRY_NOW | READY_NO_MEDIUM | READY_OTHER

definition adsc_ready_classify :: "unit res \<Rightarrow> accudisc_sense \<Rightarrow> readiness" where
  "adsc_ready_classify rc s =
     (if rc = Inr () then READY_YES
      else if rc \<noteq> Inl ERR_SENSE \<or> \<not> sn_valid s then READY_OTHER
      else if sn_key s = 0x06
      then if sn_asc s = 0x28 \<or> sn_asc s = 0x29 then READY_RETRY_NOW else READY_OTHER
      else if sn_key s = 0x02
      then if sn_asc s = 0x3A then READY_NO_MEDIUM
           else if sn_asc s = 0x04 then READY_WAIT else READY_OTHER
      else READY_OTHER)"

definition adsc_op_repeatable :: "u8 \<Rightarrow> bool" where
  "adsc_op_repeatable op \<longleftrightarrow>
     op \<in> set [0x00, 0x03, 0x12, 0x1A, 0x23, 0x25, 0x28, 0x42, 0x43, 0x46, 0x4A, 0x51, 0x52, 0x5A,
               0x5C, 0xA8, 0xAC, 0xAD, 0xB9, 0xBD, 0xBE]"

definition ready_poll_ms :: nat where "ready_poll_ms = 250"
definition ready_timeout_ms :: nat where "ready_timeout_ms = 60000"
definition ua_retries :: nat where "ua_retries = 3"

definition adsc_sleep_ms :: "'k kernel \<Rightarrow> nat \<Rightarrow> 'k accudisc_device \<Rightarrow> 'k accudisc_device" where
  "adsc_sleep_ms K ms dev = dev\<lparr> dev_k := k_sleep K ms (dev_k dev) \<rparr>"

text \<open>
  The loop of \<open>adsc_dev_exec\<close>, from the state behind an attempt: \<open>ua\<close> unit attentions retried and
  \<open>waited\<close> milliseconds slept so far.
\<close>

function dev_exec_loop :: "'k kernel \<Rightarrow> nat \<Rightarrow> nat \<Rightarrow> unit res \<Rightarrow> adsc_cmd \<Rightarrow> 'k accudisc_device
    \<Rightarrow> unit res \<times> adsc_cmd \<times> 'k accudisc_device" where
  "dev_exec_loop K ua waited rc cmd dev =
     (if rc = Inl ERR_SENSE \<and> adsc_op_repeatable (cmd_cdb cmd ! 0)
      then
        let what = adsc_ready_classify rc (dev_last_sense dev) in
        if what = READY_RETRY_NOW
        then if ua \<ge> ua_retries then (rc, cmd, dev)
             else let (rc, cmd, dev) = exec_once K cmd dev
                  in dev_exec_loop K (ua + 1) waited rc cmd dev
        else if what \<noteq> READY_WAIT \<or> dev_ready_wait_off dev \<or> cmd_cdb cmd ! 0 = 0x00
        then (rc, cmd, dev)
        else if waited \<ge> ready_timeout_ms then (rc, cmd, dev)
        else let (rc, cmd, dev) = exec_once K cmd (adsc_sleep_ms K ready_poll_ms dev)
             in dev_exec_loop K ua (waited + ready_poll_ms) rc cmd dev
      else (rc, cmd, dev))"
  by auto
termination
  by (relation "measure (\<lambda>(K, ua, waited, rc, cmd, dev).
        (ua_retries - ua) + (ready_timeout_ms - waited))")
     (auto simp: ready_poll_ms_def)

declare dev_exec_loop.simps [simp del]

definition adsc_dev_exec :: "'k kernel \<Rightarrow> adsc_cmd \<Rightarrow> 'k accudisc_device
    \<Rightarrow> unit res \<times> adsc_cmd \<times> 'k accudisc_device" where
  "adsc_dev_exec K cmd dev =
     (let (rc, cmd, dev) = exec_once K cmd dev in dev_exec_loop K 0 0 rc cmd dev)"

section \<open>Waiting for the drive\<close>

definition adsc_mmc_test_unit_ready :: "'k kernel \<Rightarrow> 'k accudisc_device \<Rightarrow> unit res \<times> 'k accudisc_device" where
  "adsc_mmc_test_unit_ready K dev =
     (let (rc, _, dev) = adsc_dev_exec K (new_cmd [0, 0, 0, 0, 0, 0] XFER_NONE [] timeout_ctrl_ms) dev
      in (rc, dev))"

text \<open>The loop of \<open>adsc_dev_wait_ready\<close> has no bound of its own; \<open>None\<close> is a wait that never ends.\<close>

partial_function (option) wait_ready_loop ::
    "'k kernel \<Rightarrow> nat \<Rightarrow> nat \<Rightarrow> 'k accudisc_device \<Rightarrow> (unit res \<times> 'k accudisc_device) option" where
  "wait_ready_loop K timeout waited dev =
     (case adsc_mmc_test_unit_ready K dev of (rc, dev) \<Rightarrow>
        case adsc_ready_classify rc (dev_last_sense dev) of
          READY_YES \<Rightarrow> Some (Inr (), dev)
        | READY_RETRY_NOW \<Rightarrow> wait_ready_loop K timeout waited dev
        | READY_NO_MEDIUM \<Rightarrow> Some (rc, dev)
        | READY_OTHER \<Rightarrow> Some (rc, dev)
        | READY_WAIT \<Rightarrow>
            if waited \<ge> timeout
            then Some (Inl ERR_IO, dev\<lparr> dev_last_io := IO_NOT_READY waited (dev_last_sense dev) \<rparr>)
            else wait_ready_loop K timeout (waited + ready_poll_ms) (adsc_sleep_ms K ready_poll_ms dev))"

definition adsc_dev_wait_ready :: "'k kernel \<Rightarrow> nat \<Rightarrow> 'k accudisc_device
    \<Rightarrow> (unit res \<times> 'k accudisc_device) option" where
  "adsc_dev_wait_ready K timeout dev = wait_ready_loop K timeout 0 dev"

section \<open>Attempts\<close>

lemma exec_once_cmd:
  assumes "exec_once K cmd dev = (rc, cmd', dev')"
  shows "cmd_cdb cmd' = cmd_cdb cmd" "cmd_dir cmd' = cmd_dir cmd"
    "cmd_timeout cmd' = cmd_timeout cmd" "length (cmd_buf cmd') = length (cmd_buf cmd)"
    "cmd_dir cmd \<noteq> XFER_IN \<Longrightarrow> cmd_buf cmd' = cmd_buf cmd"
    "rc \<in> {Inr (), Inl ERR_IO, Inl ERR_SENSE}"
proof -
  obtain k where k: "adsc_transport_exec K cmd (dev_k dev) = (rc, cmd', k)"
    using assms by (auto simp: exec_once_def Let_def split: prod.splits)
  note t = transport_exec_cmd [OF k]
  show "cmd_cdb cmd' = cmd_cdb cmd" "cmd_dir cmd' = cmd_dir cmd"
    "cmd_timeout cmd' = cmd_timeout cmd" "length (cmd_buf cmd') = length (cmd_buf cmd)"
    "cmd_dir cmd \<noteq> XFER_IN \<Longrightarrow> cmd_buf cmd' = cmd_buf cmd"
    "rc \<in> {Inr (), Inl ERR_IO, Inl ERR_SENSE}"
    by (fact t)+
qed

text \<open>One round of the retry loop: it stops, or it makes one more attempt, nearer its bound.\<close>

lemma dev_exec_loop_cases:
  assumes "dev_exec_loop K ua waited rc cmd dev = (rc', cmd', dev')"
  obtains (stop) "rc' = rc" "cmd' = cmd" "dev' = dev"
  | (ua) rc1 cmd1 dev1 where "rc = Inl ERR_SENSE" "adsc_op_repeatable (cmd_cdb cmd ! 0)"
      "adsc_ready_classify rc (dev_last_sense dev) = READY_RETRY_NOW" "ua < ua_retries"
      "exec_once K cmd dev = (rc1, cmd1, dev1)"
      "dev_exec_loop K (ua + 1) waited rc1 cmd1 dev1 = (rc', cmd', dev')"
  | (wait) rc1 cmd1 dev1 where "rc = Inl ERR_SENSE" "adsc_op_repeatable (cmd_cdb cmd ! 0)"
      "adsc_ready_classify rc (dev_last_sense dev) = READY_WAIT" "waited < ready_timeout_ms"
      "exec_once K cmd (adsc_sleep_ms K ready_poll_ms dev) = (rc1, cmd1, dev1)"
      "dev_exec_loop K ua (waited + ready_poll_ms) rc1 cmd1 dev1 = (rc', cmd', dev')"
proof -
  obtain rc1 cmd1 dev1 where u: "exec_once K cmd dev = (rc1, cmd1, dev1)" by (metis prod_cases3)
  obtain rc2 cmd2 dev2 where w: "exec_once K cmd (adsc_sleep_ms K ready_poll_ms dev) = (rc2, cmd2, dev2)"
    by (metis prod_cases3)
  show thesis
    using assms ua wait stop u w dev_exec_loop.simps [of K ua waited rc cmd dev]
    by (cases "adsc_ready_classify rc (dev_last_sense dev)") (auto simp: Let_def split: if_splits)
qed

lemma dev_exec_loop_invariant:
  assumes attempt: "\<And>cmd dev rc1 cmd1 dev1. exec_once K cmd dev = (rc1, cmd1, dev1) \<Longrightarrow> J cmd dev \<Longrightarrow> I rc1 cmd1 dev1"
    and refused: "\<And>cmd dev. I (Inl ERR_SENSE) cmd dev \<Longrightarrow> J cmd dev"
    and slept: "\<And>cmd dev. J cmd dev \<Longrightarrow> J cmd (adsc_sleep_ms K ready_poll_ms dev)"
    and "I rc cmd dev" and "dev_exec_loop K ua waited rc cmd dev = (rc', cmd', dev')"
  shows "I rc' cmd' dev'"
  using assms(4,5)
proof (induction "ua_retries - ua + (ready_timeout_ms - waited)" arbitrary: ua waited rc cmd dev
    rule: less_induct)
  case less
  from less.prems(2) show ?case
  proof (cases rule: dev_exec_loop_cases)
    case stop
    then show ?thesis using less.prems(1) by simp
  next
    case (ua rc1 cmd1 dev1)
    then show ?thesis
      using less.hyps [OF _ attempt [OF ua(5)] ua(6)] refused less.prems(1) by simp
  next
    case (wait rc1 cmd1 dev1)
    then show ?thesis
      using less.hyps [OF _ attempt [OF wait(5)] wait(6)] refused slept less.prems(1)
      by (simp add: ready_poll_ms_def)
  qed
qed

section \<open>What reaches the drive\<close>

text \<open>The return code and the sense data a reply leaves behind.\<close>

definition reply_sense :: "sg_reply \<Rightarrow> accudisc_sense" where
  "reply_sense r = adsc_sense_decode (overlay (sgr_sense r) (replicate adsc_sense_len 0)) (sgr_sb_len r)"

definition reply_outcome :: "sg_reply \<Rightarrow> unit res \<times> accudisc_sense" where
  "reply_outcome r =
     (if sgr_errno r \<noteq> 0 then (Inl ERR_IO, sense_zero)
      else if sgr_info_ok r then (Inr (), sense_zero)
      else if sgr_sb_len r > 0 then (Inl ERR_SENSE, reply_sense r)
      else (Inl ERR_IO, sense_zero))"

definition did_not_execute :: "sg_reply \<Rightarrow> bool" where
  "did_not_execute r \<longleftrightarrow>
     fst (reply_outcome r) = Inl ERR_SENSE
     \<and> adsc_ready_classify (Inl ERR_SENSE) (snd (reply_outcome r)) \<in> {READY_RETRY_NOW, READY_WAIT}"

lemma transport_exec_reply:
  assumes "k_sg_io K (cmd_cdb cmd) (cmd_dir cmd) (cmd_buf cmd)
      (if cmd_timeout cmd \<noteq> 0 then cmd_timeout cmd else timeout_ctrl_ms) k = (r, k1)"
    and "adsc_transport_exec K cmd k = (rc, cmd', k')"
  shows "k' = k1"
    and "reply_outcome r = (rc, if rc = Inr () then sense_zero
          else adsc_sense_decode (cmd_sense cmd') (cmd_sense_len cmd'))"
proof -
  have z: "adsc_sense_decode s 0 = sense_zero" for s by (simp add: adsc_sense_decode_def)
  consider "sgr_errno r \<noteq> 0" | "sgr_errno r = 0" "sgr_info_ok r"
    | "sgr_errno r = 0" "\<not> sgr_info_ok r" "sgr_sb_len r > 0"
    | "sgr_errno r = 0" "\<not> sgr_info_ok r" "sgr_sb_len r = 0"
    by blast
  then show "k' = k1" and "reply_outcome r = (rc, if rc = Inr () then sense_zero
      else adsc_sense_decode (cmd_sense cmd') (cmd_sense_len cmd'))"
    using assms(2) unfolding adsc_transport_exec_def assms(1) Let_def prod.case
    by (cases; auto simp: reply_outcome_def reply_sense_def z)+
qed

lemma exec_once_reply:
  assumes "exec_once K cmd dev = (rc, cmd', dev')"
  obtains r where "k_sg_io K (cmd_cdb cmd) (cmd_dir cmd) (cmd_buf cmd)
      (if cmd_timeout cmd \<noteq> 0 then cmd_timeout cmd else timeout_ctrl_ms) (dev_k dev) = (r, dev_k dev')"
    and "reply_outcome r = (rc, dev_last_sense dev')"
proof -
  obtain r k where r: "k_sg_io K (cmd_cdb cmd) (cmd_dir cmd) (cmd_buf cmd)
      (if cmd_timeout cmd \<noteq> 0 then cmd_timeout cmd else timeout_ctrl_ms) (dev_k dev) = (r, k)"
    by fastforce
  obtain k' where x: "adsc_transport_exec K cmd (dev_k dev) = (rc, cmd', k')"
    and d: "dev_k dev' = k'" "dev_last_sense dev' = (if rc = Inr () then sense_zero
      else adsc_sense_decode (cmd_sense cmd') (cmd_sense_len cmd'))"
    using assms by (auto simp: exec_once_def Let_def split: prod.splits)
  show thesis
    using transport_exec_reply [OF r x] r d by (intro that [of r]) simp_all
qed

text \<open>Commands change the kernel's state and the two explanations of a failure, nothing else of the handle.\<close>

definition same_handle :: "'k accudisc_device \<Rightarrow> 'k accudisc_device \<Rightarrow> bool" where
  "same_handle dev dev' \<longleftrightarrow>
     (\<exists>k s io. dev' = dev\<lparr> dev_k := k, dev_last_sense := s, dev_last_io := io \<rparr>)"

lemma same_handle_refl [simp]: "same_handle dev dev"
  unfolding same_handle_def by (rule exI [of _ "dev_k dev"], rule exI [of _ "dev_last_sense dev"],
    rule exI [of _ "dev_last_io dev"]) simp

lemma same_handle_trans [trans]: "same_handle a b \<Longrightarrow> same_handle b c \<Longrightarrow> same_handle a c"
  unfolding same_handle_def by force

lemma same_handle_fields:
  assumes "same_handle dev dev'"
  shows "dev_xfer_exact dev' = dev_xfer_exact dev" "dev_layout dev' = dev_layout dev"
    "dev_streaming dev' = dev_streaming dev" "dev_xfer_bounce dev' = dev_xfer_bounce dev"
    "dev_id_valid dev' = dev_id_valid dev" "dev_ready_wait_off dev' = dev_ready_wait_off dev"
  using assms by (auto simp: same_handle_def)

lemma exec_once_dev:
  assumes "exec_once K cmd dev = (rc, cmd', dev')"
  shows "same_handle dev dev'"
  using assms by (auto simp: exec_once_def same_handle_def Let_def split: prod.splits)

lemma same_handle_sleep [simp]: "same_handle dev (adsc_sleep_ms K ms dev)"
  unfolding adsc_sleep_ms_def same_handle_def
  by (rule exI [of _ "k_sleep K ms (dev_k dev)"], rule exI [of _ "dev_last_sense dev"],
    rule exI [of _ "dev_last_io dev"]) simp

lemma dev_exec_same:
  assumes "adsc_dev_exec K cmd dev = (rc, cmd', dev')"
  shows "same_handle dev dev'"
proof -
  obtain rc1 cmd1 dev1 where x: "exec_once K cmd dev = (rc1, cmd1, dev1)" by (metis prod_cases3)
  have l: "dev_exec_loop K 0 0 rc1 cmd1 dev1 = (rc, cmd', dev')"
    using assms x by (simp add: adsc_dev_exec_def)
  show ?thesis
    by (rule dev_exec_loop_invariant [where I = "\<lambda>_ _ d. same_handle dev d" and J = "\<lambda>_ d. same_handle dev d",
          OF _ _ _ exec_once_dev [OF x] l])
       (auto intro: same_handle_trans exec_once_dev)
qed

text \<open>
  The interface to a kernel that keeps a record of the commands it was sent, and what the command
  layer does to that record. \<open>logging K\<close> is \<open>K\<close> with such a record beside its state.
\<close>

type_synonym command_log = "(u8 list \<times> sg_reply) list"

locale recorder =
  fixes K :: "'k kernel" and log :: "'k \<Rightarrow> command_log"
  assumes log_sg: "k_sg_io K cdb dir buf t k = (r, k') \<Longrightarrow> log k' = log k @ [(cdb, r)]"
    and log_sleep: "log (k_sleep K ms k) = log k"
begin

abbreviation sent :: "'k accudisc_device \<Rightarrow> command_log" where "sent dev \<equiv> log (dev_k dev)"

lemma exec_once_log:
  assumes "exec_once K cmd dev = (rc, cmd', dev')"
  obtains r where "sent dev' = sent dev @ [(cmd_cdb cmd, r)]" and "reply_outcome r = (rc, dev_last_sense dev')"
  using exec_once_reply [OF assms] log_sg by metis

lemma sent_sleep [simp]: "sent (adsc_sleep_ms K ms dev) = sent dev"
  by (simp add: adsc_sleep_ms_def log_sleep)

lemma dev_exec_loop_log:
  assumes "dev_exec_loop K ua waited rc cmd dev = (rc', cmd', dev')" and "waited mod ready_poll_ms = 0"
    and "reply_outcome r = (rc, dev_last_sense dev)"
  shows "\<exists>rs. sent dev' = sent dev @ map (Pair (cmd_cdb cmd)) rs
      \<and> length rs \<le> (if adsc_op_repeatable (cmd_cdb cmd ! 0)
            then (ua_retries - ua) + (ready_timeout_ms - waited) div ready_poll_ms else 0)
      \<and> list_all did_not_execute (butlast (r # rs))
      \<and> reply_outcome (last (r # rs)) = (rc', dev_last_sense dev')"
  using assms
proof (induction "ua_retries - ua + (ready_timeout_ms - waited)" arbitrary: ua waited rc cmd dev r
    rule: less_induct)
  case less
  let ?bound = "\<lambda>ua waited. (ua_retries - ua) + (ready_timeout_ms - waited) div ready_poll_ms"
  have again: ?case
    if R: "adsc_op_repeatable (cmd_cdb cmd ! 0)" and D: "did_not_execute r"
      and x: "exec_once K cmd dev1 = (rc1, cmd1, dev2)" and s: "sent dev1 = sent dev"
      and l: "dev_exec_loop K ua' waited' rc1 cmd1 dev2 = (rc', cmd', dev')"
      and m: "ua_retries - ua' + (ready_timeout_ms - waited') < ua_retries - ua + (ready_timeout_ms - waited)"
      and w: "waited' mod ready_poll_ms = 0" and b: "Suc (?bound ua' waited') \<le> ?bound ua waited"
    for dev1 rc1 cmd1 dev2 ua' waited'
  proof -
    obtain r1 where r1: "sent dev2 = sent dev1 @ [(cmd_cdb cmd, r1)]" "reply_outcome r1 = (rc1, dev_last_sense dev2)"
      using exec_once_log [OF x] .
    note c = exec_once_cmd(1) [OF x]
    from less.hyps [OF m l w r1(2)] obtain rs where rs:
      "sent dev' = sent dev2 @ map (Pair (cmd_cdb cmd1)) rs" "length rs \<le> ?bound ua' waited'"
      "list_all did_not_execute (butlast (r1 # rs))"
      "reply_outcome (last (r1 # rs)) = (rc', dev_last_sense dev')"
      using R c by (auto split: if_splits)
    show ?case
      using rs r1 s c R D b by (intro exI [of _ "r1 # rs"]) auto
  qed
  from less.prems(1) show ?case
  proof (cases rule: dev_exec_loop_cases)
    case stop
    then show ?thesis using less.prems by (intro exI [of _ "[]"]) simp
  next
    case (ua rc1 cmd1 dev2)
    have "did_not_execute r" using ua(1,3) less.prems(3) by (simp add: did_not_execute_def)
    from again [OF ua(2) this ua(5) refl ua(6) _ less.prems(2)] ua(4) show ?thesis by simp
  next
    case (wait rc1 cmd1 dev2)
    have D: "did_not_execute r" using wait(1,3) less.prems(3) by (simp add: did_not_execute_def)
    obtain q where q: "waited = 250 * q" using less.prems(2) by (auto simp: ready_poll_ms_def)
    with wait(4) have "q < 240" by (simp add: ready_timeout_ms_def)
    with q have "Suc (?bound ua (waited + ready_poll_ms)) \<le> ?bound ua waited"
      by (simp add: ready_poll_ms_def ready_timeout_ms_def flip: diff_mult_distrib2 mult_Suc_right)
    then show ?thesis
      using again [OF wait(2) D wait(5) sent_sleep wait(6)] wait(4) less.prems(2)
      by (simp add: ready_poll_ms_def ready_timeout_ms_def mod_add_self2)
  qed
qed

lemma dev_exec_log:
  assumes "adsc_dev_exec K cmd dev = (rc, cmd', dev')"
  obtains rs where "rs \<noteq> []" "sent dev' = sent dev @ map (Pair (cmd_cdb cmd)) rs"
    "length rs \<le> (if adsc_op_repeatable (cmd_cdb cmd ! 0) then 244 else 1)"
    "list_all did_not_execute (butlast rs)" "reply_outcome (last rs) = (rc, dev_last_sense dev')"
proof -
  obtain rc1 cmd1 dev1 where x: "exec_once K cmd dev = (rc1, cmd1, dev1)" by (metis prod_cases3)
  obtain r where r: "sent dev1 = sent dev @ [(cmd_cdb cmd, r)]" "reply_outcome r = (rc1, dev_last_sense dev1)"
    using exec_once_log [OF x] .
  from assms x have "dev_exec_loop K 0 0 rc1 cmd1 dev1 = (rc, cmd', dev')"
    by (simp add: adsc_dev_exec_def)
  note l = dev_exec_loop_log [OF this _ r(2), OF mod_0]
  have "ua_retries - 0 + (ready_timeout_ms - 0) div ready_poll_ms = 243"
    by (simp add: ua_retries_def ready_timeout_ms_def ready_poll_ms_def)
  from l [unfolded this] obtain rs where rs:
    "sent dev' = sent dev1 @ map (Pair (cmd_cdb cmd1)) rs"
    "length rs \<le> (if adsc_op_repeatable (cmd_cdb cmd1 ! 0) then 243 else 0)"
    "list_all did_not_execute (butlast (r # rs))" "reply_outcome (last (r # rs)) = (rc, dev_last_sense dev')"
    by (elim exE conjE)
  show thesis
    using rs r(1) exec_once_cmd(1) [OF x] by (intro that [of "r # rs"]) auto
qed

end

definition logging :: "'k kernel \<Rightarrow> ('k \<times> command_log) kernel" where
  "logging K =
     \<lparr> k_sg_io = (\<lambda>cdb dir buf t (k, l).
         let (r, k') = k_sg_io K cdb dir buf t k in (r, (k', l @ [(cdb, r)]))),
       k_select_speed = (\<lambda>s (k, l). let (ok, k') = k_select_speed K s k in (ok, (k', l))),
       k_unlock_door = (\<lambda>(k, l). let (e, k') = k_unlock_door K k in (e, (k', l))),
       k_eject = (\<lambda>(k, l). let (ok, k') = k_eject K k in (ok, (k', l))),
       k_disc_ok = (\<lambda>(k, l). let (ok, k') = k_disc_ok K k in (ok, (k', l))),
       k_close_tray = (\<lambda>(k, l). let (ok, k') = k_close_tray K k in (ok, (k', l))),
       k_sleep = (\<lambda>ms (k, l). (k_sleep K ms k, l)), k_fresh = (\<lambda>n (k, l). k_fresh K n k) \<rparr>"

interpretation logged: recorder "logging K" snd for K :: "'k kernel"
  by unfold_locales (auto simp: logging_def Let_def split: prod.splits)


section \<open>Waiting ends\<close>

text \<open>
  A drive whose unit attentions run out: \<open>pending\<close> counts those it can still raise. No command and
  no passing of time adds to them, and every reply that is one uses one up.
\<close>

definition finite_attentions :: "'k kernel \<Rightarrow> ('k \<Rightarrow> nat) \<Rightarrow> bool" where
  "finite_attentions K pending \<longleftrightarrow>
     (\<forall>cdb dir buf t k r k'. k_sg_io K cdb dir buf t k = (r, k') \<longrightarrow>
        pending k' + (if adsc_ready_classify (fst (reply_outcome r)) (snd (reply_outcome r)) = READY_RETRY_NOW
                      then 1 else 0) \<le> pending k)
     \<and> (\<forall>ms k. pending (k_sleep K ms k) \<le> pending k)"

lemma exec_once_pending:
  assumes "finite_attentions K pending" and "exec_once K cmd dev = (rc, cmd', dev')"
  shows "pending (dev_k dev') + (if adsc_ready_classify rc (dev_last_sense dev') = READY_RETRY_NOW then 1 else 0)
     \<le> pending (dev_k dev)"
  using exec_once_reply [OF assms(2)] assms(1) unfolding finite_attentions_def by (metis fst_conv snd_conv)

lemma dev_exec_loop_pending:
  assumes "finite_attentions K pending" and "dev_exec_loop K ua waited rc cmd dev = (rc', cmd', dev')"
    and "pending (dev_k dev) + (if adsc_ready_classify rc (dev_last_sense dev) = READY_RETRY_NOW then 1 else 0) \<le> n"
  shows "pending (dev_k dev') + (if adsc_ready_classify rc' (dev_last_sense dev') = READY_RETRY_NOW then 1 else 0) \<le> n"
proof (rule dev_exec_loop_invariant [where I = "\<lambda>rc cmd dev. pending (dev_k dev)
    + (if adsc_ready_classify rc (dev_last_sense dev) = READY_RETRY_NOW then 1 else 0) \<le> n"
    and J = "\<lambda>cmd dev. pending (dev_k dev) \<le> n", OF _ _ _ assms(3,2)])
  show "pending (dev_k dev1) + (if adsc_ready_classify rc1 (dev_last_sense dev1) = READY_RETRY_NOW then 1 else 0) \<le> n"
    if "exec_once K cmd dev = (rc1, cmd1, dev1)" "pending (dev_k dev) \<le> n" for cmd dev rc1 cmd1 dev1
    using exec_once_pending [OF assms(1) that(1)] that(2) by linarith
  show "pending (dev_k (adsc_sleep_ms K ready_poll_ms dev)) \<le> n" if "pending (dev_k dev) \<le> n" for dev
    using assms(1) that by (simp add: finite_attentions_def adsc_sleep_ms_def) (meson le_trans)
qed simp

lemma test_unit_ready_pending:
  assumes "finite_attentions K pending" and "adsc_mmc_test_unit_ready K dev = (rc, dev')"
  shows "pending (dev_k dev') + (if adsc_ready_classify rc (dev_last_sense dev') = READY_RETRY_NOW then 1 else 0)
     \<le> pending (dev_k dev)"
proof -
  define cmd where "cmd = new_cmd [0, 0, 0, 0, 0, 0] XFER_NONE [] timeout_ctrl_ms"
  obtain rc1 cmd1 dev1 where x: "exec_once K cmd dev = (rc1, cmd1, dev1)" by (metis prod_cases3)
  obtain cmd' where l: "dev_exec_loop K 0 0 rc1 cmd1 dev1 = (rc, cmd', dev')"
    using assms(2) x by (auto simp: adsc_mmc_test_unit_ready_def adsc_dev_exec_def cmd_def split: prod.splits)
  show ?thesis by (rule dev_exec_loop_pending [OF assms(1) l exec_once_pending [OF assms(1) x]])
qed

lemma wait_ready_loop_returns:
  assumes "finite_attentions K pending"
  shows "\<exists>rc dev'. wait_ready_loop K timeout waited dev = Some (rc, dev')"
proof (induction "pending (dev_k dev) + (timeout - waited)" arbitrary: waited dev rule: less_induct)
  case less
  obtain rc dev1 where t: "adsc_mmc_test_unit_ready K dev = (rc, dev1)" by fastforce
  note p = test_unit_ready_pending [OF assms t]
  have sl: "pending (dev_k (adsc_sleep_ms K ms dev1)) \<le> pending (dev_k dev1)" for ms
    using assms by (simp add: finite_attentions_def adsc_sleep_ms_def)
  show ?case
  proof (cases "adsc_ready_classify rc (dev_last_sense dev1)")
    case READY_RETRY_NOW
    with p have "pending (dev_k dev1) + (timeout - waited) < pending (dev_k dev) + (timeout - waited)" by simp
    from less [OF this] show ?thesis
      by (subst wait_ready_loop.simps) (simp add: t READY_RETRY_NOW)
  next
    case READY_WAIT
    show ?thesis
    proof (cases "waited \<ge> timeout")
      case False
      then have "pending (dev_k (adsc_sleep_ms K ready_poll_ms dev1)) + (timeout - (waited + ready_poll_ms))
          < pending (dev_k dev) + (timeout - waited)"
        using p sl [of ready_poll_ms] by (auto simp: READY_WAIT ready_poll_ms_def)
      from less [OF this] show ?thesis
        using False by (subst wait_ready_loop.simps) (simp add: t READY_WAIT)
    qed (subst wait_ready_loop.simps, simp add: t READY_WAIT)
  qed (subst wait_ready_loop.simps, simp add: t)+
qed

text \<open>A drive stuck in unit attention: every command is refused with 6/29/00.\<close>

definition attention_reply :: sg_reply where
  "attention_reply = \<lparr> sgr_errno = 0, sgr_resid = 0, sgr_host = 0, sgr_driver = 0, sgr_status = 2,
     sgr_info_ok = False, sgr_sb_len = 18,
     sgr_sense = [0x70, 0, 6, 0, 0, 0, 0, 10, 0, 0, 0, 0, 0x29, 0, 0, 0, 0, 0], sgr_data = [] \<rparr>"

definition stuck :: "'k kernel \<Rightarrow> bool" where
  "stuck K \<longleftrightarrow> (\<forall>cdb dir buf t k. k_sg_io K cdb dir buf t k = (attention_reply, k))"

lemma stuck_exec_once:
  assumes "stuck K" and "exec_once K cmd dev = (rc, cmd', dev')"
  shows "rc = Inl ERR_SENSE" "adsc_ready_classify rc (dev_last_sense dev') = READY_RETRY_NOW"
proof -
  obtain r where r: "k_sg_io K (cmd_cdb cmd) (cmd_dir cmd) (cmd_buf cmd)
      (if cmd_timeout cmd \<noteq> 0 then cmd_timeout cmd else timeout_ctrl_ms) (dev_k dev) = (r, dev_k dev')"
    "reply_outcome r = (rc, dev_last_sense dev')"
    using exec_once_reply [OF assms(2)] .
  have "r = attention_reply" using r(1) assms(1) unfolding stuck_def by (metis fst_conv)
  moreover have "reply_outcome attention_reply = (Inl ERR_SENSE,
      \<lparr> sn_valid = True, sn_key = 6, sn_asc = 0x29, sn_ascq = 0 \<rparr>)"
    by code_simp
  ultimately have "rc = Inl ERR_SENSE"
    "dev_last_sense dev' = \<lparr> sn_valid = True, sn_key = 6, sn_asc = 0x29, sn_ascq = 0 \<rparr>"
    using r(2) by simp_all
  then show "rc = Inl ERR_SENSE" "adsc_ready_classify rc (dev_last_sense dev') = READY_RETRY_NOW"
    by (simp_all add: adsc_ready_classify_def)
qed

lemma stuck_test_unit_ready:
  assumes "stuck K" and "adsc_mmc_test_unit_ready K dev = (rc, dev')"
  shows "adsc_ready_classify rc (dev_last_sense dev') = READY_RETRY_NOW"
proof -
  define cmd where "cmd = new_cmd [0, 0, 0, 0, 0, 0] XFER_NONE [] timeout_ctrl_ms"
  obtain rc1 cmd1 dev1 where x: "exec_once K cmd dev = (rc1, cmd1, dev1)" by (metis prod_cases3)
  obtain cmd' where l: "dev_exec_loop K 0 0 rc1 cmd1 dev1 = (rc, cmd', dev')"
    using assms(2) x by (auto simp: adsc_mmc_test_unit_ready_def adsc_dev_exec_def cmd_def split: prod.splits)
  show ?thesis
    by (rule dev_exec_loop_invariant
        [where I = "\<lambda>rc cmd dev. adsc_ready_classify rc (dev_last_sense dev) = READY_RETRY_NOW"
          and J = "\<lambda>_ _. True", OF _ _ _ stuck_exec_once(2) [OF assms(1) x] l])
       (auto dest: stuck_exec_once(2) [OF assms(1)])
qed

lemma wait_ready_hangs:
  assumes "stuck K"
  shows "adsc_dev_wait_ready K timeout dev = None"
proof -
  have "\<not> stuck K" if "wait_ready_loop K timeout waited dev = Some y" for K :: "'b kernel" and timeout waited dev y
    using that
  proof (induction rule: wait_ready_loop.raw_induct)
    case (1 f K timeout waited dev y)
    show ?case
    proof
      assume S: "stuck K"
      obtain rc dev1 where t: "adsc_mmc_test_unit_ready K dev = (rc, dev1)" by fastforce
      with 1(2,3) stuck_test_unit_ready [OF S t]
      have "f K timeout waited dev1 = Some y" "wait_ready_loop K timeout waited dev1 = Some y"
        by (simp_all add: wait_ready_loop.simps [of K timeout waited dev])
      from 1(1) [OF this] S show False by simp
    qed
  qed (fact that)
  from this [of K timeout 0 dev] assms show ?thesis
    by (cases "wait_ready_loop K timeout 0 dev") (auto simp: adsc_dev_wait_ready_def)
qed


text \<open>A drive that is ready, and the stuck one.\<close>

definition answering :: "sg_reply \<Rightarrow> unit kernel" where
  "answering r = \<lparr> k_sg_io = (\<lambda>_ _ _ _ k. (r, k)), k_select_speed = (\<lambda>_ k. (True, k)),
     k_unlock_door = (\<lambda>k. (0, k)), k_eject = (\<lambda>k. (True, k)), k_disc_ok = (\<lambda>k. (False, k)),
     k_close_tray = (\<lambda>k. (True, k)), k_sleep = (\<lambda>_ k. k), k_fresh = (\<lambda>n k. replicate n 0) \<rparr>"

definition good_reply :: sg_reply where
  "good_reply = \<lparr> sgr_errno = 0, sgr_resid = 0, sgr_host = 0, sgr_driver = 0, sgr_status = 0,
     sgr_info_ok = True, sgr_sb_len = 0, sgr_sense = [], sgr_data = [] \<rparr>"


end
