(* ===== verification/Drive.thy ===== *)
theory Drive
  imports Mmc TocWire
begin

text \<open>
  The device's own operations: \<^verbatim>\<open>src/device.c\<close> (speed, performance curve, tray, write
  health), \<^verbatim>\<open>src/drive/disc.c\<close> (which of burning and ripping is legal for the loaded disc)
  and the wiring of the table of contents of \<^verbatim>\<open>src/toc/toc.c\<close> to the drive.
  The read engine of theory \<open>Engine\<close> drives its speeds through it.
\<close>

section \<open>Errors as text\<close>

fun accudisc_strerror :: "unit res \<Rightarrow> string" where
  "accudisc_strerror (Inr _) = ''success''"
| "accudisc_strerror (Inl ERR_INVAL) = ''invalid argument''"
| "accudisc_strerror (Inl ERR_NOMEM) = ''out of memory''"
| "accudisc_strerror (Inl ERR_OPEN) = ''cannot open device''"
| "accudisc_strerror (Inl ERR_IO) = ''transport I/O failure''"
| "accudisc_strerror (Inl ERR_SENSE) = ''drive rejected command (check sense)''"
| "accudisc_strerror (Inl ERR_SHORT) = ''response too short''"
| "accudisc_strerror (Inl ERR_UNSUPPORTED) = ''not supported''"
| "accudisc_strerror (Inl ERR_CANCELLED) = ''cancelled''"
| "accudisc_strerror (Inl ERR_CRC) = ''checksum failed''"
| "accudisc_strerror (Inl ERR_NOTFOUND) = ''data absent''"
| "accudisc_strerror (Inl ERR_ABI) = ''struct size mismatch -- rebuild against this library's header''"
| "accudisc_strerror (Inl ERR_NOT_BLANK) = ''disc is not blank (nothing written)''"
| "accudisc_strerror (Inl ERR_WRITE_BUDGET) = ''live-write budget exhausted for this device (nothing written)''"
| "accudisc_strerror (Inl ERR_WRITE_PARAMS) =
     ''the drive does not hold the write parameters it accepted (nothing written)''"
| "accudisc_strerror (Inl ERR_AMBIGUOUS) = ''unknown error''"

section \<open>Speed\<close>

definition adsc_dev_cur_write_kbps :: "'k kernel \<Rightarrow> 'k accudisc_device \<Rightarrow> nat res \<times> 'k accudisc_device" where
  "adsc_dev_cur_write_kbps K dev =
     (let (rc, buf, dev) = adsc_mmc_mode_sense10 K 0x2a (fresh_bytes K 256 (dev_k dev)) dev in
      case rc of Inl e \<Rightarrow> (Inl e, dev)
      | Inr (len, po) \<Rightarrow>
          if po + 2 > len \<or> buf ! po AND 0x3f \<noteq> 0x2a then (Inl ERR_SHORT, dev)
          else
            let p_len = unat (buf ! (po + 1)) in
            if p_len \<ge> 28 \<and> po + 30 \<le> len then (Inr (be16 buf (po + 28)), dev)
            else if po + 22 \<le> len then (Inr (be16 buf (po + 20)), dev)
            else (Inl ERR_SHORT, dev))"

definition carried_write_kbps :: "'k kernel \<Rightarrow> 'k accudisc_device \<Rightarrow> u32 \<times> 'k accudisc_device" where
  "carried_write_kbps K dev =
     (case adsc_dev_cur_write_kbps K dev of
        (Inl _, dev) \<Rightarrow> (0, dev) | (Inr kbps, dev) \<Rightarrow> (word_of_nat kbps, dev))"

definition select_speed :: "'k kernel \<Rightarrow> u32 \<Rightarrow> 'k accudisc_device \<Rightarrow> unit res \<times> 'k accudisc_device" where
  "select_speed K speed_x dev =
     (let (rc, k) = adsc_transport_select_speed K speed_x (dev_k dev) in (rc, dev\<lparr> dev_k := k \<rparr>))"

definition accudisc_set_speed :: "'k kernel \<Rightarrow> u32 \<Rightarrow> 'k accudisc_device \<Rightarrow> unit res \<times> 'k accudisc_device" where
  "accudisc_set_speed K speed_x dev =
     (if dev_streaming dev \<ge> 0
      then
        let (wkbps, dev) = carried_write_kbps K dev;
            (rc, dev) = adsc_mmc_set_streaming K speed_x 0 0xFFFFFFFF 0 wkbps dev
        in
        if rc = Inr () then (Inr (), dev\<lparr> dev_streaming := 1 \<rparr>)
        else if rc = Inl ERR_IO \<or> sn_valid (dev_last_sense dev) \<and> sn_key (dev_last_sense dev) = 0x05
        then select_speed K speed_x (dev\<lparr> dev_streaming := -1 \<rparr>)
        else select_speed K speed_x dev
      else select_speed K speed_x dev)"

definition accudisc_set_speed_range :: "'k kernel \<Rightarrow> u32 \<Rightarrow> u32 \<Rightarrow> u32 \<Rightarrow> u32 \<Rightarrow> 'k accudisc_device
    \<Rightarrow> unit res \<times> 'k accudisc_device" where
  "accudisc_set_speed_range K speed_x start_lba end_lba flags dev =
     (let exact = (if flags AND 1 \<noteq> 0 then 1 else 0);
          (wkbps, dev) = carried_write_kbps K dev
      in adsc_mmc_set_streaming K speed_x start_lba end_lba exact wkbps dev)"

definition accudisc_get_speed :: "'k kernel \<Rightarrow> 'k accudisc_device \<Rightarrow> (nat \<times> nat) res \<times> 'k accudisc_device" where
  "accudisc_get_speed K dev =
     (let (rc, buf, dev) = adsc_mmc_mode_sense10 K 0x2a (fresh_bytes K 256 (dev_k dev)) dev in
      case rc of Inl e \<Rightarrow> (Inl e, dev)
      | Inr (len, off) \<Rightarrow>
          if buf ! off AND 0x3f \<noteq> 0x2a \<or> off + 16 > len then (Inl ERR_SHORT, dev)
          else (Inr (be16 buf (off + 8), be16 buf (off + 14)), dev))"

section \<open>The performance curve\<close>

record accudisc_perf_desc =
  pd_start_lba :: nat
  pd_start_kbps :: nat
  pd_end_lba :: nat
  pd_end_kbps :: nat

definition perf_desc_at :: "u8 list \<Rightarrow> nat \<Rightarrow> accudisc_perf_desc" where
  "perf_desc_at buf i =
     (let d = 8 + i * 16 in
      \<lparr> pd_start_lba = be32_at buf d, pd_start_kbps = be32_at buf (d + 4),
        pd_end_lba = be32_at buf (d + 8), pd_end_kbps = be32_at buf (d + 12) \<rparr>)"

definition accudisc_get_performance :: "'k kernel \<Rightarrow> nat \<Rightarrow> 'k accudisc_device
    \<Rightarrow> accudisc_perf_desc list res \<times> 'k accudisc_device" where
  "accudisc_get_performance K max_out dev =
     (let want = (if max_out < 16 then max_out else 16);
          (rc, buf, dev) = adsc_mmc_get_performance K 0 (word_of_nat want)
                             (fresh_bytes K (8 + 16 * 16) (dev_k dev)) dev
      in case rc of Inl e \<Rightarrow> (Inl e, dev)
      | Inr len \<Rightarrow>
          if len < 8 then (Inl ERR_SHORT, dev)
          else (Inr (map (perf_desc_at buf) [0..<min ((len - 8) div 16) max_out]), dev))"

datatype accudisc_rotation = ROTATION_UNKNOWN | ROTATION_CLV | ROTATION_CAV | ROTATION_PCAV | ROTATION_ZCLV

definition rotation_eps :: nat where "rotation_eps = 176"

definition rises :: "accudisc_perf_desc \<Rightarrow> bool" where
  "rises d \<longleftrightarrow> pd_end_kbps d > wrap32 (pd_start_kbps d + rotation_eps)"

definition levels :: "accudisc_perf_desc list \<Rightarrow> nat list" where
  "levels desc = concat (map (\<lambda>d. [pd_start_kbps d, pd_end_kbps d]) desc)"

definition accudisc_classify_rotation :: "accudisc_perf_desc list \<Rightarrow> accudisc_rotation" where
  "accudisc_classify_rotation desc =
     (if desc = [] then ROTATION_UNKNOWN
      else
        let any_rise = list_ex rises desc;
            vmin = fold min (levels desc) 0xFFFFFFFF; vmax = fold max (levels desc) 0
        in
        if length desc = 1 then (if any_rise then ROTATION_CAV else ROTATION_CLV)
        else if any_rise then (if rises (last desc) then ROTATION_CAV else ROTATION_PCAV)
        else if vmax - vmin > rotation_eps then ROTATION_ZCLV else ROTATION_CLV)"

section \<open>Spindle and tray\<close>

definition accudisc_spindle_stop :: "'k kernel \<Rightarrow> 'k accudisc_device \<Rightarrow> unit res \<times> 'k accudisc_device" where
  "accudisc_spindle_stop K dev = adsc_mmc_start_stop K 0 0 dev"

definition clear_explanations :: "'k accudisc_device \<Rightarrow> 'k accudisc_device" where
  "clear_explanations dev = dev\<lparr> dev_last_io := IO_NONE, dev_last_sense := sense_zero \<rparr>"

definition accudisc_eject :: "'k kernel \<Rightarrow> 'k accudisc_device \<Rightarrow> unit res \<times> 'k accudisc_device" where
  "accudisc_eject K dev =
     (let dev = clear_explanations dev;
          (rc, why, k) = adsc_transport_eject K (dev_last_io dev) (dev_k dev)
      in (rc, dev\<lparr> dev_k := k, dev_last_io := why \<rparr>))"

definition accudisc_load :: "'k kernel \<Rightarrow> 'k accudisc_device \<Rightarrow> (unit res \<times> 'k accudisc_device) option" where
  "accudisc_load K dev =
     (let dev = clear_explanations dev;
          (rc, k) = adsc_transport_load K (dev_k dev);
          dev = dev\<lparr> dev_k := k \<rparr>
      in
      if rc \<noteq> Inr () then Some (rc, dev)
      else map_option (\<lambda>(rc, dev). (if rc = Inl ERR_SENSE then Inr () else rc, dev))
             (adsc_dev_wait_ready K ready_timeout_ms dev))"

section \<open>Write health\<close>

definition write_anomaly_payload :: u32 where "write_anomaly_payload = 0x01"
definition write_anomaly_settle :: u32 where "write_anomaly_settle = 0x02"
definition write_payload_tol :: u64 where "write_payload_tol = 130"
definition write_settle_tol :: u64 where "write_settle_tol = 125"

definition accudisc_set_write_budget :: "u32 \<Rightarrow> 'k accudisc_device \<Rightarrow> 'k accudisc_device" where
  "accudisc_set_write_budget max_live_writes dev =
     dev\<lparr> dev_wr_budget := max_live_writes, dev_wr_live := 0 \<rparr>"

definition payload_anomaly :: "u32 \<Rightarrow> u32 \<Rightarrow> 'k accudisc_device \<Rightarrow> bool" where
  "payload_anomaly payload_ms sectors dev \<longleftrightarrow>
     sectors \<noteq> 0 \<and> dev_wr_base_sect dev \<noteq> 0 \<and> dev_wr_base_pay dev \<noteq> 0
     \<and> (ucast payload_ms * ucast (dev_wr_base_sect dev) * 100 :: u64)
         > ucast (dev_wr_base_pay dev) * ucast sectors * write_payload_tol"

definition settle_anomaly :: "u32 \<Rightarrow> 'k accudisc_device \<Rightarrow> bool" where
  "settle_anomaly settle_ms dev \<longleftrightarrow>
     dev_wr_base_settle dev \<noteq> 0
     \<and> (ucast settle_ms * 100 :: u64) > ucast (dev_wr_base_settle dev) * write_settle_tol"

definition adsc_write_health_record :: "u32 \<Rightarrow> u32 \<Rightarrow> u32 \<Rightarrow> 'k accudisc_device \<Rightarrow> 'k accudisc_device" where
  "adsc_write_health_record settle_ms payload_ms sectors dev =
     (let dev = dev\<lparr> dev_wr_live := dev_wr_live dev + 1, dev_wr_last_settle := settle_ms,
                    dev_wr_last_pay := payload_ms, dev_wr_last_sect := sectors \<rparr>
      in
      if dev_wr_base_sect dev = 0
      then dev\<lparr> dev_wr_base_settle := settle_ms, dev_wr_base_pay := payload_ms,
               dev_wr_base_sect := sectors, dev_wr_anomaly := 0 \<rparr>
      else dev\<lparr> dev_wr_anomaly :=
               (if payload_anomaly payload_ms sectors dev then write_anomaly_payload else 0)
               OR (if settle_anomaly settle_ms dev then write_anomaly_settle else 0) \<rparr>)"

section \<open>Tables of contents from the drive\<close>

definition accudisc_read_full_toc :: "'k kernel \<Rightarrow> 'k accudisc_device
    \<Rightarrow> (u8 list \<times> nat) res \<times> 'k accudisc_device" where
  "accudisc_read_full_toc K dev = adsc_mmc_read_toc_raw K 2 1 1 dev"

definition accudisc_read_cdtext :: "'k kernel \<Rightarrow> 'k accudisc_device
    \<Rightarrow> (u8 list \<times> nat) res \<times> 'k accudisc_device" where
  "accudisc_read_cdtext K dev = adsc_mmc_read_toc_raw K 5 0 0 dev"

definition response :: "(u8 list \<times> nat) res \<Rightarrow> u8 list res" where
  "response r = (case r of Inl e \<Rightarrow> Inl e | Inr (buf, len) \<Rightarrow> Inr (take len buf))"

definition dev_read_toc :: "'k kernel \<Rightarrow> 'k accudisc_device \<Rightarrow> accudisc_toc res \<times> 'k accudisc_device" where
  "dev_read_toc K dev =
     (let (r, dev) = adsc_mmc_read_toc_raw K 0 0 1 dev in (accudisc_read_toc (response r), dev))"

text \<open>
  The ladder with the commands it issues: the cooked TOC and READ DISC INFORMATION are asked for only
  when the lead-in gave no table.
\<close>

definition dev_read_toc_src :: "'k kernel \<Rightarrow> 'k accudisc_device
    \<Rightarrow> (accudisc_toc \<times> accudisc_toc_info) res \<times> 'k accudisc_device" where
  "dev_read_toc_src K dev =
     (let (full, dev) = accudisc_read_full_toc K dev in
      case toc_rung1 (response full) of
        Inl r \<Rightarrow> (Inr r, dev)
      | Inr _ \<Rightarrow>
          let (fmt0, dev) = adsc_mmc_read_toc_raw K 0 0 1 dev in
          case accudisc_read_toc (response fmt0) of
            Inl e \<Rightarrow> (Inl e, dev)
          | Inr _ \<Rightarrow>
              let (rc, di, dev) = adsc_mmc_read_disc_info K (fresh_bytes K 34 (dev_k dev)) dev;
                  discinfo = (case rc of Inl e \<Rightarrow> Inl e | Inr len \<Rightarrow> Inr (take len di))
              in (accudisc_read_toc_src (response full) (response fmt0) discinfo, dev))"

section \<open>The disc guard\<close>

datatype accudisc_disc_kind = DISC_NEITHER | DISC_BLANK | DISC_AUDIO

datatype accudisc_disc_reason =
  WHY_AUDIO | WHY_BLANK | WHY_DATA_CD | WHY_CLOSED_DATA | WHY_APPENDABLE | WHY_NO_MEDIUM
| WHY_NOT_CD_PROFILE | WHY_UNREADABLE

datatype accudisc_tray_state = TRAY_UNKNOWN | TRAY_CLOSED | TRAY_OPEN

record accudisc_disc_probe =
  dp_profile :: nat
  dp_erasable :: u8
  dp_disc_status :: u8
  dp_audio_tracks :: nat
  dp_data_tracks :: nat
  dp_kind :: accudisc_disc_kind
  dp_reason :: accudisc_disc_reason
  dp_tray :: accudisc_tray_state

definition profile_is_cd :: "nat \<Rightarrow> bool" where
  "profile_is_cd p \<longleftrightarrow> p = 0x0008 \<or> p = 0x0009 \<or> p = 0x000A"

definition profile_is_recordable :: "nat \<Rightarrow> bool" where
  "profile_is_recordable p \<longleftrightarrow> p = 0x0009 \<or> p = 0x000A"

definition adsc_disc_classify :: "accudisc_disc_probe \<Rightarrow> accudisc_disc_probe" where
  "adsc_disc_classify p =
     (if dp_reason p = WHY_NO_MEDIUM then p\<lparr> dp_kind := DISC_NEITHER \<rparr>
      else if \<not> profile_is_cd (dp_profile p)
      then p\<lparr> dp_kind := DISC_NEITHER, dp_reason := WHY_NOT_CD_PROFILE \<rparr>
      else if dp_audio_tracks p > 0 then p\<lparr> dp_kind := DISC_AUDIO, dp_reason := WHY_AUDIO \<rparr>
      else if profile_is_recordable (dp_profile p) \<and> dp_disc_status p = 0
      then p\<lparr> dp_kind := DISC_BLANK, dp_reason := WHY_BLANK \<rparr>
      else p\<lparr> dp_kind := DISC_NEITHER,
             dp_reason :=
               (if dp_data_tracks p > 0
                then (if dp_disc_status p = 2 then WHY_CLOSED_DATA else WHY_DATA_CD)
                else if dp_disc_status p = 1 then WHY_APPENDABLE else WHY_UNREADABLE) \<rparr>)"

fun accudisc_disc_kind_str :: "accudisc_disc_kind \<Rightarrow> string" where
  "accudisc_disc_kind_str DISC_NEITHER = ''NEITHER''"
| "accudisc_disc_kind_str DISC_BLANK = ''BLANK''"
| "accudisc_disc_kind_str DISC_AUDIO = ''AUDIO''"

fun accudisc_disc_reason_str :: "accudisc_disc_reason \<Rightarrow> string" where
  "accudisc_disc_reason_str WHY_AUDIO = ''audio''"
| "accudisc_disc_reason_str WHY_BLANK = ''blank''"
| "accudisc_disc_reason_str WHY_DATA_CD = ''data_cd''"
| "accudisc_disc_reason_str WHY_CLOSED_DATA = ''closed_data''"
| "accudisc_disc_reason_str WHY_APPENDABLE = ''appendable''"
| "accudisc_disc_reason_str WHY_NO_MEDIUM = ''no_medium''"
| "accudisc_disc_reason_str WHY_NOT_CD_PROFILE = ''not_cd_profile''"
| "accudisc_disc_reason_str WHY_UNREADABLE = ''unreadable''"

fun accudisc_tray_state_str :: "accudisc_tray_state \<Rightarrow> string" where
  "accudisc_tray_state_str TRAY_CLOSED = ''closed''"
| "accudisc_tray_state_str TRAY_OPEN = ''open''"
| "accudisc_tray_state_str TRAY_UNKNOWN = ''unknown''"

definition disc_status_unknown :: u8 where "disc_status_unknown = 0xff"

definition probe_zero :: accudisc_disc_probe where
  "probe_zero = \<lparr> dp_profile = 0, dp_erasable = disc_status_unknown,
     dp_disc_status = disc_status_unknown, dp_audio_tracks = 0, dp_data_tracks = 0,
     dp_kind = DISC_NEITHER, dp_reason = WHY_AUDIO, dp_tray = TRAY_UNKNOWN \<rparr>"

definition census_track :: "accudisc_track \<Rightarrow> accudisc_disc_probe \<Rightarrow> accudisc_disc_probe" where
  "census_track t p =
     (if track_is_audio t
      then if dp_audio_tracks p < 0xff then p\<lparr> dp_audio_tracks := dp_audio_tracks p + 1 \<rparr> else p
      else if dp_data_tracks p < 0xff then p\<lparr> dp_data_tracks := dp_data_tracks p + 1 \<rparr> else p)"

definition accudisc_probe_disc :: "'k kernel \<Rightarrow> 'k accudisc_device
    \<Rightarrow> accudisc_disc_probe res \<times> 'k accudisc_device" where
  "accudisc_probe_disc K dev =
     (let (rc, cfg, dev) = adsc_mmc_get_configuration K 0 (replicate 32 0) dev;
          p = (if rc = Inr () then probe_zero\<lparr> dp_profile := be16 cfg 6 \<rparr> else probe_zero);
          (rc, di, dev) = adsc_mmc_read_disc_info K (fresh_bytes K 34 (dev_k dev)) dev;
          known = (case rc of Inr dlen \<Rightarrow> dlen \<ge> 3 | Inl _ \<Rightarrow> False);
          s = dev_last_sense dev
      in
      if \<not> known \<and> sn_asc s = 0x3a
      then (Inr (adsc_disc_classify (p\<lparr> dp_reason := WHY_NO_MEDIUM,
               dp_tray := (if sn_ascq s = 0x02 then TRAY_OPEN
                           else if sn_ascq s = 0x01 then TRAY_CLOSED else TRAY_UNKNOWN) \<rparr>)), dev)
      else
        let p = (if known then p\<lparr> dp_disc_status := di ! 2 AND 0x03,
                                   dp_erasable := drop_bit 4 (di ! 2) AND 1 \<rparr> else p);
            (toc, dev) = dev_read_toc K dev;
            p = (case toc of Inl _ \<Rightarrow> p | Inr t \<Rightarrow> fold census_track (toc_tracks t) p)
        in (Inr (adsc_disc_classify p), dev))"

end
