(* ===== verification/Engine.thy ===== *)
theory Engine
  imports Drive Layout
begin

text \<open>
  The commanded-read engine, first part: \<^verbatim>\<open>src/read/engine.c\<close> up to \<open>witness_pass\<close>. A
  buffer of sectors is the list of its sectors, each the list of its bytes. The engine's scratch
  buffers are not state: a read goes into memory of any content (\<open>k_fresh\<close>), which is what they
  hold before it. Counters are natural numbers.
\<close>

section \<open>Requests and statistics\<close>

record accudisc_read_req =
  rq_lba :: u32
  rq_count :: nat
  rq_c2 :: u32
  rq_sub :: u32
  rq_any_type :: bool
  rq_retries :: nat
  rq_chunk_sectors :: nat
  rq_speed_x :: nat
  rq_c2_retries :: nat
  rq_verify_passes :: nat
  rq_overlap_sectors :: nat
  rq_speed_ladder :: "nat list"
  rq_c2_witness :: bool
  rq_has_subq_map :: bool
  rq_has_status_map :: bool

record accudisc_read_stats =
  st_sectors_read :: nat
  st_sectors_flagged :: nat
  st_c2_bits :: nat
  st_hard_errors :: nat
  st_max_bits_sector :: nat
  st_first_flagged_lba :: int
  st_last_flagged_lba :: int
  st_sense_medium :: nat
  st_sense_hardware :: nat
  st_sense_other :: nat
  st_rereads :: nat
  st_sectors_recovered :: nat
  st_sectors_suspect :: nat
  st_slips :: nat
  st_subq_total :: nat
  st_subq_ok :: nat
  st_speed_requested_x :: nat
  st_speed_honoured_x :: nat
  st_subq_misposition :: nat

definition stats_zero :: accudisc_read_stats where
  "stats_zero = \<lparr> st_sectors_read = 0, st_sectors_flagged = 0, st_c2_bits = 0, st_hard_errors = 0,
     st_max_bits_sector = 0, st_first_flagged_lba = -1, st_last_flagged_lba = -1, st_sense_medium = 0,
     st_sense_hardware = 0, st_sense_other = 0, st_rereads = 0, st_sectors_recovered = 0,
     st_sectors_suspect = 0, st_slips = 0, st_subq_total = 0, st_subq_ok = 0,
     st_speed_requested_x = 0, st_speed_honoured_x = 0, st_subq_misposition = 0 \<rparr>"

definition default_retries :: nat where "default_retries = 2"
definition flush_distance :: u32 where "flush_distance = 5000"
definition max_xfer :: nat where "max_xfer = 65535"
definition chunk_max :: nat where "chunk_max = 32"
definition overlap_max :: nat where "overlap_max = 8"
definition qpos_margin :: nat where "qpos_margin = 4"
definition samples_max :: nat where "samples_max = 6"
definition anchor_reads :: nat where "anchor_reads = 4"
definition anchor_span :: nat where "anchor_span = 3"

definition sector_len :: "accudisc_read_req \<Rightarrow> nat" where
  "sector_len q = unat (adsc_read_cd_sector_len (rq_c2 q) (rq_sub q))"

definition rd_sub_len :: "accudisc_read_req \<Rightarrow> nat" where
  "rd_sub_len q = (if rq_sub q = 1 then SUB_RAW else if rq_sub q = 2 then SUB_Q else 0)"

definition rd_c2_len :: "accudisc_read_req \<Rightarrow> nat" where
  "rd_c2_len q = sector_len q - AUDIO - rd_sub_len q"

definition sector_type :: "accudisc_read_req \<Rightarrow> u32" where
  "sector_type q = (if rq_any_type q then 0 else 1)"

definition rd_retries :: "accudisc_read_req \<Rightarrow> nat" where
  "rd_retries q = (if rq_retries q \<noteq> 0 then rq_retries q else default_retries)"

section \<open>Status bytes\<close>

fun bit_count_of :: "nat \<Rightarrow> nat" where
  "bit_count_of v = (if v = 0 then 0 else Suc (bit_count_of (v div 2)))"

declare bit_count_of.simps [simp del]

definition sev_log2 :: "nat \<Rightarrow> nat" where
  "sev_log2 v = (let sev = bit_count_of v in if sev > 15 then 15 else sev)"

definition MAP_OK :: nat where "MAP_OK = 1"
definition MAP_C2 :: nat where "MAP_C2 = 2"
definition MAP_HARD :: nat where "MAP_HARD = 3"
definition MAP_RECOVERED :: nat where "MAP_RECOVERED = 4"
definition MAP_SUSPECT :: nat where "MAP_SUSPECT = 5"

lemmas map_codes = MAP_OK_def MAP_C2_def MAP_HARD_def MAP_RECOVERED_def MAP_SUSPECT_def

definition adsc_map_c2_byte :: "nat \<Rightarrow> nat" where
  "adsc_map_c2_byte c2_bits = MAP_C2 OR push_bit 4 (sev_log2 c2_bits)"

definition adsc_map_recovered_byte :: "nat \<Rightarrow> nat" where
  "adsc_map_recovered_byte attempts = MAP_RECOVERED OR push_bit 4 (if attempts > 15 then 15 else attempts)"

definition adsc_map_suspect_byte :: "nat \<Rightarrow> nat" where
  "adsc_map_suspect_byte diff_bytes = MAP_SUSPECT OR push_bit 4 (sev_log2 diff_bytes)"

definition map_state :: "nat \<Rightarrow> nat" where "map_state b = b AND 0x0f"

definition SUBQ_OK :: nat where "SUBQ_OK = 1"
definition SUBQ_BAD :: nat where "SUBQ_BAD = 2"
definition SUBQ_NO_POSITION :: nat where "SUBQ_NO_POSITION = 3"
definition SUBQ_NO_AUDIO :: nat where "SUBQ_NO_AUDIO = 4"
definition SUBQ_MISPOSITION :: nat where "SUBQ_MISPOSITION = 5"

definition adsc_q_position_lba :: "accudisc_q \<Rightarrow> int" where
  "adsc_q_position_lba q = accudisc_msf_to_lba (q_abs_m q) (q_abs_s q) (q_abs_f q)"

definition adsc_subq_byte :: "accudisc_q \<Rightarrow> u32 \<Rightarrow> nat" where
  "adsc_subq_byte q expect_lba =
     (if \<not> q_crc_ok q then SUBQ_BAD
      else if q_adr q \<noteq> 1 then SUBQ_NO_POSITION
      else if adsc_q_position_lba q \<noteq> sint expect_lba then SUBQ_MISPOSITION
      else SUBQ_OK)"

section \<open>Comparing copies\<close>

definition audio_of :: "u8 list \<Rightarrow> u8 list" where "audio_of sec = take AUDIO sec"

definition adsc_audio_diff :: "u8 list \<Rightarrow> u8 list \<Rightarrow> nat" where
  "adsc_audio_diff a b = length (filter (\<lambda>(x, y). x \<noteq> y) (zip (audio_of a) (audio_of b)))"

definition shift_max :: int where "shift_max = 588"
definition anchor_bytes :: nat where "anchor_bytes = 64"
definition shift_center :: nat where "shift_center = 1176"

text \<open>One candidate shift: the anchor must match, then the whole overlap.\<close>

definition shift_matches :: "u8 list \<Rightarrow> u8 list \<Rightarrow> int \<Rightarrow> bool" where
  "shift_matches a b d =
     (let off = int shift_center + d * 4; bd = d * 4 in
      \<not> (d = 0 \<or> off < 0 \<or> off + int anchor_bytes > int AUDIO)
      \<and> slice shift_center anchor_bytes a = slice (nat off) anchor_bytes b
      \<and> (if bd \<ge> 0 then take (AUDIO - nat bd) a = slice (nat bd) (AUDIO - nat bd) b
         else slice (nat (- bd)) (AUDIO - nat (- bd)) a = take (AUDIO - nat (- bd)) b))"

definition anchor_has_signal :: "u8 list \<Rightarrow> bool" where
  "anchor_has_signal a =
     (let anchor = slice shift_center anchor_bytes a
      in list_ex (\<lambda>i. anchor ! i \<noteq> anchor ! 0) [1..<anchor_bytes])"

definition adsc_shift_find :: "u8 list \<Rightarrow> u8 list \<Rightarrow> int option" where
  "adsc_shift_find a b =
     (if \<not> anchor_has_signal a then None
      else find (shift_matches a b) [- shift_max .. shift_max])"

definition alignment_signal :: "u8 list \<Rightarrow> bool" where
  "alignment_signal a \<longleftrightarrow>
     list_ex (\<lambda>x. x \<noteq> a ! 0) (audio_of a) \<and> adsc_shift_find a a = None"

fun popcount8 :: "u8 \<Rightarrow> nat" where
  "popcount8 b = length (filter (bit b) [0..<8])"

definition popcount_buf :: "u8 list \<Rightarrow> nat" where
  "popcount_buf p = sum_list (map popcount8 p)"

definition c2_of :: "accudisc_read_req \<Rightarrow> u8 list \<Rightarrow> u8 list" where
  "c2_of q sec = slice AUDIO (rd_c2_len q) sec"

definition sub_of :: "accudisc_read_req \<Rightarrow> u8 list \<Rightarrow> u8 list" where
  "sub_of q sec = drop (AUDIO + rd_c2_len q) sec"

definition sector_q :: "accudisc_read_req \<Rightarrow> u8 list \<Rightarrow> accudisc_q" where
  "sector_q q sec = fst (accudisc_q_parse (accudisc_sub_extract_q (sub_of q sec)))"

section \<open>Engine state and the drive\<close>

record 'k rd =
  rd_dev :: "'k accudisc_device"
  rd_speed_dirty :: bool
  rd_cur_speed :: int
  rd_st :: accudisc_read_stats
  rd_status_map :: "nat list"
  rd_subq_map :: "nat list"

definition sectors_of :: "nat \<Rightarrow> nat \<Rightarrow> u8 list \<Rightarrow> u8 list list" where
  "sectors_of len n buf = map (\<lambda>i. slice (i * len) len buf) [0..<n]"

text \<open>A read of \<open>n\<close> sectors with the request's companions.\<close>

definition rd_read :: "'k kernel \<Rightarrow> accudisc_read_req \<Rightarrow> u32 \<Rightarrow> nat \<Rightarrow> 'k rd
    \<Rightarrow> unit res \<times> u8 list list \<times> 'k rd" where
  "rd_read K q lba n r =
     (let (rc, buf, dev) = adsc_mmc_read_cd K lba n (sector_type q) (rq_c2 q) (rq_sub q)
                             (fresh_bytes K (n * sector_len q) (dev_k (rd_dev r))) (sector_len q) (rd_dev r)
      in (rc, sectors_of (sector_len q) n buf, r\<lparr> rd_dev := dev \<rparr>))"

definition read_sector :: "'k kernel \<Rightarrow> accudisc_read_req \<Rightarrow> u32 \<Rightarrow> 'k rd \<Rightarrow> unit res \<times> u8 list \<times> 'k rd" where
  "read_sector K q lba r = (let (rc, secs, r) = rd_read K q lba 1 r in (rc, secs ! 0, r))"

definition count_sense :: "'k rd \<Rightarrow> 'k rd" where
  "count_sense r =
     (let s = dev_last_sense (rd_dev r); st = rd_st r in
      r\<lparr> rd_st :=
        (if sn_valid s \<and> sn_key s = 0x3 then st\<lparr> st_sense_medium := st_sense_medium st + 1 \<rparr>
         else if sn_valid s \<and> sn_key s = 0x4 then st\<lparr> st_sense_hardware := st_sense_hardware st + 1 \<rparr>
         else st\<lparr> st_sense_other := st_sense_other st + 1 \<rparr>) \<rparr>)"

definition count_reread :: "'k rd \<Rightarrow> 'k rd" where
  "count_reread r = r\<lparr> rd_st := (rd_st r)\<lparr> st_rereads := st_rereads (rd_st r) + 1 \<rparr> \<rparr>"

definition count_slip :: "'k rd \<Rightarrow> 'k rd" where
  "count_slip r = r\<lparr> rd_st := (rd_st r)\<lparr> st_slips := st_slips (rd_st r) + 1 \<rparr> \<rparr>"

definition set_speed_once :: "'k kernel \<Rightarrow> nat \<Rightarrow> 'k rd \<Rightarrow> 'k rd" where
  "set_speed_once K speed r =
     (if int speed = rd_cur_speed r then r
      else let (_, dev) = accudisc_set_speed K (word_of_nat speed) (rd_dev r)
           in r\<lparr> rd_dev := dev, rd_cur_speed := int speed \<rparr>)"

definition ladder_speed :: "'k kernel \<Rightarrow> accudisc_read_req \<Rightarrow> nat \<Rightarrow> 'k rd \<Rightarrow> 'k rd" where
  "ladder_speed K q attempt r =
     (if rq_speed_ladder q = [] then r
      else
        let idx = attempt - 1;
            idx = (if idx \<ge> length (rq_speed_ladder q) then length (rq_speed_ladder q) - 1 else idx)
        in (set_speed_once K (rq_speed_ladder q ! idx) r)\<lparr> rd_speed_dirty := True \<rparr>)"

definition ladder_restore :: "'k kernel \<Rightarrow> accudisc_read_req \<Rightarrow> 'k rd \<Rightarrow> 'k rd" where
  "ladder_restore K q r =
     (if \<not> rd_speed_dirty r then r
      else (set_speed_once K (rq_speed_x q) r)\<lparr> rd_speed_dirty := False \<rparr>)"

definition cache_defeat :: "'k kernel \<Rightarrow> accudisc_read_req \<Rightarrow> u32 \<Rightarrow> 'k rd \<Rightarrow> 'k rd" where
  "cache_defeat K q cur r =
     (let away = (if cur \<ge> rq_lba q + flush_distance then cur - flush_distance else cur + flush_distance);
          (_, _, dev) = adsc_mmc_read_cd K away 1 (sector_type q) 0 0
                          (fresh_bytes K AUDIO (dev_k (rd_dev r))) AUDIO (rd_dev r)
      in r\<lparr> rd_dev := dev \<rparr>)"

definition sense_is_categorical :: "'k rd \<Rightarrow> bool" where
  "sense_is_categorical r \<longleftrightarrow>
     (let s = dev_last_sense (rd_dev r) in sn_valid s \<and> sn_key s = 0x5 \<and> sn_asc s = 0x64)"

section \<open>One span\<close>

definition zero_fill :: "accudisc_read_req \<Rightarrow> u8 list" where
  "zero_fill q = replicate AUDIO 0 @ replicate (rd_c2_len q) 0xff @ replicate (rd_sub_len q) 0"

text \<open>The attempts at one sector: whether one succeeded, and what the last one left in the buffer.\<close>

fun retry_sector :: "'k kernel \<Rightarrow> accudisc_read_req \<Rightarrow> u32 \<Rightarrow> nat \<Rightarrow> nat \<Rightarrow> u8 list \<Rightarrow> 'k rd
    \<Rightarrow> bool \<times> u8 list \<times> 'k rd" where
  "retry_sector K q cur attempt 0 sec r = (False, sec, r)"
| "retry_sector K q cur attempt (Suc left) sec r =
     (let r = (if attempt > 0 then cache_defeat K q cur r else r);
          (rc, sec, r) = read_sector K q cur r
      in
      if rc = Inr () then (True, sec, r)
      else if sense_is_categorical r then (False, sec, r)
      else retry_sector K q cur (Suc attempt) left sec r)"

text \<open>
  The sectors of a span one by one, each with its index and what the failed transfer left of it. The
  result is, for each, its bytes and whether it failed for good.
\<close>

fun span_sectors :: "'k kernel \<Rightarrow> accudisc_read_req \<Rightarrow> u32 \<Rightarrow> nat \<Rightarrow> (nat \<times> u8 list) list \<Rightarrow> 'k rd
    \<Rightarrow> (u8 list \<times> bool) list \<times> 'k rd" where
  "span_sectors K q lba primary_n [] r = ([], r)"
| "span_sectors K q lba primary_n ((s, sec) # ss) r =
     (let (ok, sec, r) = retry_sector K q (lba + word_of_nat s) 0 (rd_retries q) sec r;
          deliverable = (\<not> ok \<and> s < primary_n);
          sec = (if deliverable then zero_fill q else sec);
          r = (if deliverable
               then count_sense (r\<lparr> rd_st := (rd_st r)\<lparr> st_hard_errors := st_hard_errors (rd_st r) + 1 \<rparr> \<rparr>)
               else r);
          (rest, r) = span_sectors K q lba primary_n ss r
      in ((sec, \<not> ok) # rest, r))"

definition read_span :: "'k kernel \<Rightarrow> accudisc_read_req \<Rightarrow> u32 \<Rightarrow> nat \<Rightarrow> nat \<Rightarrow> 'k rd
    \<Rightarrow> (u8 list \<times> bool) list \<times> 'k rd" where
  "read_span K q lba tot primary_n r =
     (let (rc, secs, r) = rd_read K q lba tot r in
      if rc = Inr () then (map (\<lambda>sec. (sec, False)) secs, r)
      else span_sectors K q lba primary_n (zip [0..<tot] secs) r)"

section \<open>Rescue by position\<close>

definition q_agrees :: "accudisc_read_req \<Rightarrow> u32 \<Rightarrow> u8 list \<Rightarrow> bool" where
  "q_agrees q lba sec =
     (let qd = sector_q q sec in q_crc_ok qd \<and> q_adr qd = 1 \<and> adsc_q_position_lba qd = sint lba)"

text \<open>The accepted copy, if any, and the number of the last attempt that read something.\<close>

fun qpos_rescue_loop :: "'k kernel \<Rightarrow> accudisc_read_req \<Rightarrow> u32 \<Rightarrow> nat list \<Rightarrow> nat \<Rightarrow> 'k rd
    \<Rightarrow> u8 list option \<times> nat \<times> 'k rd" where
  "qpos_rescue_loop K q lba [] attempts r = (None, attempts, r)"
| "qpos_rescue_loop K q lba (a # as) attempts r =
     (let r = cache_defeat K q lba (ladder_speed K q a r);
          (rc, sec, r) = read_sector K q lba r
      in
      if rc \<noteq> Inr () then qpos_rescue_loop K q lba as attempts r
      else if q_agrees q lba sec then (Some sec, a, count_reread r)
      else qpos_rescue_loop K q lba as a (count_reread r))"

definition qpos_rescue :: "'k kernel \<Rightarrow> accudisc_read_req \<Rightarrow> u32 \<Rightarrow> 'k rd \<Rightarrow> u8 list option \<times> nat \<times> 'k rd" where
  "qpos_rescue K q lba r = qpos_rescue_loop K q lba [1..<samples_max - 1] 0 r"

section \<open>Lining a copy up with other transfers\<close>

record adsc_ref =
  rf_lba :: u32
  rf_data :: "u8 list list option"
  rf_hard :: "bool list"

definition ref_sector :: "adsc_ref \<Rightarrow> u32 \<Rightarrow> u8 list option" where
  "ref_sector ref m =
     (case rf_data ref of None \<Rightarrow> None
      | Some data \<Rightarrow>
          if m < rf_lba ref \<or> unat (m - rf_lba ref) \<ge> length data \<or> rf_hard ref ! unat (m - rf_lba ref)
          then None else Some (data ! unat (m - rf_lba ref)))"

definition corroborated :: "u8 list list \<Rightarrow> u32 \<Rightarrow> u32 \<Rightarrow> adsc_ref list \<Rightarrow> bool" where
  "corroborated ctx w0 target refs =
     list_ex (\<lambda>k.
       let m = w0 + word_of_nat k in
       m \<noteq> target
       \<and> list_ex (\<lambda>ref. case ref_sector ref m of None \<Rightarrow> False
                         | Some rs \<Rightarrow> adsc_audio_diff (ctx ! k) rs = 0 \<and> alignment_signal rs) refs)
     [0..<anchor_span]"

definition anchor_start :: "nat \<Rightarrow> int" where
  "anchor_start a = [-1, -2, 0] ! (a mod 3)"

text \<open>The copy two corroborated context reads agree on.\<close>

fun anchor_loop :: "'k kernel \<Rightarrow> accudisc_read_req \<Rightarrow> u32 \<Rightarrow> adsc_ref list \<Rightarrow> nat list \<Rightarrow> u8 list option
    \<Rightarrow> nat \<Rightarrow> 'k rd \<Rightarrow> u8 list option \<times> nat \<times> 'k rd" where
  "anchor_loop K q lba refs [] anchored attempts r = (None, attempts, r)"
| "anchor_loop K q lba refs (a # as) anchored attempts r =
     (let w = uint lba + anchor_start a in
      if w < 0 then anchor_loop K q lba refs as anchored attempts r
      else
        let w0 = word_of_int w; r = cache_defeat K q lba r;
            (rc, ctx, r) = rd_read K q w0 anchor_span r
        in
        if rc \<noteq> Inr () then anchor_loop K q lba refs as anchored attempts r
        else if \<not> corroborated ctx w0 lba refs
        then anchor_loop K q lba refs as anchored (Suc attempts) (count_reread r)
        else
          let x = ctx ! unat (lba - w0) in
          case anchored of
            None \<Rightarrow> anchor_loop K q lba refs as (Some x) (Suc attempts) (count_reread r)
          | Some y \<Rightarrow>
              if adsc_audio_diff y x = 0 then (Some y, Suc attempts, count_reread r)
              else (None, Suc attempts, count_reread r))"

definition anchor_position :: "'k kernel \<Rightarrow> accudisc_read_req \<Rightarrow> u32 \<Rightarrow> adsc_ref list \<Rightarrow> nat \<Rightarrow> 'k rd
    \<Rightarrow> u8 list option \<times> nat \<times> 'k rd" where
  "anchor_position K q lba refs attempts r =
     anchor_loop K q lba refs [0..<anchor_reads] None attempts r"

text \<open>The hunt for a copy with fewer fired C2 bits: sector, bits and attempts so far.\<close>

fun c2_rescue_loop :: "'k kernel \<Rightarrow> accudisc_read_req \<Rightarrow> u32 \<Rightarrow> adsc_ref list \<Rightarrow> nat list \<Rightarrow> u8 list \<Rightarrow> nat
    \<Rightarrow> nat \<Rightarrow> 'k rd \<Rightarrow> u8 list \<times> nat \<times> nat \<times> 'k rd" where
  "c2_rescue_loop K q lba refs [] sec best attempts r = (sec, best, attempts, r)"
| "c2_rescue_loop K q lba refs (a # as) sec best attempts r =
     (if best = 0 then (sec, best, attempts, r)
      else
        let w = uint lba + anchor_start (a - 1);
            w = (if w < 0 then uint lba else w);
            w0 = word_of_int w;
            r = cache_defeat K q lba (ladder_speed K q a r);
            (rc, ctx, r) = rd_read K q w0 anchor_span r
        in
        if rc \<noteq> Inr () then c2_rescue_loop K q lba refs as sec best attempts r
        else if \<not> corroborated ctx w0 lba refs
        then c2_rescue_loop K q lba refs as sec best a (count_reread r)
        else
          let x = ctx ! unat (lba - w0); b = popcount_buf (c2_of q x) in
          if b < best then c2_rescue_loop K q lba refs as x b a (count_reread r)
          else c2_rescue_loop K q lba refs as sec best a (count_reread r))"

definition c2_rescue :: "'k kernel \<Rightarrow> accudisc_read_req \<Rightarrow> u32 \<Rightarrow> u8 list \<Rightarrow> nat \<Rightarrow> adsc_ref list \<Rightarrow> 'k rd
    \<Rightarrow> u8 list \<times> nat \<times> nat \<times> 'k rd" where
  "c2_rescue K q lba sec bits refs r =
     c2_rescue_loop K q lba refs [1..<Suc (rq_c2_retries q)] sec bits 0 r"

section \<open>Consensus\<close>

fun consensus_loop :: "'k kernel \<Rightarrow> accudisc_read_req \<Rightarrow> u32 \<Rightarrow> nat list \<Rightarrow> u8 list list \<Rightarrow> bool
    \<Rightarrow> nat \<Rightarrow> 'k rd \<Rightarrow> u8 list option \<times> bool \<times> nat \<times> 'k rd" where
  "consensus_loop K q lba [] samples shifted attempts r = (None, shifted, attempts, r)"
| "consensus_loop K q lba (a # as) samples shifted attempts r =
     (let r = cache_defeat K q lba (ladder_speed K q a r);
          (rc, sec, r) = read_sector K q lba r
      in
      if rc \<noteq> Inr () then consensus_loop K q lba as samples shifted attempts r
      else
        let r = count_reread r;
            matched = list_ex (\<lambda>smp. adsc_audio_diff sec smp = 0) samples;
            shifted = (shifted \<or> list_ex (\<lambda>smp. adsc_audio_diff sec smp \<noteq> 0
                                              \<and> adsc_shift_find sec smp \<noteq> None) samples)
        in
        if matched \<and> \<not> shifted then (Some sec, shifted, a, r)
        else if matched then (None, shifted, a, r)
        else consensus_loop K q lba as
               (if length samples < samples_max then samples @ [sec] else samples) shifted a r)"

definition consensus :: "'k kernel \<Rightarrow> accudisc_read_req \<Rightarrow> u32 \<Rightarrow> u8 list \<Rightarrow> u8 list option \<Rightarrow> bool
    \<Rightarrow> adsc_ref list \<Rightarrow> 'k rd \<Rightarrow> u8 list option \<times> nat \<times> 'k rd" where
  "consensus K q lba sec alt shifted refs r =
     (let samples = sec # (case alt of None \<Rightarrow> [] | Some a \<Rightarrow> [a]);
          (got, shifted, attempts, r) = consensus_loop K q lba [1..<samples_max - 1] samples shifted 0 r
      in
      if got \<noteq> None then (got, attempts, r)
      else if \<not> shifted then (None, attempts, r)
      else anchor_position K q lba refs attempts (ladder_restore K q r))"

end
