(* ===== verification/EngineRun.thy ===== *)
theory EngineRun
  imports Engine
begin

text \<open>
  The commanded-read engine, second part: \<open>witness_pass\<close>, \<open>publish\<close> and \<open>accudisc_read_cdda\<close> of
  \<^verbatim>\<open>src/read/engine.c\<close>. The parallel arrays of a chunk are one record per sector. The
  caller's sink is a parameter with a state of its own (the ring of theory \<open>Accubuf\<close> is one), and so
  is its cancel flag, as what each poll of it answers. Allocation never fails.
\<close>

section \<open>Chunks\<close>

record sector_state =
  ss_data :: "u8 list"
  ss_prim :: "u8 list"
  ss_hard :: bool
  ss_recov :: bool
  ss_susp :: bool
  ss_att :: nat
  ss_bits :: nat
  ss_diffb :: nat

record adsc_chunk_state =
  ck_lba :: u32
  ck_secs :: "sector_state list"
  ck_witnessed :: bool

definition fresh_sector :: "u8 list \<times> bool \<Rightarrow> sector_state" where
  "fresh_sector p = \<lparr> ss_data = fst p, ss_prim = fst p, ss_hard = snd p, ss_recov = False,
     ss_susp = False, ss_att = 0, ss_bits = 0, ss_diffb = 0 \<rparr>"

text \<open>A loop over the sectors of a chunk that may touch one sector and the engine's state at a time.\<close>

fun each_sector :: "(nat \<Rightarrow> sector_state \<Rightarrow> 'r \<Rightarrow> sector_state \<times> 'r) \<Rightarrow> nat \<Rightarrow> sector_state list \<Rightarrow> 'r
    \<Rightarrow> sector_state list \<times> 'r" where
  "each_sector f s [] r = ([], r)"
| "each_sector f s (x # xs) r =
     (let (x, r) = f s x r; (xs, r) = each_sector f (Suc s) xs r in (x # xs, r))"

definition max_chunk :: "accudisc_read_req \<Rightarrow> nat" where
  "max_chunk q = (let m = max_xfer div sector_len q in if m > chunk_max then chunk_max else m)"

definition overlap_of :: "accudisc_read_req \<Rightarrow> nat" where
  "overlap_of q =
     (let ov = (if rq_overlap_sectors q > overlap_max then overlap_max else rq_overlap_sectors q)
      in if ov \<ge> max_chunk q then max_chunk q - 1 else ov)"

definition need_witness :: "accudisc_read_req \<Rightarrow> bool" where
  "need_witness q \<longleftrightarrow> rq_verify_passes q \<ge> 2 \<or> overlap_of q > 0 \<or> rq_c2_witness q"

definition need_prim :: "accudisc_read_req \<Rightarrow> bool" where
  "need_prim q \<longleftrightarrow> need_witness q \<or> rq_c2_retries q > 0"

text \<open>The chunk as first delivered, and another transfer of sectors from the same address.\<close>

definition prim_ref :: "accudisc_read_req \<Rightarrow> u32 \<Rightarrow> sector_state list \<Rightarrow> adsc_ref" where
  "prim_ref q lba secs =
     \<lparr> rf_lba = lba, rf_data = (if need_prim q then Some (map ss_prim secs) else None),
       rf_hard = map ss_hard secs \<rparr>"

definition span_ref :: "u32 \<Rightarrow> (u8 list \<times> bool) list \<Rightarrow> adsc_ref" where
  "span_ref lba span = \<lparr> rf_lba = lba, rf_data = Some (map fst span), rf_hard = map snd span \<rparr>"

definition settle :: "(u8 list \<Rightarrow> sector_state \<Rightarrow> sector_state) \<Rightarrow> u8 list option \<Rightarrow> nat \<Rightarrow> sector_state \<Rightarrow> sector_state" where
  "settle recount got used x =
     (case got of
        Some sec \<Rightarrow> recount sec (x\<lparr> ss_data := sec, ss_recov := True, ss_att := ss_att x + used \<rparr>)
      | None \<Rightarrow> x\<lparr> ss_susp := True \<rparr>)"

section \<open>One witnessed pass\<close>

definition recount_c2 :: "accudisc_read_req \<Rightarrow> u8 list \<Rightarrow> sector_state \<Rightarrow> sector_state" where
  "recount_c2 q sec x = (if rd_c2_len q \<noteq> 0 then x\<lparr> ss_bits := popcount_buf (c2_of q sec) \<rparr> else x)"

definition witness_sector :: "'k kernel \<Rightarrow> accudisc_read_req \<Rightarrow> u32 \<Rightarrow> adsc_ref \<Rightarrow> (u8 list \<times> bool) list
    \<Rightarrow> nat \<Rightarrow> sector_state \<Rightarrow> 'k rd \<Rightarrow> sector_state \<times> 'k rd" where
  "witness_sector K q lba prim span s x r =
     (if ss_hard x \<or> ss_susp x then (x, r)
      else
        let (alt, hard2) = span ! s;
            diff = (if hard2 then 0 else adsc_audio_diff (ss_data x) alt)
        in
        if \<not> hard2 \<and> diff = 0 then (x, r)
        else
          let shifted = (\<not> hard2 \<and> adsc_shift_find (ss_data x) alt \<noteq> None);
              r = (if shifted then count_slip r else r);
              (got, used, r) = consensus K q (lba + word_of_nat s) (ss_data x) (if hard2 then None else Some alt)
                                 shifted [prim, span_ref lba span] r
          in (settle (recount_c2 q) got used (x\<lparr> ss_diffb := diff \<rparr>), r))"

definition witness_pass :: "'k kernel \<Rightarrow> accudisc_read_req \<Rightarrow> u32 \<Rightarrow> sector_state list \<Rightarrow> 'k rd
    \<Rightarrow> sector_state list \<times> 'k rd" where
  "witness_pass K q lba secs r =
     (let r = cache_defeat K q lba (ladder_restore K q r);
          (span, r) = read_span K q lba (length secs) 0 r
      in each_sector (witness_sector K q lba (prim_ref q lba secs) span) 0 secs r)"

definition witness_chunk :: "'k kernel \<Rightarrow> accudisc_read_req \<Rightarrow> adsc_chunk_state \<Rightarrow> 'k rd
    \<Rightarrow> adsc_chunk_state \<times> 'k rd" where
  "witness_chunk K q c r =
     (let (secs, r) = witness_pass K q (ck_lba c) (ck_secs c) r
      in (c\<lparr> ck_secs := secs, ck_witnessed := True \<rparr>, r))"

section \<open>The checks of a chunk just read\<close>

definition mispositioned :: "accudisc_read_req \<Rightarrow> u32 \<Rightarrow> sector_state list \<Rightarrow> nat \<Rightarrow> bool" where
  "mispositioned q lba secs s \<longleftrightarrow>
     \<not> ss_hard (secs ! s)
     \<and> (let qd = sector_q q (ss_data (secs ! s)) in
        q_crc_ok qd \<and> q_adr qd = 1 \<and> adsc_q_position_lba qd \<noteq> sint (lba + word_of_nat s))"

definition near_mispositioned :: "bool list \<Rightarrow> nat \<Rightarrow> bool" where
  "near_mispositioned qbad k =
     list_ex (\<lambda>s. qbad ! s \<and> (if s > qpos_margin then s - qpos_margin else 0) \<le> k \<and> k \<le> s + qpos_margin)
       [0..<length qbad]"

definition qpos_sector :: "'k kernel \<Rightarrow> accudisc_read_req \<Rightarrow> u32 \<Rightarrow> bool list \<Rightarrow> nat \<Rightarrow> sector_state \<Rightarrow> 'k rd
    \<Rightarrow> sector_state \<times> 'k rd" where
  "qpos_sector K q lba qbad s x r =
     (if \<not> near_mispositioned qbad s \<or> ss_hard x \<or> ss_susp x then (x, r)
      else let (got, used, r) = qpos_rescue K q (lba + word_of_nat s) r
           in (settle (\<lambda>_ y. y) got used x, r))"

definition qpos_check :: "'k kernel \<Rightarrow> accudisc_read_req \<Rightarrow> u32 \<Rightarrow> sector_state list \<Rightarrow> 'k rd
    \<Rightarrow> sector_state list \<times> 'k rd" where
  "qpos_check K q lba secs r =
     (if rd_sub_len q \<noteq> SUB_RAW then (secs, r)
      else
        let qbad = map (mispositioned q lba secs) [0..<length secs];
            r = r\<lparr> rd_st := (rd_st r)\<lparr> st_subq_misposition :=
                   st_subq_misposition (rd_st r) + length (filter id qbad) \<rparr> \<rparr>
        in each_sector (qpos_sector K q lba qbad) 0 secs r)"

text \<open>The seam: the previous chunk's extension against this chunk's head. The flag is the engine's
  \<open>seam_bad\<close>, threaded beside its state.\<close>

definition seam_sector :: "'k kernel \<Rightarrow> accudisc_read_req \<Rightarrow> u32 \<Rightarrow> adsc_ref \<Rightarrow> (u8 list \<times> bool) list \<Rightarrow> nat
    \<Rightarrow> sector_state \<Rightarrow> bool \<times> 'k rd \<Rightarrow> sector_state \<times> bool \<times> 'k rd" where
  "seam_sector K q lba prim prev_ext s x br =
     (case br of (bad, r) \<Rightarrow>
        if s \<ge> length prev_ext then (x, bad, r)
        else
          let (alt, ext_hard) = prev_ext ! s in
          if ext_hard \<or> ss_hard x \<or> ss_susp x then (x, bad, r)
          else
            let diff = adsc_audio_diff (ss_data x) alt in
            if diff = 0 then (x, bad, r)
            else
              let shifted = (adsc_shift_find (ss_data x) alt \<noteq> None);
                  r = (if shifted then count_slip r else r);
                  (got, used, r) = consensus K q (lba + word_of_nat s) (ss_data x) (Some alt) shifted
                                     [prim, span_ref lba prev_ext] r
              in (settle (\<lambda>_ y. y) got used (x\<lparr> ss_diffb := diff \<rparr>), True, r))"

definition seam_check :: "'k kernel \<Rightarrow> accudisc_read_req \<Rightarrow> u32 \<Rightarrow> (u8 list \<times> bool) list \<Rightarrow> sector_state list
    \<Rightarrow> 'k rd \<Rightarrow> sector_state list \<times> bool \<times> 'k rd" where
  "seam_check K q lba prev_ext secs r =
     each_sector (seam_sector K q lba (prim_ref q lba secs) prev_ext) 0 secs (False, r)"

definition count_bits :: "accudisc_read_req \<Rightarrow> sector_state \<Rightarrow> sector_state" where
  "count_bits q x =
     (if \<not> ss_hard x \<and> rd_c2_len q \<noteq> 0 then x\<lparr> ss_bits := popcount_buf (c2_of q (ss_data x)) \<rparr> else x)"

definition rescue_sector :: "'k kernel \<Rightarrow> accudisc_read_req \<Rightarrow> u32 \<Rightarrow> adsc_ref list \<Rightarrow> nat
    \<Rightarrow> sector_state \<Rightarrow> 'k rd \<Rightarrow> sector_state \<times> 'k rd" where
  "rescue_sector K q lba refs s x r =
     (if ss_hard x \<or> ss_bits x = 0 then (x, r)
      else
        let (sec, bits, used, r) = c2_rescue K q (lba + word_of_nat s) (ss_data x) (ss_bits x) refs r;
            x = x\<lparr> ss_data := sec, ss_bits := bits \<rparr>
        in (if bits = 0 then x\<lparr> ss_recov := True, ss_att := ss_att x + used \<rparr> else x, r))"

definition c2_pass :: "'k kernel \<Rightarrow> accudisc_read_req \<Rightarrow> u32 \<Rightarrow> (u8 list \<times> bool) list \<Rightarrow> sector_state list
    \<Rightarrow> 'k rd \<Rightarrow> sector_state list \<times> 'k rd" where
  "c2_pass K q lba prev_ext secs r =
     (if rq_c2_retries q > 0 \<and> rd_c2_len q \<noteq> 0
      then each_sector (rescue_sector K q lba [prim_ref q lba secs, span_ref lba prev_ext]) 0 secs r
      else (secs, r))"

fun verify_passes :: "'k kernel \<Rightarrow> accudisc_read_req \<Rightarrow> u32 \<Rightarrow> nat \<Rightarrow> sector_state list \<Rightarrow> 'k rd
    \<Rightarrow> sector_state list \<times> 'k rd" where
  "verify_passes K q lba 0 secs r = (secs, r)"
| "verify_passes K q lba (Suc p) secs r =
     (let (secs, r) = witness_pass K q lba secs r in verify_passes K q lba p secs r)"

definition passes :: "accudisc_read_req \<Rightarrow> nat" where
  "passes q = (if rq_verify_passes q \<ge> 2 then rq_verify_passes q else 1)"

section \<open>Publishing\<close>

record accudisc_chunk =
  ch_lba :: u32
  ch_data :: "u8 list list"

definition status_byte :: "sector_state \<Rightarrow> nat" where
  "status_byte x =
     (if ss_hard x then MAP_HARD
      else if ss_susp x then adsc_map_suspect_byte (ss_diffb x)
      else if ss_recov x then adsc_map_recovered_byte (ss_att x)
      else if ss_bits x \<noteq> 0 then adsc_map_c2_byte (ss_bits x)
      else MAP_OK)"

definition account_q :: "accudisc_read_req \<Rightarrow> sector_state \<Rightarrow> accudisc_read_stats \<Rightarrow> accudisc_read_stats" where
  "account_q q x st =
     (if rd_sub_len q = SUB_RAW
      then st\<lparr> st_subq_total := st_subq_total st + 1,
              st_subq_ok := st_subq_ok st + (if q_crc_ok (sector_q q (ss_data x)) then 1 else 0) \<rparr>
      else st)"

definition account_c2 :: "u32 \<Rightarrow> sector_state \<Rightarrow> accudisc_read_stats \<Rightarrow> accudisc_read_stats" where
  "account_c2 cur x st =
     (if ss_bits x \<noteq> 0
      then st\<lparr> st_sectors_flagged := st_sectors_flagged st + 1,
              st_max_bits_sector := max (st_max_bits_sector st) (ss_bits x),
              st_first_flagged_lba := (if st_first_flagged_lba st < 0 then uint cur else st_first_flagged_lba st),
              st_last_flagged_lba := uint cur \<rparr>
      else st)"

definition account_sector :: "accudisc_read_req \<Rightarrow> u32 \<Rightarrow> sector_state \<Rightarrow> accudisc_read_stats \<Rightarrow> accudisc_read_stats" where
  "account_sector q cur x st =
     (if ss_hard x then st
      else
        let st = st\<lparr> st_sectors_read := st_sectors_read st + 1, st_c2_bits := st_c2_bits st + ss_bits x \<rparr>;
            st = account_c2 cur x (account_q q x st)
        in
        if ss_susp x then st\<lparr> st_sectors_suspect := st_sectors_suspect st + 1 \<rparr>
        else if ss_recov x then st\<lparr> st_sectors_recovered := st_sectors_recovered st + 1 \<rparr>
        else st)"

definition publish_sector :: "accudisc_read_req \<Rightarrow> u32 \<Rightarrow> nat \<Rightarrow> sector_state \<Rightarrow> 'k rd \<Rightarrow> sector_state \<times> 'k rd" where
  "publish_sector q lba s x r =
     (let cur = lba + word_of_nat s; idx = unat (cur - rq_lba q) in
      (x, r\<lparr> rd_st := account_sector q cur x (rd_st r),
            rd_status_map := (if rq_has_status_map q then (rd_status_map r)[idx := status_byte x] else rd_status_map r),
            rd_subq_map :=
              (if \<not> rq_has_subq_map q then rd_subq_map r
               else if ss_hard x then (rd_subq_map r)[idx := SUBQ_NO_AUDIO]
               else if rd_sub_len q = SUB_RAW
               then (rd_subq_map r)[idx := adsc_subq_byte (sector_q q (ss_data x)) cur]
               else rd_subq_map r) \<rparr>))"

text \<open>The sink answers whether it refuses the chunk.\<close>

type_synonym 's sink = "accudisc_chunk \<Rightarrow> 's \<Rightarrow> bool \<times> 's"

definition publish :: "accudisc_read_req \<Rightarrow> 's sink option \<Rightarrow> adsc_chunk_state \<Rightarrow> 'k rd \<times> 's \<Rightarrow> bool \<times> 'k rd \<times> 's" where
  "publish q sink c rs =
     (case rs of (r, s) \<Rightarrow>
        let (_, r) = each_sector (publish_sector q (ck_lba c)) 0 (ck_secs c) r in
        case sink of None \<Rightarrow> (False, r, s)
        | Some f \<Rightarrow>
            let (refused, s) = f \<lparr> ch_lba = ck_lba c, ch_data = map ss_data (ck_secs c) \<rparr> s
            in (refused, r, s))"

section \<open>The loop\<close>

definition chunk_of :: "accudisc_read_req \<Rightarrow> nat" where
  "chunk_of q =
     (let c = (if rq_chunk_sectors q \<noteq> 0 then rq_chunk_sectors q else max_chunk q - overlap_of q)
      in if c > max_chunk q - overlap_of q then max_chunk q - overlap_of q else c)"

text \<open>Everything the loop does to a chunk between reading it and holding it back.\<close>

definition read_chunk :: "'k kernel \<Rightarrow> accudisc_read_req \<Rightarrow> u32 \<Rightarrow> nat \<Rightarrow> nat \<Rightarrow> (u8 list \<times> bool) list
    \<Rightarrow> 'k rd \<Rightarrow> adsc_chunk_state \<times> (u8 list \<times> bool) list \<times> bool \<times> bool \<times> 'k rd" where
  "read_chunk K q lba n ext prev_ext r =
     (let r = ladder_restore K q r;
          (span, r) = read_span K q lba (n + ext) n r;
          secs = map fresh_sector (take n span);
          (secs, r) = qpos_check K q lba secs r;
          (secs, seam_bad, r) = seam_check K q lba prev_ext secs r;
          secs = map (count_bits q) secs;
          c2_hit = list_ex (\<lambda>x. \<not> ss_hard x \<and> rd_c2_len q \<noteq> 0 \<and> ss_bits x \<noteq> 0) secs;
          (secs, r) = c2_pass K q lba prev_ext secs r;
          (secs, r) = verify_passes K q lba (passes q - 1) secs r
      in (\<lparr> ck_lba = lba, ck_secs = secs, ck_witnessed = passes q > 1 \<rparr>, drop n span, seam_bad, c2_hit, r))"

definition witness_unless :: "'k kernel \<Rightarrow> accudisc_read_req \<Rightarrow> bool \<Rightarrow> adsc_chunk_state \<Rightarrow> 'k rd
    \<Rightarrow> adsc_chunk_state \<times> 'k rd" where
  "witness_unless K q trigger c r =
     (if trigger \<and> \<not> ck_witnessed c then witness_chunk K q c r else (c, r))"

record ('k, 's) loop_state =
  ls_r :: "'k rd"
  ls_sink :: 's
  ls_pend :: "adsc_chunk_state option"
  ls_prev_ext :: "(u8 list \<times> bool) list"
  ls_witness_next :: bool
  ls_lba :: u32
  ls_remaining :: nat

text \<open>One round: \<open>Inl\<close> leaves the loop cancelled, \<open>Inr\<close> goes on.\<close>

definition read_round :: "'k kernel \<Rightarrow> accudisc_read_req \<Rightarrow> 's sink option \<Rightarrow> bool \<Rightarrow> ('k, 's) loop_state
    \<Rightarrow> ('k, 's) loop_state + ('k, 's) loop_state" where
  "read_round K q sink cancelled l =
     (let n = min (ls_remaining l) (chunk_of q);
          ext = (if overlap_of q > 0 \<and> ls_remaining l > n then min (ls_remaining l - n) (overlap_of q) else 0)
      in
      if cancelled then Inl l
      else
        let (cur, new_ext, seam_bad, c2_hit, r) =
              read_chunk K q (ls_lba l) n ext (ls_prev_ext l) (ls_r l);
            c2_trig = (rq_c2_witness q \<and> c2_hit);
            (pend, r) = (case ls_pend l of None \<Rightarrow> (None, r)
                         | Some p \<Rightarrow> let (p, r) = witness_unless K q (seam_bad \<or> c2_trig) p r in (Some p, r));
            (cur, r) = witness_unless K q (seam_bad \<or> c2_trig \<or> ls_witness_next l) cur r;
            (refused, r, s) = (case pend of None \<Rightarrow> (False, r, ls_sink l)
                               | Some p \<Rightarrow> publish q sink p (r, ls_sink l))
        in
        if refused then Inl (l\<lparr> ls_r := r, ls_sink := s, ls_pend := None \<rparr>)
        else Inr \<lparr> ls_r = r, ls_sink = s, ls_pend = Some cur, ls_prev_ext = new_ext,
                   ls_witness_next = c2_trig, ls_lba = ls_lba l + word_of_nat n,
                   ls_remaining = ls_remaining l - n \<rparr>)"

text \<open>
  The loop. It ends because every chunk has a sector (\<open>chunk_of_pos\<close>); the test for one without is
  never true for a request that passed the checks of \<open>accudisc_read_cdda\<close>.
\<close>

function read_loop :: "'k kernel \<Rightarrow> accudisc_read_req \<Rightarrow> 's sink option \<Rightarrow> (nat \<Rightarrow> bool) \<Rightarrow> nat
    \<Rightarrow> ('k, 's) loop_state \<Rightarrow> unit res \<times> ('k, 's) loop_state" where
  "read_loop K q sink cancel i l =
     (if ls_remaining l = 0 \<or> chunk_of q = 0
      then
        let (refused, r, s) = (case ls_pend l of None \<Rightarrow> (False, ls_r l, ls_sink l)
                               | Some p \<Rightarrow> publish q sink p (ls_r l, ls_sink l))
        in
        if refused then (Inl ERR_CANCELLED, l\<lparr> ls_r := r, ls_sink := s, ls_pend := None \<rparr>)
        else (Inr (), l\<lparr> ls_r := ladder_restore K q r, ls_sink := s, ls_pend := None \<rparr>)
      else
        case read_round K q sink (cancel i) l of
          Inl l \<Rightarrow> (Inl ERR_CANCELLED, l)
        | Inr l \<Rightarrow> read_loop K q sink cancel (Suc i) l)"
  by auto
termination
  by (relation "measure (\<lambda>(K, q, sink, cancel, i, l). ls_remaining l)")
     (auto simp: read_round_def Let_def split: prod.splits if_splits option.splits)

declare read_loop.simps [simp del]

section \<open>The call\<close>

definition req_valid :: "accudisc_read_req \<Rightarrow> bool" where
  "req_valid q \<longleftrightarrow>
     rq_count q \<noteq> 0 \<and> rq_c2 q \<le> 2 \<and> rq_sub q \<le> 2
     \<and> \<not> (rq_has_subq_map q \<and> rq_sub q \<noteq> 1)
     \<and> \<not> (rq_c2_retries q > 0 \<and> rq_verify_passes q < 2)
     \<and> \<not> (rq_c2_witness q \<and> rq_c2 q = 0)"

text \<open>The pass speed, and what the drive says it adopted.\<close>

definition apply_pass_speed :: "'k kernel \<Rightarrow> accudisc_read_req \<Rightarrow> 'k rd \<Rightarrow> 'k rd" where
  "apply_pass_speed K q r =
     (if rq_speed_x q = 0 then r
      else
        let r = r\<lparr> rd_st := (rd_st r)\<lparr> st_speed_requested_x := rq_speed_x q \<rparr> \<rparr>;
            (rc, dev) = accudisc_set_speed K (word_of_nat (rq_speed_x q)) (rd_dev r);
            r = r\<lparr> rd_dev := dev \<rparr>
        in
        if rc \<noteq> Inr () then r
        else
          let (got, dev) = accudisc_get_speed K dev; r = r\<lparr> rd_dev := dev \<rparr> in
          case got of Inl _ \<Rightarrow> r
          | Inr (_, cur_kbps) \<Rightarrow>
              r\<lparr> rd_st := (rd_st r)\<lparr> st_speed_honoured_x := cur_kbps div 176 \<rparr> \<rparr>)"

definition accudisc_read_cdda :: "'k kernel \<Rightarrow> accudisc_read_req \<Rightarrow> 's sink option \<Rightarrow> (nat \<Rightarrow> bool)
    \<Rightarrow> nat list \<Rightarrow> nat list \<Rightarrow> 's \<Rightarrow> 'k accudisc_device \<Rightarrow> unit res \<times> 'k rd \<times> 's" where
  "accudisc_read_cdda K q sink cancel status_map subq_map s dev =
     (let r = \<lparr> rd_dev = dev, rd_speed_dirty = False, rd_cur_speed = -1, rd_st = stats_zero,
                rd_status_map = status_map, rd_subq_map = subq_map \<rparr>
      in
      if \<not> req_valid q then (Inl ERR_INVAL, r, s)
      else
        let (rc, l) = read_loop K q sink cancel 0
              \<lparr> ls_r = apply_pass_speed K q r, ls_sink = s, ls_pend = None, ls_prev_ext = [],
                ls_witness_next = False, ls_lba = rq_lba q, ls_remaining = rq_count q \<rparr>
        in (rc, ls_r l, ls_sink l))"

end
