(* ===== verification/EngineSpec.thy ===== *)
theory EngineSpec
  imports EngineRun
begin

text \<open>
  What the read engine guarantees. On a transport with an honest residual, whatever the drive
  answers and whatever the strategies do, every sector handed to the sink is either the zero fill
  of an unreadable sector or one whole record that the drive sent, in one transfer, for that very
  address; chunks are delivered in address order, without gap or overlap; on success they cover
  the request, and the status map and the statistics agree on every sector.
\<close>

section \<open>Geometry of the request\<close>

lemma sector_len_eq:
  assumes "req_valid q"
  shows "sector_len q = AUDIO + c2_len_of (rq_c2 q) + sub_len_of (rq_sub q)"
    and "rd_sub_len q = sub_len_of (rq_sub q)" and "rd_c2_len q = c2_len_of (rq_c2 q)"
    and "sector_len q \<le> 2744"
proof -
  have c: "rq_c2 q \<le> 2" "rq_sub q \<le> 2" using assms by (auto simp: req_valid_def)
  show l: "sector_len q = AUDIO + c2_len_of (rq_c2 q) + sub_len_of (rq_sub q)"
    unfolding sector_len_def by (rule sector_len_parts [OF c])
  show s: "rd_sub_len q = sub_len_of (rq_sub q)" by (simp add: rd_sub_len_def sub_len_of_def)
  show "rd_c2_len q = c2_len_of (rq_c2 q)" by (simp add: rd_c2_len_def l s)
  show "sector_len q \<le> 2744" unfolding l by (simp add: c2_len_of_def sub_len_of_def)
qed

lemma max_chunk_bounds: "req_valid q \<Longrightarrow> 23 \<le> max_chunk q \<and> max_chunk q \<le> 32"
proof -
  assume v: "req_valid q"
  have "AUDIO \<le> sector_len q" using sector_len_eq(1) [OF v] by simp
  then have "65535 div 2744 \<le> max_xfer div sector_len q"
    using sector_len_eq(4) [OF v] unfolding max_xfer_def by (intro div_le_mono2) auto
  then show ?thesis by (simp add: max_chunk_def chunk_max_def Let_def)
qed

lemma chunk_of_pos:
  assumes "req_valid q"
  shows "1 \<le> chunk_of q" and "chunk_of q + overlap_of q \<le> max_chunk q"
proof -
  have o: "overlap_of q < max_chunk q" using max_chunk_bounds [OF assms] by (auto simp: overlap_of_def Let_def)
  then show "1 \<le> chunk_of q" and "chunk_of q + overlap_of q \<le> max_chunk q"
    by (auto simp: chunk_of_def Let_def)
qed

section \<open>Genuine sectors\<close>

text \<open>\<open>sec\<close> is record \<open>i\<close> of one answer of the drive to one READ CD, for the address \<open>lba\<close>.\<close>

definition genuine :: "'k kernel \<Rightarrow> accudisc_read_req \<Rightarrow> u32 \<Rightarrow> u8 list \<Rightarrow> bool" where
  "genuine K q lba sec \<longleftrightarrow>
     (\<exists>lba0 n rs i. length rs = n \<and> i < n \<and> lba = lba0 + word_of_nat i
        \<and> (\<forall>r \<in> set rs. combo_ok (rd_c2_len q) (rd_sub_len q) r)
        \<and> sec = mmc_record (rs ! i)
        \<and> (let cdb = adsc_cdb_read_cd lba0 (word_of_nat n) (sector_type q) (rq_c2 q) (rq_sub q) in
           answered K cdb (concat (map mmc_record rs)) \<or> answered K cdb (concat (map sub_first_record rs))))"

definition true_or_zero :: "'k kernel \<Rightarrow> accudisc_read_req \<Rightarrow> u32 \<Rightarrow> u8 list \<times> bool \<Rightarrow> bool" where
  "true_or_zero K q lba p \<longleftrightarrow> (if snd p then fst p = zero_fill q else genuine K q lba (fst p))"

lemma sectors_of_records:
  assumes "\<forall>r \<in> set rs. length (f r) = L"
  shows "sectors_of L (length rs) (concat (map f rs)) = map f rs"
proof (rule nth_equalityI)
  fix i assume "i < length (sectors_of L (length rs) (concat (map f rs)))"
  then have i: "i < length rs" by (simp add: sectors_of_def)
  have "slice (i * L) L (concat (map f rs)) = take L (f (rs ! i) @ concat (map f (drop (Suc i) rs)))"
    unfolding slice_def drop_concat_records [OF assms i] ..
  then show "sectors_of L (length rs) (concat (map f rs)) ! i = map f rs ! i"
    using i assms by (simp add: sectors_of_def)
qed (simp add: sectors_of_def)

lemma rd_read_genuine:
  assumes "resid_honest K" and "req_valid q" and "rd_read K q lba n r = (rc, secs, r')"
  shows "length secs = n" and "rc = Inr () \<Longrightarrow> i < n \<Longrightarrow> genuine K q (lba + word_of_nat i) (secs ! i)"
proof -
  obtain buf dev where x: "adsc_mmc_read_cd K lba n (sector_type q) (rq_c2 q) (rq_sub q)
      (fresh_bytes K (n * sector_len q) (dev_k (rd_dev r))) (sector_len q) (rd_dev r) = (rc, buf, dev)"
    and s: "secs = sectors_of (sector_len q) n buf"
    using assms(3) by (auto simp: rd_read_def split: prod.splits)
  show "length secs = n" using s by (simp add: sectors_of_def)
  assume rc: "rc = Inr ()" and i: "i < n"
  have len: "length (fresh_bytes K (n * sector_len q) (dev_k (rd_dev r))) = n * sector_len q"
    by (simp add: fresh_bytes_def)
  from read_cd_records [OF assms(1) x [unfolded rc] len] obtain rs where rs: "length rs = n"
    "\<forall>r \<in> set rs. combo_ok (c2_len_of (rq_c2 q)) (sub_len_of (rq_sub q)) r" "buf = concat (map mmc_record rs)"
    "answered K (adsc_cdb_read_cd lba (word_of_nat n) (sector_type q) (rq_c2 q) (rq_sub q)) (concat (map mmc_record rs))
     \<or> answered K (adsc_cdb_read_cd lba (word_of_nat n) (sector_type q) (rq_c2 q) (rq_sub q))
        (concat (map sub_first_record rs))"
    by blast
  have "\<forall>r \<in> set rs. length (mmc_record r) = sector_len q"
    using rs(2) sector_len_eq(1) [OF assms(2)] by simp
  from sectors_of_records [OF this] have "secs ! i = mmc_record (rs ! i)"
    using s rs(1,3) i by auto
  then show "genuine K q (lba + word_of_nat i) (secs ! i)"
    unfolding genuine_def using rs i sector_len_eq(2,3) [OF assms(2)]
    by (intro exI [of _ lba] exI [of _ n] exI [of _ rs] exI [of _ i]) (simp add: Let_def)
qed

lemma read_sector_genuine:
  assumes "resid_honest K" and "req_valid q" and "read_sector K q lba r = (Inr (), sec, r')"
  shows "genuine K q lba sec"
proof -
  obtain secs where "rd_read K q lba 1 r = (Inr (), secs, r')" "sec = secs ! 0"
    using assms(3) by (auto simp: read_sector_def split: prod.splits)
  then show ?thesis using rd_read_genuine(2) [OF assms(1,2), of lba 1 r "Inr ()" secs r' 0] by simp
qed

lemma retry_sector_genuine:
  assumes "resid_honest K" and "req_valid q" and "retry_sector K q lba attempt left sec0 r = (True, sec, r')"
  shows "genuine K q lba sec"
  using assms(3)
proof (induction left arbitrary: attempt sec0 r)
  case (Suc left)
  then show ?case
    using read_sector_genuine [OF assms(1,2)] by (auto simp: Let_def split: prod.splits if_splits)
qed simp

lemma span_sectors_ok:
  assumes "resid_honest K" and "req_valid q" and "span_sectors K q lba primary_n ss r = (span, r')"
  shows "list_all2 (\<lambda>s p. fst s < primary_n \<or> \<not> snd p \<longrightarrow> true_or_zero K q (lba + word_of_nat (fst s)) p) ss span"
  using assms(3)
proof (induction ss arbitrary: span r)
  case (Cons p ss)
  obtain s sec0 where p: "p = (s, sec0)" by fastforce
  obtain ok sec r1 where g: "retry_sector K q (lba + word_of_nat s) 0 (rd_retries q) sec0 r = (ok, sec, r1)"
    by (metis prod_cases3)
  define sec1 where "sec1 = (if \<not> ok \<and> s < primary_n then zero_fill q else sec)"
  obtain rest where e: "span = (sec1, \<not> ok) # rest" and rest: "\<exists>r. span_sectors K q lba primary_n ss r = (rest, r')"
    using Cons.prems g p by (auto simp: Let_def sec1_def split: prod.splits)
  have "s < primary_n \<or> ok \<longrightarrow> true_or_zero K q (lba + word_of_nat s) (sec1, \<not> ok)"
    using retry_sector_genuine [OF assms(1,2)] g by (cases ok) (auto simp: true_or_zero_def sec1_def)
  with Cons.IH rest show ?case unfolding e p by auto
qed simp

lemma read_span_ok:
  assumes "resid_honest K" and "req_valid q" and "read_span K q lba n primary_n r = (span, r')"
  shows "length span = n"
    and "i < n \<Longrightarrow> i < primary_n \<or> \<not> snd (span ! i) \<Longrightarrow> true_or_zero K q (lba + word_of_nat i) (span ! i)"
proof -
  have "list_all2 (\<lambda>s p. s < primary_n \<or> \<not> snd p \<longrightarrow> true_or_zero K q (lba + word_of_nat s) p) [0..<n] span"
  proof -
    obtain rc secs r1 where x: "rd_read K q lba n r = (rc, secs, r1)" by (metis prod_cases3)
    have l: "length secs = n" using rd_read_genuine(1) [OF assms(1,2) x] .
    show ?thesis
    proof (cases "rc = Inr ()")
      case True
      with assms(3) x have "span = map (\<lambda>sec. (sec, False)) secs" by (simp add: read_span_def)
      then show ?thesis
        using rd_read_genuine [OF assms(1,2) x] True
        by (auto simp: list_all2_conv_all_nth true_or_zero_def)
    next
      case False
      with assms(3) x show ?thesis
        using span_sectors_ok [OF assms(1,2), of lba primary_n "zip [0..<n] secs" r1 span r'] l
        by (simp add: read_span_def list_all2_conv_all_nth)
    qed
  qed
  then show "length span = n"
    and "i < n \<Longrightarrow> i < primary_n \<or> \<not> snd (span ! i) \<Longrightarrow> true_or_zero K q (lba + word_of_nat i) (span ! i)"
    by (auto simp: list_all2_conv_all_nth)
qed

section \<open>Replacements are genuine\<close>

lemma qpos_rescue_loop_genuine:
  assumes "resid_honest K" and "req_valid q" and "qpos_rescue_loop K q lba as n r = (Some sec, used, r')"
  shows "genuine K q lba sec \<and> q_agrees q lba sec"
  using assms(3)
proof (induction "as" arbitrary: n r)
  case (Cons a "as")
  then show ?case
    using read_sector_genuine [OF assms(1,2)] by (auto simp: Let_def split: prod.splits if_splits)
qed simp

lemma anchor_start_cases: "anchor_start a = -1 \<or> anchor_start a = -2 \<or> anchor_start a = 0"
proof -
  have "a mod 3 = 0 \<or> a mod 3 = 1 \<or> a mod 3 = 2" by linarith
  then show ?thesis by (auto simp: anchor_start_def)
qed

text \<open>The place of the target in a context read that starts one or two sectors before it, or on it.\<close>

lemma context_index:
  assumes "w = uint lba + d" and "d = -1 \<or> d = -2 \<or> d = 0"
  shows "unat (lba - word_of_int w) < anchor_span" and "(lba :: u32) = word_of_int w + word_of_nat (unat (lba - word_of_int w))"
proof -
  have "(word_of_int w :: u32) = lba + word_of_int d" using assms(1) by simp
  then have e: "lba - word_of_int w = (- word_of_int d :: u32)" by simp
  show "unat (lba - word_of_int w) < anchor_span"
    unfolding e using assms(2) by (auto simp: anchor_span_def)
  show "lba = word_of_int w + word_of_nat (unat (lba - word_of_int w))" by simp
qed

lemma context_genuine:
  assumes "resid_honest K" and "req_valid q" and "rd_read K q (word_of_int w) anchor_span r = (Inr (), ctx, r')"
    and "w = uint lba + d" and "d = -1 \<or> d = -2 \<or> d = 0"
  shows "genuine K q lba (ctx ! unat (lba - word_of_int w))"
  using rd_read_genuine(2) [OF assms(1-3) refl context_index(1) [OF assms(4,5)]]
    context_index(2) [OF assms(4,5)] by simp

lemma anchor_loop_genuine:
  assumes "resid_honest K" and "req_valid q" and "anchor_loop K q lba refs as anchored n r = (Some sec, used, r')"
    and "\<And>y. anchored = Some y \<Longrightarrow> genuine K q lba y"
  shows "genuine K q lba sec"
  using assms(3,4)
proof (induction "as" arbitrary: anchored n r)
  case (Cons a "as")
  define w where "w = uint lba + anchor_start a"
  obtain rc ctx r1 where x: "rd_read K q (word_of_int w) anchor_span (cache_defeat K q lba r) = (rc, ctx, r1)"
    by (metis prod_cases3)
  have g: "rc = Inr () \<Longrightarrow> genuine K q lba (ctx ! unat (lba - word_of_int w))"
    using context_genuine [OF assms(1,2) _ w_def anchor_start_cases] x by simp
  show ?case
    using Cons.prems(1) Cons.IH Cons.prems(2) g
    by (fastforce simp: Let_def w_def [symmetric] x split: if_splits option.splits)
qed simp

lemma c2_rescue_loop_genuine:
  assumes "resid_honest K" and "req_valid q"
    and "c2_rescue_loop K q lba refs as sec best n r = (sec', best', used, r')" and "genuine K q lba sec"
  shows "genuine K q lba sec'"
  using assms(3,4)
proof (induction "as" arbitrary: sec best n r)
  case (Cons a "as")
  define w where "w = (if uint lba + anchor_start (a - 1) < 0 then uint lba else uint lba + anchor_start (a - 1))"
  have w: "w = uint lba + (if uint lba + anchor_start (a - 1) < 0 then 0 else anchor_start (a - 1))"
    by (simp add: w_def)
  have d: "(if uint lba + anchor_start (a - 1) < 0 then 0 else anchor_start (a - 1)) = -1
      \<or> (if uint lba + anchor_start (a - 1) < 0 then 0 else anchor_start (a - 1)) = -2
      \<or> (if uint lba + anchor_start (a - 1) < 0 then 0 else anchor_start (a - 1)) = 0"
    using anchor_start_cases [of "a - 1"] by simp
  obtain rc ctx r1 where x: "rd_read K q (word_of_int w) anchor_span
      (cache_defeat K q lba (ladder_speed K q a r)) = (rc, ctx, r1)"
    by (metis prod_cases3)
  have g: "rc = Inr () \<Longrightarrow> genuine K q lba (ctx ! unat (lba - word_of_int w))"
    using context_genuine [OF assms(1,2) _ w d] x by simp
  define y where "y = ctx ! unat (lba - word_of_int w)"
  have eq: "c2_rescue_loop K q lba refs (a # as) sec best n r =
     (if best = 0 then (sec, best, n, r)
      else if rc \<noteq> Inr () then c2_rescue_loop K q lba refs as sec best n r1
      else if \<not> corroborated ctx (word_of_int w) lba refs
      then c2_rescue_loop K q lba refs as sec best a (count_reread r1)
      else if popcount_buf (c2_of q y) < best
      then c2_rescue_loop K q lba refs as y (popcount_buf (c2_of q y)) a (count_reread r1)
      else c2_rescue_loop K q lba refs as sec best a (count_reread r1))"
    unfolding c2_rescue_loop.simps(2) Let_def w_def [symmetric] x prod.case y_def ..
  show ?case
    using Cons.prems Cons.IH g [folded y_def] unfolding eq by (auto split: if_splits)
qed simp

lemma consensus_loop_genuine:
  assumes "resid_honest K" and "req_valid q"
    and "consensus_loop K q lba as samples shifted n r = (Some sec, sh, used, r')"
  shows "genuine K q lba sec"
  using assms(3)
proof (induction "as" arbitrary: samples shifted n r)
  case (Cons a "as")
  obtain rc s1 r1 where x: "read_sector K q lba (cache_defeat K q lba (ladder_speed K q a r)) = (rc, s1, r1)"
    by (metis prod_cases3)
  show ?case
    using Cons.prems Cons.IH read_sector_genuine [OF assms(1,2)] x
    by (auto simp: Let_def split: if_splits)
qed simp

lemma consensus_genuine:
  assumes "resid_honest K" and "req_valid q"
    and "consensus K q lba sec alt shifted refs r = (Some sec', used, r')"
  shows "genuine K q lba sec'"
proof -
  obtain got sh n r1 where x: "consensus_loop K q lba [1..<samples_max - 1]
      (sec # (case alt of None \<Rightarrow> [] | Some a \<Rightarrow> [a])) shifted 0 r = (got, sh, n, r1)"
    by (metis prod_cases4)
  then show ?thesis
    using assms(3) consensus_loop_genuine [OF assms(1,2)] anchor_loop_genuine [OF assms(1,2)]
    by (fastforce simp: consensus_def anchor_position_def Let_def split: if_splits)
qed

section \<open>Chunks stay genuine\<close>

abbreviation sector_ok :: "'k kernel \<Rightarrow> accudisc_read_req \<Rightarrow> u32 \<Rightarrow> sector_state \<Rightarrow> bool" where
  "sector_ok K q a x \<equiv> true_or_zero K q a (ss_data x, ss_hard x)"

definition chunk_ok :: "'k kernel \<Rightarrow> accudisc_read_req \<Rightarrow> u32 \<Rightarrow> sector_state list \<Rightarrow> bool" where
  "chunk_ok K q lba secs \<longleftrightarrow> (\<forall>i < length secs. sector_ok K q (lba + word_of_nat i) (secs ! i))"

lemma each_sector_induct:
  assumes "each_sector f s0 xs r = (xs', r')"
    and "\<And>s x r x' r'. f s x r = (x', r') \<Longrightarrow> P s x \<Longrightarrow> Q r \<Longrightarrow> P s x' \<and> Q r'"
    and "\<forall>i < length xs. P (s0 + i) (xs ! i)" and "Q r"
  shows "length xs' = length xs \<and> (\<forall>i < length xs. P (s0 + i) (xs' ! i)) \<and> Q r'"
  using assms(1,3,4)
proof (induction xs arbitrary: s0 r xs')
  case (Cons x xs)
  obtain y r1 where y: "f s0 x r = (y, r1)" by fastforce
  obtain ys r2 where ys: "each_sector f (Suc s0) xs r1 = (ys, r2)" by fastforce
  have e: "xs' = y # ys" "r' = r2" using Cons.prems(1) y ys by simp_all
  have p: "P s0 y \<and> Q r1" using assms(2) [OF y] Cons.prems(2,3) by force
  have "\<forall>i < length xs. P (Suc s0 + i) (xs ! i)" using Cons.prems(2) by force
  from Cons.IH [OF ys [folded e(2)] this] p have
    ih: "length ys = length xs" "\<forall>i < length xs. P (Suc s0 + i) (ys ! i)" "Q r'" by simp_all
  have "P (s0 + i) (xs' ! i)" if "i < length (x # xs)" for i
    using that p ih e by (cases i) auto
  then show ?case using ih e by simp
qed simp

lemmas each_sector_all = each_sector_induct [where Q = "\<lambda>_. True", simplified]

lemma settle_ok:
  assumes "\<And>sec y. ss_data (recount sec y) = ss_data y \<and> ss_hard (recount sec y) = ss_hard y"
    and "sector_ok K q a x" and "\<not> ss_hard x" and "\<And>sec. got = Some sec \<Longrightarrow> genuine K q a sec"
  shows "sector_ok K q a (settle recount got used x)"
  using assms by (auto simp: settle_def true_or_zero_def split: option.split)

lemma witness_sector_ok:
  assumes "resid_honest K" and "req_valid q" and "witness_sector K q lba prim span s x r = (x', r')"
    and "sector_ok K q (lba + word_of_nat s) x"
  shows "sector_ok K q (lba + word_of_nat s) x'"
proof -
  obtain alt h where sp: "span ! s = (alt, h)" by fastforce
  define diff where "diff = (if h then 0 else adsc_audio_diff (ss_data x) alt)"
  show ?thesis
  proof (cases "ss_hard x \<or> ss_susp x \<or> \<not> h \<and> diff = 0")
    case True
    then have "x' = x"
      using assms(3) unfolding witness_sector_def sp Let_def prod.case diff_def [symmetric]
      by (auto split: if_splits)
    then show ?thesis using assms(4) by simp
  next
    case False
    define shifted where "shifted = (\<not> h \<and> adsc_shift_find (ss_data x) alt \<noteq> None)"
    obtain got used r1 where c: "consensus K q (lba + word_of_nat s) (ss_data x) (if h then None else Some alt)
        shifted [prim, span_ref lba span] (if shifted then count_slip r else r) = (got, used, r1)"
      by (metis prod_cases3)
    have e: "x' = settle (recount_c2 q) got used (x\<lparr> ss_diffb := diff \<rparr>)"
      using assms(3) False c unfolding witness_sector_def sp Let_def prod.case
        shifted_def [symmetric] diff_def [symmetric] by (auto split: if_splits)
    have "genuine K q (lba + word_of_nat s) sec" if "got = Some sec" for sec
      by (rule consensus_genuine [OF assms(1,2) c [unfolded that]])
    then show ?thesis unfolding e using assms(4) False by (intro settle_ok) (auto simp: recount_c2_def)
  qed
qed

lemma witness_pass_ok:
  assumes "resid_honest K" and "req_valid q" and "witness_pass K q lba secs r = (secs', r')"
    and "chunk_ok K q lba secs"
  shows "length secs' = length secs \<and> chunk_ok K q lba secs'"
proof -
  obtain span r1 where sp: "read_span K q lba (length secs) 0 (cache_defeat K q lba (ladder_restore K q r)) = (span, r1)"
    by fastforce
  then have "each_sector (witness_sector K q lba (prim_ref q lba secs) span) 0 secs r1 = (secs', r')"
    using assms(3) by (simp add: witness_pass_def)
  from each_sector_all [OF this, where P = "\<lambda>s. sector_ok K q (lba + word_of_nat s)"]
  show ?thesis
    using witness_sector_ok [OF assms(1,2)] assms(4) unfolding chunk_ok_def by (metis add_0)
qed

lemma verify_passes_ok:
  assumes "resid_honest K" and "req_valid q" and "verify_passes K q lba p secs r = (secs', r')"
    and "chunk_ok K q lba secs"
  shows "length secs' = length secs \<and> chunk_ok K q lba secs'"
  using assms(3,4)
proof (induction p arbitrary: secs r)
  case (Suc p)
  obtain s1 r1 where x: "witness_pass K q lba secs r = (s1, r1)" by fastforce
  with Suc witness_pass_ok [OF assms(1,2) x] show ?case by auto
qed simp

lemma qpos_check_ok:
  assumes "resid_honest K" and "req_valid q" and "qpos_check K q lba secs r = (secs', r')"
    and "chunk_ok K q lba secs"
  shows "length secs' = length secs \<and> chunk_ok K q lba secs'"
proof (cases "rd_sub_len q \<noteq> SUB_RAW")
  case False
  define qbad where "qbad = map (mispositioned q lba secs) [0..<length secs]"
  obtain r1 where x: "each_sector (qpos_sector K q lba qbad) 0 secs r1 = (secs', r')"
    using assms(3) False by (auto simp: qpos_check_def Let_def qbad_def)
  have step: "sector_ok K q (lba + word_of_nat s) x'"
    if f: "qpos_sector K q lba qbad s x r = (x', r2)" and ok: "sector_ok K q (lba + word_of_nat s) x" for s x r x' r2
  proof (cases "\<not> near_mispositioned qbad s \<or> ss_hard x \<or> ss_susp x")
    case True
    then show ?thesis using f ok by (auto simp: qpos_sector_def)
  next
    case False
    obtain got used r3 where g: "qpos_rescue K q (lba + word_of_nat s) r = (got, used, r3)" by (metis prod_cases3)
    then have e: "x' = settle (\<lambda>_ y. y) got used x" using f False by (simp add: qpos_sector_def)
    have "genuine K q (lba + word_of_nat s) sec" if "got = Some sec" for sec
      using qpos_rescue_loop_genuine [OF assms(1,2) g [unfolded qpos_rescue_def that]] by simp
    then show ?thesis unfolding e using ok False by (intro settle_ok) auto
  qed
  from each_sector_all [OF x, where P = "\<lambda>s. sector_ok K q (lba + word_of_nat s)"] step
  show ?thesis using assms(4) unfolding chunk_ok_def by (metis add_0)
qed (use assms(3,4) in \<open>simp add: qpos_check_def\<close>)

lemma seam_check_ok:
  assumes "resid_honest K" and "req_valid q" and "seam_check K q lba prev_ext secs r = (secs', bad, r')"
    and "chunk_ok K q lba secs"
  shows "length secs' = length secs \<and> chunk_ok K q lba secs'"
proof -
  define prim where "prim = prim_ref q lba secs"
  have x: "each_sector (seam_sector K q lba prim prev_ext) 0 secs (False, r) = (secs', bad, r')"
    using assms(3) by (simp add: seam_check_def prim_def)
  have step: "sector_ok K q (lba + word_of_nat s) x'"
    if f: "seam_sector K q lba prim prev_ext s x br = (x', br')" and ok: "sector_ok K q (lba + word_of_nat s) x"
    for s x br x' br'
  proof -
    obtain bad0 r0 where br: "br = (bad0, r0)" by fastforce
    obtain alt h where sp: "prev_ext ! s = (alt, h)" by fastforce
    define diff where "diff = adsc_audio_diff (ss_data x) alt"
    define shifted where "shifted = (adsc_shift_find (ss_data x) alt \<noteq> None)"
    obtain got used r3 where c: "consensus K q (lba + word_of_nat s) (ss_data x) (Some alt) shifted
        [prim, span_ref lba prev_ext] (if shifted then count_slip r0 else r0) = (got, used, r3)"
      by (metis prod_cases3)
    show ?thesis
    proof (cases "s \<ge> length prev_ext \<or> h \<or> ss_hard x \<or> ss_susp x \<or> diff = 0")
      case True
      then have "x' = x" using f by (auto simp: seam_sector_def br sp Let_def diff_def split: if_splits prod.splits)
      then show ?thesis using ok by simp
    next
      case False
      then have e: "x' = settle (\<lambda>_ y. y) got used (x\<lparr> ss_diffb := diff \<rparr>)"
        using f c unfolding seam_sector_def br sp Let_def prod.case diff_def [symmetric] shifted_def [symmetric]
        by auto
      have "genuine K q (lba + word_of_nat s) sec" if "got = Some sec" for sec
        by (rule consensus_genuine [OF assms(1,2) c [unfolded that]])
      then show ?thesis unfolding e using ok False by (intro settle_ok) auto
    qed
  qed
  from each_sector_all [OF x, where P = "\<lambda>s. sector_ok K q (lba + word_of_nat s)"] step
  show ?thesis using assms(4) unfolding chunk_ok_def by (metis add_0)
qed

lemma c2_pass_ok:
  assumes "resid_honest K" and "req_valid q" and "c2_pass K q lba prev_ext secs r = (secs', r')"
    and "chunk_ok K q lba secs"
  shows "length secs' = length secs \<and> chunk_ok K q lba secs'"
proof (cases "rq_c2_retries q > 0 \<and> rd_c2_len q \<noteq> 0")
  case True
  define refs where "refs = [prim_ref q lba secs, span_ref lba prev_ext]"
  have x: "each_sector (rescue_sector K q lba refs) 0 secs r = (secs', r')"
    using assms(3) True by (simp add: c2_pass_def refs_def)
  have step: "sector_ok K q (lba + word_of_nat s) x'"
    if f: "rescue_sector K q lba refs s x r = (x', r2)" and ok: "sector_ok K q (lba + word_of_nat s) x" for s x r x' r2
  proof (cases "ss_hard x \<or> ss_bits x = 0")
    case False
    obtain sec bits used r3 where g: "c2_rescue K q (lba + word_of_nat s) (ss_data x) (ss_bits x) refs r = (sec, bits, used, r3)"
      by (metis prod_cases4)
    then have "genuine K q (lba + word_of_nat s) sec"
      using c2_rescue_loop_genuine [OF assms(1,2)] ok False unfolding c2_rescue_def
      by (auto simp: true_or_zero_def)
    then show ?thesis
      using f g False by (auto simp: rescue_sector_def Let_def true_or_zero_def split: if_splits)
  qed (use f ok in \<open>auto simp: rescue_sector_def\<close>)
  from each_sector_all [OF x, where P = "\<lambda>s. sector_ok K q (lba + word_of_nat s)"] step
  show ?thesis using assms(4) unfolding chunk_ok_def by (metis add_0)
qed (use assms(3,4) in \<open>auto simp: c2_pass_def\<close>)

lemma count_bits_ok: "chunk_ok K q lba secs \<Longrightarrow> chunk_ok K q lba (map (count_bits q) secs)"
  by (auto simp: chunk_ok_def count_bits_def)

lemma read_chunk_ok:
  assumes "resid_honest K" and "req_valid q"
    and "read_chunk K q lba n ext prev_ext r = (c, new_ext, bad, hit, r')"
  shows "ck_lba c = lba \<and> length (ck_secs c) = n \<and> chunk_ok K q lba (ck_secs c)"
proof -
  obtain span r1 where sp: "read_span K q lba (n + ext) n (ladder_restore K q r) = (span, r1)" by fastforce
  define s0 where "s0 = map fresh_sector (take n span)"
  obtain s1 r2 where q1: "qpos_check K q lba s0 r1 = (s1, r2)" by fastforce
  obtain s2 b r3 where q2: "seam_check K q lba prev_ext s1 r2 = (s2, b, r3)" by (metis prod_cases3)
  obtain s3 r4 where q3: "c2_pass K q lba prev_ext (map (count_bits q) s2) r3 = (s3, r4)" by fastforce
  obtain s4 r5 where q4: "verify_passes K q lba (passes q - 1) s3 r4 = (s4, r5)" by fastforce
  have c: "c = \<lparr> ck_lba = lba, ck_secs = s4, ck_witnessed = passes q > 1 \<rparr>"
    using assms(3) unfolding read_chunk_def Let_def sp prod.case s0_def [symmetric] q1 q2 q3 q4 by simp
  have "length s0 = n" "chunk_ok K q lba s0"
    using read_span_ok [OF assms(1,2) sp] by (auto simp: s0_def chunk_ok_def fresh_sector_def)
  then have "length s1 = n" "chunk_ok K q lba s1" using qpos_check_ok [OF assms(1,2) q1] by simp_all
  then have "length s2 = n" "chunk_ok K q lba s2" using seam_check_ok [OF assms(1,2) q2] by simp_all
  then have "length s3 = n" "chunk_ok K q lba s3"
    using c2_pass_ok [OF assms(1,2) q3 count_bits_ok] by simp_all
  then show ?thesis using verify_passes_ok [OF assms(1,2) q4] c by simp
qed

end
