(* ===== verification/EngineAccount.thy ===== *)
theory EngineAccount
  imports EngineSpec
begin

text \<open>
  What the read engine accounts for. The ledger of a run is the part of its state that its caller
  reads as an account of every sector: the two maps and the counters of sectors read, suspect,
  recovered and failed. Only \<open>publish\<close> writes it, except that a sector is counted as failed when
  its chunk is first read. From that follow the delivery theorem and the accounting theorem.
\<close>

section \<open>The ledger\<close>

definition ledger :: "'k rd \<Rightarrow> nat list \<times> nat list \<times> nat \<times> nat \<times> nat \<times> nat" where
  "ledger r = (rd_status_map r, rd_subq_map r, st_sectors_read (rd_st r), st_sectors_suspect (rd_st r),
     st_sectors_recovered (rd_st r), st_hard_errors (rd_st r))"

lemma ledger_counts [simp]:
  "ledger (count_sense r) = ledger r" "ledger (count_reread r) = ledger r" "ledger (count_slip r) = ledger r"
  by (simp_all add: ledger_def count_sense_def count_reread_def count_slip_def Let_def)

lemma ledger_rd_read: "rd_read K q lba n r = (rc, secs, r') \<Longrightarrow> ledger r' = ledger r"
  by (auto simp: rd_read_def ledger_def split: prod.splits)

lemma ledger_read_sector: "read_sector K q lba r = (rc, sec, r') \<Longrightarrow> ledger r' = ledger r"
  by (auto simp: read_sector_def split: prod.splits dest: ledger_rd_read)

lemma ledger_speed [simp]:
  "ledger (set_speed_once K s r) = ledger r" "ledger (ladder_speed K q a r) = ledger r"
  "ledger (ladder_restore K q r) = ledger r"
proof -
  show s: "ledger (set_speed_once K s r) = ledger r" for s
    by (simp add: set_speed_once_def ledger_def split: prod.split)
  show "ledger (ladder_speed K q a r) = ledger r"
    using s by (simp add: ladder_speed_def ledger_def Let_def)
  show "ledger (ladder_restore K q r) = ledger r"
    using s by (simp add: ladder_restore_def ledger_def)
qed

lemma ledger_cache_defeat [simp]: "ledger (cache_defeat K q lba r) = ledger r"
  by (simp add: cache_defeat_def ledger_def split: prod.split)

lemma ledger_retry_sector: "retry_sector K q lba a left sec0 r = (ok, sec, r') \<Longrightarrow> ledger r' = ledger r"
proof (induction left arbitrary: a sec0 r)
  case (Suc left)
  then show ?case
    by (fastforce simp: Let_def split: prod.splits if_splits dest: ledger_read_sector)
qed simp

text \<open>A span counts a failed sector among its first \<open>primary_n\<close>, and nothing else.\<close>

definition charge :: "nat \<Rightarrow> nat list \<times> nat list \<times> nat \<times> nat \<times> nat \<times> nat
    \<Rightarrow> nat list \<times> nat list \<times> nat \<times> nat \<times> nat \<times> nat" where
  "charge n l = (case l of (a, b, c, d, e, h) \<Rightarrow> (a, b, c, d, e, h + n))"

lemma charge_charge [simp]: "charge 0 l = l" "charge m (charge n l) = charge (n + m) l"
  by (auto simp: charge_def split: prod.split)

lemma ledger_span_sectors:
  assumes "span_sectors K q lba primary_n ss r = (span, r')"
  shows "ledger r' = charge (length (filter (\<lambda>(s, p). fst s < primary_n \<and> snd p) (zip ss span))) (ledger r)"
  using assms
proof (induction ss arbitrary: span r)
  case (Cons p ss)
  obtain s sec0 where p: "p = (s, sec0)" by fastforce
  obtain ok sec r1 where g: "retry_sector K q (lba + word_of_nat s) 0 (rd_retries q) sec0 r = (ok, sec, r1)"
    by (metis prod_cases3)
  define r2 where "r2 = (if \<not> ok \<and> s < primary_n
    then count_sense (r1\<lparr> rd_st := (rd_st r1)\<lparr> st_hard_errors := st_hard_errors (rd_st r1) + 1 \<rparr> \<rparr>) else r1)"
  obtain rest r3 where x: "span_sectors K q lba primary_n ss r2 = (rest, r3)" by fastforce
  have e: "span = (if \<not> ok \<and> s < primary_n then zero_fill q else sec, \<not> ok) # rest" "r' = r3"
    using Cons.prems g x p by (simp_all add: r2_def Let_def)
  have "ledger r2 = charge (if \<not> ok \<and> s < primary_n then 1 else 0) (ledger r1)"
    by (simp add: r2_def charge_def) (simp add: ledger_def)
  with Cons.IH [OF x [folded e(2)]] ledger_retry_sector [OF g] e p show ?case by auto
qed simp

lemma ledger_read_span:
  assumes "read_span K q lba n primary_n r = (span, r')" and "length span = n"
  shows "ledger r' = charge (length (filter snd (take primary_n span))) (ledger r)"
proof -
  obtain rc secs r1 where x: "rd_read K q lba n r = (rc, secs, r1)" by (metis prod_cases3)
  show ?thesis
  proof (cases "rc = Inr ()")
    case True
    then have "span = map (\<lambda>sec. (sec, False)) secs" "r' = r1" using assms(1) x by (simp_all add: read_span_def)
    moreover have "filter snd (take primary_n (map (\<lambda>sec. (sec, False)) secs)) = []"
      by (auto simp: filter_empty_conv take_map)
    ultimately show ?thesis using ledger_rd_read [OF x] by simp
  next
    case False
    then have s: "span_sectors K q lba primary_n (zip [0..<n] secs) r1 = (span, r')" using assms x by (simp add: read_span_def)
    have l: "length secs = n" using x by (auto simp: rd_read_def sectors_of_def split: prod.splits)
    have "length (filter (\<lambda>(s, p). fst s < primary_n \<and> snd p) (zip (zip [0..<n] secs) span)) = length (filter snd (take primary_n span))"
      unfolding length_filter_conv_card using assms(2) l by (intro arg_cong [of _ _ card]) auto
    then show ?thesis using ledger_span_sectors [OF s] ledger_rd_read [OF x] by simp
  qed
qed

section \<open>Strategies leave the ledger alone\<close>

lemma ledger_qpos_rescue_loop: "qpos_rescue_loop K q lba as n r = (got, used, r') \<Longrightarrow> ledger r' = ledger r"
proof (induction "as" arbitrary: n r)
  case (Cons a "as")
  then show ?case by (fastforce simp: Let_def split: prod.splits if_splits dest: ledger_read_sector)
qed simp

lemma ledger_anchor_loop: "anchor_loop K q lba refs as anchored n r = (got, used, r') \<Longrightarrow> ledger r' = ledger r"
proof (induction "as" arbitrary: anchored n r)
  case (Cons a "as")
  then show ?case by (fastforce simp: Let_def split: prod.splits if_splits option.splits dest: ledger_rd_read)
qed simp

lemma ledger_c2_rescue_loop:
  "c2_rescue_loop K q lba refs as sec best n r = (sec', best', used, r') \<Longrightarrow> ledger r' = ledger r"
proof (induction "as" arbitrary: sec best n r)
  case (Cons a "as")
  then show ?case by (fastforce simp: Let_def split: prod.splits if_splits dest: ledger_rd_read)
qed simp

lemma ledger_consensus_loop:
  "consensus_loop K q lba as samples shifted n r = (got, sh, used, r') \<Longrightarrow> ledger r' = ledger r"
proof (induction "as" arbitrary: samples shifted n r)
  case (Cons a "as")
  then show ?case by (fastforce simp: Let_def split: prod.splits if_splits dest: ledger_read_sector)
qed simp

lemma ledger_consensus: "consensus K q lba sec alt shifted refs r = (got, used, r') \<Longrightarrow> ledger r' = ledger r"
  by (fastforce simp: consensus_def anchor_position_def Let_def split: prod.splits if_splits
      dest: ledger_consensus_loop ledger_anchor_loop)

section \<open>A chunk before it is published\<close>

lemma each_sector_keeps:
  assumes "each_sector f s0 xs r = (xs', r')"
    and "\<And>s x r x' r'. f s x r = (x', r') \<Longrightarrow> ss_hard x' = ss_hard x \<and> g r' = g r"
  shows "map ss_hard xs' = map ss_hard xs \<and> g r' = g r"
  using assms(1)
proof (induction xs arbitrary: s0 r xs')
  case (Cons x xs)
  obtain y r1 where y: "f s0 x r = (y, r1)" by fastforce
  obtain ys r2 where ys: "each_sector f (Suc s0) xs r1 = (ys, r2)" by fastforce
  then show ?case using Cons.prems y Cons.IH [of "Suc s0" r1 ys] assms(2) [OF y] by auto
qed simp

lemma settle_hard [simp]:
  "(\<And>sec y. ss_hard (recount sec y) = ss_hard y) \<Longrightarrow> ss_hard (settle recount got used x) = ss_hard x"
  by (simp add: settle_def split: option.split)

lemma recount_hard [simp]: "ss_hard (recount_c2 q sec x) = ss_hard x"
  by (simp add: recount_c2_def)

lemma witness_sector_keeps:
  "witness_sector K q lba prim span s x r = (x', r') \<Longrightarrow> ss_hard x' = ss_hard x \<and> ledger r' = ledger r"
  by (auto simp: witness_sector_def Let_def split: prod.splits if_splits dest!: ledger_consensus)

lemma witness_pass_keeps:
  assumes "witness_pass K q lba secs r = (secs', r')"
  shows "map ss_hard secs' = map ss_hard secs \<and> ledger r' = ledger r"
proof -
  obtain span r1 where sp: "read_span K q lba (length secs) 0 (cache_defeat K q lba (ladder_restore K q r)) = (span, r1)"
    by fastforce
  have x: "each_sector (witness_sector K q lba (prim_ref q lba secs) span) 0 secs r1 = (secs', r')"
    using assms sp by (simp add: witness_pass_def)
  have "ledger r1 = ledger r"
  proof -
    obtain rc ss r2 where d: "rd_read K q lba (length secs) (cache_defeat K q lba (ladder_restore K q r)) = (rc, ss, r2)"
      by (metis prod_cases3)
    show ?thesis
      using sp d ledger_rd_read [OF d] ledger_span_sectors [of K q lba 0 "zip [0..<length secs] ss" r2 span r1]
      by (auto simp: read_span_def split: if_splits)
  qed
  then show ?thesis using each_sector_keeps [OF x, of ledger] witness_sector_keeps by metis
qed

lemma verify_passes_keeps:
  "verify_passes K q lba p secs r = (secs', r') \<Longrightarrow> map ss_hard secs' = map ss_hard secs \<and> ledger r' = ledger r"
proof (induction p arbitrary: secs r)
  case (Suc p)
  obtain s1 r1 where x: "witness_pass K q lba secs r = (s1, r1)" by fastforce
  then show ?case using Suc.IH [of s1 r1] Suc.prems witness_pass_keeps [OF x] by simp
qed simp

lemma qpos_check_keeps:
  assumes "qpos_check K q lba secs r = (secs', r')"
  shows "map ss_hard secs' = map ss_hard secs \<and> ledger r' = ledger r"
proof (cases "rd_sub_len q \<noteq> SUB_RAW")
  case False
  define qbad where "qbad = map (mispositioned q lba secs) [0..<length secs]"
  define r1 where "r1 = r\<lparr> rd_st := (rd_st r)\<lparr> st_subq_misposition :=
                   st_subq_misposition (rd_st r) + length (filter id qbad) \<rparr> \<rparr>"
  have x: "each_sector (qpos_sector K q lba qbad) 0 secs r1 = (secs', r')"
    using assms False by (simp add: qpos_check_def Let_def r1_def qbad_def)
  have "ss_hard x' = ss_hard x \<and> ledger r' = ledger r" if "qpos_sector K q lba qbad s x r = (x', r')" for s x r x' r'
    using that by (auto simp: qpos_sector_def qpos_rescue_def split: if_splits prod.splits dest: ledger_qpos_rescue_loop)
  moreover have "ledger r1 = ledger r" by (simp add: r1_def ledger_def)
  ultimately show ?thesis using each_sector_keeps [OF x, of ledger] by metis
qed (use assms in \<open>simp add: qpos_check_def\<close>)

lemma seam_sector_keeps:
  "seam_sector K q lba prim prev_ext s x br = (x', br') \<Longrightarrow> ss_hard x' = ss_hard x \<and> ledger (snd br') = ledger (snd br)"
  by (auto simp: seam_sector_def Let_def split: prod.splits if_splits dest!: ledger_consensus)

lemma seam_check_keeps:
  assumes "seam_check K q lba prev_ext secs r = (secs', bad, r')"
  shows "map ss_hard secs' = map ss_hard secs \<and> ledger r' = ledger r"
  using each_sector_keeps [OF assms [unfolded seam_check_def], of "\<lambda>br. ledger (snd br)"] seam_sector_keeps
  by fastforce

lemma rescue_sector_keeps:
  "rescue_sector K q lba refs s x r = (x', r') \<Longrightarrow> ss_hard x' = ss_hard x \<and> ledger r' = ledger r"
  by (auto simp: rescue_sector_def c2_rescue_def Let_def split: prod.splits if_splits dest!: ledger_c2_rescue_loop)

lemma c2_pass_keeps:
  assumes "c2_pass K q lba prev_ext secs r = (secs', r')"
  shows "map ss_hard secs' = map ss_hard secs \<and> ledger r' = ledger r"
proof (cases "rq_c2_retries q > 0 \<and> rd_c2_len q \<noteq> 0")
  case True
  then have "each_sector (rescue_sector K q lba [prim_ref q lba secs, span_ref lba prev_ext]) 0 secs r = (secs', r')"
    using assms by (simp add: c2_pass_def)
  from each_sector_keeps [OF this, of ledger] rescue_sector_keeps show ?thesis by metis
qed (use assms in \<open>auto simp: c2_pass_def\<close>)

definition hard_count :: "sector_state list \<Rightarrow> nat" where
  "hard_count secs = length (filter ss_hard secs)"

lemma hard_count_map: "map ss_hard xs = map ss_hard ys \<Longrightarrow> hard_count xs = hard_count ys"
proof -
  have "hard_count zs = sum_list (map (\<lambda>h. if h then 1 else 0) (map ss_hard zs))" for zs
    by (induction zs) (simp_all add: hard_count_def)
  then show "map ss_hard xs = map ss_hard ys \<Longrightarrow> hard_count xs = hard_count ys" by presburger
qed

lemma read_chunk_keeps:
  assumes "resid_honest K" and "req_valid q"
    and "read_chunk K q lba n ext prev_ext r = (c, new_ext, bad, hit, r')"
  shows "ledger r' = charge (hard_count (ck_secs c)) (ledger r)"
proof -
  obtain span r1 where sp: "read_span K q lba (n + ext) n (ladder_restore K q r) = (span, r1)" by fastforce
  define s0 where "s0 = map fresh_sector (take n span)"
  obtain s1 r2 where q1: "qpos_check K q lba s0 r1 = (s1, r2)" by fastforce
  obtain s2 b r3 where q2: "seam_check K q lba prev_ext s1 r2 = (s2, b, r3)" by (metis prod_cases3)
  obtain s3 r4 where q3: "c2_pass K q lba prev_ext (map (count_bits q) s2) r3 = (s3, r4)" by fastforce
  obtain s4 r5 where q4: "verify_passes K q lba (passes q - 1) s3 r4 = (s4, r5)" by fastforce
  have c: "ck_secs c = s4" "r' = r5"
    using assms(3) unfolding read_chunk_def Let_def sp prod.case s0_def [symmetric] q1 q2 q3 q4 by auto
  have "ledger r1 = charge (length (filter snd (take n span))) (ledger r)"
    using ledger_read_span [OF sp] read_span_ok(1) [OF assms(1,2) sp] by simp
  moreover have "length (filter snd (take n span)) = hard_count s0"
    by (simp add: s0_def hard_count_def filter_map o_def fresh_sector_def)
  moreover have "map ss_hard (map (count_bits q) s2) = map ss_hard s2" by (simp add: count_bits_def)
  ultimately show ?thesis
    unfolding c using qpos_check_keeps [OF q1] seam_check_keeps [OF q2] c2_pass_keeps [OF q3]
      verify_passes_keeps [OF q4] hard_count_map [of s4 s0] by simp
qed

lemma witness_unless_ok:
  assumes "resid_honest K" and "req_valid q" and "witness_unless K q trig c r = (c', r')"
    and "chunk_ok K q (ck_lba c) (ck_secs c)"
  shows "ck_lba c' = ck_lba c \<and> length (ck_secs c') = length (ck_secs c) \<and> chunk_ok K q (ck_lba c) (ck_secs c')
    \<and> hard_count (ck_secs c') = hard_count (ck_secs c) \<and> ledger r' = ledger r"
proof (cases "trig \<and> \<not> ck_witnessed c")
  case True
  obtain secs r1 where w: "witness_pass K q (ck_lba c) (ck_secs c) r = (secs, r1)" by fastforce
  then show ?thesis
    using assms(3) True witness_pass_ok [OF assms(1,2) w assms(4)] witness_pass_keeps [OF w]
    by (auto simp: witness_unless_def witness_chunk_def intro: hard_count_map)
qed (use assms(3,4) in \<open>auto simp: witness_unless_def\<close>)

section \<open>Publishing\<close>

definition read_count :: "sector_state list \<Rightarrow> nat" where
  "read_count secs = length (filter (\<lambda>x. \<not> ss_hard x) secs)"

definition suspect_count :: "sector_state list \<Rightarrow> nat" where
  "suspect_count secs = length (filter (\<lambda>x. \<not> ss_hard x \<and> ss_susp x) secs)"

definition recovered_count :: "sector_state list \<Rightarrow> nat" where
  "recovered_count secs = length (filter (\<lambda>x. \<not> ss_hard x \<and> \<not> ss_susp x \<and> ss_recov x) secs)"

lemmas sector_counts = hard_count_def read_count_def suspect_count_def recovered_count_def

definition counters :: "'k rd \<Rightarrow> nat \<times> nat \<times> nat \<times> nat" where
  "counters r = (st_sectors_read (rd_st r), st_sectors_suspect (rd_st r), st_sectors_recovered (rd_st r),
     st_hard_errors (rd_st r))"

lemma ledger_counters: "ledger r' = ledger r \<Longrightarrow> counters r' = counters r"
  by (simp add: ledger_def counters_def)

lemma publish_sector_counters:
  "publish_sector q lba s x r = (x', r') \<Longrightarrow>
   counters r' = (case counters r of (a, b, c, h) \<Rightarrow>
     (a + read_count [x], b + suspect_count [x], c + recovered_count [x], h))"
  by (auto simp: publish_sector_def counters_def account_sector_def account_c2_def account_q_def Let_def sector_counts)

lemma publish_sectors_counters:
  "each_sector (publish_sector q lba) s0 xs r = (xs', r') \<Longrightarrow> xs' = xs \<and>
   counters r' = (case counters r of (a, b, c, h) \<Rightarrow>
     (a + read_count xs, b + suspect_count xs, c + recovered_count xs, h))"
proof (induction xs arbitrary: s0 r xs')
  case (Cons x xs)
  obtain y r1 where y: "publish_sector q lba s0 x r = (y, r1)" by fastforce
  obtain ys r2 where ys: "each_sector (publish_sector q lba) (Suc s0) xs r1 = (ys, r2)" by fastforce
  have e: "r' = r2" "xs' = y # ys" using Cons.prems by (simp_all add: y ys)
  moreover have "y = x" using y by (simp add: publish_sector_def Let_def)
  ultimately show ?case
    using Cons.IH [OF ys [folded e(1)]] publish_sector_counters [OF y]
    by (auto simp: sector_counts split: prod.splits)
qed (auto simp: sector_counts split: prod.split)

text \<open>A map written at \<open>off\<close> with the bytes \<open>f 0, f 1, \<dots>\<close> of the sectors of one chunk.\<close>

definition written_at :: "nat \<Rightarrow> nat list \<Rightarrow> nat list \<Rightarrow> nat list \<Rightarrow> bool" where
  "written_at off bs m m' \<longleftrightarrow> length m' = length m \<and> (\<forall>j < off. m' ! j = m ! j)
     \<and> (\<forall>i < length bs. off + i < length m \<longrightarrow> m' ! (off + i) = bs ! i)"

lemma written_at_Cons:
  assumes "written_at (Suc off) bs (m[off := b]) m'"
  shows "written_at off (b # bs) m m'"
  unfolding written_at_def
proof (intro conjI allI impI)
  show "length m' = length m" using assms by (simp add: written_at_def)
  show "m' ! j = m ! j" if "j < off" for j
    using assms that by (simp add: written_at_def)
  show "m' ! (off + i) = (b # bs) ! i" if "i < length (b # bs)" "off + i < length m" for i
    using assms that by (cases i) (auto simp: written_at_def)
qed

definition subq_state :: "accudisc_read_req \<Rightarrow> u32 \<Rightarrow> sector_state \<Rightarrow> nat" where
  "subq_state q cur x = (if ss_hard x then SUBQ_NO_AUDIO else adsc_subq_byte (sector_q q (ss_data x)) cur)"

lemma sector_index:
  assumes "off + s < 2 ^ 32" and "lba = rq_lba q + word_of_nat off"
  shows "unat (lba + word_of_nat s - rq_lba q) = off + s"
proof -
  have "lba + word_of_nat s - rq_lba q = (word_of_nat (off + s) :: u32)" using assms(2) by simp
  then show ?thesis using assms(1) by (simp only: unat_of_nat) (simp add: take_bit_nat_eq_self_iff)
qed

definition maps_written :: "accudisc_read_req \<Rightarrow> nat \<Rightarrow> sector_state list \<Rightarrow> 'k rd \<Rightarrow> 'k rd \<Rightarrow> bool" where
  "maps_written q off xs r r' \<longleftrightarrow>
     (if rq_has_status_map q then written_at off (map status_byte xs) (rd_status_map r) (rd_status_map r')
      else rd_status_map r' = rd_status_map r)
     \<and> (if rq_has_subq_map q
         then written_at off (map (\<lambda>i. subq_state q (rq_lba q + word_of_nat (off + i)) (xs ! i)) [0..<length xs])
                (rd_subq_map r) (rd_subq_map r')
         else rd_subq_map r' = rd_subq_map r)"

lemma publish_sectors_maps:
  assumes "each_sector (publish_sector q lba) s0 xs r = (xs', r')" and "req_valid q"
    and "lba = rq_lba q + word_of_nat off" and "off + s0 + length xs \<le> 2 ^ 32"
  shows "maps_written q (off + s0) xs r r'"
  using assms(1,4)
proof (induction xs arbitrary: s0 r xs')
  case Nil
  then show ?case by (simp add: maps_written_def written_at_def)
next
  case (Cons x xs)
  obtain y r1 where y: "publish_sector q lba s0 x r = (y, r1)" by fastforce
  obtain ys r2 where ys: "each_sector (publish_sector q lba) (Suc s0) xs r1 = (ys, r2)" by fastforce
  have e: "r' = r2" using Cons.prems y ys by simp
  have b: "off + Suc s0 + length xs \<le> 2 ^ 32" using Cons.prems by simp
  have i: "unat (lba + word_of_nat s0 - rq_lba q) = off + s0" using sector_index [OF _ assms(3)] b by simp
  have cur: "lba + word_of_nat s0 = rq_lba q + word_of_nat (off + s0)" using assms(3) by simp
  have raw: "rq_has_subq_map q \<Longrightarrow> rd_sub_len q = SUB_RAW" using assms(2) by (auto simp: req_valid_def rd_sub_len_def)
  have st: "rd_status_map r1 = (if rq_has_status_map q then (rd_status_map r)[off + s0 := status_byte x] else rd_status_map r)"
    "rd_subq_map r1 = (if rq_has_subq_map q
       then (rd_subq_map r)[off + s0 := subq_state q (rq_lba q + word_of_nat (off + s0)) x] else rd_subq_map r)"
    using y raw unfolding publish_sector_def Let_def i unfolding cur by (auto simp: subq_state_def)
  have l: "map (\<lambda>i. subq_state q (rq_lba q + word_of_nat (off + s0 + i)) ((x # xs) ! i)) [0..<length (x # xs)] =
      subq_state q (rq_lba q + word_of_nat (off + s0)) x
      # map (\<lambda>i. subq_state q (rq_lba q + word_of_nat (off + Suc s0 + i)) (xs ! i)) [0..<length xs]"
    unfolding length_Cons map_upt_Suc by simp
  have "maps_written q (off + Suc s0) xs r1 r'" using Cons.IH [OF ys [folded e] b] .
  then show ?case
    using written_at_Cons [of "off + s0"] unfolding maps_written_def l st by (simp split: if_splits)
qed

end
