(* ===== verification/EngineResults.thy ===== *)
theory EngineResults
  imports EngineAccount
begin

text \<open>
  The results about a whole run of \<open>accudisc_read_cdda\<close>. The caller's sink, whatever it does, is
  run with a log of the chunks it was handed; \<open>delivered\<close> is what they hold, end to end.
\<close>

section \<open>What was handed to the sink\<close>

definition recording :: "'s sink \<Rightarrow> ('s \<times> accudisc_chunk list) sink" where
  "recording f c sl = (let (refused, s) = f c (fst sl) in (refused, s, snd sl @ [c]))"

definition delivered :: "accudisc_chunk list \<Rightarrow> u8 list list" where
  "delivered cs = concat (map ch_data cs)"

fun contiguous :: "u32 \<Rightarrow> accudisc_chunk list \<Rightarrow> bool" where
  "contiguous a [] \<longleftrightarrow> True"
| "contiguous a (c # cs) \<longleftrightarrow> ch_lba c = a \<and> contiguous (a + word_of_nat (length (ch_data c))) cs"

lemma contiguous_snoc:
  "contiguous a (cs @ [c]) \<longleftrightarrow> contiguous a cs \<and> ch_lba c = a + word_of_nat (length (delivered cs))"
  by (induction cs arbitrary: a) (auto simp: delivered_def algebra_simps)

lemma delivered_snoc: "delivered (cs @ [c]) = delivered cs @ ch_data c"
  by (simp add: delivered_def)

lemma chunk_ok_append:
  "chunk_ok K q a (xs @ ys) \<longleftrightarrow> chunk_ok K q a xs \<and> chunk_ok K q (a + word_of_nat (length xs)) ys"
proof -
  have split: "(\<forall>i < m + n. P i) \<longleftrightarrow> (\<forall>i < m. P i) \<and> (\<forall>i < n. P (m + i))" for P and m n :: nat
  proof (intro iffI conjI)
    assume a: "(\<forall>i < m. P i) \<and> (\<forall>i < n. P (m + i))"
    show "\<forall>i < m + n. P i"
    proof (intro allI impI)
      fix i assume "i < m + n"
      then show "P i" using a by (cases "i < m") (auto dest: spec [of _ "i - m"])
    qed
  qed auto
  show ?thesis unfolding chunk_ok_def length_append split by (simp add: nth_append add.assoc)
qed

lemma maps_written_append:
  assumes "maps_written q 0 done r0 r" and "maps_written q (length done) xs r r'"
  shows "maps_written q 0 (done @ xs) r0 r'"
proof -
  have w: "written_at 0 (bs @ cs) m m''" if "written_at 0 bs m m'" "written_at (length bs) cs m' m''" for bs cs m m' m''
    unfolding written_at_def
  proof (intro conjI allI impI)
    fix i assume i: "i < length (bs @ cs)" "0 + i < length m"
    show "m'' ! (0 + i) = (bs @ cs) ! i"
    proof (cases "i < length bs")
      case False
      with that(2) i have "length bs + (i - length bs) < length m' \<longrightarrow> m'' ! i = cs ! (i - length bs)"
        unfolding written_at_def by (metis add_diff_inverse_nat length_append less_diff_conv2 not_less add.commute)
      then show ?thesis using that(1) i False by (simp add: written_at_def nth_append)
    qed (use that i in \<open>auto simp: written_at_def nth_append\<close>)
  qed (use that in \<open>auto simp: written_at_def\<close>)
  let ?f = "\<lambda>xs off i. subq_state q (rq_lba q + word_of_nat (off + i)) (xs ! i)"
  have l: "map (?f (done @ xs) 0) [0..<length (done @ xs)]
      = map (?f done 0) [0..<length done] @ map (?f xs (length done)) [0..<length xs]"
    by (rule nth_equalityI) (auto simp: nth_append)
  show ?thesis
    using assms w [of "map status_byte done"] w [of "map (?f done 0) [0..<length done]"]
    unfolding maps_written_def l by (simp split: if_splits)
qed

section \<open>The invariant of the loop\<close>

definition published :: "'k kernel \<Rightarrow> accudisc_read_req \<Rightarrow> 'k rd \<Rightarrow> accudisc_chunk list \<Rightarrow> 'k rd
    \<Rightarrow> sector_state list \<Rightarrow> nat \<Rightarrow> bool" where
  "published K q r0 cs r done h \<longleftrightarrow>
     chunk_ok K q (rq_lba q) done \<and> delivered cs = map ss_data done \<and> contiguous (rq_lba q) cs
     \<and> maps_written q 0 done r0 r
     \<and> counters r = (read_count done, suspect_count done, recovered_count done, h)"

lemma maps_written_same:
  "ledger r' = charge n (ledger r) \<Longrightarrow> maps_written q off xs r0 r' \<longleftrightarrow> maps_written q off xs r0 r"
  unfolding maps_written_def ledger_def charge_def by (simp only: prod.case prod.inject)

lemma published_charge:
  assumes "published K q r0 cs r done h" and "ledger r' = charge n (ledger r)"
  shows "published K q r0 cs r' done (h + n)"
  using assms maps_written_same [OF assms(2)] by (simp add: published_def counters_def ledger_def charge_def)

lemma publish_published:
  assumes "publish q (Some (recording f)) p (r, s, cs) = (refused, r', s', cs')" and "req_valid q"
    and "published K q r0 cs r done h" and "chunk_ok K q (ck_lba p) (ck_secs p)"
    and "ck_lba p = rq_lba q + word_of_nat (length done)" and "length done + length (ck_secs p) \<le> 2 ^ 32"
  shows "published K q r0 cs' r' (done @ ck_secs p) h"
proof -
  obtain xs r1 where x: "each_sector (publish_sector q (ck_lba p)) 0 (ck_secs p) r = (xs, r1)" by fastforce
  have e: "r' = r1" "cs' = cs @ [\<lparr> ch_lba = ck_lba p, ch_data = map ss_data (ck_secs p) \<rparr>]"
    using assms(1) x by (auto simp: publish_def recording_def split: prod.splits)
  have m: "maps_written q (length done) (ck_secs p) r r1"
    using publish_sectors_maps [OF x assms(2,5)] assms(6) by simp
  have "length (delivered cs) = length done" using assms(3) by (simp add: published_def)
  then show ?thesis
    using assms(3-5) m publish_sectors_counters [OF x] maps_written_append [OF _ m]
    unfolding published_def e
    by (auto simp: chunk_ok_append delivered_snoc contiguous_snoc sector_counts)
qed

definition held :: "('k, 's) loop_state \<Rightarrow> sector_state list" where
  "held l = (case ls_pend l of None \<Rightarrow> [] | Some p \<Rightarrow> ck_secs p)"

definition loop_inv :: "'k kernel \<Rightarrow> accudisc_read_req \<Rightarrow> 'k rd \<Rightarrow> sector_state list
    \<Rightarrow> ('k, 's \<times> accudisc_chunk list) loop_state \<Rightarrow> bool" where
  "loop_inv K q r0 done l \<longleftrightarrow>
     published K q r0 (snd (ls_sink l)) (ls_r l) done (hard_count (done @ held l))
     \<and> chunk_ok K q (rq_lba q) (done @ held l)
     \<and> length (done @ held l) + ls_remaining l = rq_count q
     \<and> ls_lba l = rq_lba q + word_of_nat (length (done @ held l))
     \<and> (case ls_pend l of None \<Rightarrow> True | Some p \<Rightarrow> ck_lba p = rq_lba q + word_of_nat (length done))"

lemma loop_inv_round:
  assumes "resid_honest K" and "req_valid q" and "rq_count q < 2 ^ 32" and "loop_inv K q r0 done l"
    and "read_round K q (Some (recording f)) cancelled l = l'"
  shows "case l' of
      Inl l \<Rightarrow> \<exists>done h. published K q r0 (snd (ls_sink l)) (ls_r l) done h \<and> length done \<le> rq_count q
    | Inr l \<Rightarrow> \<exists>done. loop_inv K q r0 done l"
proof -
  define n where "n = min (ls_remaining l) (chunk_of q)"
  define ext where "ext = (if overlap_of q > 0 \<and> ls_remaining l > n then min (ls_remaining l - n) (overlap_of q) else 0)"
  have inv: "published K q r0 (snd (ls_sink l)) (ls_r l) done (hard_count (done @ held l))"
    "chunk_ok K q (rq_lba q) (done @ held l)" "length (done @ held l) + ls_remaining l = rq_count q"
    "ls_lba l = rq_lba q + word_of_nat (length (done @ held l))"
    "\<And>p. ls_pend l = Some p \<Longrightarrow> ck_lba p = rq_lba q + word_of_nat (length done)"
    using assms(4) by (auto simp: loop_inv_def)
  show ?thesis
  proof (cases cancelled)
    case True
    then have "l' = Inl l" using assms(5) by (simp add: read_round_def)
    then show ?thesis using inv(1,3) by auto
  next
    case False
    obtain cur new_ext bad hit r1 where c: "read_chunk K q (ls_lba l) n ext (ls_prev_ext l) (ls_r l) = (cur, new_ext, bad, hit, r1)"
      by (metis prod_cases5)
    have cur: "ck_lba cur = ls_lba l" "length (ck_secs cur) = n" "chunk_ok K q (ls_lba l) (ck_secs cur)"
      using read_chunk_ok [OF assms(1,2) c] by auto
    define trig where "trig = (bad \<or> rq_c2_witness q \<and> hit)"
    obtain pend r2 where p: "(case ls_pend l of None \<Rightarrow> (None, r1)
        | Some p \<Rightarrow> let (p, r) = witness_unless K q trig p r1 in (Some p, r)) = (pend, r2)" by fastforce
    obtain cur2 r3 where w: "witness_unless K q (trig \<or> ls_witness_next l) cur r2 = (cur2, r3)" by fastforce
    obtain refused r4 s cs where u: "(case pend of None \<Rightarrow> (False, r3, ls_sink l)
        | Some p \<Rightarrow> publish q (Some (recording f)) p (r3, ls_sink l)) = (refused, r4, s, cs)" by (metis prod_cases4)
    have res: "l' = (if refused then Inl (l\<lparr> ls_r := r4, ls_sink := (s, cs), ls_pend := None \<rparr>)
        else Inr \<lparr> ls_r = r4, ls_sink = (s, cs), ls_pend = Some cur2, ls_prev_ext = new_ext,
                   ls_witness_next = (rq_c2_witness q \<and> hit), ls_lba = ls_lba l + word_of_nat n,
                   ls_remaining = ls_remaining l - n \<rparr>)"
      using assms(5) False unfolding read_round_def Let_def n_def [symmetric] ext_def [symmetric] c prod.case
        disj_assoc [symmetric] trig_def [symmetric] p [unfolded Let_def] w u by simp
    have pend: "case pend of None \<Rightarrow> held l = [] \<and> r2 = r1 \<and> ls_pend l = None
      | Some p \<Rightarrow> ck_lba p = rq_lba q + word_of_nat (length done) \<and> length (ck_secs p) = length (held l)
          \<and> chunk_ok K q (ck_lba p) (ck_secs p) \<and> hard_count (ck_secs p) = hard_count (held l) \<and> ledger r2 = ledger r1"
    proof (cases "ls_pend l")
      case None
      then show ?thesis using p by (auto simp: held_def)
    next
      case (Some p0)
      obtain p1 r5 where x: "witness_unless K q trig p0 r1 = (p1, r5)" by fastforce
      have "chunk_ok K q (ck_lba p0) (ck_secs p0)"
        using inv(2) inv(5) [OF Some] Some by (simp add: held_def chunk_ok_append)
      from witness_unless_ok [OF assms(1,2) x this] show ?thesis
        using p x Some inv(5) [OF Some] by (auto simp: held_def)
    qed
    have led: "ledger r2 = ledger r1" using pend by (cases pend) auto
    have cur2: "ck_lba cur2 = ls_lba l" "length (ck_secs cur2) = n" "chunk_ok K q (ls_lba l) (ck_secs cur2)"
      "hard_count (ck_secs cur2) = hard_count (ck_secs cur)" "ledger r3 = ledger r2"
      using witness_unless_ok [OF assms(1,2) w] cur by auto
    define h where "h = hard_count (done @ held l) + hard_count (ck_secs cur2)"
    have p3: "published K q r0 (snd (ls_sink l)) r3 done h"
      unfolding h_def cur2(4) by (rule published_charge [OF inv(1)])
        (simp add: cur2(5) led read_chunk_keeps [OF assms(1,2) c])
    define done2 where "done2 = done @ (case pend of None \<Rightarrow> [] | Some p \<Rightarrow> ck_secs p)"
    have len2: "length done2 = length (done @ held l)" and hard2: "hard_count done2 = hard_count (done @ held l)"
      using pend by (auto simp: done2_def hard_count_def split: option.splits)
    have p4: "published K q r0 cs r4 done2 h"
    proof (cases pend)
      case None
      then show ?thesis using u p3 by (auto simp: done2_def)
    next
      case (Some p1)
      then have x: "publish q (Some (recording f)) p1 (r3, fst (ls_sink l), snd (ls_sink l)) = (refused, r4, s, cs)"
        using u by simp
      show ?thesis
        using publish_published [OF x assms(2) p3] pend Some inv(3) assms(3) by (auto simp: done2_def)
    qed
    have "n \<le> ls_remaining l" by (simp add: n_def)
    then have "\<not> refused \<Longrightarrow> loop_inv K q r0 done2 \<lparr> ls_r = r4, ls_sink = (s, cs), ls_pend = Some cur2, ls_prev_ext = new_ext,
                   ls_witness_next = (rq_c2_witness q \<and> hit), ls_lba = ls_lba l + word_of_nat n,
                   ls_remaining = ls_remaining l - n \<rparr>"
      using p4 cur2 inv(3,4) len2 hard2
      by (simp add: loop_inv_def held_def chunk_ok_append h_def hard_count_def published_def add.assoc)
    then show ?thesis using res p4 len2 inv(3) by (cases refused) auto
  qed
qed

lemma loop_inv_run:
  assumes "resid_honest K" and "req_valid q" and "rq_count q < 2 ^ 32" and "loop_inv K q r0 done l"
    and "read_loop K q (Some (recording f)) cancel i l = (rc, l')"
  shows "\<exists>done h. published K q r0 (snd (ls_sink l')) (ls_r l') done h \<and> length done \<le> rq_count q
    \<and> (rc = Inr () \<longrightarrow> length done = rq_count q \<and> h = hard_count done)"
  using assms(4,5)
proof (induction "ls_remaining l" arbitrary: i l "done" rule: less_induct)
  case less
  have c: "chunk_of q \<noteq> 0" using chunk_of_pos(1) [OF assms(2)] by simp
  have inv: "published K q r0 (snd (ls_sink l)) (ls_r l) done (hard_count (done @ held l))"
    "chunk_ok K q (rq_lba q) (done @ held l)" "length (done @ held l) + ls_remaining l = rq_count q"
    "\<And>p. ls_pend l = Some p \<Longrightarrow> ck_lba p = rq_lba q + word_of_nat (length done)"
    using less.prems(1) by (auto simp: loop_inv_def)
  show ?case
  proof (cases "ls_remaining l = 0")
    case True
    obtain refused r s cs where u: "(case ls_pend l of None \<Rightarrow> (False, ls_r l, ls_sink l)
        | Some p \<Rightarrow> publish q (Some (recording f)) p (ls_r l, ls_sink l)) = (refused, r, s, cs)" by (metis prod_cases4)
    have e: "snd (ls_sink l') = cs \<and> ledger (ls_r l') = ledger r"
      using less.prems(2) True c u unfolding read_loop.simps [of K q _ cancel i l] by (auto split: if_splits)
    have "published K q r0 cs r (done @ held l) (hard_count (done @ held l))"
    proof (cases "ls_pend l")
      case None
      then show ?thesis using u inv(1) by (auto simp: held_def)
    next
      case (Some p)
      then have x: "publish q (Some (recording f)) p (ls_r l, fst (ls_sink l), snd (ls_sink l)) = (refused, r, s, cs)"
        using u by simp
      show ?thesis
        using publish_published [OF x assms(2) inv(1)] inv(2,3) inv(4) [OF Some] Some assms(3)
        by (simp add: held_def chunk_ok_append)
    qed
    then have "published K q r0 cs (ls_r l') (done @ held l) (hard_count (done @ held l) + 0)"
      using e by (intro published_charge) auto
    then show ?thesis using e inv(3) True by (intro exI [of _ "done @ held l"]) auto
  next
    case False
    show ?thesis
    proof (cases "read_round K q (Some (recording f)) (cancel i) l")
      case (Inl l1)
      then have "rc = Inl ERR_CANCELLED" "l' = l1"
        using less.prems(2) False c unfolding read_loop.simps [of K q _ cancel i l] by auto
      then show ?thesis using loop_inv_round [OF assms(1-3) less.prems(1) Inl] by auto
    next
      case (Inr l1)
      have "ls_remaining l1 < ls_remaining l"
        using Inr False c by (auto simp: read_round_def Let_def split: prod.splits if_splits option.splits)
      moreover obtain done1 where "loop_inv K q r0 done1 l1"
        using loop_inv_round [OF assms(1-3) less.prems(1) Inr] by auto
      moreover have "read_loop K q (Some (recording f)) cancel (Suc i) l1 = (rc, l')"
        using less.prems(2) False c Inr unfolding read_loop.simps [of K q _ cancel i l] by auto
      ultimately show ?thesis using less.hyps by blast
    qed
  qed
qed

section \<open>The run\<close>

lemma ledger_apply_pass_speed: "ledger (apply_pass_speed K q r) = ledger r"
  by (auto simp: apply_pass_speed_def ledger_def Let_def split: prod.split sum.split)

lemma read_cdda_published:
  assumes "resid_honest K" and "rq_count q < 2 ^ 32"
    and "accudisc_read_cdda K q (Some (recording f)) cancel sm qm (s, []) dev = (rc, r, s', cs)"
  obtains r0 "done" h where "published K q r0 cs r done h" and "length done \<le> rq_count q"
    and "rc = Inr () \<Longrightarrow> length done = rq_count q \<and> h = hard_count done"
    and "rd_status_map r0 = sm" and "rd_subq_map r0 = qm" and "rc = Inr () \<Longrightarrow> req_valid q"
proof -
  define r0 where "r0 = \<lparr> rd_dev = dev, rd_speed_dirty = False, rd_cur_speed = -1, rd_st = stats_zero,
                rd_status_map = sm, rd_subq_map = qm \<rparr>"
  have z: "counters r0 = (0, 0, 0, 0)" by (simp add: r0_def counters_def stats_zero_def)
  have maps: "rd_status_map r0 = sm" "rd_subq_map r0 = qm" by (simp_all add: r0_def)
  have start: "published K q r0 [] r1 [] 0" if "ledger r1 = ledger r0" for r1
  proof -
    have "maps_written q 0 [] r0 r1 \<longleftrightarrow> maps_written q 0 [] r0 r0"
      using that by (intro maps_written_same [of r1 0 r0]) simp
    then show ?thesis using ledger_counters [OF that] z
      by (auto simp: published_def chunk_ok_def delivered_def maps_written_def written_at_def sector_counts)
  qed
  show thesis
  proof (cases "req_valid q")
    case False
    then have "rc = Inl ERR_INVAL" "r = r0" "cs = []" using assms(3) by (auto simp: accudisc_read_cdda_def r0_def)
    then show thesis using that [of r0 "[]" 0] start [of r0] maps by simp
  next
    case True
    define l where "l = \<lparr> ls_r = apply_pass_speed K q r0, ls_sink = (s, [] :: accudisc_chunk list), ls_pend = None, ls_prev_ext = [],
                ls_witness_next = False, ls_lba = rq_lba q, ls_remaining = rq_count q \<rparr>"
    obtain l' where x: "read_loop K q (Some (recording f)) cancel 0 l = (rc, l')"
      and e: "r = ls_r l'" "cs = snd (ls_sink l')"
      using assms(3) True unfolding accudisc_read_cdda_def r0_def [symmetric] Let_def l_def [symmetric]
      by (auto split: prod.splits)
    have "loop_inv K q r0 [] l"
      using start [OF ledger_apply_pass_speed] by (simp add: loop_inv_def held_def l_def chunk_ok_def hard_count_def)
    from loop_inv_run [OF assms(1) True assms(2) this x] e maps True that show thesis by blast
  qed
qed


lemma status_byte_state:
  "map_state (status_byte x) =
     (if ss_hard x then MAP_HARD else if ss_susp x then MAP_SUSPECT else if ss_recov x then MAP_RECOVERED
      else if ss_bits x \<noteq> 0 then MAP_C2 else MAP_OK)"
proof -
  have low: "m < 16 \<Longrightarrow> map_state (m OR push_bit 4 n) = m" for m n :: nat
  proof -
    assume "m < 16"
    have "map_state b = take_bit 4 b" for b
      by (simp add: map_state_def take_bit_eq_mask mask_eq_exp_minus_1)
    then show "map_state (m OR push_bit 4 n) = m"
      using \<open>m < 16\<close> by (simp add: take_bit_push_bit take_bit_nat_eq_self_iff)
  qed
  show ?thesis
    by (simp add: status_byte_def low adsc_map_suspect_byte_def adsc_map_recovered_byte_def adsc_map_c2_byte_def map_codes)
       (simp add: map_state_def)
qed


text \<open>
  C11: When a read succeeds, its statistics and its status map agree: the sectors read and the sectors
  failed make up the request, and the counters of failed, suspect and recovered sectors are the
  numbers of sectors the map marks as failed, suspect and recovered.
\<close>

theorem statistics_agree:
  assumes "resid_honest K" and "rq_count q < 2 ^ 32" and "rq_has_status_map q" and "length sm = rq_count q"
    and "accudisc_read_cdda K q (Some (recording f)) cancel sm qm (s, []) dev = (Inr (), r, s', cs)"
  shows "st_sectors_read (rd_st r) + st_hard_errors (rd_st r) = rq_count q
    \<and> length (rd_status_map r) = rq_count q
    \<and> st_hard_errors (rd_st r) = length (filter (\<lambda>b. map_state b = MAP_HARD) (rd_status_map r))
    \<and> st_sectors_suspect (rd_st r) = length (filter (\<lambda>b. map_state b = MAP_SUSPECT) (rd_status_map r))
    \<and> st_sectors_recovered (rd_st r) = length (filter (\<lambda>b. map_state b = MAP_RECOVERED) (rd_status_map r))"
proof -
  obtain r0 "done" where p: "published K q r0 cs r done (hard_count done)" "length done = rq_count q" "rd_status_map r0 = sm"
    using read_cdda_published [OF assms(1,2,5)] by metis
  have m: "rd_status_map r = map status_byte done"
    using p assms(3,4) by (intro nth_equalityI) (auto simp: published_def maps_written_def written_at_def)
  have f: "length (filter (\<lambda>b. map_state b = c) (rd_status_map r)) = length (filter (\<lambda>x. map_state (status_byte x) = c) done)" for c
    unfolding m by (simp add: filter_map o_def)
  have "read_count done + hard_count done = length done"
    using sum_length_filter_compl [of ss_hard "done"] by (simp add: sector_counts)
  moreover have "counters r = (read_count done, suspect_count done, recovered_count done, hard_count done)"
    using p(1) by (simp add: published_def)
  moreover have "(map_state (status_byte x) = MAP_HARD) = ss_hard x"
    "(map_state (status_byte x) = MAP_SUSPECT) = (\<not> ss_hard x \<and> ss_susp x)"
    "(map_state (status_byte x) = MAP_RECOVERED) = (\<not> ss_hard x \<and> \<not> ss_susp x \<and> ss_recov x)" for x
    unfolding status_byte_state by (auto simp: map_codes)
  ultimately show ?thesis
    using p(2) unfolding f by (simp add: counters_def sector_counts) (simp add: m)
qed

section \<open>A run evaluated\<close>

text \<open>One audio sector, no companions and no strategy, from the drive of sevens.\<close>

definition one_sector :: accudisc_read_req where
  "one_sector = \<lparr> rq_lba = 100, rq_count = 1, rq_c2 = 0, rq_sub = 0, rq_any_type = False, rq_retries = 0,
     rq_chunk_sectors = 0, rq_speed_x = 0, rq_c2_retries = 0, rq_verify_passes = 0, rq_overlap_sectors = 0,
     rq_speed_ladder = [], rq_c2_witness = False, rq_has_subq_map = False, rq_has_status_map = True \<rparr>"

definition accepting :: "unit sink" where "accepting c s = (False, s)"

lemma one_sector_fields:
  "rq_lba one_sector = 100" "rq_count one_sector = 1" "rq_c2 one_sector = 0" "rq_sub one_sector = 0"
  "rq_any_type one_sector = False" "rq_retries one_sector = 0" "rq_chunk_sectors one_sector = 0"
  "rq_speed_x one_sector = 0" "rq_c2_retries one_sector = 0" "rq_verify_passes one_sector = 0"
  "rq_overlap_sectors one_sector = 0" "rq_speed_ladder one_sector = []" "rq_c2_witness one_sector = False"
  "rq_has_subq_map one_sector = False" "rq_has_status_map one_sector = True"
  by (simp_all add: one_sector_def)

lemma one_sector_lengths:
  "sector_len one_sector = 2352" "rd_sub_len one_sector = 0" "rd_c2_len one_sector = 0"
proof -
  show l: "sector_len one_sector = 2352" by (simp add: sector_len_def one_sector_fields adsc_read_cd_sector_len_def)
  show s: "rd_sub_len one_sector = 0" by (simp add: rd_sub_len_def one_sector_fields)
  show "rd_c2_len one_sector = 0" by (simp add: rd_c2_len_def l s)
qed

lemma one_sector_chunks:
  "chunk_of one_sector = 27" "overlap_of one_sector = 0" "passes one_sector = 1" "req_valid one_sector"
  by (simp_all add: max_chunk_def overlap_of_def chunk_of_def passes_def req_valid_def max_xfer_def chunk_max_def
      overlap_max_def one_sector_fields one_sector_lengths Let_def)

lemma sevens_read:
  "rd_read sevens one_sector 100 1 r =
     (Inr (), [replicate 2352 7], r\<lparr> rd_dev := (rd_dev r)\<lparr> dev_last_sense := sense_zero \<rparr> \<rparr>)"
  by (simp add: rd_read_def adsc_mmc_read_cd_def read_cd_transfer_def transfer_len_def read_cd_once_def sevens_exec
      adsc_read_cd_sector_len_def adsc_exec_check_short_def one_sector_fields one_sector_lengths sector_type_def
      fresh_bytes_def sectors_of_def slice_def Let_def)

lemma one_sector_run:
  "accudisc_read_cdda sevens one_sector (Some (recording accepting)) (\<lambda>_. False) [0] [] ((), []) (accudisc_open ())
   = (Inr (), \<lparr> rd_dev = (accudisc_open ())\<lparr> dev_last_sense := sense_zero \<rparr>, rd_speed_dirty = False, rd_cur_speed = -1,
        rd_st = stats_zero\<lparr> st_sectors_read := 1 \<rparr>, rd_status_map = [MAP_OK], rd_subq_map = [] \<rparr>,
      (), [\<lparr> ch_lba = 100, ch_data = [replicate 2352 7] \<rparr>])"
  by (simp add: accudisc_read_cdda_def apply_pass_speed_def read_loop.simps read_round_def read_chunk_def
      read_span_def sevens_read [simplified] one_sector_fields one_sector_lengths one_sector_chunks ladder_restore_def
      qpos_check_def seam_check_def seam_sector_def c2_pass_def count_bits_def fresh_sector_def witness_unless_def
      publish_def publish_sector_def account_sector_def account_c2_def account_q_def status_byte_def recording_def
      accepting_def stats_zero_def Let_def)



theorem statistics_agree_witness:
  "st_sectors_read (stats_zero\<lparr> st_sectors_read := 1 \<rparr>) + st_hard_errors (stats_zero\<lparr> st_sectors_read := 1 \<rparr>) = 1
   \<and> st_hard_errors (stats_zero\<lparr> st_sectors_read := 1 \<rparr>) = length (filter (\<lambda>b. map_state b = MAP_HARD) [MAP_OK])"
proof -
  have "rq_count one_sector < 2 ^ 32" "rq_has_status_map one_sector" "length [0 :: nat] = rq_count one_sector"
    by (simp_all add: one_sector_fields)
  from statistics_agree [OF sevens_honest this one_sector_run]
  show ?thesis by (simp add: one_sector_fields map_codes map_state_def stats_zero_def)
qed

end
