(* ===== verification/Ring.thy ===== *)
theory Ring
  imports Prelude
begin

text \<open>
  The ring arithmetic that the read buffer (\<^verbatim>\<open>src/read/accubuf.c\<close>) and the write buffer
  (\<^verbatim>\<open>src/write/fifo.c\<close>) share: an array of slots, a head, a tail and a count, each a
  32-bit unsigned integer that wraps. The locale \<open>bounded_queue\<close> is what the clients rely on -
  a bounded first-in-first-out queue whose oldest entry can be read in place until it is
  dropped - and the ring is an interpretation of it.
\<close>

section \<open>The contract\<close>

locale bounded_queue =
  fixes ok :: "'q \<Rightarrow> bool"
    and items :: "'q \<Rightarrow> 'a list"
    and cap :: "'q \<Rightarrow> nat"
    and put :: "'a \<Rightarrow> 'q \<Rightarrow> 'q"
    and front :: "'q \<Rightarrow> 'a"
    and drop_front :: "'q \<Rightarrow> 'q"
  assumes put_items: "ok q \<Longrightarrow> length (items q) < cap q \<Longrightarrow> items (put x q) = items q @ [x]"
    and put_ok: "ok q \<Longrightarrow> length (items q) < cap q \<Longrightarrow> ok (put x q) \<and> cap (put x q) = cap q"
    and front_items: "ok q \<Longrightarrow> items q \<noteq> [] \<Longrightarrow> front q = hd (items q)"
    and drop_items: "ok q \<Longrightarrow> items q \<noteq> [] \<Longrightarrow> items (drop_front q) = tl (items q)"
    and drop_ok: "ok q \<Longrightarrow> items q \<noteq> [] \<Longrightarrow> ok (drop_front q) \<and> cap (drop_front q) = cap q"
begin

text \<open>What a reader of the oldest entry needs: it stays in place while the producer fills others.\<close>

lemma front_stable:
  assumes "ok q" and "length (items q) < cap q" and "items q \<noteq> []"
  shows "front (put x q) = front q"
  using front_items [of "put x q"] front_items [of q] put_ok [of q x] put_items [of q x] assms by simp

lemma items_cases: "ok q \<Longrightarrow> items q \<noteq> [] \<Longrightarrow> items q = front q # items (drop_front q)"
  by (simp add: front_items drop_items)

lemma put_drop_items:
  "ok q \<Longrightarrow> length (items q) < cap q \<Longrightarrow> items q \<noteq> []
   \<Longrightarrow> items (drop_front (put x q)) = items (put x (drop_front q))"
  using drop_ok [of q] by (simp add: put_items put_ok drop_items Suc_lessD less_diff_conv)

end

section \<open>The ring\<close>

record 'a ring =
  rg_slot :: "'a list"
  rg_nslots :: u32
  rg_head :: u32
  rg_tail :: u32
  rg_count :: u32

definition ring_put :: "'a \<Rightarrow> ('a, 'z) ring_scheme \<Rightarrow> ('a, 'z) ring_scheme" where
  "ring_put x r = r\<lparr>rg_slot := (rg_slot r)[unat (rg_head r) := x],
     rg_head := (rg_head r + 1) mod rg_nslots r, rg_count := rg_count r + 1\<rparr>"

definition ring_front :: "('a, 'z) ring_scheme \<Rightarrow> 'a" where
  "ring_front r = rg_slot r ! unat (rg_tail r)"

definition ring_drop :: "('a, 'z) ring_scheme \<Rightarrow> ('a, 'z) ring_scheme" where
  "ring_drop r = r\<lparr>rg_tail := (rg_tail r + 1) mod rg_nslots r, rg_count := rg_count r - 1\<rparr>"

text \<open>The filled slots, oldest first.\<close>

definition ring_items :: "('a, 'z) ring_scheme \<Rightarrow> 'a list" where
  "ring_items r = map (\<lambda>i. rg_slot r ! ((unat (rg_tail r) + i) mod unat (rg_nslots r)))
     [0..<unat (rg_count r)]"

definition ring_cap :: "('a, 'z) ring_scheme \<Rightarrow> nat" where
  "ring_cap r = unat (rg_nslots r)"

definition ring_ok :: "('a, 'z) ring_scheme \<Rightarrow> bool" where
  "ring_ok r \<longleftrightarrow> 0 < unat (rg_nslots r) \<and> unat (rg_nslots r) \<le> 65536
     \<and> length (rg_slot r) = unat (rg_nslots r)
     \<and> unat (rg_tail r) < unat (rg_nslots r) \<and> unat (rg_count r) \<le> unat (rg_nslots r)
     \<and> unat (rg_head r) = (unat (rg_tail r) + unat (rg_count r)) mod unat (rg_nslots r)"

section \<open>The ring is a bounded queue\<close>

lemma length_ring_items [simp]: "length (ring_items r) = unat (rg_count r)"
  by (simp add: ring_items_def)

lemma ring_items_empty [simp]: "ring_items r = [] \<longleftrightarrow> rg_count r = 0"
  by (simp add: ring_items_def unat_eq_0)

lemma unat_succ_mod:
  assumes "unat (x :: u32) < unat n" and "unat n \<le> 65536"
  shows "unat ((x + 1) mod n) = (unat x + 1) mod unat n"
proof -
  have "unat (x + 1) = unat x + 1"
    using assms by (simp add: unat_word_ariths(1))
  then show ?thesis by (simp add: unat_mod_distrib)
qed

lemma unat_incr: "unat (x :: u32) \<le> 65536 \<Longrightarrow> unat (x + 1) = unat x + 1"
  by (simp add: unat_word_ariths(1))

lemma unat_decr: "(x :: u32) \<noteq> 0 \<Longrightarrow> unat (x - 1) = unat x - 1"
  by (simp add: unat_eq_0 unat_minus_one)

lemma ring_items_take: "ring_items r = take (unat (rg_count r)) (rotate (unat (rg_tail r)) (rg_slot r))"
  if "ring_ok r"
proof (rule nth_equalityI)
  show "length (ring_items r) = length (take (unat (rg_count r)) (rotate (unat (rg_tail r)) (rg_slot r)))"
    using that by (simp add: ring_ok_def)
  fix i assume "i < length (ring_items r)"
  then have i: "i < unat (rg_count r)" by simp
  then show "ring_items r ! i = take (unat (rg_count r)) (rotate (unat (rg_tail r)) (rg_slot r)) ! i"
    using that by (simp add: ring_items_def ring_ok_def nth_rotate)
qed

lemma ring_head_bound: "ring_ok r \<Longrightarrow> unat (rg_head r) < unat (rg_nslots r)"
  by (simp add: ring_ok_def)

lemma ring_put_ok:
  assumes "ring_ok r" and "unat (rg_count r) < unat (rg_nslots r)"
  shows "ring_ok (ring_put x r)"
proof -
  have "unat (rg_count r + 1) = unat (rg_count r) + 1"
    using assms by (intro unat_incr) (auto simp: ring_ok_def)
  moreover have "unat ((rg_head r + 1) mod rg_nslots r) = (unat (rg_head r) + 1) mod unat (rg_nslots r)"
    using assms ring_head_bound [OF assms(1)] by (intro unat_succ_mod) (auto simp: ring_ok_def)
  ultimately show ?thesis
    using assms by (simp add: ring_ok_def ring_put_def mod_simps)
qed

lemma ring_slots_distinct:
  fixes t :: nat
  assumes "i < c" "c < n" "t < n"
  shows "(t + i) mod n \<noteq> (t + c) mod n"
proof
  assume "(t + i) mod n = (t + c) mod n"
  then have "n dvd (t + c) - (t + i)" using assms by (metis add_le_cancel_left less_imp_le mod_eq_dvd_iff_nat)
  then show False using assms by (auto dest: dvd_imp_le)
qed

lemma ring_put_items:
  assumes "ring_ok r" and "unat (rg_count r) < unat (rg_nslots r)"
  shows "ring_items (ring_put x r) = ring_items r @ [x]"
proof -
  have c: "unat (rg_count r + 1) = Suc (unat (rg_count r))"
    using assms unat_incr [of "rg_count r"] by (auto simp: ring_ok_def)
  have h: "unat (rg_head r) = (unat (rg_tail r) + unat (rg_count r)) mod unat (rg_nslots r)"
    and b: "unat (rg_head r) < length (rg_slot r)" "unat (rg_tail r) < unat (rg_nslots r)"
    using assms ring_head_bound [OF assms(1)] by (auto simp: ring_ok_def)
  have "i < unat (rg_count r) \<Longrightarrow>
      (rg_slot r)[unat (rg_head r) := x] ! ((unat (rg_tail r) + i) mod unat (rg_nslots r))
      = rg_slot r ! ((unat (rg_tail r) + i) mod unat (rg_nslots r))" for i
    using ring_slots_distinct [of i "unat (rg_count r)" "unat (rg_nslots r)" "unat (rg_tail r)"] assms(2) b h
    by simp
  then show ?thesis
    using b h by (simp add: ring_items_def ring_put_def c)
qed

lemma ring_drop_ok:
  assumes "ring_ok r" and "rg_count r \<noteq> 0"
  shows "ring_ok (ring_drop r)"
proof -
  obtain k where k: "unat (rg_count r) = Suc k"
    using assms(2) by (metis gr0_implies_Suc unat_gt_0)
  have c: "unat (rg_count r - 1) = k"
    using unat_decr [OF assms(2)] k by simp
  have "unat ((rg_tail r + 1) mod rg_nslots r) = (unat (rg_tail r) + 1) mod unat (rg_nslots r)"
    using assms by (intro unat_succ_mod) (auto simp: ring_ok_def)
  then show ?thesis
    using assms c k by (simp add: ring_ok_def ring_drop_def mod_simps)
qed

lemma ring_drop_items:
  assumes "ring_ok r" and "rg_count r \<noteq> 0"
  shows "ring_items (ring_drop r) = tl (ring_items r)"
proof -
  have c: "unat (rg_count r - 1) = unat (rg_count r) - 1" using assms(2) unat_decr by blast
  have t: "unat ((rg_tail r + 1) mod rg_nslots r) = (unat (rg_tail r) + 1) mod unat (rg_nslots r)"
    using assms by (intro unat_succ_mod) (auto simp: ring_ok_def)
  show ?thesis
    by (rule nth_equalityI) (auto simp: ring_items_def ring_drop_def c t nth_tl mod_simps)
qed

lemma ring_front_items:
  assumes "ring_ok r" and "rg_count r \<noteq> 0"
  shows "ring_front r = hd (ring_items r)"
proof -
  have "0 < unat (rg_count r)" using assms(2) by (simp add: unat_gt_0)
  then show ?thesis
    using assms(1) by (simp add: ring_front_def ring_items_def ring_ok_def hd_map)
qed

interpretation ring: bounded_queue ring_ok ring_items ring_cap ring_put ring_front ring_drop
  by unfold_locales
    (auto simp: ring_cap_def ring_put_items ring_put_ok ring_drop_ok ring_drop_items ring_front_items,
     simp_all add: ring_put_def ring_drop_def)

lemma ring_put_fields [simp]:
  "rg_nslots (ring_put x r) = rg_nslots r" "rg_tail (ring_put x r) = rg_tail r"
  "rg_count (ring_put x r) = rg_count r + 1"
  by (simp_all add: ring_put_def)

lemma ring_room: "ring_ok r \<Longrightarrow> rg_count r \<noteq> rg_nslots r \<Longrightarrow> unat (rg_count r) < unat (rg_nslots r)"
  by (metis le_neq_implies_less ring_ok_def word_unat_eq_iff)

lemma incr_nonzero: "ring_ok r \<Longrightarrow> rg_count r + 1 \<noteq> 0"
  using unat_incr [of "rg_count r"] by (auto simp: ring_ok_def simp flip: unat_eq_0)

lemma ring_front_put:
  assumes "ring_ok r" and "rg_count r \<noteq> rg_nslots r" and "rg_count r \<noteq> 0"
  shows "ring_front (ring_put x r) = ring_front r"
  using ring.front_stable [of r x] assms ring_room by (auto simp: ring_cap_def)

lemma ring_items_zero [simp]: "rg_count r = 0 \<Longrightarrow> ring_items r = []"
  by simp

end
