(* ===== verification/Accubuf.thy ===== *)
theory Accubuf
  imports Ring
begin

text \<open>
  The chunk ring between the read engine and the caller's sink (\<^verbatim>\<open>src/read/accubuf.c\<close>): one
  producer (the engine) and one consumer thread. A step is one locked section or one call of
  the sink, so every interleaving of the two threads is a sequence of steps. A thread that
  waits on a condition is asleep until the other signals it. The sink reads its chunk from
  the slot itself, after the lock is released, as the code does.
\<close>

section \<open>State\<close>

text \<open>\<open>accudisc_chunk\<close> without its \<open>data\<close> pointer; the pointer of a queued chunk is its slot.\<close>

record chunk_meta =
  cm_lba :: u32
  cm_nsec :: u32
  cm_sector_len :: u32
  cm_audio_len :: u32
  cm_c2_len :: u32
  cm_sub_len :: u32

type_synonym buf_chunk = "chunk_meta \<times> u8 list"
type_synonym adsc_accubuf_slot = "chunk_meta \<times> u8 list"

definition chunk_need :: "chunk_meta \<Rightarrow> nat" where
  "chunk_need m = unat (cm_nsec m) * unat (cm_sector_len m)"

record adsc_accubuf = "adsc_accubuf_slot ring" +
  ab_slot_bytes :: nat
  ab_producer_done :: bool
  ab_sink_rc :: int
  ab_peak_count :: u32
  ab_stalls :: u64

definition MIN_SLOTS :: nat where "MIN_SLOTS = 2"
definition MAX_SLOTS :: nat where "MAX_SLOTS = 4096"

definition blank_meta :: chunk_meta where
  "blank_meta = \<lparr>cm_lba = 0, cm_nsec = 0, cm_sector_len = 0, cm_audio_len = 0, cm_c2_len = 0, cm_sub_len = 0\<rparr>"

definition accubuf_slots :: "nat \<Rightarrow> nat \<Rightarrow> nat" where
  "accubuf_slots bytes slot_bytes = min MAX_SLOTS (max MIN_SLOTS (bytes div slot_bytes))"

text \<open>\<open>alloc\<close> is whether the allocations, the mutex and condition variables and the thread were
  granted; a failure of any of them is the same answer.\<close>

definition adsc_accubuf_start :: "bool \<Rightarrow> nat \<Rightarrow> nat \<Rightarrow> adsc_accubuf res" where
  "adsc_accubuf_start alloc bytes slot_bytes =
     (if slot_bytes = 0 then Inl ERR_INVAL
      else if \<not> alloc then Inl ERR_NOMEM
      else let n = accubuf_slots bytes slot_bytes in
        Inr \<lparr>rg_slot = replicate n (blank_meta, replicate slot_bytes 0), rg_nslots = word_of_nat n,
             rg_head = 0, rg_tail = 0, rg_count = 0, ab_slot_bytes = slot_bytes,
             ab_producer_done = False, ab_sink_rc = 0, ab_peak_count = 0, ab_stalls = 0\<rparr>)"

section \<open>The locked sections\<close>

datatype push_result = Push_wait | Push_ret int

text \<open>The copy into the slot overwrites its first bytes and leaves the rest of an older chunk.\<close>

definition fill_slot :: "buf_chunk \<Rightarrow> adsc_accubuf_slot \<Rightarrow> adsc_accubuf_slot" where
  "fill_slot c old = (fst c, take (chunk_need (fst c)) (snd c) @ drop (chunk_need (fst c)) (snd old))"

definition adsc_accubuf_push :: "buf_chunk \<Rightarrow> adsc_accubuf \<Rightarrow> push_result \<times> adsc_accubuf" where
  "adsc_accubuf_push c ab =
     (if ab_slot_bytes ab < chunk_need (fst c) then (Push_ret (err_code ERR_INVAL), ab)
      else if rg_count ab = rg_nslots ab \<and> ab_sink_rc ab = 0
        then (Push_wait, ab\<lparr>ab_stalls := ab_stalls ab + 1\<rparr>)
      else if ab_sink_rc ab \<noteq> 0 then (Push_ret (ab_sink_rc ab), ab)
      else let ab1 = ring_put (fill_slot c (rg_slot ab ! unat (rg_head ab))) ab in
        (Push_ret 0, ab1\<lparr>ab_peak_count := max (ab_peak_count ab1) (rg_count ab1)\<rparr>))"

text \<open>Where the consumer thread is: about to lock, asleep on \<open>not_empty\<close>, inside the sink with
  the chunk of a slot, back from it with its answer, or returned.\<close>

datatype drain_pc = Drain | Asleep_empty | Sinking nat chunk_meta | Sunk int | Exited

definition drain_take :: "adsc_accubuf \<Rightarrow> drain_pc" where
  "drain_take ab =
     (if rg_count ab = 0 then (if ab_producer_done ab then Exited else Asleep_empty)
      else Sinking (unat (rg_tail ab)) (fst (ring_front ab)))"

definition drain_settle :: "int \<Rightarrow> adsc_accubuf \<Rightarrow> adsc_accubuf" where
  "drain_settle rc ab =
     (let ab1 = ring_drop ab in
      if rc \<noteq> 0 \<and> ab_sink_rc ab1 = 0 then ab1\<lparr>ab_sink_rc := rc\<rparr> else ab1)"

definition stop_request :: "bool \<Rightarrow> adsc_accubuf \<Rightarrow> adsc_accubuf" where
  "stop_request discard ab =
     (let ab1 = ab\<lparr>ab_producer_done := True\<rparr> in
      if discard then ab1\<lparr>rg_count := 0, rg_tail := rg_head ab1\<rparr> else ab1)"

section \<open>The two threads\<close>

text \<open>The producer: pushing the chunks it has left, asleep on \<open>not_full\<close>, about to ask for the
  stop, joining the thread, or done.\<close>

datatype prod_pc = Pushing | Asleep_full | Stopping bool | Joining | Joined

record 'u ab_sys =
  sy_ab :: adsc_accubuf
  sy_drain :: drain_pc
  sy_prod :: prod_pc
  sy_todo :: "buf_chunk list"
  sy_user :: 'u
  sy_log :: "buf_chunk list"
  sy_push_rc :: int

type_synonym 'u ab_sink = "'u \<Rightarrow> buf_chunk \<Rightarrow> int \<times> 'u"

fun signal_not_empty :: "drain_pc \<Rightarrow> drain_pc" where
  "signal_not_empty Asleep_empty = Drain"
| "signal_not_empty p = p"

fun signal_not_full :: "prod_pc \<Rightarrow> prod_pc" where
  "signal_not_full Asleep_full = Pushing"
| "signal_not_full p = p"

definition slot_chunk :: "adsc_accubuf_slot \<Rightarrow> buf_chunk" where
  "slot_chunk s = (fst s, take (chunk_need (fst s)) (snd s))"

definition drain_step :: "'u ab_sink \<Rightarrow> 'u ab_sys \<Rightarrow> 'u ab_sys option" where
  "drain_step sink s =
     (case sy_drain s of
        Drain \<Rightarrow> Some (s\<lparr>sy_drain := drain_take (sy_ab s)\<rparr>)
      | Sinking i m \<Rightarrow>
          (let c = (m, take (chunk_need m) (snd (rg_slot (sy_ab s) ! i)));
               (rc, u) = sink (sy_user s) c in
           Some (s\<lparr>sy_user := u, sy_log := sy_log s @ [c], sy_drain := Sunk rc\<rparr>))
      | Sunk rc \<Rightarrow>
          Some (s\<lparr>sy_ab := drain_settle rc (sy_ab s), sy_drain := (if rc \<noteq> 0 then Exited else Drain),
                  sy_prod := signal_not_full (sy_prod s)\<rparr>)
      | _ \<Rightarrow> None)"

text \<open>The engine's side: it pushes chunk after chunk, gives up at the first refusal with a
  discarding stop, and otherwise stops without discarding.\<close>

definition prod_step :: "'u ab_sys \<Rightarrow> 'u ab_sys option" where
  "prod_step s =
     (case sy_prod s of
        Pushing \<Rightarrow>
          (case sy_todo s of
             [] \<Rightarrow> Some (s\<lparr>sy_prod := Stopping False\<rparr>)
           | c # cs \<Rightarrow>
               (case adsc_accubuf_push c (sy_ab s) of
                  (Push_wait, ab) \<Rightarrow> Some (s\<lparr>sy_ab := ab, sy_prod := Asleep_full\<rparr>)
                | (Push_ret rc, ab) \<Rightarrow>
                    if rc = 0
                    then Some (s\<lparr>sy_ab := ab, sy_todo := cs, sy_drain := signal_not_empty (sy_drain s)\<rparr>)
                    else Some (s\<lparr>sy_push_rc := rc, sy_prod := Stopping True\<rparr>)))
      | Stopping d \<Rightarrow>
          Some (s\<lparr>sy_ab := stop_request d (sy_ab s), sy_drain := signal_not_empty (sy_drain s),
                  sy_prod := Joining\<rparr>)
      | Joining \<Rightarrow> if sy_drain s = Exited then Some (s\<lparr>sy_prod := Joined\<rparr>) else None
      | _ \<Rightarrow> None)"

definition ab_begin :: "adsc_accubuf \<Rightarrow> buf_chunk list \<Rightarrow> 'u \<Rightarrow> 'u ab_sys" where
  "ab_begin ab cs u = \<lparr>sy_ab = ab, sy_drain = Drain, sy_prod = Pushing, sy_todo = cs, sy_user = u,
     sy_log = [], sy_push_rc = 0\<rparr>"

text \<open>Any interleaving, with the wake-ups that a condition variable may deliver on its own.\<close>

inductive ab_step :: "'u ab_sink \<Rightarrow> 'u ab_sys \<Rightarrow> 'u ab_sys \<Rightarrow> bool" for sink where
  drains: "drain_step sink s = Some t \<Longrightarrow> ab_step sink s t"
| produces: "prod_step s = Some t \<Longrightarrow> ab_step sink s t"
| spurious_empty: "sy_drain s = Asleep_empty \<Longrightarrow> ab_step sink s (s\<lparr>sy_drain := Drain\<rparr>)"
| spurious_full: "sy_prod s = Asleep_full \<Longrightarrow> ab_step sink s (s\<lparr>sy_prod := Pushing\<rparr>)"

inductive_cases ab_stepE: "ab_step sink s t"

text \<open>One schedule: which thread goes first at each moment, when both can.\<close>

definition ab_next :: "'u ab_sink \<Rightarrow> bool \<Rightarrow> 'u ab_sys \<Rightarrow> 'u ab_sys option" where
  "ab_next sink drain_first s =
     (if drain_first
      then (case drain_step sink s of Some t \<Rightarrow> Some t | None \<Rightarrow> prod_step s)
      else (case prod_step s of Some t \<Rightarrow> Some t | None \<Rightarrow> drain_step sink s))"

fun ab_run :: "'u ab_sink \<Rightarrow> (nat \<Rightarrow> bool) \<Rightarrow> nat \<Rightarrow> 'u ab_sys \<Rightarrow> 'u ab_sys" where
  "ab_run sink sched 0 s = s"
| "ab_run sink sched (Suc n) s =
     (case ab_next sink (sched n) s of None \<Rightarrow> s | Some t \<Rightarrow> ab_run sink sched n t)"

section \<open>The synchronous path\<close>

text \<open>What the engine does with no buffer: the sink is called on each chunk in turn and the first
  refusal ends it. The result is what was delivered, the refusal and the caller's state.\<close>

fun sync_deliver :: "'u ab_sink \<Rightarrow> 'u \<Rightarrow> buf_chunk list \<Rightarrow> buf_chunk list \<times> int \<times> 'u" where
  "sync_deliver sink u [] = ([], 0, u)"
| "sync_deliver sink u (c # cs) =
     (let (rc, u1) = sink u c in
      if rc \<noteq> 0 then ([c], rc, u1)
      else let (l, r, u2) = sync_deliver sink u1 cs in (c # l, r, u2))"

end
