(* ===== verification/AccubufSpec.thy ===== *)
theory AccubufSpec
  imports Accubuf
begin

text \<open>
  What the buffered path of \<^verbatim>\<open>src/read/accubuf.c\<close> promises: nothing the sink can see
  distinguishes it from the synchronous path, the two threads always end, and every step is
  a step of a bounded channel. The last section is the one case in which it does not hold: a
  discarding stop while the sink is running.
\<close>

section \<open>The invariant\<close>

named_theorems ring_frames \<open>updates that leave the ring part alone\<close>

lemma ring_frame_updates [ring_frames, simp]:
  "ring_ok (ab\<lparr>ab_stalls := n\<rparr>) = ring_ok ab" "ring_ok (ab\<lparr>ab_sink_rc := rc\<rparr>) = ring_ok ab"
  "ring_ok (ab\<lparr>ab_peak_count := c\<rparr>) = ring_ok ab" "ring_ok (ab\<lparr>ab_producer_done := d\<rparr>) = ring_ok ab"
  "ring_items (ab\<lparr>ab_stalls := n\<rparr>) = ring_items ab" "ring_items (ab\<lparr>ab_sink_rc := rc\<rparr>) = ring_items ab"
  "ring_items (ab\<lparr>ab_peak_count := c\<rparr>) = ring_items ab" "ring_items (ab\<lparr>ab_producer_done := d\<rparr>) = ring_items ab"
  "ring_front (ab\<lparr>ab_peak_count := c\<rparr>) = ring_front ab" "ring_front (ab\<lparr>ab_stalls := n\<rparr>) = ring_front ab"
  by (simp_all add: ring_ok_def ring_items_def ring_front_def)

lemma ring_put_ab [simp]:
  "ab_sink_rc (ring_put x ab) = ab_sink_rc ab" "ab_producer_done (ring_put x ab) = ab_producer_done ab"
  "ab_slot_bytes (ring_put x ab) = ab_slot_bytes ab"
  "ab_sink_rc (ring_drop ab) = ab_sink_rc ab" "ab_producer_done (ring_drop ab) = ab_producer_done ab"
  "ab_slot_bytes (ring_drop ab) = ab_slot_bytes ab"
  by (simp_all add: ring_put_def ring_drop_def)

definition chunk_fits :: "nat \<Rightarrow> buf_chunk \<Rightarrow> bool" where
  "chunk_fits sb c \<longleftrightarrow> length (snd c) = chunk_need (fst c) \<and> chunk_need (fst c) \<le> sb"

definition drain_inv :: "adsc_accubuf \<Rightarrow> drain_pc \<Rightarrow> bool" where
  "drain_inv ab p =
     (case p of
        Drain \<Rightarrow> ab_sink_rc ab = 0
      | Asleep_empty \<Rightarrow> ab_sink_rc ab = 0 \<and> rg_count ab = 0 \<and> \<not> ab_producer_done ab
      | Sinking i m \<Rightarrow> ab_sink_rc ab = 0 \<and> rg_count ab \<noteq> 0 \<and> i = unat (rg_tail ab) \<and> m = fst (ring_front ab)
      | Sunk rc \<Rightarrow> ab_sink_rc ab = 0 \<and> rg_count ab \<noteq> 0
      | Exited \<Rightarrow> ab_sink_rc ab = 0 \<longrightarrow> rg_count ab = 0 \<and> ab_producer_done ab)"

definition prod_inv :: "adsc_accubuf \<Rightarrow> buf_chunk list \<Rightarrow> drain_pc \<Rightarrow> prod_pc \<Rightarrow> bool" where
  "prod_inv ab todo p q =
     (case q of
        Pushing \<Rightarrow> \<not> ab_producer_done ab
      | Asleep_full \<Rightarrow> \<not> ab_producer_done ab \<and> rg_count ab = rg_nslots ab \<and> ab_sink_rc ab = 0
      | Stopping d \<Rightarrow> \<not> ab_producer_done ab \<and> (if d then ab_sink_rc ab \<noteq> 0 else todo = [])
      | Joining \<Rightarrow> ab_producer_done ab \<and> (ab_sink_rc ab \<noteq> 0 \<or> todo = [])
      | Joined \<Rightarrow> ab_producer_done ab \<and> (ab_sink_rc ab \<noteq> 0 \<or> todo = []) \<and> p = Exited)"

definition ab_inv :: "'u ab_sys \<Rightarrow> bool" where
  "ab_inv s \<longleftrightarrow> ring_ok (sy_ab s) \<and> list_all (chunk_fits (ab_slot_bytes (sy_ab s))) (sy_todo s)
     \<and> drain_inv (sy_ab s) (sy_drain s) \<and> prod_inv (sy_ab s) (sy_todo s) (sy_drain s) (sy_prod s)"

lemma fill_slot_chunk: "chunk_fits sb c \<Longrightarrow> slot_chunk (fill_slot c old) = c"
  by (cases c) (simp add: slot_chunk_def fill_slot_def chunk_fits_def)

lemma accubuf_start_ok:
  assumes "adsc_accubuf_start alloc bytes sb = Inr ab"
  shows "ring_ok ab \<and> rg_count ab = 0 \<and> ab_sink_rc ab = 0 \<and> \<not> ab_producer_done ab \<and> ab_slot_bytes ab = sb
    \<and> 2 \<le> unat (rg_nslots ab) \<and> unat (rg_nslots ab) \<le> 4096"
proof -
  have n: "2 \<le> accubuf_slots bytes sb" "accubuf_slots bytes sb \<le> 4096"
    by (auto simp: accubuf_slots_def MIN_SLOTS_def MAX_SLOTS_def)
  then have "unat (word_of_nat (accubuf_slots bytes sb) :: u32) = accubuf_slots bytes sb"
    by (simp add: unsigned_of_nat take_bit_nat_eq_self)
  then show ?thesis
    using assms n by (auto simp: adsc_accubuf_start_def Let_def ring_ok_def split: if_splits)
qed

lemma ab_begin_inv:
  assumes "adsc_accubuf_start alloc bytes sb = Inr ab" and "list_all (chunk_fits sb) cs"
  shows "ab_inv (ab_begin ab cs u)"
  using accubuf_start_ok [OF assms(1)] assms(2)
  by (simp add: ab_inv_def ab_begin_def drain_inv_def prod_inv_def)

section \<open>A sample run\<close>

text \<open>Chunks of one byte, a buffer of two slots, a sink that accepts \<open>n\<close> chunks and refuses the next.\<close>

definition byte_chunk :: "u32 \<Rightarrow> u8 \<Rightarrow> buf_chunk" where
  "byte_chunk lba b = (blank_meta\<lparr>cm_lba := lba, cm_nsec := 1, cm_sector_len := 1\<rparr>, [b])"

definition accept_sink :: "nat \<Rightarrow> nat ab_sink" where
  "accept_sink n k c = (if k = n then 7 else 0, k + 1)"

lemma byte_chunk_fits: "list_all (chunk_fits 1) (map (\<lambda>k. byte_chunk (f k) (g k)) xs)"
  by (simp add: list_all_iff chunk_fits_def byte_chunk_def chunk_need_def)

lemma sample_start: "adsc_accubuf_start True 2 1 = Inr
    \<lparr>rg_slot = replicate 2 (blank_meta, replicate 1 0), rg_nslots = 2, rg_head = 0, rg_tail = 0, rg_count = 0,
     ab_slot_bytes = 1, ab_producer_done = False, ab_sink_rc = 0, ab_peak_count = 0, ab_stalls = 0\<rparr>"
  by (simp add: adsc_accubuf_start_def accubuf_slots_def MIN_SLOTS_def MAX_SLOTS_def)

section \<open>Every locked section keeps the invariant\<close>

lemma push_success:
  assumes "adsc_accubuf_push c ab = (Push_ret 0, ab')"
  shows "(\<exists>p. ab' = (ring_put (fill_slot c (rg_slot ab ! unat (rg_head ab))) ab)\<lparr>ab_peak_count := p\<rparr>)
    \<and> rg_count ab \<noteq> rg_nslots ab \<and> ab_sink_rc ab = 0"
  using assms unfolding adsc_accubuf_push_def Let_def by (simp split: if_splits) blast+

lemma push_wait:
  assumes "adsc_accubuf_push c ab = (Push_wait, ab')"
  shows "ab' = ab\<lparr>ab_stalls := ab_stalls ab + 1\<rparr> \<and> rg_count ab = rg_nslots ab \<and> ab_sink_rc ab = 0"
  using assms by (auto simp: adsc_accubuf_push_def Let_def split: if_splits)

lemma push_refused:
  assumes "adsc_accubuf_push c ab = (Push_ret rc, ab')" and "rc \<noteq> 0" and "chunk_fits (ab_slot_bytes ab) c"
  shows "ab' = ab \<and> ab_sink_rc ab = rc"
  using assms by (auto simp: adsc_accubuf_push_def chunk_fits_def Let_def split: if_splits)

lemma settle_fields:
  "rg_nslots (drain_settle rc ab) = rg_nslots ab" "ab_producer_done (drain_settle rc ab) = ab_producer_done ab"
  "ab_slot_bytes (drain_settle rc ab) = ab_slot_bytes ab"
  "ab_sink_rc ab = 0 \<Longrightarrow> ab_sink_rc (drain_settle rc ab) = rc"
  "ring_ok (drain_settle rc ab) = ring_ok (ring_drop ab)"
  "ring_items (drain_settle rc ab) = ring_items (ring_drop ab)"
  by (simp_all add: drain_settle_def ring_drop_def Let_def)

lemma drain_step_inv:
  assumes "ab_inv s" and "drain_step sink s = Some t"
  shows "ab_inv t"
proof (cases "sy_drain s")
  case Drain
  then show ?thesis
    using assms by (auto simp: drain_step_def ab_inv_def drain_inv_def prod_inv_def drain_take_def split: prod_pc.splits)
next
  case (Sinking i m)
  then show ?thesis
    using assms by (auto simp: drain_step_def ab_inv_def drain_inv_def prod_inv_def Let_def split: prod.splits prod_pc.splits)
next
  case (Sunk rc)
  have "ring_ok (drain_settle rc (sy_ab s))"
    using assms Sunk by (auto simp: settle_fields ring_drop_ok ab_inv_def drain_inv_def)
  then show ?thesis
    using assms Sunk settle_fields [where rc=rc and ab="sy_ab s"]
    by (cases "sy_prod s") (auto simp: drain_step_def ab_inv_def drain_inv_def prod_inv_def split: if_splits)
qed (use assms in \<open>auto simp: drain_step_def\<close>)

lemma push_ok_inv:
  assumes "ab_inv s" and "sy_prod s = Pushing" and "sy_todo s = c # cs"
    and "adsc_accubuf_push c (sy_ab s) = (Push_ret 0, ab)"
  shows "ab_inv (s\<lparr>sy_ab := ab, sy_todo := cs, sy_drain := signal_not_empty (sy_drain s)\<rparr>)"
proof -
  have ok: "ring_ok (sy_ab s)" using assms(1) by (simp add: ab_inv_def)
  obtain x p where ab: "ab = (ring_put x (sy_ab s))\<lparr>ab_peak_count := p\<rparr>"
    and room: "rg_count (sy_ab s) \<noteq> rg_nslots (sy_ab s)" and rc: "ab_sink_rc (sy_ab s) = 0"
    using push_success [OF assms(4)] by blast
  have put: "ring_ok ab" using ab ring_put_ok [OF ok ring_room [OF ok room]] by simp
  show ?thesis
    using assms(1-3) put incr_nonzero [OF ok] ring_front_put [OF ok room, of x] rc
    by (cases "sy_drain s") (auto simp: ab ab_inv_def drain_inv_def prod_inv_def)
qed

lemma stop_ok_inv:
  assumes "ab_inv s" and "sy_prod s = Stopping d"
  shows "ab_inv (s\<lparr>sy_ab := stop_request d (sy_ab s), sy_drain := signal_not_empty (sy_drain s), sy_prod := Joining\<rparr>)"
  using assms
  by (cases "sy_drain s")
    (auto simp: ab_inv_def drain_inv_def prod_inv_def stop_request_def Let_def ring_ok_def ring_front_def split: if_splits)

lemma prod_step_inv:
  assumes "ab_inv s" and "prod_step s = Some t"
  shows "ab_inv t"
proof (cases "sy_prod s")
  case Pushing
  show ?thesis
  proof (cases "sy_todo s")
    case Nil
    then show ?thesis using assms Pushing by (auto simp: prod_step_def ab_inv_def prod_inv_def)
  next
    case (Cons c cs)
    then have fits: "chunk_fits (ab_slot_bytes (sy_ab s)) c" using assms(1) by (simp add: ab_inv_def)
    obtain r ab where p: "adsc_accubuf_push c (sy_ab s) = (r, ab)" by fastforce
    show ?thesis
    proof (cases r)
      case Push_wait
      then have "t = s\<lparr>sy_ab := ab, sy_prod := Asleep_full\<rparr>"
        using assms(2) Pushing Cons p by (simp add: prod_step_def)
      then show ?thesis
        using assms(1) push_wait [OF p [unfolded Push_wait]] Pushing
        by (auto simp: ab_inv_def prod_inv_def drain_inv_def split: drain_pc.splits)
    next
      case (Push_ret rc)
      show ?thesis
      proof (cases "rc = 0")
        case True
        then show ?thesis
          using push_ok_inv [OF assms(1) Pushing Cons] p Push_ret assms(2) Pushing Cons by (simp add: prod_step_def)
      next
        case False
        then show ?thesis
          using push_refused [OF p [unfolded Push_ret] False fits] assms Pushing Cons p Push_ret
          by (auto simp: prod_step_def ab_inv_def prod_inv_def)
      qed
    qed
  qed
next
  case (Stopping d)
  then show ?thesis using stop_ok_inv [OF assms(1) Stopping] assms(2) by (simp add: prod_step_def)
qed (use assms in \<open>auto simp: prod_step_def ab_inv_def prod_inv_def split: if_splits\<close>)

lemma ab_step_inv: "ab_step sink s t \<Longrightarrow> ab_inv s \<Longrightarrow> ab_inv t"
proof (induction rule: ab_step.induct)
  case (spurious_empty s) then show ?case by (auto simp: ab_inv_def drain_inv_def prod_inv_def split: prod_pc.splits)
next
  case (spurious_full s) then show ?case by (auto simp: ab_inv_def drain_inv_def prod_inv_def)
qed (auto intro: drain_step_inv prod_step_inv)

section \<open>The sink sees the synchronous path\<close>

text \<open>The chunks accepted but not yet answered by the sink.\<close>

definition pending :: "drain_pc \<Rightarrow> adsc_accubuf \<Rightarrow> buf_chunk list" where
  "pending p ab = map slot_chunk (case p of Sunk _ \<Rightarrow> tl (ring_items ab) | _ \<Rightarrow> ring_items ab)"

definition refusal :: "drain_pc \<Rightarrow> adsc_accubuf \<Rightarrow> int" where
  "refusal p ab = (case p of Sunk rc \<Rightarrow> rc | _ \<Rightarrow> ab_sink_rc ab)"

text \<open>What the synchronous path would still do from here, added to what has been delivered. No
  step changes it.\<close>

definition outcome :: "'u ab_sink \<Rightarrow> 'u ab_sys \<Rightarrow> buf_chunk list \<times> int \<times> 'u" where
  "outcome sink s =
     (if refusal (sy_drain s) (sy_ab s) \<noteq> 0 then (sy_log s, refusal (sy_drain s) (sy_ab s), sy_user s)
      else let (l, r, u) = sync_deliver sink (sy_user s) (pending (sy_drain s) (sy_ab s) @ sy_todo s) in
        (sy_log s @ l, r, u))"

lemma outcome_cong:
  "refusal (sy_drain t) (sy_ab t) = refusal (sy_drain s) (sy_ab s) \<Longrightarrow> sy_log t = sy_log s
   \<Longrightarrow> sy_user t = sy_user s
   \<Longrightarrow> (refusal (sy_drain s) (sy_ab s) = 0
      \<Longrightarrow> pending (sy_drain t) (sy_ab t) @ sy_todo t = pending (sy_drain s) (sy_ab s) @ sy_todo s)
   \<Longrightarrow> outcome sink t = outcome sink s"
  by (simp add: outcome_def)

lemma drain_step_outcome:
  assumes "ab_inv s" and "drain_step sink s = Some t"
  shows "outcome sink t = outcome sink s"
proof (cases "sy_drain s")
  case Drain
  then show ?thesis
    using assms by (intro outcome_cong) (auto simp: drain_step_def drain_take_def refusal_def pending_def)
next
  case (Sinking i m)
  obtain c rest where items: "map slot_chunk (ring_items (sy_ab s)) = c # rest"
    and c: "c = slot_chunk (ring_front (sy_ab s))" and ref: "refusal (sy_drain s) (sy_ab s) = 0"
    using assms(1) Sinking ring.items_cases [of "sy_ab s"]
    by (auto simp: ab_inv_def drain_inv_def refusal_def)
  have front: "(m, take (chunk_need m) (snd (rg_slot (sy_ab s) ! i))) = c"
    using assms(1) Sinking c by (simp add: ab_inv_def drain_inv_def slot_chunk_def ring_front_def)
  obtain rc u where sink: "sink (sy_user s) c = (rc, u)" by fastforce
  have t: "t = s\<lparr>sy_user := u, sy_log := sy_log s @ [c], sy_drain := Sunk rc\<rparr>"
    using assms(2) Sinking sink by (simp add: drain_step_def front [symmetric] Let_def)
  have "pending (sy_drain t) (sy_ab t) = rest" "pending (sy_drain s) (sy_ab s) = c # rest"
    using items Sinking by (auto simp: t pending_def map_tl [symmetric])
  then show ?thesis
    using ref sink by (auto simp: outcome_def t refusal_def Let_def split: prod.splits)
next
  case (Sunk rc)
  have ok: "ring_ok (sy_ab s)" "rg_count (sy_ab s) \<noteq> 0" "ab_sink_rc (sy_ab s) = 0"
    using assms(1) Sunk by (auto simp: ab_inv_def drain_inv_def)
  show ?thesis
    using assms(2) Sunk ok
    by (intro outcome_cong)
      (auto simp: drain_step_def refusal_def pending_def settle_fields ring_drop_items split: if_splits)
qed (use assms in \<open>auto simp: drain_step_def\<close>)

lemma pending_push:
  assumes "ab_inv s" and "sy_todo s = c # cs" and "adsc_accubuf_push c (sy_ab s) = (Push_ret 0, ab)"
    and "t = s\<lparr>sy_ab := ab, sy_todo := cs, sy_drain := signal_not_empty (sy_drain s)\<rparr>"
  shows "pending (sy_drain t) (sy_ab t) = pending (sy_drain s) (sy_ab s) @ [c] \<and> ab_sink_rc ab = ab_sink_rc (sy_ab s)"
proof -
  have ok: "ring_ok (sy_ab s)" and fits: "chunk_fits (ab_slot_bytes (sy_ab s)) c"
    using assms(1,2) by (auto simp: ab_inv_def)
  define x where "x = fill_slot c (rg_slot (sy_ab s) ! unat (rg_head (sy_ab s)))"
  obtain p where ab: "ab = (ring_put x (sy_ab s))\<lparr>ab_peak_count := p\<rparr>"
    and room: "rg_count (sy_ab s) \<noteq> rg_nslots (sy_ab s)"
    using push_success [OF assms(3)] unfolding x_def by blast
  have "ring_items ab = ring_items (sy_ab s) @ [x]"
    using ring_put_items [OF ok ring_room [OF ok room]] ab by simp
  moreover have "slot_chunk x = c" unfolding x_def by (rule fill_slot_chunk [OF fits])
  moreover have "ring_items (sy_ab s) \<noteq> []" if "sy_drain s = Sunk rc" for rc
    using assms(1) that by (simp add: ab_inv_def drain_inv_def)
  ultimately show ?thesis
    by (cases "sy_drain s") (auto simp: assms(4) ab pending_def)
qed

lemma refusal_signal:
  "ab_sink_rc ab' = ab_sink_rc ab \<Longrightarrow> refusal (signal_not_empty p) ab' = refusal p ab"
  by (cases p) (simp_all add: refusal_def)

lemma prod_step_outcome:
  assumes "ab_inv s" and "prod_step s = Some t"
  shows "outcome sink t = outcome sink s"
proof (cases "sy_prod s")
  case Pushing
  show ?thesis
  proof (cases "sy_todo s")
    case Nil
    then show ?thesis
      using assms Pushing by (intro outcome_cong) (auto simp: prod_step_def)
  next
    case (Cons c cs)
    obtain r ab where p: "adsc_accubuf_push c (sy_ab s) = (r, ab)" by fastforce
    show ?thesis
    proof (cases r)
      case Push_wait
      then show ?thesis
        using push_wait [OF p [unfolded Push_wait]] assms(2) Pushing Cons p
        by (intro outcome_cong; cases "sy_drain s") (auto simp: prod_step_def refusal_def pending_def)
    next
      case (Push_ret rc)
      have t: "t = s\<lparr>sy_ab := ab, sy_todo := cs, sy_drain := signal_not_empty (sy_drain s)\<rparr>" if "rc = 0"
        using assms(2) Pushing Cons p Push_ret that by (simp add: prod_step_def)
      show ?thesis
      proof (cases "rc = 0")
        case True
        have "pending (sy_drain t) (sy_ab t) = pending (sy_drain s) (sy_ab s) @ [c] \<and> ab_sink_rc ab = ab_sink_rc (sy_ab s)"
          using pending_push [OF assms(1) Cons] p Push_ret True t by blast
        then show ?thesis
          using t [OF True] Cons by (intro outcome_cong) (auto simp: refusal_signal)
      next
        case False
        then show ?thesis
          using assms(2) Pushing Cons p Push_ret
          by (intro outcome_cong) (auto simp: prod_step_def)
      qed
    qed
  qed
next
  case (Stopping d)
  have t: "t = s\<lparr>sy_ab := stop_request d (sy_ab s), sy_drain := signal_not_empty (sy_drain s), sy_prod := Joining\<rparr>"
    using assms(2) Stopping by (simp add: prod_step_def)
  have "d \<Longrightarrow> sy_drain s = Exited \<and> ab_sink_rc (sy_ab s) \<noteq> 0"
    using assms(1) Stopping by (cases "sy_drain s") (auto simp: ab_inv_def prod_inv_def drain_inv_def)
  then show ?thesis
    by (intro outcome_cong; cases "sy_drain s"; cases d) (auto simp: t refusal_def pending_def stop_request_def Let_def)
next
  case Joining
  then show ?thesis using assms by (intro outcome_cong) (auto simp: prod_step_def split: if_splits)
qed (use assms in \<open>auto simp: prod_step_def\<close>)

lemma ab_step_outcome: "ab_step sink s t \<Longrightarrow> ab_inv s \<Longrightarrow> outcome sink t = outcome sink s"
proof (induction rule: ab_step.induct)
  case (spurious_empty s) then show ?case by (intro outcome_cong) (simp_all add: refusal_def pending_def)
next
  case (spurious_full s) then show ?case by (intro outcome_cong) simp_all
qed (auto intro: drain_step_outcome prod_step_outcome)

lemma outcome_begin:
  assumes "adsc_accubuf_start alloc bytes sb = Inr ab"
  shows "outcome sink (ab_begin ab cs u) = sync_deliver sink u cs"
proof -
  have "ring_items ab = []" "ab_sink_rc ab = 0"
    using accubuf_start_ok [OF assms] by auto
  then show ?thesis
    by (simp add: outcome_def ab_begin_def refusal_def pending_def split: prod.splits)
qed

lemma outcome_joined:
  assumes "ab_inv s" and "sy_prod s = Joined"
  shows "outcome sink s = (sy_log s, ab_sink_rc (sy_ab s), sy_user s)"
  using assms
  by (auto simp: outcome_def ab_inv_def prod_inv_def drain_inv_def refusal_def pending_def)

section \<open>Both threads end\<close>

fun drain_weight :: "drain_pc \<Rightarrow> nat" where
  "drain_weight Drain = 3"
| "drain_weight (Sinking i m) = 2"
| "drain_weight (Sunk rc) = 1"
| "drain_weight Asleep_empty = 0"
| "drain_weight Exited = 0"

fun prod_weight :: "prod_pc \<Rightarrow> nat" where
  "prod_weight Pushing = 7"
| "prod_weight Asleep_full = 6"
| "prod_weight (Stopping d) = 5"
| "prod_weight Joining = 1"
| "prod_weight Joined = 0"

definition work_left :: "'u ab_sys \<Rightarrow> nat" where
  "work_left s = 10 * length (sy_todo s) + 4 * unat (rg_count (sy_ab s))
     + drain_weight (sy_drain s) + prod_weight (sy_prod s)"

lemma signal_weights:
  "drain_weight (signal_not_empty p) \<le> drain_weight p + 3"
  "prod_weight (signal_not_full q) \<le> prod_weight q + 1"
  by (cases p; simp) (cases q; simp)

lemma drain_step_work:
  assumes "ab_inv s" and "drain_step sink s = Some t"
  shows "work_left t < work_left s"
proof (cases "sy_drain s")
  case (Sunk rc)
  have "rg_count (sy_ab s) \<noteq> 0" using assms(1) Sunk by (simp add: ab_inv_def drain_inv_def)
  then obtain k where k: "unat (rg_count (sy_ab s)) = Suc k"
    by (metis gr0_implies_Suc unat_gt_0)
  have "rg_count (drain_settle rc (sy_ab s)) = rg_count (sy_ab s) - 1"
    by (simp add: drain_settle_def ring_drop_def Let_def)
  then have "unat (rg_count (drain_settle rc (sy_ab s))) = k"
    using unat_decr [OF \<open>rg_count (sy_ab s) \<noteq> 0\<close>] k by simp
  then show ?thesis
    using assms(2) Sunk k signal_weights(2) [of "sy_prod s"] by (auto simp: drain_step_def work_left_def)
qed (use assms in \<open>auto simp: drain_step_def work_left_def drain_take_def Let_def split: prod.splits\<close>)

lemma prod_step_work:
  assumes "ab_inv s" and "prod_step s = Some t"
  shows "work_left t < work_left s"
proof (cases "sy_prod s")
  case Pushing
  show ?thesis
  proof (cases "sy_todo s")
    case Nil
    then show ?thesis using assms Pushing by (auto simp: prod_step_def work_left_def)
  next
    case (Cons c cs)
    have ok: "ring_ok (sy_ab s)" using assms(1) by (simp add: ab_inv_def)
    obtain r ab where p: "adsc_accubuf_push c (sy_ab s) = (r, ab)" by fastforce
    have "unat (rg_count ab) = unat (rg_count (sy_ab s)) + 1" if "r = Push_ret 0"
      using push_success [OF p [unfolded that]] ok unat_incr [of "rg_count (sy_ab s)"] by (auto simp: ring_ok_def)
    moreover have "rg_count ab = rg_count (sy_ab s)" if "r = Push_wait"
      using push_wait [OF p [unfolded that]] by simp
    ultimately show ?thesis
      using assms(2) Pushing Cons p signal_weights(1) [of "sy_drain s"]
      by (auto simp: prod_step_def work_left_def split: push_result.splits if_splits)
  qed
next
  case (Stopping d)
  then show ?thesis
    using assms(2) signal_weights(1) [of "sy_drain s"]
    by (auto simp: prod_step_def work_left_def stop_request_def Let_def)
qed (use assms in \<open>auto simp: prod_step_def work_left_def split: if_splits\<close>)

lemma ab_progress:
  assumes "ab_inv s" and "sy_prod s \<noteq> Joined"
  shows "drain_step sink s \<noteq> None \<or> prod_step s \<noteq> None"
proof (cases "sy_drain s")
  case Asleep_empty
  then have "sy_prod s \<noteq> Asleep_full" "sy_prod s \<noteq> Joining"
    using assms(1) by (auto simp: ab_inv_def drain_inv_def prod_inv_def ring_ok_def)
  then show ?thesis
    using assms(2) by (auto simp: prod_step_def split: prod_pc.splits list.splits push_result.splits prod.splits)
next
  case Exited
  then have "sy_prod s \<noteq> Asleep_full"
    using assms(1) by (auto simp: ab_inv_def drain_inv_def prod_inv_def)
  then show ?thesis
    using assms(2) Exited by (auto simp: prod_step_def split: prod_pc.splits list.splits push_result.splits prod.splits)
qed (auto simp: drain_step_def Let_def split: prod.splits)

lemma ab_next_cases:
  assumes "ab_inv s" and "sy_prod s \<noteq> Joined"
  obtains t where "ab_next sink b s = Some t" "ab_inv t" "outcome sink t = outcome sink s" "work_left t < work_left s"
proof -
  have "\<exists>t. ab_next sink b s = Some t \<and> (drain_step sink s = Some t \<or> prod_step s = Some t)"
    using ab_progress [OF assms, of sink] by (auto simp: ab_next_def split: option.splits)
  then obtain t where t: "ab_next sink b s = Some t" and "drain_step sink s = Some t \<or> prod_step s = Some t"
    by blast
  then have "ab_inv t \<and> outcome sink t = outcome sink s \<and> work_left t < work_left s"
    using assms(1) drain_step_inv prod_step_inv drain_step_outcome prod_step_outcome drain_step_work prod_step_work
    by metis
  with t show ?thesis by (auto intro: that)
qed

lemma ab_next_joined: "ab_inv s \<Longrightarrow> sy_prod s = Joined \<Longrightarrow> ab_next sink b s = None"
  by (simp add: ab_inv_def prod_inv_def ab_next_def drain_step_def prod_step_def)

lemma ab_run_joins:
  assumes "ab_inv s" and "work_left s \<le> fuel"
  shows "ab_inv (ab_run sink sched fuel s) \<and> outcome sink (ab_run sink sched fuel s) = outcome sink s
    \<and> sy_prod (ab_run sink sched fuel s) = Joined"
  using assms
proof (induction fuel arbitrary: s)
  case 0
  have "sy_prod s = Joined" using "0.prems"(2) by (cases "sy_prod s") (auto simp: work_left_def)
  then show ?case using "0.prems" by simp
next
  case (Suc n)
  show ?case
  proof (cases "sy_prod s = Joined")
    case True
    then show ?thesis using ab_next_joined [OF Suc.prems(1)] Suc.prems(1) by simp
  next
    case False
    then show ?thesis
      using ab_next_cases [OF Suc.prems(1) False, of sink "sched n"] Suc.IH Suc.prems(2)
      by (metis ab_run.simps(2) less_Suc_eq_le option.simps(5) order_less_le_trans)
  qed
qed

text \<open>C6: the buffered path always ends, and to the sink it is the synchronous path. Whatever the
  interleaving of the two threads, a run over chunks that fit the slots reaches the state in
  which the thread is joined within ten steps per chunk, and by then the sink has been handed
  exactly the chunks, with exactly the bytes, that the unbuffered loop would have handed it,
  each once and in order, up to and including the first it refused, and the stop returns that
  refusal. In particular no wake-up is lost and no slot is overwritten while the sink reads it.\<close>

theorem accubuf_completes:
  assumes "adsc_accubuf_start alloc bytes sb = Inr ab" and "list_all (chunk_fits sb) cs"
    and "10 * length cs + 10 \<le> fuel"
  shows "let t = ab_run sink sched fuel (ab_begin ab cs u) in
    sy_prod t = Joined \<and> (sy_log t, ab_sink_rc (sy_ab t), sy_user t) = sync_deliver sink u cs"
proof -
  have inv: "ab_inv (ab_begin ab cs u)" by (rule ab_begin_inv [OF assms(1,2)])
  have "work_left (ab_begin ab cs u) \<le> fuel"
    using assms(3) accubuf_start_ok [OF assms(1)] by (simp add: work_left_def ab_begin_def)
  then show ?thesis
    using ab_run_joins [OF inv, of fuel sink sched] outcome_begin [OF assms(1), of sink cs u] outcome_joined
    by (metis (no_types, lifting))
qed

theorem accubuf_completes_witness:
  "\<exists>ab. adsc_accubuf_start True 2 1 = Inr ab \<and>
     (let t = ab_run (accept_sink 2) even 50 (ab_begin ab (map (\<lambda>k. byte_chunk (word_of_nat k) (word_of_nat k)) [0..<4]) 0) in
      sy_prod t = Joined \<and> ab_sink_rc (sy_ab t) = 7 \<and> sy_log t = [byte_chunk 0 0, byte_chunk 1 1, byte_chunk 2 2])"
proof -
  define cs where "cs = map (\<lambda>k. byte_chunk (word_of_nat k) (word_of_nat k)) [0..<4]"
  have fits: "list_all (chunk_fits 1) cs" unfolding cs_def by (rule byte_chunk_fits)
  have sync: "sync_deliver (accept_sink 2) 0 cs = ([byte_chunk 0 0, byte_chunk 1 1, byte_chunk 2 2], 7, 3)"
    by (simp add: cs_def accept_sink_def upt_rec)
  obtain ab where ab: "adsc_accubuf_start True 2 1 = Inr ab" using sample_start by blast
  have "10 * length cs + 10 \<le> 50" by (simp add: cs_def)
  from accubuf_completes [OF ab fits this, of "accept_sink 2" even 0] ab show ?thesis
    unfolding cs_def [symmetric] by (auto simp: Let_def sync)
qed

section \<open>A bounded channel\<close>

text \<open>The abstract system: chunks still to be sent, chunks in the channel, chunks delivered, the
  sink's refusal and the sink's state.\<close>

type_synonym 'u chan = "buf_chunk list \<times> buf_chunk list \<times> buf_chunk list \<times> int \<times> 'u"

inductive chan_step :: "'u ab_sink \<Rightarrow> nat \<Rightarrow> 'u chan \<Rightarrow> 'u chan \<Rightarrow> bool" for sink cap where
  send: "length q < cap \<Longrightarrow> chan_step sink cap (c # todo, q, d, rc, u) (todo, q @ [c], d, rc, u)"
| receive: "sink u c = (rc, u') \<Longrightarrow> chan_step sink cap (todo, c # q, d, 0, u) (todo, q, d @ [c], rc, u')"
| abandon: "rc \<noteq> 0 \<Longrightarrow> chan_step sink cap (todo, q, d, rc, u) (todo, [], d, rc, u)"

definition channel :: "'u ab_sys \<Rightarrow> 'u chan" where
  "channel s = (sy_todo s, pending (sy_drain s) (sy_ab s), sy_log s, refusal (sy_drain s) (sy_ab s), sy_user s)"

lemma pending_room:
  assumes "ring_ok ab" and "rg_count ab \<noteq> rg_nslots ab"
  shows "length (pending p ab) < unat (rg_nslots ab)"
  using ring_room [OF assms] by (cases p) (auto simp: pending_def)

lemma drain_step_channel:
  assumes "ab_inv s" and "drain_step sink s = Some t"
  shows "channel t = channel s \<or> chan_step sink cap (channel s) (channel t)"
proof (cases "sy_drain s")
  case Drain
  then show ?thesis
    using assms by (auto simp: drain_step_def drain_take_def channel_def refusal_def pending_def)
next
  case (Sinking i m)
  obtain c rest where items: "map slot_chunk (ring_items (sy_ab s)) = c # rest"
    and c: "c = slot_chunk (ring_front (sy_ab s))" and ref: "refusal (sy_drain s) (sy_ab s) = 0"
    using assms(1) Sinking ring.items_cases [of "sy_ab s"]
    by (auto simp: ab_inv_def drain_inv_def refusal_def)
  have front: "(m, take (chunk_need m) (snd (rg_slot (sy_ab s) ! i))) = c"
    using assms(1) Sinking c by (simp add: ab_inv_def drain_inv_def slot_chunk_def ring_front_def)
  obtain rc u where sink: "sink (sy_user s) c = (rc, u)" by fastforce
  have t: "t = s\<lparr>sy_user := u, sy_log := sy_log s @ [c], sy_drain := Sunk rc\<rparr>"
    using assms(2) Sinking sink by (simp add: drain_step_def front [symmetric] Let_def)
  have "pending (sy_drain t) (sy_ab t) = rest" "pending (sy_drain s) (sy_ab s) = c # rest"
    using items Sinking by (auto simp: t pending_def map_tl [symmetric])
  then show ?thesis
    using ref chan_step.receive [where sink=sink and u="sy_user s" and c=c] sink
    by (simp add: channel_def t refusal_def)
next
  case (Sunk rc)
  have ok: "ring_ok (sy_ab s)" "rg_count (sy_ab s) \<noteq> 0" "ab_sink_rc (sy_ab s) = 0"
    using assms(1) Sunk by (auto simp: ab_inv_def drain_inv_def)
  then show ?thesis
    using assms(2) Sunk
    by (auto simp: drain_step_def channel_def refusal_def pending_def settle_fields ring_drop_items split: if_splits)
qed (use assms in \<open>auto simp: drain_step_def\<close>)

lemma push_channel:
  assumes "ab_inv s" and "sy_prod s = Pushing" and "sy_todo s = c # cs" and "prod_step s = Some t"
  shows "channel t = channel s \<or> chan_step sink (unat (rg_nslots (sy_ab s))) (channel s) (channel t)"
proof -
  have ok: "ring_ok (sy_ab s)" using assms(1) by (simp add: ab_inv_def)
  obtain r ab where p: "adsc_accubuf_push c (sy_ab s) = (r, ab)" by fastforce
  show ?thesis
  proof (cases "r = Push_ret 0")
    case True
    have t: "t = s\<lparr>sy_ab := ab, sy_todo := cs, sy_drain := signal_not_empty (sy_drain s)\<rparr>"
      using assms(2-4) p True by (simp add: prod_step_def)
    have "length (pending (sy_drain s) (sy_ab s)) < unat (rg_nslots (sy_ab s))"
      using push_success [OF p [unfolded True]] pending_room [OF ok] by blast
    from chan_step.send [OF this] show ?thesis
      using pending_push [OF assms(1,3) p [unfolded True] t] assms(3)
      by (simp add: channel_def refusal_signal t)
  next
    case False
    then show ?thesis
      using assms(2-4) p push_wait [of c "sy_ab s" ab]
      by (cases r; cases "sy_drain s")
        (auto simp: prod_step_def channel_def refusal_def pending_def split: if_splits)
  qed
qed

lemma stop_channel:
  assumes "ab_inv s" and "sy_prod s = Stopping d" and "prod_step s = Some t"
  shows "channel t = channel s \<or> chan_step sink cap (channel s) (channel t)"
proof -
  have t: "t = s\<lparr>sy_ab := stop_request d (sy_ab s), sy_drain := signal_not_empty (sy_drain s), sy_prod := Joining\<rparr>"
    using assms(2,3) by (simp add: prod_step_def)
  show ?thesis
  proof (cases d)
    case True
    have "sy_drain s = Exited" "ab_sink_rc (sy_ab s) \<noteq> 0"
      using assms(1,2) True by (cases "sy_drain s"; auto simp: ab_inv_def prod_inv_def drain_inv_def)+
    then show ?thesis
      using True chan_step.abandon [of "ab_sink_rc (sy_ab s)" sink cap]
      by (simp add: t channel_def refusal_def pending_def stop_request_def Let_def)
  next
    case False
    then show ?thesis
      by (cases "sy_drain s") (auto simp: t channel_def refusal_def pending_def stop_request_def)
  qed
qed

lemma prod_step_channel:
  assumes "ab_inv s" and "prod_step s = Some t"
  shows "channel t = channel s \<or> chan_step sink (unat (rg_nslots (sy_ab s))) (channel s) (channel t)"
proof (cases "sy_prod s")
  case Pushing
  then show ?thesis
    using assms push_channel [OF assms(1) Pushing] by (cases "sy_todo s") (auto simp: prod_step_def channel_def)
next
  case (Stopping d)
  then show ?thesis using stop_channel [OF assms(1) Stopping assms(2)] by blast
qed (use assms in \<open>auto simp: prod_step_def channel_def split: if_splits\<close>)

lemma ab_step_channel:
  assumes "ab_step sink s t" and "ab_inv s"
  shows "channel t = channel s \<or> chan_step sink (unat (rg_nslots (sy_ab s))) (channel s) (channel t)"
  using assms(1)
  by (rule ab_stepE)
    (use drain_step_channel [OF assms(2)] prod_step_channel [OF assms(2)]
      in \<open>auto simp: channel_def refusal_def pending_def\<close>)

lemma ab_step_nslots:
  assumes "ab_step sink s t"
  shows "rg_nslots (sy_ab t) = rg_nslots (sy_ab s)"
  using assms
  by (rule ab_stepE)
    (auto simp: drain_step_def prod_step_def Let_def stop_request_def settle_fields adsc_accubuf_push_def
      split: drain_pc.splits prod_pc.splits list.splits prod.splits push_result.splits if_splits)

lemma ab_reach_inv:
  "(ab_step sink)\<^sup>*\<^sup>* s0 s \<Longrightarrow> ab_inv s0 \<Longrightarrow> ab_inv s \<and> rg_nslots (sy_ab s) = rg_nslots (sy_ab s0)"
  by (induction rule: rtranclp_induct) (auto dest: ab_step_inv ab_step_nslots)

text \<open>C22: under every interleaving, spurious wake-ups included, the two threads implement a bounded
  channel: each step of the ring, its counters and its sleeping threads is no step at all or one
  step of a channel that holds at most as many chunks as the buffer has slots, delivers them in
  order, exactly once each, and delivers nothing after a refusal.\<close>

theorem accubuf_refines_channel:
  assumes "adsc_accubuf_start alloc bytes sb = Inr ab" and "list_all (chunk_fits sb) cs"
    and "(ab_step sink)\<^sup>*\<^sup>* (ab_begin ab cs u) s"
  shows "(chan_step sink (unat (rg_nslots ab)))\<^sup>*\<^sup>* (cs, [], [], 0, u) (channel s)"
  using assms(3)
proof (induction rule: rtranclp_induct)
  case base
  show ?case
    using accubuf_start_ok [OF assms(1)]
    by (simp add: channel_def ab_begin_def pending_def refusal_def)
next
  case (step s t)
  have "ab_inv s \<and> rg_nslots (sy_ab s) = rg_nslots ab"
    using ab_reach_inv [OF step.hyps(1) ab_begin_inv [OF assms(1,2)]] by (simp add: ab_begin_def)
  then show ?case
    using ab_step_channel [OF step.hyps(2)] step.IH by (metis rtranclp.rtrancl_into_rtrancl)
qed

definition sample_ring :: adsc_accubuf where
  "sample_ring = \<lparr>rg_slot = [byte_chunk 5 9, (blank_meta, [0])], rg_nslots = 2, rg_head = 1, rg_tail = 0,
     rg_count = 1, ab_slot_bytes = 1, ab_producer_done = False, ab_sink_rc = 0, ab_peak_count = 1, ab_stalls = 0\<rparr>"

definition sample_flight :: "nat ab_sys" where
  "sample_flight = \<lparr>sy_ab = sample_ring, sy_drain = Sinking 0 (fst (byte_chunk 5 9)), sy_prod = Pushing,
     sy_todo = [], sy_user = 1, sy_log = [], sy_push_rc = 0\<rparr>"

lemma sample_reached:
  "\<exists>ab. adsc_accubuf_start True 2 1 = Inr ab
     \<and> (ab_step sink)\<^sup>*\<^sup>* (ab_begin ab [byte_chunk 5 9] 1) sample_flight \<and> rg_nslots ab = 2"
proof -
  obtain ab where ab: "adsc_accubuf_start True 2 1 = Inr ab" "rg_nslots ab = 2" using sample_start by simp
  have "adsc_accubuf_push (byte_chunk 5 9) ab = (Push_ret 0, sample_ring)"
    using ab sample_start
    by (auto simp: adsc_accubuf_push_def byte_chunk_def chunk_need_def fill_slot_def ring_put_def sample_ring_def
        numeral_2_eq_2)
  then have "prod_step (ab_begin ab [byte_chunk 5 9] (1 :: nat)) = Some (sample_flight\<lparr>sy_drain := Drain\<rparr>)"
    by (simp add: prod_step_def ab_begin_def sample_flight_def)
  moreover have "drain_step sink (sample_flight\<lparr>sy_drain := Drain\<rparr>) = Some sample_flight"
    by (simp add: drain_step_def sample_flight_def drain_take_def sample_ring_def ring_front_def)
  ultimately have "(ab_step sink)\<^sup>*\<^sup>* (ab_begin ab [byte_chunk 5 9] 1) sample_flight"
    by (meson ab_step.drains ab_step.produces r_into_rtranclp rtranclp.rtrancl_into_rtrancl)
  with ab show ?thesis by blast
qed

lemma sample_one_fits: "list_all (chunk_fits 1) [byte_chunk 5 9]"
  using byte_chunk_fits [of "\<lambda>_. 5" "\<lambda>_. 9" "[()]"] by simp

theorem accubuf_refines_channel_witness:
  "(chan_step (accept_sink 0) 2)\<^sup>*\<^sup>* ([byte_chunk 5 9], [], [], 0, 1) ([], [byte_chunk 5 9], [], 0, 1)"
proof -
  have "channel sample_flight = ([], [byte_chunk 5 9], [], 0, 1)"
    by (simp add: channel_def sample_flight_def pending_def refusal_def sample_ring_def ring_items_def
        slot_chunk_def byte_chunk_def chunk_need_def)
  then show ?thesis
    using sample_reached [of "accept_sink 0"] accubuf_refines_channel [OF _ sample_one_fits, of True 2 _ "accept_sink 0" 1 sample_flight]
    by auto
qed

section \<open>Cancelling while the sink runs\<close>

text \<open>The engine's cancel: it leaves its loop between two pushes and stops with \<open>discard\<close>.\<close>

definition cancel_request :: "'u ab_sys \<Rightarrow> 'u ab_sys" where
  "cancel_request s = s\<lparr>sy_prod := Stopping True\<rparr>"

definition cancelled :: "'u ab_sys \<Rightarrow> 'u ab_sys" where
  "cancelled s = (case prod_step (cancel_request s) of Some t \<Rightarrow> t | None \<Rightarrow> s)"

fun drain_rounds :: "'u ab_sink \<Rightarrow> nat \<Rightarrow> 'u ab_sys \<Rightarrow> 'u ab_sys" where
  "drain_rounds sink 0 s = s"
| "drain_rounds sink (Suc n) s =
     (case drain_step sink s of None \<Rightarrow> s | Some t \<Rightarrow> drain_rounds sink n t)"

text \<open>The state \<open>n\<close> slots later: the count has wrapped, the tail walks round stale slots.\<close>

definition runaway :: "'u ab_sys \<Rightarrow> nat \<Rightarrow> 'u ab_sys \<Rightarrow> bool" where
  "runaway s n t \<longleftrightarrow>
     sy_prod t = Joining \<and> rg_count (sy_ab t) = - word_of_nat (Suc n) \<and> rg_slot (sy_ab t) = rg_slot (sy_ab s)
     \<and> rg_nslots (sy_ab t) = rg_nslots (sy_ab s) \<and> ab_sink_rc (sy_ab t) = 0
     \<and> unat (rg_tail (sy_ab t)) = (unat (rg_head (sy_ab s)) + 1 + n) mod unat (rg_nslots (sy_ab s))
     \<and> sy_drain t = Sinking (unat (rg_tail (sy_ab t))) (fst (ring_front (sy_ab t)))
     \<and> sy_log t = sy_log s @ [slot_chunk (ring_front (sy_ab s))]
         @ map (\<lambda>k. slot_chunk (rg_slot (sy_ab s) ! ((unat (rg_head (sy_ab s)) + 1 + k) mod unat (rg_nslots (sy_ab s))))) [0..<n]"

lemma wrapped_count:
  assumes "n < 4294967295"
  shows "- word_of_nat (Suc n) \<noteq> (0 :: u32)" "- word_of_nat (Suc n) - 1 = (- word_of_nat (Suc (Suc n)) :: u32)"
proof -
  have "unat (word_of_nat (Suc n) :: u32) = Suc n"
    using assms by (simp only: unsigned_of_nat) (simp add: take_bit_nat_eq_self)
  then show "- word_of_nat (Suc n) \<noteq> (0 :: u32)" by (metis Zero_not_Suc neg_equal_0_iff_equal unsigned_0)
qed simp

lemma tail_after_settle:
  assumes "ring_ok r" and "unat (rg_tail q) < unat (rg_nslots r)" and "rg_nslots q = rg_nslots r"
  shows "unat (rg_tail (ring_drop q)) = (unat (rg_tail q) + 1) mod unat (rg_nslots r)"
  using unat_succ_mod [of "rg_tail q" "rg_nslots r"] assms by (simp add: ring_drop_def ring_ok_def)

lemma runaway_start:
  assumes "ab_inv s" and "sy_drain s = Sinking i m" and "sy_prod s = Pushing"
    and accepts: "\<And>u c. fst (sink u c) = 0"
  shows "runaway s 0 (drain_rounds sink 3 (cancelled s))"
proof -
  have ok: "ring_ok (sy_ab s)" "ab_sink_rc (sy_ab s) = 0" "i = unat (rg_tail (sy_ab s))"
    "m = fst (ring_front (sy_ab s))"
    using assms(1,2) by (auto simp: ab_inv_def drain_inv_def)
  define q where "q = stop_request True (sy_ab s)"
  have q: "rg_slot q = rg_slot (sy_ab s)" "rg_count q = 0" "rg_tail q = rg_head (sy_ab s)"
    "rg_nslots q = rg_nslots (sy_ab s)" "ab_sink_rc q = 0"
    using ok by (simp_all add: q_def stop_request_def)
  have c: "cancelled s = s\<lparr>sy_ab := q, sy_prod := Joining\<rparr>"
    using assms(2) by (simp add: cancelled_def cancel_request_def prod_step_def q_def)
  have tail: "unat (rg_tail (ring_drop q)) = (unat (rg_head (sy_ab s)) + 1) mod unat (rg_nslots (sy_ab s))"
    using tail_after_settle [OF ok(1), of q] ring_head_bound [OF ok(1)] q by simp
  obtain u where u: "sink (sy_user s) (slot_chunk (ring_front (sy_ab s))) = (0, u)"
    using accepts by (metis prod.collapse)
  have "drain_rounds sink 3 (cancelled s) = s\<lparr>sy_ab := ring_drop q, sy_prod := Joining, sy_user := u,
      sy_log := sy_log s @ [slot_chunk (ring_front (sy_ab s))],
      sy_drain := Sinking (unat (rg_tail (ring_drop q))) (fst (ring_front (ring_drop q)))\<rparr>"
    using assms(2) ok q u
    by (simp add: numeral_3_eq_3 c drain_step_def slot_chunk_def ring_front_def drain_settle_def Let_def
        drain_take_def ring_drop_def)
  then show ?thesis
    using q tail by (simp add: runaway_def ring_drop_def)
qed

lemma runaway_round:
  assumes "ring_ok (sy_ab s)" and "runaway s n t" and "n < 4294967294"
    and accepts: "\<And>u c. fst (sink u c) = 0"
  shows "runaway s (Suc n) (drain_rounds sink 3 t)"
proof -
  define q where "q = sy_ab t"
  have q: "rg_slot q = rg_slot (sy_ab s)" "rg_count q = - word_of_nat (Suc n)"
    "rg_nslots q = rg_nslots (sy_ab s)" "ab_sink_rc q = 0"
    "unat (rg_tail q) = (unat (rg_head (sy_ab s)) + 1 + n) mod unat (rg_nslots (sy_ab s))"
    "sy_drain t = Sinking (unat (rg_tail q)) (fst (ring_front q))" "sy_prod t = Joining"
    using assms(2) by (simp_all add: runaway_def q_def)
  obtain u where u: "sink (sy_user t) (slot_chunk (ring_front q)) = (0, u)"
    using accepts by (metis prod.collapse)
  have pos: "0 < unat (rg_nslots (sy_ab s))" using assms(1) by (simp add: ring_ok_def)
  have tail: "unat (rg_tail (ring_drop q)) = (unat (rg_head (sy_ab s)) + 1 + Suc n) mod unat (rg_nslots (sy_ab s))"
    using tail_after_settle [OF assms(1), of q] q(3,5) pos by (simp add: mod_simps)
  have count: "rg_count (ring_drop q) = - word_of_nat (Suc (Suc n))" "rg_count (ring_drop q) \<noteq> 0"
    using wrapped_count(2) [of n] wrapped_count(1) [of "Suc n"] assms(3) q(2)
    by (simp_all only: ring_drop_def) simp_all
  have t: "drain_rounds sink 3 t = t\<lparr>sy_ab := ring_drop q, sy_user := u,
      sy_log := sy_log t @ [slot_chunk (ring_front q)],
      sy_drain := Sinking (unat (rg_tail (ring_drop q))) (fst (ring_front (ring_drop q)))\<rparr>"
    using q u count(2)
    by (simp add: numeral_3_eq_3 drain_step_def slot_chunk_def ring_front_def drain_settle_def Let_def
        drain_take_def q_def [symmetric])
  have front: "ring_front q = rg_slot (sy_ab s) ! ((unat (rg_head (sy_ab s)) + 1 + n) mod unat (rg_nslots (sy_ab s)))"
    by (simp add: ring_front_def q)
  have log: "sy_log (drain_rounds sink 3 t) = sy_log s @ [slot_chunk (ring_front (sy_ab s))]
      @ map (\<lambda>k. slot_chunk (rg_slot (sy_ab s) ! ((unat (rg_head (sy_ab s)) + 1 + k) mod unat (rg_nslots (sy_ab s)))))
          [0..<Suc n]"
    using assms(2) unfolding runaway_def by (simp only: t upt_Suc front) simp
  have "rg_slot (ring_drop q) = rg_slot (sy_ab s)" "rg_nslots (ring_drop q) = rg_nslots (sy_ab s)"
    "ab_sink_rc (ring_drop q) = 0"
    using q by (simp_all add: ring_drop_def)
  then show ?thesis
    using tail count(1) q(7) log unfolding runaway_def t by (simp only:) simp
qed

lemma runaway_rounds:
  assumes "ab_inv s" and "sy_drain s = Sinking i m" and "sy_prod s = Pushing"
    and "\<And>u c. fst (sink u c) = 0" and "n < 4294967295"
  shows "runaway s n ((drain_rounds sink 3 ^^ Suc n) (cancelled s))"
  using assms(5)
proof (induction n)
  case 0
  then show ?case using runaway_start [OF assms(1-4)] by simp
next
  case (Suc n)
  have "ring_ok (sy_ab s)" using assms(1) by (simp add: ab_inv_def)
  from runaway_round [OF this _ _ assms(4)] Suc show ?case by simp
qed

text \<open>C37: a cancel that arrives while the sink is running does not discard the queue. The stop sets
  the count to zero, the thread that comes back from the sink subtracts one from it, and the
  count wraps: as long as the sink keeps accepting, the thread goes on to hand it the slots
  after the head, round and round - chunks never pushed, chunks delivered before, chunks that
  were to be dropped - and the caller stays blocked in the join, for as many as 2^32 - 2 calls.\<close>

theorem cancel_inside_sink_runs_away:
  assumes "adsc_accubuf_start alloc bytes sb = Inr ab" and "list_all (chunk_fits sb) cs"
    and "(ab_step sink)\<^sup>*\<^sup>* (ab_begin ab cs u) s"
    and "sy_drain s = Sinking i m" and "sy_prod s = Pushing" and "\<And>u c. fst (sink u c) = 0"
    and "n < 4294967295"
  shows "let t = (drain_rounds sink 3 ^^ Suc n) (cancelled s); ring = sy_ab s in
    sy_prod t = Joining \<and> prod_step t = None \<and> drain_step sink t \<noteq> None
    \<and> sy_log t = sy_log s @ [slot_chunk (ring_front ring)]
        @ map (\<lambda>k. slot_chunk (rg_slot ring ! ((unat (rg_head ring) + 1 + k) mod unat (rg_nslots ring)))) [0..<n]"
proof -
  have "ab_inv s" using ab_reach_inv [OF assms(3) ab_begin_inv [OF assms(1,2)]] by simp
  from runaway_rounds [OF this assms(4,5,6,7)] show ?thesis
    by (simp add: runaway_def Let_def prod_step_def drain_step_def split: prod.splits)
qed


theorem cancel_inside_sink_runs_away_witness:
  "\<exists>t. t = (drain_rounds (\<lambda>u c. (0, u + 1)) 3 ^^ Suc 4) (cancelled sample_flight)
     \<and> sy_prod t = Joining \<and> length (sy_log t) = 5 \<and> sy_log t ! 0 = byte_chunk 5 9 \<and> sy_log t ! 1 = byte_chunk 5 9"
proof -
  have flight: "sy_drain sample_flight = Sinking 0 (fst (byte_chunk 5 9))" "sy_prod sample_flight = Pushing"
    "sy_log sample_flight = []" "sy_ab sample_flight = sample_ring"
    by (simp_all add: sample_flight_def)
  have slots: "slot_chunk (rg_slot sample_ring ! 0) = byte_chunk 5 9" "slot_chunk (ring_front sample_ring) = byte_chunk 5 9"
    by (simp_all add: sample_ring_def ring_front_def slot_chunk_def byte_chunk_def chunk_need_def)
  have ring: "rg_head sample_ring = 1" "rg_nslots sample_ring = 2" by (simp_all add: sample_ring_def)
  show ?thesis
    using sample_reached [of "\<lambda>u c. (0, u + 1)"]
      cancel_inside_sink_runs_away [OF _ sample_one_fits _ flight(1,2), of True 2 _ "\<lambda>u c. (0, u + 1)" 1 4]
    by (auto simp: Let_def flight slots ring upt_rec)
qed

end
