(* ===== verification/WParams.thy ===== *)
theory WParams
  imports Mmc
begin

text \<open>
  The write-parameters mode page of the burn path (\<^verbatim>\<open>src/write/wparams.c\<close>): programming page 05
  for Disc-At-Once, keeping what went down the wire, and asking the drive what it holds. The
  captures are the 56-byte arrays of the C structs, zero beyond what was captured. The lemmas say
  what a page that passes the read-back is known to hold.
\<close>

section \<open>Data\<close>

record adsc_write_params =
  wp_write_type :: nat
  wp_simulate :: bool
  wp_burnproof :: bool
  wp_cdtext :: bool

definition wparams_page_max :: nat where "wparams_page_max = 56"
definition mode_write_params :: u32 where "mode_write_params = 5"

type_synonym wp_page = "u8 list \<times> nat"

definition page_zero :: wp_page where
  "page_zero = (replicate wparams_page_max 0, 0)"

definition wp_capture :: "u8 list \<Rightarrow> nat \<Rightarrow> nat \<Rightarrow> wp_page" where
  "wp_capture buf len po =
     (let n = unat (buf ! (po + 1)) + 2;
          n = (if n > len - po then len - po else n);
          n = (if n > wparams_page_max then wparams_page_max else n)
      in (overlay (slice po n buf) (replicate wparams_page_max 0), n))"

section \<open>Programming the page\<close>

definition wp_byte2 :: "adsc_write_params \<Rightarrow> u8 \<Rightarrow> u8" where
  "wp_byte2 wp b =
     (b AND 0xe0) OR 0x02 OR (if wp_simulate wp then 0x10 else 0) OR (if wp_burnproof wp then 0x40 else 0)"

definition wp_edit :: "adsc_write_params \<Rightarrow> nat \<Rightarrow> u8 list \<Rightarrow> u8 list" where
  "wp_edit wp po buf = buf[
     po + 2 := wp_byte2 wp (buf ! (po + 2)),
     po + 3 := buf ! (po + 3) AND 0x3f,
     po + 4 := (buf ! (po + 4) AND 0xf0) OR (if wp_cdtext wp then 0x03 else 0x00),
     po + 8 := 0]"

text \<open>The outcome of \<open>wp_program\<close>: the return code and the captures before and as sent.\<close>

definition wp_program :: "'k kernel \<Rightarrow> adsc_write_params \<Rightarrow> 'k accudisc_device
    \<Rightarrow> unit res \<times> wp_page \<times> wp_page \<times> 'k accudisc_device" where
  "wp_program K wp dev =
     (let (rc, buf, dev) = adsc_mmc_mode_sense10 K mode_write_params (fresh_bytes K 64 (dev_k dev)) dev in
      case rc of Inl e \<Rightarrow> (Inl e, page_zero, page_zero, dev)
      | Inr (len, po) \<Rightarrow>
          if po + 9 > len then (Inl ERR_SHORT, page_zero, page_zero, dev)
          else
            let before = wp_capture buf len po;
                (rc, buf, dev) = adsc_mmc_mode_select10 K (wp_edit wp po buf) len po dev
            in
            if rc = Inr () \<or> \<not> wp_cdtext wp then (rc, before, wp_capture buf len po, dev)
            else
              let (rc, buf, dev) =
                    adsc_mmc_mode_select10 K (buf[po + 4 := buf ! (po + 4) AND 0xf0]) len po dev
              in (rc, before, wp_capture buf len po, dev))"

definition adsc_write_set_params :: "'k kernel \<Rightarrow> adsc_write_params \<Rightarrow> 'k accudisc_device
    \<Rightarrow> unit res \<times> 'k accudisc_device" where
  "adsc_write_set_params K wp dev = (let (rc, _, _, dev) = wp_program K wp dev in (rc, dev))"

definition adsc_write_set_params_sent :: "'k kernel \<Rightarrow> adsc_write_params \<Rightarrow> 'k accudisc_device
    \<Rightarrow> unit res \<times> wp_page \<times> 'k accudisc_device" where
  "adsc_write_set_params_sent K wp dev = (let (rc, _, sent, dev) = wp_program K wp dev in (rc, sent, dev))"

section \<open>Comparing pages\<close>

definition wp_fields_equal :: "u8 list \<Rightarrow> u8 list \<Rightarrow> bool" where
  "wp_fields_equal a b \<longleftrightarrow>
     (a ! 2 XOR b ! 2) AND 0x5f = 0 \<and> (a ! 3 XOR b ! 3) AND 0xc0 = 0
     \<and> (a ! 4 XOR b ! 4) AND 0x0f = 0 \<and> a ! 8 = b ! 8"

definition wp_pages_equal :: "wp_page \<Rightarrow> wp_page \<Rightarrow> bool" where
  "wp_pages_equal a b \<longleftrightarrow>
     snd a = snd b \<and> snd a \<ge> 1 \<and> (fst a ! 0 XOR fst b ! 0) AND 0x3f = 0
     \<and> slice 1 (snd a - 1) (fst a) = slice 1 (snd a - 1) (fst b)"

definition byte_differs :: "nat \<Rightarrow> u8 \<Rightarrow> u8 \<Rightarrow> bool" where
  "byte_differs i a b \<longleftrightarrow> (a XOR b) AND (if i = 0 then 0x3f else 0xff) \<noteq> 0"

definition wp_diff_bytes :: "wp_page \<Rightarrow> wp_page \<Rightarrow> nat" where
  "wp_diff_bytes a b =
     length (filter (\<lambda>i. byte_differs i (fst a ! i) (fst b ! i)) [0..<min (snd a) (snd b)])
     + (if snd a \<noteq> snd b then 1 else 0)"

record adsc_wparams_check =
  wc_held :: wp_page
  wc_diff_bytes :: nat
  wc_fields_ok :: bool
  wc_bad_write_type :: bool
  wc_bad_test_write :: bool
  wc_bad_bufe :: bool
  wc_bad_multisession :: bool
  wc_bad_block_type :: bool
  wc_bad_session_format :: bool

definition compare_pages :: "wp_page \<Rightarrow> wp_page \<Rightarrow> adsc_wparams_check" where
  "compare_pages sent held =
     (let s = fst sent; h = fst held in
      \<lparr> wc_held = held, wc_diff_bytes = wp_diff_bytes sent held, wc_fields_ok = wp_fields_equal s h,
        wc_bad_write_type = ((s ! 2 XOR h ! 2) AND 0x0f \<noteq> 0),
        wc_bad_test_write = ((s ! 2 XOR h ! 2) AND 0x10 \<noteq> 0),
        wc_bad_bufe = ((s ! 2 XOR h ! 2) AND 0x40 \<noteq> 0),
        wc_bad_multisession = ((s ! 3 XOR h ! 3) AND 0xc0 \<noteq> 0),
        wc_bad_block_type = ((s ! 4 XOR h ! 4) AND 0x0f \<noteq> 0),
        wc_bad_session_format = (s ! 8 \<noteq> h ! 8) \<rparr>)"

definition adsc_write_params_check :: "'k kernel \<Rightarrow> wp_page \<Rightarrow> 'k accudisc_device
    \<Rightarrow> adsc_wparams_check res \<times> 'k accudisc_device" where
  "adsc_write_params_check K sent dev =
     (if snd sent < 9 \<or> snd sent > wparams_page_max then (Inl ERR_INVAL, dev)
      else
        let (rc, buf, dev) = adsc_mmc_mode_sense10 K mode_write_params (fresh_bytes K 64 (dev_k dev)) dev in
        case rc of Inl e \<Rightarrow> (Inl e, dev)
        | Inr (len, po) \<Rightarrow>
            if po + 9 > len then (Inl ERR_SHORT, dev)
            else (Inr (compare_pages sent (wp_capture buf len po)), dev))"

section \<open>Round trip, read-out and restore\<close>

datatype wprt_stage = STAGE_NONE | STAGE_SELECT | STAGE_READBACK | STAGE_DONE

record adsc_wparams_roundtrip =
  rt_before :: wp_page
  rt_sent :: wp_page
  rt_after :: wp_page
  rt_diff_bytes :: nat
  rt_stage :: wprt_stage
  rt_page_ok :: bool
  rt_fields_ok :: bool
  rt_changed :: bool
  rt_ignored :: bool

definition roundtrip_verdict :: "wp_page \<Rightarrow> wp_page \<Rightarrow> wp_page \<Rightarrow> adsc_wparams_roundtrip" where
  "roundtrip_verdict before sent after =
     (let changed = (\<not> wp_pages_equal before sent); page_ok = wp_pages_equal sent after in
      \<lparr> rt_before = before, rt_sent = sent, rt_after = after, rt_diff_bytes = wp_diff_bytes sent after,
        rt_stage = STAGE_DONE, rt_page_ok = page_ok,
        rt_fields_ok = wp_fields_equal (fst sent) (fst after), rt_changed = changed,
        rt_ignored = (changed \<and> \<not> page_ok \<and> wp_pages_equal before after) \<rparr>)"

definition roundtrip_stopped :: "wprt_stage \<Rightarrow> wp_page \<Rightarrow> wp_page \<Rightarrow> adsc_wparams_roundtrip" where
  "roundtrip_stopped stage before sent =
     \<lparr> rt_before = before, rt_sent = sent, rt_after = page_zero, rt_diff_bytes = 0, rt_stage = stage,
       rt_page_ok = False, rt_fields_ok = False, rt_changed = False, rt_ignored = False \<rparr>"

definition adsc_write_params_roundtrip :: "'k kernel \<Rightarrow> adsc_write_params \<Rightarrow> 'k accudisc_device
    \<Rightarrow> unit res \<times> adsc_wparams_roundtrip \<times> 'k accudisc_device" where
  "adsc_write_params_roundtrip K wp dev =
     (let (rc, before, sent, dev) = wp_program K wp dev in
      if rc \<noteq> Inr () then (rc, roundtrip_stopped STAGE_SELECT before sent, dev)
      else
        let (rc, buf, dev) = adsc_mmc_mode_sense10 K mode_write_params (fresh_bytes K 64 (dev_k dev)) dev in
        case rc of Inl e \<Rightarrow> (Inl e, roundtrip_stopped STAGE_READBACK before sent, dev)
        | Inr (len, po) \<Rightarrow>
            if po + 9 > len then (Inl ERR_SHORT, roundtrip_stopped STAGE_READBACK before sent, dev)
            else (Inr (), roundtrip_verdict before sent (wp_capture buf len po), dev))"

definition decode_params :: "u8 list \<Rightarrow> adsc_write_params" where
  "decode_params p =
     \<lparr> wp_write_type = unat (p ! 2 AND 0x0f), wp_simulate = (p ! 2 AND 0x10 \<noteq> 0),
       wp_burnproof = (p ! 2 AND 0x40 \<noteq> 0), wp_cdtext = (p ! 4 AND 0x0f = 0x03) \<rparr>"

definition adsc_write_get_params :: "'k kernel \<Rightarrow> 'k accudisc_device
    \<Rightarrow> adsc_write_params res \<times> 'k accudisc_device" where
  "adsc_write_get_params K dev =
     (let (rc, buf, dev) = adsc_mmc_mode_sense10 K mode_write_params (fresh_bytes K 64 (dev_k dev)) dev in
      case rc of Inl e \<Rightarrow> (Inl e, dev)
      | Inr (len, po) \<Rightarrow>
          if po + 9 > len then (Inl ERR_SHORT, dev) else (Inr (decode_params (drop po buf)), dev))"

definition adsc_write_params_restore :: "'k kernel \<Rightarrow> u8 list \<Rightarrow> 'k accudisc_device
    \<Rightarrow> unit res \<times> 'k accudisc_device" where
  "adsc_write_params_restore K page dev =
     (if length page < 2 then (Inl ERR_INVAL, dev)
      else
        let (rc, buf, dev) = adsc_mmc_mode_sense10 K mode_write_params (fresh_bytes K 64 (dev_k dev)) dev in
        case rc of Inl e \<Rightarrow> (Inl e, dev)
        | Inr (len, po) \<Rightarrow>
            if po + length page > len \<or> buf ! (po + 1) \<noteq> page ! 1 \<or> length page \<noteq> unat (page ! 1) + 2
            then (Inl ERR_SHORT, dev)
            else
              let (rc, _, dev) = adsc_mmc_mode_select10 K (take po buf @ page @ drop (po + length page) buf) len po dev
              in (rc, dev))"

section \<open>What the page as sent says\<close>

lemma masked_agree:
  assumes "((a :: u8) XOR b) AND m = 0" and "m' AND m = m'"
  shows "a AND m' = b AND m'"
proof (rule bit_eqI)
  fix n assume "possible_bit TYPE(u8) n"
  have "\<not> bit ((a XOR b) AND m) n" "bit (m' AND m) n = bit m' n" using assms by simp_all
  then show "bit (a AND m') n = bit (b AND m') n" by (auto simp: bit_simps)
qed

lemma fields_equal_decode:
  assumes "wp_fields_equal s h"
  shows "decode_params h = decode_params s \<and> h ! 3 AND 0xc0 = s ! 3 AND 0xc0 \<and> h ! 8 = s ! 8"
proof -
  have "s ! 2 AND 0x0f = h ! 2 AND 0x0f" "s ! 2 AND 0x10 = h ! 2 AND 0x10" "s ! 2 AND 0x40 = h ! 2 AND 0x40"
    "s ! 3 AND 0xc0 = h ! 3 AND 0xc0" "s ! 4 AND 0x0f = h ! 4 AND 0x0f" "s ! 8 = h ! 8"
    using assms by (auto simp: wp_fields_equal_def intro: masked_agree)
  then show ?thesis by (simp add: decode_params_def)
qed

text \<open>The verdict of the check is the conjunction of its six fields.\<close>

lemma fields_ok_iff:
  "wc_fields_ok (compare_pages s h) \<longleftrightarrow>
     \<not> wc_bad_write_type (compare_pages s h) \<and> \<not> wc_bad_test_write (compare_pages s h)
     \<and> \<not> wc_bad_bufe (compare_pages s h) \<and> \<not> wc_bad_multisession (compare_pages s h)
     \<and> \<not> wc_bad_block_type (compare_pages s h) \<and> \<not> wc_bad_session_format (compare_pages s h)"
proof -
  have "x AND 0x5f = 0 \<longleftrightarrow> x AND 0x0f = 0 \<and> x AND 0x10 = 0 \<and> x AND 0x40 = 0" for x :: u8
  proof -
    have m: "(0x5f :: u8) = 0x0f OR 0x10 OR 0x40" by simp
    show ?thesis unfolding m by (simp only: bit.conj_disj_distrib or_eq_0_iff conj_assoc)
  qed
  then show ?thesis by (auto simp: compare_pages_def wp_fields_equal_def Let_def)
qed

text \<open>The second byte as programmed. Without \<open>burnproof\<close> the drive's own BUFE bit stays.\<close>

lemma wp_byte2_fields:
  "wp_byte2 wp b AND 0x0f = 0x02" "wp_byte2 wp b AND 0x10 \<noteq> 0 \<longleftrightarrow> wp_simulate wp"
  "wp_byte2 wp b AND 0x40 \<noteq> 0 \<longleftrightarrow> wp_burnproof wp \<or> b AND 0x40 \<noteq> 0"
proof -
  have d: "wp_byte2 wp b AND m = (b AND (0xe0 AND m)) OR (0x02 AND m)
      OR ((if wp_simulate wp then 0x10 else 0) AND m) OR ((if wp_burnproof wp then 0x40 else 0) AND m)" for m
    by (simp add: wp_byte2_def bit.conj_disj_distrib2 and.assoc)
  show "wp_byte2 wp b AND 0x0f = 0x02" by (simp add: d)
  show "wp_byte2 wp b AND 0x10 \<noteq> 0 \<longleftrightarrow> wp_simulate wp" by (simp add: d)
  show "wp_byte2 wp b AND 0x40 \<noteq> 0 \<longleftrightarrow> wp_burnproof wp \<or> b AND 0x40 \<noteq> 0" by (simp add: d or_eq_0_iff)
qed

lemma wp_masks:
  "((b AND 0x3f) AND 0xc0 :: u8) = 0" "((b AND 0xf0 OR 3) AND 0x0f :: u8) = 3" "((b AND 0xf0) AND 0x0f :: u8) = 0"
  by (simp_all add: bit.conj_disj_distrib2 and.assoc)

text \<open>Disc-At-Once, single session, CD-DA, with exactly the laser setting that was asked for.\<close>

definition burn_page :: "adsc_write_params \<Rightarrow> u8 list \<Rightarrow> bool" where
  "burn_page wp p \<longleftrightarrow>
     wp_write_type (decode_params p) = 2 \<and> wp_simulate (decode_params p) = wp_simulate wp
     \<and> (wp_burnproof wp \<longrightarrow> wp_burnproof (decode_params p)) \<and> (wp_cdtext (decode_params p) \<longrightarrow> wp_cdtext wp)
     \<and> p ! 3 AND 0xc0 = 0 \<and> p ! 8 = 0"

lemma capture_nth:
  assumes "i < snd (wp_capture buf len po)" and "len \<le> length buf" and "po \<le> len"
  shows "fst (wp_capture buf len po) ! i = buf ! (po + i)"
  using assms by (auto simp: wp_capture_def Let_def nth_overlay wparams_page_max_def split: if_splits)

lemma edited_burn_page:
  assumes "p ! 2 = wp_byte2 wp b2" and "p ! 3 = b3 AND 0x3f" and "p ! 8 = 0"
    and "p ! 4 = (b4 AND 0xf0) OR (if wp_cdtext wp then 0x03 else 0x00) \<or> p ! 4 = b4 AND 0xf0"
  shows "burn_page wp p"
  using assms by (auto simp: burn_page_def decode_params_def wp_byte2_fields wp_masks split: if_splits)

lemma burn_page_fields: "wp_fields_equal s h \<Longrightarrow> burn_page wp s \<Longrightarrow> burn_page wp h"
  using fields_equal_decode [of s h] by (simp add: burn_page_def)

lemma mode_sense_bounds:
  assumes "adsc_mmc_mode_sense10 K page buf dev = (Inr (len, po), buf', dev')"
  shows "len \<le> length buf' \<and> length buf' = length buf \<and> 8 \<le> po"
  using assms by (auto simp: adsc_mmc_mode_sense10_def Let_def split: prod.splits sum.splits if_splits)

lemma mode_select_buf:
  assumes "adsc_mmc_mode_select10 K buf len po dev = (rc, buf', dev')" and "po < len" and "8 \<le> po"
  shows "length buf' = length buf \<and> (\<forall>i > po. buf' ! i = buf ! i)"
  using assms by (auto simp: adsc_mmc_mode_select10_def Let_def split: prod.splits if_splits)

lemma sent_page:
  assumes "adsc_write_set_params_sent K wp dev = (rc, sent, dev1)" and "9 \<le> snd sent"
  shows "burn_page wp (fst sent)"
proof -
  obtain before where p: "wp_program K wp dev = (rc, before, sent, dev1)"
    using assms(1) by (auto simp: adsc_write_set_params_sent_def split: prod.splits)
  obtain m buf d where sense: "adsc_mmc_mode_sense10 K mode_write_params (fresh_bytes K 64 (dev_k dev)) dev = (m, buf, d)"
    by (metis prod_cases3)
  show ?thesis
  proof (cases m)
    case (Inl e)
    then show ?thesis using p sense assms(2) by (auto simp: wp_program_def page_zero_def)
  next
    case (Inr lp)
    obtain len po where lp: "lp = (len, po)" by fastforce
    note b = mode_sense_bounds [OF sense [unfolded Inr lp]]
    have room: "po + 9 \<le> len"
      using p sense assms(2) Inr lp by (auto simp: wp_program_def page_zero_def split: if_splits)
    define e where "e = wp_edit wp po buf"
    have e: "e ! (po + 2) = wp_byte2 wp (buf ! (po + 2))" "e ! (po + 3) = buf ! (po + 3) AND 0x3f" "e ! (po + 8) = 0"
      "e ! (po + 4) = (buf ! (po + 4) AND 0xf0) OR (if wp_cdtext wp then 0x03 else 0x00)" "length e = length buf"
      using b room by (simp_all add: e_def wp_edit_def)
    obtain rc1 buf1 d1 where s1: "adsc_mmc_mode_select10 K e len po d = (rc1, buf1, d1)" by (metis prod_cases3)
    obtain rc2 buf2 d2 where s2: "adsc_mmc_mode_select10 K (buf1[po + 4 := buf1 ! (po + 4) AND 0xf0]) len po d1 = (rc2, buf2, d2)"
      by (metis prod_cases3)
    note b1 = mode_select_buf [OF s1] and b2 = mode_select_buf [OF s2]
    have f: "(e ! (po + 4)) AND 0xf0 = buf ! (po + 4) AND 0xf0"
      by (simp add: e bit.conj_disj_distrib2 and.assoc)
    have "sent = wp_capture buf1 len po \<or> sent = wp_capture buf2 len po"
      using p sense Inr lp room s1 s2 by (auto simp: wp_program_def Let_def e_def [symmetric] split: if_splits)
    then show ?thesis
    proof
      assume s: "sent = wp_capture buf1 len po"
      have "fst sent ! i = e ! (po + i)" if "0 < i" "i < 9" for i
        using that capture_nth [of i buf1 len po] s assms(2) b b1 e room by simp
      then show ?thesis using e by (intro edited_burn_page) auto
    next
      assume s: "sent = wp_capture buf2 len po"
      have "fst sent ! i = (if i = 4 then e ! (po + 4) AND 0xf0 else e ! (po + i))" if "0 < i" "i < 9" for i
        using that capture_nth [of i buf2 len po] s assms(2) b b1 b2 e room by (auto simp: nth_list_update)
      then show ?thesis using e f by (intro edited_burn_page) auto
    qed
  qed
qed

lemma params_check_held:
  assumes "adsc_write_params_check K sent dev = (Inr c, dev')"
  shows "9 \<le> snd sent \<and> c = compare_pages sent (wc_held c)"
  using assms by (auto simp: adsc_write_params_check_def compare_pages_def Let_def split: prod.splits sum.splits if_splits)

text \<open>
  A page the read-back accepts is a page for this burn: Disc-At-Once, one session, CD-DA, and with
  the Test Write bit exactly as asked, whatever the drive did with the page it was sent.
\<close>

lemma accepted_page:
  assumes "adsc_write_set_params_sent K wp dev = (rc, sent, dev1)"
    and "adsc_write_params_check K sent dev2 = (Inr c, dev3)" and "wc_fields_ok c"
  shows "burn_page wp (fst (wc_held c))"
proof -
  note h = params_check_held [OF assms(2)]
  have "wp_fields_equal (fst sent) (fst (wc_held c))"
    using h assms(3) by (metis adsc_wparams_check.select_convs(3) compare_pages_def)
  then show ?thesis using sent_page [OF assms(1)] h by (blast intro: burn_page_fields)
qed

text \<open>
  Turning BURN-Proof off does not turn it off: a drive that holds the BUFE bit is sent it back, and
  the read-back, which compares with what was sent, agrees.
\<close>

lemma burnproof_off_stays_on:
  assumes "\<not> wp_burnproof wp" and "b AND 0x40 \<noteq> 0"
  shows "wp_byte2 wp b AND 0x40 \<noteq> 0"
  using assms by (simp add: wp_byte2_fields)

end
