(* ===== verification/Features.thy ===== *)
theory Features
  imports Drive
begin

text \<open>
  What a drive claims and what it does (\<^verbatim>\<open>src/drive/features.c\<close>): the CD Read and CD Mastering
  descriptors, the smoke reads that check a claim, and the probe for positionally exact reads.
  The vendor driver's write governor is a parameter: it answers whether it is on and the rate it
  recommends, or that it cannot be asked.
\<close>

datatype accudisc_c2_verdict = C2_UNSUPPORTED | C2_SUPPORTED | C2_UNVERIFIED
datatype features_medium = MEDIUM_UNKNOWN | MEDIUM_NONE | MEDIUM_NO_AUDIO | MEDIUM_AUDIO

record accudisc_features =
  ft_feature_present :: bool
  ft_current :: bool
  ft_dap :: bool
  ft_c2_claimed :: bool
  ft_cdtext_claimed :: bool
  ft_ok_c2 :: bool
  ft_ok_sub_raw :: bool
  ft_ok_sub_q :: bool
  ft_ok_c2_sub_raw :: bool
  ft_ok_c2_sub_q :: bool
  ft_c2_verdict :: accudisc_c2_verdict
  ft_mastering_present :: bool
  ft_mastering_current :: bool
  ft_buf_claimed :: bool
  ft_sao_claimed :: bool
  ft_test_write_claimed :: bool
  ft_governor_known :: bool
  ft_governor_on :: bool
  ft_medium :: features_medium
  ft_governor_recommended_kbps :: u32

definition features_zero :: accudisc_features where
  "features_zero = \<lparr> ft_feature_present = False, ft_current = False, ft_dap = False, ft_c2_claimed = False,
     ft_cdtext_claimed = False, ft_ok_c2 = False, ft_ok_sub_raw = False, ft_ok_sub_q = False,
     ft_ok_c2_sub_raw = False, ft_ok_c2_sub_q = False, ft_c2_verdict = C2_UNSUPPORTED,
     ft_mastering_present = False, ft_mastering_current = False, ft_buf_claimed = False,
     ft_sao_claimed = False, ft_test_write_claimed = False, ft_governor_known = False,
     ft_governor_on = False, ft_medium = MEDIUM_UNKNOWN, ft_governor_recommended_kbps = 0 \<rparr>"

definition feature_cd_read :: nat where "feature_cd_read = 0x001E"
definition feature_cd_mastering :: nat where "feature_cd_mastering = 0x002E"

definition cd_read_feature :: "'k kernel \<Rightarrow> accudisc_features \<Rightarrow> 'k accudisc_device
    \<Rightarrow> bool \<times> accudisc_features \<times> 'k accudisc_device" where
  "cd_read_feature K f dev =
     (let (rc, buf, dev) = adsc_mmc_get_configuration K (word_of_nat feature_cd_read) (replicate 64 0) dev in
      if rc \<noteq> Inr () \<or> be16 buf 8 \<noteq> feature_cd_read then (False, f, dev)
      else (True, f\<lparr> ft_feature_present := True, ft_current := bit (buf ! 10) 0, ft_dap := bit (buf ! 12) 7,
                     ft_c2_claimed := bit (buf ! 12) 1, ft_cdtext_claimed := bit (buf ! 12) 0 \<rparr>, dev))"

definition adsc_probe_cd_mastering :: "'k kernel \<Rightarrow> accudisc_features \<Rightarrow> 'k accudisc_device
    \<Rightarrow> bool \<times> accudisc_features \<times> 'k accudisc_device" where
  "adsc_probe_cd_mastering K f dev =
     (let (rc, buf, dev) = adsc_mmc_get_configuration K (word_of_nat feature_cd_mastering) (replicate 64 0) dev in
      if rc \<noteq> Inr () \<or> be16 buf 8 \<noteq> feature_cd_mastering then (False, f, dev)
      else (True, f\<lparr> ft_mastering_present := True, ft_mastering_current := bit (buf ! 10) 0,
                     ft_buf_claimed := bit (buf ! 12) 6, ft_sao_claimed := bit (buf ! 12) 5,
                     ft_test_write_claimed := bit (buf ! 12) 2 \<rparr>, dev))"

definition combo_smoke :: "'k kernel \<Rightarrow> u32 \<Rightarrow> u32 \<Rightarrow> u32 \<Rightarrow> 'k accudisc_device \<Rightarrow> bool \<times> 'k accudisc_device" where
  "combo_smoke K lba c2 sub dev =
     (let sector_len = unat (adsc_read_cd_sector_len c2 sub);
          (rc, _, dev) = adsc_mmc_read_cd K lba 3 1 c2 sub (fresh_bytes K (3 * sector_len) (dev_k dev)) sector_len dev
      in (rc = Inr (), dev))"

section \<open>Accurate stream\<close>

definition as_span :: nat where "as_span = 12"

text \<open>One staggered reread behind a throwaway read far away: \<open>None\<close> for an agreement.\<close>

definition staggered :: "'k kernel \<Rightarrow> u32 \<Rightarrow> u8 list \<Rightarrow> nat \<Rightarrow> u8 list \<Rightarrow> 'k accudisc_device
    \<Rightarrow> bool res \<times> u8 list \<times> 'k accudisc_device" where
  "staggered K lba base k shifted dev =
     (let (_, shifted, dev) = adsc_mmc_read_cd K (lba + 5000) 1 1 0 0 shifted 2352 dev;
          (rc, shifted, dev) = adsc_mmc_read_cd K (lba + word_of_nat k) as_span 1 0 0 shifted 2352 dev
      in case rc of Inl e \<Rightarrow> (Inl e, shifted, dev)
      | Inr _ \<Rightarrow>
          (Inr (slice (k * 2352) ((as_span - k) * 2352) base = take ((as_span - k) * 2352) shifted), shifted, dev))"

fun staggered_all :: "'k kernel \<Rightarrow> u32 \<Rightarrow> u8 list \<Rightarrow> nat list \<Rightarrow> u8 list \<Rightarrow> 'k accudisc_device
    \<Rightarrow> bool res \<times> 'k accudisc_device" where
  "staggered_all K lba base [] shifted dev = (Inr True, dev)"
| "staggered_all K lba base (k # ks) shifted dev =
     (case staggered K lba base k shifted dev of
        (Inl e, _, dev) \<Rightarrow> (Inl e, dev)
      | (Inr agrees, shifted, dev) \<Rightarrow>
          if agrees then staggered_all K lba base ks shifted dev else (Inr False, dev))"

definition accudisc_probe_accurate_stream :: "'k kernel \<Rightarrow> u32 \<Rightarrow> 'k accudisc_device
    \<Rightarrow> bool res \<times> 'k accudisc_device" where
  "accudisc_probe_accurate_stream K lba dev =
     (let (rc, base, dev) = adsc_mmc_read_cd K lba as_span 1 0 0 (fresh_bytes K (as_span * 2352) (dev_k dev)) 2352 dev
      in case rc of Inl e \<Rightarrow> (Inl e, dev)
      | Inr _ \<Rightarrow> staggered_all K lba base [1, 5, 9] (fresh_bytes K (as_span * 2352) (dev_k dev)) dev)"

section \<open>The feature probe\<close>

definition first_audio_lba :: "'k kernel \<Rightarrow> 'k accudisc_device \<Rightarrow> u32 \<times> 'k accudisc_device" where
  "first_audio_lba K dev =
     (case dev_read_toc K dev of
        (Inl _, dev) \<Rightarrow> (0, dev)
      | (Inr t, dev) \<Rightarrow>
          (case find track_is_audio (toc_tracks t) of Some x \<Rightarrow> trk_lba x | None \<Rightarrow> 0, dev))"

definition medium_of :: "accudisc_disc_probe res \<Rightarrow> features_medium" where
  "medium_of rc =
     (case rc of
        Inl _ \<Rightarrow> MEDIUM_UNKNOWN
      | Inr dp \<Rightarrow>
          if dp_kind dp = DISC_AUDIO then MEDIUM_AUDIO
          else if dp_reason dp = WHY_NO_MEDIUM then MEDIUM_NONE
          else if dp_reason dp = WHY_UNREADABLE \<or> (dp_reason dp = WHY_NOT_CD_PROFILE \<and> dp_profile dp = 0)
          then MEDIUM_UNKNOWN
          else MEDIUM_NO_AUDIO)"

definition smoke_reads :: "'k kernel \<Rightarrow> u32 \<Rightarrow> accudisc_features \<Rightarrow> 'k accudisc_device
    \<Rightarrow> bool \<times> accudisc_features \<times> 'k accudisc_device" where
  "smoke_reads K lba f dev =
     (let (ok1, dev) = combo_smoke K lba 1 0 dev;
          no_medium = (\<not> ok1 \<and> sn_valid (dev_last_sense dev) \<and> sn_key (dev_last_sense dev) = 0x02);
          (ok2, dev) = combo_smoke K lba 0 1 dev;
          (ok3, dev) = combo_smoke K lba 0 2 dev;
          (ok4, dev) = combo_smoke K lba 1 1 dev;
          (ok5, dev) = combo_smoke K lba 1 2 dev
      in (no_medium, f\<lparr> ft_ok_c2 := ok1, ft_ok_sub_raw := ok2, ft_ok_sub_q := ok3, ft_ok_c2_sub_raw := ok4,
                        ft_ok_c2_sub_q := ok5 \<rparr>, dev))"

type_synonym 'k governor = "'k accudisc_device \<Rightarrow> (bool \<times> u32) res \<times> 'k accudisc_device"

definition ask_governor :: "'k governor \<Rightarrow> accudisc_features \<Rightarrow> 'k accudisc_device
    \<Rightarrow> accudisc_features \<times> 'k accudisc_device" where
  "ask_governor G f dev =
     (case G dev of
        (Inl _, dev) \<Rightarrow> (f, dev)
      | (Inr (on, rec), dev) \<Rightarrow>
          (f\<lparr> ft_governor_known := True, ft_governor_on := on,
              ft_governor_recommended_kbps := (if ft_medium f = MEDIUM_NONE then 0 else rec) \<rparr>, dev))"

definition c2_verdict :: "bool \<Rightarrow> bool \<Rightarrow> bool \<Rightarrow> accudisc_features \<Rightarrow> accudisc_c2_verdict" where
  "c2_verdict smoke no_medium have_feat f =
     (if \<not> smoke \<or> no_medium then C2_UNVERIFIED
      else if \<not> ft_ok_c2 f then C2_UNSUPPORTED
      else if have_feat \<and> ft_c2_claimed f then C2_SUPPORTED
      else C2_UNVERIFIED)"

definition accudisc_probe_features :: "'k kernel \<Rightarrow> 'k governor \<Rightarrow> 'k accudisc_device
    \<Rightarrow> accudisc_features \<times> 'k accudisc_device" where
  "accudisc_probe_features K G dev =
     (let (have_feat, f, dev) = cd_read_feature K features_zero dev;
          (_, f, dev) = adsc_probe_cd_mastering K f dev;
          (dp, dev) = accudisc_probe_disc K dev;
          f = f\<lparr> ft_medium := medium_of dp \<rparr>;
          smoke = (ft_medium f = MEDIUM_AUDIO \<or> ft_medium f = MEDIUM_UNKNOWN);
          (lba, dev) = (if ft_medium f = MEDIUM_AUDIO then first_audio_lba K dev else (0, dev));
          (no_medium, f, dev) = (if smoke then smoke_reads K lba f dev else (False, f, dev));
          (f, dev) = ask_governor G f dev
      in (f\<lparr> ft_c2_verdict := c2_verdict smoke no_medium have_feat f \<rparr>, dev))"

section \<open>What a verdict rests on\<close>

lemma smoke_reads_keeps:
  "smoke_reads K lba f dev = (nm, f', dev') \<Longrightarrow>
     ft_c2_claimed f' = ft_c2_claimed f \<and> ft_medium f' = ft_medium f \<and> ft_feature_present f' = ft_feature_present f"
  by (auto simp: smoke_reads_def Let_def split: prod.splits)

lemma ask_governor_keeps:
  "ask_governor G f dev = (f', dev') \<Longrightarrow>
     ft_c2_claimed f' = ft_c2_claimed f \<and> ft_medium f' = ft_medium f \<and> ft_ok_c2 f' = ft_ok_c2 f
     \<and> ft_feature_present f' = ft_feature_present f"
  by (auto simp: ask_governor_def split: prod.splits sum.splits)

text \<open>
  A verdict of support needs both the drive's claim and a read that worked; a verdict against
  it is never given of a tray that is known to hold no audio.
\<close>

lemma c2_verdict_rests:
  assumes "accudisc_probe_features K G dev = (f, dev')"
  shows "(ft_c2_verdict f = C2_SUPPORTED \<longrightarrow> ft_c2_claimed f \<and> ft_ok_c2 f)
    \<and> (ft_c2_verdict f = C2_UNSUPPORTED \<longrightarrow> \<not> ft_ok_c2 f \<and> ft_medium f \<in> {MEDIUM_AUDIO, MEDIUM_UNKNOWN})"
  using assms
  by (auto simp: accudisc_probe_features_def Let_def c2_verdict_def split: prod.splits if_splits
      dest!: smoke_reads_keeps ask_governor_keeps)

end
