(* ===== verification/Burn.thy ===== *)
theory Burn
  imports WParams Features CueSheet CdTextBlob
begin

text \<open>
  The Disc-At-Once burn (\<^verbatim>\<open>src/write/burn.c\<close>): write parameters, speed, read-back, blank
  check, calibration, cue sheet, CD-Text lead-in, gap, audio, close - and the one exit every
  failure takes. The source file, the clock and what the write buffer hands over are arguments;
  theory Wfifo says what the buffer can hand over. Log and trace lines and the progress callback
  are left out: they read the state and change nothing.
\<close>

section \<open>Data\<close>

definition burn_sector :: nat where "burn_sector = 2352"
definition burn_chunk :: nat where "burn_chunk = 27"
definition leadin_gap :: nat where "leadin_gap = 150"
definition cdt_chunk :: nat where "cdt_chunk = 640"
definition rw_block_bytes :: nat where "rw_block_bytes = 96"
definition cue_max_bytes :: nat where "cue_max_bytes = 3200"
definition stall_poll_ms :: nat where "stall_poll_ms = 40"
definition stall_cap_ms :: nat where "stall_cap_ms = 120000"
definition buf_low_pct :: nat where "buf_low_pct = 25"
definition buf_poll_every :: nat where "buf_poll_every = 8"
definition speed_climb_max :: nat where "speed_climb_max = 8"

fun byteswap16 :: "u8 list \<Rightarrow> u8 list" where
  "byteswap16 (a # b # r) = b # a # byteswap16 r"
| "byteswap16 r = r"

datatype burnproof_mode = BURNPROOF_AUTO | BURNPROOF_OFF | BURNPROOF_ON

record adsc_burn_opts =
  bo_simulate :: bool
  bo_byteswap :: bool
  bo_speed :: nat
  bo_burnproof :: burnproof_mode

record write_flow =
  fl_stalls :: nat
  fl_stall_ms :: nat
  fl_worst_ms :: nat
  fl_worst_lba :: u32
  fl_stalling_chunks :: nat
  fl_cap_live :: bool
  fl_cap_total :: nat
  fl_min_fill_pct :: nat
  fl_last_fill_pct :: nat
  fl_polls :: nat
  fl_low_samples :: nat
  fl_cap_varied :: bool
  fl_first_total :: nat
  fl_first_blank :: nat
  fl_burnproof_claimed :: bool
  fl_burnproof_on :: bool
  fl_fifo_starved :: nat

definition flow_zero :: write_flow where
  "flow_zero = \<lparr> fl_stalls = 0, fl_stall_ms = 0, fl_worst_ms = 0, fl_worst_lba = 0, fl_stalling_chunks = 0,
     fl_cap_live = False, fl_cap_total = 0, fl_min_fill_pct = 0, fl_last_fill_pct = 0, fl_polls = 0,
     fl_low_samples = 0, fl_cap_varied = False, fl_first_total = 0, fl_first_blank = 0,
     fl_burnproof_claimed = False, fl_burnproof_on = False, fl_fifo_starved = 0 \<rparr>"

section \<open>Flow control\<close>

definition note_fill :: "nat \<Rightarrow> nat \<Rightarrow> write_flow \<Rightarrow> write_flow" where
  "note_fill cap blank fl =
     (let fl = (if fl_polls fl = 0 then fl\<lparr> fl_first_total := cap, fl_first_blank := blank \<rparr>
                else if cap \<noteq> fl_first_total fl \<or> blank \<noteq> fl_first_blank fl then fl\<lparr> fl_cap_varied := True \<rparr>
                else fl);
          pct = (cap - blank) * 100 div cap
      in fl\<lparr> fl_cap_total := cap, fl_min_fill_pct := min pct (fl_min_fill_pct fl),
             fl_low_samples := fl_low_samples fl + (if pct < buf_low_pct then 1 else 0),
             fl_last_fill_pct := pct, fl_polls := fl_polls fl + 1 \<rparr>)"

definition buf_sample :: "'k kernel \<Rightarrow> write_flow \<Rightarrow> 'k accudisc_device \<Rightarrow> write_flow \<times> 'k accudisc_device" where
  "buf_sample K fl dev =
     (if \<not> fl_cap_live fl then (fl, dev)
      else case adsc_mmc_read_buffer_capacity K dev of
        (Inl _, dev) \<Rightarrow> (fl\<lparr> fl_cap_live := False \<rparr>, dev)
      | (Inr (cap, blank), dev) \<Rightarrow> (note_fill cap blank fl, dev))"

definition long_write :: "accudisc_sense \<Rightarrow> bool" where
  "long_write s \<longleftrightarrow> sn_key s = 0x02 \<and> sn_asc s = 0x04 \<and> sn_ascq s = 0x08"

definition note_holdoff :: "nat \<Rightarrow> u32 \<Rightarrow> write_flow \<Rightarrow> write_flow" where
  "note_holdoff waited lba fl =
     (let fl = (if waited > 0 then fl\<lparr> fl_stalling_chunks := fl_stalling_chunks fl + 1 \<rparr> else fl) in
      if waited > fl_worst_ms fl then fl\<lparr> fl_worst_ms := waited, fl_worst_lba := lba \<rparr> else fl)"

function write_chunk_loop :: "'k kernel \<Rightarrow> u32 \<Rightarrow> u8 list \<Rightarrow> nat \<Rightarrow> nat \<Rightarrow> nat \<Rightarrow> write_flow \<Rightarrow> 'k accudisc_device
    \<Rightarrow> unit res \<times> write_flow \<times> 'k accudisc_device" where
  "write_chunk_loop K lba buf n bs waited fl dev =
     (let (rc, dev) = adsc_mmc_write10 K lba n buf bs dev in
      if rc = Inr () then (rc, note_holdoff waited lba fl, dev)
      else if rc = Inl ERR_SENSE \<and> long_write (dev_last_sense dev)
      then if waited \<ge> stall_cap_ms then (rc, fl, dev)
           else write_chunk_loop K lba buf n bs (waited + stall_poll_ms)
                  (fl\<lparr> fl_stalls := fl_stalls fl + 1, fl_stall_ms := fl_stall_ms fl + stall_poll_ms \<rparr>)
                  (adsc_sleep_ms K stall_poll_ms dev)
      else (rc, fl, dev))"
  by auto
termination
  by (relation "measure (\<lambda>(K, lba, buf, n, bs, waited, fl, dev). stall_cap_ms - waited)")
     (auto simp: stall_cap_ms_def stall_poll_ms_def)

declare write_chunk_loop.simps [simp del]

definition write_chunk :: "'k kernel \<Rightarrow> u32 \<Rightarrow> u8 list \<Rightarrow> nat \<Rightarrow> nat \<Rightarrow> write_flow \<Rightarrow> 'k accudisc_device
    \<Rightarrow> unit res \<times> write_flow \<times> 'k accudisc_device" where
  "write_chunk K lba buf n bs fl dev = write_chunk_loop K lba buf n bs 0 fl dev"

section \<open>The CD-Text lead-in and the gap\<close>

text \<open>The ring of R-W blocks, from block \<open>scp\<close> on: the bytes of the next \<open>n\<close> blocks.\<close>

definition ring_blocks :: "u8 list \<Rightarrow> nat \<Rightarrow> nat \<Rightarrow> nat \<Rightarrow> u8 list" where
  "ring_blocks blocks nblocks scp n =
     concat (map (\<lambda>i. slice (((scp + i) mod nblocks) * rw_block_bytes) rw_block_bytes blocks) [0..<n])"

function leadin_loop :: "'k kernel \<Rightarrow> u8 list \<Rightarrow> nat \<Rightarrow> nat \<Rightarrow> u32 \<Rightarrow> nat \<Rightarrow> write_flow \<Rightarrow> 'k accudisc_device
    \<Rightarrow> unit res \<times> write_flow \<times> 'k accudisc_device" where
  "leadin_loop K blocks nblocks scp lba left fl dev =
     (if left = 0 then (Inr (), fl, dev)
      else
        let n = min left cdt_chunk;
            (rc, fl, dev) = write_chunk K lba (ring_blocks blocks nblocks scp n) n rw_block_bytes fl dev
        in if rc \<noteq> Inr () then (rc, fl, dev)
           else leadin_loop K blocks nblocks ((scp + n) mod nblocks) (lba + word_of_nat n) (left - n) fl dev)"
  by auto
termination
  by (relation "measure (\<lambda>(K, blocks, nblocks, scp, lba, left, fl, dev). left)") (auto simp: cdt_chunk_def)

declare leadin_loop.simps [simp del]

definition cdtext_packs :: "u8 list \<Rightarrow> u8 list list" where
  "cdtext_packs blob = map (\<lambda>i. slice (4 + i * 18) 18 blob) [0..<(length blob - 4) div 18]"

definition write_cdtext_leadin :: "'k kernel \<Rightarrow> u8 list \<Rightarrow> adsc_disc_info \<Rightarrow> write_flow \<Rightarrow> 'k accudisc_device
    \<Rightarrow> unit res \<times> write_flow \<times> 'k accudisc_device" where
  "write_cdtext_leadin K blob di fl dev =
     (let packs = cdtext_packs blob; nblocks = adsc_cdtext_rw_block_count (length packs) in
      if packs = [] \<or> nblocks = 0 \<or> di_leadin_len di = 0 then (Inl ERR_INVAL, fl, dev)
      else case adsc_cdtext_encode_rw packs of
        Inl e \<Rightarrow> (Inl e, fl, dev)
      | Inr blocks \<Rightarrow>
          leadin_loop K blocks nblocks 0 (- word_of_nat leadin_gap - di_leadin_len di)
            (unat (di_leadin_len di)) fl dev)"

function gap_loop :: "'k kernel \<Rightarrow> u32 \<Rightarrow> nat \<Rightarrow> write_flow \<Rightarrow> 'k accudisc_device
    \<Rightarrow> unit res \<times> write_flow \<times> 'k accudisc_device" where
  "gap_loop K lba left fl dev =
     (if left = 0 then (Inr (), fl, dev)
      else
        let n = min left burn_chunk;
            (rc, fl, dev) = write_chunk K lba (replicate (burn_chunk * burn_sector) 0) n burn_sector fl dev
        in if rc \<noteq> Inr () then (rc, fl, dev)
           else gap_loop K (lba + word_of_nat n) (left - n) fl dev)"
  by auto
termination
  by (relation "measure (\<lambda>(K, lba, left, fl, dev). left)") (auto simp: burn_chunk_def)

declare gap_loop.simps [simp del]

section \<open>Before the session: parameters, speed, checks\<close>

fun climb_speed :: "'k kernel \<Rightarrow> u16 \<Rightarrow> nat \<Rightarrow> nat \<Rightarrow> 'k accudisc_device \<Rightarrow> unit res \<times> 'k accudisc_device" where
  "climb_speed K read_kbps kbps climbs dev =
     (let (rc, dev) = adsc_mmc_set_cd_speed K read_kbps (word_of_nat kbps) 0 dev; s = dev_last_sense dev in
      if rc = Inr () then (rc, dev)
      else if \<not> (rc = Inl ERR_SENSE \<and> sn_key s = 0x05 \<and> sn_asc s = 0x24) then (rc, dev)
      else case climbs of 0 \<Rightarrow> (rc, dev)
        | Suc c \<Rightarrow> if kbps + 177 > 0xFFFF then (rc, dev) else climb_speed K read_kbps (kbps + 177) c dev)"

declare climb_speed.simps [simp del]

text \<open>The outcome and the speed the drive then states, \<open>0\<close> when it states none.\<close>

definition stated_kbps :: "'k kernel \<Rightarrow> 'k accudisc_device \<Rightarrow> nat \<times> 'k accudisc_device" where
  "stated_kbps K dev =
     (case adsc_dev_cur_write_kbps K dev of (Inl _, dev) \<Rightarrow> (0, dev) | (Inr kbps, dev) \<Rightarrow> (kbps, dev))"

definition set_write_speed :: "'k kernel \<Rightarrow> nat \<Rightarrow> 'k accudisc_device \<Rightarrow> unit res \<times> nat \<times> 'k accudisc_device" where
  "set_write_speed K speed_x dev =
     (let (sp, dev) = accudisc_get_speed K dev;
          read_kbps = (case sp of Inr (_, cur) \<Rightarrow> if cur > 0 then word_of_nat cur else 0xFFFF | Inl _ \<Rightarrow> 0xFFFF);
          (rc, dev) = climb_speed K read_kbps (unat (adsc_cd_speed_kbps (word_of_nat speed_x))) speed_climb_max dev
      in if rc \<noteq> Inr () then (rc, 0, dev)
         else let (kbps, dev) = stated_kbps K dev in (rc, kbps, dev))"

definition check_write_params :: "'k kernel \<Rightarrow> wp_page \<Rightarrow> 'k accudisc_device \<Rightarrow> unit res \<times> 'k accudisc_device" where
  "check_write_params K sent dev =
     (case adsc_write_params_check K sent dev of
        (Inl e, dev) \<Rightarrow> (Inl e, dev)
      | (Inr wc, dev) \<Rightarrow> (if wc_fields_ok wc then Inr () else Inl ERR_WRITE_PARAMS, dev))"

definition read_disc_info :: "'k kernel \<Rightarrow> 'k accudisc_device \<Rightarrow> adsc_disc_info res \<times> 'k accudisc_device" where
  "read_disc_info K dev =
     (let (rc, buf, dev) = adsc_mmc_read_disc_info K (fresh_bytes K 34 (dev_k dev)) dev in
      (adsc_write_read_disc_info (case rc of Inl e \<Rightarrow> Inl e | Inr len \<Rightarrow> Inr (buf, len)), dev))"

definition burn_claims :: "'k kernel \<Rightarrow> adsc_burn_opts \<Rightarrow> 'k accudisc_device \<Rightarrow> bool \<times> bool \<times> 'k accudisc_device" where
  "burn_claims K opts dev =
     (let (ok, caps, dev) = adsc_probe_cd_mastering K features_zero dev;
          claimed = (ok \<and> ft_buf_claimed caps)
      in (claimed,
          (case bo_burnproof opts of BURNPROOF_OFF \<Rightarrow> False | BURNPROOF_ON \<Rightarrow> True | BURNPROOF_AUTO \<Rightarrow> claimed), dev))"

definition calibrate :: "'k kernel \<Rightarrow> adsc_burn_opts \<Rightarrow> wp_page \<Rightarrow> 'k accudisc_device \<Rightarrow> unit res \<times> 'k accudisc_device" where
  "calibrate K opts sent dev =
     (if bo_simulate opts then (Inr (), dev)
      else
        let (rc, dev) = adsc_mmc_send_opc K dev; s = dev_last_sense dev;
            rc = (if rc = Inl ERR_SENSE \<and> sn_key s = 0x05 \<and> sn_asc s = 0x20 then Inr () else rc)
        in if rc \<noteq> Inr () then (rc, dev) else check_write_params K sent dev)"

definition has_cdtext :: "u8 list option \<Rightarrow> bool" where
  "has_cdtext cdtext \<longleftrightarrow> (case cdtext of Some blob \<Rightarrow> length blob \<ge> 22 | None \<Rightarrow> False)"

definition burn_params :: "adsc_burn_opts \<Rightarrow> u8 list option \<Rightarrow> bool \<Rightarrow> adsc_write_params" where
  "burn_params opts cdtext burnproof =
     \<lparr> wp_write_type = 0, wp_simulate = bo_simulate opts, wp_burnproof = burnproof,
       wp_cdtext = has_cdtext cdtext \<rparr>"

text \<open>Steps 1 to 3: the drive is programmed and asked, the disc is asked, the laser calibrated.\<close>

definition burn_setup :: "'k kernel \<Rightarrow> adsc_burn_opts \<Rightarrow> u8 list option \<Rightarrow> 'k accudisc_device
    \<Rightarrow> adsc_disc_info res \<times> write_flow \<times> 'k accudisc_device" where
  "burn_setup K opts cdtext dev =
     (let (claimed, burnproof, dev) = burn_claims K opts dev;
          fl = flow_zero\<lparr> fl_burnproof_claimed := claimed, fl_burnproof_on := burnproof \<rparr>;
          (rc, sent, dev) = adsc_write_set_params_sent K (burn_params opts cdtext burnproof) dev
      in case rc of Inl e \<Rightarrow> (Inl e, fl, dev)
      | Inr _ \<Rightarrow>
          let dev = (if bo_speed opts > 0 then snd (snd (set_write_speed K (bo_speed opts) dev))
                     else snd (stated_kbps K dev));
              (rc, dev) = check_write_params K sent dev
          in case rc of Inl e \<Rightarrow> (Inl e, fl, dev)
          | Inr _ \<Rightarrow>
              let (di, dev) = read_disc_info K dev in
              case di of Inl e \<Rightarrow> (Inl e, fl, dev)
              | Inr d \<Rightarrow>
                  if di_status d \<noteq> 0 then (Inl ERR_NOT_BLANK, fl, dev)
                  else let (rc, dev) = calibrate K opts sent dev in
                    (case rc of Inl e \<Rightarrow> Inl e | Inr _ \<Rightarrow> Inr d, fl, dev))"

text \<open>Step 4: the cue sheet, which opens the session when the drive takes it.\<close>

definition send_cue :: "'k kernel \<Rightarrow> adsc_write_toc \<Rightarrow> u8 list option \<Rightarrow> adsc_disc_info \<Rightarrow> 'k accudisc_device
    \<Rightarrow> unit res \<times> 'k accudisc_device" where
  "send_cue K toc cdtext di dev =
     (case adsc_cuesheet_build toc (case cdtext of Some blob \<Rightarrow> blob \<noteq> [] | None \<Rightarrow> False) (Some di) cue_max_bytes of
        Inl e \<Rightarrow> (Inl e, dev)
      | Inr cue \<Rightarrow> adsc_mmc_send_cue_sheet K cue dev)"

section \<open>The payload\<close>

text \<open>What \<open>adsc_wfifo_pop\<close> hands over, and everything else the burn asks of its write buffer: how
  it starts, how the first fill ends, the pops until the stream ends (with an error or without),
  and what stopping it returns.\<close>

record wfifo_pop =
  pop_nsec :: nat
  pop_data :: "u8 list"
  pop_was_empty :: bool

record wfifo_feed =
  ff_start :: "unit res"
  ff_prefill :: "unit res"
  ff_pops :: "wfifo_pop list"
  ff_end :: "unit res"
  ff_stop :: "unit res"

text \<open>The underrun policy, the sample of the drive's buffer and the write of one chunk.\<close>

definition put_chunk :: "'k kernel \<Rightarrow> nat \<Rightarrow> u8 list \<Rightarrow> bool \<Rightarrow> nat \<Rightarrow> u32 \<Rightarrow> write_flow \<Rightarrow> 'k accudisc_device
    \<Rightarrow> unit res \<times> write_flow \<times> 'k accudisc_device" where
  "put_chunk K n data was_empty sofar lba fl dev =
     (let fl = (if was_empty then fl\<lparr> fl_fifo_starved := fl_fifo_starved fl + 1 \<rparr> else fl) in
      if was_empty \<and> \<not> fl_burnproof_on fl then (Inl ERR_IO, fl, dev)
      else
        let (fl, dev) = (if sofar div burn_chunk mod buf_poll_every = 0 then buf_sample K fl dev else (fl, dev))
        in write_chunk K lba data n burn_sector fl dev)"

fun fifo_payload :: "'k kernel \<Rightarrow> unit res \<Rightarrow> wfifo_pop list \<Rightarrow> nat \<Rightarrow> u32 \<Rightarrow> write_flow \<Rightarrow> 'k accudisc_device
    \<Rightarrow> unit res \<times> write_flow \<times> 'k accudisc_device" where
  "fifo_payload K stream_end [] sofar lba fl dev = (stream_end, fl, dev)"
| "fifo_payload K stream_end (p # ps) sofar lba fl dev =
     (let (rc, fl, dev) = put_chunk K (pop_nsec p) (pop_data p) (pop_was_empty p) sofar lba fl dev in
      if rc \<noteq> Inr () then (rc, fl, dev)
      else fifo_payload K stream_end ps (sofar + pop_nsec p) (lba + word_of_nat (pop_nsec p)) fl dev)"

text \<open>Where sector \<open>sofar\<close> of the image lies in the file, and how many of \<open>n\<close> sectors its track has left.\<close>

fun locate :: "adsc_write_track list \<Rightarrow> nat \<Rightarrow> nat \<Rightarrow> nat \<Rightarrow> nat \<times> nat" where
  "locate [] sofar acc n = (0, n)"
| "locate (t # ts) sofar acc n =
     (if sofar < acc + unat (wt_sectors t)
      then (unat (wt_file_offset t) + (sofar - acc) * burn_sector, min n (acc + unat (wt_sectors t) - sofar))
      else locate ts sofar (acc + unat (wt_sectors t)) n)"

lemma locate_pos: "0 < n \<Longrightarrow> 0 < snd (locate ts sofar acc n)"
  by (induction ts sofar acc n rule: locate.induct) auto

type_synonym pread = "nat \<Rightarrow> nat \<Rightarrow> u8 list"

function sync_payload :: "'k kernel \<Rightarrow> pread \<Rightarrow> bool \<Rightarrow> adsc_write_track list \<Rightarrow> nat \<Rightarrow> nat \<Rightarrow> u32 \<Rightarrow> write_flow
    \<Rightarrow> 'k accudisc_device \<Rightarrow> unit res \<times> write_flow \<times> 'k accudisc_device" where
  "sync_payload K pread swap tracks image_len sofar lba fl dev =
     (if sofar \<ge> image_len then (Inr (), fl, dev)
      else
        let (off, n) = locate tracks sofar 0 (min (image_len - sofar) burn_chunk);
            data = pread off (n * burn_sector)
        in
        if length data \<noteq> n * burn_sector then (Inl ERR_IO, fl, dev)
        else
          let (rc, fl, dev) = put_chunk K n (if swap then byteswap16 data else data) False sofar lba fl dev in
          if rc \<noteq> Inr () then (rc, fl, dev)
          else sync_payload K pread swap tracks image_len (sofar + n) (lba + word_of_nat n) fl dev)"
  by auto
termination
proof (relation "measure (\<lambda>(K, pread, swap, tracks, image_len, sofar, lba, fl, dev). image_len - sofar)")
  fix tracks :: "adsc_write_track list" and image_len sofar :: nat and K :: "'k kernel" and pread swap lba
    and fl :: write_flow and dev :: "'k accudisc_device" and x off n data y rc z fl' dev'
  assume "\<not> image_len \<le> sofar" and x: "x = locate tracks sofar 0 (min (image_len - sofar) burn_chunk)" "(off, n) = x"
  then have "0 < n" using locate_pos [of "min (image_len - sofar) burn_chunk" tracks sofar 0] by (simp add: burn_chunk_def) (metis snd_conv)
  with \<open>\<not> image_len \<le> sofar\<close> show "((K, pread, swap, tracks, image_len, sofar + n, lba + word_of_nat n, fl', dev'),
      (K, pread, swap, tracks, image_len, sofar, lba, fl, dev)) \<in> measure (\<lambda>(K, pread, swap, tracks, image_len, sofar, lba, fl, dev). image_len - sofar)"
    by simp
qed simp

declare sync_payload.simps [simp del]

section \<open>The session\<close>

definition arm_buffer_poll :: "'k kernel \<Rightarrow> write_flow \<Rightarrow> 'k accudisc_device \<Rightarrow> write_flow \<times> 'k accudisc_device" where
  "arm_buffer_poll K fl dev =
     (let fl = fl\<lparr> fl_min_fill_pct := 100 \<rparr> in
      case adsc_mmc_read_buffer_capacity K dev of
        (Inl _, dev) \<Rightarrow> (fl, dev)
      | (Inr (cap, _), dev) \<Rightarrow> (fl\<lparr> fl_cap_live := True, fl_cap_total := cap \<rparr>, dev))"

definition feed_ready :: "wfifo_feed option \<Rightarrow> unit res" where
  "feed_ready feed =
     (case feed of None \<Rightarrow> Inr ()
      | Some f \<Rightarrow> if ff_start f \<noteq> Inr () then ff_start f else ff_prefill f)"

text \<open>Steps 4b to 6, with the two durations the write-health record keeps. \<open>clock\<close> is the monotonic
  clock in milliseconds, a 32-bit count.\<close>

definition burn_data :: "'k kernel \<Rightarrow> ('k \<Rightarrow> u32) \<Rightarrow> pread \<Rightarrow> wfifo_feed option \<Rightarrow> adsc_burn_opts \<Rightarrow> adsc_write_toc
    \<Rightarrow> write_flow \<Rightarrow> 'k accudisc_device \<Rightarrow> unit res \<times> (u32 \<times> u32) \<times> write_flow \<times> 'k accudisc_device" where
  "burn_data K clock pread feed opts toc fl dev =
     (let (fl, dev) = arm_buffer_poll K fl dev;
          t_gap = clock (dev_k dev);
          (rc, fl, dev) = gap_loop K (- word_of_nat leadin_gap) leadin_gap fl dev
      in if rc \<noteq> Inr () then (rc, (0, 0), fl, dev)
      else if feed_ready feed \<noteq> Inr () then (feed_ready feed, (0, 0), fl, dev)
      else
        let t_pay = clock (dev_k dev);
            settle = t_pay - t_gap;
            (rc, fl, dev) =
              (case feed of
                 Some f \<Rightarrow> fifo_payload K (ff_end f) (ff_pops f) 0 0 fl dev
               | None \<Rightarrow> sync_payload K pread (bo_byteswap opts) (wtoc_track toc)
                           (unat (wtoc_leadout_lba toc)) 0 0 fl dev)
        in (rc, (settle, if rc = Inr () then clock (dev_k dev) - t_pay else 0), fl, dev))"

definition burn_session :: "'k kernel \<Rightarrow> ('k \<Rightarrow> u32) \<Rightarrow> pread \<Rightarrow> wfifo_feed option \<Rightarrow> adsc_burn_opts \<Rightarrow> adsc_write_toc
    \<Rightarrow> u8 list option \<Rightarrow> adsc_disc_info \<Rightarrow> write_flow \<Rightarrow> 'k accudisc_device
    \<Rightarrow> unit res \<times> (u32 \<times> u32) \<times> write_flow \<times> 'k accudisc_device" where
  "burn_session K clock pread feed opts toc cdtext di fl dev =
     (let (rc, fl, dev) = (case cdtext of
            Some blob \<Rightarrow> if has_cdtext cdtext then write_cdtext_leadin K blob di fl dev else (Inr (), fl, dev)
          | None \<Rightarrow> (Inr (), fl, dev))
      in if rc \<noteq> Inr () then (rc, (0, 0), fl, dev) else burn_data K clock pread feed opts toc fl dev)"

text \<open>Step 7 and the exit: the session is closed, or flushed to abort it; the buffer is stopped; a live
  burn that completed is recorded.\<close>

definition burn_close :: "'k kernel \<Rightarrow> wfifo_feed option \<Rightarrow> adsc_burn_opts \<Rightarrow> adsc_write_toc \<Rightarrow> unit res \<Rightarrow> u32 \<times> u32
    \<Rightarrow> 'k accudisc_device \<Rightarrow> unit res \<times> 'k accudisc_device" where
  "burn_close K feed opts toc rc ms dev =
     (let (rc, dev) = (if rc = Inr () then adsc_mmc_sync_cache K dev else (rc, dev));
          open_session = (rc \<noteq> Inr ());
          dev = dev\<lparr> dev_ready_wait_off := False \<rparr>;
          dev = (if open_session then snd (adsc_mmc_sync_cache K dev) else dev);
          rc = (case feed of Some f \<Rightarrow> if ff_start f = Inr () \<and> rc = Inr () then ff_stop f else rc | None \<Rightarrow> rc);
          dev = (if \<not> bo_simulate opts \<and> rc = Inr ()
                 then adsc_write_health_record (fst ms) (snd ms) (wtoc_leadout_lba toc) dev else dev)
      in (rc, dev))"

definition adsc_write_run :: "'k kernel \<Rightarrow> ('k \<Rightarrow> u32) \<Rightarrow> pread \<Rightarrow> wfifo_feed option \<Rightarrow> adsc_burn_opts \<Rightarrow> adsc_write_toc
    \<Rightarrow> u8 list option \<Rightarrow> 'k accudisc_device \<Rightarrow> unit res \<times> write_flow \<times> 'k accudisc_device" where
  "adsc_write_run K clock pread feed opts toc cdtext dev =
     (let (setup, fl, dev) = burn_setup K opts cdtext dev in
      case setup of Inl e \<Rightarrow> (Inl e, fl, dev\<lparr> dev_ready_wait_off := False \<rparr>)
      | Inr di \<Rightarrow>
          let (rc, dev) = send_cue K toc cdtext di dev in
          if rc \<noteq> Inr () then (rc, fl, dev\<lparr> dev_ready_wait_off := False \<rparr>)
          else
            let (rc, ms, fl, dev) = burn_session K clock pread feed opts toc cdtext di fl
                                         (dev\<lparr> dev_ready_wait_off := True \<rparr>);
                (rc, dev) = burn_close K feed opts toc rc ms dev
            in (rc, fl, dev))"

end
