(* ===== verification/Wfifo.thy ===== *)
theory Wfifo
  imports Ring Burn
begin

text \<open>
  The write buffer of the burn (\<^verbatim>\<open>src/write/fifo.c\<close>): a ring of slots between the thread that
  reads the source file and the burn, which writes the slots to the drive in place. A step is one
  locked section of either thread, or the one stretch it runs without the lock: the reader's read
  into the free slot at the head, and the burn's use of the slot it was handed. Whether memory is
  locked, and the allocations, are reports or one flag; the size in seconds
  (\<open>adsc_wfifo_bytes_for\<close>, floating point) is left out.
\<close>

section \<open>State\<close>

record adsc_wfifo_seg =
  seg_offset :: u64
  seg_sectors :: u32

type_synonym wfifo_slot = "nat \<times> u8 list"

record adsc_wfifo = "wfifo_slot ring" +
  wf_sectors_per_slot :: nat
  wf_byteswap :: bool
  wf_producer_done :: bool
  wf_producer_rc :: "unit res"
  wf_cancelled :: bool
  wf_min_count :: u32
  wf_starved :: u64
  wf_producer_waits :: u64

definition wfifo_min_slots :: nat where "wfifo_min_slots = 2"
definition wfifo_max_slots :: nat where "wfifo_max_slots = 65536"

definition adsc_wfifo_start :: "bool \<Rightarrow> nat \<Rightarrow> nat \<Rightarrow> adsc_wfifo_seg list \<Rightarrow> bool \<Rightarrow> adsc_wfifo res" where
  "adsc_wfifo_start alloc bytes sps segs swap =
     (if segs = [] \<or> sps = 0 then Inl ERR_INVAL
      else if \<not> alloc then Inl ERR_NOMEM
      else let n = min wfifo_max_slots (max wfifo_min_slots (bytes div (sps * burn_sector))) in
        Inr \<lparr>rg_slot = replicate n (0, replicate (sps * burn_sector) 0), rg_nslots = word_of_nat n,
             rg_head = 0, rg_tail = 0, rg_count = 0, wf_sectors_per_slot = sps, wf_byteswap = swap,
             wf_producer_done = False, wf_producer_rc = Inr (), wf_cancelled = False,
             wf_min_count = word_of_nat n, wf_starved = 0, wf_producer_waits = 0\<rparr>)"

section \<open>The reader\<close>

datatype fill_pc = Fill_wait | Fill_asleep | Fill_read | Publish nat | Finish "unit res" | Fill_exited

text \<open>The segments from the one being read on, and the sectors of it already read.\<close>

type_synonym fill_place = "adsc_wfifo_seg list \<times> nat"

fun next_seg :: "adsc_wfifo_seg list \<Rightarrow> nat \<Rightarrow> fill_place" where
  "next_seg [] d = ([], d)"
| "next_seg (s # ss) d = (if unat (seg_sectors s) \<le> d then next_seg ss 0 else (s # ss, d))"

definition fill_wait :: "adsc_wfifo \<Rightarrow> fill_pc \<times> adsc_wfifo" where
  "fill_wait f =
     (if wf_cancelled f then (Fill_exited, f)
      else if rg_count f = rg_nslots f
      then (Fill_asleep, f\<lparr>wf_producer_waits := wf_producer_waits f + 1\<rparr>)
      else (Fill_read, f))"

definition set_head :: "u8 list \<Rightarrow> adsc_wfifo \<Rightarrow> adsc_wfifo" where
  "set_head b f = (let h = unat (rg_head f); s = rg_slot f ! h in
     f\<lparr>rg_slot := (rg_slot f)[h := (fst s, overlay b (snd s))]\<rparr>)"

definition fill_read :: "pread \<Rightarrow> fill_place \<Rightarrow> adsc_wfifo \<Rightarrow> fill_pc \<times> fill_place \<times> adsc_wfifo" where
  "fill_read pread place f =
     (case next_seg (fst place) (snd place) of
        ([], d) \<Rightarrow> (Finish (Inr ()), ([], d), f)
      | (s # ss, d) \<Rightarrow>
          let n = min (unat (seg_sectors s) - d) (wf_sectors_per_slot f);
              data = pread (unat (seg_offset s) + d * burn_sector) (n * burn_sector)
          in if length data \<noteq> n * burn_sector then (Finish (Inl ERR_IO), (s # ss, d), set_head data f)
             else (Publish n, (s # ss, d + n), set_head (if wf_byteswap f then byteswap16 data else data) f))"

definition fill_publish :: "nat \<Rightarrow> adsc_wfifo \<Rightarrow> adsc_wfifo" where
  "fill_publish n f = ring_put (n, snd (rg_slot f ! unat (rg_head f))) f"

definition fill_finish :: "unit res \<Rightarrow> adsc_wfifo \<Rightarrow> adsc_wfifo" where
  "fill_finish rc f =
     f\<lparr>wf_producer_rc := (if wf_producer_rc f = Inr () then rc else wf_producer_rc f), wf_producer_done := True\<rparr>"

section \<open>The burn's side\<close>

text \<open>Why the burn stopped popping: the stream ended, with or without an error; the first fill
  failed; or it gave up on its own account.\<close>

datatype take_end = Ran_out "unit res" | Prefill_failed | Gave_up

datatype take_pc =
    Prefill | Prefill_asleep | Pop | Pop_again | Pop_asleep
  | Hold nat nat bool | Release | Stop bool | Join | Joined_up

definition adsc_wfifo_prefill :: "adsc_wfifo \<Rightarrow> take_pc \<times> take_end option \<times> adsc_wfifo" where
  "adsc_wfifo_prefill f =
     (if rg_count f < rg_nslots f \<and> \<not> wf_producer_done f \<and> wf_producer_rc f = Inr ()
      then (Prefill_asleep, None, f)
      else let f = f\<lparr>wf_min_count := rg_count f\<rparr> in
        if wf_producer_rc f \<noteq> Inr () then (Stop True, Some Prefill_failed, f) else (Pop, None, f))"

text \<open>The part of \<open>adsc_wfifo_pop\<close> after its first test, \<open>was_empty\<close> being the answer to that.\<close>

definition wfifo_take :: "bool \<Rightarrow> adsc_wfifo \<Rightarrow> take_pc \<times> take_end option \<times> adsc_wfifo" where
  "wfifo_take was_empty f =
     (if rg_count f = 0 \<and> \<not> wf_producer_done f then (Pop_asleep, None, f)
      else if rg_count f = 0
      then (Stop (wf_producer_rc f \<noteq> Inr ()), Some (Ran_out (wf_producer_rc f)), f)
      else (Hold (fst (ring_front f)) (unat (rg_tail f)) was_empty, None,
            if \<not> wf_producer_done f \<and> rg_count f < wf_min_count f then f\<lparr>wf_min_count := rg_count f\<rparr> else f))"

definition adsc_wfifo_pop :: "adsc_wfifo \<Rightarrow> take_pc \<times> take_end option \<times> adsc_wfifo" where
  "adsc_wfifo_pop f =
     (let dry = (rg_count f = 0 \<and> \<not> wf_producer_done f) in
      wfifo_take dry (if dry then f\<lparr>wf_starved := wf_starved f + 1\<rparr> else f))"

section \<open>The two threads\<close>

record wf_sys =
  wy_f :: adsc_wfifo
  wy_fill :: fill_pc
  wy_place :: fill_place
  wy_take :: take_pc
  wy_pops :: "wfifo_pop list"
  wy_end :: "take_end option"

fun wake_fill :: "fill_pc \<Rightarrow> fill_pc" where
  "wake_fill Fill_asleep = Fill_wait"
| "wake_fill p = p"

fun wake_take :: "take_pc \<Rightarrow> take_pc" where
  "wake_take Prefill_asleep = Prefill"
| "wake_take Pop_asleep = Pop_again"
| "wake_take p = p"

definition fill_step :: "pread \<Rightarrow> wf_sys \<Rightarrow> wf_sys option" where
  "fill_step pread s =
     (case wy_fill s of
        Fill_wait \<Rightarrow> (let (p, f) = fill_wait (wy_f s) in Some (s\<lparr>wy_fill := p, wy_f := f\<rparr>))
      | Fill_read \<Rightarrow>
          (let (p, pl, f) = fill_read pread (wy_place s) (wy_f s) in
           Some (s\<lparr>wy_fill := p, wy_place := pl, wy_f := f\<rparr>))
      | Publish n \<Rightarrow>
          Some (s\<lparr>wy_f := fill_publish n (wy_f s), wy_fill := Fill_wait, wy_take := wake_take (wy_take s)\<rparr>)
      | Finish rc \<Rightarrow>
          Some (s\<lparr>wy_f := fill_finish rc (wy_f s), wy_fill := Fill_exited, wy_take := wake_take (wy_take s)\<rparr>)
      | _ \<Rightarrow> None)"

text \<open>\<open>keep\<close> is the burn's decision to go on, after each chunk it has put to the drive: the
  underrun policy and the outcome of the write.\<close>

definition take_step :: "(wfifo_pop list \<Rightarrow> bool) \<Rightarrow> wf_sys \<Rightarrow> wf_sys option" where
  "take_step keep s =
     (case wy_take s of
        Prefill \<Rightarrow> (let (p, e, f) = adsc_wfifo_prefill (wy_f s) in Some (s\<lparr>wy_take := p, wy_end := e, wy_f := f\<rparr>))
      | Pop \<Rightarrow> (let (p, e, f) = adsc_wfifo_pop (wy_f s) in Some (s\<lparr>wy_take := p, wy_end := e, wy_f := f\<rparr>))
      | Pop_again \<Rightarrow> (let (p, e, f) = wfifo_take True (wy_f s) in Some (s\<lparr>wy_take := p, wy_end := e, wy_f := f\<rparr>))
      | Hold n i was_empty \<Rightarrow>
          (let pops = wy_pops s @ [\<lparr>pop_nsec = n, pop_data = take (n * burn_sector) (snd (rg_slot (wy_f s) ! i)),
                                    pop_was_empty = was_empty\<rparr>]
           in if keep pops then Some (s\<lparr>wy_pops := pops, wy_take := Release\<rparr>)
              else Some (s\<lparr>wy_pops := pops, wy_take := Stop True, wy_end := Some Gave_up\<rparr>))
      | Release \<Rightarrow> Some (s\<lparr>wy_f := ring_drop (wy_f s), wy_take := Pop, wy_fill := wake_fill (wy_fill s)\<rparr>)
      | Stop discard \<Rightarrow>
          Some (s\<lparr>wy_f := (if discard then (wy_f s)\<lparr>wf_cancelled := True\<rparr> else wy_f s),
                  wy_fill := wake_fill (wy_fill s), wy_take := Join\<rparr>)
      | Join \<Rightarrow> if wy_fill s = Fill_exited then Some (s\<lparr>wy_take := Joined_up\<rparr>) else None
      | _ \<Rightarrow> None)"

definition wf_begin :: "adsc_wfifo \<Rightarrow> adsc_wfifo_seg list \<Rightarrow> wf_sys" where
  "wf_begin f segs = \<lparr>wy_f = f, wy_fill = Fill_wait, wy_place = (segs, 0), wy_take = Prefill, wy_pops = [], wy_end = None\<rparr>"

inductive wf_step :: "pread \<Rightarrow> (wfifo_pop list \<Rightarrow> bool) \<Rightarrow> wf_sys \<Rightarrow> wf_sys \<Rightarrow> bool" for pread keep where
  fills: "fill_step pread s = Some t \<Longrightarrow> wf_step pread keep s t"
| takes: "take_step keep s = Some t \<Longrightarrow> wf_step pread keep s t"
| spurious_full: "wy_fill s = Fill_asleep \<Longrightarrow> wf_step pread keep s (s\<lparr>wy_fill := Fill_wait\<rparr>)"
| spurious_dry: "wf_step pread keep s (s\<lparr>wy_take := wake_take (wy_take s)\<rparr>)"

inductive_cases wf_stepE: "wf_step pread keep s t"

definition wf_next :: "pread \<Rightarrow> (wfifo_pop list \<Rightarrow> bool) \<Rightarrow> bool \<Rightarrow> wf_sys \<Rightarrow> wf_sys option" where
  "wf_next pread keep fill_first s =
     (if fill_first
      then (case fill_step pread s of Some t \<Rightarrow> Some t | None \<Rightarrow> take_step keep s)
      else (case take_step keep s of Some t \<Rightarrow> Some t | None \<Rightarrow> fill_step pread s))"

fun wf_run :: "pread \<Rightarrow> (wfifo_pop list \<Rightarrow> bool) \<Rightarrow> (nat \<Rightarrow> bool) \<Rightarrow> nat \<Rightarrow> wf_sys \<Rightarrow> wf_sys" where
  "wf_run pread keep sched 0 s = s"
| "wf_run pread keep sched (Suc n) s =
     (case wf_next pread keep (sched n) s of None \<Rightarrow> s | Some t \<Rightarrow> wf_run pread keep sched n t)"

text \<open>The segments of a layout, and what the burn has been given by the time it stopped the buffer.
  After giving up it pops no more, so what the stream would end with is then of no account.\<close>

definition burn_segs :: "adsc_write_toc \<Rightarrow> adsc_wfifo_seg list" where
  "burn_segs toc = map (\<lambda>t. \<lparr>seg_offset = wt_file_offset t, seg_sectors = wt_sectors t\<rparr>) (wtoc_track toc)"

definition feed_of :: "wf_sys \<Rightarrow> wfifo_feed" where
  "feed_of s =
     \<lparr>ff_start = Inr (),
      ff_prefill = (if wy_end s = Some Prefill_failed then wf_producer_rc (wy_f s) else Inr ()),
      ff_pops = wy_pops s,
      ff_end = (case wy_end s of Some (Ran_out rc) \<Rightarrow> rc | _ \<Rightarrow> Inl ERR_IO),
      ff_stop = wf_producer_rc (wy_f s)\<rparr>"

end
