(* ===== verification/Tape.thy ===== *)
theory Tape
  imports Mmc
begin

text \<open>
  A record of everything a drive is sent, data included, and what each MMC command adds to it.
  The locale \<open>tape_recorder\<close> is a kernel that keeps such a record; \<open>taping K\<close> is any kernel \<open>K\<close>
  with one beside its state. An entry is the command block, the buffer that went with it and the
  reply. Statements about the order and content of what reaches a drive are made over the tape.
\<close>

type_synonym tape_entry = "u8 list \<times> u8 list \<times> sg_reply"

definition op_of :: "tape_entry \<Rightarrow> u8" where "op_of e = fst e ! 0"

definition accepted :: "tape_entry \<Rightarrow> bool" where
  "accepted e \<longleftrightarrow> fst (reply_outcome (snd (snd e))) = Inr ()"

text \<open>The caller's buffer as the reply left it.\<close>

definition seen :: "tape_entry \<Rightarrow> u8 list" where
  "seen e = overlay (sgr_data (snd (snd e))) (fst (snd e))"

definition adds :: "(tape_entry \<Rightarrow> bool) \<Rightarrow> tape_entry list \<Rightarrow> tape_entry list \<Rightarrow> bool" where
  "adds P t t' \<longleftrightarrow> (\<exists>es. t' = t @ es \<and> list_all P es)"

lemma adds_refl [simp]: "adds P t t" by (simp add: adds_def)

lemma adds_trans [trans]: "adds P t u \<Longrightarrow> adds P u v \<Longrightarrow> adds P t v"
  by (fastforce simp: adds_def)

lemma adds_mono: "adds P t u \<Longrightarrow> (\<And>e. P e \<Longrightarrow> Q e) \<Longrightarrow> adds Q t u"
  by (auto simp: adds_def list_all_iff)

lemma addsE: "adds P t u \<Longrightarrow> (\<And>es. u = t @ es \<Longrightarrow> list_all P es \<Longrightarrow> thesis) \<Longrightarrow> thesis"
  by (auto simp: adds_def)

lemma run_cmd_length:
  assumes "run_cmd K cdb dir buf t dev = (rc, buf', dev')"
  shows "length buf' = length buf"
proof -
  obtain cmd where x: "adsc_dev_exec K (new_cmd cdb dir buf t) dev = (rc, cmd, dev')" and b: "buf' = cmd_buf cmd"
    using assms by (auto simp: run_cmd_def split: prod.splits)
  obtain rc1 cmd1 dev1 where o: "exec_once K (new_cmd cdb dir buf t) dev = (rc1, cmd1, dev1)" by (metis prod_cases3)
  have l: "dev_exec_loop K 0 0 rc1 cmd1 dev1 = (rc, cmd, dev')" using x o by (simp add: adsc_dev_exec_def)
  have "length (cmd_buf cmd) = length buf"
    by (rule dev_exec_loop_invariant [where I = "\<lambda>_ c _. length (cmd_buf c) = length buf"
          and J = "\<lambda>c _. length (cmd_buf c) = length buf", OF _ _ _ _ l])
      (auto simp: exec_once_cmd(4) exec_once_cmd(4) [OF o])
  with b show ?thesis by simp
qed

locale tape_recorder =
  fixes K :: "'k kernel" and tape :: "'k \<Rightarrow> tape_entry list"
  assumes tape_sg: "k_sg_io K cdb dir buf t k = (r, k') \<Longrightarrow> tape k' = tape k @ [(cdb, buf, r)]"
    and tape_sleep: "tape (k_sleep K ms k) = tape k"
begin

abbreviation rolled :: "'k accudisc_device \<Rightarrow> tape_entry list" where "rolled dev \<equiv> tape (dev_k dev)"

lemma rolled_sleep [simp]: "rolled (adsc_sleep_ms K ms dev) = rolled dev"
  by (simp add: adsc_sleep_ms_def tape_sleep)

lemma exec_once_tape:
  assumes "exec_once K cmd dev = (rc, cmd', dev')"
  obtains r where "rolled dev' = rolled dev @ [(cmd_cdb cmd, cmd_buf cmd, r)]"
    and "reply_outcome r = (rc, dev_last_sense dev')"
    and "cmd_dir cmd = XFER_IN \<Longrightarrow> cmd_buf cmd' = overlay (sgr_data r) (cmd_buf cmd)"
proof -
  let ?t = "if cmd_timeout cmd \<noteq> 0 then cmd_timeout cmd else timeout_ctrl_ms"
  obtain r k where r: "k_sg_io K (cmd_cdb cmd) (cmd_dir cmd) (cmd_buf cmd) ?t (dev_k dev) = (r, k)" by fastforce
  obtain r' where r': "k_sg_io K (cmd_cdb cmd) (cmd_dir cmd) (cmd_buf cmd) ?t (dev_k dev) = (r', dev_k dev')"
    and out: "reply_outcome r' = (rc, dev_last_sense dev')"
    using exec_once_reply [OF assms] by blast
  have "cmd_buf cmd' = overlay (sgr_data r) (cmd_buf cmd)" if "cmd_dir cmd = XFER_IN"
    using assms that r by (auto simp: exec_once_def adsc_transport_exec_def Let_def split: prod.splits if_splits)
  with that [OF tape_sg [OF r'] out] r r' show ?thesis by simp
qed

text \<open>A command and its retries: entries with one block, the last of which the caller sees.\<close>

lemma dev_exec_tape:
  assumes "adsc_dev_exec K cmd dev = (rc, cmd', dev')"
  shows "\<exists>es e. rolled dev' = rolled dev @ es @ [e] \<and> list_all (\<lambda>e. fst e = cmd_cdb cmd) (es @ [e])
    \<and> (cmd_dir cmd = XFER_IN \<longrightarrow> seen e = cmd_buf cmd')"
proof -
  obtain rc1 cmd1 dev1 where x: "exec_once K cmd dev = (rc1, cmd1, dev1)" by (metis prod_cases3)
  have l: "dev_exec_loop K 0 0 rc1 cmd1 dev1 = (rc, cmd', dev')"
    using assms x by (simp add: adsc_dev_exec_def)
  define J where "J c d \<longleftrightarrow> cmd_cdb c = cmd_cdb cmd \<and> cmd_dir c = cmd_dir cmd
    \<and> (\<exists>es. rolled d = rolled dev @ es \<and> list_all (\<lambda>e. fst e = cmd_cdb cmd) es)" for c :: adsc_cmd and d
  define I where "I r c d \<longleftrightarrow> cmd_cdb c = cmd_cdb cmd \<and> cmd_dir c = cmd_dir cmd
    \<and> (\<exists>es e. rolled d = rolled dev @ es @ [e] \<and> list_all (\<lambda>e. fst e = cmd_cdb cmd) (es @ [e])
        \<and> (cmd_dir cmd = XFER_IN \<longrightarrow> seen e = cmd_buf c))" for r :: "unit res" and c :: adsc_cmd and d
  have step: "I r c' d'" if e: "exec_once K c d = (r, c', d')" and j: "J c d" for c d r c' d'
  proof -
    obtain q where q: "rolled d' = rolled d @ [(cmd_cdb c, cmd_buf c, q)]"
      "cmd_dir c = XFER_IN \<Longrightarrow> cmd_buf c' = overlay (sgr_data q) (cmd_buf c)"
      using exec_once_tape [OF e] by metis
    from j obtain es where es: "rolled d = rolled dev @ es" "list_all (\<lambda>e. fst e = cmd_cdb cmd) es"
      "cmd_cdb c = cmd_cdb cmd" "cmd_dir c = cmd_dir cmd"
      by (auto simp: J_def)
    have "seen (cmd_cdb c, cmd_buf c, q) = cmd_buf c'" if "cmd_dir cmd = XFER_IN"
      using q(2) that es(4) by (simp add: seen_def)
    moreover have "rolled d' = rolled dev @ es @ [(cmd_cdb c, cmd_buf c, q)]" using q(1) es(1) by simp
    moreover have "list_all (\<lambda>e. fst e = cmd_cdb cmd) (es @ [(cmd_cdb c, cmd_buf c, q)])" using es by simp
    ultimately show ?thesis
      using exec_once_cmd(1,2) [OF e] es(3,4) unfolding I_def by metis
  qed
  have first: "I rc1 cmd1 dev1" by (rule step [OF x]) (simp add: J_def)
  have again: "J c d" if "I (Inl ERR_SENSE) c d" for c d
  proof -
    from that obtain es e where "rolled d = rolled dev @ es @ [e]" "list_all (\<lambda>e. fst e = cmd_cdb cmd) (es @ [e])"
      "cmd_cdb c = cmd_cdb cmd" "cmd_dir c = cmd_dir cmd"
      unfolding I_def by blast
    then show ?thesis unfolding J_def by blast
  qed
  have "I rc cmd' dev'"
    by (rule dev_exec_loop_invariant [where I = I and J = J, OF _ _ _ first l])
      (erule (1) step, erule again, simp add: J_def)
  then show ?thesis unfolding I_def by blast
qed

text \<open>A command off the allow list is one entry.\<close>

lemma dev_exec_single:
  assumes "adsc_dev_exec K cmd dev = (rc, cmd', dev')" and "\<not> adsc_op_repeatable (cmd_cdb cmd ! 0)"
  shows "\<exists>e. rolled dev' = rolled dev @ [e] \<and> fst e = cmd_cdb cmd \<and> fst (snd e) = cmd_buf cmd
    \<and> reply_outcome (snd (snd e)) = (rc, dev_last_sense dev')"
proof -
  obtain rc1 cmd1 dev1 where x: "exec_once K cmd dev = (rc1, cmd1, dev1)" by (metis prod_cases3)
  obtain r where r: "rolled dev1 = rolled dev @ [(cmd_cdb cmd, cmd_buf cmd, r)]"
    "reply_outcome r = (rc1, dev_last_sense dev1)"
    using exec_once_tape [OF x] by blast
  have "dev_exec_loop K 0 0 rc1 cmd1 dev1 = (rc1, cmd1, dev1)"
    using assms(2) exec_once_cmd(1) [OF x] by (simp add: dev_exec_loop.simps)
  then have "rc = rc1" "dev' = dev1" using assms(1) x by (simp_all add: adsc_dev_exec_def)
  then show ?thesis using r by auto
qed

lemma run_cmd_tape:
  assumes "run_cmd K cdb dir buf t dev = (rc, buf', dev')"
  shows "adds (\<lambda>e. fst e = cdb) (rolled dev) (rolled dev')"
    and "dir = XFER_IN \<Longrightarrow> \<exists>es e. rolled dev' = rolled dev @ es @ [e] \<and> list_all (\<lambda>e. fst e = cdb) (es @ [e]) \<and> seen e = buf'"
proof -
  obtain cmd where x: "adsc_dev_exec K (new_cmd cdb dir buf t) dev = (rc, cmd, dev')" and b: "buf' = cmd_buf cmd"
    using assms by (auto simp: run_cmd_def split: prod.splits)
  from dev_exec_tape [OF x] show "adds (\<lambda>e. fst e = cdb) (rolled dev) (rolled dev')"
    by (auto simp: adds_def)
  show "dir = XFER_IN \<Longrightarrow> \<exists>es e. rolled dev' = rolled dev @ es @ [e] \<and> list_all (\<lambda>e. fst e = cdb) (es @ [e]) \<and> seen e = buf'"
    using dev_exec_tape [OF x] b by auto
qed

lemma run_cmd_ops: "run_cmd K cdb dir buf t dev = (rc, buf', dev') \<Longrightarrow> adds (\<lambda>e. op_of e = cdb ! 0) (rolled dev) (rolled dev')"
  by (rule adds_mono [OF run_cmd_tape(1)]) (auto simp: op_of_def)

lemma run_cmd_single:
  assumes "run_cmd K cdb dir buf t dev = (rc, buf', dev')" and "\<not> adsc_op_repeatable (cdb ! 0)"
  shows "\<exists>r. rolled dev' = rolled dev @ [(cdb, buf, r)] \<and> reply_outcome r = (rc, dev_last_sense dev')"
proof -
  obtain cmd where x: "adsc_dev_exec K (new_cmd cdb dir buf t) dev = (rc, cmd, dev')"
    using assms by (auto simp: run_cmd_def split: prod.splits)
  then show ?thesis using dev_exec_single [OF x] assms(2) by auto
qed

section \<open>What each command adds\<close>

lemma mode_sense_ops:
  "adsc_mmc_mode_sense10 K page buf dev = (rc, buf', dev') \<Longrightarrow> adds (\<lambda>e. op_of e = 0x5A) (rolled dev) (rolled dev')"
  unfolding adsc_mmc_mode_sense10_def Let_def
  by (auto split: prod.splits sum.splits if_splits dest!: run_cmd_ops simp: adsc_cdb_mode_sense10_def intro: adds_trans)

text \<open>A mode page that was returned is the front of what the last reply left in the buffer.\<close>

lemma mode_sense_seen:
  assumes "adsc_mmc_mode_sense10 K page buf dev = (Inr (len, po), buf', dev')"
  shows "\<exists>es e. rolled dev' = rolled dev @ es @ [e] \<and> list_all (\<lambda>e. op_of e = 0x5A) (es @ [e]) \<and> seen e = take len buf'"
proof -
  obtain rc1 hdr d1 where x1: "run_cmd K (adsc_cdb_mode_sense10 page 8) XFER_IN (take 8 buf) timeout_ctrl_ms dev = (rc1, hdr, d1)"
    by (metis prod_cases3)
  define b1 where "b1 = overlay hdr buf"
  define n where "n = (let t = adsc_alloc_even (be16 b1 0 + 2) in if t > length buf then length buf - length buf mod 2 else t)"
  obtain rc2 data d2 where x2: "run_cmd K (adsc_cdb_mode_sense10 page (word_of_nat n)) XFER_IN (take n b1) timeout_ctrl_ms d1 = (rc2, data, d2)"
    by (metis prod_cases3)
  have r: "len = n" "buf' = overlay data b1" "dev' = d2"
    using assms x1 x2 unfolding adsc_mmc_mode_sense10_def Let_def b1_def [symmetric] n_def
    by (auto simp: b1_def [symmetric] split: sum.splits if_splits)
  have n: "n \<le> length b1" by (auto simp: n_def b1_def Let_def)
  then have "length data = n" using run_cmd_length [OF x2] by simp
  with n r have t: "take len buf' = data" by (simp add: overlay_def)
  obtain es1 where e1: "rolled d1 = rolled dev @ es1" "list_all (\<lambda>e. op_of e = 0x5A) es1"
    using run_cmd_ops [OF x1] by (auto simp: adds_def adsc_cdb_mode_sense10_def)
  obtain es2 e where e2: "rolled d2 = rolled d1 @ es2 @ [e]" "seen e = data"
    "list_all (\<lambda>e. fst e = adsc_cdb_mode_sense10 page (word_of_nat n)) (es2 @ [e])"
    using run_cmd_tape(2) [OF x2] by blast
  have "list_all (\<lambda>e. op_of e = 0x5A) (es2 @ [e])"
    using e2(3) by (auto simp: list_all_iff op_of_def adsc_cdb_mode_sense10_def)
  then show ?thesis
    using e1 e2 r t by (intro exI [of _ "es1 @ es2"] exI [of _ e]) simp
qed

lemma mode_select_ops:
  "adsc_mmc_mode_select10 K buf len po dev = (rc, buf', dev') \<Longrightarrow> adds (\<lambda>e. op_of e = 0x55) (rolled dev) (rolled dev')"
  unfolding adsc_mmc_mode_select10_def send_data_def Let_def
  by (auto split: prod.splits if_splits dest!: run_cmd_ops simp: adsc_cdb_mode_select10_def)

lemma get_configuration_ops:
  "adsc_mmc_get_configuration K f buf dev = (rc, buf', dev') \<Longrightarrow> adds (\<lambda>e. op_of e = 0x46) (rolled dev) (rolled dev')"
  unfolding adsc_mmc_get_configuration_def by (auto dest!: run_cmd_ops simp: adsc_cdb_get_configuration_def)

lemma set_cd_speed_ops:
  "adsc_mmc_set_cd_speed K r w rot dev = (rc, dev') \<Longrightarrow> adds (\<lambda>e. op_of e = 0xBB) (rolled dev) (rolled dev')"
  unfolding adsc_mmc_set_cd_speed_def no_data_def
  by (auto dest!: run_cmd_ops simp: adsc_cdb_set_cd_speed_def split: prod.splits)

lemma send_opc_ops:
  "adsc_mmc_send_opc K dev = (rc, dev') \<Longrightarrow> adds (\<lambda>e. op_of e = 0x54) (rolled dev) (rolled dev')"
  unfolding adsc_mmc_send_opc_def no_data_def
  by (auto dest!: run_cmd_ops simp: adsc_cdb_send_opc_def split: prod.splits)

lemma buffer_capacity_ops:
  "adsc_mmc_read_buffer_capacity K dev = (rc, dev') \<Longrightarrow> adds (\<lambda>e. op_of e = 0x5C) (rolled dev) (rolled dev')"
  unfolding adsc_mmc_read_buffer_capacity_def Let_def
  by (auto dest!: run_cmd_ops simp: adsc_cdb_read_buffer_capacity_def split: prod.splits sum.splits if_splits)

lemma disc_info_ops:
  "adsc_mmc_read_disc_info K buf dev = (rc, buf', dev') \<Longrightarrow> adds (\<lambda>e. op_of e = 0x51) (rolled dev) (rolled dev')"
  unfolding adsc_mmc_read_disc_info_def Let_def
  by (auto dest!: run_cmd_ops simp: adsc_cdb_read_disc_info_def split: prod.splits sum.splits if_splits)

lemma disc_info_seen:
  assumes "adsc_mmc_read_disc_info K buf dev = (Inr len, buf', dev')" and "34 \<le> length buf"
  shows "\<exists>es e. rolled dev' = rolled dev @ es @ [e] \<and> list_all (\<lambda>e. op_of e = 0x51) (es @ [e]) \<and> seen e = take 34 buf'"
proof -
  obtain rc data d where x: "run_cmd K (adsc_cdb_read_disc_info (word_of_nat 34)) XFER_IN (take 34 buf) timeout_ctrl_ms dev = (rc, data, d)"
    by (metis prod_cases3)
  have w: "(if length buf > 34 then 34 else length buf) = 34" using assms(2) by simp
  have r: "buf' = overlay data buf" "dev' = d"
    using assms x unfolding adsc_mmc_read_disc_info_def Let_def w by (auto split: sum.splits if_splits)
  have "length data = 34" using run_cmd_length [OF x] assms(2) by simp
  then have t: "take 34 buf' = data" using assms(2) r by (simp add: overlay_def)
  obtain es e where e: "rolled d = rolled dev @ es @ [e]" "seen e = data"
    "list_all (\<lambda>e. fst e = adsc_cdb_read_disc_info (word_of_nat 34)) (es @ [e])"
    using run_cmd_tape(2) [OF x] by blast
  then have "list_all (\<lambda>e. op_of e = 0x51) (es @ [e])"
    by (auto simp: list_all_iff op_of_def adsc_cdb_read_disc_info_def)
  with e r t show ?thesis by (intro exI [of _ es] exI [of _ e]) simp
qed

lemma sync_cache_tape:
  assumes "adsc_mmc_sync_cache K dev = (rc, dev')"
  shows "\<exists>e. rolled dev' = rolled dev @ [e] \<and> op_of e = 0x35 \<and> (accepted e \<longleftrightarrow> rc = Inr ())"
proof -
  obtain b where x: "run_cmd K adsc_cdb_sync_cache XFER_NONE [] timeout_write_ms dev = (rc, b, dev')"
    using assms by (auto simp: adsc_mmc_sync_cache_def no_data_def split: prod.splits)
  have "\<not> adsc_op_repeatable (adsc_cdb_sync_cache ! 0)" by (simp add: adsc_cdb_sync_cache_def adsc_op_repeatable_def)
  from run_cmd_single [OF x this] show ?thesis
    by (auto simp: op_of_def accepted_def adsc_cdb_sync_cache_def)
qed

lemma send_cue_tape:
  assumes "adsc_mmc_send_cue_sheet K cue dev = (rc, dev')"
  shows "cue = [] \<and> rc = Inl ERR_INVAL \<and> dev' = dev
    \<or> (\<exists>e. rolled dev' = rolled dev @ [e] \<and> op_of e = 0x5D \<and> fst (snd e) = cue \<and> (accepted e \<longleftrightarrow> rc = Inr ()))"
proof (cases "cue = []")
  case False
  let ?cdb = "adsc_cdb_send_cue (word_of_nat (length cue))"
  obtain b where x: "run_cmd K ?cdb XFER_OUT cue timeout_ctrl_ms dev = (rc, b, dev')"
    using assms False by (auto simp: adsc_mmc_send_cue_sheet_def send_data_def split: prod.splits)
  have "?cdb ! 0 = 0x5D" by (simp add: adsc_cdb_send_cue_def)
  then show ?thesis
    using run_cmd_single [OF x] by (auto simp: op_of_def accepted_def adsc_op_repeatable_def)
qed (use assms in \<open>simp add: adsc_mmc_send_cue_sheet_def\<close>)

lemma write10_tape:
  assumes "adsc_mmc_write10 K lba n buf bs dev = (rc, dev')"
  shows "rc = Inl ERR_INVAL \<and> dev' = dev
    \<or> (\<exists>r. rolled dev' = rolled dev @ [(adsc_cdb_write10 lba (word_of_nat n), take (n * bs) buf, r)]
        \<and> reply_outcome r = (rc, dev_last_sense dev'))"
proof (cases "n = 0 \<or> n > 0xFFFF \<or> bs = 0")
  case False
  let ?cdb = "adsc_cdb_write10 lba (word_of_nat n)"
  obtain b where x: "run_cmd K ?cdb XFER_OUT (take (n * bs) buf) timeout_write_ms dev = (rc, b, dev')"
    using assms False by (auto simp: adsc_mmc_write10_def send_data_def split: prod.splits)
  have "\<not> adsc_op_repeatable (?cdb ! 0)" by (simp add: adsc_cdb_write10_def adsc_op_repeatable_def)
  from run_cmd_single [OF x this] show ?thesis by blast
qed (use assms in \<open>auto simp: adsc_mmc_write10_def\<close>)

end

definition taping :: "'k kernel \<Rightarrow> ('k \<times> tape_entry list) kernel" where
  "taping K =
     \<lparr> k_sg_io = (\<lambda>cdb dir buf t (k, l).
         let (r, k') = k_sg_io K cdb dir buf t k in (r, (k', l @ [(cdb, buf, r)]))),
       k_select_speed = (\<lambda>s (k, l). let (ok, k') = k_select_speed K s k in (ok, (k', l))),
       k_unlock_door = (\<lambda>(k, l). let (e, k') = k_unlock_door K k in (e, (k', l))),
       k_eject = (\<lambda>(k, l). let (ok, k') = k_eject K k in (ok, (k', l))),
       k_disc_ok = (\<lambda>(k, l). let (ok, k') = k_disc_ok K k in (ok, (k', l))),
       k_close_tray = (\<lambda>(k, l). let (ok, k') = k_close_tray K k in (ok, (k', l))),
       k_sleep = (\<lambda>ms (k, l). (k_sleep K ms k, l)), k_fresh = (\<lambda>n (k, l). k_fresh K n k) \<rparr>"

interpretation taped: tape_recorder "taping K" snd for K :: "'k kernel"
  by unfold_locales (auto simp: taping_def Let_def split: prod.splits)

end
