(* ===== verification/BurnSpec.thy ===== *)
theory BurnSpec
  imports Burn Tape
begin

text \<open>
  What a burn sends, over the tape of every command: nothing that commits the disc goes out before
  the drive has been seen to hold the burn's parameters and the disc to be blank; a session that
  was opened is always released; and a burn that succeeds has laid down the CD-Text, the gap and
  the image, contiguous and in order.
\<close>

section \<open>Setting up\<close>

definition quiet :: "tape_entry \<Rightarrow> bool" where
  "quiet e \<longleftrightarrow> op_of e \<in> set [0x46, 0x5A, 0x55, 0xBB, 0x51, 0x54]"

text \<open>A reply to READ DISC INFORMATION in which the disc is blank, and a reply to MODE SENSE whose
  page 05 is a page for this burn.\<close>

definition blank_seen :: "tape_entry list \<Rightarrow> bool" where
  "blank_seen es \<longleftrightarrow> list_ex (\<lambda>e. op_of e = 0x51 \<and> seen e ! 2 AND 0x03 = 0) es"

definition page_seen :: "adsc_write_params \<Rightarrow> tape_entry list \<Rightarrow> bool" where
  "page_seen wp es \<longleftrightarrow>
     list_ex (\<lambda>e. op_of e = 0x5A \<and> (\<exists>po. burn_page wp (fst (wp_capture (seen e) (length (seen e)) po)))) es"

lemma wp_capture_take:
  assumes "po + 2 \<le> len" and "len \<le> length buf"
  shows "wp_capture (take len buf) len po = wp_capture buf len po"
proof -
  have s: "slice po n (take len buf) = slice po n buf" if "n \<le> len - po" for n
    using that by (simp add: slice_def drop_take min_def)
  show ?thesis
    using assms by (auto simp: wp_capture_def Let_def s)
qed

context tape_recorder
begin

abbreviation hushed :: "'k accudisc_device \<Rightarrow> 'k accudisc_device \<Rightarrow> bool" where
  "hushed dev dev' \<equiv> adds quiet (rolled dev) (rolled dev')"

lemma ops_quiet:
  "adds (\<lambda>e. op_of e = c) t t' \<Longrightarrow> c \<in> set [0x46, 0x5A, 0x55, 0xBB, 0x51, 0x54] \<Longrightarrow> adds quiet t t'"
  by (erule adds_mono) (simp add: quiet_def)

lemmas quiet_ops =
  mode_sense_ops [THEN ops_quiet] mode_select_ops [THEN ops_quiet] get_configuration_ops [THEN ops_quiet]
  set_cd_speed_ops [THEN ops_quiet] send_opc_ops [THEN ops_quiet] disc_info_ops [THEN ops_quiet]

lemma cur_write_kbps_hushed: "adsc_dev_cur_write_kbps K dev = (r, dev') \<Longrightarrow> hushed dev dev'"
  unfolding adsc_dev_cur_write_kbps_def Let_def
  by (auto split: prod.splits sum.splits if_splits dest!: quiet_ops)

lemma stated_kbps_hushed: "stated_kbps K dev = (n, dev') \<Longrightarrow> hushed dev dev'"
  unfolding stated_kbps_def by (auto split: prod.splits sum.splits dest!: cur_write_kbps_hushed)

lemma get_speed_hushed: "accudisc_get_speed K dev = (r, dev') \<Longrightarrow> hushed dev dev'"
  unfolding accudisc_get_speed_def Let_def
  by (auto split: prod.splits sum.splits if_splits dest!: quiet_ops)

lemma climb_speed_hushed: "climb_speed K r kbps c dev = (rc, dev') \<Longrightarrow> hushed dev dev'"
proof (induction c arbitrary: kbps dev)
  case 0
  then show ?case by (auto simp: climb_speed.simps Let_def split: prod.splits if_splits dest!: quiet_ops)
next
  case (Suc c)
  obtain rc1 d1 where x: "adsc_mmc_set_cd_speed K r (word_of_nat kbps) 0 dev = (rc1, d1)" by fastforce
  have "hushed dev d1" using quiet_ops(4) [OF x] by simp
  moreover have "hushed d1 dev'"
    using Suc x by (auto simp: climb_speed.simps [of _ _ _ "Suc c"] Let_def split: if_splits)
  ultimately show ?case by (rule adds_trans)
qed

lemma set_write_speed_hushed: "set_write_speed K x dev = (rc, kbps, dev') \<Longrightarrow> hushed dev dev'"
  unfolding set_write_speed_def Let_def
  by (auto split: prod.splits if_splits dest!: get_speed_hushed climb_speed_hushed stated_kbps_hushed intro: adds_trans)

lemma wp_program_hushed: "wp_program K wp dev = (rc, before, sent, dev') \<Longrightarrow> hushed dev dev'"
  unfolding wp_program_def Let_def
  by (auto split: prod.splits sum.splits if_splits dest!: quiet_ops intro: adds_trans)

lemma set_params_hushed: "adsc_write_set_params_sent K wp dev = (rc, sent, dev') \<Longrightarrow> hushed dev dev'"
  unfolding adsc_write_set_params_sent_def by (auto split: prod.splits dest!: wp_program_hushed)

lemma params_check_hushed: "adsc_write_params_check K sent dev = (rc, dev') \<Longrightarrow> hushed dev dev'"
  unfolding adsc_write_params_check_def Let_def
  by (auto split: prod.splits sum.splits if_splits dest!: quiet_ops)

lemma check_write_params_hushed: "check_write_params K sent dev = (rc, dev') \<Longrightarrow> hushed dev dev'"
  unfolding check_write_params_def by (auto split: prod.splits sum.splits dest!: params_check_hushed)

lemma burn_claims_hushed: "burn_claims K opts dev = (c, b, dev') \<Longrightarrow> hushed dev dev'"
  unfolding burn_claims_def adsc_probe_cd_mastering_def Let_def
  by (auto split: prod.splits if_splits dest!: quiet_ops)

lemma calibrate_hushed: "calibrate K opts sent dev = (rc, dev') \<Longrightarrow> hushed dev dev'"
  unfolding calibrate_def Let_def
  by (auto split: prod.splits if_splits dest!: quiet_ops check_write_params_hushed intro: adds_trans)

lemma params_check_seen:
  assumes "adsc_write_set_params_sent K wp dev = (rc, sent, dev1)"
    and "check_write_params K sent dev2 = (Inr (), dev3)"
  shows "\<exists>es. rolled dev3 = rolled dev2 @ es \<and> list_all quiet es \<and> page_seen wp es"
proof -
  obtain c where c: "adsc_write_params_check K sent dev2 = (Inr c, dev3)" "wc_fields_ok c"
    using assms(2) by (auto simp: check_write_params_def split: prod.splits sum.splits if_splits)
  note page = accepted_page [OF assms(1) c]
  obtain m buf d where m: "adsc_mmc_mode_sense10 K mode_write_params (fresh_bytes K 64 (dev_k dev2)) dev2 = (m, buf, d)"
    by (metis prod_cases3)
  then obtain len po where lp: "m = Inr (len, po)" "d = dev3" "po + 9 \<le> len" "wc_held c = wp_capture buf len po"
    using c(1) by (auto simp: adsc_write_params_check_def compare_pages_def Let_def split: sum.splits if_splits prod.splits)
  note b = mode_sense_bounds [OF m [unfolded lp(1)]]
  obtain es e where e: "rolled dev3 = rolled dev2 @ es @ [e]" "list_all (\<lambda>e. op_of e = 0x5A) (es @ [e])" "seen e = take len buf"
    using mode_sense_seen [OF m [unfolded lp(1)]] lp(2) by blast
  have "wp_capture (seen e) (length (seen e)) po = wc_held c"
    using b lp e(3) wp_capture_take [of po len buf] by simp
  with page have "burn_page wp (fst (wp_capture (seen e) (length (seen e)) po))" by simp
  with e(2) have "page_seen wp (es @ [e])" by (auto simp: page_seen_def)
  moreover have "list_all quiet (es @ [e])" using e(2) by (auto simp: quiet_def list_all_iff)
  ultimately show ?thesis using e(1) by auto
qed

lemma disc_blank_seen:
  assumes "read_disc_info K dev = (Inr d, dev')" and "di_status d = 0"
  shows "\<exists>es. rolled dev' = rolled dev @ es \<and> list_all quiet es \<and> blank_seen es"
proof -
  obtain rc buf d1 where x: "adsc_mmc_read_disc_info K (fresh_bytes K 34 (dev_k dev)) dev = (rc, buf, d1)"
    by (metis prod_cases3)
  then obtain len where len: "rc = Inr len" "d1 = dev'" "adsc_write_read_disc_info (Inr (buf, len)) = Inr d"
    using assms(1) by (auto simp: read_disc_info_def adsc_write_read_disc_info_def split: sum.splits)
  have l: "34 \<le> length (fresh_bytes K 34 (dev_k dev))" by (simp add: fresh_bytes_def)
  obtain es e where e: "rolled dev' = rolled dev @ es @ [e]" "list_all (\<lambda>e. op_of e = 0x51) (es @ [e])" "seen e = take 34 buf"
    using disc_info_seen [OF x [unfolded len(1)] l] len(2) by blast
  have "unat (buf ! 2 AND 0x03) = 0"
    using len(3) assms(2) by (auto simp: adsc_write_read_disc_info_def Let_def split: if_splits)
  then have "seen e ! 2 AND 0x03 = 0" using e(3) by (simp add: unat_eq_0)
  with e(2) have "blank_seen (es @ [e])" "list_all quiet (es @ [e])" by (auto simp: blank_seen_def quiet_def list_all_iff)
  then show ?thesis using e(1) by auto
qed

lemma burn_setup_tape:
  assumes "burn_setup K opts cdtext dev = (r, fl, dev')"
  shows "\<exists>es burnproof. rolled dev' = rolled dev @ es \<and> list_all quiet es \<and> fl_burnproof_on fl = burnproof
    \<and> (case r of Inl _ \<Rightarrow> True | Inr _ \<Rightarrow> blank_seen es \<and> page_seen (burn_params opts cdtext burnproof) es)"
proof -
  obtain claimed bp d1 where c: "burn_claims K opts dev = (claimed, bp, d1)" by (metis prod_cases3)
  define wp where "wp = burn_params opts cdtext bp"
  obtain rc1 sent d2 where p: "adsc_write_set_params_sent K wp d1 = (rc1, sent, d2)" by (metis prod_cases3)
  define d3 where "d3 = (if bo_speed opts > 0 then snd (snd (set_write_speed K (bo_speed opts) d2)) else snd (stated_kbps K d2))"
  obtain rc4 d4 where k: "check_write_params K sent d3 = (rc4, d4)" by fastforce
  obtain di d5 where i: "read_disc_info K d4 = (di, d5)" by fastforce
  obtain rc6 d6 where o: "calibrate K opts sent d5 = (rc6, d6)" by fastforce
  have h1: "hushed dev d1" by (rule burn_claims_hushed [OF c])
  have h2: "hushed d1 d2" by (rule set_params_hushed [OF p])
  have h3: "hushed d2 d3"
    unfolding d3_def using set_write_speed_hushed stated_kbps_hushed by (metis prod.collapse)
  have h4: "hushed d3 d4" by (rule check_write_params_hushed [OF k])
  have h5: "hushed d4 d5"
    using i unfolding read_disc_info_def by (auto split: prod.splits dest!: quiet_ops)
  have h6: "hushed d5 d6" by (rule calibrate_hushed [OF o])
  have run: "(r, fl, dev') = (let fl = flow_zero\<lparr> fl_burnproof_claimed := claimed, fl_burnproof_on := bp \<rparr> in
      case rc1 of Inl e \<Rightarrow> (Inl e, fl, d2) | Inr _ \<Rightarrow>
      (case rc4 of Inl e \<Rightarrow> (Inl e, fl, d4) | Inr _ \<Rightarrow>
      (case di of Inl e \<Rightarrow> (Inl e, fl, d5) | Inr d \<Rightarrow>
        if di_status d \<noteq> 0 then (Inl ERR_NOT_BLANK, fl, d5)
        else (case rc6 of Inl e \<Rightarrow> Inl e | Inr _ \<Rightarrow> Inr d, fl, d6))))"
    using assms unfolding burn_setup_def c prod.case wp_def [symmetric] p Let_def d3_def [symmetric] k i o
    by (simp split: sum.splits)
  then have fl: "fl_burnproof_on fl = bp" by (auto simp: Let_def flow_zero_def split: sum.splits if_splits)
  have h: "hushed dev d2" "hushed dev d4" "hushed dev d5" "hushed dev d6"
    using h1 h2 h3 h4 h5 h6 by (blast intro: adds_trans)+
  show ?thesis
  proof (cases r)
    case (Inl e)
    have "hushed dev dev'" using run Inl h by (auto simp: Let_def split: sum.splits if_splits)
    then show ?thesis using Inl by (auto simp: adds_def)
  next
    case (Inr d)
    then have ok: "rc4 = Inr ()" "di = Inr d" "di_status d = 0" "dev' = d6"
      using run by (auto simp: Let_def split: sum.splits if_splits)
    obtain e0 where e0: "rolled d3 = rolled dev @ e0" "list_all quiet e0"
      using h1 h2 h3 by (metis adds_trans addsE)
    obtain e1 where e1: "rolled d4 = rolled d3 @ e1" "list_all quiet e1" "page_seen wp e1"
      using params_check_seen [OF p k [unfolded ok(1)]] by blast
    obtain e2 where e2: "rolled d5 = rolled d4 @ e2" "list_all quiet e2" "blank_seen e2"
      using disc_blank_seen [OF i [unfolded ok(2)] ok(3)] by blast
    obtain e3 where e3: "rolled d6 = rolled d5 @ e3" "list_all quiet e3" using h6 by (rule addsE)
    have "rolled dev' = rolled dev @ (e0 @ e1 @ e2 @ e3)" using e0 e1 e2 e3 ok by simp
    moreover have "blank_seen (e0 @ e1 @ e2 @ e3)" "page_seen wp (e0 @ e1 @ e2 @ e3)"
      using e1 e2 by (simp_all add: blank_seen_def page_seen_def)
    ultimately show ?thesis using e0 e1 e2 e3 fl Inr wp_def by (intro exI [of _ "e0 @ e1 @ e2 @ e3"] exI [of _ bp]) simp
  qed
qed

end

section \<open>Writing\<close>

definition tape_writes :: "tape_entry list \<Rightarrow> (u32 \<times> u8 list) list" where
  "tape_writes es = map (\<lambda>e. (be32 (fst e) 2, fst (snd e))) (filter (\<lambda>e. op_of e = 0x2A \<and> accepted e) es)"

lemma tape_writes_append [simp]: "tape_writes (es @ fs) = tape_writes es @ tape_writes fs"
  by (simp add: tape_writes_def)

lemma tape_writes_none: "list_all (\<lambda>e. op_of e \<noteq> 0x2A) es \<Longrightarrow> tape_writes es = []"
  by (auto simp: tape_writes_def list_all_iff filter_empty_conv)

text \<open>Writes that follow one another from \<open>lba\<close> on, in blocks of \<open>bs\<close> bytes.\<close>

fun laid :: "nat \<Rightarrow> u32 \<Rightarrow> (u32 \<times> u8 list) list \<Rightarrow> bool" where
  "laid bs lba [] \<longleftrightarrow> True"
| "laid bs lba ((a, d) # ws) \<longleftrightarrow> a = lba \<and> bs dvd length d \<and> laid bs (lba + word_of_nat (length d div bs)) ws"

definition in_session :: "tape_entry \<Rightarrow> bool" where
  "in_session e \<longleftrightarrow> op_of e \<in> set [0x2A, 0x5C]"

text \<open>What a stretch of the session wrote: on success the blocks \<open>data\<close> from \<open>lba\<close> on.\<close>

definition wrote :: "nat \<Rightarrow> u32 \<Rightarrow> u8 list \<Rightarrow> unit res \<Rightarrow> tape_entry list \<Rightarrow> bool" where
  "wrote bs lba data rc es \<longleftrightarrow>
     list_all in_session es
     \<and> (rc = Inr () \<longrightarrow> laid bs lba (tape_writes es) \<and> concat (map snd (tape_writes es)) = data)"

lemma laid_append:
  "laid bs lba (ws @ vs) \<longleftrightarrow>
     laid bs lba ws \<and> laid bs (lba + word_of_nat (length (concat (map snd ws)) div bs)) vs"
proof (induction ws arbitrary: lba)
  case (Cons w ws)
  have "word_of_nat (length (snd w) div bs) + word_of_nat (length (concat (map snd ws)) div bs)
      = (word_of_nat (length (concat (map snd (w # ws))) div bs) :: u32)" if "bs dvd length (snd w)"
    using that by (simp flip: of_nat_add add: div_plus_div_distrib_dvd_left)
  then show ?case by (cases w) (auto simp: Cons.IH add.assoc)
qed simp

lemma wrote_cons:
  assumes "tape_writes es = [(lba, d)]" and "list_all in_session es" and "length d = n * bs" and "0 < bs"
    and "wrote bs (lba + word_of_nat n) d' rc fs"
  shows "wrote bs lba (d @ d') rc (es @ fs)"
  using assms by (auto simp: wrote_def)

text \<open>The sectors of the image, track by track, as the file holds them.\<close>

definition pread_file :: "u8 list \<Rightarrow> pread" where
  "pread_file file off n = slice off n file"

definition track_image :: "u8 list \<Rightarrow> nat \<Rightarrow> nat \<Rightarrow> u8 list list" where
  "track_image file off n = map (\<lambda>i. slice (off + i * burn_sector) burn_sector file) [0..<n]"

definition image_sectors :: "u8 list \<Rightarrow> adsc_write_track list \<Rightarrow> u8 list list" where
  "image_sectors file tracks =
     concat (map (\<lambda>t. track_image file (unat (wt_file_offset t)) (unat (wt_sectors t))) tracks)"

lemma length_track_image [simp]: "length (track_image file off n) = n"
  by (simp add: track_image_def)

lemma track_image_slice:
  "k + m \<le> n \<Longrightarrow> take m (drop k (track_image file off n)) = track_image file (off + k * burn_sector) m"
  by (rule nth_equalityI) (auto simp: track_image_def algebra_simps)

lemma slice_add: "slice off (m + n) xs = slice off m xs @ slice (off + m) n xs"
  by (simp add: slice_def take_add drop_drop add.commute)

lemma concat_track_image: "concat (track_image file off n) = slice off (n * burn_sector) file"
proof (induction n)
  case (Suc n)
  then show ?case by (simp add: track_image_def slice_add add.commute [of burn_sector])
qed (simp add: track_image_def slice_def)

lemma length_image_sectors: "length (image_sectors file tracks) = track_length_sum tracks"
  by (induction tracks) (auto simp: image_sectors_def track_length_sum_def)

lemma locate_image:
  assumes "locate ts (acc + k) acc n = (off, m)" and "k < track_length_sum ts" and "0 < n"
  shows "0 < m \<and> m \<le> n \<and> k + m \<le> track_length_sum ts
    \<and> take m (drop k (image_sectors file ts)) = track_image file off m"
  using assms
proof (induction ts arbitrary: acc k)
  case (Cons t ts)
  let ?s = "unat (wt_sectors t)"
  show ?case
  proof (cases "k < ?s")
    case True
    then have r: "off = unat (wt_file_offset t) + k * burn_sector" "m = min n (?s - k)"
      using Cons.prems(1) by auto
    have "take m (drop k (image_sectors file (t # ts))) = take m (drop k (track_image file (unat (wt_file_offset t)) ?s))"
      using True r by (simp add: image_sectors_def)
    also have "\<dots> = track_image file off m" using True r by (simp add: track_image_slice)
    finally show ?thesis using True r Cons.prems(3) by (simp add: track_length_sum_def)
  next
    case False
    then have "locate ts ((acc + ?s) + (k - ?s)) (acc + ?s) n = (off, m)" using Cons.prems(1) by simp
    moreover have "k - ?s < track_length_sum ts" using Cons.prems(2) False by (simp add: track_length_sum_def)
    ultimately show ?thesis
      using Cons.IH [of "acc + ?s" "k - ?s"] False Cons.prems(3)
      by (simp add: image_sectors_def track_length_sum_def) linarith
  qed
qed (simp add: track_length_sum_def)

lemma byteswap16_append: "even (length xs) \<Longrightarrow> byteswap16 (xs @ ys) = byteswap16 xs @ byteswap16 ys"
  by (induction xs rule: byteswap16.induct) auto

lemma length_byteswap16 [simp]: "length (byteswap16 xs) = length xs"
  by (induction xs rule: byteswap16.induct) auto

lemma byteswap16_concat:
  "list_all (\<lambda>x. even (length x)) xss \<Longrightarrow> byteswap16 (concat xss) = concat (map byteswap16 xss)"
  by (induction xss) (auto simp: byteswap16_append)

lemma swapped_image:
  assumes "length (slice off (n * burn_sector) file) = n * burn_sector"
  shows "concat (map byteswap16 (track_image file off n)) = byteswap16 (slice off (n * burn_sector) file)"
proof -
  have "length (slice (off + i * burn_sector) burn_sector file) = burn_sector" if "i < n" for i
  proof -
    have "Suc i * burn_sector \<le> n * burn_sector" using that by (intro mult_le_mono1) simp
    then show ?thesis using assms by (auto simp: algebra_simps)
  qed
  then have "list_all (\<lambda>x. even (length x)) (track_image file off n)"
    by (auto simp: list_all_iff track_image_def) (simp add: burn_sector_def)
  from byteswap16_concat [OF this] show ?thesis by (simp add: concat_track_image)
qed

lemma ring_blocks_length:
  assumes "0 < nblocks" and "length blocks = nblocks * rw_block_bytes"
  shows "length (ring_blocks blocks nblocks scp m) = m * rw_block_bytes"
proof -
  have "length (slice (((scp + i) mod nblocks) * rw_block_bytes) rw_block_bytes blocks) = rw_block_bytes" for i
  proof -
    have "Suc ((scp + i) mod nblocks) * rw_block_bytes \<le> nblocks * rw_block_bytes"
      using assms(1) by (intro mult_le_mono1) (simp add: Suc_leI)
    then show ?thesis using assms(2) by simp
  qed
  then show ?thesis by (simp add: ring_blocks_def length_concat o_def sum_list_triv)
qed

lemma ring_blocks_add:
  "ring_blocks blocks nblocks scp (n + m) =
     ring_blocks blocks nblocks scp n @ ring_blocks blocks nblocks ((scp + n) mod nblocks) m"
proof -
  have "[0..<n + m] = [0..<n] @ map (\<lambda>i. i + n) [0..<m]"
    using upt_add_eq_append [of 0 n m] by (simp only: map_add_upt add.commute [of m n] le0 simp_thms)
  moreover have "((scp + n) mod nblocks + i) mod nblocks = (scp + (i + n)) mod nblocks" for i
    by (simp add: mod_add_right_eq ac_simps)
  ultimately show ?thesis by (simp add: ring_blocks_def o_def)
qed

text \<open>The bytes a burn means to lay down: the image, the gap before it, the CD-Text before that.\<close>

definition image_bytes :: "u8 list \<Rightarrow> adsc_burn_opts \<Rightarrow> adsc_write_toc \<Rightarrow> u8 list" where
  "image_bytes file opts toc =
     concat (map (if bo_byteswap opts then byteswap16 else id) (image_sectors file (wtoc_track toc)))"

definition program_laid :: "u8 list \<Rightarrow> adsc_burn_opts \<Rightarrow> adsc_write_toc \<Rightarrow> (u32 \<times> u8 list) list \<Rightarrow> bool" where
  "program_laid file opts toc ws \<longleftrightarrow>
     (\<exists>gap program. ws = gap @ program
        \<and> laid burn_sector (- word_of_nat leadin_gap) gap
        \<and> concat (map snd gap) = replicate (leadin_gap * burn_sector) 0
        \<and> laid burn_sector 0 program \<and> concat (map snd program) = image_bytes file opts toc)"

definition leadin_bytes :: "u8 list option \<Rightarrow> nat \<Rightarrow> u8 list" where
  "leadin_bytes cdtext n =
     (case cdtext of
        None \<Rightarrow> []
      | Some blob \<Rightarrow>
          (case adsc_cdtext_encode_rw (cdtext_packs blob) of
             Inl _ \<Rightarrow> []
           | Inr blocks \<Rightarrow> ring_blocks blocks (adsc_cdtext_rw_block_count (length (cdtext_packs blob))) 0 n))"

definition disc_laid :: "u8 list \<Rightarrow> adsc_burn_opts \<Rightarrow> adsc_write_toc \<Rightarrow> u8 list option \<Rightarrow> u32 \<Rightarrow> (u32 \<times> u8 list) list \<Rightarrow> bool" where
  "disc_laid file opts toc cdtext leadin_len ws \<longleftrightarrow>
     (\<exists>leadin rest. ws = leadin @ rest
        \<and> laid rw_block_bytes (- word_of_nat leadin_gap - leadin_len) leadin
        \<and> concat (map snd leadin) = (if has_cdtext cdtext then leadin_bytes cdtext (unat leadin_len) else [])
        \<and> program_laid file opts toc rest)"

text \<open>What the write buffer must hand over: whole sectors that make up the image.\<close>

definition feed_carries :: "u8 list \<Rightarrow> wfifo_feed option \<Rightarrow> bool" where
  "feed_carries img feed \<longleftrightarrow>
     (case feed of None \<Rightarrow> True
      | Some f \<Rightarrow> list_all (\<lambda>p. length (pop_data p) = pop_nsec p * burn_sector) (ff_pops f)
          \<and> concat (map pop_data (ff_pops f)) = img)"

lemma encoded_length:
  assumes "adsc_cdtext_encode_rw (cdtext_packs blob) = Inr blocks"
  shows "length blocks = adsc_cdtext_rw_block_count (length (cdtext_packs blob)) * rw_block_bytes"
proof -
  define packs where "packs = cdtext_packs blob"
  have ne: "packs \<noteq> []" using assms by (auto simp: packs_def adsc_cdtext_encode_rw_def)
  have p18: "length p = 18" if mem: "p \<in> set packs" for p
  proof -
    obtain i where i: "p = slice (4 + i * 18) 18 blob" "i < (length blob - 4) div 18"
      using mem by (auto simp: packs_def cdtext_packs_def)
    then have "Suc i * 18 \<le> length blob - 4" by (simp add: less_eq_div_iff_mult_less_eq Suc_le_eq)
    then show ?thesis using i(1) by simp
  qed
  have "length (gather_packs packs b) = 72" for b
  proof -
    have l: "length (packs ! ((4 * b + j) mod length packs)) = 18" for j
      using ne by (intro p18 nth_mem) simp
    show ?thesis unfolding gather_packs_def length_concat map_map o_def l by (simp add: sum_list_triv)
  qed
  then have "length (pack_groups (gather_packs packs b)) = rw_block_bytes" for b
    by (simp add: length_pack_groups rw_block_bytes_def)
  then show ?thesis
    using assms ne unfolding packs_def [symmetric]
    by (auto simp: adsc_cdtext_encode_rw_def length_concat o_def sum_list_triv)
qed

context tape_recorder
begin

lemma write_chunk_tape:
  assumes "write_chunk K lba buf n bs fl dev = (rc, fl', dev')"
  shows "\<exists>es. rolled dev' = rolled dev @ es \<and> list_all in_session es
    \<and> tape_writes es = (if rc = Inr () then [(lba, take (n * bs) buf)] else [])"
proof -
  have "\<exists>es. rolled dev' = rolled dev @ es \<and> list_all in_session es
      \<and> tape_writes es = (if rc = Inr () then [(lba, take (n * bs) buf)] else [])"
    if "write_chunk_loop K lba buf n bs waited fl dev = (rc, fl', dev')" for waited fl dev
    using that
  proof (induction "stall_cap_ms - waited" arbitrary: waited fl dev rule: less_induct)
    case less
    obtain rc1 d1 where w: "adsc_mmc_write10 K lba n buf bs dev = (rc1, d1)" by fastforce
    have one: "\<exists>es. rolled d1 = rolled dev @ es \<and> list_all in_session es
        \<and> tape_writes es = (if rc1 = Inr () then [(lba, take (n * bs) buf)] else [])"
    proof -
      have "be32 (adsc_cdb_write10 lba (word_of_nat n)) 2 = lba"
        by (intro be32_at) (simp_all add: adsc_cdb_write10_def)
      moreover have "adsc_cdb_write10 lba (word_of_nat n) ! 0 = 0x2A" by (simp add: adsc_cdb_write10_def)
      ultimately show ?thesis
        using write10_tape [OF w]
        by (auto simp: tape_writes_def op_of_def in_session_def accepted_def
            intro: exI [of _ "[]"] exI [of _ "[(adsc_cdb_write10 lba (word_of_nat n), take (n * bs) buf, r)]" for r])
    qed
    show ?case
    proof (cases "rc1 = Inl ERR_SENSE \<and> long_write (dev_last_sense d1) \<and> waited < stall_cap_ms")
      case True
      then have again: "write_chunk_loop K lba buf n bs (waited + stall_poll_ms)
            (fl\<lparr> fl_stalls := fl_stalls fl + 1, fl_stall_ms := fl_stall_ms fl + stall_poll_ms \<rparr>)
            (adsc_sleep_ms K stall_poll_ms d1) = (rc, fl', dev')"
        using less.prems w by (simp add: write_chunk_loop.simps [of K lba buf n bs waited])
      have "stall_cap_ms - (waited + stall_poll_ms) < stall_cap_ms - waited"
        using True unfolding stall_cap_ms_def stall_poll_ms_def by linarith
      from less.hyps [OF this again] one True show ?thesis by fastforce
    next
      case False
      then have "rc = rc1" "dev' = d1"
        using less.prems w by (auto simp: write_chunk_loop.simps [of K lba buf n bs waited] split: if_splits)
      then show ?thesis using one by simp
    qed
  qed
  then show ?thesis using assms by (simp add: write_chunk_def)
qed

lemma leadin_loop_tape:
  assumes "leadin_loop K blocks nblocks scp lba left fl dev = (rc, fl', dev')" and "0 < nblocks" and "scp < nblocks"
    and "length blocks = nblocks * rw_block_bytes"
  shows "\<exists>es. rolled dev' = rolled dev @ es
    \<and> wrote rw_block_bytes lba (ring_blocks blocks nblocks scp left) rc es"
  using assms
proof (induction left arbitrary: scp lba fl dev rule: less_induct)
  case (less left)
  show ?case
  proof (cases "left = 0")
    case True
    have "rc = Inr ()" "dev' = dev"
      using less.prems(1) unfolding True leadin_loop.simps [of K blocks nblocks scp lba 0] by simp_all
    then show ?thesis using True by (intro exI [of _ "[]"]) (simp add: wrote_def ring_blocks_def tape_writes_def)
  next
    case False
    define n where "n = min left cdt_chunk"
    have n: "0 < n" "n \<le> left" using False by (auto simp: n_def cdt_chunk_def)
    obtain rc1 f1 d1 where w: "write_chunk K lba (ring_blocks blocks nblocks scp n) n rw_block_bytes fl dev = (rc1, f1, d1)"
      by (metis prod_cases3)
    obtain es where es: "rolled d1 = rolled dev @ es" "list_all in_session es"
      "tape_writes es = (if rc1 = Inr () then [(lba, take (n * rw_block_bytes) (ring_blocks blocks nblocks scp n))] else [])"
      using write_chunk_tape [OF w] by blast
    show ?thesis
    proof (cases "rc1 = Inr ()")
      case False
      then show ?thesis
        using less.prems(1) \<open>left \<noteq> 0\<close> w es
        by (auto simp: leadin_loop.simps [of _ _ _ _ _ left] Let_def n_def [symmetric] wrote_def)
    next
      case True
      then have rest: "leadin_loop K blocks nblocks ((scp + n) mod nblocks) (lba + word_of_nat n) (left - n) f1 d1 = (rc, fl', dev')"
        using less.prems(1) \<open>left \<noteq> 0\<close> w by (simp add: leadin_loop.simps [of _ _ _ _ _ left] Let_def n_def [symmetric])
      obtain fs where fs: "rolled dev' = rolled d1 @ fs"
        "wrote rw_block_bytes (lba + word_of_nat n) (ring_blocks blocks nblocks ((scp + n) mod nblocks) (left - n)) rc fs"
        using less.IH [OF _ rest] less.prems n by auto
      have len: "length (ring_blocks blocks nblocks scp m) = m * rw_block_bytes" for m
        using ring_blocks_length less.prems(2,4) by blast
      have "ring_blocks blocks nblocks scp left
          = ring_blocks blocks nblocks scp n @ ring_blocks blocks nblocks ((scp + n) mod nblocks) (left - n)"
        using ring_blocks_add [of blocks nblocks scp n "left - n"] n by simp
      then show ?thesis
        using wrote_cons [of es lba "ring_blocks blocks nblocks scp n" n rw_block_bytes] es fs True len
        by (intro exI [of _ "es @ fs"]) (simp add: rw_block_bytes_def)
    qed
  qed
qed

lemma gap_loop_tape:
  assumes "gap_loop K lba left fl dev = (rc, fl', dev')"
  shows "\<exists>es. rolled dev' = rolled dev @ es \<and> wrote burn_sector lba (replicate (left * burn_sector) 0) rc es"
  using assms
proof (induction left arbitrary: lba fl dev rule: less_induct)
  case (less left)
  show ?case
  proof (cases "left = 0")
    case True
    have "rc = Inr ()" "dev' = dev" using less.prems unfolding True gap_loop.simps [of K lba 0] by simp_all
    then show ?thesis using True by (intro exI [of _ "[]"]) (simp add: wrote_def tape_writes_def)
  next
    case False
    define n where "n = min left burn_chunk"
    have n: "0 < n" "n \<le> left" "n \<le> burn_chunk" using False by (auto simp: n_def burn_chunk_def)
    obtain rc1 f1 d1 where w: "write_chunk K lba (replicate (burn_chunk * burn_sector) 0) n burn_sector fl dev = (rc1, f1, d1)"
      by (metis prod_cases3)
    have "n * burn_sector \<le> burn_chunk * burn_sector" using n(3) by simp
    then have t: "take (n * burn_sector) (replicate (burn_chunk * burn_sector) (0 :: u8)) = replicate (n * burn_sector) 0"
      by (simp add: min_absorb1)
    obtain es where es: "rolled d1 = rolled dev @ es" "list_all in_session es"
      "tape_writes es = (if rc1 = Inr () then [(lba, replicate (n * burn_sector) 0)] else [])"
      using write_chunk_tape [OF w] unfolding t by blast
    show ?thesis
    proof (cases "rc1 = Inr ()")
      case False
      then show ?thesis
        using less.prems \<open>left \<noteq> 0\<close> w es
        by (auto simp: gap_loop.simps [of _ _ left] Let_def n_def [symmetric] wrote_def)
    next
      case True
      then have rest: "gap_loop K (lba + word_of_nat n) (left - n) f1 d1 = (rc, fl', dev')"
        using less.prems \<open>left \<noteq> 0\<close> w by (simp add: gap_loop.simps [of _ _ left] Let_def n_def [symmetric])
      obtain fs where fs: "rolled dev' = rolled d1 @ fs"
        "wrote burn_sector (lba + word_of_nat n) (replicate ((left - n) * burn_sector) 0) rc fs"
        using less.IH [OF _ rest] n by auto
      have "replicate (left * burn_sector) (0 :: u8) = replicate (n * burn_sector) 0 @ replicate ((left - n) * burn_sector) 0"
        using n by (simp flip: replicate_add add_mult_distrib)
      then show ?thesis
        using wrote_cons [of es lba "replicate (n * burn_sector) 0" n burn_sector] es fs True
        by (intro exI [of _ "es @ fs"]) (simp add: burn_sector_def)
    qed
  qed
qed

lemma sync_cache_same:
  assumes "adsc_mmc_sync_cache K dev = (rc, dev')"
  shows "same_handle dev dev'"
  using assms dev_exec_same by (auto simp: adsc_mmc_sync_cache_def no_data_def run_cmd_def split: prod.splits)

lemma buffer_capacity_session:
  assumes "adsc_mmc_read_buffer_capacity K dev = (rc, dev')"
  shows "\<exists>es. rolled dev' = rolled dev @ es \<and> list_all in_session es \<and> tape_writes es = []"
proof -
  obtain es where "rolled dev' = rolled dev @ es" "list_all (\<lambda>e. op_of e = 0x5C) es"
    using buffer_capacity_ops [OF assms] by (rule addsE)
  then show ?thesis
    by (intro exI [of _ es]) (auto simp: list_all_iff in_session_def intro: tape_writes_none)
qed

lemma buf_sample_session:
  assumes "buf_sample K fl dev = (fl', dev')"
  shows "\<exists>es. rolled dev' = rolled dev @ es \<and> list_all in_session es \<and> tape_writes es = []"
proof (cases "fl_cap_live fl")
  case True
  then show ?thesis
    using assms by (auto simp: buf_sample_def split: prod.splits sum.splits dest!: buffer_capacity_session)
next
  case False
  then show ?thesis using assms by (intro exI [of _ "[]"]) (simp add: buf_sample_def tape_writes_def)
qed

lemma put_chunk_tape:
  assumes "put_chunk K n data we sofar lba fl dev = (rc, fl', dev')"
  shows "\<exists>es. rolled dev' = rolled dev @ es \<and> list_all in_session es
    \<and> tape_writes es = (if rc = Inr () then [(lba, take (n * burn_sector) data)] else [])"
proof -
  define f0 where "f0 = (if we then fl\<lparr> fl_fifo_starved := fl_fifo_starved fl + 1 \<rparr> else fl)"
  obtain f1 d1 where b: "(if sofar div burn_chunk mod buf_poll_every = 0 then buf_sample K f0 dev else (f0, dev)) = (f1, d1)"
    by fastforce
  have s: "\<exists>es. rolled d1 = rolled dev @ es \<and> list_all in_session es \<and> tape_writes es = []"
  proof (cases "sofar div burn_chunk mod buf_poll_every = 0")
    case True
    then show ?thesis using b buf_sample_session [of f0 dev f1 d1] by simp
  next
    case False
    then show ?thesis using b by (intro exI [of _ "[]"]) (simp add: tape_writes_def)
  qed
  show ?thesis
  proof (cases "we \<and> \<not> fl_burnproof_on f0")
    case True
    have "put_chunk K n data we sofar lba fl dev = (Inl ERR_IO, f0, dev)"
      using True unfolding put_chunk_def f0_def [symmetric] Let_def by (rule if_P)
    then show ?thesis
      using assms by (intro exI [of _ "[]"]) (simp add: tape_writes_def)
  next
    case False
    have "put_chunk K n data we sofar lba fl dev = write_chunk K lba data n burn_sector f1 d1"
      using False unfolding put_chunk_def f0_def [symmetric] Let_def b prod.case by (rule if_not_P)
    then have w: "write_chunk K lba data n burn_sector f1 d1 = (rc, fl', dev')"
      using assms by simp
    from write_chunk_tape [OF w] s show ?thesis by fastforce
  qed
qed

text \<open>What a payload writes: the chunks it is handed, or the image read chunk by chunk.\<close>

lemma fifo_payload_tape:
  assumes "fifo_payload K stream_end ps sofar lba fl dev = (rc, fl', dev')"
    and "list_all (\<lambda>p. length (pop_data p) = pop_nsec p * burn_sector) ps"
  shows "\<exists>es. rolled dev' = rolled dev @ es \<and> wrote burn_sector lba (concat (map pop_data ps)) rc es"
  using assms
proof (induction ps arbitrary: sofar lba fl dev)
  case Nil
  then show ?case by (intro exI [of _ "[]"]) (simp add: wrote_def tape_writes_def)
next
  case (Cons p ps)
  obtain rc1 f1 d1 where w: "put_chunk K (pop_nsec p) (pop_data p) (pop_was_empty p) sofar lba fl dev = (rc1, f1, d1)"
    by (metis prod_cases3)
  obtain es where es: "rolled d1 = rolled dev @ es" "list_all in_session es"
    "tape_writes es = (if rc1 = Inr () then [(lba, pop_data p)] else [])"
    using put_chunk_tape [OF w] Cons.prems(2) by auto
  show ?case
  proof (cases "rc1 = Inr ()")
    case False
    then show ?thesis using Cons.prems(1) w es by (auto simp: wrote_def Let_def)
  next
    case True
    then have "fifo_payload K stream_end ps (sofar + pop_nsec p) (lba + word_of_nat (pop_nsec p)) f1 d1 = (rc, fl', dev')"
      using Cons.prems(1) w by simp
    from Cons.IH [OF this] Cons.prems(2) obtain fs where fs: "rolled dev' = rolled d1 @ fs"
      "wrote burn_sector (lba + word_of_nat (pop_nsec p)) (concat (map pop_data ps)) rc fs"
      by auto
    then show ?thesis
      using wrote_cons [of es lba "pop_data p" "pop_nsec p" burn_sector] es fs True Cons.prems(2)
      by (intro exI [of _ "es @ fs"]) (simp add: burn_sector_def)
  qed
qed

lemma sync_payload_tape:
  assumes "sync_payload K (pread_file file) swap tracks image_len sofar lba fl dev = (rc, fl', dev')"
    and "image_len = track_length_sum tracks"
  shows "\<exists>es. rolled dev' = rolled dev @ es
    \<and> wrote burn_sector lba (concat (map (if swap then byteswap16 else id) (drop sofar (image_sectors file tracks)))) rc es"
  using assms(1)
proof (induction "image_len - sofar" arbitrary: sofar lba fl dev rule: less_induct)
  case less
  let ?swp = "if swap then byteswap16 else id"
  show ?case
  proof (cases "sofar < image_len")
    case False
    have "rc = Inr ()" "dev' = dev"
      using less.prems False unfolding sync_payload.simps [of K _ swap tracks image_len sofar] by simp_all
    then show ?thesis
      using False assms(2) by (intro exI [of _ "[]"]) (simp add: wrote_def tape_writes_def length_image_sectors)
  next
    case True
    obtain off n where l: "locate tracks sofar 0 (min (image_len - sofar) burn_chunk) = (off, n)" by fastforce
    define data where "data = slice off (n * burn_sector) file"
    define out where "out = (if swap then byteswap16 data else data)"
    have img: "0 < n" "sofar + n \<le> image_len" "take n (drop sofar (image_sectors file tracks)) = track_image file off n"
      using locate_image [where ts = tracks and acc = 0 and k = sofar and n = "min (image_len - sofar) burn_chunk"
          and off = off and m = n] l True assms(2)
      by (simp_all add: burn_chunk_def)
    have run: "sync_payload K (pread_file file) swap tracks image_len sofar lba fl dev =
        (if length data \<noteq> n * burn_sector then (Inl ERR_IO, fl, dev)
         else let (rc, fl, dev) = put_chunk K n out False sofar lba fl dev in
           if rc \<noteq> Inr () then (rc, fl, dev)
           else sync_payload K (pread_file file) swap tracks image_len (sofar + n) (lba + word_of_nat n) fl dev)"
      using True by (simp add: sync_payload.simps [of K _ swap tracks image_len sofar] l data_def out_def pread_file_def Let_def)
    show ?thesis
    proof (cases "length data = n * burn_sector")
      case False
      then show ?thesis
        using less.prems unfolding run by (intro exI [of _ "[]"]) (auto simp: wrote_def tape_writes_def)
    next
      case full: True
      obtain rc1 f1 d1 where w: "put_chunk K n out False sofar lba fl dev = (rc1, f1, d1)" by (metis prod_cases3)
      have lo: "length out = n * burn_sector" using full by (simp add: out_def)
      obtain es where es: "rolled d1 = rolled dev @ es" "list_all in_session es"
        "tape_writes es = (if rc1 = Inr () then [(lba, out)] else [])"
        using put_chunk_tape [OF w] lo by auto
      show ?thesis
      proof (cases "rc1 = Inr ()")
        case False
        then show ?thesis
          using less.prems es w full unfolding run by (auto simp: wrote_def)
      next
        case True
        then have rest: "sync_payload K (pread_file file) swap tracks image_len (sofar + n) (lba + word_of_nat n) f1 d1 = (rc, fl', dev')"
          using less.prems w full unfolding run by simp
        have dec: "image_len - (sofar + n) < image_len - sofar" using img(1,2) by linarith
        obtain fs where fs: "rolled dev' = rolled d1 @ fs"
          "wrote burn_sector (lba + word_of_nat n) (concat (map ?swp (drop (sofar + n) (image_sectors file tracks)))) rc fs"
          using less.hyps [OF dec rest] by blast
        have "drop sofar (image_sectors file tracks) = track_image file off n @ drop (sofar + n) (image_sectors file tracks)"
          using img(3) by (metis append_take_drop_id drop_drop add.commute)
        moreover have "concat (map ?swp (track_image file off n)) = out"
          using swapped_image [where off = off and n = n] full unfolding data_def out_def
          by (simp add: concat_track_image)
        ultimately have "concat (map ?swp (drop sofar (image_sectors file tracks)))
            = out @ concat (map ?swp (drop (sofar + n) (image_sectors file tracks)))"
          by simp
        then show ?thesis
          using wrote_cons [of es lba out n burn_sector] es fs True lo
          by (intro exI [of _ "es @ fs"]) (simp add: burn_sector_def)
      qed
    qed
  qed
qed

lemma burn_data_tape:
  assumes "burn_data K clock (pread_file file) feed opts toc fl dev = (rc, ms, fl', dev')"
    and "unat (wtoc_leadout_lba toc) = track_length_sum (wtoc_track toc)"
    and "feed_carries (image_bytes file opts toc) feed"
  shows "\<exists>es. rolled dev' = rolled dev @ es \<and> list_all in_session es
    \<and> (rc = Inr () \<longrightarrow> program_laid file opts toc (tape_writes es))"
proof -
  obtain f1 d1 where a: "arm_buffer_poll K fl dev = (f1, d1)" by fastforce
  obtain rc2 f2 d2 where g: "gap_loop K (- word_of_nat leadin_gap) leadin_gap f1 d1 = (rc2, f2, d2)"
    by (metis prod_cases3)
  have "\<exists>es. rolled d1 = rolled dev @ es \<and> list_all in_session es \<and> tape_writes es = []"
    using a by (auto simp: arm_buffer_poll_def Let_def split: prod.splits sum.splits dest!: buffer_capacity_session)
  then obtain e1 where e1: "rolled d1 = rolled dev @ e1" "list_all in_session e1" "tape_writes e1 = []" by blast
  obtain e2 where e2: "rolled d2 = rolled d1 @ e2"
    "wrote burn_sector (- word_of_nat leadin_gap) (replicate (leadin_gap * burn_sector) 0) rc2 e2"
    using gap_loop_tape [OF g] by blast
  show ?thesis
  proof (cases "rc2 = Inr () \<and> feed_ready feed = Inr ()")
    case False
    then have "dev' = d2 \<and> rc \<noteq> Inr ()"
      using assms(1) unfolding burn_data_def a g Let_def prod.case by (simp split: if_splits)
    then show ?thesis
      using e1 e2 by (intro exI [of _ "e1 @ e2"]) (simp add: wrote_def)
  next
    case True
    obtain rc3 f3 d3 where p: "(case feed of
          Some f \<Rightarrow> fifo_payload K (ff_end f) (ff_pops f) 0 0 f2 d2
        | None \<Rightarrow> sync_payload K (pread_file file) (bo_byteswap opts) (wtoc_track toc) (unat (wtoc_leadout_lba toc)) 0 0 f2 d2)
        = (rc3, f3, d3)"
      by (rule prod_cases3)
    have r: "dev' = d3 \<and> rc = rc3"
      using assms(1) True
      by (simp only: burn_data_def a g Let_def prod.case p simp_thms if_False prod.inject)
    have "\<exists>es. rolled d3 = rolled d2 @ es \<and> wrote burn_sector 0 (image_bytes file opts toc) rc3 es"
    proof (cases feed)
      case None
      then show ?thesis
        using p sync_payload_tape [OF _ assms(2), where sofar = 0 and lba = 0 and fl = f2 and dev = d2]
        by (simp add: image_bytes_def)
    next
      case (Some f)
      then show ?thesis
        using p assms(3) fifo_payload_tape [where stream_end = "ff_end f" and ps = "ff_pops f" and sofar = 0 and lba = 0]
        by (simp add: feed_carries_def)
    qed
    then obtain e3 where e3: "rolled d3 = rolled d2 @ e3" "wrote burn_sector 0 (image_bytes file opts toc) rc3 e3" by blast
    show ?thesis
      using e1 e2 e3 r True unfolding wrote_def program_laid_def
      by (intro exI [of _ "e1 @ e2 @ e3"]) (simp, blast)
  qed
qed

lemma leadin_tape:
  assumes "write_cdtext_leadin K blob di fl dev = (rc, fl', dev')"
  shows "\<exists>es. rolled dev' = rolled dev @ es \<and> list_all in_session es
    \<and> (rc = Inr () \<longrightarrow> laid rw_block_bytes (- word_of_nat leadin_gap - di_leadin_len di) (tape_writes es)
          \<and> concat (map snd (tape_writes es)) = leadin_bytes (Some blob) (unat (di_leadin_len di)))"
proof -
  let ?packs = "cdtext_packs blob"
  let ?nb = "adsc_cdtext_rw_block_count (length ?packs)"
  show ?thesis
  proof (cases "?packs = [] \<or> ?nb = 0 \<or> di_leadin_len di = 0")
    case True
    then show ?thesis
      using assms by (intro exI [of _ "[]"]) (auto simp: write_cdtext_leadin_def Let_def)
  next
    case False
    then obtain blocks where enc: "adsc_cdtext_encode_rw ?packs = Inr blocks"
      by (auto simp: adsc_cdtext_encode_rw_def)
    have run: "leadin_loop K blocks ?nb 0 (- word_of_nat leadin_gap - di_leadin_len di) (unat (di_leadin_len di)) fl dev
        = (rc, fl', dev')"
      using assms False enc by (simp add: write_cdtext_leadin_def Let_def)
    have len: "length blocks = ?nb * rw_block_bytes" by (rule encoded_length [OF enc])
    show ?thesis
      using leadin_loop_tape [OF run _ _ len] False enc by (auto simp: wrote_def leadin_bytes_def)
  qed
qed

lemma burn_session_tape:
  assumes "burn_session K clock pread feed opts toc cdtext di fl dev = (rc, ms, fl', dev')"
    and "pread = pread_file file"
    and "unat (wtoc_leadout_lba toc) = track_length_sum (wtoc_track toc)"
    and "feed_carries (image_bytes file opts toc) feed"
  shows "\<exists>es. rolled dev' = rolled dev @ es \<and> list_all in_session es
    \<and> (rc = Inr () \<longrightarrow> disc_laid file opts toc cdtext (di_leadin_len di) (tape_writes es))"
proof -
  obtain rc1 f1 d1 where l: "(case cdtext of
        Some blob \<Rightarrow> if has_cdtext cdtext then write_cdtext_leadin K blob di fl dev else (Inr (), fl, dev)
      | None \<Rightarrow> (Inr (), fl, dev)) = (rc1, f1, d1)"
    by (rule prod_cases3)
  have "\<exists>es. rolled d1 = rolled dev @ es \<and> list_all in_session es \<and> (rc1 = Inr () \<longrightarrow>
      laid rw_block_bytes (- word_of_nat leadin_gap - di_leadin_len di) (tape_writes es)
      \<and> concat (map snd (tape_writes es)) = (if has_cdtext cdtext then leadin_bytes cdtext (unat (di_leadin_len di)) else []))"
  proof (cases "has_cdtext cdtext")
    case True
    then obtain blob where "cdtext = Some blob" by (auto simp: has_cdtext_def split: option.splits)
    then show ?thesis using l True leadin_tape [of blob di fl dev rc1 f1 d1] by simp
  next
    case False
    then have "rc1 = Inr () \<and> d1 = dev" using l by (simp split: option.splits)
    then show ?thesis using False by (intro exI [of _ "[]"]) (simp add: tape_writes_def)
  qed
  then obtain e1 where e1: "rolled d1 = rolled dev @ e1" "list_all in_session e1" "rc1 = Inr () \<Longrightarrow>
      laid rw_block_bytes (- word_of_nat leadin_gap - di_leadin_len di) (tape_writes e1)
      \<and> concat (map snd (tape_writes e1)) = (if has_cdtext cdtext then leadin_bytes cdtext (unat (di_leadin_len di)) else [])"
    by blast
  show ?thesis
  proof (cases "rc1 = Inr ()")
    case False
    then have "dev' = d1 \<and> rc = rc1"
      using assms(1) by (simp only: burn_session_def l Let_def prod.case if_True simp_thms prod.inject)
    then show ?thesis using e1 False by auto
  next
    case True
    then have "burn_data K clock (pread_file file) feed opts toc f1 d1 = (rc, ms, fl', dev')"
      using assms(1,2) by (simp only: burn_session_def l Let_def prod.case if_False simp_thms)
    from burn_data_tape [OF this assms(3,4)] obtain e2 where e2: "rolled dev' = rolled d1 @ e2" "list_all in_session e2"
      "rc = Inr () \<Longrightarrow> program_laid file opts toc (tape_writes e2)"
      by blast
    have "disc_laid file opts toc cdtext (di_leadin_len di) (tape_writes (e1 @ e2))" if "rc = Inr ()"
      unfolding disc_laid_def
      by (rule exI [of _ "tape_writes e1"], rule exI [of _ "tape_writes e2"])
        (simp only: tape_writes_append e1(3) [OF True] e2(3) [OF that] simp_thms)
    then show ?thesis
      using e1(1,2) e2(1,2) by (intro exI [of _ "e1 @ e2"]) simp
  qed
qed

text \<open>Without any assumption on the source the session is writes and buffer polls all the same.\<close>

lemma sync_payload_session:
  assumes "sync_payload K pread swap tracks image_len sofar lba fl dev = (rc, fl', dev')"
  shows "adds in_session (rolled dev) (rolled dev')"
  using assms
proof (induction "image_len - sofar" arbitrary: sofar lba fl dev rule: less_induct)
  case less
  obtain off n where l: "locate tracks sofar 0 (min (image_len - sofar) burn_chunk) = (off, n)" by fastforce
  define data where "data = pread off (n * burn_sector)"
  obtain rc1 f1 d1 where w: "put_chunk K n (if swap then byteswap16 data else data) False sofar lba fl dev = (rc1, f1, d1)"
    by (metis prod_cases3)
  have one: "adds in_session (rolled dev) (rolled d1)"
    using put_chunk_tape [OF w] by (auto simp: adds_def)
  have run: "(rc, fl', dev') = (if sofar \<ge> image_len then (Inr (), fl, dev)
      else if length data \<noteq> n * burn_sector then (Inl ERR_IO, fl, dev)
      else if rc1 \<noteq> Inr () then (rc1, f1, d1)
      else sync_payload K pread swap tracks image_len (sofar + n) (lba + word_of_nat n) f1 d1)"
    using less.prems unfolding sync_payload.simps [of K _ swap tracks image_len sofar] l Let_def prod.case
      data_def [symmetric] w by simp
  show ?case
  proof (cases "sofar < image_len \<and> length data = n * burn_sector \<and> rc1 = Inr ()")
    case True
    then have "0 < n"
      using locate_pos [of "min (image_len - sofar) burn_chunk" tracks sofar 0] l by (simp add: burn_chunk_def)
    with True have "image_len - (sofar + n) < image_len - sofar" by linarith
    from less.hyps [OF this] run True have "adds in_session (rolled d1) (rolled dev')" by auto
    with one show ?thesis by (rule adds_trans)
  next
    case False
    then show ?thesis using run one by (auto split: if_splits)
  qed
qed

lemma fifo_payload_session:
  "fifo_payload K stream_end ps sofar lba fl dev = (rc, fl', dev') \<Longrightarrow> adds in_session (rolled dev) (rolled dev')"
proof (induction ps arbitrary: sofar lba fl dev)
  case (Cons p ps)
  obtain rc1 f1 d1 where w: "put_chunk K (pop_nsec p) (pop_data p) (pop_was_empty p) sofar lba fl dev = (rc1, f1, d1)"
    by (metis prod_cases3)
  have one: "adds in_session (rolled dev) (rolled d1)"
    using put_chunk_tape [OF w] by (auto simp: adds_def)
  show ?case
  proof (cases "rc1 = Inr ()")
    case True
    then have "adds in_session (rolled d1) (rolled dev')"
      using Cons.prems w Cons.IH [of "sofar + pop_nsec p" "lba + word_of_nat (pop_nsec p)" f1 d1] by simp
    with one show ?thesis by (rule adds_trans)
  next
    case False
    then show ?thesis using Cons.prems w one by simp
  qed
qed simp

lemma burn_data_session:
  assumes "burn_data K clock pread feed opts toc fl dev = (rc, ms, fl', dev')"
  shows "adds in_session (rolled dev) (rolled dev')"
proof -
  obtain f1 d1 where a: "arm_buffer_poll K fl dev = (f1, d1)" by fastforce
  obtain rc2 f2 d2 where g: "gap_loop K (- word_of_nat leadin_gap) leadin_gap f1 d1 = (rc2, f2, d2)"
    by (rule prod_cases3)
  have "adds in_session (rolled dev) (rolled d1)"
    using a by (auto simp: arm_buffer_poll_def Let_def adds_def split: prod.splits sum.splits dest!: buffer_capacity_session)
  also have "adds in_session (rolled d1) (rolled d2)"
    using gap_loop_tape [OF g] by (auto simp: adds_def wrote_def)
  finally have two: "adds in_session (rolled dev) (rolled d2)" .
  obtain rc3 f3 d3 where p: "(case feed of
        Some f \<Rightarrow> fifo_payload K (ff_end f) (ff_pops f) 0 0 f2 d2
      | None \<Rightarrow> sync_payload K pread (bo_byteswap opts) (wtoc_track toc) (unat (wtoc_leadout_lba toc)) 0 0 f2 d2)
      = (rc3, f3, d3)"
    by (rule prod_cases3)
  have three: "adds in_session (rolled d2) (rolled d3)"
    using p by (cases feed) (auto intro: sync_payload_session fifo_payload_session)
  have "dev' = d2 \<or> dev' = d3"
    using assms unfolding burn_data_def a g Let_def prod.case p by (auto split: if_splits)
  with two three show ?thesis by (auto intro: adds_trans)
qed

lemma burn_session_session:
  assumes "burn_session K clock pread feed opts toc cdtext di fl dev = (rc, ms, fl', dev')"
  shows "adds in_session (rolled dev) (rolled dev')"
proof -
  obtain rc1 f1 d1 where l: "(case cdtext of
        Some blob \<Rightarrow> if has_cdtext cdtext then write_cdtext_leadin K blob di fl dev else (Inr (), fl, dev)
      | None \<Rightarrow> (Inr (), fl, dev)) = (rc1, f1, d1)"
    by (rule prod_cases3)
  have one: "adds in_session (rolled dev) (rolled d1)"
    using l by (auto simp: adds_def split: option.splits if_splits dest!: leadin_tape)
  have "dev' = d1 \<or> burn_data K clock pread feed opts toc f1 d1 = (rc, ms, fl', dev')"
    using assms unfolding burn_session_def l Let_def prod.case by (simp split: if_splits)
  then show ?thesis using one burn_data_session adds_trans by metis
qed

lemma burn_close_tape:
  assumes "burn_close K feed opts toc rc ms dev = (rc', dev')"
  shows "\<exists>es. rolled dev' = rolled dev @ es \<and> es \<noteq> [] \<and> list_all (\<lambda>e. op_of e = 0x35) es
    \<and> \<not> dev_ready_wait_off dev' \<and> (rc' = Inr () \<longrightarrow> rc = Inr () \<and> accepted (last es))"
proof -
  obtain rc1 d1 where c: "(if rc = Inr () then adsc_mmc_sync_cache K dev else (rc, dev)) = (rc1, d1)" by fastforce
  define d2 where "d2 = d1\<lparr> dev_ready_wait_off := False \<rparr>"
  obtain rc3 d3 where a: "adsc_mmc_sync_cache K d2 = (rc3, d3)" by fastforce
  have d2: "rolled d2 = rolled d1" "\<not> dev_ready_wait_off d2" by (simp_all add: d2_def)
  have d3: "\<not> dev_ready_wait_off d3"
    using sync_cache_same [OF a] d2(2) by (simp add: same_handle_fields)
  obtain e3 where e3: "rolled d3 = rolled d2 @ [e3]" "op_of e3 = 0x35" using sync_cache_tape [OF a] by blast
  define d4 where "d4 = (if rc1 \<noteq> Inr () then d3 else d2)"
  have "rolled dev' = rolled d4 \<and> dev_ready_wait_off dev' = dev_ready_wait_off d4 \<and> (rc' = Inr () \<longrightarrow> rc1 = Inr ())"
    using assms unfolding burn_close_def c Let_def prod.case d2_def [symmetric] a snd_conv d4_def [symmetric]
    by (auto simp: adsc_write_health_record_def Let_def split: option.splits if_splits)
  moreover have "\<not> dev_ready_wait_off d4" using d2 d3 by (simp add: d4_def)
  moreover have "\<exists>es. rolled d4 = rolled dev @ es \<and> es \<noteq> [] \<and> list_all (\<lambda>e. op_of e = 0x35) es
      \<and> (rc1 = Inr () \<longrightarrow> rc = Inr () \<and> accepted (last es))"
  proof (cases "rc = Inr ()")
    case True
    then obtain e1 where e1: "rolled d1 = rolled dev @ [e1]" "op_of e1 = 0x35" "accepted e1 \<longleftrightarrow> rc1 = Inr ()"
      using c sync_cache_tape [of dev rc1 d1] by auto
    show ?thesis
    proof (cases "rc1 = Inr ()")
      case closed: True
      then show ?thesis using e1 d2 True by (intro exI [of _ "[e1]"]) (simp add: d4_def)
    next
      case False
      then show ?thesis using e1 e3 d2 by (intro exI [of _ "[e1, e3]"]) (simp add: d4_def)
    qed
  next
    case False
    then show ?thesis using c e3 d2 by (intro exI [of _ "[e3]"]) (auto simp: d4_def)
  qed
  ultimately show ?thesis by fastforce
qed

text \<open>The shape of a run: what precedes the cue sheet, the cue sheet, the session, the release.\<close>

lemma run_shape:
  assumes "adsc_write_run K clock pread feed opts toc cdtext dev = (rc, fl, dev')"
  obtains (refused) es where "rolled dev' = rolled dev @ es" "list_all quiet es" "rc \<noteq> Inr ()"
      "\<not> dev_ready_wait_off dev'"
  | (no_session) pre cue bp where "rolled dev' = rolled dev @ pre @ [cue]" "list_all quiet pre" "rc \<noteq> Inr ()"
      "blank_seen pre" "page_seen (burn_params opts cdtext bp) pre" "op_of cue = 0x5D" "\<not> accepted cue"
      "\<not> dev_ready_wait_off dev'"
  | (session) pre cue es fin bp di rc1 ms fl1 d1 d2 where "rolled dev' = rolled dev @ pre @ [cue] @ es @ fin"
      "list_all quiet pre" "blank_seen pre" "page_seen (burn_params opts cdtext bp) pre" "op_of cue = 0x5D"
      "accepted cue" "list_all in_session es" "fin \<noteq> []" "list_all (\<lambda>e. op_of e = 0x35) fin"
      "rc = Inr () \<longrightarrow> rc1 = Inr () \<and> accepted (last fin)" "\<not> dev_ready_wait_off dev'"
      "burn_session K clock pread feed opts toc cdtext di fl1 d1 = (rc1, ms, fl, d2)" "rolled d2 = rolled d1 @ es"
proof -
  obtain st f1 d1 where s: "burn_setup K opts cdtext dev = (st, f1, d1)" by (rule prod_cases3)
  obtain es bp where es: "rolled d1 = rolled dev @ es" "list_all quiet es"
    "case st of Inl _ \<Rightarrow> True | Inr _ \<Rightarrow> blank_seen es \<and> page_seen (burn_params opts cdtext bp) es"
    using burn_setup_tape [OF s] by blast
  show thesis
  proof (cases st)
    case (Inl e)
    then have "dev' = d1\<lparr> dev_ready_wait_off := False \<rparr>" "rc \<noteq> Inr ()"
      using assms s by (auto simp: adsc_write_run_def)
    then show thesis using es by (intro refused [of es]) simp_all
  next
    case (Inr di)
    obtain rc2 d2 where c: "send_cue K toc cdtext di d1 = (rc2, d2)" by fastforce
    have cue: "rc2 \<noteq> Inr () \<and> rolled d2 = rolled d1
        \<or> (\<exists>e. rolled d2 = rolled d1 @ [e] \<and> op_of e = 0x5D \<and> (accepted e \<longleftrightarrow> rc2 = Inr ()))"
      using c by (auto simp: send_cue_def split: sum.splits dest!: send_cue_tape)
    show thesis
    proof (cases "rc2 = Inr ()")
      case False
      then have "dev' = d2\<lparr> dev_ready_wait_off := False \<rparr>" "rc \<noteq> Inr ()"
        using assms s c Inr by (auto simp: adsc_write_run_def)
      then show thesis using es Inr cue False refused [of es] no_session [of es _ bp] by auto
    next
      case True
      define d3 where "d3 = d2\<lparr> dev_ready_wait_off := True \<rparr>"
      obtain rc4 ms f4 d4 where b: "burn_session K clock pread feed opts toc cdtext di f1 d3 = (rc4, ms, f4, d4)"
        by (metis prod_cases4)
      obtain rc5 d5 where k: "burn_close K feed opts toc rc4 ms d4 = (rc5, d5)" by fastforce
      have r: "rc = rc5 \<and> dev' = d5 \<and> fl = f4"
        using assms True unfolding adsc_write_run_def s prod.case Inr sum.case c Let_def d3_def [symmetric] b k by simp
      obtain e where e: "rolled d2 = rolled d1 @ [e]" "op_of e = 0x5D" "accepted e" using cue True by blast
      obtain es4 where e4: "rolled d4 = rolled d3 @ es4" "list_all in_session es4"
        using burn_session_session [OF b] by (rule addsE)
      obtain es5 where e5: "rolled d5 = rolled d4 @ es5" "es5 \<noteq> []" "list_all (\<lambda>e. op_of e = 0x35) es5"
        "\<not> dev_ready_wait_off d5" "rc5 = Inr () \<longrightarrow> rc4 = Inr () \<and> accepted (last es5)"
        using burn_close_tape [OF k] by blast
      have d3: "rolled d3 = rolled d2" by (simp add: d3_def)
      show thesis
        using es Inr e e4 e5 r d3 b
        by (intro session [of es e es4 es5 bp rc4 di f1 d3 ms d4]) simp_all
    qed
  qed
qed

end

section \<open>The burn\<close>

text \<open>C1: nothing that commits a disc is sent before the checks have passed. Whatever the drive answers,
  every command up to the cue sheet is one that leaves the disc as it is (a query, a mode select,
  a speed, a calibration), and if anything follows, then by then a reply to READ DISC INFORMATION
  has said the disc is blank, a reply to MODE SENSE has shown a write-parameters page that is
  Disc-At-Once, single session, CD-DA, with Test Write set exactly when a simulation was asked
  for, and what follows starts with the cue sheet.\<close>

theorem burn_commits_after_checks:
  "let (rc, fl, dev') = adsc_write_run (taping K) clock pread feed opts toc cdtext dev in
   \<exists>before after burnproof.
     snd (dev_k dev') = snd (dev_k dev) @ before @ after \<and> list_all quiet before
     \<and> (after = [] \<or> blank_seen before \<and> page_seen (burn_params opts cdtext burnproof) before
          \<and> op_of (hd after) = 0x5D)"
proof -
  obtain rc fl dev' where run: "adsc_write_run (taping K) clock pread feed opts toc cdtext dev = (rc, fl, dev')"
    by (rule prod_cases3)
  from run show ?thesis
  proof (cases rule: taped.run_shape)
    case (refused es)
    then show ?thesis unfolding run Let_def prod.case
      by - (rule exI [of _ es], rule exI [of _ "[] :: tape_entry list"], simp)
  next
    case (no_session pre cue bp)
    then show ?thesis unfolding run Let_def prod.case
      by - (rule exI [of _ pre], rule exI [of _ "[cue]"], rule exI [of _ bp], simp)
  next
    case (session pre cue es fin bp)
    then show ?thesis unfolding run Let_def prod.case
      by - (rule exI [of _ pre], rule exI [of _ "[cue] @ es @ fin"], rule exI [of _ bp], simp)
  qed
qed


lemma tape_writes_run:
  assumes "list_all quiet before" and "op_of cue = 0x5D" and "list_all (\<lambda>e. op_of e = 0x35) fin"
  shows "tape_writes (before @ [cue] @ es @ fin) = tape_writes es"
proof -
  have "tape_writes before = []"
    using assms(1) by (intro tape_writes_none) (auto simp: list_all_iff quiet_def)
  moreover have "tape_writes [cue] = []" "tape_writes fin = []"
    using assms(2,3) by (auto simp: list_all_iff intro!: tape_writes_none)
  ultimately show ?thesis by (simp only: tape_writes_append) simp
qed

text \<open>C7: what a successful burn has written. If the layout tiles its image and the write buffer, when
  one is used, hands over the image, then a burn that reports success has had accepted, in this
  order and contiguously: the R-W blocks of the CD-Text, repeated round the whole lead-in, when
  there is CD-Text; 150 zero sectors from LBA -150; and from LBA 0 every sector of the image once,
  track after track from its place in the file, with its samples swapped when asked - and last of
  all the close of the session.\<close>

theorem burn_lays_disc:
  assumes "adsc_write_run (taping K) clock (pread_file file) feed opts toc cdtext dev = (Inr (), fl, dev')"
    and "unat (wtoc_leadout_lba toc) = track_length_sum (wtoc_track toc)"
    and "feed_carries (image_bytes file opts toc) feed"
  shows "\<exists>es leadin_len. snd (dev_k dev') = snd (dev_k dev) @ es
    \<and> disc_laid file opts toc cdtext leadin_len (tape_writes es)
    \<and> op_of (last es) = 0x35 \<and> accepted (last es)"
  using assms(1)
proof (cases rule: taped.run_shape)
  case (session pre cue es fin bp di rc1 ms fl1 d1 d2)
  then have "rc1 = Inr ()" "accepted (last fin)" "op_of (last fin) = 0x35"
    by (auto simp: list_all_iff dest: last_in_set)
  moreover have "disc_laid file opts toc cdtext (di_leadin_len di) (tape_writes es)"
    using taped.burn_session_tape [OF session(12) refl assms(2,3)] session(13) \<open>rc1 = Inr ()\<close> by auto
  ultimately show ?thesis
    using session(1,8) tape_writes_run [OF session(2,5,9), of es]
    by (intro exI [of _ "pre @ [cue] @ es @ fin"] exI [of _ "di_leadin_len di"]) simp
qed auto

section \<open>A drive that takes everything\<close>

definition obliging_data :: "u8 \<Rightarrow> u8 list" where
  "obliging_data op =
     (if op = 0x5A then [0, 18, 0, 0, 0, 0, 0, 0, 5, 10, 2, 0, 0, 0, 0, 0, 0, 0, 0, 0]
      else if op = 0x51 then [0, 32, 0] @ replicate 31 1 else [])"

definition obliging :: "unit kernel" where
  "obliging = (answering good_reply)\<lparr> k_sg_io := (\<lambda>cdb dir buf t k.
     (good_reply\<lparr> sgr_data := obliging_data (cdb ! 0) \<rparr>, k)) \<rparr>"

lemma obliging_cmd:
  "\<exists>d. run_cmd (taping obliging) cdb dir buf t dev
     = (Inr (), if dir = XFER_IN then overlay (obliging_data (cdb ! 0)) buf else buf, d)"
proof -
  obtain d where "exec_once (taping obliging) (new_cmd cdb dir buf t) dev = (Inr (),
      (new_cmd cdb dir buf t)\<lparr> cmd_buf := (if dir = XFER_IN then overlay (obliging_data (cdb ! 0)) buf else buf) \<rparr>, d)"
    by (cases "dev_k dev") (simp add: exec_once_def adsc_transport_exec_def taping_def obliging_def answering_def
        good_reply_def new_cmd_def adsc_resid_clamp_def Let_def)
  then show ?thesis by (simp add: run_cmd_def adsc_dev_exec_def dev_exec_loop.simps)
qed

lemma obliging_sent: "\<exists>d. send_data (taping obliging) cdb buf t dev = (Inr (), d)"
  using obliging_cmd [of cdb XFER_OUT buf t dev] by (auto simp: send_data_def)

lemma obliging_done: "\<exists>d. no_data (taping obliging) cdb t dev = (Inr (), d)"
  using obliging_cmd [of cdb XFER_NONE "[]" t dev] by (auto simp: no_data_def)

lemma obliging_chunk:
  assumes "0 < n" and "n \<le> 0xFFFF" and "0 < bs"
  shows "\<exists>fl' d. write_chunk (taping obliging) lba buf n bs fl dev = (Inr (), fl', d)"
  using assms obliging_sent [of "adsc_cdb_write10 lba (word_of_nat n)" "take (n * bs) buf" timeout_write_ms dev]
  by (auto simp: write_chunk_def write_chunk_loop.simps adsc_mmc_write10_def)

lemma burn_sector_pos: "0 < burn_sector"
  by (simp add: burn_sector_def)

lemma obliging_gap: "\<exists>fl' d. gap_loop (taping obliging) lba left fl dev = (Inr (), fl', d)"
proof (induction left arbitrary: lba fl dev rule: less_induct)
  case (less left)
  show ?case
  proof (cases "left = 0")
    case False
    define n where "n = min left burn_chunk"
    have n: "0 < n" "n \<le> 0xFFFF" "left - n < left" using False by (auto simp: n_def burn_chunk_def)
    obtain f d where w: "write_chunk (taping obliging) lba (replicate (burn_chunk * burn_sector) 0) n burn_sector fl dev
        = (Inr (), f, d)"
      using obliging_chunk [OF n(1,2) burn_sector_pos] by blast
    show ?thesis
      using less.IH [OF n(3), of "lba + word_of_nat n" f d] False w
      by (simp add: gap_loop.simps [of _ lba left] n_def [symmetric] Let_def)
  qed (simp add: gap_loop.simps)
qed

definition obliging_buf :: "u8 list" where
  "obliging_buf = obliging_data 0x5A @ replicate 44 0"

lemma obliging_page:
  "\<exists>d. adsc_mmc_mode_sense10 (taping obliging) mode_write_params (fresh_bytes (taping obliging) 64 k) dev
     = (Inr (20, 8), obliging_buf, d)"
proof -
  have f: "fresh_bytes (taping obliging) 64 k = replicate 64 0"
    by (cases k) (simp add: fresh_bytes_def taping_def obliging_def answering_def overlay_def)
  obtain d1 where d1: "run_cmd (taping obliging) (adsc_cdb_mode_sense10 mode_write_params 8) XFER_IN
      (replicate 8 0) timeout_ctrl_ms dev = (Inr (), take 8 (obliging_data 0x5A), d1)"
    using obliging_cmd [of "adsc_cdb_mode_sense10 mode_write_params 8" XFER_IN "replicate 8 0" timeout_ctrl_ms dev]
    by (auto simp: adsc_cdb_mode_sense10_def overlay_def obliging_data_def)
  define b1 where "b1 = overlay (take 8 (obliging_data 0x5A)) (replicate 64 0)"
  obtain d2 where d2: "run_cmd (taping obliging) (adsc_cdb_mode_sense10 mode_write_params (word_of_nat 20)) XFER_IN
      (take 20 b1) timeout_ctrl_ms d1 = (Inr (), obliging_data 0x5A, d2)"
    using obliging_cmd [of "adsc_cdb_mode_sense10 mode_write_params (word_of_nat 20)" XFER_IN "take 20 b1" timeout_ctrl_ms d1]
    by (auto simp: adsc_cdb_mode_sense10_def overlay_def obliging_data_def b1_def)
  have b: "be16 b1 0 = 18" "overlay (obliging_data 0x5A) b1 = obliging_buf"
    by (simp_all add: b1_def overlay_def obliging_data_def obliging_buf_def be16_def)
  have z: "be16 obliging_buf 6 = 0" by (simp add: obliging_data_def obliging_buf_def be16_def)
  show ?thesis
    using d1 d2 b z by (simp add: adsc_mmc_mode_sense10_def f Let_def b1_def [symmetric] adsc_alloc_even_def)
qed

definition one_track :: adsc_write_toc where
  "one_track = write_toc_zero\<lparr> wtoc_leadout_lba := 1,
     wtoc_track := [write_track_zero\<lparr> wt_audio := True, wt_sectors := 1 \<rparr>] \<rparr>"

definition plain_burn :: adsc_burn_opts where
  "plain_burn = \<lparr> bo_simulate = False, bo_byteswap = True, bo_speed = 0, bo_burnproof = BURNPROOF_OFF \<rparr>"

definition blank_disc :: adsc_disc_info where
  "blank_disc = \<lparr> di_erasable = 0, di_status = 0, di_last_session = 0, di_first_track = 1, di_last_track = 1,
     di_sessions = 1, di_leadin_m = 1, di_leadin_s = 1, di_leadin_f = 1, di_leadin_len = 4500 \<rparr>"

lemma obliging_params:
  "\<exists>d. adsc_write_set_params_sent (taping obliging) (burn_params plain_burn None False) dev
     = (Inr (), wp_capture obliging_buf 20 8, d)"
proof -
  obtain d1 where d1: "adsc_mmc_mode_sense10 (taping obliging) mode_write_params
      (fresh_bytes (taping obliging) 64 (dev_k dev)) dev = (Inr (20, 8), obliging_buf, d1)"
    using obliging_page by blast
  have e: "wp_edit (burn_params plain_burn None False) 8 obliging_buf = obliging_buf"
    by (simp add: wp_edit_def burn_params_def plain_burn_def has_cdtext_def wp_byte2_def obliging_buf_def
        obliging_data_def)
  let ?b = "obliging_buf[0 := 0, 1 := 0]"
  have "?b[8 := ?b ! 8 AND 0x3f] = ?b" by (simp add: obliging_buf_def obliging_data_def)
  then obtain d2 where d2: "adsc_mmc_mode_select10 (taping obliging) obliging_buf 20 8 d1 = (Inr (), ?b, d2)"
    using obliging_sent [of "adsc_cdb_mode_select10 (word_of_nat 20)" "take 20 ?b" timeout_ctrl_ms d1]
    by (auto simp: adsc_mmc_mode_select10_def Let_def)
  have "wp_capture ?b 20 8 = wp_capture obliging_buf 20 8"
    by (simp add: wp_capture_def obliging_buf_def obliging_data_def wparams_page_max_def slice_def)
  then show ?thesis
    using d1 d2 by (simp add: adsc_write_set_params_sent_def wp_program_def e Let_def)
qed

lemma obliging_check:
  "\<exists>d. check_write_params (taping obliging) (wp_capture obliging_buf 20 8) dev = (Inr (), d)"
proof -
  obtain d1 where d1: "adsc_mmc_mode_sense10 (taping obliging) mode_write_params
      (fresh_bytes (taping obliging) 64 (dev_k dev)) dev = (Inr (20, 8), obliging_buf, d1)"
    using obliging_page by blast
  have "snd (wp_capture obliging_buf 20 8) = 12"
    by (simp add: wp_capture_def obliging_buf_def obliging_data_def wparams_page_max_def)
  then show ?thesis
    using d1 by (simp add: check_write_params_def adsc_write_params_check_def wparams_page_max_def
        compare_pages_def wp_fields_equal_def Let_def)
qed

lemma obliging_blank: "\<exists>d. read_disc_info (taping obliging) dev = (Inr blank_disc, d)"
proof -
  have f: "fresh_bytes (taping obliging) 34 k = replicate 34 0" for k
    by (cases k) (simp add: fresh_bytes_def taping_def obliging_def answering_def overlay_def)
  obtain d where "run_cmd (taping obliging) (adsc_cdb_read_disc_info (word_of_nat 34)) XFER_IN (replicate 34 0)
      timeout_ctrl_ms dev = (Inr (), [0, 32, 0] @ replicate 31 1, d)"
    using obliging_cmd [of "adsc_cdb_read_disc_info (word_of_nat 34)" XFER_IN "replicate 34 0" timeout_ctrl_ms dev]
    by (auto simp: adsc_cdb_read_disc_info_def overlay_def obliging_data_def)
  then have "\<exists>d. adsc_mmc_read_disc_info (taping obliging) (replicate 34 0) dev
      = (Inr 34, [0, 32, 0] @ replicate 31 1, d)"
    by (simp add: adsc_mmc_read_disc_info_def Let_def overlay_def be16_def)
  then show ?thesis
    by (auto simp: read_disc_info_def f adsc_write_read_disc_info_def blank_disc_def adsc_leadin_len_from_msf_def)
qed

lemma obliging_setup: "\<exists>fl d. burn_setup (taping obliging) plain_burn None dev = (Inr blank_disc, fl, d)"
proof -
  obtain c d1 where c: "burn_claims (taping obliging) plain_burn dev = (c, False, d1)"
    by (cases "adsc_probe_cd_mastering (taping obliging) features_zero dev")
      (simp add: burn_claims_def plain_burn_def)
  obtain d2 where p: "adsc_write_set_params_sent (taping obliging) (burn_params plain_burn None False) d1
      = (Inr (), wp_capture obliging_buf 20 8, d2)" using obliging_params by blast
  obtain k d3 where s: "stated_kbps (taping obliging) d2 = (k, d3)" by fastforce
  obtain d4 where q: "check_write_params (taping obliging) (wp_capture obliging_buf 20 8) d3 = (Inr (), d4)"
    using obliging_check by blast
  obtain d5 where i: "read_disc_info (taping obliging) d4 = (Inr blank_disc, d5)" using obliging_blank by blast
  obtain d6 where o: "adsc_mmc_send_opc (taping obliging) d5 = (Inr (), d6)"
    using obliging_done unfolding adsc_mmc_send_opc_def by blast
  obtain d7 where r: "check_write_params (taping obliging) (wp_capture obliging_buf 20 8) d6 = (Inr (), d7)"
    using obliging_check by blast
  have k: "calibrate (taping obliging) plain_burn (wp_capture obliging_buf 20 8) d5 = (Inr (), d7)"
    using o r by (simp add: calibrate_def plain_burn_def)
  have n: "\<not> 0 < bo_speed plain_burn" "di_status blank_disc = 0" by (simp_all add: plain_burn_def blank_disc_def)
  show ?thesis
    unfolding burn_setup_def c Let_def prod.case p sum.case if_not_P [OF n(1)] s snd_conv q i n(2) k by simp
qed

lemma obliging_cue: "\<exists>d. send_cue (taping obliging) one_track None blank_disc dev = (Inr (), d)"
proof -
  let ?es = "cue_entries one_track False (Some blank_disc)"
  have t: "length (wtoc_track one_track) = 1" by (simp add: one_track_def)
  have "length (concat ?es) = 8 * length ?es" by (rule length_concat_entries) (rule entry_lengths)
  then have ne: "concat ?es \<noteq> []" by (auto simp: cue_entries_def simp del: concat_append concat_eq_Nil_conv)
  have "length ?es * 8 \<le> cue_max_bytes"
    using length_cue_entries [of one_track False "Some blank_disc"] by (simp add: t cue_max_bytes_def)
  then have "adsc_cuesheet_build one_track False (Some blank_disc) cue_max_bytes = Inr (concat ?es)"
    by (simp add: adsc_cuesheet_build_def emit_all_eq t)
  then show ?thesis
    using obliging_sent ne by (simp add: send_cue_def adsc_mmc_send_cue_sheet_def)
qed

lemma obliging_payload:
  assumes "length (slice 0 burn_sector file) = burn_sector"
  shows "\<exists>fl' d. sync_payload (taping obliging) (pread_file file) True (wtoc_track one_track) 1 0 0 fl dev = (Inr (), fl', d)"
proof -
  have t: "wtoc_track one_track = [write_track_zero\<lparr> wt_audio := True, wt_sectors := 1 \<rparr>]"
    by (simp add: one_track_def)
  have l: "locate (wtoc_track one_track) 0 0 (min (1 - 0) burn_chunk) = (0, 1)"
    by (simp add: t write_track_zero_def burn_chunk_def)
  let ?d = "byteswap16 (slice 0 burn_sector file)"
  obtain f1 d1 where a: "(if 0 div burn_chunk mod buf_poll_every = 0 then buf_sample (taping obliging) fl dev else (fl, dev)) = (f1, d1)"
    by fastforce
  obtain f2 d2 where w: "write_chunk (taping obliging) 0 ?d 1 burn_sector f1 d1 = (Inr (), f2, d2)"
    using obliging_chunk [OF _ _ burn_sector_pos, of 1] by fastforce
  have "put_chunk (taping obliging) 1 ?d False 0 0 fl dev = (Inr (), f2, d2)"
    unfolding put_chunk_def Let_def using a w by simp
  then have "sync_payload (taping obliging) (pread_file file) True (wtoc_track one_track) 1 0 0 fl dev = (Inr (), f2, d2)"
    using assms unfolding sync_payload.simps [of _ _ _ _ 1 0] Let_def l
    by (simp add: pread_file_def sync_payload.simps [of _ _ _ _ "Suc 0" "Suc 0"])
  then show ?thesis by blast
qed

lemma obliging_run:
  assumes "length (slice 0 burn_sector file) = burn_sector"
  shows "\<exists>fl d. adsc_write_run (taping obliging) clock (pread_file file) None plain_burn one_track None dev = (Inr (), fl, d)"
proof -
  obtain f1 d1 where s: "burn_setup (taping obliging) plain_burn None dev = (Inr blank_disc, f1, d1)"
    using obliging_setup by blast
  obtain d2 where c: "send_cue (taping obliging) one_track None blank_disc d1 = (Inr (), d2)"
    using obliging_cue by blast
  define d3 where "d3 = d2\<lparr> dev_ready_wait_off := True \<rparr>"
  obtain f4 d4 where a: "arm_buffer_poll (taping obliging) f1 d3 = (f4, d4)" by fastforce
  obtain f5 d5 where g: "gap_loop (taping obliging) (- word_of_nat leadin_gap) leadin_gap f4 d4 = (Inr (), f5, d5)"
    using obliging_gap by blast
  have o: "wtoc_track one_track = wtoc_track one_track \<and> unat (wtoc_leadout_lba one_track) = 1" "bo_byteswap plain_burn"
    by (simp_all add: one_track_def plain_burn_def)
  obtain f6 d6 where p: "sync_payload (taping obliging) (pread_file file) True (wtoc_track one_track) 1 0 0 f5 d5
      = (Inr (), f6, d6)"
    using obliging_payload [OF assms] by blast
  obtain ms where b: "burn_session (taping obliging) clock (pread_file file) None plain_burn one_track None blank_disc f1 d3
      = (Inr (), ms, f6, d6)"
    using a g p o by (simp add: burn_session_def burn_data_def Let_def feed_ready_def)
  obtain d7 where y: "adsc_mmc_sync_cache (taping obliging) d6 = (Inr (), d7)"
    using obliging_done unfolding adsc_mmc_sync_cache_def by blast
  obtain d8 where k: "burn_close (taping obliging) None plain_burn one_track (Inr ()) ms d6 = (Inr (), d8)"
    using y by (simp add: burn_close_def plain_burn_def Let_def)
  show ?thesis unfolding adsc_write_run_def s prod.case sum.case c Let_def d3_def [symmetric] b k by simp
qed

theorem burn_lays_disc_witness:
  "\<exists>file fl dev' es leadin_len. length file = burn_sector
    \<and> adsc_write_run (taping obliging) (\<lambda>_. 0) (pread_file file) None plain_burn one_track None (accudisc_open ((), []))
        = (Inr (), fl, dev')
    \<and> snd (dev_k dev') = es \<and> disc_laid file plain_burn one_track None leadin_len (tape_writes es)
    \<and> op_of (last es) = 0x35 \<and> accepted (last es)"
proof -
  define bytes where "bytes = concat (replicate 1176 [1, 2 :: u8])"
  have l: "length bytes = burn_sector" by (simp add: bytes_def burn_sector_def length_concat sum_list_replicate)
  then have "length (slice 0 burn_sector bytes) = burn_sector" by (simp add: slice_def)
  from obliging_run [OF this] obtain fl dev' where run: "adsc_write_run (taping obliging) (\<lambda>_. 0) (pread_file bytes) None
      plain_burn one_track None (accudisc_open ((), [])) = (Inr (), fl, dev')" by blast
  have "unat (wtoc_leadout_lba one_track) = track_length_sum (wtoc_track one_track)"
    by (simp add: one_track_def track_length_sum_def)
  from burn_lays_disc [OF run this, unfolded feed_carries_def option.case, OF TrueI] l run
  show ?thesis by (auto simp: accudisc_open_def)
qed

end
