(* ===== verification/WfifoSpec.thy ===== *)
theory WfifoSpec
  imports Wfifo BurnSpec
begin

text \<open>
  What the write buffer promises the burn (\<^verbatim>\<open>src/write/fifo.c\<close>): whatever the interleaving of the
  reader and the burn, both end, and the burn has been handed what a loop over the segments would
  have read, in order, each byte once - all of it if it asked until the end. The first chunk is
  never counted as an underrun.
\<close>

section \<open>The stream\<close>

lemma next_seg_cases:
  assumes "next_seg segs d = (segs', d')"
  shows "segs' = [] \<or> (\<exists>s ss. segs' = s # ss \<and> d' < unat (seg_sectors s))"
  using assms by (induction segs d rule: next_seg.induct) (auto split: if_splits)

fun place_left :: "adsc_wfifo_seg list \<Rightarrow> nat \<Rightarrow> nat" where
  "place_left [] d = 0"
| "place_left (s # ss) d = (unat (seg_sectors s) - d) + (\<Sum>s\<leftarrow>ss. unat (seg_sectors s))"

lemma place_left_zero: "place_left ss 0 = (\<Sum>s\<leftarrow>ss. unat (seg_sectors s))"
  by (cases ss) auto

lemma next_seg_left: "next_seg segs d = (segs', d') \<Longrightarrow> place_left segs' d' = place_left segs d"
  by (induction segs d rule: next_seg.induct) (auto simp: place_left_zero split: if_splits)

lemma place_step:
  assumes "(s # ss, d') = next_seg segs d" and "0 < n" and "n \<le> unat (seg_sectors s) - d'"
  shows "place_left (s # ss) (d' + n) + n = place_left segs d"
  using next_seg_left [OF assms(1) [symmetric]] next_seg_cases [OF assms(1) [symmetric]] assms(2,3) by auto

lemma place_next: "(s # ss, d') = next_seg segs d \<Longrightarrow> 0 < min (unat (seg_sectors s) - d') sps \<longleftrightarrow> 0 < sps"
  using next_seg_cases [of segs d "s # ss" d'] by auto

text \<open>The loop without the buffer: the chunks it reads and how it ends.\<close>

function wfifo_stream :: "pread \<Rightarrow> bool \<Rightarrow> nat \<Rightarrow> adsc_wfifo_seg list \<Rightarrow> nat \<Rightarrow> wfifo_slot list \<times> unit res" where
  "wfifo_stream pread swap sps segs d =
     (case next_seg segs d of
        ([], d) \<Rightarrow> ([], Inr ())
      | (s # ss, d) \<Rightarrow>
          let n = min (unat (seg_sectors s) - d) sps;
              data = pread (unat (seg_offset s) + d * burn_sector) (n * burn_sector)
          in if length data \<noteq> n * burn_sector \<or> sps = 0 then ([], Inl ERR_IO)
             else let (l, rc) = wfifo_stream pread swap sps (s # ss) (d + n)
                  in ((n, if swap then byteswap16 data else data) # l, rc))"
  by auto
termination
proof (relation "measure (\<lambda>(pread, swap, sps, segs, d). place_left segs d)", goal_cases)
  case (2 pread swap sps segs d x y s ss n data)
  then have "(s # ss, y) = next_seg segs d" "0 < n" "n \<le> unat (seg_sectors s) - y"
    using place_next [of s ss y segs d sps] by auto
  from place_step [OF this] \<open>0 < n\<close> show ?case by simp
qed simp

declare wfifo_stream.simps [simp del]

section \<open>The invariant\<close>

definition slots_wide :: "adsc_wfifo \<Rightarrow> bool" where
  "slots_wide f \<longleftrightarrow> 0 < wf_sectors_per_slot f
     \<and> list_all (\<lambda>s. length (snd s) = wf_sectors_per_slot f * burn_sector) (rg_slot f)"

definition fill_inv :: "adsc_wfifo \<Rightarrow> fill_pc \<Rightarrow> bool" where
  "fill_inv f p \<longleftrightarrow>
     (if p = Fill_exited then wf_producer_done f \<or> wf_cancelled f
      else \<not> wf_producer_done f \<and> wf_producer_rc f = Inr ())
     \<and> (case p of
          Fill_asleep \<Rightarrow> rg_count f = rg_nslots f \<and> \<not> wf_cancelled f
        | Fill_read \<Rightarrow> rg_count f \<noteq> rg_nslots f
        | Publish n \<Rightarrow> rg_count f \<noteq> rg_nslots f \<and> n \<le> wf_sectors_per_slot f
        | _ \<Rightarrow> True)"

definition take_inv :: "adsc_wfifo \<Rightarrow> wfifo_pop list \<Rightarrow> fill_pc \<Rightarrow> take_pc \<Rightarrow> bool" where
  "take_inv f pops q p \<longleftrightarrow>
     (case p of
        Prefill \<Rightarrow> pops = []
      | Prefill_asleep \<Rightarrow> pops = [] \<and> rg_count f \<noteq> rg_nslots f \<and> \<not> wf_producer_done f
      | Pop \<Rightarrow> pops = [] \<longrightarrow> rg_count f \<noteq> 0 \<or> wf_producer_done f
      | Pop_again \<Rightarrow> pops \<noteq> []
      | Pop_asleep \<Rightarrow> pops \<noteq> [] \<and> rg_count f = 0 \<and> \<not> wf_producer_done f
      | Hold n i w \<Rightarrow> (pops = [] \<longrightarrow> \<not> w) \<and> rg_count f \<noteq> 0 \<and> i = unat (rg_tail f) \<and> n = fst (ring_front f)
      | Release \<Rightarrow> pops \<noteq> [] \<and> rg_count f \<noteq> 0
      | Stop d \<Rightarrow> d \<or> wf_producer_done f
      | Join \<Rightarrow> wf_cancelled f \<or> wf_producer_done f
      | Joined_up \<Rightarrow> q = Fill_exited)"

fun taking :: "take_pc \<Rightarrow> bool" where
  "taking (Stop d) = False" | "taking Join = False" | "taking Joined_up = False" | "taking _ = True"

definition wf_inv :: "wf_sys \<Rightarrow> bool" where
  "wf_inv s \<longleftrightarrow> ring_ok (wy_f s) \<and> slots_wide (wy_f s) \<and> fill_inv (wy_f s) (wy_fill s)
     \<and> take_inv (wy_f s) (wy_pops s) (wy_fill s) (wy_take s)
     \<and> (taking (wy_take s) \<longleftrightarrow> wy_end s = None) \<and> (wf_cancelled (wy_f s) \<longrightarrow> \<not> taking (wy_take s) \<and> (\<forall>d. wy_take s \<noteq> Stop d))
     \<and> list_all (\<lambda>p. \<not> pop_was_empty p) (take 1 (wy_pops s))"

lemma wfifo_frames [simp]:
  "ring_ok (f\<lparr>wf_producer_waits := n\<rparr>) = ring_ok f" "ring_ok (f\<lparr>wf_producer_rc := rc\<rparr>) = ring_ok f"
  "ring_ok (f\<lparr>wf_min_count := c\<rparr>) = ring_ok f" "ring_ok (f\<lparr>wf_producer_done := d\<rparr>) = ring_ok f"
  "ring_ok (f\<lparr>wf_cancelled := d\<rparr>) = ring_ok f" "ring_ok (f\<lparr>wf_starved := n\<rparr>) = ring_ok f"
  "ring_items (f\<lparr>wf_producer_waits := n\<rparr>) = ring_items f" "ring_items (f\<lparr>wf_producer_rc := rc\<rparr>) = ring_items f"
  "ring_items (f\<lparr>wf_min_count := c\<rparr>) = ring_items f" "ring_items (f\<lparr>wf_producer_done := d\<rparr>) = ring_items f"
  "ring_items (f\<lparr>wf_cancelled := d\<rparr>) = ring_items f" "ring_items (f\<lparr>wf_starved := n\<rparr>) = ring_items f"
  "ring_front (f\<lparr>wf_producer_waits := n\<rparr>) = ring_front f" "ring_front (f\<lparr>wf_producer_rc := rc\<rparr>) = ring_front f"
  "ring_front (f\<lparr>wf_min_count := c\<rparr>) = ring_front f" "ring_front (f\<lparr>wf_producer_done := d\<rparr>) = ring_front f"
  "ring_front (f\<lparr>wf_cancelled := d\<rparr>) = ring_front f" "ring_front (f\<lparr>wf_starved := n\<rparr>) = ring_front f"
  "slots_wide (f\<lparr>wf_producer_waits := n\<rparr>) = slots_wide f" "slots_wide (f\<lparr>wf_producer_rc := rc\<rparr>) = slots_wide f"
  "slots_wide (f\<lparr>wf_min_count := c\<rparr>) = slots_wide f" "slots_wide (f\<lparr>wf_producer_done := d\<rparr>) = slots_wide f"
  "slots_wide (f\<lparr>wf_cancelled := d\<rparr>) = slots_wide f" "slots_wide (f\<lparr>wf_starved := n\<rparr>) = slots_wide f"
  by (simp_all add: ring_ok_def ring_items_def ring_front_def slots_wide_def)

lemma ring_wf [simp]:
  "wf_sectors_per_slot (ring_put x f) = wf_sectors_per_slot f" "wf_sectors_per_slot (ring_drop f) = wf_sectors_per_slot f"
  "wf_producer_done (ring_put x f) = wf_producer_done f" "wf_producer_done (ring_drop f) = wf_producer_done f"
  "wf_producer_rc (ring_put x f) = wf_producer_rc f" "wf_producer_rc (ring_drop f) = wf_producer_rc f"
  "wf_cancelled (ring_put x f) = wf_cancelled f" "wf_cancelled (ring_drop f) = wf_cancelled f"
  "wf_byteswap (ring_put x f) = wf_byteswap f" "wf_byteswap (ring_drop f) = wf_byteswap f"
  "rg_nslots (ring_drop f) = rg_nslots f" "rg_slot (ring_drop f) = rg_slot f" "rg_head (ring_drop f) = rg_head f"
  by (simp_all add: ring_put_def ring_drop_def)

text \<open>Writing the free slot at the head touches nothing that is queued.\<close>

lemma set_head_fields [simp]:
  "rg_nslots (set_head b f) = rg_nslots f" "rg_head (set_head b f) = rg_head f" "rg_tail (set_head b f) = rg_tail f"
  "rg_count (set_head b f) = rg_count f" "wf_sectors_per_slot (set_head b f) = wf_sectors_per_slot f"
  "wf_producer_done (set_head b f) = wf_producer_done f" "wf_producer_rc (set_head b f) = wf_producer_rc f"
  "wf_cancelled (set_head b f) = wf_cancelled f" "wf_byteswap (set_head b f) = wf_byteswap f"
  "ring_ok (set_head b f) = ring_ok f"
  by (simp_all add: set_head_def ring_ok_def Let_def)

lemma set_head_items:
  assumes "ring_ok f" and "rg_count f \<noteq> rg_nslots f"
  shows "ring_items (set_head b f) = ring_items f"
    and "rg_count f \<noteq> 0 \<Longrightarrow> ring_front (set_head b f) = ring_front f"
proof -
  have h: "unat (rg_head f) = (unat (rg_tail f) + unat (rg_count f)) mod unat (rg_nslots f)"
    and room: "unat (rg_count f) < unat (rg_nslots f)" and t: "unat (rg_tail f) < unat (rg_nslots f)"
    using assms ring_room by (auto simp: ring_ok_def)
  have "unat (rg_head f) \<noteq> (unat (rg_tail f) + i) mod unat (rg_nslots f)" if "i < unat (rg_count f)" for i
    using ring_slots_distinct [OF that room t] h by simp
  then show items: "ring_items (set_head b f) = ring_items f"
    by (simp add: ring_items_def set_head_def Let_def)
  show "ring_front (set_head b f) = ring_front f" if "rg_count f \<noteq> 0"
    using ring_front_items [of f] ring_front_items [of "set_head b f"] that assms(1) items by simp
qed

lemma set_head_wide: "slots_wide f \<Longrightarrow> ring_ok f \<Longrightarrow> slots_wide (set_head b f)"
  using ring_head_bound [of f]
  by (auto simp: slots_wide_def set_head_def Let_def list_all_length nth_list_update ring_ok_def)

lemma set_head_slot:
  assumes "ring_ok f"
  shows "snd (rg_slot (set_head b f) ! unat (rg_head f)) = overlay b (snd (rg_slot f ! unat (rg_head f)))"
  using assms by (simp add: set_head_def ring_ok_def Let_def)

section \<open>Every step keeps the invariant\<close>

lemma wake_take_inv:
  assumes "take_inv f pops q p" and "rg_count f' \<noteq> 0 \<or> wf_producer_done f'"
    and "p \<noteq> Prefill_asleep \<Longrightarrow> p \<noteq> Pop_asleep \<Longrightarrow> take_inv f' pops q' p"
  shows "take_inv f' pops q' (wake_take p)"
  using assms by (cases p) (auto simp: take_inv_def)

lemma taking_wake [simp]: "taking (wake_take p) = taking p" "(wake_take p = Stop d) = (p = Stop d)"
  by (cases p; simp)+

lemma ring_put_wide:
  assumes "slots_wide f" and "ring_ok f"
  shows "slots_wide (ring_put (n, snd (rg_slot f ! unat (rg_head f))) f)"
  using assms ring_head_bound [of f]
  by (auto simp: slots_wide_def ring_put_def list_all_length nth_list_update ring_ok_def)

lemma ring_drop_wide: "slots_wide (ring_drop f) = slots_wide f"
  by (simp add: slots_wide_def)

lemma publish_take_inv:
  assumes "take_inv f pops q p" and "ring_ok f" and "rg_count f \<noteq> rg_nslots f" and "q \<noteq> Fill_exited"
  shows "take_inv (fill_publish n f) pops q' (wake_take p)"
proof -
  have "rg_count f + 1 \<noteq> 0" by (rule incr_nonzero [OF assms(2)])
  moreover have "ring_front (fill_publish n f) = ring_front f" if "rg_count f \<noteq> 0"
    using ring_front_put [OF assms(2,3) that] by (simp add: fill_publish_def)
  ultimately show ?thesis
    using assms by (cases p) (auto simp: take_inv_def fill_publish_def)
qed

lemma fill_read_frame:
  assumes "fill_read pread pl f = (p, pl', f')" and "ring_ok f" and "rg_count f \<noteq> rg_nslots f" and "slots_wide f"
  shows "ring_ok f' \<and> slots_wide f' \<and> ring_items f' = ring_items f \<and> rg_nslots f' = rg_nslots f
    \<and> rg_count f' = rg_count f \<and> rg_tail f' = rg_tail f \<and> (rg_count f \<noteq> 0 \<longrightarrow> ring_front f' = ring_front f)
    \<and> wf_producer_done f' = wf_producer_done f \<and> wf_producer_rc f' = wf_producer_rc f
    \<and> wf_cancelled f' = wf_cancelled f \<and> wf_byteswap f' = wf_byteswap f
    \<and> wf_sectors_per_slot f' = wf_sectors_per_slot f
    \<and> (case p of Publish n \<Rightarrow> n \<le> wf_sectors_per_slot f | Finish rc \<Rightarrow> True | _ \<Rightarrow> False)"
proof -
  have "f' = f \<or> (\<exists>b. f' = set_head b f)"
    and p: "case p of Publish n \<Rightarrow> n \<le> wf_sectors_per_slot f | Finish rc \<Rightarrow> True | _ \<Rightarrow> False"
    using assms(1) by (auto simp: fill_read_def Let_def split: prod.splits list.splits if_splits)
  then show ?thesis
    using set_head_items [OF assms(2,3)] set_head_wide [OF assms(4,2)] assms(2,4) by auto
qed

lemma take_inv_frame:
  assumes "take_inv f pops q p" and "rg_nslots f' = rg_nslots f" "rg_count f' = rg_count f" "rg_tail f' = rg_tail f"
    "rg_count f \<noteq> 0 \<Longrightarrow> ring_front f' = ring_front f" "wf_producer_done f' = wf_producer_done f"
    "wf_cancelled f' = wf_cancelled f" and "q = Fill_exited \<Longrightarrow> q' = Fill_exited"
  shows "take_inv f' pops q' p"
  using assms by (cases p) (auto simp: take_inv_def)

lemma fill_step_inv:
  assumes "wf_inv s" and "fill_step pread s = Some t"
  shows "wf_inv t"
proof (cases "wy_fill s")
  case Fill_wait
  obtain p f where w: "fill_wait (wy_f s) = (p, f)" by fastforce
  have t: "t = s\<lparr>wy_fill := p, wy_f := f\<rparr>" using assms(2) Fill_wait w by (simp add: fill_step_def)
  have "take_inv f (wy_pops s) p (wy_take s)"
    by (rule take_inv_frame [of "wy_f s" _ "wy_fill s"])
      (use assms(1) w Fill_wait in \<open>auto simp: wf_inv_def fill_wait_def split: if_splits\<close>)
  then show ?thesis
    using assms(1) w Fill_wait by (auto simp: t wf_inv_def fill_inv_def fill_wait_def split: if_splits)
next
  case Fill_read
  obtain p pl f where r: "fill_read pread (wy_place s) (wy_f s) = (p, pl, f)" by (rule prod_cases3)
  have t: "t = s\<lparr>wy_fill := p, wy_place := pl, wy_f := f\<rparr>" using assms(2) Fill_read r by (simp add: fill_step_def)
  have c: "ring_ok (wy_f s)" "rg_count (wy_f s) \<noteq> rg_nslots (wy_f s)" "slots_wide (wy_f s)"
    using assms(1) Fill_read by (auto simp: wf_inv_def fill_inv_def)
  note fr = fill_read_frame [OF r c]
  have "take_inv f (wy_pops s) p (wy_take s)"
    by (rule take_inv_frame [of "wy_f s" _ "wy_fill s"]) (use assms(1) fr Fill_read in \<open>auto simp: wf_inv_def\<close>)
  then show ?thesis
    using assms(1) fr c(2) Fill_read by (cases p) (auto simp: t wf_inv_def fill_inv_def)
next
  case (Publish n)
  have c: "ring_ok (wy_f s)" "rg_count (wy_f s) \<noteq> rg_nslots (wy_f s)" "slots_wide (wy_f s)"
    using assms(1) Publish by (auto simp: wf_inv_def fill_inv_def)
  have "take_inv (fill_publish n (wy_f s)) (wy_pops s) Fill_wait (wake_take (wy_take s))"
    using publish_take_inv [of "wy_f s" "wy_pops s" "wy_fill s"] assms(1) c(1,2) Publish by (auto simp: wf_inv_def)
  moreover have "ring_ok (fill_publish n (wy_f s))" "slots_wide (fill_publish n (wy_f s))"
    using ring_put_ok [OF c(1) ring_room [OF c(1,2)]] ring_put_wide [OF c(3,1)] by (simp_all add: fill_publish_def)
  ultimately show ?thesis
    using assms Publish by (auto simp: fill_step_def wf_inv_def fill_inv_def fill_publish_def)
next
  case (Finish rc)
  have "take_inv (fill_finish rc (wy_f s)) (wy_pops s) Fill_exited (wake_take (wy_take s))"
    using assms(1) by (cases "wy_take s") (auto simp: wf_inv_def take_inv_def fill_finish_def)
  then show ?thesis
    using assms Finish by (auto simp: fill_step_def wf_inv_def fill_inv_def fill_finish_def)
qed (use assms in \<open>auto simp: fill_step_def\<close>)

lemma wake_fill_inv:
  "fill_inv f p \<Longrightarrow> fill_inv f (wake_fill p)"
  by (cases p) (auto simp: fill_inv_def)

lemma ring_drop_ne:
  assumes "ring_ok f" and "rg_count f \<noteq> 0"
  shows "rg_count (ring_drop f) \<noteq> rg_nslots (ring_drop f)"
proof -
  have "0 < unat (rg_count f)" using assms(2) by (simp add: unat_gt_0)
  then have "unat (rg_count f - 1) < unat (rg_nslots f)"
    using unat_decr [OF assms(2)] assms(1) unfolding ring_ok_def by linarith
  then show ?thesis by (auto simp: ring_drop_def)
qed

lemma drop_fill_inv:
  assumes "fill_inv f p" and "ring_ok f" and "rg_count f \<noteq> 0"
  shows "fill_inv (ring_drop f) (wake_fill p)"
  using assms ring_drop_ne [OF assms(2,3)] by (cases p) (auto simp: fill_inv_def)

lemma stop_fill_inv: "fill_inv f p \<Longrightarrow> fill_inv (if d then f\<lparr>wf_cancelled := True\<rparr> else f) (wake_fill p)"
  by (cases p) (auto simp: fill_inv_def)

lemma take_taken_inv:
  assumes "wfifo_take w f = (p, e, f')" and "ring_ok f" and "pops = [] \<longrightarrow> \<not> w \<and> (rg_count f \<noteq> 0 \<or> wf_producer_done f)"
  shows "take_inv f' pops q p \<and> (taking p \<longleftrightarrow> e = None) \<and> f' \<in> {f, f\<lparr>wf_min_count := rg_count f\<rparr>}"
  using assms by (auto simp: wfifo_take_def take_inv_def split: if_splits)

lemma prefill_taken_inv:
  assumes "adsc_wfifo_prefill f = (p, e, f')" and "ring_ok f" and "pops = []"
  shows "take_inv f' pops q p \<and> (taking p \<longleftrightarrow> e = None) \<and> f' \<in> {f, f\<lparr>wf_min_count := rg_count f\<rparr>}"
proof -
  have "0 < rg_nslots f" using assms(2) by (simp add: ring_ok_def word_less_nat_alt)
  then show ?thesis using assms(1,3)
    by (auto simp: adsc_wfifo_prefill_def take_inv_def Let_def split: if_splits)
qed

lemma pop_taken_inv:
  assumes "adsc_wfifo_pop f = (p, e, f')" and "ring_ok f" and "pops = [] \<longrightarrow> rg_count f \<noteq> 0 \<or> wf_producer_done f"
  shows "take_inv f' pops q p \<and> (taking p \<longleftrightarrow> e = None)
    \<and> f' \<in> {f, f\<lparr>wf_min_count := rg_count f\<rparr>, f\<lparr>wf_starved := wf_starved f + 1\<rparr>}"
proof (cases "rg_count f = 0 \<and> \<not> wf_producer_done f")
  case True
  then show ?thesis using assms by (auto simp: adsc_wfifo_pop_def wfifo_take_def take_inv_def)
next
  case False
  then have "wfifo_take False f = (p, e, f')" using assms(1) by (auto simp: adsc_wfifo_pop_def Let_def)
  from take_taken_inv [OF this assms(2), of pops q] assms(3) show ?thesis by auto
qed

lemma fill_inv_reports:
  "fill_inv (f\<lparr>wf_min_count := c\<rparr>) p = fill_inv f p" "fill_inv (f\<lparr>wf_starved := k\<rparr>) p = fill_inv f p"
  by (cases p; simp add: fill_inv_def)+

lemma wf_inv_reported:
  assumes "wf_inv s" and "taking (wy_take s)" and "f' \<in> {wy_f s, (wy_f s)\<lparr>wf_min_count := c\<rparr>,
      (wy_f s)\<lparr>wf_starved := k\<rparr>}"
    and "take_inv f' (wy_pops s) (wy_fill s) p" and "taking p \<longleftrightarrow> e = None"
  shows "wf_inv (s\<lparr>wy_take := p, wy_end := e, wy_f := f'\<rparr>)"
proof -
  have "ring_ok f' = ring_ok (wy_f s)" "slots_wide f' = slots_wide (wy_f s)" "fill_inv f' (wy_fill s) = fill_inv (wy_f s) (wy_fill s)"
    "wf_cancelled f' = wf_cancelled (wy_f s)"
    using assms(3) by (auto simp: fill_inv_reports)
  then show ?thesis using assms(1,2,4,5) by (simp add: wf_inv_def)
qed

lemma take_step_inv:
  assumes "wf_inv s" and "take_step keep s = Some t"
  shows "wf_inv t"
proof (cases "wy_take s")
  case Prefill
  obtain p e f where r: "adsc_wfifo_prefill (wy_f s) = (p, e, f)" by (rule prod_cases3)
  have "take_inv f (wy_pops s) (wy_fill s) p" "taking p \<longleftrightarrow> e = None" "f \<in> {wy_f s, (wy_f s)\<lparr>wf_min_count := rg_count (wy_f s)\<rparr>}"
    using prefill_taken_inv [OF r, of "wy_pops s" "wy_fill s"] assms(1) Prefill by (auto simp: wf_inv_def take_inv_def)
  then show ?thesis
    using assms Prefill r wf_inv_reported [OF assms(1), of f] by (auto simp: take_step_def)
next
  case Pop
  obtain p e f where r: "adsc_wfifo_pop (wy_f s) = (p, e, f)" by (rule prod_cases3)
  have "ring_ok (wy_f s)" "wy_pops s = [] \<longrightarrow> rg_count (wy_f s) \<noteq> 0 \<or> wf_producer_done (wy_f s)"
    using assms(1) Pop by (auto simp: wf_inv_def take_inv_def)
  note i = pop_taken_inv [OF r this, of "wy_fill s"]
  have "t = s\<lparr>wy_take := p, wy_end := e, wy_f := f\<rparr>" using assms(2) Pop r by (simp add: take_step_def)
  then show ?thesis using i Pop by (auto intro!: wf_inv_reported [OF assms(1)])
next
  case Pop_again
  obtain p e f where r: "wfifo_take True (wy_f s) = (p, e, f)" by (rule prod_cases3)
  have "wy_pops s \<noteq> []" "ring_ok (wy_f s)" using assms(1) Pop_again by (auto simp: wf_inv_def take_inv_def)
  then show ?thesis
    using assms Pop_again r wf_inv_reported [OF assms(1), of f] take_taken_inv [OF r, of "wy_pops s" "wy_fill s"]
    by (auto simp: take_step_def)
next
  case (Hold n i w)
  then show ?thesis
    using assms by (cases "wy_pops s") (auto simp: take_step_def wf_inv_def take_inv_def Let_def split: if_splits)
next
  case Release
  have "rg_count (wy_f s) \<noteq> 0" "ring_ok (wy_f s)" "fill_inv (wy_f s) (wy_fill s)" "wy_pops s \<noteq> []"
    using assms(1) Release by (auto simp: wf_inv_def take_inv_def)
  then show ?thesis
    using assms Release ring_drop_ok drop_fill_inv by (auto simp: take_step_def wf_inv_def take_inv_def ring_drop_wide)
next
  case (Stop d)
  have t: "t = s\<lparr>wy_f := (if d then (wy_f s)\<lparr>wf_cancelled := True\<rparr> else wy_f s),
      wy_fill := wake_fill (wy_fill s), wy_take := Join\<rparr>"
    using assms(2) Stop by (simp add: take_step_def)
  show ?thesis
    using assms(1) stop_fill_inv [of "wy_f s" "wy_fill s" d] Stop
    by (cases d) (auto simp: t wf_inv_def take_inv_def)
qed (use assms in \<open>auto simp: take_step_def wf_inv_def take_inv_def split: if_splits\<close>)

section \<open>The burn sees the stream\<close>

text \<open>The used bytes of a slot, what has been popped, and what is queued or in the reader's hands.\<close>

definition slot_data :: "wfifo_slot \<Rightarrow> wfifo_slot" where
  "slot_data s = (fst s, take (fst s * burn_sector) (snd s))"

definition popped :: "wf_sys \<Rightarrow> wfifo_slot list" where
  "popped s = map (\<lambda>p. (pop_nsec p, pop_data p)) (wy_pops s)"

definition unreleased :: "take_pc \<Rightarrow> 'a list \<Rightarrow> 'a list" where
  "unreleased p q = (if p = Release then tl q else q)"

definition queued :: "wf_sys \<Rightarrow> wfifo_slot list" where
  "queued s = map slot_data (unreleased (wy_take s) (ring_items (wy_f s)))"

definition still :: "pread \<Rightarrow> wf_sys \<Rightarrow> wfifo_slot list \<times> unit res" where
  "still pread s =
     (let rest = wfifo_stream pread (wf_byteswap (wy_f s)) (wf_sectors_per_slot (wy_f s)) (fst (wy_place s)) (snd (wy_place s))
      in case wy_fill s of
        Publish n \<Rightarrow> (slot_data (n, snd (rg_slot (wy_f s) ! unat (rg_head (wy_f s)))) # fst rest, snd rest)
      | Finish rc \<Rightarrow> ([], rc)
      | Fill_exited \<Rightarrow> ([], wf_producer_rc (wy_f s))
      | _ \<Rightarrow> rest)"

definition whole :: "pread \<Rightarrow> wf_sys \<Rightarrow> wfifo_slot list \<times> unit res" where
  "whole pread s = (popped s @ queued s @ fst (still pread s), snd (still pread s))"

lemma whole_cong:
  "wy_pops t = wy_pops s \<Longrightarrow> queued t = queued s \<Longrightarrow> still pread t = still pread s \<Longrightarrow> whole pread t = whole pread s"
  by (simp add: whole_def popped_def)

lemma wake_take_release [simp]: "(wake_take p = Release) = (p = Release)"
  by (cases p) simp_all

lemma unreleased_wake [simp]: "unreleased (wake_take p) q = unreleased p q"
  by (cases p) (simp_all add: unreleased_def)

lemma wide_head:
  assumes "slots_wide f" and "ring_ok f"
  shows "length (snd (rg_slot f ! unat (rg_head f))) = wf_sectors_per_slot f * burn_sector"
  using assms ring_head_bound [OF assms(2)] by (auto simp: slots_wide_def ring_ok_def list_all_length)

lemma overlay_front:
  "length b = k \<Longrightarrow> k \<le> length old \<Longrightarrow> take k (overlay b old) = b"
  by (simp add: overlay_def)

lemma fill_read_whole:
  assumes "fill_read pread (wy_place s) (wy_f s) = (p, pl, f)" and "wf_inv s" and "wy_fill s = Fill_read"
  shows "whole pread (s\<lparr>wy_fill := p, wy_place := pl, wy_f := f\<rparr>) = whole pread s"
proof (rule whole_cong)
  let ?f = "wy_f s" let ?t = "s\<lparr>wy_fill := p, wy_place := pl, wy_f := f\<rparr>"
  have c: "ring_ok ?f" "rg_count ?f \<noteq> rg_nslots ?f" "slots_wide ?f"
    using assms(2,3) by (auto simp: wf_inv_def fill_inv_def)
  note fr = fill_read_frame [OF assms(1) c]
  show "queued ?t = queued s" using fr by (simp add: queued_def)
  have sps: "0 < wf_sectors_per_slot ?f" using c(3) by (simp add: slots_wide_def)
  obtain segs d where n: "next_seg (fst (wy_place s)) (snd (wy_place s)) = (segs, d)" by fastforce
  show "still pread ?t = still pread s"
  proof (cases segs)
    case Nil
    have e: "next_seg (fst (wy_place s)) (snd (wy_place s)) = ([], d)" using n Nil by simp
    have "p = Finish (Inr ())" using assms(1) e by (simp add: fill_read_def)
    moreover have "wfifo_stream pread (wf_byteswap ?f) (wf_sectors_per_slot ?f) (fst (wy_place s)) (snd (wy_place s)) = ([], Inr ())"
      by (simp add: wfifo_stream.simps [of _ _ _ "fst (wy_place s)"] e)
    ultimately show ?thesis using assms(3) by (simp add: still_def)
  next
    case (Cons g gs)
    let ?n = "min (unat (seg_sectors g) - d) (wf_sectors_per_slot ?f)"
    let ?data = "pread (unat (seg_offset g) + d * burn_sector) (?n * burn_sector)"
    show ?thesis
    proof (cases "length ?data = ?n * burn_sector")
      case False
      have e: "next_seg (fst (wy_place s)) (snd (wy_place s)) = (g # gs, d)" using n Cons by simp
      have "p = Finish (Inl ERR_IO)" using assms(1) e False by (simp add: fill_read_def Let_def)
      moreover have "wfifo_stream pread (wf_byteswap ?f) (wf_sectors_per_slot ?f) (fst (wy_place s)) (snd (wy_place s))
          = ([], Inl ERR_IO)"
        using False by (simp add: wfifo_stream.simps [of _ _ _ "fst (wy_place s)"] e Let_def)
      ultimately show ?thesis using assms(3) by (simp add: still_def)
    next
      case True
      let ?b = "if wf_byteswap ?f then byteswap16 ?data else ?data"
      have r: "p = Publish ?n" "pl = (g # gs, d + ?n)" "f = set_head ?b ?f"
        using assms(1) n Cons True by (auto simp: fill_read_def Let_def)
      have "length ?b = ?n * burn_sector" "?n * burn_sector \<le> wf_sectors_per_slot ?f * burn_sector"
        using True by simp_all
      then have "slot_data (?n, snd (rg_slot f ! unat (rg_head f))) = (?n, ?b)"
        using set_head_slot [OF c(1), of ?b] wide_head [OF c(3,1)] by (simp add: slot_data_def r(3) overlay_front)
      moreover have "wfifo_stream pread (wf_byteswap ?f) (wf_sectors_per_slot ?f) (fst (wy_place s)) (snd (wy_place s))
          = (let (l, rc) = wfifo_stream pread (wf_byteswap ?f) (wf_sectors_per_slot ?f) (g # gs) (d + ?n) in ((?n, ?b) # l, rc))"
        using n Cons True sps by (simp add: wfifo_stream.simps [of _ _ _ "fst (wy_place s)"] Let_def)
      ultimately show ?thesis
        using fr r(1,2) assms(3) by (simp add: still_def Let_def case_prod_beta)
    qed
  qed
qed simp

lemma fill_step_whole:
  assumes "wf_inv s" and "fill_step pread s = Some t" and "\<not> wf_cancelled (wy_f s)"
  shows "whole pread t = whole pread s"
proof (cases "wy_fill s")
  case Fill_wait
  then show ?thesis
    using assms(2,3) by (intro whole_cong; cases "rg_count (wy_f s) = rg_nslots (wy_f s)")
      (auto simp: fill_step_def fill_wait_def queued_def still_def Let_def)
next
  case Fill_read
  obtain p pl f where r: "fill_read pread (wy_place s) (wy_f s) = (p, pl, f)" by (rule prod_cases3)
  then show ?thesis
    using fill_read_whole [OF r assms(1) Fill_read] assms(2) Fill_read by (simp add: fill_step_def)
next
  case (Publish n)
  have c: "ring_ok (wy_f s)" "rg_count (wy_f s) \<noteq> rg_nslots (wy_f s)"
    using assms(1) Publish by (auto simp: wf_inv_def fill_inv_def)
  let ?x = "(n, snd (rg_slot (wy_f s) ! unat (rg_head (wy_f s))))"
  have t: "t = s\<lparr>wy_f := fill_publish n (wy_f s), wy_fill := Fill_wait, wy_take := wake_take (wy_take s)\<rparr>"
    using assms(2) Publish by (simp add: fill_step_def)
  have items: "ring_items (fill_publish n (wy_f s)) = ring_items (wy_f s) @ [?x]"
    using ring_put_items [OF c(1) ring_room [OF c]] by (simp add: fill_publish_def)
  have ne: "wy_take s = Release \<Longrightarrow> ring_items (wy_f s) \<noteq> []"
    using assms(1) by (auto simp: wf_inv_def take_inv_def)
  have "queued t = queued s @ [slot_data ?x]"
    using ne by (auto simp: queued_def t items unreleased_def)
  then show ?thesis
    using Publish by (simp add: whole_def popped_def t still_def fill_publish_def Let_def)
next
  case (Finish rc)
  have "queued t = queued s"
    using assms(2) Finish by (auto simp: fill_step_def queued_def fill_finish_def)
  then show ?thesis
    using assms(1,2) Finish by (intro whole_cong) (auto simp: fill_step_def still_def fill_finish_def wf_inv_def fill_inv_def Let_def)
qed (use assms in \<open>auto simp: fill_step_def\<close>)

lemma still_wake [simp]: "still pread (s\<lparr>wy_fill := wake_fill (wy_fill s)\<rparr>) = still pread s"
  by (cases "wy_fill s") (simp_all add: still_def Let_def)

lemma still_frame:
  assumes "wy_fill t \<in> {wy_fill s, wake_fill (wy_fill s)}" and "wy_place t = wy_place s"
    and "rg_slot (wy_f t) = rg_slot (wy_f s)" "rg_head (wy_f t) = rg_head (wy_f s)"
    "wf_byteswap (wy_f t) = wf_byteswap (wy_f s)" "wf_sectors_per_slot (wy_f t) = wf_sectors_per_slot (wy_f s)"
    "wf_producer_rc (wy_f t) = wf_producer_rc (wy_f s)"
  shows "still pread t = still pread s"
  using assms by (cases "wy_fill s") (auto simp: still_def Let_def)


lemma take_front:
  assumes "wf_inv s" and "wy_take s = Hold n i w"
  shows "ring_items (wy_f s) \<noteq> [] \<and> slot_data (hd (ring_items (wy_f s))) = (n, take (n * burn_sector) (snd (rg_slot (wy_f s) ! i)))"
proof -
  have c: "ring_ok (wy_f s)" "rg_count (wy_f s) \<noteq> 0" "i = unat (rg_tail (wy_f s))" "n = fst (ring_front (wy_f s))"
    using assms by (auto simp: wf_inv_def take_inv_def)
  then show ?thesis using ring_front_items [OF c(1,2)] by (auto simp: slot_data_def ring_front_def)
qed

lemma whole_frame:
  assumes "wy_pops t = wy_pops s" and "ring_items (wy_f t) = ring_items (wy_f s)"
    and "(wy_take t = Release) = (wy_take s = Release)" and "wy_fill t \<in> {wy_fill s, wake_fill (wy_fill s)}"
    and "wy_place t = wy_place s" and "rg_slot (wy_f t) = rg_slot (wy_f s)" "rg_head (wy_f t) = rg_head (wy_f s)"
    "wf_byteswap (wy_f t) = wf_byteswap (wy_f s)" "wf_sectors_per_slot (wy_f t) = wf_sectors_per_slot (wy_f s)"
    "wf_producer_rc (wy_f t) = wf_producer_rc (wy_f s)"
  shows "whole pread t = whole pread s"
  by (rule whole_cong) (use assms still_frame in \<open>auto simp: queued_def unreleased_def\<close>)

lemma take_moves:
  "wfifo_take w f = (p, e, f') \<Longrightarrow> p \<noteq> Release \<and> f' \<in> {f, f\<lparr>wf_min_count := rg_count f\<rparr>}"
  "adsc_wfifo_pop f = (p, e, f') \<Longrightarrow> p \<noteq> Release
     \<and> f' \<in> {f, f\<lparr>wf_min_count := rg_count f\<rparr>, f\<lparr>wf_starved := wf_starved f + 1\<rparr>}"
  "adsc_wfifo_prefill f = (p, e, f') \<Longrightarrow> p \<noteq> Release \<and> f' \<in> {f, f\<lparr>wf_min_count := rg_count f\<rparr>}"
  by (auto simp: wfifo_take_def adsc_wfifo_pop_def adsc_wfifo_prefill_def Let_def split: if_splits)

lemma take_step_whole:
  assumes "wf_inv s" and "take_step keep s = Some t" and "wy_end t \<noteq> Some Gave_up"
  shows "whole pread t = whole pread s"
proof (cases "wy_take s")
  case Prefill
  obtain p e f where r: "adsc_wfifo_prefill (wy_f s) = (p, e, f)" by (rule prod_cases3)
  then show ?thesis
    using assms(2) Prefill take_moves(3) [OF r] by (intro whole_frame) (auto simp: take_step_def)
next
  case Pop
  obtain p e f where r: "adsc_wfifo_pop (wy_f s) = (p, e, f)" by (rule prod_cases3)
  then show ?thesis
    using assms(2) Pop take_moves(2) [OF r] by (intro whole_frame) (auto simp: take_step_def)
next
  case Pop_again
  obtain p e f where r: "wfifo_take True (wy_f s) = (p, e, f)" by (rule prod_cases3)
  then show ?thesis
    using assms(2) Pop_again take_moves(1) [OF r] by (intro whole_frame) (auto simp: take_step_def)
next
  case (Hold n i w)
  let ?p = "\<lparr>pop_nsec = n, pop_data = take (n * burn_sector) (snd (rg_slot (wy_f s) ! i)), pop_was_empty = w\<rparr>"
  have t: "t = s\<lparr>wy_pops := wy_pops s @ [?p], wy_take := Release\<rparr>"
    using assms(2,3) Hold by (auto simp: take_step_def Let_def split: if_splits)
  obtain x xs where x: "ring_items (wy_f s) = x # xs" "slot_data x = (n, pop_data ?p)"
    using take_front [OF assms(1) Hold] by (cases "ring_items (wy_f s)") auto
  have "still pread t = still pread s" by (rule still_frame) (simp_all add: t)
  then show ?thesis using x Hold by (simp add: whole_def popped_def queued_def unreleased_def t)
next
  case Release
  have c: "ring_ok (wy_f s)" "rg_count (wy_f s) \<noteq> 0" using assms(1) Release by (auto simp: wf_inv_def take_inv_def)
  have t: "t = s\<lparr>wy_f := ring_drop (wy_f s), wy_take := Pop, wy_fill := wake_fill (wy_fill s)\<rparr>"
    using assms(2) Release by (simp add: take_step_def)
  show ?thesis
  proof (rule whole_cong)
    show "queued t = queued s" using ring_drop_items [OF c] Release by (simp add: t queued_def unreleased_def)
    show "still pread t = still pread s" by (rule still_frame) (simp_all add: t)
  qed (simp add: t)
next
  case (Stop d)
  then show ?thesis
    using assms(2) by (intro whole_frame; cases d) (auto simp: take_step_def)
next
  case Join
  then show ?thesis
    using assms(2) by (intro whole_frame) (auto simp: take_step_def split: if_splits)
qed (use assms in \<open>auto simp: take_step_def\<close>)

section \<open>What is carried\<close>

definition end_fits :: "(wfifo_pop list \<Rightarrow> bool) \<Rightarrow> wfifo_slot list \<times> unit res \<Rightarrow> wf_sys \<Rightarrow> bool" where
  "end_fits keep S s \<longleftrightarrow>
     (case wy_end s of
        None \<Rightarrow> True
      | Some Gave_up \<Rightarrow> wy_pops s \<noteq> [] \<and> \<not> keep (wy_pops s)
      | Some Prefill_failed \<Rightarrow> wy_pops s = [] \<and> snd S \<noteq> Inr () \<and> wf_producer_rc (wy_f s) = snd S \<and> wy_fill s = Fill_exited
      | Some (Ran_out rc) \<Rightarrow> popped s = fst S \<and> rc = snd S \<and> wf_producer_rc (wy_f s) = rc \<and> wy_fill s = Fill_exited)"

definition carried :: "pread \<Rightarrow> (wfifo_pop list \<Rightarrow> bool) \<Rightarrow> wfifo_slot list \<times> unit res \<Rightarrow> wf_sys \<Rightarrow> bool" where
  "carried pread keep S s \<longleftrightarrow>
     (\<exists>l. popped s @ l = fst S) \<and> end_fits keep S s
     \<and> (\<not> wf_cancelled (wy_f s) \<and> wy_end s \<noteq> Some Gave_up \<longrightarrow> whole pread s = S)"

lemma carried_whole: "whole pread s = S \<Longrightarrow> \<exists>l. popped s @ l = fst S"
  by (auto simp: whole_def)

lemma done_still:
  assumes "wf_inv s" and "wf_producer_done (wy_f s)"
  shows "wy_fill s = Fill_exited \<and> still pread s = ([], wf_producer_rc (wy_f s))"
  using assms by (auto simp: wf_inv_def fill_inv_def still_def split: if_splits)

lemma fill_step_carried:
  assumes "wf_inv s" and "fill_step pread s = Some t" and "carried pread keep S s"
  shows "carried pread keep S t"
proof -
  have f: "wy_pops t = wy_pops s" "wy_end t = wy_end s" "wf_cancelled (wy_f t) = wf_cancelled (wy_f s)"
    using assms(2)
    by (auto simp: fill_step_def fill_wait_def fill_read_def fill_publish_def fill_finish_def Let_def
        split: fill_pc.splits if_splits prod.splits list.splits)
  moreover have "wy_fill s \<noteq> Fill_exited" using assms(2) by (auto simp: fill_step_def)
  ultimately show ?thesis
    using assms(3) fill_step_whole [OF assms(1,2)]
    by (auto simp: carried_def end_fits_def popped_def split: option.splits take_end.splits)
qed

lemma take_ends:
  "wfifo_take w f = (p, e, f') \<Longrightarrow> e = None \<or> (e = Some (Ran_out (wf_producer_rc f)) \<and> rg_count f = 0 \<and> wf_producer_done f)"
  "adsc_wfifo_pop f = (p, e, f') \<Longrightarrow> e = None \<or> (e = Some (Ran_out (wf_producer_rc f)) \<and> rg_count f = 0 \<and> wf_producer_done f)"
  "adsc_wfifo_prefill f = (p, e, f') \<Longrightarrow> e = None \<or> (e = Some Prefill_failed \<and> wf_producer_rc f \<noteq> Inr ())"
  by (auto simp: wfifo_take_def adsc_wfifo_pop_def adsc_wfifo_prefill_def Let_def split: if_splits)

lemma ran_out_carried:
  assumes "wf_inv s" and "carried pread keep S s" and "wy_take s \<in> {Pop, Pop_again}"
    and "wy_end t = Some (Ran_out (wf_producer_rc (wy_f s)))" "rg_count (wy_f s) = 0" "wf_producer_done (wy_f s)"
    and "wy_pops t = wy_pops s" "wy_fill t = wy_fill s" "wf_producer_rc (wy_f t) = wf_producer_rc (wy_f s)"
  shows "end_fits keep S t"
proof -
  have "\<not> wf_cancelled (wy_f s)" "wy_end s = None"
    using assms(1,3) by (auto simp: wf_inv_def)
  then have "whole pread s = S" using assms(2) by (simp add: carried_def)
  then show ?thesis
    using done_still [OF assms(1,6), of pread] assms(3-9)
    by (auto simp: end_fits_def whole_def queued_def unreleased_def popped_def)
qed

lemma end_fits_stays:
  assumes "end_fits keep S s" and "wy_end t = wy_end s" "wy_pops t = wy_pops s"
    "wf_producer_rc (wy_f t) = wf_producer_rc (wy_f s)" "wy_fill t \<in> {wy_fill s, wake_fill (wy_fill s)}"
  shows "end_fits keep S t"
  using assms by (auto simp: end_fits_def popped_def split: option.splits take_end.splits)

lemma take_step_end:
  assumes "wf_inv s" and "take_step keep s = Some t" and "carried pread keep S s"
  shows "end_fits keep S t"
proof -
  have old: "end_fits keep S s" using assms(3) by (simp add: carried_def)
  show ?thesis
proof (cases "wy_take s")
  case Prefill
  obtain p e f where r: "adsc_wfifo_prefill (wy_f s) = (p, e, f)" by (rule prod_cases3)
  have t: "t = s\<lparr>wy_take := p, wy_end := e, wy_f := f\<rparr>" using assms(2) Prefill r by (simp add: take_step_def)
  show ?thesis
  proof (cases "e = None")
    case False
    then have e: "e = Some Prefill_failed" "wf_producer_rc (wy_f s) \<noteq> Inr ()" using take_ends(3) [OF r] by auto
    have c: "\<not> wf_cancelled (wy_f s)" "wy_end s = None" "wy_pops s = []"
      using assms(1) Prefill by (auto simp: wf_inv_def take_inv_def)
    have "wf_producer_done (wy_f s)"
      using assms(1) e(2) c(1) by (auto simp: wf_inv_def fill_inv_def split: if_splits)
    from done_still [OF assms(1) this, of pread] show ?thesis
      using assms(3) c e take_moves(3) [OF r] by (auto simp: t end_fits_def carried_def whole_def)
  qed (simp add: t end_fits_def)
next
  case Pop
  obtain p e f where r: "adsc_wfifo_pop (wy_f s) = (p, e, f)" by (rule prod_cases3)
  have t: "t = s\<lparr>wy_take := p, wy_end := e, wy_f := f\<rparr>" using assms(2) Pop r by (simp add: take_step_def)
  show ?thesis
    using take_ends(2) [OF r] take_moves(2) [OF r] Pop ran_out_carried [OF assms(1,3), of t]
    by (cases e) (auto simp: t end_fits_def)
next
  case Pop_again
  obtain p e f where r: "wfifo_take True (wy_f s) = (p, e, f)" by (rule prod_cases3)
  have t: "t = s\<lparr>wy_take := p, wy_end := e, wy_f := f\<rparr>" using assms(2) Pop_again r by (simp add: take_step_def)
  show ?thesis
    using take_ends(1) [OF r] take_moves(1) [OF r] Pop_again ran_out_carried [OF assms(1,3), of t]
    by (cases e) (auto simp: t end_fits_def)
next
  case (Hold n i w)
  then have "wy_end s = None" using assms(1) by (auto simp: wf_inv_def)
  then show ?thesis using assms(2) Hold by (auto simp: take_step_def end_fits_def Let_def split: if_splits)
next
  case Release
  have "t = s\<lparr>wy_f := ring_drop (wy_f s), wy_take := Pop, wy_fill := wake_fill (wy_fill s)\<rparr>"
    using assms(2) Release by (simp add: take_step_def)
  then show ?thesis by (intro end_fits_stays [OF old]) simp_all
next
  case (Stop d)
  have "t = s\<lparr>wy_f := (if d then (wy_f s)\<lparr>wf_cancelled := True\<rparr> else wy_f s),
      wy_fill := wake_fill (wy_fill s), wy_take := Join\<rparr>"
    using assms(2) Stop by (simp add: take_step_def)
  then show ?thesis by (intro end_fits_stays [OF old]) simp_all
next
  case Join
  have "t = s\<lparr>wy_take := Joined_up\<rparr>" using assms(2) Join by (simp add: take_step_def split: if_splits)
  then show ?thesis by (intro end_fits_stays [OF old]) simp_all
qed (use assms(2) in \<open>simp_all add: take_step_def\<close>)
qed

lemma take_step_fields:
  assumes "take_step keep s = Some t"
  shows "wf_cancelled (wy_f s) \<Longrightarrow> wf_cancelled (wy_f t)"
    and "\<not> taking (wy_take s) \<Longrightarrow> wy_end t = wy_end s \<and> wy_pops t = wy_pops s"
    and "wy_pops t = wy_pops s \<or> (\<exists>n i w. wy_take s = Hold n i w)"
  using assms take_moves
  by (cases "wy_take s"; fastforce simp: take_step_def Let_def split: if_splits prod.splits)+

lemma take_step_carried:
  assumes "wf_inv s" and "take_step keep s = Some t" and "carried pread keep S s"
  shows "carried pread keep S t"
proof -
  have e: "end_fits keep S t" by (rule take_step_end [OF assms])
  have w: "whole pread t = S" if "\<not> wf_cancelled (wy_f t)" "wy_end t \<noteq> Some Gave_up"
  proof -
    have "\<not> wf_cancelled (wy_f s)" using that(1) take_step_fields(1) [OF assms(2)] by blast
    moreover have "wy_end s \<noteq> Some Gave_up"
      using that(2) take_step_fields(2) [OF assms(2)] assms(1) by (auto simp: wf_inv_def)
    ultimately show ?thesis using take_step_whole [OF assms(1,2) that(2)] assms(3) by (simp add: carried_def)
  qed
  have "\<exists>l. popped t @ l = fst S"
  proof (cases "wy_pops t = wy_pops s")
    case True
    then show ?thesis using assms(3) by (auto simp: carried_def popped_def)
  next
    case False
    then obtain n i x where h: "wy_take s = Hold n i x" using take_step_fields(3) [OF assms(2)] by blast
    then have "whole pread s = S" using assms(1,3) by (auto simp: wf_inv_def carried_def)
    then show ?thesis
      using take_front [OF assms(1) h] assms(2) h
      by (cases "ring_items (wy_f s)")
        (auto simp: whole_def popped_def queued_def unreleased_def take_step_def Let_def split: if_splits)
  qed
  with e w show ?thesis by (simp add: carried_def)
qed

section \<open>Both threads end\<close>

fun fill_weight :: "fill_pc \<Rightarrow> nat" where
  "fill_weight Fill_exited = 0"
| "fill_weight (Finish rc) = 2"
| "fill_weight Fill_asleep = 4"
| "fill_weight Fill_read = 4"
| "fill_weight Fill_wait = 5"
| "fill_weight (Publish n) = 11"

fun take_weight :: "take_pc \<Rightarrow> nat" where
  "take_weight Joined_up = 0"
| "take_weight Join = 1"
| "take_weight (Stop d) = 3"
| "take_weight Release = 4"
| "take_weight (Hold n i w) = 5"
| "take_weight Pop_asleep = 5"
| "take_weight Pop = 6"
| "take_weight Pop_again = 6"
| "take_weight Prefill_asleep = 7"
| "take_weight Prefill = 8"

definition wf_work :: "wf_sys \<Rightarrow> nat" where
  "wf_work s = 8 * place_left (fst (wy_place s)) (snd (wy_place s)) + 4 * unat (rg_count (wy_f s))
     + fill_weight (wy_fill s) + take_weight (wy_take s)"

lemma wake_weights:
  "fill_weight (wake_fill p) \<le> fill_weight p + 1" "take_weight (wake_take q) \<le> take_weight q + 1"
  by (cases p; simp) (cases q; simp)

lemma fill_read_work:
  assumes "fill_read pread pl f = (p, pl', f')" and "0 < wf_sectors_per_slot f"
  shows "8 * place_left (fst pl') (snd pl') + fill_weight p < 8 * place_left (fst pl) (snd pl) + fill_weight Fill_read"
proof -
  obtain segs d where n: "next_seg (fst pl) (snd pl) = (segs, d)" by fastforce
  show ?thesis
  proof (cases segs)
    case Nil
    have e: "next_seg (fst pl) (snd pl) = ([], d)" using n Nil by simp
    then have "p = Finish (Inr ())" "pl' = ([], d)" using assms(1) by (simp_all add: fill_read_def)
    then show ?thesis by simp
  next
    case (Cons g gs)
    let ?n = "min (unat (seg_sectors g) - d) (wf_sectors_per_slot f)"
    have e: "next_seg (fst pl) (snd pl) = (g # gs, d)" using n Cons by simp
    have c: "(p = Publish ?n \<and> pl' = (g # gs, d + ?n)) \<or> (p = Finish (Inl ERR_IO) \<and> pl' = (g # gs, d))"
      using assms(1) e by (auto simp: fill_read_def Let_def split: if_splits)
    have "0 < ?n" using place_next [OF e [symmetric]] assms(2) by blast
    then have "place_left (g # gs) (d + ?n) + ?n = place_left (fst pl) (snd pl)"
      by (intro place_step [OF e [symmetric]]) simp_all
    with c \<open>0 < ?n\<close> next_seg_left [OF e] show ?thesis by auto
  qed
qed

lemma fill_step_work:
  assumes "wf_inv s" and "fill_step pread s = Some t"
  shows "wf_work t < wf_work s"
proof (cases "wy_fill s")
  case Fill_wait
  then show ?thesis
    using assms(2) by (auto simp: fill_step_def fill_wait_def wf_work_def Let_def split: if_splits)
next
  case Fill_read
  obtain p pl f where r: "fill_read pread (wy_place s) (wy_f s) = (p, pl, f)" by (rule prod_cases3)
  have c: "ring_ok (wy_f s)" "rg_count (wy_f s) \<noteq> rg_nslots (wy_f s)" "slots_wide (wy_f s)"
    using assms(1) Fill_read by (auto simp: wf_inv_def fill_inv_def)
  have t: "t = s\<lparr>wy_fill := p, wy_place := pl, wy_f := f\<rparr>" using assms(2) Fill_read r by (simp add: fill_step_def)
  show ?thesis
    using fill_read_work [OF r] fill_read_frame [OF r c] c(3) Fill_read by (simp add: t wf_work_def slots_wide_def)
next
  case (Publish n)
  have c: "ring_ok (wy_f s)" using assms(1) by (simp add: wf_inv_def)
  have "unat (rg_count (fill_publish n (wy_f s))) = unat (rg_count (wy_f s)) + 1"
    using c unat_incr [of "rg_count (wy_f s)"] by (simp add: fill_publish_def ring_ok_def)
  then show ?thesis
    using assms(2) Publish wake_weights(2) [of "wy_take s"] by (auto simp: fill_step_def wf_work_def)
next
  case (Finish rc)
  then show ?thesis
    using assms(2) wake_weights(2) [of "wy_take s"] by (auto simp: fill_step_def wf_work_def fill_finish_def)
qed (use assms(2) in \<open>simp_all add: fill_step_def\<close>)

lemma take_down:
  "wfifo_take w f = (p, e, f') \<Longrightarrow> take_weight p \<le> 5 \<and> rg_count f' = rg_count f"
  "adsc_wfifo_pop f = (p, e, f') \<Longrightarrow> take_weight p \<le> 5 \<and> rg_count f' = rg_count f"
  "adsc_wfifo_prefill f = (p, e, f') \<Longrightarrow> take_weight p \<le> 7 \<and> rg_count f' = rg_count f"
  by (auto simp: wfifo_take_def adsc_wfifo_pop_def adsc_wfifo_prefill_def Let_def split: if_splits)

lemma take_step_work:
  assumes "wf_inv s" and "take_step keep s = Some t"
  shows "wf_work t < wf_work s"
proof (cases "wy_take s")
  case Prefill
  obtain p e f where r: "adsc_wfifo_prefill (wy_f s) = (p, e, f)" by (rule prod_cases3)
  then show ?thesis using assms(2) Prefill take_down(3) [OF r] by (auto simp: take_step_def wf_work_def)
next
  case Pop
  obtain p e f where r: "adsc_wfifo_pop (wy_f s) = (p, e, f)" by (rule prod_cases3)
  then show ?thesis using assms(2) Pop take_down(2) [OF r] by (auto simp: take_step_def wf_work_def)
next
  case Pop_again
  obtain p e f where r: "wfifo_take True (wy_f s) = (p, e, f)" by (rule prod_cases3)
  then show ?thesis using assms(2) Pop_again take_down(1) [OF r] by (auto simp: take_step_def wf_work_def)
next
  case Release
  have c: "rg_count (wy_f s) \<noteq> 0" using assms(1) Release by (auto simp: wf_inv_def take_inv_def)
  then have "0 < unat (rg_count (wy_f s))" by (simp add: unat_gt_0)
  moreover have "unat (rg_count (ring_drop (wy_f s))) = unat (rg_count (wy_f s)) - 1"
    using unat_decr [OF c] by (simp add: ring_drop_def)
  ultimately show ?thesis
    using assms(2) Release wake_weights(1) [of "wy_fill s"] by (auto simp: take_step_def wf_work_def)
next
  case (Stop d)
  then show ?thesis
    using assms(2) wake_weights(1) [of "wy_fill s"] by (cases d) (auto simp: take_step_def wf_work_def)
qed (use assms(2) in \<open>auto simp: take_step_def wf_work_def Let_def split: if_splits\<close>)

lemma take_step_blocked:
  "take_step keep s = None \<longleftrightarrow>
     wy_take s \<in> {Prefill_asleep, Pop_asleep, Joined_up} \<or> (wy_take s = Join \<and> wy_fill s \<noteq> Fill_exited)"
  by (cases "wy_take s") (auto simp: take_step_def Let_def split: prod.splits)

lemma fill_step_blocked: "fill_step pread s = None \<longleftrightarrow> wy_fill s \<in> {Fill_asleep, Fill_exited}"
  by (cases "wy_fill s") (auto simp: fill_step_def Let_def split: prod.splits)

lemma wf_progress:
  assumes "wf_inv s" and "wy_take s \<noteq> Joined_up"
  shows "fill_step pread s \<noteq> None \<or> take_step keep s \<noteq> None"
proof -
  have "rg_nslots (wy_f s) \<noteq> 0" using assms(1) by (auto simp: wf_inv_def ring_ok_def)
  moreover have "\<not> wf_cancelled (wy_f s)" if "taking (wy_take s)" using assms(1) that by (auto simp: wf_inv_def)
  ultimately show ?thesis
    using assms by (auto simp: take_step_blocked fill_step_blocked wf_inv_def take_inv_def fill_inv_def)
qed

lemma wf_next_cases:
  assumes "wf_inv s" and "carried pread keep S s" and "wy_take s \<noteq> Joined_up"
  obtains t where "wf_next pread keep b s = Some t" "wf_inv t" "carried pread keep S t" "wf_work t < wf_work s"
proof -
  have "\<exists>t. wf_next pread keep b s = Some t \<and> (fill_step pread s = Some t \<or> take_step keep s = Some t)"
    using wf_progress [OF assms(1,3), of pread keep] by (auto simp: wf_next_def split: option.splits)
  then obtain t where t: "wf_next pread keep b s = Some t" and "fill_step pread s = Some t \<or> take_step keep s = Some t"
    by blast
  then have "wf_inv t \<and> carried pread keep S t \<and> wf_work t < wf_work s"
    using assms(1,2) fill_step_inv take_step_inv fill_step_carried take_step_carried fill_step_work take_step_work
    by metis
  with t show ?thesis by (auto intro: that)
qed

lemma wf_next_joined: "wf_inv s \<Longrightarrow> wy_take s = Joined_up \<Longrightarrow> wf_next pread keep b s = None"
proof -
  assume "wf_inv s" "wy_take s = Joined_up"
  then have "fill_step pread s = None" "take_step keep s = None"
    by (auto simp: fill_step_blocked take_step_blocked wf_inv_def take_inv_def)
  then show ?thesis by (simp add: wf_next_def)
qed

lemma wf_run_joins:
  assumes "wf_inv s" and "carried pread keep S s" and "wf_work s \<le> fuel"
  shows "wf_inv (wf_run pread keep sched fuel s) \<and> carried pread keep S (wf_run pread keep sched fuel s)
    \<and> wy_take (wf_run pread keep sched fuel s) = Joined_up"
  using assms
proof (induction fuel arbitrary: s)
  case 0
  have "wy_take s = Joined_up" using "0.prems"(3) by (cases "wy_take s") (auto simp: wf_work_def)
  then show ?case using "0.prems" by simp
next
  case (Suc n)
  show ?case
  proof (cases "wy_take s = Joined_up")
    case True
    then show ?thesis using wf_next_joined [OF Suc.prems(1)] Suc.prems(1,2) by simp
  next
    case False
    obtain t where "wf_next pread keep (sched n) s = Some t" "wf_inv t" "carried pread keep S t" "wf_work t < wf_work s"
      using wf_next_cases [OF Suc.prems(1,2) False] by blast
    then show ?thesis using Suc.IH [of t] Suc.prems(3) by simp
  qed
qed

lemma wfifo_start_ok:
  assumes "adsc_wfifo_start alloc bytes sps segs swap = Inr f"
  shows "ring_ok f \<and> slots_wide f \<and> rg_count f = 0 \<and> \<not> wf_producer_done f \<and> wf_producer_rc f = Inr ()
    \<and> \<not> wf_cancelled f \<and> wf_sectors_per_slot f = sps \<and> wf_byteswap f = swap \<and> 0 < sps"
proof -
  define n where "n = min wfifo_max_slots (max wfifo_min_slots (bytes div (sps * burn_sector)))"
  have n: "2 \<le> n" "n \<le> 65536" by (auto simp: n_def wfifo_max_slots_def wfifo_min_slots_def)
  then have "unat (word_of_nat n :: u32) = n" by (simp add: unsigned_of_nat take_bit_nat_eq_self)
  then show ?thesis
    using assms n by (auto simp: adsc_wfifo_start_def Let_def n_def [symmetric] ring_ok_def slots_wide_def list_all_length split: if_splits)
qed

lemma wf_begin_ok:
  assumes "adsc_wfifo_start alloc bytes sps segs swap = Inr f"
  shows "wf_inv (wf_begin f segs) \<and> carried pread keep (wfifo_stream pread swap sps segs 0) (wf_begin f segs)
    \<and> wf_work (wf_begin f segs) = 8 * (\<Sum>s\<leftarrow>segs. unat (seg_sectors s)) + 13"
  using wfifo_start_ok [OF assms]
  by (simp add: wf_begin_def wf_inv_def fill_inv_def take_inv_def carried_def end_fits_def whole_def popped_def
      queued_def unreleased_def still_def wf_work_def place_left_zero Let_def)

section \<open>The stream is the image\<close>

lemma image_sectors_Cons:
  "image_sectors f (t # ts) = track_image f (unat (wt_file_offset t)) (unat (wt_sectors t)) @ image_sectors f ts"
  by (simp add: image_sectors_def)

text \<open>The sectors of the segments from a place on, as the file holds them.\<close>

fun seg_sectors_from :: "u8 list \<Rightarrow> adsc_wfifo_seg list \<Rightarrow> nat \<Rightarrow> u8 list list" where
  "seg_sectors_from f [] d = []"
| "seg_sectors_from f (s # ss) d =
     drop d (track_image f (unat (seg_offset s)) (unat (seg_sectors s))) @ seg_sectors_from f ss 0"

lemma next_seg_sectors:
  "next_seg segs d = (segs', d') \<Longrightarrow> seg_sectors_from f segs' d' = seg_sectors_from f segs d"
  by (induction segs d rule: next_seg.induct) (auto split: if_splits)

lemma burn_segs_sectors: "seg_sectors_from f (burn_segs toc) 0 = image_sectors f (wtoc_track toc)"
proof -
  have "seg_sectors_from f (map (\<lambda>t. \<lparr>seg_offset = wt_file_offset t, seg_sectors = wt_sectors t\<rparr>) ts) 0 = image_sectors f ts" for ts
    by (induction ts) (simp_all add: image_sectors_def)
  then show ?thesis by (simp add: burn_segs_def)
qed

definition swapped :: "bool \<Rightarrow> u8 list \<Rightarrow> u8 list" where
  "swapped swap = (if swap then byteswap16 else id)"

lemma stream_image:
  assumes "wfifo_stream (pread_file f) swap sps segs d = (l, rc)" and "0 < sps"
  shows "list_all (\<lambda>x. length (snd x) = fst x * burn_sector \<and> 0 < fst x \<and> fst x \<le> sps) l
    \<and> (\<exists>rest. concat (map (swapped swap) (seg_sectors_from f segs d)) = concat (map snd l) @ rest \<and> (rc = Inr () \<longrightarrow> rest = []))"
  using assms
proof (induction "pread_file f" swap sps segs d arbitrary: l rule: wfifo_stream.induct)
  case (1 swap sps segs d)
  obtain segs' d' where n: "next_seg segs d = (segs', d')" by fastforce
  show ?case
  proof (cases segs')
    case Nil
    then show ?thesis
      using 1(2) n next_seg_sectors [OF n, of f] by (simp add: wfifo_stream.simps [of _ _ _ segs])
  next
    case (Cons s ss)
    let ?n = "min (unat (seg_sectors s) - d') sps" let ?off = "unat (seg_offset s) + d' * burn_sector"
    let ?data = "pread_file f ?off (?n * burn_sector)"
    have e: "next_seg segs d = (s # ss, d')" using n Cons by simp
    have pos: "0 < ?n" using place_next [OF e [symmetric]] 1(3) by blast
    show ?thesis
    proof (cases "length ?data = ?n * burn_sector")
      case False
      then have "l = []" "rc \<noteq> Inr ()" using 1(2) e by (auto simp: wfifo_stream.simps [of _ _ _ segs] Let_def)
      then show ?thesis by simp
    next
      case True
      obtain l' where r: "wfifo_stream (pread_file f) swap sps (s # ss) (d' + ?n) = (l', rc)"
        and l: "l = (?n, swapped swap ?data) # l'"
        using 1(2,3) e True by (auto simp: wfifo_stream.simps [of _ _ _ segs] Let_def swapped_def split: prod.splits)
      have "\<not> (length ?data \<noteq> ?n * burn_sector \<or> sps = 0)" using True 1(3) by simp
      then have ih: "list_all (\<lambda>x. length (snd x) = fst x * burn_sector \<and> 0 < fst x \<and> fst x \<le> sps) l'
        \<and> (\<exists>rest. concat (map (swapped swap) (seg_sectors_from f (s # ss) (d' + ?n))) = concat (map snd l') @ rest
            \<and> (rc = Inr () \<longrightarrow> rest = []))"
        using 1(1) [OF e [symmetric] refl refl refl _ r 1(3)] by blast
      have "?n \<le> unat (seg_sectors s) - d'" by (rule min.cobounded1)
      with pos have k: "d' + ?n \<le> unat (seg_sectors s)" by linarith
      let ?ti = "track_image f (unat (seg_offset s)) (unat (seg_sectors s))"
      have "drop d' ?ti = take ?n (drop d' ?ti) @ drop ?n (drop d' ?ti)" by (rule append_take_drop_id [symmetric])
      also have "drop ?n (drop d' ?ti) = drop (d' + ?n) ?ti" by (simp only: drop_drop add.commute)
      also have "take ?n (drop d' ?ti) = track_image f ?off ?n"
        using track_image_slice [OF k, of f "unat (seg_offset s)"] by simp
      finally have split: "drop d' ?ti = track_image f ?off ?n @ drop (d' + ?n) ?ti" .
      have data: "concat (map (swapped swap) (track_image f ?off ?n)) = swapped swap ?data"
        using True swapped_image [of ?off ?n f] concat_track_image [of f ?off ?n]
        by (auto simp: swapped_def pread_file_def)
      have "concat (map (swapped swap) (seg_sectors_from f segs d))
          = swapped swap ?data @ concat (map (swapped swap) (seg_sectors_from f (s # ss) (d' + ?n)))"
        by (simp add: next_seg_sectors [OF e, of f, symmetric] split data)
      moreover have "length (swapped swap ?data) = ?n * burn_sector" using True by (simp add: swapped_def)
      ultimately show ?thesis using ih pos by (auto simp: l)
    qed
  qed
qed

section \<open>The buffer feeds the burn\<close>

text \<open>C13: the write buffer always ends, and it hands over the source. Whatever the interleaving of the
  reader with the burn, and wherever the burn gives up, both threads are joined within the bound;
  what was popped is the start of what a plain loop over the segments reads; if the burn asked
  until the end it got all of it and the loop's outcome, which stopping the buffer returns too;
  and the pop after the first fill is never counted as an underrun.\<close>

theorem wfifo_completes:
  assumes "adsc_wfifo_start alloc bytes sps segs swap = Inr f"
    and "8 * (\<Sum>s\<leftarrow>segs. unat (seg_sectors s)) + 13 \<le> fuel"
  shows "let t = wf_run pread keep sched fuel (wf_begin f segs); S = wfifo_stream pread swap sps segs 0;
             got = map (\<lambda>p. (pop_nsec p, pop_data p)) (wy_pops t) in
    wy_take t = Joined_up \<and> (\<exists>rest. fst S = got @ rest)
    \<and> (case wy_end t of
         Some (Ran_out rc) \<Rightarrow> got = fst S \<and> rc = snd S \<and> wf_producer_rc (wy_f t) = rc
       | Some Prefill_failed \<Rightarrow> wy_pops t = [] \<and> snd S \<noteq> Inr ()
       | Some Gave_up \<Rightarrow> \<not> keep (wy_pops t)
       | None \<Rightarrow> False)
    \<and> list_all (\<lambda>p. \<not> pop_was_empty p) (take 1 (wy_pops t))"
proof -
  let ?S = "wfifo_stream pread swap sps segs 0"
  define t where "t = wf_run pread keep sched fuel (wf_begin f segs)"
  have t: "wf_inv t" "carried pread keep ?S t" "wy_take t = Joined_up"
    using wf_run_joins [of "wf_begin f segs" pread keep ?S fuel sched] wf_begin_ok [OF assms(1), where pread = pread and keep = keep] assms(2)
    by (auto simp: t_def)
  then have e: "end_fits keep ?S t" "\<exists>rest. fst ?S = popped t @ rest" "wy_end t \<noteq> None"
    "list_all (\<lambda>p. \<not> pop_was_empty p) (take 1 (wy_pops t))"
    by (auto simp: carried_def wf_inv_def intro: sym)
  then show ?thesis
    unfolding Let_def t_def [symmetric] popped_def [symmetric] using t(3)
    by (auto simp: end_fits_def popped_def split: option.splits take_end.splits)
qed

text \<open>What a burn is fed through the buffer is its image. On the segments of its layout and the file
  it burns, a buffer that was asked until its stream ended without an error has handed over whole
  chunks of at most 27 sectors that make up the image, track after track, with the samples swapped
  when asked - what a burn needs to be fed to lay the disc. Wherever the burn stops, what it had
  been handed is the start of the image.\<close>

theorem wfifo_feeds_burn:
  assumes "adsc_wfifo_start alloc bytes burn_chunk (burn_segs toc) (bo_byteswap opts) = Inr f"
    and "8 * track_length_sum (wtoc_track toc) + 13 \<le> fuel"
  shows "let t = wf_run (pread_file image_file) keep sched fuel (wf_begin f (burn_segs toc)) in
    (\<exists>rest. image_bytes image_file opts toc = concat (map pop_data (wy_pops t)) @ rest)
    \<and> list_all (\<lambda>p. 0 < pop_nsec p \<and> pop_nsec p \<le> burn_chunk) (wy_pops t)
    \<and> (ff_end (feed_of t) = Inr () \<longrightarrow> feed_carries (image_bytes image_file opts toc) (Some (feed_of t)))"
proof -
  let ?pr = "pread_file image_file" let ?segs = "burn_segs toc" let ?swap = "bo_byteswap opts"
  define t where "t = wf_run ?pr keep sched fuel (wf_begin f ?segs)"
  obtain l rc where S: "wfifo_stream ?pr ?swap burn_chunk ?segs 0 = (l, rc)" by fastforce
  have sum: "(\<Sum>s\<leftarrow>?segs. unat (seg_sectors s)) = track_length_sum (wtoc_track toc)"
    by (simp add: burn_segs_def track_length_sum_def comp_def)
  have t: "wf_inv t" "carried ?pr keep (l, rc) t"
    using wf_run_joins [of "wf_begin f ?segs" ?pr keep "(l, rc)" fuel sched]
      wf_begin_ok [OF assms(1), where pread = ?pr and keep = keep] assms(2) sum
    by (auto simp: t_def S)
  have chunk: "0 < burn_chunk" by (simp add: burn_chunk_def)
  have img: "concat (map (swapped ?swap) (seg_sectors_from image_file ?segs 0)) = image_bytes image_file opts toc"
    by (simp add: burn_segs_sectors image_bytes_def swapped_def)
  note st = stream_image [OF S chunk, unfolded img]
  obtain rest' where l: "l = popped t @ rest'" using t(2) by (auto simp: carried_def)
  have data: "concat (map snd (popped t)) = concat (map pop_data (wy_pops t))"
    by (simp add: popped_def comp_def)
  have sizes: "list_all (\<lambda>p. length (pop_data p) = pop_nsec p * burn_sector \<and> 0 < pop_nsec p \<and> pop_nsec p \<le> burn_chunk) (wy_pops t)"
  proof -
    have "list_all (\<lambda>x. length (snd x) = fst x * burn_sector \<and> 0 < fst x \<and> fst x \<le> burn_chunk) (popped t)"
      using st l by simp
    then show ?thesis by (simp add: popped_def list.pred_map comp_def)
  qed
  have "feed_carries (image_bytes image_file opts toc) (Some (feed_of t))" if "ff_end (feed_of t) = Inr ()"
  proof -
    have "wy_end t = Some (Ran_out (Inr ()))" using that by (auto simp: feed_of_def split: option.splits take_end.splits)
    then have "popped t = l" "rc = Inr ()" using t(2) by (auto simp: carried_def end_fits_def)
    then show ?thesis using st sizes data by (auto simp: feed_carries_def feed_of_def list_all_iff)
  qed
  moreover have "\<exists>rest. image_bytes image_file opts toc = concat (map pop_data (wy_pops t)) @ rest"
    using st data by (auto simp: l)
  ultimately show ?thesis
    unfolding Let_def t_def [symmetric] using sizes by (auto simp: list_all_iff)
qed


text \<open>A file of two sectors, a layout of one track that lies in both, a buffer of two slots.\<close>

definition small_file :: "u8 list" where
  "small_file = replicate (2 * burn_sector) 7"

definition two_sectors :: adsc_write_toc where
  "two_sectors = write_toc_zero\<lparr> wtoc_leadout_lba := 2,
     wtoc_track := [write_track_zero\<lparr> wt_audio := True, wt_sectors := 2 \<rparr>] \<rparr>"

lemma small_start: "\<exists>f. adsc_wfifo_start True 0 burn_chunk (burn_segs two_sectors) (bo_byteswap plain_burn) = Inr f"
  by (simp add: adsc_wfifo_start_def burn_segs_def two_sectors_def burn_chunk_def Let_def)

lemma small_stream: "wfifo_stream (pread_file small_file) True burn_chunk (burn_segs two_sectors) 0
    = ([(2, byteswap16 small_file)], Inr ())"
proof -
  have s: "burn_segs two_sectors = [\<lparr>seg_offset = 0, seg_sectors = 2\<rparr>]"
    by (simp add: burn_segs_def two_sectors_def write_track_zero_def)
  have f: "slice 0 (2 * burn_sector) small_file = small_file" "length small_file = 2 * burn_sector"
    by (simp_all add: small_file_def slice_def)
  have "wfifo_stream (pread_file small_file) True burn_chunk [\<lparr>seg_offset = 0, seg_sectors = 2\<rparr>] 2 = ([], Inr ())"
    by (simp add: wfifo_stream.simps)
  then show ?thesis
    unfolding s by (subst wfifo_stream.simps) (simp add: f pread_file_def burn_chunk_def flip: numeral_2_eq_2)
qed

theorem wfifo_completes_witness:
  "\<exists>f t. adsc_wfifo_start True 0 burn_chunk (burn_segs two_sectors) True = Inr f
    \<and> t = wf_run (pread_file small_file) (\<lambda>_. True) even 40 (wf_begin f (burn_segs two_sectors))
    \<and> wy_take t = Joined_up \<and> wy_end t = Some (Ran_out (Inr ()))
    \<and> map pop_data (wy_pops t) = [byteswap16 small_file] \<and> \<not> pop_was_empty (hd (wy_pops t))"
proof -
  obtain f where f: "adsc_wfifo_start True 0 burn_chunk (burn_segs two_sectors) True = Inr f"
    using small_start by (auto simp: plain_burn_def)
  have "8 * (\<Sum>s\<leftarrow>burn_segs two_sectors. unat (seg_sectors s)) + 13 \<le> 40"
    by (simp add: burn_segs_def two_sectors_def write_track_zero_def)
  from wfifo_completes [OF f this, of "pread_file small_file" "\<lambda>_. True" even] show ?thesis
    using f by (intro exI [of _ f]) (auto simp: small_stream Let_def split: option.splits take_end.splits)
qed

theorem wfifo_feeds_burn_witness:
  "\<exists>f t. adsc_wfifo_start True 0 burn_chunk (burn_segs two_sectors) (bo_byteswap plain_burn) = Inr f
    \<and> t = wf_run (pread_file small_file) (\<lambda>_. True) even 40 (wf_begin f (burn_segs two_sectors))
    \<and> (\<exists>rest. image_bytes small_file plain_burn two_sectors = concat (map pop_data (wy_pops t)) @ rest)
    \<and> list_all (\<lambda>p. 0 < pop_nsec p \<and> pop_nsec p \<le> burn_chunk) (wy_pops t)"
proof -
  obtain f where f: "adsc_wfifo_start True 0 burn_chunk (burn_segs two_sectors) (bo_byteswap plain_burn) = Inr f"
    using small_start by blast
  have "8 * track_length_sum (wtoc_track two_sectors) + 13 \<le> 40"
    by (simp add: two_sectors_def write_track_zero_def track_length_sum_def)
  from wfifo_feeds_burn [OF f this, of small_file "\<lambda>_. True" even] f show ?thesis by (auto simp: Let_def)
qed

end
