(* ===== verification/Gf16.thy ===== *)
theory Gf16
  imports Galois
begin

text \<open>
  The field of 65536 elements that the published parity of a disc is defined over
  (\<^verbatim>\<open>src/repair/gf16.c\<close>, \<^verbatim>\<open>src/repair/gf16.h\<close>). The tables are what the initialisation loop
  leaves; that \<open>0x1100B\<close> is primitive is proved, not computed by running the loop: the powers of
  two by repeated squaring, and the order from the prime factors of 65535. The section at the end
  makes the 16-bit words with these operations an instance of the type class \<open>field\<close>.
\<close>

section \<open>Tables\<close>

record gf16_state =
  gf_exp_tab :: "u16 list"
  gf_log_tab :: "u16 list"
  gf_ready :: bool

text \<open>\<open>x\<close> is an \<open>unsigned\<close>: the bit that falls off the top of 16 bits is bit 16.\<close>

definition gf16_mulx :: "u32 \<Rightarrow> u32" where
  "gf16_mulx x = (let y = push_bit 1 x in if y AND 0x10000 \<noteq> 0 then y XOR 0x1100B else y)"

definition gf16_init_step :: "nat \<Rightarrow> u32 \<times> gf16_state \<Rightarrow> u32 \<times> gf16_state" where
  "gf16_init_step i = (\<lambda>(x, t). (gf16_mulx x,
     t\<lparr>gf_exp_tab := (gf_exp_tab t)[i := ucast x, i + 65535 := ucast x],
       gf_log_tab := (gf_log_tab t)[unat x := word_of_nat i]\<rparr>))"

definition adsc_gf16_init :: "gf16_state \<Rightarrow> gf16_state" where
  "adsc_gf16_init t =
     (if gf_ready t then t
      else let t = snd (fold gf16_init_step [0..<65535] (1, t))
        in t\<lparr>gf_log_tab := (gf_log_tab t)[0 := 0], gf_ready := True\<rparr>)"

text \<open>Every entry point initialises first, so the tables it reads are these.\<close>

definition gf16_tabs :: gf16_state where
  "gf16_tabs = adsc_gf16_init
     \<lparr>gf_exp_tab = replicate 131070 0, gf_log_tab = replicate 65536 0, gf_ready = False\<rparr>"

lemma gf16_init_idem: "adsc_gf16_init gf16_tabs = gf16_tabs"
  by (simp add: gf16_tabs_def adsc_gf16_init_def Let_def)

definition gf16_exp :: "nat \<Rightarrow> u16" where
  "gf16_exp i = gf_exp_tab gf16_tabs ! i"

definition gf16_logn :: "u16 \<Rightarrow> nat" where
  "gf16_logn a = unat (gf_log_tab gf16_tabs ! unat a)"

section \<open>Arithmetic\<close>

definition adsc_gf16_mul :: "u16 \<Rightarrow> u16 \<Rightarrow> u16" where
  "adsc_gf16_mul a b = (if a = 0 \<or> b = 0 then 0 else gf16_exp (gf16_logn a + gf16_logn b))"

definition adsc_gf16_div :: "u16 \<Rightarrow> u16 \<Rightarrow> u16" where
  "adsc_gf16_div a b =
     (if a = 0 \<or> b = 0 then 0 else gf16_exp (gf16_logn a + 65535 - gf16_logn b))"

definition adsc_gf16_inv :: "u16 \<Rightarrow> u16" where
  "adsc_gf16_inv a = (if a = 0 then 0 else gf16_exp (65535 - gf16_logn a))"

definition adsc_gf16_pow :: "nat \<Rightarrow> u16" where
  "adsc_gf16_pow e = gf16_exp (e mod 65535)"

definition adsc_gf16_mul_pow :: "u16 \<Rightarrow> nat \<Rightarrow> u16" where
  "adsc_gf16_mul_pow a e = (if a = 0 then 0 else gf16_exp (gf16_logn a + e mod 65535))"

definition adsc_gf16_log :: "u16 \<Rightarrow> int" where
  "adsc_gf16_log a = (if a = 0 then -1 else int (gf16_logn a))"

definition adsc_gf16_mul_pow_fast :: "u16 \<Rightarrow> nat \<Rightarrow> u16" where
  "adsc_gf16_mul_pow_fast a e = (if a \<noteq> 0 then gf16_exp (gf16_logn a + e) else 0)"

section \<open>Multiplication by two\<close>

text \<open>\<open>gf16_mulx\<close> on the 16 bits the code keeps of it.\<close>

definition gf16_x :: "u16 \<Rightarrow> u16" where
  "gf16_x a = (let y = push_bit 1 a in if bit a 15 then y XOR 0x100B else y)"

lemma gf16_mulx_ucast: "gf16_mulx (ucast a) = ucast (gf16_x a)"
proof -
  let ?y = "push_bit 1 (ucast a :: u32)"
  have b: "bit ?y n \<longleftrightarrow> 0 < n \<and> n \<le> 16 \<and> bit a (n - 1)" for n
    unfolding bit_push_bit_iff bit_ucast_iff by (auto dest: bit_imp_le_length)
  have "?y AND 0x10000 = 0 \<longleftrightarrow> \<not> bit a 15"
    using and_exp_eq_0_iff_not_bit [of ?y 16] b [of 16] by simp
  moreover have "bit a 15 \<Longrightarrow> ?y XOR 0x1100B = ucast (push_bit 1 a XOR 0x100B)"
  proof (rule bit_word_eqI)
    fix n assume a: "bit a 15" and "n < LENGTH(32)"
    have "bit (0x1100B :: u32) n \<longleftrightarrow> n = 16 \<or> bit (0x100B :: u16) n"
      using \<open>n < LENGTH(32)\<close> by (simp add: numeral_eq_Suc less_Suc_eq, elim disjE) simp_all
    moreover have "\<not> bit (0x100B :: u16) 16" by simp
    ultimately show "bit (?y XOR 0x1100B) n = bit (ucast (push_bit 1 a XOR 0x100B) :: u32) n"
      using a \<open>n < LENGTH(32)\<close> unfolding bit_xor_iff bit_ucast_iff bit_push_bit_iff
      by (cases "n = 16") (auto dest: bit_imp_le_length)
  qed
  moreover have "\<not> bit a 15 \<Longrightarrow> ?y = ucast (push_bit 1 a)"
  proof (rule bit_word_eqI)
    fix n assume "\<not> bit a 15" "n < LENGTH(32)"
    then show "bit ?y n = bit (ucast (push_bit 1 a) :: u32) n"
      unfolding b bit_ucast_iff bit_push_bit_iff
      by (cases "n = 16") (auto dest: bit_imp_le_length)
  qed
  ultimately show ?thesis by (simp add: gf16_mulx_def gf16_x_def Let_def)
qed

lemma gf16_x_xor: "gf16_x (a XOR b) = gf16_x a XOR gf16_x b"
  unfolding gf16_x_def Let_def push_bit_xor bit_xor_iff by (simp add: xor_algebra)

lemma gf16_x_eq_0: "gf16_x a = 0 \<longleftrightarrow> a = 0"
proof
  assume z: "gf16_x a = 0"
  have "bit (push_bit 1 a XOR 0x100B) 0" unfolding bit_xor_iff bit_push_bit_iff by simp
  then have n: "\<not> bit a 15" "push_bit 1 a = 0" using z by (auto simp: gf16_x_def Let_def split: if_splits)
  show "a = 0"
  proof (rule bit_word_eqI)
    fix i assume "i < LENGTH(16)"
    then show "bit a i = bit 0 i"
      using n(1) arg_cong [OF n(2), where f = "\<lambda>y. bit y (Suc i)"] unfolding bit_push_bit_iff
      by (cases "i = 15") auto
  qed
qed (simp add: gf16_x_def)

abbreviation gf16_shift :: "nat \<Rightarrow> u16 \<Rightarrow> u16" where
  "gf16_shift i \<equiv> gf16_x ^^ i"

lemma gf16_shift_xor: "gf16_shift i (a XOR b) = gf16_shift i a XOR gf16_shift i b"
  by (induction i) (simp_all add: gf16_x_xor)

lemma gf16_shift_eq_0: "gf16_shift i a = 0 \<longleftrightarrow> a = 0"
  by (induction i) (simp_all add: gf16_x_eq_0)

lemma gf16_shift_inj: "gf16_shift i a = gf16_shift i b \<longleftrightarrow> a = b"
  using gf16_shift_eq_0 [of i "a XOR b"] by (simp add: gf16_shift_xor)

text \<open>A linear map is determined by its values on the powers of two.\<close>

definition on_bits :: "u16 \<Rightarrow> (nat \<Rightarrow> u16) \<Rightarrow> u16" where
  "on_bits a g = xor_list (map (\<lambda>i. if bit a i then g i else 0) [0..<16])"

lemma bit_xor_list: "bit (xor_list xs) n \<longleftrightarrow> odd (length (filter (\<lambda>x. bit x n) xs))"
  by (induction xs) (auto simp: bit_xor_iff)

lemma on_bits_push: "on_bits a (\<lambda>i. push_bit i 1) = a"
proof (rule bit_word_eqI)
  fix n assume "n < LENGTH(16)"
  then have "filter (\<lambda>i. bit (if bit a i then push_bit i 1 else 0 :: u16) n) [0..<16] =
      filter (\<lambda>i. i = n \<and> bit a n) [0..<16]"
    by (intro filter_cong) (auto simp: bit_simps split: if_splits)
  also have "length \<dots> = (if bit a n then 1 else 0)"
    using \<open>n < LENGTH(16)\<close> distinct_length_filter [of "[0..<16]" "\<lambda>i. i = n"]
    by (auto simp: Int_def cong: conj_cong)
  finally show "bit (on_bits a (\<lambda>i. push_bit i 1)) n = bit a n"
    unfolding on_bits_def bit_xor_list filter_map length_map o_def by simp
qed

lemma linear_on_bits:
  assumes "\<And>x y. f (x XOR y) = f x XOR f y"
  shows "f a = on_bits a (\<lambda>i. f (push_bit i 1))"
proof -
  have z: "f 0 = 0" using assms [of 0 0] by simp
  have "f (xor_list (map g xs)) = xor_list (map (\<lambda>x. f (g x)) xs)" for g and xs :: "nat list"
    by (induction xs) (simp_all add: z assms)
  then have "f (on_bits a g) = on_bits a (\<lambda>i. f (g i))" for g
    unfolding on_bits_def by (simp only: if_distrib [of f] z)
  from this [of "\<lambda>i. push_bit i 1"] show ?thesis by (simp only: on_bits_push)
qed

lemma push_bit_shift: "i < 16 \<Longrightarrow> push_bit i 1 = gf16_shift i 1"
proof (induction i)
  case (Suc i)
  have "\<not> bit (push_bit i 1 :: u16) 15" using Suc.prems unfolding bit_push_bit_iff by (simp add: bit_1_iff)
  then have "gf16_x (push_bit i 1) = push_bit 1 (push_bit i 1)" by (simp add: gf16_x_def Let_def)
  then show ?case using Suc by (simp only: push_bit_push_bit funpow.simps o_apply) simp
qed simp

text \<open>The field polynomial, as a relation between shifts.\<close>

lemma gf16_reduce:
  "gf16_shift 16 b = gf16_shift 12 b XOR gf16_shift 3 b XOR gf16_shift 1 b XOR b"
proof -
  define f where "f b = gf16_shift 16 b XOR gf16_shift 12 b XOR gf16_shift 3 b XOR gf16_shift 1 b XOR b"
    for b
  have f_xor: "f (x XOR y) = f x XOR f y" for x y
    unfolding f_def gf16_shift_xor by (simp only: xor_algebra)
  have "gf16_shift (Suc 15) 1 = gf16_x (gf16_shift 15 1)" by (simp only: funpow.simps o_apply)
  moreover have "gf16_shift 15 1 = 0x8000" "gf16_shift 12 1 = 0x1000" "gf16_shift 3 1 = 8"
      "gf16_shift 1 1 = 2"
    using push_bit_shift [of 15] push_bit_shift [of 12] push_bit_shift [of 3] push_bit_shift [of 1]
    by simp_all
  moreover have "gf16_x 0x8000 = 0x100B" by code_simp
  ultimately have f1: "f 1 = 0" unfolding f_def by simp
  have "f (gf16_x a) = gf16_x (f a)" for a
    unfolding f_def gf16_x_xor funpow_swap1 ..
  then have "f (gf16_shift i 1) = gf16_shift i (f 1)" for i
    by (induction i) simp_all
  then have "i < 16 \<Longrightarrow> f (push_bit i 1) = 0" for i
    by (simp only: push_bit_shift f1 gf16_shift_eq_0)
  then have "f b = 0"
    using linear_on_bits [of f b, OF f_xor] by (auto simp: on_bits_def intro!: xor_list_zeros)
  then show ?thesis unfolding f_def xor.assoc xor_eq_0_iff .
qed

text \<open>Carry-less multiplication with reduction, and powers by repeated squaring.\<close>

definition gf16_clmul :: "u16 \<Rightarrow> u16 \<Rightarrow> u16" where
  "gf16_clmul a b = on_bits a (\<lambda>i. gf16_shift i b)"

lemma on_bits_xor: "on_bits (a XOR b) g = on_bits a g XOR on_bits b g"
  unfolding on_bits_def xor_list_map_xor [symmetric] bit_xor_iff
  by (intro arg_cong [where f = xor_list] map_cong) auto

lemma on_bits_single: "k < 16 \<Longrightarrow> on_bits (push_bit k 1) g = g k"
proof -
  assume k: "k < 16"
  have "on_bits (push_bit k 1) g = xor_list (map (\<lambda>i. if i = k then g k else 0) [0..<16])"
    unfolding on_bits_def bit_push_bit_iff bit_1_iff
    by (intro arg_cong [where f = xor_list] map_cong) (auto simp: k)
  then show ?thesis using k by (simp add: xor_list_delta)
qed

lemma gf16_clmul_x: "gf16_clmul (gf16_x a) b = gf16_x (gf16_clmul a b)"
proof -
  let ?l = "\<lambda>a. gf16_clmul (gf16_x a) b" and ?r = "\<lambda>a. gf16_x (gf16_clmul a b)"
  have "i < 16 \<Longrightarrow> ?l (push_bit i 1) = ?r (push_bit i 1)" for i
  proof (cases "i = 15")
    case True
    have "gf16_x (push_bit 15 1) = push_bit 12 1 XOR push_bit 3 1 XOR push_bit 1 1 XOR push_bit 0 1"
      by code_simp
    then have "?l (push_bit 15 1) =
        gf16_shift 12 b XOR gf16_shift 3 b XOR gf16_shift 1 b XOR gf16_shift 0 b"
      by (simp only: gf16_clmul_def on_bits_xor) (simp only: on_bits_single)
    also have "\<dots> = gf16_shift (Suc 15) b" using gf16_reduce [of b] by simp
    also have "\<dots> = ?r (push_bit 15 1)"
      by (simp only: gf16_clmul_def on_bits_single funpow.simps o_apply)
    finally show ?thesis using True by simp
  next
    case False
    assume "i < 16"
    then have "gf16_x (push_bit i 1) = push_bit (Suc i) 1"
      using False push_bit_shift [of i] push_bit_shift [of "Suc i"] by simp
    then show ?thesis
      using False \<open>i < 16\<close> by (simp only: gf16_clmul_def on_bits_single) (simp add: on_bits_single)
  qed
  moreover have "?l (x XOR y) = ?l x XOR ?l y" "?r (x XOR y) = ?r x XOR ?r y" for x y
    by (simp_all add: gf16_clmul_def gf16_x_xor on_bits_xor)
  ultimately show ?thesis
    using linear_on_bits [of ?l a] linear_on_bits [of ?r a]
    by (simp only:) (simp only: on_bits_def, intro arg_cong [where f = xor_list] map_cong, auto)
qed

lemma gf16_clmul_shift: "gf16_clmul (gf16_shift i 1) b = gf16_shift i b"
proof -
  have "gf16_clmul 1 b = b" using on_bits_single [of 0 "\<lambda>i. gf16_shift i b"] by (simp add: gf16_clmul_def)
  then show ?thesis by (induction i) (simp_all add: gf16_clmul_x)
qed

text \<open>The same bit by bit, as it can be computed.\<close>

function gf16_russian :: "u16 \<Rightarrow> u16 \<Rightarrow> u16 \<Rightarrow> u16" where
  "gf16_russian a y acc =
     (if a = 0 then acc
      else gf16_russian (drop_bit 1 a) (gf16_x y) (if bit a 0 then acc XOR y else acc))"
  by auto

termination
  by (relation "measure (\<lambda>(a, _). unat a)")
    (auto simp: drop_bit_eq_div unat_div word_less_nat_alt unat_gt_0)

declare gf16_russian.simps [simp del]

lemma gf16_clmul_step:
  "gf16_clmul a y = (if bit a 0 then y else 0) XOR gf16_clmul (drop_bit 1 a) (gf16_x y)"
proof -
  let ?g = "\<lambda>i. if bit a i then gf16_shift i y else 0"
  let ?h = "\<lambda>i. if bit (drop_bit 1 a) i then gf16_shift i (gf16_x y) else 0"
  have "[0..<16] = 0 # map Suc [0..<15]" and t: "[0..<16] = [0..<15] @ [15]"
    by (simp_all add: upt_rec)
  then have "xor_list (map ?g [0..<16]) = ?g 0 XOR xor_list (map (?g \<circ> Suc) [0..<15])"
    by (simp only: list.map xor_list.simps map_map)
  also have "map (?g \<circ> Suc) [0..<15] = map ?h [0..<15]"
    by (simp add: bit_drop_bit_eq funpow_swap1)
  also have "xor_list \<dots> = xor_list (map ?h [0..<16])"
  proof -
    have "\<not> bit (drop_bit 1 a) 15" using bit_imp_le_length [of a 16] by (auto simp: bit_drop_bit_eq)
    then show ?thesis unfolding t by simp
  qed
  finally show ?thesis by (simp add: gf16_clmul_def on_bits_def)
qed

lemma gf16_russian: "gf16_russian a y acc = acc XOR gf16_clmul a y"
proof (induction a y acc rule: gf16_russian.induct)
  case (1 a y acc)
  have z: "gf16_clmul 0 y = 0" for y by (simp add: gf16_clmul_def on_bits_def xor_list_zeros)
  show ?case
  proof (cases "a = 0")
    case False
    then show ?thesis using 1 gf16_clmul_step [of a y]
      by (subst gf16_russian.simps) (simp add: xor_algebra)
  qed (simp add: gf16_russian.simps z)
qed

text \<open>Powers by squaring: a list of binary digits, most significant first.\<close>

definition gf16_digits :: "bool list \<Rightarrow> u16" where
  "gf16_digits ds = foldl (\<lambda>s d. let q = gf16_russian s s 0 in if d then gf16_x q else q) 1 ds"

definition digits_nat :: "bool list \<Rightarrow> nat" where
  "digits_nat ds = foldl (\<lambda>n d. 2 * n + of_bool d) 0 ds"

lemma gf16_digits: "gf16_digits ds = gf16_shift (digits_nat ds) 1"
proof (induction ds rule: rev_induct)
  case (snoc d ds)
  let ?n = "digits_nat ds"
  have "gf16_russian (gf16_shift ?n 1) (gf16_shift ?n 1) 0 = gf16_shift (2 * ?n) 1"
    by (simp add: gf16_russian gf16_clmul_shift mult_2 funpow_add)
  then show ?case using snoc by (cases d) (simp_all add: gf16_digits_def digits_nat_def Let_def)
qed (simp_all add: gf16_digits_def digits_nat_def)

lemmas gf16_compute = gf16_digits_def gf16_russian.simps gf16_x_def digits_nat_def Let_def

text \<open>65535 is 3 * 5 * 17 * 257: two is of full order if none of the four cofactors is a period.\<close>

lemma gf16_period: "gf16_shift 65535 1 = 1"
  using gf16_digits [of "[True, True, True, True, True, True, True, True,
    True, True, True, True, True, True, True, True]"]
  by (simp add: gf16_compute)

lemma gf16_no_period:
  "gf16_shift 21845 1 \<noteq> 1" "gf16_shift 13107 1 \<noteq> 1" "gf16_shift 3855 1 \<noteq> 1" "gf16_shift 255 1 \<noteq> 1"
  using gf16_digits [of "[True, False, True, False, True, False, True, False, True, False,
      True, False, True, False, True]"]
    gf16_digits [of "[True, True, False, False, True, True, False, False, True, True, False, False, True, True]"]
    gf16_digits [of "[True, True, True, True, False, False, False, False, True, True, True, True]"]
    gf16_digits [of "[True, True, True, True, True, True, True, True]"]
  by (simp_all add: gf16_compute)

lemma gf16_period_mult: "gf16_shift d 1 = 1 \<Longrightarrow> gf16_shift (d * k) 1 = 1"
  by (induction k) (simp_all add: funpow_add)

lemma gf16_period_gcd:
  assumes "gf16_shift d 1 = 1" and "0 < d"
  shows "gf16_shift (gcd d 65535) 1 = 1"
proof -
  obtain x y where "d * x = 65535 * y + gcd d 65535"
    using bezout_nat [of d 65535] assms(2) by auto
  then have "gf16_shift (d * x) 1 = gf16_shift (gcd d 65535) (gf16_shift (65535 * y) 1)"
    by (simp only: add.commute [of _ "gcd d 65535"] funpow_add o_apply)
  then show ?thesis
    by (simp only: gf16_period_mult [OF assms(1)] gf16_period_mult [OF gf16_period])
qed

lemma small_prime:
  assumes "list_all (\<lambda>d. d dvd p \<longrightarrow> d = 1 \<or> d = p) [0..<Suc p]" and "0 < p"
  shows "p dvd k \<or> coprime k (p :: nat)"
proof -
  have "gcd k p \<in> set [0..<Suc p]" using gcd_le2_nat [of p k] assms(2) by (simp only: set_upt) (simp add: less_Suc_eq_le)
  then have "gcd k p = 1 \<or> gcd k p = p" using assms(1) unfolding list_all_iff by blast
  then show ?thesis by (metis coprime_iff_gcd_eq_1 gcd_dvd1)
qed

lemma divisor_65535:
  fixes g :: nat
  assumes "g dvd 65535" and "g \<noteq> 65535"
  shows "g dvd 21845 \<or> g dvd 13107 \<or> g dvd 3855 \<or> g dvd 255"
proof -
  obtain k where k: "65535 = g * k" using assms(1) by (rule dvdE)
  have "3 dvd k \<or> coprime k 3" "5 dvd k \<or> coprime k 5" "17 dvd k \<or> coprime k 17"
      "257 dvd k \<or> coprime k 257"
    by (rule small_prime; code_simp)+
  moreover have "\<not> (coprime k 3 \<and> coprime k 5 \<and> coprime k 17 \<and> coprime k 257)"
  proof
    assume "coprime k 3 \<and> coprime k 5 \<and> coprime k 17 \<and> coprime k 257"
    then have "coprime k (3 * (5 * (17 * 257)))" by (simp only: coprime_mult_right_iff)
    moreover have "k dvd 65535" unfolding k by (rule dvd_triv_right)
    then have "k dvd 3 * (5 * (17 * 257))" by simp
    ultimately have "is_unit k" by (metis coprime_absorb_left)
    then show False using k assms(2) by simp
  qed
  ultimately have "3 dvd k \<or> 5 dvd k \<or> 17 dvd k \<or> 257 dvd k" by blast
  moreover have "g dvd n" if "p dvd k" "65535 = n * p" "0 < p" for p n :: nat
  proof -
    obtain j where "k = p * j" using \<open>p dvd k\<close> by (rule dvdE)
    then have "n = g * j" using k that(2,3) by simp
    then show ?thesis by simp
  qed
  ultimately show ?thesis by (elim disjE) (force+)
qed

lemma gf16_order:
  assumes "0 < d" and "d < 65535"
  shows "gf16_shift d 1 \<noteq> 1"
proof
  assume "gf16_shift d 1 = 1"
  then have g: "gf16_shift (gcd d 65535) 1 = 1" using assms(1) by (rule gf16_period_gcd)
  have "gcd d 65535 \<le> d" using assms(1) by (simp add: gcd_le1_nat)
  then have "gcd d 65535 \<noteq> 65535" using assms(2) by simp
  then have "gcd d 65535 dvd 21845 \<or> gcd d 65535 dvd 13107 \<or> gcd d 65535 dvd 3855 \<or> gcd d 65535 dvd 255"
    by (intro divisor_65535) simp_all
  then show False
    using gf16_no_period gf16_period_mult [OF g] by (elim disjE dvdE) metis+
qed

lemma gf16_shift_distinct: "i < 65535 \<Longrightarrow> j < 65535 \<Longrightarrow> gf16_shift i 1 = gf16_shift j 1 \<longleftrightarrow> i = j"
proof -
  have "gf16_shift i 1 \<noteq> gf16_shift j 1" if "i < j" "j < 65535" for i j
  proof
    assume "gf16_shift i 1 = gf16_shift j 1"
    also have "\<dots> = gf16_shift i (gf16_shift (j - i) 1)"
      using \<open>i < j\<close> by (simp flip: funpow_add [THEN fun_cong, simplified o_apply])
    finally show False using that gf16_order [of "j - i"] by (simp add: gf16_shift_inj)
  qed
  then show "i < 65535 \<Longrightarrow> j < 65535 \<Longrightarrow> ?thesis" by (metis linorder_neqE_nat)
qed

text \<open>So every word but zero is a power of two.\<close>

lemma gf16_powers: "(\<lambda>i. gf16_shift i 1) ` {..<65535} = - {0}"
proof (rule card_subset_eq)
  have "inj_on (\<lambda>i. gf16_shift i 1) {..<65535}" by (simp add: inj_on_def gf16_shift_distinct)
  then have "card ((\<lambda>i. gf16_shift i 1) ` {..<65535}) = 65535" by (simp add: card_image)
  moreover have "card (- {0 :: u16}) = 65535"
    by (simp add: Compl_eq_Diff_UNIV card_Diff_singleton card_word)
  ultimately show "card ((\<lambda>i. gf16_shift i 1) ` {..<65535}) = card (- {0 :: u16})" by simp
qed (auto simp: gf16_shift_eq_0)

section \<open>What the initialisation leaves\<close>

definition gf16_filled :: "nat \<Rightarrow> gf16_state \<Rightarrow> bool" where
  "gf16_filled n t \<longleftrightarrow> length (gf_exp_tab t) = 131070 \<and> length (gf_log_tab t) = 65536 \<and>
     (\<forall>i < n. gf_exp_tab t ! i = gf16_shift i 1 \<and> gf_exp_tab t ! (i + 65535) = gf16_shift i 1 \<and>
        gf_log_tab t ! unat (gf16_shift i 1) = word_of_nat i)"

lemma unat_u16_bound [simp]: "unat (a :: u16) < 65536"
  using unsigned_less [of a, where 'a=nat] by simp

lemma gf16_init_step_filled:
  assumes "gf16_filled n t" and "n < 65535"
  shows "gf16_init_step n (ucast (gf16_shift n 1), t) =
      (ucast (gf16_shift (Suc n) 1), snd (gf16_init_step n (ucast (gf16_shift n 1), t)))"
    and "gf16_filled (Suc n) (snd (gf16_init_step n (ucast (gf16_shift n 1), t)))"
proof -
  show "gf16_init_step n (ucast (gf16_shift n 1), t) =
      (ucast (gf16_shift (Suc n) 1), snd (gf16_init_step n (ucast (gf16_shift n 1), t)))"
    by (simp add: gf16_init_step_def gf16_mulx_ucast)
  have u: "unat (ucast a :: u32) = unat a" "ucast (ucast a :: u32) = a" for a :: u16
  proof -
    have "unat a < 2 ^ 32" by (rule less_trans [OF unat_u16_bound]) simp
    then show "unat (ucast a :: u32) = unat a" by (simp add: unsigned_ucast_eq take_bit_nat_eq_self)
  qed (rule bit_word_eqI, auto simp: bit_ucast_iff dest: bit_imp_le_length)
  have "i < n \<Longrightarrow> unat (gf16_shift n 1) \<noteq> unat (gf16_shift i 1)" for i
    using gf16_shift_distinct [of n i] assms(2) by (simp add: word_unat_eq_iff)
  then show "gf16_filled (Suc n) (snd (gf16_init_step n (ucast (gf16_shift n 1), t)))"
    using assms by (simp add: gf16_filled_def gf16_init_step_def less_Suc_eq nth_list_update
        u all_conj_distrib)
qed

lemma gf16_fold_filled:
  assumes "gf16_filled 0 t" and "n \<le> 65535"
  shows "\<exists>t'. fold gf16_init_step [0..<n] (1, t) = (ucast (gf16_shift n 1), t') \<and> gf16_filled n t'"
  using assms(2)
proof (induction n)
  case (Suc n)
  then obtain t' where "fold gf16_init_step [0..<n] (1, t) = (ucast (gf16_shift n 1), t')"
      "gf16_filled n t'" by auto
  then have "fold gf16_init_step [0..<Suc n] (1, t) = gf16_init_step n (ucast (gf16_shift n 1), t')"
    by simp
  moreover have "n < 65535" using Suc.prems by simp
  ultimately show ?case using gf16_init_step_filled [OF \<open>gf16_filled n t'\<close>]
    by (metis (no_types))
qed (use assms(1) in simp)

lemma gf16_tabs_filled: "gf16_filled 65535 gf16_tabs" and gf16_log_0: "gf16_logn 0 = 0"
proof -
  let ?t = "\<lparr>gf_exp_tab = replicate 131070 0, gf_log_tab = replicate 65536 0, gf_ready = False\<rparr>"
  have "gf16_filled 0 ?t" by (simp add: gf16_filled_def)
  then obtain t where t: "snd (fold gf16_init_step [0..<65535] (1, ?t)) = t" "gf16_filled 65535 t"
    using gf16_fold_filled [of ?t 65535] by auto
  then have tabs: "gf16_tabs = t\<lparr>gf_log_tab := (gf_log_tab t)[0 := 0], gf_ready := True\<rparr>"
    by (simp add: gf16_tabs_def adsc_gf16_init_def Let_def)
  have "unat (gf16_shift i 1) \<noteq> 0" for i by (simp add: gf16_shift_eq_0 unat_eq_0)
  then show "gf16_filled 65535 gf16_tabs"
    using t(2) unfolding tabs by (simp add: gf16_filled_def nth_list_update)
  show "gf16_logn 0 = 0" using t(2) by (simp add: gf16_logn_def tabs gf16_filled_def)
qed

lemma gf16_exp_shift: "i < 131070 \<Longrightarrow> gf16_exp i = gf16_shift i 1"
proof -
  assume i: "i < 131070"
  show ?thesis
  proof (cases "i < 65535")
    case False
    then obtain j where j: "i = j + 65535" by (metis add.commute le_Suc_ex linorder_not_less)
    then have "gf16_exp i = gf16_shift j 1"
      using i gf16_tabs_filled unfolding gf16_exp_def gf16_filled_def j by simp
    also have "\<dots> = gf16_shift j (gf16_shift 65535 1)" by (simp only: gf16_period)
    also have "\<dots> = gf16_shift i 1" by (simp only: j funpow_add o_apply)
    finally show ?thesis .
  qed (use gf16_tabs_filled in \<open>simp add: gf16_exp_def gf16_filled_def\<close>)
qed

lemma gf16_logn_shift: "i < 65535 \<Longrightarrow> gf16_logn (gf16_shift i 1) = i"
  using gf16_tabs_filled
  by (simp add: gf16_logn_def gf16_filled_def unsigned_of_nat take_bit_nat_eq_self)

lemma gf16_log_cases:
  assumes "a \<noteq> 0"
  obtains i where "i < 65535" "a = gf16_shift i 1" "gf16_logn a = i"
proof -
  have "a \<in> (\<lambda>i. gf16_shift i 1) ` {..<65535}" using assms by (simp add: gf16_powers)
  then show thesis using that gf16_logn_shift by auto
qed

interpretation g16: log_field gf16_x UNIV 65535 gf16_logn adsc_gf16_mul adsc_gf16_div adsc_gf16_pow
proof unfold_locales
  show "adsc_gf16_mul a b = (if a = 0 \<or> b = 0 then 0 else gf16_shift (gf16_logn a + gf16_logn b) 1)"
    for a b by (auto simp: adsc_gf16_mul_def elim!: gf16_log_cases intro!: gf16_exp_shift)
  show "b \<noteq> 0 \<Longrightarrow> adsc_gf16_div a b =
      (if a = 0 then 0 else gf16_shift (gf16_logn a + 65535 - gf16_logn b) 1)"
    for a b by (auto simp: adsc_gf16_div_def elim!: gf16_log_cases intro!: gf16_exp_shift)
qed (auto simp: gf16_x_xor gf16_period gf16_shift_eq_0 gf16_logn_shift adsc_gf16_pow_def
    gf16_exp_shift elim: gf16_log_cases)

text \<open>The other entry points, and the multiplication of the sweep for an exponent it may be given.\<close>

lemma gf16_logn_less: "gf16_logn a < 65535"
  by (cases "a = 0") (auto simp: gf16_log_0 elim: gf16_log_cases)

lemma gf16_mul_pow [simp]: "adsc_gf16_mul_pow a e = adsc_gf16_mul a (adsc_gf16_pow e)"
proof (cases "a = 0")
  case False
  have "gf16_logn a + e mod 65535 < 131070" using gf16_logn_less [of a] mod_less_divisor [of 65535 e]
    by linarith
  then show ?thesis using False g16.mul_pw_mod [of a e] by (simp add: adsc_gf16_mul_pow_def gf16_exp_shift)
qed (simp add: adsc_gf16_mul_pow_def)

lemma gf16_mul_pow_fast: "e < 65535 \<Longrightarrow> adsc_gf16_mul_pow_fast a e = adsc_gf16_mul_pow a e"
  by (simp add: adsc_gf16_mul_pow_fast_def adsc_gf16_mul_pow_def del: gf16_mul_pow)

lemma gf16_inv: "adsc_gf16_inv a = adsc_gf16_div 1 a"
proof -
  have "gf16_logn 1 = 0" using gf16_logn_shift [of 0] by simp
  then show ?thesis by (simp add: adsc_gf16_inv_def adsc_gf16_div_def)
qed

lemma gf16_div_0 [simp]: "adsc_gf16_div a 0 = 0" "adsc_gf16_div 0 a = 0"
  by (simp_all add: adsc_gf16_div_def)

text \<open>
  The logarithm is -1 exactly for zero, and otherwise the exponent that \<open>adsc_gf16_pow\<close>
  undoes.
\<close>

lemma gf16_log_pow:
  "if a = 0 then adsc_gf16_log a = -1
   else adsc_gf16_log a \<in> {0..65534} \<and> adsc_gf16_pow (nat (adsc_gf16_log a)) = a"
  using gf16_logn_less [of a] by (auto simp: adsc_gf16_log_def)

section \<open>Computing without the tables\<close>

lemma gf16_mul_eval [code]: "adsc_gf16_mul a b = gf16_russian a b 0"
proof (cases "a = 0")
  case False
  then obtain i where "a = gf16_shift i 1" by (rule gf16_log_cases)
  then show ?thesis
    using g16.mul_pw_left [of b i] by (simp add: g16.pw_eq gf16_russian gf16_clmul_shift)
qed (simp add: gf16_russian.simps adsc_gf16_mul_def)

text \<open>Powers of two from the binary digits of the exponent, most significant first.\<close>

fun nat_digits :: "nat \<Rightarrow> nat \<Rightarrow> bool list" where
  "nat_digits 0 n = []"
| "nat_digits (Suc k) n = nat_digits k (n div 2) @ [odd n]"

lemma digits_nat_digits: "n < 2 ^ k \<Longrightarrow> digits_nat (nat_digits k n) = n"
  by (induction k arbitrary: n) (auto simp: digits_nat_def)

lemma gf16_pow_eval [code]: "adsc_gf16_pow e = gf16_digits (nat_digits 16 (e mod 65535))"
proof -
  have "e mod 65535 < 2 ^ 16" using mod_less_divisor [of 65535 e] by simp
  then have "digits_nat (nat_digits 16 (e mod 65535)) = e mod 65535" by (rule digits_nat_digits)
  then show ?thesis
    using mod_less_divisor [of 65535 e] by (simp add: gf16_digits adsc_gf16_pow_def gf16_exp_shift)
qed

text \<open>A quotient is the product with the power of order minus one.\<close>

fun gf16_power :: "nat \<Rightarrow> u16 \<Rightarrow> u16" where
  "gf16_power 0 a = a"
| "gf16_power (Suc n) a = (let q = gf16_power n a in gf16_russian (gf16_russian q q 0) a 0)"

lemma gf16_power: "gf16_power n (adsc_gf16_pow i) = adsc_gf16_pow (i * (2 ^ Suc n - 1))"
proof (induction n)
  case (Suc n)
  define k :: nat where "k = 2 ^ Suc n - 1"
  have "(2 :: nat) ^ Suc n = Suc k" unfolding k_def by simp
  then have "(2 :: nat) ^ Suc (Suc n) - 1 = k + k + 1" by (simp only: power_Suc [of _ "Suc n"]) simp
  then have "i * k + i * k + i = i * (2 ^ Suc (Suc n) - 1)" by (simp only: distrib_left mult_1_right)
  then have "i * (2 ^ Suc n - 1) + i * (2 ^ Suc n - 1) + i = i * (2 ^ Suc (Suc n) - 1)"
    by (simp only: k_def)
  then show ?case
    by (simp only: gf16_power.simps Let_def Suc gf16_mul_eval [symmetric] g16.mul_pw_pw)
qed simp

lemma gf16_div_eval [code]:
  "adsc_gf16_div a b =
     (if a = 0 \<or> b = 0 then 0
      else let q = gf16_power 14 b in gf16_russian a (gf16_russian q q 0) 0)"
proof (cases "a = 0 \<or> b = 0")
  case False
  define i where "i = gf16_logn b"
  have b: "b = adsc_gf16_pow i" using False by (simp add: i_def)
  let ?q = "adsc_gf16_mul (gf16_power 14 b) (gf16_power 14 b)"
  have q: "?q = adsc_gf16_pow (i * 65534)"
    unfolding b gf16_power g16.mul_pw_pw by (simp add: mult.commute)
  have "adsc_gf16_pow (i + i * 65534) = adsc_gf16_pow ((i + i * 65534) mod 65535)"
    by (simp only: g16.pw_mod)
  also have "(i + i * 65534) mod 65535 = 0" by simp
  finally have "adsc_gf16_mul (adsc_gf16_pow i) (adsc_gf16_pow (i * 65534)) = 1"
    unfolding g16.mul_pw_pw by simp
  then have "adsc_gf16_mul b ?q = 1" using q b by metis
  then have "adsc_gf16_mul b (adsc_gf16_mul a ?q) = a"
    using g16.mul_left_commute [of b a ?q] by simp
  then have "adsc_gf16_div a b = adsc_gf16_mul a ?q" using False by (intro g16.dv_eqI) auto
  then show ?thesis using False by (simp only: gf16_mul_eval Let_def) simp
qed (auto simp: adsc_gf16_div_def)

section \<open>The words as a field\<close>

text \<open>
  A copy of the 16-bit words whose arithmetic is that of the tables: an instance of the
  library's class, so that its theory of sums, products and fields applies to the decoder.
\<close>

typedef gf16 = "UNIV :: u16 set" morphisms of_gf gf ..

setup_lifting type_definition_gf16

instantiation gf16 :: field
begin

lift_definition zero_gf16 :: gf16 is 0 .
lift_definition one_gf16 :: gf16 is 1 .
lift_definition plus_gf16 :: "gf16 \<Rightarrow> gf16 \<Rightarrow> gf16" is "(XOR)" .
lift_definition minus_gf16 :: "gf16 \<Rightarrow> gf16 \<Rightarrow> gf16" is "(XOR)" .
lift_definition uminus_gf16 :: "gf16 \<Rightarrow> gf16" is "\<lambda>a. a" .
lift_definition times_gf16 :: "gf16 \<Rightarrow> gf16 \<Rightarrow> gf16" is adsc_gf16_mul .
lift_definition divide_gf16 :: "gf16 \<Rightarrow> gf16 \<Rightarrow> gf16" is adsc_gf16_div .
lift_definition inverse_gf16 :: "gf16 \<Rightarrow> gf16" is adsc_gf16_inv .

instance
proof
  fix a b c :: gf16
  show "a * b * c = a * (b * c)" by transfer (simp add: g16.mul_assoc)
  show "a * b = b * a" by transfer (simp add: g16.mul_commute)
  show "1 * a = a" by transfer simp
  show "a + b + c = a + (b + c)" by transfer (simp add: xor.assoc)
  show "a + b = b + a" by transfer (simp add: xor.commute)
  show "0 + a = a" by transfer simp
  show "- a + a = 0" by transfer simp
  show "a - b = a + - b" by transfer simp
  show "(a + b) * c = a * c + b * c" by transfer (simp add: g16.mul_xor_left)
  show "(0 :: gf16) \<noteq> 1" by transfer simp
  show "a \<noteq> 0 \<Longrightarrow> inverse a * a = 1"
    by transfer (metis UNIV_I g16.mul_commute g16.mul_dv gf16_inv)
  show "a div b = a * inverse b"
  proof transfer
    fix a b :: u16
    show "adsc_gf16_div a b = adsc_gf16_mul a (adsc_gf16_inv b)"
    proof (cases "b = 0")
      case False
      then have "adsc_gf16_mul b (adsc_gf16_mul a (adsc_gf16_inv b)) = a"
        using g16.mul_left_commute [of b a "adsc_gf16_div 1 b"] g16.mul_dv [of 1 b] by (simp add: gf16_inv)
      then show ?thesis using False by (intro g16.dv_eqI) auto
    qed (simp add: gf16_inv)
  qed
  show "inverse (0 :: gf16) = 0" by transfer (simp add: adsc_gf16_inv_def)
qed

end

text \<open>Characteristic two.\<close>

lemma gf16_uminus [simp]: "- a = (a :: gf16)"
  by transfer simp

lemma gf16_double [simp]: "a + a = (0 :: gf16)"
  by transfer simp

lemma gf16_minus [simp]: "a - b = a + (b :: gf16)"
  by transfer simp

lemma gf16_add_eq_0 [simp]: "a + b = 0 \<longleftrightarrow> a = (b :: gf16)"
  by transfer simp

lemma gf16_of_ring [simp]:
  "gf 0 = 0" "gf 1 = 1" "gf (a XOR b) = gf a + gf b" "gf (adsc_gf16_mul a b) = gf a * gf b"
  "gf (adsc_gf16_div a b) = gf a / gf b"
  by (simp_all add: zero_gf16_def one_gf16_def plus_gf16.abs_eq times_gf16.abs_eq divide_gf16.abs_eq)

lemma gf_eq_iff [simp]: "gf a = gf b \<longleftrightarrow> a = b"
  by (simp add: gf_inject)

lemma gf_eq_0 [simp]: "gf a = 0 \<longleftrightarrow> a = 0"
  using gf_eq_iff [of a 0] by (simp del: gf_eq_iff)

lemma gf_pow [simp]: "gf (adsc_gf16_pow e) = gf 2 ^ e"
proof (induction e)
  case (Suc e)
  have "adsc_gf16_pow 1 = 2" by (simp add: g16.pw_eq gf16_x_def bit_numeral_iff)
  then have "adsc_gf16_pow (Suc e) = adsc_gf16_mul 2 (adsc_gf16_pow e)"
    using g16.mul_pw_pw [of 1 e] by simp
  then show ?case using Suc by simp
qed simp

lemma gf_xor_list: "gf (xor_list xs) = (\<Sum>x\<leftarrow>xs. gf x)"
  by (induction xs) simp_all

lemma gf_pow_inject: "i < 65535 \<Longrightarrow> j < 65535 \<Longrightarrow> gf 2 ^ i = gf 2 ^ j \<longleftrightarrow> i = j"
  using g16.pw_inject [of i j] by (simp flip: gf_pow)

lemma gf_power_nonzero [simp]: "gf 2 ^ i \<noteq> 0"
  using g16.pw_nonzero [of i] by (simp flip: gf_pow)

lemma gf_pow_period [simp]: "gf 2 ^ 65535 = 1"
  using g16.pw_N by (simp flip: gf_pow)

end
