(* ===== verification/Recurrence.thy ===== *)
theory Recurrence
  imports Complex_Main
begin

text \<open>
  Linear recurrences over a field, as far as a syndrome decoder needs them: polynomials as their
  coefficient sequences, products of linear factors, sums of powers, Massey's length bound, and
  the uniqueness of the shortest recurrence of a sum of powers. Nothing here is specific to a
  field; theory \<open>Rs16\<close> uses it for the field of 65536 elements.
\<close>

section \<open>Products of sequences\<close>

definition conv :: "(nat \<Rightarrow> 'a::field) \<Rightarrow> (nat \<Rightarrow> 'a) \<Rightarrow> nat \<Rightarrow> 'a" where
  "conv f g n = (\<Sum>i\<le>n. f i * g (n - i))"

definition unit_seq :: "nat \<Rightarrow> 'a::field" where
  "unit_seq n = (if n = 0 then 1 else 0)"

text \<open>Multiplication by the linear factor \<open>1 - x z\<close>, and by \<open>z^m\<close>.\<close>

definition lin :: "'a::field \<Rightarrow> (nat \<Rightarrow> 'a) \<Rightarrow> nat \<Rightarrow> 'a" where
  "lin x f n = f n - (case n of 0 \<Rightarrow> 0 | Suc m \<Rightarrow> x * f m)"

definition delay :: "nat \<Rightarrow> (nat \<Rightarrow> 'a::field) \<Rightarrow> nat \<Rightarrow> 'a" where
  "delay m f n = (if n < m then 0 else f (n - m))"

definition prodlin :: "'a::field list \<Rightarrow> nat \<Rightarrow> 'a" where
  "prodlin xs = foldr lin xs unit_seq"

lemma prodlin_simps [simp]: "prodlin [] = unit_seq" "prodlin (x # xs) = lin x (prodlin xs)"
  by (simp_all add: prodlin_def)

lemma lin_0 [simp]: "lin x f 0 = f 0"
  and lin_Suc [simp]: "lin x f (Suc n) = f (Suc n) - x * f n"
  by (simp_all add: lin_def)

lemma unit_seq_simps [simp]: "unit_seq 0 = 1" "unit_seq (Suc n) = 0"
  by (simp_all add: unit_seq_def)

lemma conv_unit [simp]: "conv unit_seq g = g"
proof
  fix n
  have "conv unit_seq g n = (\<Sum>i\<le>n. if i = 0 then g n else 0)"
    unfolding conv_def by (intro sum.cong) (auto simp: unit_seq_def)
  then show "conv unit_seq g n = g n" by simp
qed

lemma conv_0 [simp]: "conv f g 0 = f 0 * g 0"
  by (simp add: conv_def)

lemma conv_Suc: "conv f g (Suc n) = f 0 * g (Suc n) + conv (\<lambda>i. f (Suc i)) g n"
  unfolding conv_def sum.atMost_Suc_shift by simp

lemma conv_Suc_right: "conv f g (Suc n) = f (Suc n) * g 0 + conv f (\<lambda>i. g (Suc i)) n"
  unfolding conv_def by (simp add: Suc_diff_le)

lemma conv_diff_left: "conv (\<lambda>i. f i - g i) h n = conv f h n - conv g h n"
  by (simp add: conv_def left_diff_distrib sum_subtractf)

lemma conv_scale_left: "conv (\<lambda>i. k * f i) h n = k * conv f h n"
  by (simp add: conv_def sum_distrib_left mult.assoc)

lemma conv_commute: "conv f g = conv g f"
proof
  fix n show "conv f g n = conv g f n"
    unfolding conv_def
    by (rule sum.reindex_bij_witness [of _ "\<lambda>i. n - i" "\<lambda>i. n - i"]) (auto simp: mult.commute)
qed

lemma conv_lin_left: "conv (lin x f) g = lin x (conv f g)"
proof
  fix n show "conv (lin x f) g n = lin x (conv f g) n"
  proof (cases n)
    case (Suc m)
    have "conv (lin x f) g (Suc m) =
        f 0 * g (Suc m) + conv (\<lambda>i. f (Suc i) - x * f i) g m"
      by (simp add: conv_Suc)
    also have "\<dots> = lin x (conv f g) (Suc m)"
      by (simp add: conv_diff_left conv_scale_left conv_Suc)
    finally show ?thesis using Suc by simp
  qed simp
qed

lemma conv_lin_right: "conv f (lin x g) = lin x (conv f g)"
  by (simp only: conv_commute [of f] conv_lin_left)

lemma lin_commute: "lin x (lin y f) = lin y (lin x f)"
proof
  fix n show "lin x (lin y f) n = lin y (lin x f) n"
    by (cases n; cases "n - 1") (simp_all add: algebra_simps)
qed

lemma conv_prodlin: "conv (prodlin xs) g = foldr lin xs g"
  by (induction xs) (simp_all add: conv_lin_left)

lemma conv_prodlin_prodlin: "conv (prodlin xs) (prodlin ys) = prodlin (xs @ ys)"
  by (simp only: conv_prodlin) (simp add: prodlin_def)

lemma prodlin_remove1: "x \<in> set xs \<Longrightarrow> prodlin xs = lin x (prodlin (remove1 x xs))"
  by (induction xs) (auto simp: lin_commute)

lemma conv_delay: "conv (delay m f) g n = (if n < m then 0 else conv f g (n - m))"
proof (induction m arbitrary: n)
  case (Suc m)
  have "(\<lambda>i. delay (Suc m) f (Suc i)) = delay m f" by (auto simp: delay_def)
  moreover have "delay (Suc m) f 0 = 0" by (simp add: delay_def)
  ultimately show ?case using Suc by (cases n) (simp_all add: conv_Suc)
next
  case 0
  have "delay 0 f = f" by (simp add: delay_def fun_eq_iff)
  then show ?case by simp
qed

section \<open>Degree and value\<close>

definition deg_le :: "(nat \<Rightarrow> 'a::field) \<Rightarrow> nat \<Rightarrow> bool" where
  "deg_le f d \<longleftrightarrow> (\<forall>i > d. f i = 0)"

lemma deg_leD: "deg_le f d \<Longrightarrow> d < i \<Longrightarrow> f i = 0"
  by (simp add: deg_le_def)

lemma deg_le_mono: "deg_le f d \<Longrightarrow> d \<le> e \<Longrightarrow> deg_le f e"
  by (simp add: deg_le_def)

lemma deg_le_unit [simp]: "deg_le unit_seq d"
  by (simp add: deg_le_def unit_seq_def)

lemma deg_le_lin: "deg_le f d \<Longrightarrow> deg_le (lin x f) (Suc d)"
  by (auto simp: deg_le_def lin_def split: nat.split)

lemma deg_le_prodlin: "deg_le (prodlin xs) (length xs)"
  by (induction xs) (simp_all add: deg_le_lin)

lemma prodlin_0 [simp]: "prodlin xs 0 = 1"
  by (induction xs) simp_all

definition val :: "(nat \<Rightarrow> 'a::field) \<Rightarrow> nat \<Rightarrow> 'a \<Rightarrow> 'a" where
  "val f d z = (\<Sum>i\<le>d. f i * z ^ i)"

lemma val_extend: "deg_le f d \<Longrightarrow> d \<le> e \<Longrightarrow> val f e z = val f d z"
  unfolding val_def by (intro sum.mono_neutral_right) (auto simp: deg_le_def not_le)

lemma val_lin: "deg_le f d \<Longrightarrow> val (lin x f) (Suc d) z = (1 - x * z) * val f d z"
proof -
  assume d: "deg_le f d"
  have "val (lin x f) (Suc d) z = f 0 + (\<Sum>i\<le>d. (f (Suc i) - x * f i) * z ^ Suc i)"
    unfolding val_def sum.atMost_Suc_shift by simp
  also have "\<dots> = (f 0 + (\<Sum>i\<le>d. f (Suc i) * z ^ Suc i)) - x * z * (\<Sum>i\<le>d. f i * z ^ i)"
    by (simp add: algebra_simps sum_subtractf sum_distrib_left)
  also have "f 0 + (\<Sum>i\<le>d. f (Suc i) * z ^ Suc i) = val f (Suc d) z"
    unfolding val_def sum.atMost_Suc_shift by simp
  also have "\<dots> = val f d z" using d by (rule val_extend) simp
  finally show ?thesis by (simp add: val_def left_diff_distrib)
qed

lemma val_prodlin: "val (prodlin xs) (length xs) z = (\<Prod>x\<leftarrow>xs. 1 - x * z)"
proof (induction xs)
  case (Cons x xs)
  then show ?case by (simp add: val_lin deg_le_prodlin)
qed (simp add: val_def)

text \<open>The reversed polynomial.\<close>

definition rval :: "(nat \<Rightarrow> 'a::field) \<Rightarrow> nat \<Rightarrow> 'a \<Rightarrow> 'a" where
  "rval f d z = (\<Sum>i\<le>d. f i * z ^ (d - i))"

lemma rval_lin: "deg_le f d \<Longrightarrow> rval (lin x f) (Suc d) z = (z - x) * rval f d z"
proof -
  assume d: "deg_le f d"
  have "rval (lin x f) (Suc d) z = f 0 * z ^ Suc d + (\<Sum>i\<le>d. (f (Suc i) - x * f i) * z ^ (d - i))"
    unfolding rval_def sum.atMost_Suc_shift by simp
  also have "\<dots> = (f 0 * z ^ Suc d + (\<Sum>i\<le>d. f (Suc i) * z ^ (d - i))) - x * rval f d z"
    by (simp add: algebra_simps sum_subtractf sum_distrib_left rval_def)
  also have "f 0 * z ^ Suc d + (\<Sum>i\<le>d. f (Suc i) * z ^ (d - i)) = rval f (Suc d) z"
    unfolding rval_def sum.atMost_Suc_shift by simp
  also have "\<dots> = z * rval f d z"
  proof -
    have "rval f (Suc d) z = (\<Sum>i\<le>d. f i * z ^ (Suc d - i))"
      using deg_leD [OF d, of "Suc d"] by (simp add: rval_def)
    also have "\<dots> = z * rval f d z"
      unfolding rval_def sum_distrib_left by (intro sum.cong) (simp_all add: Suc_diff_le)
    finally show ?thesis .
  qed
  finally show ?thesis by (simp add: left_diff_distrib)
qed

lemma rval_prodlin: "rval (prodlin xs) (length xs) z = (\<Prod>x\<leftarrow>xs. z - x)"
proof (induction xs)
  case (Cons x xs)
  then show ?case by (simp add: rval_lin deg_le_prodlin)
qed (simp add: rval_def)

lemma prodlin_lead: "prodlin xs (length xs) = (\<Prod>x\<leftarrow>xs. - x)"
proof (induction xs)
  case (Cons x xs)
  then show ?case using deg_leD [OF deg_le_prodlin [of xs], of "Suc (length xs)"] by simp
qed simp

section \<open>Roots and sums of powers\<close>

lemma few_roots:
  fixes q :: "nat \<Rightarrow> 'a::field"
  assumes "finite K" and "n < card K" and "\<And>z. z \<in> K \<Longrightarrow> val q n z = 0" and "i \<le> n"
  shows "q i = 0"
  using assms
proof (induction n arbitrary: q K i)
  case 0
  then obtain z where "z \<in> K" by fastforce
  then show ?case using 0 by (auto simp: val_def)
next
  case (Suc n)
  then obtain a where a: "a \<in> K" by fastforce
  define b where "b j = (\<Sum>k = Suc j..Suc n. q k * a ^ (k - j - 1))" for j
  have "val q (Suc n) z - val q (Suc n) a = (z - a) * val b n z" for z
    using polyfun_diff [of "Suc n" q z a] unfolding val_def b_def lessThan_Suc_atMost by simp
  then have "z \<in> K - {a} \<Longrightarrow> val b n z = 0" for z using Suc.prems(3) a by fastforce
  moreover have "n < card (K - {a})" using Suc.prems(1,2) a by simp
  ultimately have b: "j \<le> n \<Longrightarrow> b j = 0" for j
    using Suc.IH [of "K - {a}" b j] Suc.prems(1) by blast
  have step: "b j = q (Suc j) + a * b (Suc j)" if "j \<le> n" for j
  proof -
    have "b j = q (Suc j) + (\<Sum>k = Suc (Suc j)..Suc n. q k * a ^ (k - j - 1))"
      unfolding b_def using that by (subst sum.atLeast_Suc_atMost) auto
    also have "(\<Sum>k = Suc (Suc j)..Suc n. q k * a ^ (k - j - 1)) = a * b (Suc j)"
      unfolding b_def sum_distrib_left
    proof (rule sum.cong [OF refl])
      fix k assume "k \<in> {Suc (Suc j)..Suc n}"
      then have "k - j - 1 = Suc (k - Suc j - 1)" by auto
      then show "q k * a ^ (k - j - 1) = a * (q k * a ^ (k - Suc j - 1))" by simp
    qed
    finally show ?thesis .
  qed
  have high: "q (Suc j) = 0" if "j \<le> n" for j
  proof (cases "j = n")
    case True
    then show ?thesis using step [of n] b [of n] by (simp add: b_def)
  next
    case False
    then show ?thesis using step [of j] b [of j] b [of "Suc j"] that by simp
  qed
  have "q 0 = val q (Suc n) a"
    unfolding val_def sum.atMost_Suc_shift using high by simp
  then have "q 0 = 0" using Suc.prems(3) a by simp
  then show ?case using high [of "i - 1"] Suc.prems(4) by (cases i) auto
qed

definition psum :: "('a::field \<Rightarrow> 'a) \<Rightarrow> 'a set \<Rightarrow> nat \<Rightarrow> 'a" where
  "psum Y K n = (\<Sum>x\<in>K. Y x * x ^ n)"

lemma psum_zero:
  assumes "finite K" and "\<And>n. n < card K \<Longrightarrow> psum W K n = 0" and "x \<in> K"
  shows "W x = 0"
  using assms
proof (induction K arbitrary: W x rule: finite_induct)
  case (insert y K)
  have z: "psum W K n = - (W y * y ^ n)" if "n \<le> card K" for n
    using insert.prems(1) [of n] insert.hyps that by (simp add: psum_def eq_neg_iff_add_eq_0 add.commute)
  have "psum (\<lambda>x. W x * (x - y)) K n = psum W K (Suc n) - y * psum W K n" for n
    by (simp add: psum_def sum_distrib_left sum_subtractf [symmetric] algebra_simps)
  then have "psum (\<lambda>x. W x * (x - y)) K n = 0" if "n < card K" for n
    using z [of n] z [of "Suc n"] that by simp
  then have K: "x \<in> K \<Longrightarrow> W x = 0" for x
    using insert.IH [of "\<lambda>x. W x * (x - y)" x] insert.hyps by auto
  then have "psum W (insert y K) 0 = W y" using insert.hyps by (simp add: psum_def)
  then show ?case using K insert.prems insert.hyps by auto
qed simp

text \<open>A linear factor shifts a sum of powers and weakens its terms.\<close>

lemma lin_psum:
  assumes "\<And>n. e + n < N \<Longrightarrow> f (e + n) = psum Y K n" and "Suc e + n < N"
  shows "lin x f (Suc e + n) = psum (\<lambda>y. Y y * (y - x)) K n"
proof -
  have "lin x f (Suc e + n) = psum Y K (Suc n) - x * psum Y K n"
    using assms(1) [of "Suc n"] assms(1) [of n] assms(2) by simp
  then show ?thesis
    by (simp add: psum_def sum_distrib_left sum_subtractf [symmetric] algebra_simps)
qed

lemma foldr_lin_psum:
  assumes "\<And>n. n < N \<Longrightarrow> f n = psum Y K n" and "length xs + n < N"
  shows "foldr lin xs f (length xs + n) = psum (\<lambda>y. Y y * (\<Prod>x\<leftarrow>xs. y - x)) K n"
  using assms(2)
proof (induction xs arbitrary: n)
  case (Cons x xs)
  then show ?case
    using lin_psum [of "length xs" N "foldr lin xs f" "\<lambda>y. Y y * (\<Prod>x\<leftarrow>xs. y - x)" K n x]
    by (simp add: mult_ac)
qed (use assms(1) in simp)

lemma lin_power: "lin x (\<lambda>n. x ^ n) = unit_seq"
  by (auto simp: fun_eq_iff lin_def unit_seq_def split: nat.split)

lemma conv_psum_right: "conv f (psum Y K) n = (\<Sum>x\<in>K. Y x * conv f (\<lambda>n. x ^ n) n)"
  unfolding conv_def psum_def sum_distrib_left sum_distrib_right
  by (subst sum.swap) (simp add: mult_ac)

text \<open>The product of the locator and the sum of powers: the evaluator.\<close>

lemma conv_prodlin_psum:
  assumes "set xs = K" and "distinct xs"
  shows "conv (prodlin xs) (psum Y K) n = (\<Sum>x\<in>K. Y x * prodlin (remove1 x xs) n)"
proof -
  have "conv (prodlin xs) (\<lambda>n. x ^ n) = prodlin (remove1 x xs)" if "x \<in> K" for x
  proof -
    have "conv (prodlin xs) (\<lambda>n. x ^ n) = conv (prodlin (remove1 x xs)) (lin x (\<lambda>n. x ^ n))"
      using that assms(1) by (simp only: prodlin_remove1 [of x xs] conv_lin_left conv_lin_right)
    then show ?thesis unfolding lin_power by (simp add: conv_commute [of _ unit_seq])
  qed
  then show ?thesis unfolding conv_psum_right by (intro sum.cong) auto
qed

section \<open>Recurrences\<close>

text \<open>\<open>c\<close> generates \<open>s\<close> below \<open>n\<close> as a recurrence of length \<open>L\<close>.\<close>

definition generates :: "(nat \<Rightarrow> 'a::field) \<Rightarrow> nat \<Rightarrow> (nat \<Rightarrow> 'a) \<Rightarrow> nat \<Rightarrow> bool" where
  "generates c L s n \<longleftrightarrow> c 0 = 1 \<and> deg_le c L \<and> (\<forall>j. L \<le> j \<and> j < n \<longrightarrow> conv c s j = 0)"

lemma generatesD:
  assumes "generates c L s n"
  shows "c 0 = 1" "deg_le c L" "L \<le> j \<Longrightarrow> j < n \<Longrightarrow> conv c s j = 0"
  using assms by (auto simp: generates_def)

lemma conv_deg:
  assumes "deg_le c L" and "L \<le> n"
  shows "conv c s n = (\<Sum>i\<le>L. c i * s (n - i))"
  unfolding conv_def using assms by (intro sum.mono_neutral_right) (auto simp: deg_le_def not_le)

text \<open>Massey: a recurrence that fails at \<open>n\<close> and one that does not have lengths of sum above \<open>n\<close>.\<close>

lemma massey:
  assumes c: "generates c L s n" and fails: "conv c s n \<noteq> 0" and d: "generates d M s (Suc n)"
  shows "n < L + M"
proof (rule ccontr)
  assume "\<not> n < L + M"
  then have le: "L + M \<le> n" by simp
  let ?t = "\<lambda>i j. c i * (d j * s (n - i - j))"
  have "(\<Sum>i\<le>L. \<Sum>j\<le>M. ?t i j) = (\<Sum>i\<le>L. c i * conv d s (n - i))"
    using le by (intro sum.cong) (simp_all add: conv_deg [OF generatesD(2) [OF d]] sum_distrib_left)
  also have "\<dots> = 0"
    using le by (intro sum.neutral) (simp add: generatesD(3) [OF d])
  finally have z: "(\<Sum>i\<le>L. \<Sum>j\<le>M. ?t i j) = 0" .
  have "(\<Sum>i\<le>L. \<Sum>j\<le>M. ?t i j) = (\<Sum>j\<le>M. \<Sum>i\<le>L. ?t i j)" by (rule sum.swap)
  also have "\<dots> = (\<Sum>j\<le>M. d j * conv c s (n - j))"
  proof (rule sum.cong [OF refl])
    fix j assume "j \<in> {..M}"
    then have "conv c s (n - j) = (\<Sum>i\<le>L. c i * s (n - j - i))"
      using le by (intro conv_deg [OF generatesD(2) [OF c]]) simp
    then show "(\<Sum>i\<le>L. ?t i j) = d j * conv c s (n - j)"
      by (simp add: sum_distrib_left mult.left_commute add.commute)
  qed
  also have "\<dots> = (\<Sum>j\<le>M. if j = 0 then conv c s n else 0)"
    using le generatesD(1) [OF d] by (intro sum.cong) (auto simp: generatesD(3) [OF c])
  also have "\<dots> = conv c s n" by simp
  finally show False using z fails by simp
qed

subsection \<open>The step of the shortest-recurrence algorithm\<close>

text \<open>
  Before step \<open>r\<close>: \<open>c\<close> of length \<open>L\<close> generates what was seen; \<open>p\<close> is the last polynomial that
  failed, \<open>m\<close> steps ago and with discrepancy \<open>b\<close>, from whose failure the length \<open>L\<close> came - or
  nothing but zeros was seen.
\<close>

definition shortest ::
    "(nat \<Rightarrow> 'a::field) \<Rightarrow> nat \<Rightarrow> (nat \<Rightarrow> 'a) \<Rightarrow> nat \<Rightarrow> (nat \<Rightarrow> 'a) \<Rightarrow> 'a \<Rightarrow> nat \<Rightarrow> bool" where
  "shortest s r c L p b m \<longleftrightarrow> generates c L s r \<and> L \<le> r \<and> b \<noteq> 0 \<and>
     (L = 0 \<and> c = unit_seq \<and> p = unit_seq \<and> m = Suc r \<and> (\<forall>j < r. s j = 0) \<or>
      0 < m \<and> m \<le> r \<and> L \<le> Suc (r - m) \<and> generates p (Suc (r - m) - L) s (r - m) \<and>
        conv p s (r - m) = b)"

lemma shortest_init: "shortest s 0 unit_seq 0 unit_seq 1 1"
  by (simp add: shortest_def generates_def)

lemma shortest_zero:
  assumes "shortest s r c L p b m" and "conv c s r = 0"
  shows "shortest s (Suc r) c L p b (Suc m)"
proof -
  have "generates c L s (Suc r)"
    using assms by (auto simp: shortest_def generates_def less_Suc_eq)
  moreover have "L = 0 \<and> c = unit_seq \<Longrightarrow> s r = 0" using assms(2) by auto
  ultimately show ?thesis using assms(1) by (auto simp: shortest_def less_Suc_eq)
qed

definition bm_update :: "(nat \<Rightarrow> 'a::field) \<Rightarrow> 'a \<Rightarrow> (nat \<Rightarrow> 'a) \<Rightarrow> nat \<Rightarrow> nat \<Rightarrow> 'a" where
  "bm_update c k p m i = c i - k * delay m p i"

lemma conv_bm_update:
  "conv (bm_update c k p m) s j = conv c s j - k * (if j < m then 0 else conv p s (j - m))"
  unfolding bm_update_def conv_diff_left conv_scale_left conv_delay ..

lemma bm_update_deg:
  assumes "deg_le c L" and "deg_le p M" and "L \<le> N" and "m + M \<le> N"
  shows "deg_le (bm_update c k p m) N"
  using assms by (auto simp: deg_le_def bm_update_def delay_def)

lemma shortest_update:
  assumes sh: "shortest s r c L p b m" and d: "conv c s r = d" "d \<noteq> 0"
  defines "N \<equiv> if 2 * L \<le> r then Suc r - L else L"
  shows "generates (bm_update c (d / b) p m) N s (Suc r)" and "N \<le> Suc r"
proof -
  let ?c = "bm_update c (d / b) p m"
  have g: "generates c L s r" and L: "L \<le> r" and b: "b \<noteq> 0" using sh by (auto simp: shortest_def)
  have N: "L \<le> N" "Suc r - L \<le> N" using L by (auto simp: N_def)
  show "N \<le> Suc r" using L by (auto simp: N_def)
  consider (zeros) "L = 0" "p = unit_seq" "m = Suc r"
    | (failed) "0 < m" "m \<le> r" "L \<le> Suc (r - m)" "generates p (Suc (r - m) - L) s (r - m)"
        "conv p s (r - m) = b"
    using sh by (auto simp: shortest_def)
  then show "generates ?c N s (Suc r)"
  proof cases
    case zeros
    then have "N = Suc r" by (simp add: N_def)
    moreover have "?c 0 = 1" using generatesD(1) [OF g] zeros by (simp add: bm_update_def delay_def)
    moreover have "deg_le ?c (Suc r)"
      by (rule bm_update_deg [OF generatesD(2) [OF g], of _ 0]) (simp_all add: zeros)
    ultimately show ?thesis by (auto simp: generates_def)
  next
    case failed
    have "deg_le ?c N"
      using N failed
      by (intro bm_update_deg [OF generatesD(2) [OF g] generatesD(2) [OF failed(4)]]) auto
    moreover have "?c 0 = 1" using generatesD(1) [OF g] failed(1) by (simp add: bm_update_def delay_def)
    moreover have "conv ?c s j = 0" if "N \<le> j" "j < Suc r" for j
    proof (cases "j = r")
      case True
      then show ?thesis using failed d b by (simp add: conv_bm_update)
    next
      case False
      then have "conv c s j = 0" using that N by (intro generatesD(3) [OF g]) auto
      moreover have "\<not> j < m \<Longrightarrow> conv p s (j - m) = 0"
        using that N False failed(1-3) by (intro generatesD(3) [OF failed(4)]) auto
      ultimately show ?thesis by (simp add: conv_bm_update)
    qed
    ultimately show ?thesis by (auto simp: generates_def)
  qed
qed

lemma shortest_longer:
  assumes "shortest s r c L p b m" and "conv c s r = d" "d \<noteq> 0" and "2 * L \<le> r"
  shows "shortest s (Suc r) (bm_update c (d / b) p m) (Suc r - L) c d 1"
  using shortest_update [OF assms(1-3)] assms by (auto simp: shortest_def)

lemma shortest_same:
  assumes "shortest s r c L p b m" and "conv c s r = d" "d \<noteq> 0" and "\<not> 2 * L \<le> r"
  shows "shortest s (Suc r) (bm_update c (d / b) p m) L p b (Suc m)"
  using shortest_update [OF assms(1-3)] assms by (auto simp: shortest_def)

lemma shortest_bound:
  assumes "generates c L s r" and "conv c s r \<noteq> 0" and "generates d t s n" "r < n" and "L \<le> t"
  shows "(if 2 * L \<le> r then Suc r - L else L) \<le> t"
proof -
  have "generates d t s (Suc r)" using assms(3,4) by (auto simp: generates_def)
  then show ?thesis using massey [OF assms(1,2)] assms(5) by fastforce
qed

subsection \<open>The shortest recurrence of a sum of powers\<close>

lemma prod_list_diff_zero: "(\<Prod>x\<leftarrow>xs. z - x) = 0 \<longleftrightarrow> z \<in> set (xs :: 'a::field list)"
  by (induction xs) auto

lemma prodlin_generates:
  assumes "set xs = K" and "distinct xs" and "\<And>j. j < n \<Longrightarrow> s j = psum W K j"
  shows "generates (prodlin xs) (length xs) s n"
proof -
  have "conv (prodlin xs) s j = 0" if "length xs \<le> j" "j < n" for j
  proof -
    have "conv (prodlin xs) s j = conv (prodlin xs) (psum W K) j"
      unfolding conv_def using that assms(3) by (intro sum.cong) auto
    also have "\<dots> = 0"
      unfolding conv_prodlin_psum [OF assms(1,2)]
    proof (rule sum.neutral, rule ballI)
      fix x assume x: "x \<in> K"
      then have "length (remove1 x xs) < j"
        using that(1) assms(1) length_pos_if_in_set [of x xs]
        by (simp add: length_remove1 del: length_greater_0_conv)
      then show "W x * prodlin (remove1 x xs) j = 0" using deg_leD [OF deg_le_prodlin [of "remove1 x xs"]] by simp
    qed
    finally show ?thesis .
  qed
  then show ?thesis by (simp add: generates_def deg_le_prodlin)
qed

theorem recurrence_unique:
  assumes xs: "set xs = K" "distinct xs" and s: "\<And>j. j < n \<Longrightarrow> s j = psum W K j"
    and W: "\<And>x. x \<in> K \<Longrightarrow> W x \<noteq> 0" and n: "2 * length xs \<le> n"
    and c: "generates c L s n" and L: "L \<le> length xs"
  shows "L = length xs" and "c = prodlin xs"
proof -
  have fin: "finite K" and card: "card K = length xs" using xs distinct_card by auto
  have zero: "rval c L x = 0" if x: "x \<in> K" for x
  proof -
    have "psum (\<lambda>x. W x * rval c L x) K j = 0" if "j < card K" for j
    proof -
      have "0 = conv c s (L + j)" using that card n L by (subst generatesD(3) [OF c]) auto
      also have "\<dots> = (\<Sum>i\<le>L. c i * (\<Sum>x\<in>K. W x * x ^ (L + j - i)))"
        using that card n L
        by (simp add: conv_deg [OF generatesD(2) [OF c]] s psum_def)
      also have "\<dots> = (\<Sum>i\<le>L. \<Sum>x\<in>K. W x * (c i * x ^ (L - i)) * x ^ j)"
        unfolding sum_distrib_left by (intro sum.cong) (simp_all add: mult_ac add.commute flip: power_add)
      also have "\<dots> = psum (\<lambda>x. W x * rval c L x) K j"
        unfolding psum_def rval_def sum_distrib_left sum_distrib_right by (rule sum.swap)
      finally show ?thesis by simp
    qed
    then have "W x * rval c L x = 0" using psum_zero [OF fin] x by blast
    then show ?thesis using W [OF x] by simp
  qed
  have rev: "rval f d z = val (\<lambda>i. f (d - i)) d z" for f :: "nat \<Rightarrow> 'a" and d z
    unfolding rval_def val_def
    by (rule sum.reindex_bij_witness [of _ "\<lambda>i. d - i" "\<lambda>i. d - i"]) auto
  show len: "L = length xs"
  proof (rule ccontr)
    assume "L \<noteq> length xs"
    then have "c (L - L) = 0"
      using few_roots [OF fin, of L "\<lambda>i. c (L - i)" L] zero L card rev by auto
    then show False using generatesD(1) [OF c] by simp
  qed
  show "c = prodlin xs"
  proof
    fix i
    let ?e = "\<lambda>i. c (L - i) - prodlin xs (L - i)"
    have e0: "?e L = 0" using generatesD(1) [OF c] by simp
    have ev: "val ?e L x = 0" if x: "x \<in> K" for x
    proof -
      have "val ?e L x = rval c L x - rval (prodlin xs) L x"
        unfolding rev by (simp add: val_def left_diff_distrib sum_subtractf)
      also have "rval (prodlin xs) L x = 0"
        using x xs(1) by (simp add: len rval_prodlin prod_list_diff_zero)
      finally show ?thesis using zero [OF x] by simp
    qed
    have low: "?e j = 0" if "j \<le> L" for j
    proof (cases L)
      case 0
      then show ?thesis using e0 that by simp
    next
      case (Suc k)
      have "val ?e L x = val ?e k x" for x using e0 Suc by (simp add: val_def)
      then have "j \<le> k \<Longrightarrow> ?e j = 0"
        using few_roots [OF fin, of k ?e j] ev card len Suc by auto
      then show ?thesis using e0 Suc that by (cases "j = L") auto
    qed
    show "c i = prodlin xs i"
    proof (cases "i \<le> L")
      case True
      then show ?thesis using low [of "L - i"] by simp
    next
      case False
      then show ?thesis
        using deg_leD [OF generatesD(2) [OF c]] deg_leD [OF deg_le_prodlin [of xs]] len by simp
    qed
  qed
qed

end
