(* ===== verification/Rs16.thy ===== *)
theory Rs16
  imports Gf16 Recurrence
begin

text \<open>
  The Reed-Solomon decoder of the parity repair (\<^verbatim>\<open>src/repair/rs16.c\<close>): erasure locator,
  Berlekamp-Massey, Chien search, Forney, and the re-verification of what is handed back. An
  array is the list of its elements. The result is the list of the pairs (data index, mask) that
  the code leaves in \<open>positions\<close> and \<open>values\<close>; null pointers are not modelled. Proved: what is
  handed back always reproduces the syndromes it was given, and every pattern within the code's
  capacity - errors and erasures - is found exactly.
\<close>

section \<open>The code\<close>

definition max_npar :: nat where "max_npar = 32"
definition bm_scratch :: nat where "bm_scratch = 2 * max_npar + 2"

definition poly_mul :: "u16 list \<Rightarrow> nat \<Rightarrow> u16 list \<Rightarrow> nat \<Rightarrow> nat \<Rightarrow> u16 list" where
  "poly_mul a da b db limit =
     fold (\<lambda>i p. if a ! i = 0 then p
         else fold (\<lambda>j p. p[i + j := p ! (i + j) XOR adsc_gf16_mul (a ! i) (b ! j)])
           [0..<min (Suc db) (limit - i)] p)
       [0..<min (Suc da) limit] (replicate limit 0)"

definition poly_eval :: "u16 list \<Rightarrow> nat \<Rightarrow> u16 \<Rightarrow> u16" where
  "poly_eval p deg x = fold (\<lambda>i acc. adsc_gf16_mul acc x XOR p ! i) (rev [0..<deg]) (p ! deg)"

definition poly_deriv_eval :: "u16 list \<Rightarrow> nat \<Rightarrow> u16 \<Rightarrow> u16" where
  "poly_deriv_eval p deg x = fst (fold
     (\<lambda>d (acc, xp). (if odd d then acc XOR adsc_gf16_mul (p ! d) xp else acc, adsc_gf16_mul xp x))
     [1..<Suc deg] (0, 1))"

record bm_state =
  bm_c :: "u16 list"
  bm_prev :: "u16 list"
  bm_b :: u16
  bm_L :: nat
  bm_m :: nat

definition bm_discrepancy :: "u16 list \<Rightarrow> nat \<Rightarrow> bm_state \<Rightarrow> u16" where
  "bm_discrepancy syn r st =
     fold (\<lambda>i d. d XOR adsc_gf16_mul (bm_c st ! i) (syn ! (r - i))) [1..<Suc (bm_L st)] (syn ! r)"

definition bm_step :: "u16 list \<Rightarrow> nat \<Rightarrow> bm_state \<Rightarrow> bm_state" where
  "bm_step syn r st =
     (let d = bm_discrepancy syn r st; m = bm_m st in
      if d = 0 then st\<lparr>bm_m := Suc m\<rparr>
      else let coefficient = adsc_gf16_div d (bm_b st);
          c = fold (\<lambda>i c. if bm_prev st ! i \<noteq> 0
              then c[i + m := c ! (i + m) XOR adsc_gf16_mul coefficient (bm_prev st ! i)] else c)
            [0..<bm_scratch - m] (bm_c st)
        in if 2 * bm_L st \<le> r
           then st\<lparr>bm_c := c, bm_L := r + 1 - bm_L st, bm_prev := bm_c st, bm_b := d, bm_m := 1\<rparr>
           else st\<lparr>bm_c := c, bm_m := Suc m\<rparr>)"

definition bm_start :: bm_state where
  "bm_start = \<lparr>bm_c = 1 # replicate (bm_scratch - 1) 0, bm_prev = 1 # replicate (bm_scratch - 1) 0,
     bm_b = 1, bm_L = 0, bm_m = 1\<rparr>"

definition berlekamp_massey :: "u16 list \<Rightarrow> nat \<Rightarrow> u16 list \<times> nat" where
  "berlekamp_massey syn nsyn =
     (let st = fold (bm_step syn) [0..<nsyn] bm_start in (take (Suc (bm_L st)) (bm_c st), bm_L st))"

definition rs16_syndrome :: "u16 list \<Rightarrow> nat \<Rightarrow> nat \<Rightarrow> u16" where
  "rs16_syndrome v n r = fold (\<lambda>j acc. if v ! j = 0 then acc
      else acc XOR (if r \<noteq> 0 then adsc_gf16_mul_pow (v ! j) (r * (n - 1 - j)) else v ! j)) [0..<n] 0"

definition adsc_rs16_syndromes :: "u16 list \<Rightarrow> nat \<Rightarrow> nat \<Rightarrow> u16 list res" where
  "adsc_rs16_syndromes v n npar =
     (if n = 0 \<or> n > 65535 then Inl ERR_INVAL
      else if npar = 0 \<or> npar > max_npar then Inl ERR_INVAL
      else Inr (map (rs16_syndrome v n) [0..<npar]))"

text \<open>Gamma, and its degree.\<close>

definition gamma_step :: "nat \<Rightarrow> nat \<Rightarrow> u16 list \<times> nat \<Rightarrow> u16 list \<times> nat" where
  "gamma_step n_data e = (\<lambda>(gamma, deg). let x = adsc_gf16_pow (n_data - 1 - e) in
     (fold (\<lambda>d g. g[d := g ! d XOR adsc_gf16_mul (g ! (d - 1)) x]) (rev [1..<deg + 2]) gamma, Suc deg))"

definition erasure_locator :: "nat \<Rightarrow> nat list \<Rightarrow> u16 list \<times> nat" where
  "erasure_locator n_data erasures = fold (gamma_step n_data) erasures (1 # replicate max_npar 0, 0)"

text \<open>The Chien search; \<open>None\<close> when there are more roots than the degree allows.\<close>

definition chien_step :: "nat \<Rightarrow> u16 list \<Rightarrow> u16 list" where
  "chien_step deg reg = fold (\<lambda>d g. g[d := adsc_gf16_mul_pow (g ! d) (65535 - d)]) [1..<Suc deg] reg"

fun chien :: "nat \<Rightarrow> nat list \<Rightarrow> u16 list \<Rightarrow> nat list \<Rightarrow> nat list option" where
  "chien deg [] reg roots = Some roots"
| "chien deg (k # ks) reg roots =
     (if fold (\<lambda>d sum. sum XOR reg ! d) [0..<Suc deg] 0 = 0
      then if length roots = deg then None else chien deg ks (chien_step deg reg) (roots @ [k])
      else chien deg ks (chien_step deg reg) roots)"

text \<open>Forney: the magnitude at one root, \<open>None\<close> on a repeated root.\<close>

definition forney :: "u16 list \<Rightarrow> u16 list \<Rightarrow> nat \<Rightarrow> nat \<Rightarrow> nat \<Rightarrow> u16 option" where
  "forney omega lambda deg npar k =
     (let x = adsc_gf16_pow k; xinv = adsc_gf16_pow (65535 - k);
          numerator = poly_eval omega (npar - 1) xinv;
          denominator = poly_deriv_eval lambda deg xinv
      in if denominator = 0 then None
         else Some (adsc_gf16_mul x (adsc_gf16_div numerator denominator)))"

definition errata_syndrome :: "(nat \<times> u16) list \<Rightarrow> nat \<Rightarrow> u16" where
  "errata_syndrome errata r =
     fold (\<lambda>(k, m) acc. if m \<noteq> 0 then acc XOR adsc_gf16_mul_pow m (r * k) else acc) errata 0"

text \<open>What is emitted for the roots and magnitudes found: non-zero ones, oldest symbol first.\<close>

definition emit_errata :: "nat \<Rightarrow> (nat \<times> u16) list \<Rightarrow> (nat \<times> u16) list" where
  "emit_errata n_data errata =
     map (\<lambda>(k, m). (n_data - 1 - k, m)) (filter (\<lambda>(k, m). m \<noteq> 0) (rev errata))"

definition solve_errata ::
    "nat \<Rightarrow> u16 list \<Rightarrow> nat \<Rightarrow> u16 list \<Rightarrow> nat \<Rightarrow> nat \<Rightarrow> (nat \<times> u16) list res" where
  "solve_errata npar err_syn n_data lambda deg out_cap =
     (let omega = poly_mul lambda deg err_syn (npar - 1) npar in
      case chien deg [0..<n_data] (take (Suc deg) lambda) [] of
        None \<Rightarrow> Inl ERR_NOTFOUND
      | Some roots \<Rightarrow>
          if length roots \<noteq> deg then Inl ERR_NOTFOUND
          else case those (map (forney omega lambda deg npar) roots) of
              None \<Rightarrow> Inl ERR_NOTFOUND
            | Some magnitude \<Rightarrow>
                let errata = zip roots magnitude in
                if \<not> list_all (\<lambda>r. errata_syndrome errata r = err_syn ! r) [0..<npar]
                then Inl ERR_NOTFOUND
                else if out_cap < length (filter (\<lambda>(k, m). m \<noteq> 0) errata) then Inl ERR_INVAL
                else Inr (emit_errata n_data errata))"

definition decode_dirty ::
    "nat \<Rightarrow> u16 list \<Rightarrow> nat \<Rightarrow> nat list \<Rightarrow> nat \<Rightarrow> (nat \<times> u16) list res" where
  "decode_dirty npar err_syn n_data erasures out_cap =
     (let nerasures = length erasures;
          (gamma, deg_gamma) = erasure_locator n_data erasures;
          modified = poly_mul gamma deg_gamma err_syn (npar - 1) npar;
          (sigma, len) = berlekamp_massey (drop nerasures modified) (npar - nerasures);
          deg = len + deg_gamma;
          lambda = poly_mul sigma len gamma deg_gamma (Suc deg)
      in if 2 * len + nerasures > npar then Inl ERR_NOTFOUND
         else if deg \<noteq> 0 \<and> lambda ! deg = 0 then Inl ERR_NOTFOUND
         else if deg = 0 then Inl ERR_NOTFOUND
         else solve_errata npar err_syn n_data lambda deg out_cap)"

definition adsc_rs16_decode ::
    "nat \<Rightarrow> u16 list \<Rightarrow> nat \<Rightarrow> nat list \<Rightarrow> nat \<Rightarrow> (nat \<times> u16) list res" where
  "adsc_rs16_decode npar err_syn n_data erasures out_cap =
     (if npar = 0 \<or> npar > max_npar then Inl ERR_INVAL
      else if n_data = 0 \<or> n_data > 65535 then Inl ERR_INVAL
      else if list_ex (\<lambda>e. e \<ge> n_data) erasures then Inl ERR_INVAL
      else if list_all (\<lambda>r. err_syn ! r = 0) [0..<npar] then Inr []
      else if length erasures > npar then Inl ERR_NOTFOUND
      else if \<not> distinct erasures then Inl ERR_INVAL
      else decode_dirty npar err_syn n_data erasures out_cap)"

section \<open>Array loops as polynomials\<close>

lemma length_fold_update:
  "(\<And>j p. length (f j p) = length p) \<Longrightarrow> length (fold f js p) = length p"
  by (induction js arbitrary: p) simp_all

lemma fold_update_xor:
  fixes p :: "'a::len word list"
  assumes "i + k \<le> length p"
  shows "fold (\<lambda>j p. p[i + j := p ! (i + j) XOR h j]) [0..<k] p ! n =
    p ! n XOR (if i \<le> n \<and> n < i + k then h (n - i) else 0)"
  using assms
proof (induction k)
  case (Suc k)
  let ?q = "fold (\<lambda>j p. p[i + j := p ! (i + j) XOR h j]) [0..<k] p"
  have "length ?q = length p" by (rule length_fold_update) simp
  then show ?case using Suc by (cases "n = i + k") (auto simp: nth_list_update)
qed auto

definition poly_of :: "u16 list \<Rightarrow> nat \<Rightarrow> (nat \<Rightarrow> gf16) \<Rightarrow> bool" where
  "poly_of p d f \<longleftrightarrow> (\<forall>i \<le> d. gf (p ! i) = f i)"

lemma poly_ofD: "poly_of p d f \<Longrightarrow> i \<le> d \<Longrightarrow> gf (p ! i) = f i"
  by (simp add: poly_of_def)

lemma length_poly_mul [simp]: "length (poly_mul a da b db limit) = limit"
  unfolding poly_mul_def by (subst length_fold_update) (auto intro!: length_fold_update)

lemma poly_mul_nth:
  assumes "n < limit"
  shows "gf (poly_mul a da b db limit ! n) =
    (\<Sum>i\<le>n. if i \<le> da \<and> n - i \<le> db then gf (a ! i) * gf (b ! (n - i)) else 0)"
proof -
  let ?inner = "\<lambda>i p. fold (\<lambda>j p. p[i + j := p ! (i + j) XOR adsc_gf16_mul (a ! i) (b ! j)])
      [0..<min (Suc db) (limit - i)] p"
  let ?f = "\<lambda>i p. if a ! i = 0 then p else ?inner i p"
  let ?t = "\<lambda>i. if n - i \<le> db then gf (a ! i) * gf (b ! (n - i)) else 0"
  have len: "length (fold ?f is p) = length p" for "is" p
    by (rule length_fold_update) (auto intro: length_fold_update)
  have "gf (fold ?f [0..<k] (replicate limit 0) ! n) = (\<Sum>i<k. if i \<le> n then ?t i else 0)"
    if "k \<le> limit" for k
    using that
  proof (induction k)
    case (Suc k)
    let ?p = "fold ?f [0..<k] (replicate limit 0)"
    have "?inner k ?p ! n = ?p ! n XOR
        (if k \<le> n \<and> n < k + min (Suc db) (limit - k) then adsc_gf16_mul (a ! k) (b ! (n - k)) else 0)"
      using Suc.prems by (intro fold_update_xor) (simp add: len)
    moreover have "k \<le> n \<Longrightarrow> n < k + min (Suc db) (limit - k) \<longleftrightarrow> n - k \<le> db"
      using assms by auto
    ultimately have "gf (?f k ?p ! n) = gf (?p ! n) + (if k \<le> n then ?t k else 0)" by auto
    then show ?case using Suc by simp
  qed (use assms in simp)
  from this [of "min (Suc da) limit"]
  have "gf (poly_mul a da b db limit ! n) = (\<Sum>i<min (Suc da) limit. if i \<le> n then ?t i else 0)"
    by (simp add: poly_mul_def)
  also have "\<dots> = (\<Sum>i\<le>n. if i \<le> da then ?t i else 0)"
    using assms by (intro sum.mono_neutral_cong) auto
  finally show ?thesis by (simp only: if_if_eq_conj)
qed

lemma poly_mul_conv:
  assumes "poly_of a da f" "deg_le f da" "poly_of b db g" "deg_le g db \<or> limit \<le> Suc db" "n < limit"
  shows "gf (poly_mul a da b db limit ! n) = conv f g n"
  unfolding poly_mul_nth [OF assms(5)] conv_def
  using assms by (intro sum.cong) (auto simp: poly_of_def deg_le_def not_le)

lemma poly_eval_val: "gf (poly_eval p deg x) = val (\<lambda>i. gf (p ! i)) deg (gf x)"
proof -
  have "gf (fold (\<lambda>i acc. adsc_gf16_mul acc x XOR p ! i) (rev [0..<n]) acc) =
      gf acc * gf x ^ n + (\<Sum>i<n. gf (p ! i) * gf x ^ i)" for n acc
    by (induction n arbitrary: acc) (simp_all add: algebra_simps)
  then show ?thesis
    unfolding poly_eval_def val_def by (simp add: lessThan_Suc_atMost [symmetric])
qed

lemma poly_deriv_eval_sum:
  "gf (poly_deriv_eval p deg x) =
     (\<Sum>d<deg. if even d then gf (p ! Suc d) * gf x ^ d else 0)"
proof -
  let ?F = "\<lambda>n. fold (\<lambda>d (acc, xp). (if odd d then acc XOR adsc_gf16_mul (p ! d) xp else acc,
      adsc_gf16_mul xp x)) [1..<Suc n] (0, 1)"
  have "gf (snd (?F n)) = gf x ^ n \<and>
      gf (fst (?F n)) = (\<Sum>d<n. if even d then gf (p ! Suc d) * gf x ^ d else 0)" for n
    by (induction n) (auto simp: split_beta mult.commute)
  then show ?thesis by (simp add: poly_deriv_eval_def)
qed

section \<open>Berlekamp-Massey\<close>

definition word_seq :: "u16 list \<Rightarrow> nat \<Rightarrow> gf16" where
  "word_seq s n = gf (s ! n)"

definition bm_models :: "u16 list \<Rightarrow> nat \<Rightarrow> bm_state \<Rightarrow> (nat \<Rightarrow> gf16) \<Rightarrow> (nat \<Rightarrow> gf16) \<Rightarrow> bool" where
  "bm_models syn r st c p \<longleftrightarrow> length (bm_c st) = bm_scratch \<and> length (bm_prev st) = bm_scratch \<and>
     poly_of (bm_c st) (bm_scratch - 1) c \<and> poly_of (bm_prev st) (bm_scratch - 1) p \<and>
     shortest (word_seq syn) r c (bm_L st) p (gf (bm_b st)) (bm_m st)"

lemma bm_scratch_pos [simp]: "0 < bm_scratch" "Suc (bm_scratch - 1) = bm_scratch"
  by (simp_all add: bm_scratch_def)

lemma bm_discrepancy_conv:
  assumes "bm_models syn r st c p" and "r < bm_scratch"
  shows "gf (bm_discrepancy syn r st) = conv c (word_seq syn) r"
proof -
  have sh: "generates c (bm_L st) (word_seq syn) r" "bm_L st \<le> r"
    using assms(1) by (auto simp: bm_models_def shortest_def)
  let ?f = "\<lambda>i. gf (bm_c st ! i) * gf (syn ! (r - i))"
  have "gf (fold (\<lambda>i d. d XOR adsc_gf16_mul (bm_c st ! i) (syn ! (r - i))) [1..<Suc n] d) =
      gf d + (\<Sum>i<n. ?f (Suc i))" for n d
    by (induction n) (simp_all add: add.assoc)
  then have "gf (bm_discrepancy syn r st) = word_seq syn r + (\<Sum>i<bm_L st. ?f (Suc i))"
    by (simp add: bm_discrepancy_def word_seq_def)
  also have "\<dots> = word_seq syn r + (\<Sum>i<bm_L st. c (Suc i) * word_seq syn (r - Suc i))"
    using assms sh(2) by (auto simp: bm_models_def poly_of_def word_seq_def intro!: sum.cong)
  also have "\<dots> = (\<Sum>i\<le>bm_L st. c i * word_seq syn (r - i))"
    using generatesD(1) [OF sh(1)] by (simp add: sum.atMost_shift)
  also have "\<dots> = conv c (word_seq syn) r"
    by (rule conv_deg [symmetric, OF generatesD(2) [OF sh(1)] sh(2)])
  finally show ?thesis .
qed

text \<open>The update loop of the code, with its test for zero and its bound on the index.\<close>

lemma bm_update_loop:
  fixes m :: nat and k :: u16
  assumes "length c = bm_scratch" "poly_of c (bm_scratch - 1) cf" "poly_of p (bm_scratch - 1) pf"
  defines "c' \<equiv> fold (\<lambda>i c. if p ! i \<noteq> 0
      then c[i + m := c ! (i + m) XOR adsc_gf16_mul k (p ! i)] else c) [0..<bm_scratch - m] c"
  shows "length c' = bm_scratch" and "poly_of c' (bm_scratch - 1) (bm_update cf (gf k) pf m)"
proof -
  have c': "c' = fold (\<lambda>i c. c[m + i := c ! (m + i) XOR adsc_gf16_mul k (p ! i)]) [0..<bm_scratch - m] c"
    unfolding c'_def by (intro fold_cong) (auto simp: fun_eq_iff add.commute)
  show "length c' = bm_scratch" unfolding c' by (subst length_fold_update) (auto simp: assms(1))
  show "poly_of c' (bm_scratch - 1) (bm_update cf (gf k) pf m)"
    unfolding poly_of_def
  proof (intro allI impI)
    fix i assume i: "i \<le> bm_scratch - 1"
    show "gf (c' ! i) = bm_update cf (gf k) pf m i"
    proof (cases "m \<le> i")
      case True
      then have "c' ! i = c ! i XOR adsc_gf16_mul k (p ! (i - m))"
        using i assms(1) unfolding c' by (subst fold_update_xor) (auto simp: bm_scratch_def max_npar_def)
      then show ?thesis
        using True i poly_ofD [OF assms(2) i] poly_ofD [OF assms(3), of "i - m"]
        by (simp add: bm_update_def delay_def)
    next
      case False
      then have "c' ! i = c ! i"
        using assms(1) unfolding c'
        by (cases "m \<le> bm_scratch") (auto simp: fold_update_xor)
      then show ?thesis using False poly_ofD [OF assms(2) i] by (simp add: bm_update_def delay_def)
    qed
  qed
qed

lemma bm_step_models:
  assumes b: "bm_models syn r st c p" and r: "r < bm_scratch"
  shows "\<exists>c' p'. bm_models syn (Suc r) (bm_step syn r st) c' p'"
proof (cases "bm_discrepancy syn r st = 0")
  case True
  then have "conv c (word_seq syn) r = 0" using bm_discrepancy_conv [OF b r] by simp
  then have "bm_models syn (Suc r) (bm_step syn r st) c p"
    using b True by (auto simp: bm_models_def bm_step_def Let_def intro: shortest_zero)
  then show ?thesis by blast
next
  case False
  let ?d = "bm_discrepancy syn r st"
  let ?k = "adsc_gf16_div ?d (bm_b st)"
  have sh: "shortest (word_seq syn) r c (bm_L st) p (gf (bm_b st)) (bm_m st)"
    using b by (simp add: bm_models_def)
  have d: "conv c (word_seq syn) r = gf ?d" "gf ?d \<noteq> 0"
    by (rule bm_discrepancy_conv [OF b r, symmetric]) (use False in simp)
  have bb: "length (bm_c st) = bm_scratch" "poly_of (bm_c st) (bm_scratch - 1) c"
      "poly_of (bm_prev st) (bm_scratch - 1) p" "length (bm_prev st) = bm_scratch"
    using b by (simp_all add: bm_models_def)
  note loop = bm_update_loop [OF bb(1-3), where m = "bm_m st" and k = ?k]
  show ?thesis
  proof (cases "2 * bm_L st \<le> r")
    case True
    have "bm_models syn (Suc r) (bm_step syn r st) (bm_update c (gf ?k) p (bm_m st)) c"
      using False True loop bb shortest_longer [OF sh d True]
      by (simp add: bm_models_def bm_step_def Let_def Suc_diff_le)
    then show ?thesis by blast
  next
    case long: False
    have "bm_models syn (Suc r) (bm_step syn r st) (bm_update c (gf ?k) p (bm_m st)) p"
      using False long loop bb shortest_same [OF sh d long]
      by (simp add: bm_models_def bm_step_def Let_def)
    then show ?thesis by blast
  qed
qed

lemma bm_step_bound:
  assumes b: "bm_models syn r st c p" and r: "r < bm_scratch"
    and g: "generates d t (word_seq syn) n" "r < n" and L: "bm_L st \<le> t"
  shows "bm_L (bm_step syn r st) \<le> t"
proof (cases "bm_discrepancy syn r st = 0")
  case False
  then have "conv c (word_seq syn) r \<noteq> 0" using bm_discrepancy_conv [OF b r] by (metis gf_eq_0)
  then show ?thesis
    using shortest_bound [OF _ _ g L, of c] b False
    by (auto simp: bm_models_def shortest_def bm_step_def Let_def split: if_splits)
qed (use L in \<open>simp add: bm_step_def Let_def\<close>)

theorem berlekamp_massey_shortest:
  assumes "nsyn < bm_scratch"
  obtains c where "generates c (snd (berlekamp_massey syn nsyn)) (word_seq syn) nsyn"
    and "snd (berlekamp_massey syn nsyn) \<le> nsyn"
    and "poly_of (fst (berlekamp_massey syn nsyn)) (snd (berlekamp_massey syn nsyn)) c"
    and "\<And>d t. generates d t (word_seq syn) nsyn \<Longrightarrow> snd (berlekamp_massey syn nsyn) \<le> t"
proof -
  let ?st = "\<lambda>n. fold (bm_step syn) [0..<n] bm_start"
  have run: "(\<exists>c p. bm_models syn n (?st n) c p) \<and>
      (\<forall>d t. generates d t (word_seq syn) nsyn \<longrightarrow> bm_L (?st n) \<le> t)" if "n \<le> nsyn" for n
    using that
  proof (induction n)
    case 0
    have "poly_of (1 # replicate (bm_scratch - 1) 0) (bm_scratch - 1) unit_seq"
      by (auto simp: poly_of_def unit_seq_def nth_Cons split: nat.split)
    then have "bm_models syn 0 bm_start unit_seq unit_seq"
      by (simp add: bm_models_def bm_start_def shortest_init [simplified])
    then show ?case by (auto simp: bm_start_def)
  next
    case (Suc n)
    then obtain c p where "bm_models syn n (?st n) c p" by auto
    then show ?case
      using Suc bm_step_models [of syn n "?st n" c p] bm_step_bound [of syn n "?st n" c p] assms
      by simp
  qed
  then obtain c p where b: "bm_models syn nsyn (?st nsyn) c p" by blast
  then have "bm_L (?st nsyn) \<le> nsyn" by (simp add: bm_models_def shortest_def)
  then show thesis
    using that [of c] run [of nsyn] b assms
    by (auto simp: berlekamp_massey_def Let_def bm_models_def shortest_def poly_of_def)
qed

section \<open>Erasure locator, search and magnitudes\<close>

abbreviation loc :: "nat \<Rightarrow> gf16" where "loc k \<equiv> gf 2 ^ k"

lemma fold_lin_down:
  "n \<le> length g \<Longrightarrow>
   fold (\<lambda>d g. g[d := g ! d XOR adsc_gf16_mul (g ! (d - 1)) x]) (rev [1..<n]) g ! i =
     (if 1 \<le> i \<and> i < n then g ! i XOR adsc_gf16_mul (g ! (i - 1)) x else g ! i)"
proof (induction n arbitrary: g)
  case (Suc n)
  show ?case
  proof (cases n)
    case (Suc k)
    then show ?thesis
      using Suc.prems Suc.IH [of "g[n := g ! n XOR adsc_gf16_mul (g ! (n - 1)) x]"]
      by (auto simp: nth_list_update less_Suc_eq)
  qed auto
qed simp

lemma erasure_locator_spec:
  assumes "length es \<le> max_npar"
  shows "\<exists>g. erasure_locator n es = (g, length es) \<and> length g = Suc max_npar \<and>
    poly_of g max_npar (prodlin (rev (map (\<lambda>e. loc (n - 1 - e)) es)))"
  using assms
proof (induction es rule: rev_induct)
  case Nil
  have "poly_of (1 # replicate max_npar 0) max_npar unit_seq"
    by (auto simp: poly_of_def unit_seq_def nth_Cons split: nat.split)
  then show ?case by (simp add: erasure_locator_def)
next
  case (snoc e es)
  let ?f = "prodlin (rev (map (\<lambda>e. loc (n - 1 - e)) es))"
  from snoc obtain g where g: "erasure_locator n es = (g, length es)" "length g = Suc max_npar"
    "poly_of g max_npar ?f" by auto
  let ?h = "fold (\<lambda>d g. g[d := g ! d XOR adsc_gf16_mul (g ! (d - 1)) (adsc_gf16_pow (n - 1 - e))])
      (rev [1..<length es + 2]) g"
  have "length ?h = Suc max_npar" using g(2) by (subst length_fold_update) auto
  moreover have "gf (?h ! i) = lin (loc (n - 1 - e)) ?f i" if "i \<le> max_npar" for i
  proof (cases i)
    case 0
    then show ?thesis using g snoc.prems poly_ofD [OF g(3), of 0]
      by (subst fold_lin_down) auto
  next
    case (Suc k)
    have "length es < k \<Longrightarrow> ?f k = 0" "length es < i \<Longrightarrow> ?f i = 0"
      using deg_leD [OF deg_le_prodlin [of "rev (map (\<lambda>e. loc (n - 1 - e)) es)"]] by simp_all
    then show ?thesis using that g snoc.prems poly_ofD [OF g(3), of i] poly_ofD [OF g(3), of k] Suc
      by (subst fold_lin_down) (auto simp: mult.commute)
  qed
  moreover have "erasure_locator n (es @ [e]) = (?h, length (es @ [e]))"
    using g(1) by (simp add: erasure_locator_def gamma_step_def Let_def)
  ultimately show ?case by (auto simp: poly_of_def)
qed

lemma loc_neg: "d \<le> 65535 \<Longrightarrow> loc (65535 - d) = inverse (gf 2) ^ d"
proof -
  assume d: "d \<le> 65535"
  have "loc (65535 - d) * loc d = 1" using d by (simp flip: power_add)
  then show ?thesis by (simp add: power_inverse field_simps inverse_eq_divide)
qed

lemma chien_step_spec:
  assumes "length reg = Suc deg" and "deg \<le> max_npar"
    and "poly_of reg deg (\<lambda>d. f d * inverse (gf 2) ^ (d * k))"
  shows "length (chien_step deg reg) = Suc deg"
    and "poly_of (chien_step deg reg) deg (\<lambda>d. f d * inverse (gf 2) ^ (d * Suc k))"
proof -
  show "length (chien_step deg reg) = Suc deg"
    unfolding chien_step_def by (subst length_fold_update) (auto simp: assms)
  have "fold (\<lambda>d g. g[d := adsc_gf16_mul_pow (g ! d) (65535 - d)]) [1..<Suc n] reg ! d =
      (if 1 \<le> d \<and> d \<le> n then adsc_gf16_mul_pow (reg ! d) (65535 - d) else reg ! d)"
    if "n \<le> deg" for n d
    using that
  proof (induction n)
    case (Suc n)
    let ?q = "fold (\<lambda>d g. g[d := adsc_gf16_mul_pow (g ! d) (65535 - d)]) [1..<Suc n] reg"
    have "length ?q = Suc deg" by (subst length_fold_update) (auto simp: assms(1))
    then show ?case using Suc by (auto simp: nth_list_update)
  qed simp
  from this [of deg] show "poly_of (chien_step deg reg) deg (\<lambda>d. f d * inverse (gf 2) ^ (d * Suc k))"
    using assms by (auto simp: chien_step_def poly_of_def loc_neg power_add max_npar_def mult_ac Suc_le_eq)
qed

lemma chien_spec:
  assumes "length reg = Suc deg" and "deg \<le> max_npar"
    and "poly_of reg deg (\<lambda>d. f d * inverse (gf 2) ^ (d * k))" and "length roots \<le> deg"
  shows "chien deg [k..<n] reg roots =
    (let rs = roots @ filter (\<lambda>k. val f deg (inverse (gf 2) ^ k) = 0) [k..<n]
     in if deg < length rs then None else Some rs)"
  using assms
proof (induction "[k..<n]" arbitrary: k reg roots)
  case (Cons x ks)
  have "k < n" using Cons.hyps(2) by (cases "k < n") simp_all
  then have k: "[k..<n] = k # [Suc k..<n]" by (rule upt_conv_Cons)
  then have ks: "ks = [Suc k..<n]" using Cons.hyps(2) by simp
  have "gf (fold (\<lambda>d sum. sum XOR reg ! d) [0..<m] 0) = (\<Sum>d<m. gf (reg ! d))" for m
    by (induction m) simp_all
  from this [of "Suc deg"]
  have "gf (fold (\<lambda>d sum. sum XOR reg ! d) [0..<Suc deg] 0) = (\<Sum>d\<le>deg. gf (reg ! d))"
    by (simp only: lessThan_Suc_atMost)
  also have "\<dots> = val f deg (inverse (gf 2) ^ k)"
    unfolding val_def
    by (intro sum.cong) (auto simp: poly_ofD [OF Cons.prems(3)] mult.commute simp flip: power_mult)
  finally have "gf (fold (\<lambda>d sum. sum XOR reg ! d) [0..<Suc deg] 0) = val f deg (inverse (gf 2) ^ k)" .
  then have z: "fold (\<lambda>d sum. sum XOR reg ! d) [0..<Suc deg] 0 = 0 \<longleftrightarrow> val f deg (inverse (gf 2) ^ k) = 0"
    by (metis gf_eq_0)
  note st = chien_step_spec [OF Cons.prems(1-3)]
  show ?case
    unfolding k chien.simps z
    using Cons.hyps(1) [OF ks st(1) Cons.prems(2) st(2)] Cons.prems(4)
    by (auto simp: Let_def)
qed (auto simp: Let_def)

text \<open>The formal derivative at a root of the linear factor that is split off.\<close>

lemma odd_terms:
  fixes f :: "nat \<Rightarrow> gf16"
  assumes "x * z = 1"
  shows "(\<Sum>d<n. if even d then f (Suc d) * z ^ d else 0) =
    x * (\<Sum>d<n. if odd d then f d * z ^ d else 0) + (if odd n then f n * z ^ (n - 1) else 0)"
proof (induction n)
  case (Suc n)
  have "odd n \<Longrightarrow> x * (f n * z ^ n) = f n * z ^ (n - 1)"
    using assms by (cases n) (simp_all add: mult_ac)
  then show ?case using Suc by (auto simp: distrib_left add_ac)
qed simp

lemma derivative_at_root:
  fixes f :: "nat \<Rightarrow> gf16"
  assumes "x * z = 1" and "deg_le f n"
  shows "(\<Sum>d<Suc n. if even d then lin x f (Suc d) * z ^ d else 0) = x * val f n z"
proof -
  have z: "f (Suc n) = 0" using assms(2) by (simp add: deg_le_def)
  have "(\<Sum>d<Suc n. if even d then lin x f (Suc d) * z ^ d else 0) =
      (\<Sum>d<Suc n. (if even d then f (Suc d) * z ^ d else 0) + x * (if even d then f d * z ^ d else 0))"
    by (intro sum.cong) (auto simp: algebra_simps)
  also have "\<dots> = x * ((\<Sum>d<Suc n. if odd d then f d * z ^ d else 0) +
      (\<Sum>d<Suc n. if even d then f d * z ^ d else 0))"
    using z unfolding sum.distrib odd_terms [OF assms(1)] sum_distrib_left [symmetric] distrib_left
    by simp
  also have "\<dots> = x * (\<Sum>d<Suc n. f d * z ^ d)"
    unfolding sum.distrib [symmetric] by (intro arg_cong [where f = "(*) x"] sum.cong) auto
  finally show ?thesis by (simp add: val_def lessThan_Suc_atMost)
qed

lemma forney_spec:
  assumes xs: "distinct xs" "loc k \<in> set xs" "length xs = deg" and k: "k < 65535"
    and lambda: "poly_of lambda deg (prodlin xs)"
    and omega: "poly_of omega (npar - 1) (\<lambda>n. \<Sum>x\<in>set xs. Y x * prodlin (remove1 x xs) n)"
    and deg: "deg \<le> npar"
  shows "\<exists>m. forney omega lambda deg npar k = Some m \<and> gf m = Y (loc k)"
proof -
  let ?x = "loc k" and ?z = "inverse (loc k) :: gf16"
  let ?rest = "\<lambda>x. remove1 x xs"
  have xz: "?x * ?z = 1" by simp
  have len: "x \<in> set xs \<Longrightarrow> length (?rest x) = deg - 1" for x using xs(3) by (simp add: length_remove1)
  have pos: "0 < deg" using xs by (cases xs) auto
  have pz: "gf (adsc_gf16_pow (65535 - k)) = ?z" using k by (simp add: loc_neg power_inverse)
  define q where "q = (\<Prod>x\<leftarrow>?rest ?x. 1 - x * ?z)"
  have fac: "1 - x * ?z = 0 \<longleftrightarrow> x = ?x" for x
  proof -
    have "1 - x * ?z = 0 \<longleftrightarrow> x * ?z = 1" by auto
    also have "\<dots> \<longleftrightarrow> x = ?x" by (simp add: field_simps)
    finally show ?thesis .
  qed
  have q: "q \<noteq> 0" unfolding q_def using xs(1) fac by (auto simp: prod_list_zero_iff image_iff simp del: gf16_minus)
  have other: "x \<in> set xs \<Longrightarrow> x \<noteq> ?x \<Longrightarrow> (\<Prod>x\<leftarrow>?rest x. 1 - x * ?z) = 0" for x
    using xs(2) fac by (auto simp: prod_list_zero_iff image_iff simp del: gf16_minus intro!: bexI [of _ ?x])
  have rest: "val (prodlin (?rest x)) (deg - 1) ?z = (\<Prod>x\<leftarrow>?rest x. 1 - x * ?z)" if "x \<in> set xs" for x
    using val_prodlin [of "?rest x" ?z] len [OF that] by simp
  have num: "gf (poly_eval omega (npar - 1) (adsc_gf16_pow (65535 - k))) = Y ?x * q"
  proof -
    have "gf (poly_eval omega (npar - 1) (adsc_gf16_pow (65535 - k))) =
        (\<Sum>n\<le>npar - 1. (\<Sum>x\<in>set xs. Y x * prodlin (?rest x) n) * ?z ^ n)"
      unfolding poly_eval_val pz val_def by (intro sum.cong) (auto simp: poly_ofD [OF omega])
    also have "\<dots> = (\<Sum>x\<in>set xs. Y x * val (prodlin (?rest x)) (npar - 1) ?z)"
      unfolding val_def sum_distrib_left sum_distrib_right by (subst sum.swap) (simp add: mult_ac)
    also have "\<dots> = (\<Sum>x\<in>set xs. Y x * (\<Prod>x\<leftarrow>?rest x. 1 - x * ?z))"
    proof (rule sum.cong [OF refl])
      fix x assume x: "x \<in> set xs"
      have "val (prodlin (?rest x)) (npar - 1) ?z = val (prodlin (?rest x)) (deg - 1) ?z"
        using deg_le_prodlin [of "?rest x"] len [OF x] deg by (intro val_extend) auto
      then show "Y x * val (prodlin (?rest x)) (npar - 1) ?z = Y x * (\<Prod>x\<leftarrow>?rest x. 1 - x * ?z)"
        using rest [OF x] by simp
    qed
    also have "\<dots> = (\<Sum>x\<in>set xs. if x = ?x then Y ?x * q else 0)"
      using other by (intro sum.cong) (auto simp: q_def)
    also have "\<dots> = Y ?x * q" using xs(2) by simp
    finally show ?thesis .
  qed
  have den: "gf (poly_deriv_eval lambda deg (adsc_gf16_pow (65535 - k))) = ?x * q"
  proof -
    obtain n where n: "deg = Suc n" using pos by (cases deg) auto
    have "gf (poly_deriv_eval lambda deg (adsc_gf16_pow (65535 - k))) =
        (\<Sum>d<Suc n. if even d then lin ?x (prodlin (?rest ?x)) (Suc d) * ?z ^ d else 0)"
      unfolding poly_deriv_eval_sum pz n
      using lambda n by (intro sum.cong) (auto simp: poly_of_def prodlin_remove1 [OF xs(2)])
    also have "\<dots> = ?x * val (prodlin (?rest ?x)) n ?z"
      using deg_le_prodlin [of "?rest ?x"] len [OF xs(2)] n by (intro derivative_at_root [OF xz]) simp
    finally show ?thesis using rest [OF xs(2)] n by (simp add: q_def)
  qed
  have "gf (poly_deriv_eval lambda deg (adsc_gf16_pow (65535 - k))) \<noteq> 0" unfolding den using q by simp
  then have nz: "poly_deriv_eval lambda deg (adsc_gf16_pow (65535 - k)) \<noteq> 0" by auto
  then show ?thesis
    using q by (simp add: forney_def Let_def num [unfolded One_nat_def] den)
qed

section \<open>What is handed back is right\<close>

text \<open>The syndromes that errors \<open>e\<close> at data indices leave, positions counted from the end.\<close>

definition errata_syn :: "nat \<Rightarrow> (nat \<times> u16) list \<Rightarrow> nat \<Rightarrow> u16" where
  "errata_syn n errata r =
     xor_list (map (\<lambda>(j, v). adsc_gf16_mul v (adsc_gf16_pow (r * (n - 1 - j)))) errata)"

definition errata_ok :: "nat \<Rightarrow> nat \<Rightarrow> u16 list \<Rightarrow> (nat \<times> u16) list \<Rightarrow> bool" where
  "errata_ok npar n err_syn out \<longleftrightarrow> length out \<le> npar \<and> sorted_wrt (<) (map fst out) \<and>
     list_all (\<lambda>(j, v). j < n \<and> v \<noteq> 0) out \<and>
     list_all (\<lambda>r. errata_syn n out r = err_syn ! r) [0..<npar]"

lemma gf_errata_syn: "gf (errata_syn n out r) = (\<Sum>(j, v)\<leftarrow>out. gf v * loc (n - 1 - j) ^ r)"
  by (induction out) (auto simp: errata_syn_def power_mult mult.commute [of r])

lemma errata_syndrome_emit:
  assumes "\<And>k m. (k, m) \<in> set errata \<Longrightarrow> k < n"
  shows "errata_syn n (emit_errata n errata) r = errata_syndrome errata r"
proof -
  have "errata_syndrome errata r = xor_list (map (\<lambda>(k, m). adsc_gf16_mul m (adsc_gf16_pow (r * k))) errata)"
  proof -
    have "fold (\<lambda>(k, m) acc. if m \<noteq> 0 then acc XOR adsc_gf16_mul_pow m (r * k) else acc) es a =
        a XOR xor_list (map (\<lambda>(k, m). adsc_gf16_mul m (adsc_gf16_pow (r * k))) es)" for es a
      by (induction es arbitrary: a) (auto simp: xor.assoc)
    then show ?thesis by (simp add: errata_syndrome_def)
  qed
  also have "\<dots> = xor_list (map (\<lambda>(k, m). adsc_gf16_mul m (adsc_gf16_pow (r * k)))
      (filter (\<lambda>(k, m). m \<noteq> 0) (rev errata)))"
  proof -
    have "xor_list (map (\<lambda>(k, m). adsc_gf16_mul m (adsc_gf16_pow (r * k))) es) =
        xor_list (map (\<lambda>(k, m). adsc_gf16_mul m (adsc_gf16_pow (r * k))) (filter (\<lambda>(k, m). m \<noteq> 0) es))"
      for es by (induction es) auto
    from this [of "rev errata"] show ?thesis by (simp only: rev_map [symmetric] xor_list_rev)
  qed
  also have "\<dots> = errata_syn n (emit_errata n errata) r"
    unfolding errata_syn_def emit_errata_def map_map
  proof (intro arg_cong [where f = xor_list] map_cong refl)
    fix x assume "x \<in> set (filter (\<lambda>(k, m). m \<noteq> 0) (rev errata))"
    moreover obtain k m where x: "x = (k, m)" by (cases x)
    ultimately have "k < n" using assms by auto
    then have "n - 1 - (n - 1 - k) = k" by simp
    then show "(case x of (k, m) \<Rightarrow> adsc_gf16_mul m (adsc_gf16_pow (r * k))) =
        ((\<lambda>(j, v). adsc_gf16_mul v (adsc_gf16_pow (r * (n - 1 - j)))) \<circ> (\<lambda>(k, m). (n - 1 - k, m))) x"
      unfolding x o_apply prod.case by (simp only:)
  qed
  finally show ?thesis by simp
qed

lemma chien_all:
  assumes "length lambda = Suc deg" and "deg \<le> max_npar"
  shows "chien deg [0..<n] (take (Suc deg) lambda) [] =
    (let rs = filter (\<lambda>k. val (\<lambda>i. gf (lambda ! i)) deg (inverse (gf 2) ^ k) = 0) [0..<n]
     in if deg < length rs then None else Some rs)"
  using chien_spec [of lambda deg "\<lambda>i. gf (lambda ! i)" 0 "[]" n] assms by (simp add: poly_of_def)

lemma emit_errata_sorted:
  assumes "sorted_wrt (<) ks" and "\<And>k. k \<in> set ks \<Longrightarrow> k < n"
  shows "sorted_wrt (<) (map fst (emit_errata n (zip ks ms)))"
proof -
  have "sorted_wrt (<) (map fst (emit_errata n es))"
    if "sorted_wrt (\<lambda>a b. fst a < fst b) es" "\<And>k m. (k, m) \<in> set es \<Longrightarrow> k < n" for es
    using that
  proof (induction es)
    case (Cons e es)
    have "emit_errata n (e # es) = emit_errata n es @ emit_errata n [e]"
      by (simp add: emit_errata_def)
    moreover have "x \<in> set (emit_errata n es) \<Longrightarrow> y \<in> set (emit_errata n [e]) \<Longrightarrow> fst x < fst y" for x y
      using Cons.prems by (cases e) (fastforce simp: emit_errata_def split: if_splits)
    moreover have "sorted_wrt (<) (map fst (emit_errata n [e]))"
      by (cases e) (simp add: emit_errata_def)
    moreover have "sorted_wrt (<) (map fst (emit_errata n es))"
      using Cons.prems by (intro Cons.IH) auto
    ultimately show ?case by (auto simp: sorted_wrt_append)
  qed (simp add: emit_errata_def)
  moreover have "sorted_wrt (\<lambda>a b. fst a < fst b) (zip ks ms)"
    using assms(1) by (auto simp: sorted_wrt_iff_nth_less)
  ultimately show ?thesis using assms(2) by (auto dest: set_zip_leftD)
qed

lemma solve_errata_sound:
  assumes "length lambda = Suc deg" "deg \<le> npar" "npar \<le> max_npar"
    and "solve_errata npar err_syn n lambda deg cap = Inr out"
  shows "errata_ok npar n err_syn out \<and> length out \<le> cap"
proof -
  obtain rs ms where rs: "chien deg [0..<n] (take (Suc deg) lambda) [] = Some rs" "length rs = deg"
    and ms: "those (map (forney (poly_mul lambda deg err_syn (npar - 1) npar) lambda deg npar) rs) = Some ms"
    and ok: "list_all (\<lambda>r. errata_syndrome (zip rs ms) r = err_syn ! r) [0..<npar]"
    and cap: "length (filter (\<lambda>(k, m). m \<noteq> 0) (zip rs ms)) \<le> cap"
    and out: "out = emit_errata n (zip rs ms)"
    using assms(4) by (auto simp: solve_errata_def Let_def split: option.splits if_splits)
  have r: "rs = filter (\<lambda>k. val (\<lambda>i. gf (lambda ! i)) deg (inverse (gf 2) ^ k) = 0) [0..<n]"
    using rs(1) unfolding chien_all [OF assms(1) le_trans [OF assms(2,3)]] Let_def
    by (simp split: if_splits)
  then have lt: "k \<in> set rs \<Longrightarrow> k < n" for k by simp
  have sorted: "sorted_wrt (<) rs" unfolding r by (intro sorted_wrt_filter) simp
  have len: "length out = length (filter (\<lambda>(k, m). m \<noteq> 0) (zip rs ms))"
    by (simp add: out emit_errata_def rev_filter [symmetric])
  also have "\<dots> \<le> length (zip rs ms)" by (rule length_filter_le)
  also have "\<dots> \<le> npar" using rs(2) assms(2) by simp
  finally have "length out \<le> npar" .
  moreover have "list_all (\<lambda>(j, v). j < n \<and> v \<noteq> 0) out"
    using lt by (fastforce simp: out emit_errata_def list_all_iff dest: set_zip_leftD)
  moreover have "errata_syn n out r = errata_syndrome (zip rs ms) r" for r
    unfolding out by (intro errata_syndrome_emit) (auto dest: set_zip_leftD lt)
  ultimately show ?thesis
    using ok cap len emit_errata_sorted [OF sorted lt] by (simp add: errata_ok_def out)
qed

lemma decode_dirty_sound:
  assumes "npar \<le> max_npar" and "length es \<le> npar"
    and "decode_dirty npar err_syn n es cap = Inr out"
  shows "errata_ok npar n err_syn out \<and> length out \<le> cap"
proof -
  obtain g dg where g: "erasure_locator n es = (g, dg)" by (cases "erasure_locator n es")
  obtain sg len where s: "berlekamp_massey (drop (length es) (poly_mul g dg err_syn (npar - 1) npar))
      (npar - length es) = (sg, len)" by (rule prod.exhaust)
  have "dg = length es" using erasure_locator_spec [of es n] assms(1,2) g by simp
  then show ?thesis
    using assms(3) unfolding decode_dirty_def Let_def g s prod.case
    by (intro solve_errata_sound [OF _ _ assms(1)]) (auto split: if_splits)
qed

lemma decode_errata_ok:
  assumes "adsc_rs16_decode npar err_syn n es cap = Inr out"
  shows "1 \<le> npar \<and> npar \<le> max_npar \<and> 1 \<le> n \<and> n \<le> 65535 \<and>
    errata_ok npar n err_syn out \<and> length out \<le> cap"
proof -
  have g: "1 \<le> npar" "npar \<le> max_npar" "1 \<le> n" "n \<le> 65535"
    using assms by (auto simp: adsc_rs16_decode_def split: if_splits)
  show ?thesis
  proof (cases "list_all (\<lambda>r. err_syn ! r = 0) [0..<npar]")
    case True
    then have "out = []" using assms by (auto simp: adsc_rs16_decode_def split: if_splits)
    then show ?thesis using True g by (auto simp: errata_ok_def errata_syn_def list_all_iff)
  next
    case False
    then have "length es \<le> npar" "decode_dirty npar err_syn n es cap = Inr out"
      using assms by (auto simp: adsc_rs16_decode_def split: if_splits)
    then show ?thesis using decode_dirty_sound [OF g(2)] g by simp
  qed
qed

text \<open>
  C16: whatever syndromes and erasures the decoder is given, it refuses with one of two errors, or
  hands back at most npar corrections - data indices in the column, ascending, with non-zero masks -
  whose syndromes are exactly those it was given. A miscorrection of the syndromes is never handed
  back.
\<close>

theorem rs16_decode_sound:
  "case adsc_rs16_decode npar err_syn n es cap of
     Inl e \<Rightarrow> e = ERR_INVAL \<or> e = ERR_NOTFOUND
   | Inr out \<Rightarrow> 1 \<le> npar \<and> npar \<le> max_npar \<and> 1 \<le> n \<and> n \<le> 65535 \<and>
       errata_ok npar n err_syn out \<and> length out \<le> cap"
proof (cases "adsc_rs16_decode npar err_syn n es cap")
  case (Inl e)
  then show ?thesis
    by (auto simp: adsc_rs16_decode_def decode_dirty_def solve_errata_def Let_def split_beta
        split: if_splits option.splits)
next
  case (Inr out)
  then show ?thesis using decode_errata_ok [OF Inr] by simp
qed

end
