(* ===== verification/Rs16Capacity.thy ===== *)
theory Rs16Capacity
  imports Rs16
begin

text \<open>
  The other half of what \<^verbatim>\<open>src/repair/rs16.c\<close> promises: every pattern of errors and erasures
  within the capacity of the parity - erasures plus twice the errors at unknown positions at most
  \<open>npar\<close> - is found exactly. Errors are a function of the data index.
\<close>

section \<open>Errors within capacity\<close>

definition error_syn :: "nat \<Rightarrow> (nat \<Rightarrow> u16) \<Rightarrow> nat \<Rightarrow> u16" where
  "error_syn n f r = xor_list (map (\<lambda>j. adsc_gf16_mul (f j) (adsc_gf16_pow (r * (n - 1 - j)))) [0..<n])"

definition errata_of :: "nat \<Rightarrow> (nat \<Rightarrow> u16) \<Rightarrow> (nat \<times> u16) list" where
  "errata_of n f = map (\<lambda>j. (j, f j)) (filter (\<lambda>j. f j \<noteq> 0) [0..<n])"

definition unknown :: "nat \<Rightarrow> (nat \<Rightarrow> u16) \<Rightarrow> nat list \<Rightarrow> nat list" where
  "unknown n f es = filter (\<lambda>j. f j \<noteq> 0 \<and> j \<notin> set es) [0..<n]"

definition within_capacity :: "nat \<Rightarrow> nat \<Rightarrow> (nat \<Rightarrow> u16) \<Rightarrow> nat list \<Rightarrow> u16 list \<Rightarrow> bool" where
  "within_capacity npar n f es err_syn \<longleftrightarrow> 1 \<le> npar \<and> npar \<le> max_npar \<and> 1 \<le> n \<and> n \<le> 65535 \<and>
     distinct es \<and> list_all (\<lambda>e. e < n) es \<and> 2 * length (unknown n f es) + length es \<le> npar \<and>
     list_all (\<lambda>r. err_syn ! r = error_syn n f r) [0..<npar]"

abbreviation loc_at :: "nat \<Rightarrow> nat \<Rightarrow> gf16" where "loc_at n j \<equiv> loc (n - Suc j)"

definition locators :: "nat \<Rightarrow> (nat \<Rightarrow> u16) \<Rightarrow> nat list \<Rightarrow> gf16 list" where
  "locators n f es = map (loc_at n) (unknown n f es) @ rev (map (loc_at n) es)"

definition magnitude :: "nat \<Rightarrow> (nat \<Rightarrow> u16) \<Rightarrow> gf16 \<Rightarrow> gf16" where
  "magnitude n f x = gf (f (n - 1 - gf16_logn (of_gf x)))"

lemma at_inj: "n \<le> 65535 \<Longrightarrow> i < n \<Longrightarrow> j < n \<Longrightarrow> loc_at n i = loc_at n j \<longleftrightarrow> i = j"
  by (subst gf_pow_inject) auto

lemma logn_loc: "k < 65535 \<Longrightarrow> gf16_logn (of_gf (loc k)) = k"
proof -
  assume "k < 65535"
  then have "gf16_logn (adsc_gf16_pow k) = k" by (simp add: g16.lg_pw)
  then show ?thesis using gf_pow [of k] by (metis gf_inverse UNIV_I)
qed

lemma magnitude_at: "n \<le> 65535 \<Longrightarrow> j < n \<Longrightarrow> magnitude n f (loc_at n j) = gf (f j)"
  by (simp add: magnitude_def logn_loc)

lemma within_capacityD:
  assumes "within_capacity npar n f es err_syn"
  shows "1 \<le> npar" "npar \<le> max_npar" "1 \<le> n" "n \<le> 65535" "distinct es"
    "\<And>e. e \<in> set es \<Longrightarrow> e < n" "2 * length (unknown n f es) + length es \<le> npar"
    "\<And>r. r < npar \<Longrightarrow> err_syn ! r = error_syn n f r"
  using assms by (auto simp: within_capacity_def list_all_iff)

lemma unknown_iff: "j \<in> set (unknown n f es) \<longleftrightarrow> j < n \<and> f j \<noteq> 0 \<and> j \<notin> set es"
  by (auto simp: unknown_def)

lemma locators_distinct:
  assumes "within_capacity npar n f es err_syn"
  shows "distinct (locators n f es)" and "length (locators n f es) = length (unknown n f es) + length es"
    and "set (locators n f es) = loc_at n ` {j. j < n \<and> (f j \<noteq> 0 \<or> j \<in> set es)}"
proof -
  note w = within_capacityD [OF assms]
  have "inj_on (loc_at n) {..<n}" using w(4) by (auto simp: inj_on_def at_inj)
  moreover have "set (unknown n f es @ es) \<subseteq> {..<n}" using w(6) by (auto simp: unknown_iff)
  moreover have "distinct (unknown n f es @ es)" using w(5) by (auto simp: unknown_def)
  ultimately have "distinct (map (loc_at n) (unknown n f es @ es))"
    by (simp only: distinct_map) (blast intro: inj_on_subset)
  then show "distinct (locators n f es)" by (simp add: locators_def)
  show "length (locators n f es) = length (unknown n f es) + length es" by (simp add: locators_def)
  show "set (locators n f es) = loc_at n ` {j. j < n \<and> (f j \<noteq> 0 \<or> j \<in> set es)}"
  proof -
    have "{j. j < n \<and> (f j \<noteq> 0 \<or> j \<in> set es)} = set (unknown n f es) \<union> set es"
      using w(6) by (auto simp: unknown_iff)
    then show ?thesis by (simp only: locators_def set_append set_map set_rev image_Un)
  qed
qed

text \<open>The syndromes as a sum of powers of the locators.\<close>

lemma error_syn_psum:
  assumes "within_capacity npar n f es err_syn" and "r < npar"
  shows "word_seq err_syn r = psum (magnitude n f) (set (locators n f es)) r"
proof -
  note w = within_capacityD [OF assms(1)]
  let ?J = "{j. j < n \<and> (f j \<noteq> 0 \<or> j \<in> set es)}"
  have "word_seq err_syn r = (\<Sum>j<n. gf (f j) * loc_at n j ^ r)"
    using w(8) [OF assms(2)]
    by (simp add: word_seq_def error_syn_def gf_xor_list o_def interv_sum_list_conv_sum_set_nat
        power_mult mult.commute [of r] atLeast0LessThan)
  also have "\<dots> = (\<Sum>j\<in>?J. gf (f j) * loc_at n j ^ r)"
    by (rule sum.mono_neutral_right) auto
  also have "\<dots> = (\<Sum>j\<in>?J. magnitude n f (loc_at n j) * loc_at n j ^ r)"
    using w(4) by (intro sum.cong) (auto simp del: gf_pow simp: magnitude_at)
  also have "\<dots> = psum (magnitude n f) (loc_at n ` ?J) r"
    unfolding psum_def by (subst sum.reindex) (auto simp: inj_on_def at_inj w(4))
  finally show ?thesis by (simp only: locators_distinct(3) [OF assms(1)])
qed

text \<open>After the erasure locator, the unknown errors alone, with other magnitudes.\<close>

definition residual :: "nat \<Rightarrow> (nat \<Rightarrow> u16) \<Rightarrow> nat list \<Rightarrow> gf16 \<Rightarrow> gf16" where
  "residual n f es y = magnitude n f y * (\<Prod>x\<leftarrow>rev (map (loc_at n) es). y - x)"

lemma modified_psum:
  assumes w: "within_capacity npar n f es err_syn" and g: "erasure_locator n es = (g, dg)"
    and j: "j < npar - length es"
  shows "word_seq (drop (length es) (poly_mul g dg err_syn (npar - 1) npar)) j =
    psum (residual n f es) (set (map (loc_at n) (unknown n f es))) j"
proof -
  note c = within_capacityD [OF w]
  let ?er = "rev (map (loc_at n) es)" and ?K = "set (locators n f es)"
  have g': "dg = length es" "poly_of g dg (prodlin ?er)"
    using erasure_locator_spec [of es n] c(2,7) g by (auto simp: poly_of_def)
  have "word_seq (drop (length es) (poly_mul g dg err_syn (npar - 1) npar)) j =
      gf (poly_mul g dg err_syn (npar - 1) npar ! (length es + j))"
    using j by (simp add: word_seq_def)
  also have "\<dots> = conv (prodlin ?er) (word_seq err_syn) (length es + j)"
    using j g' deg_le_prodlin [of ?er]
    by (intro poly_mul_conv) (auto simp: poly_of_def word_seq_def)
  also have "\<dots> = foldr lin ?er (word_seq err_syn) (length ?er + j)" by (simp add: conv_prodlin)
  also have "\<dots> = psum (residual n f es) ?K j"
    unfolding residual_def using error_syn_psum [OF w] j
    by (intro foldr_lin_psum [of npar]) auto
  also have "\<dots> = psum (residual n f es) (set (map (loc_at n) (unknown n f es))) j"
    unfolding psum_def locators_def
    by (intro sum.mono_neutral_right) (auto simp: residual_def prod_list_zero_iff image_iff)
  finally show ?thesis .
qed

lemma residual_nonzero:
  assumes "within_capacity npar n f es err_syn" and "y \<in> set (map (loc_at n) (unknown n f es))"
  shows "residual n f es y \<noteq> 0"
proof -
  note c = within_capacityD [OF assms(1)]
  obtain j where j: "y = loc_at n j" "j < n" "f j \<noteq> 0" "j \<notin> set es"
    using assms(2) by (auto simp: unknown_iff)
  then have "y \<notin> set (map (loc_at n) es)" using c(4,6) by (auto simp: at_inj)
  then show ?thesis using j c(4)
    by (auto simp: residual_def magnitude_at prod_list_zero_iff image_iff)
qed

text \<open>So the locator polynomial is the product over all the locators.\<close>

lemma errata_locator:
  assumes w: "within_capacity npar n f es err_syn" and g: "erasure_locator n es = (g, dg)"
    and s: "berlekamp_massey (drop (length es) (poly_mul g dg err_syn (npar - 1) npar))
      (npar - length es) = (sg, len)"
  shows "len = length (unknown n f es)" and "dg = length es"
    and "poly_of (poly_mul sg len g dg (Suc (len + dg))) (len + dg) (prodlin (locators n f es))"
proof -
  note c = within_capacityD [OF w]
  let ?s = "drop (length es) (poly_mul g dg err_syn (npar - 1) npar)"
  let ?un = "map (loc_at n) (unknown n f es)"
  have g': "dg = length es" "poly_of g dg (prodlin (rev (map (loc_at n) es)))"
    using erasure_locator_spec [of es n] c(2,7) g by (auto simp: poly_of_def)
  have "npar - length es < bm_scratch" using c(2) by (simp add: bm_scratch_def)
  then have "\<exists>p. generates p len (word_seq ?s) (npar - length es) \<and> poly_of sg len p \<and>
      (\<forall>d t. generates d t (word_seq ?s) (npar - length es) \<longrightarrow> len \<le> t)"
    by - (rule berlekamp_massey_shortest [of "npar - length es" ?s], assumption, unfold s fst_conv snd_conv, blast)
  then obtain p where p: "generates p len (word_seq ?s) (npar - length es)" "poly_of sg len p"
    and least: "\<And>d t. generates d t (word_seq ?s) (npar - length es) \<Longrightarrow> len \<le> t"
    by blast
  have dist: "distinct ?un" using locators_distinct(1) [OF w] by (simp add: locators_def)
  have "len \<le> length ?un"
    using prodlin_generates [OF refl dist modified_psum [OF w g]] by (rule least)
  note u = recurrence_unique [OF refl dist modified_psum [OF w g] residual_nonzero [OF w] _ p(1) this]
  have "2 * length ?un \<le> npar - length es" using c(7) by simp
  then have "len = length ?un" "p = prodlin ?un" using u by blast+
  then show "len = length (unknown n f es)" and "dg = length es"
    and "poly_of (poly_mul sg len g dg (Suc (len + dg))) (len + dg) (prodlin (locators n f es))"
    using g' p(2) deg_le_prodlin [of ?un] deg_le_prodlin [of "rev (map (loc_at n) es)"]
    by (auto simp: poly_of_def less_Suc_eq_le locators_def conv_prodlin_prodlin [symmetric]
        intro!: poly_mul_conv)
qed

section \<open>Search and magnitudes\<close>

lemma chien_finds:
  assumes w: "within_capacity npar n f es err_syn"
    and lam: "length lambda = Suc deg" "poly_of lambda deg (prodlin (locators n f es))"
    and deg: "deg = length (locators n f es)"
  shows "chien deg [0..<n] (take (Suc deg) lambda) [] =
    Some (filter (\<lambda>k. loc k \<in> set (locators n f es)) [0..<n])"
    and "length (filter (\<lambda>k. loc k \<in> set (locators n f es)) [0..<n]) = deg"
proof -
  note c = within_capacityD [OF w] and l = locators_distinct [OF w]
  let ?ks = "filter (\<lambda>k. loc k \<in> set (locators n f es)) [0..<n]"
  have root: "val (\<lambda>i. gf (lambda ! i)) deg (inverse (gf 2) ^ k) = 0 \<longleftrightarrow>
      loc k \<in> set (locators n f es)" for k
  proof -
    have "val (\<lambda>i. gf (lambda ! i)) deg (inverse (gf 2) ^ k) =
        (\<Prod>x\<leftarrow>locators n f es. 1 - x * inverse (gf 2) ^ k)"
      using val_prodlin [of "locators n f es"] lam(2) unfolding deg
      by (simp add: val_def poly_of_def)
    moreover have "1 - x * inverse (gf 2) ^ k = 0 \<longleftrightarrow> x = loc k" for x
    proof -
      have "1 - x * inverse (gf 2) ^ k = 0 \<longleftrightarrow> x * inverse (loc k) = 1" by (auto simp: power_inverse)
      then show ?thesis by (simp add: field_simps)
    qed
    ultimately show ?thesis by (auto simp: prod_list_zero_iff image_iff simp del: gf16_minus)
  qed
  have sub: "set (locators n f es) \<subseteq> loc ` {..<n}" using l(3) by auto
  have "card (set ?ks) = card (loc ` set ?ks)"
    using c(4) by (intro card_image [symmetric]) (auto simp: inj_on_def gf_pow_inject)
  also have "loc ` set ?ks = set (locators n f es)" using sub by auto
  also have "card \<dots> = deg" using l(1) deg by (simp add: distinct_card)
  finally show len: "length ?ks = deg" by (metis distinct_card distinct_filter distinct_upt)
  have "deg \<le> max_npar" using l(2) c(2,7) deg by simp
  then show "chien deg [0..<n] (take (Suc deg) lambda) [] = Some ?ks"
    unfolding chien_all [OF lam(1) \<open>deg \<le> max_npar\<close>] root using len by (simp add: Let_def)
qed

lemma forney_finds:
  assumes w: "within_capacity npar n f es err_syn"
    and lam: "length lambda = Suc deg" "poly_of lambda deg (prodlin (locators n f es))"
    and deg: "deg = length (locators n f es)"
    and k: "k < n" "loc k \<in> set (locators n f es)"
  shows "forney (poly_mul lambda deg err_syn (npar - 1) npar) lambda deg npar k = Some (f (n - 1 - k))"
proof -
  note c = within_capacityD [OF w] and l = locators_distinct [OF w]
  let ?xs = "locators n f es"
  have le: "deg \<le> npar" using l(2) c(7) deg by simp
  have "poly_of (poly_mul lambda deg err_syn (npar - 1) npar) (npar - 1)
      (\<lambda>i. \<Sum>x\<in>set ?xs. magnitude n f x * prodlin (remove1 x ?xs) i)"
    unfolding poly_of_def
  proof (intro allI impI)
    fix i assume i: "i \<le> npar - 1"
    then have "i < npar" using c(1) by simp
    then have "gf (poly_mul lambda deg err_syn (npar - 1) npar ! i) = conv (prodlin ?xs) (word_seq err_syn) i"
      using lam(2) deg_le_prodlin [of ?xs] deg c(1)
      by (intro poly_mul_conv) (auto simp: poly_of_def word_seq_def)
    also have "\<dots> = conv (prodlin ?xs) (psum (magnitude n f) (set ?xs)) i"
      unfolding conv_def using error_syn_psum [OF w] \<open>i < npar\<close> by (intro sum.cong) auto
    also have "\<dots> = (\<Sum>x\<in>set ?xs. magnitude n f x * prodlin (remove1 x ?xs) i)"
      by (rule conv_prodlin_psum [OF refl l(1)])
    finally show "gf (poly_mul lambda deg err_syn (npar - 1) npar ! i) =
        (\<Sum>x\<in>set ?xs. magnitude n f x * prodlin (remove1 x ?xs) i)" .
  qed
  then obtain m where m: "forney (poly_mul lambda deg err_syn (npar - 1) npar) lambda deg npar k = Some m"
      "gf m = magnitude n f (loc k)"
    using forney_spec [OF l(1) k(2) deg [symmetric] _ lam(2) _ le] k(1) c(4) by auto
  have "magnitude n f (loc k) = gf (f (n - 1 - k))"
    using magnitude_at [of n "n - 1 - k" f] k(1) c(4) by simp
  then show ?thesis using m by simp
qed

lemma those_map_Some: "(\<And>x. x \<in> set xs \<Longrightarrow> g x = Some (h x)) \<Longrightarrow> those (map g xs) = Some (map h xs)"
  by (induction xs) auto

text \<open>Ascending locator indices, reversed, are ascending data indices.\<close>

lemma emit_all:
  "emit_errata n (zip (filter P [0..<n]) (map (\<lambda>k. f (n - 1 - k)) (filter P [0..<n]))) =
     map (\<lambda>j. (j, f j)) (filter (\<lambda>j. P (n - 1 - j) \<and> f j \<noteq> 0) [0..<n])"
proof -
  have "rev [0..<n] = map (\<lambda>j. n - 1 - j) [0..<n]"
    by (rule nth_equalityI) (auto simp: rev_nth)
  then have r: "rev (filter P [0..<n]) = filter P (map (\<lambda>j. n - 1 - j) [0..<n])"
    by (simp only: rev_filter)
  have z: "zip ks (map h ks) = map (\<lambda>k. (k, h k)) ks" for ks :: "nat list" and h :: "nat \<Rightarrow> u16"
    by (induction ks) auto
  have idx: "j < n \<Longrightarrow> n - Suc (n - Suc j) = j" for j by simp
  show ?thesis
    unfolding emit_errata_def z rev_map r filter_map map_map filter_filter o_def prod.case
    by (rule map_cong) (auto simp: idx intro!: filter_cong)
qed

lemma emit_finds:
  assumes w: "within_capacity npar n f es err_syn"
  defines "ks \<equiv> filter (\<lambda>k. loc k \<in> set (locators n f es)) [0..<n]"
  shows "emit_errata n (zip ks (map (\<lambda>k. f (n - 1 - k)) ks)) = errata_of n f"
proof -
  have "loc (n - 1 - j) \<in> set (locators n f es)" if "j < n" "f j \<noteq> 0" for j
    unfolding locators_distinct(3) [OF w] using that by auto
  then show ?thesis
    unfolding ks_def emit_all errata_of_def by (intro arg_cong [where f = "map _"] filter_cong) auto
qed

lemma solve_errata_complete:
  assumes w: "within_capacity npar n f es err_syn" and "npar \<le> cap"
    and lam: "length lambda = Suc deg" "poly_of lambda deg (prodlin (locators n f es))"
    and deg: "deg = length (locators n f es)"
  shows "solve_errata npar err_syn n lambda deg cap = Inr (errata_of n f)"
proof -
  note c = within_capacityD [OF w] and l = locators_distinct [OF w]
  let ?ks = "filter (\<lambda>k. loc k \<in> set (locators n f es)) [0..<n]"
  let ?ms = "map (\<lambda>k. f (n - 1 - k)) ?ks"
  note ch = chien_finds [OF w lam deg]
  have ms: "those (map (forney (poly_mul lambda deg err_syn (npar - 1) npar) lambda deg npar) ?ks) = Some ?ms"
    using forney_finds [OF w lam deg] by (intro those_map_Some) auto
  have em: "emit_errata n (zip ?ks ?ms) = errata_of n f" by (rule emit_finds [OF w])
  have "errata_syndrome (zip ?ks ?ms) r = err_syn ! r" if "r < npar" for r
  proof -
    have "errata_syndrome (zip ?ks ?ms) r = errata_syn n (errata_of n f) r"
      unfolding em [symmetric]
      by (rule errata_syndrome_emit [symmetric]) (auto dest: set_zip_leftD)
    also have "\<dots> = error_syn n f r"
      unfolding errata_syn_def errata_of_def error_syn_def
      using xor_list_filter [of "\<lambda>j. adsc_gf16_mul (f j) (adsc_gf16_pow (r * (n - 1 - j)))" "[0..<n]"]
      by (simp add: o_def)
    finally show ?thesis using c(8) [OF that] by simp
  qed
  then have ver: "list_all (\<lambda>r. errata_syndrome (zip ?ks ?ms) r = err_syn ! r) [0..<npar]"
    by (simp add: list_all_iff)
  have "length (filter (\<lambda>(k, m). m \<noteq> 0) (zip ?ks ?ms)) \<le> length (zip ?ks ?ms)"
    by (rule length_filter_le)
  also have "\<dots> \<le> cap" using ch(2) l(2) deg c(7) assms(2) by simp
  finally have "\<not> cap < length (filter (\<lambda>(k, m). m \<noteq> 0) (zip ?ks ?ms))" by simp
  then show ?thesis
    unfolding solve_errata_def Let_def ch(1) option.case ms em using ver ch(2) by simp
qed

lemma decode_within_capacity:
  assumes "within_capacity npar n f es err_syn" and "npar \<le> cap"
  shows "adsc_rs16_decode npar err_syn n es cap = Inr (errata_of n f)"
proof -
  note c = within_capacityD [OF assms(1)]
  obtain g dg where g: "erasure_locator n es = (g, dg)" by (cases "erasure_locator n es")
  obtain sg len where s: "berlekamp_massey (drop (length es) (poly_mul g dg err_syn (npar - 1) npar))
      (npar - length es) = (sg, len)" by (rule prod.exhaust)
  note e = errata_locator [OF assms(1) g s]
  let ?deg = "len + dg" and ?lambda = "poly_mul sg len g dg (Suc (len + dg))"
  have deg: "?deg = length (locators n f es)"
    using e(1,2) locators_distinct(2) [OF assms(1)] by simp
  have "prodlin (locators n f es) ?deg \<noteq> 0"
    unfolding deg prodlin_lead by (auto simp: prod_list_zero_iff locators_def)
  then have "gf (?lambda ! ?deg) \<noteq> 0"
    using poly_ofD [OF e(3), of ?deg] by simp
  then have lead: "?lambda ! ?deg \<noteq> 0" by auto
  have solve: "solve_errata npar err_syn n ?lambda ?deg cap = Inr (errata_of n f)"
    by (rule solve_errata_complete [OF assms _ e(3) deg]) simp
  show ?thesis
  proof (cases "list_all (\<lambda>r. err_syn ! r = 0) [0..<npar]")
    case True
    have "psum (magnitude n f) (set (locators n f es)) r = 0" if "r < card (set (locators n f es))" for r
    proof -
      have "r < npar" using that c(7) deg e(1,2) card_length [of "locators n f es"] by simp
      then show ?thesis using error_syn_psum [OF assms(1)] True by (simp add: word_seq_def list_all_iff)
    qed
    then have "x \<in> set (locators n f es) \<Longrightarrow> magnitude n f x = 0" for x
      using psum_zero [of "set (locators n f es)"] by blast
    then have "j < n \<Longrightarrow> f j = 0" for j
      unfolding locators_distinct(3) [OF assms(1)] using magnitude_at [OF c(4), of j f] by force
    then have "errata_of n f = []" by (simp add: errata_of_def filter_empty_conv)
    then show ?thesis
      using True c by (auto simp: adsc_rs16_decode_def list_ex_iff not_le [symmetric])
  next
    case False
    have "?deg \<noteq> 0"
    proof
      assume "?deg = 0"
      then have "locators n f es = []" using deg by simp
      then have "r < npar \<Longrightarrow> err_syn ! r = 0" for r
        using error_syn_psum [OF assms(1), of r] by (simp add: word_seq_def psum_def)
      then show False using False by (simp add: list_all_iff)
    qed
    then have "decode_dirty npar err_syn n es cap = Inr (errata_of n f)"
      unfolding decode_dirty_def Let_def g s prod.case using solve lead e c(7) by simp
    then show ?thesis
      using False c by (auto simp: adsc_rs16_decode_def list_ex_iff not_le [symmetric])
  qed
qed

text \<open>
  C9: a column of up to 65535 symbols whose errors are within the capacity of its parity - the
  erasures plus twice the errors elsewhere are at most npar - decodes to exactly its errors,
  ascending; erasures that turn out undamaged are left out.
\<close>

theorem rs16_decode_complete:
  assumes "1 \<le> npar" "npar \<le> max_npar" "1 \<le> n" "n \<le> 65535"
    and "distinct es" "list_all (\<lambda>e. e < n) es"
    and "2 * length (unknown n f es) + length es \<le> npar" and "npar \<le> cap"
  shows "adsc_rs16_decode npar (map (error_syn n f) [0..<npar]) n es cap = Inr (errata_of n f)"
  using assms by (intro decode_within_capacity) (auto simp: within_capacity_def list_all_iff)

theorem rs16_decode_complete_witness:
  "adsc_rs16_decode 4 (map (error_syn 5 (\<lambda>j. if j = 1 then 7 else if j = 2 then 9 else 0)) [0..<4]) 5 [2, 3] 4 =
    Inr [(1, 7), (2, 9)]"
proof -
  let ?f = "\<lambda>j :: nat. if j = 1 then 7 else if j = 2 then 9 else 0 :: u16"
  have "[0..<5] = [0, 1, 2, 3, 4 :: nat]" by (simp add: upt_rec)
  then have "unknown 5 ?f [2, 3] = [1]" "errata_of 5 ?f = [(1, 7), (2, 9)]"
    by (simp_all add: unknown_def errata_of_def)
  then show ?thesis using rs16_decode_complete [of 4 5 "[2, 3]" ?f 4] by (simp add: max_npar_def)
qed

end
