(* ===== verification/Sweep.thy ===== *)
theory Sweep
  imports Crc Rs16Capacity
begin

text \<open>
  Pass 1 of the parity repair (\<^verbatim>\<open>src/repair/sweep.c\<close>): the syndromes of every column of the
  image, row by row with Horner's rule over a plane-major accumulator, and the checksum of the
  same words in the same pass. The image is the list of its 16-bit words. Proved: the sweep is the
  syndrome sum of each column, and the fused checksum is the checksum of the span.
\<close>

section \<open>The portable kernel\<close>

text \<open>\<open>off\<close> is where the plane starts in the accumulator, \<open>v\<close> the row from its first word on.\<close>

definition plane_step :: "nat \<Rightarrow> nat \<Rightarrow> nat \<Rightarrow> u16 list \<Rightarrow> u16 list \<Rightarrow> u16 list" where
  "plane_step S e off v acc =
     fold (\<lambda>c acc. acc[off + c := adsc_gf16_mul_pow_fast (acc ! (off + c)) e XOR v ! c]) [0..<S] acc"

definition sweep_row ::
    "u16 list \<Rightarrow> nat \<Rightarrow> nat \<Rightarrow> nat \<Rightarrow> nat \<Rightarrow> u16 list \<times> u32 \<Rightarrow> u16 list \<times> u32" where
  "sweep_row pcm first S npar j = (\<lambda>(acc, crc).
     let v = drop (first + j * S) pcm;
         crc = crc_update crc (le_bytes (take S v));
         acc = fold (\<lambda>c acc. acc[c := acc ! c XOR v ! c]) [0..<S] acc
     in (fold (\<lambda>r. plane_step S r (r * S) v) [1..<npar] acc, crc))"

definition sweep_scalar ::
    "u16 list \<Rightarrow> nat \<Rightarrow> nat \<Rightarrow> nat \<Rightarrow> nat \<Rightarrow> u16 list \<Rightarrow> u16 list \<times> u32" where
  "sweep_scalar pcm first S sc npar acc =
     (let (acc, crc) = fold (sweep_row pcm first S npar) [0..<sc] (acc, 0xFFFFFFFF)
      in (acc, crc XOR 0xFFFFFFFF))"

section \<open>Horner's rule\<close>

lemma fold_update_at:
  assumes "off + k \<le> length p"
  shows "fold (\<lambda>c acc. acc[off + c := h c (acc ! (off + c))]) [0..<k] p ! n =
      (if off \<le> n \<and> n < off + k then h (n - off) (p ! n) else p ! n)"
    and "length (fold (\<lambda>c acc. acc[off + c := h c (acc ! (off + c))]) [0..<k] p) = length p"
proof -
  let ?F = "\<lambda>k. fold (\<lambda>c acc. acc[off + c := h c (acc ! (off + c))]) [0..<k] p"
  show len: "length (?F k) = length p" for k by (rule length_fold_update) simp
  show "?F k ! n = (if off \<le> n \<and> n < off + k then h (n - off) (p ! n) else p ! n)"
    using assms
  proof (induction k)
    case (Suc k)
    then show ?case using len [of k] by (cases "n = off + k") (auto simp: nth_list_update)
  qed auto
qed

lemma plane_step_nth:
  assumes "off + S \<le> length acc"
  shows "plane_step S e off v acc ! n =
      (if off \<le> n \<and> n < off + S then adsc_gf16_mul_pow_fast (acc ! n) e XOR v ! (n - off) else acc ! n)"
    and "length (plane_step S e off v acc) = length acc"
  unfolding plane_step_def
  using fold_update_at [of off S acc "\<lambda>c x. adsc_gf16_mul_pow_fast x e XOR v ! c"] assms by simp_all

text \<open>One row: plane \<open>r\<close> is multiplied by \<open>alpha^r\<close> and takes up the row.\<close>

lemma sweep_row_nth:
  assumes len: "length acc = S * npar" and n: "1 \<le> npar" "npar \<le> max_npar"
    and i: "r < npar" "c < S"
  shows "fst (sweep_row pcm first S npar j (acc, crc)) ! (r * S + c) =
      adsc_gf16_mul (acc ! (r * S + c)) (adsc_gf16_pow r) XOR drop (first + j * S) pcm ! c"
    and "length (fst (sweep_row pcm first S npar j (acc, crc))) = S * npar"
proof -
  let ?v = "drop (first + j * S) pcm"
  let ?acc = "fold (\<lambda>c acc. acc[c := acc ! c XOR ?v ! c]) [0..<S] acc"
  let ?P = "\<lambda>k. fold (\<lambda>r. plane_step S r (r * S) ?v) [1..<k] ?acc"
  have S: "S \<le> S * npar" using n by simp
  have a: "?acc ! m = (if m < S then acc ! m XOR ?v ! m else acc ! m)" "length ?acc = S * npar" for m
    using fold_update_at [of 0 S acc "\<lambda>c x. x XOR ?v ! c"] len S by simp_all
  have row: "a div S = r \<Longrightarrow> r * S \<le> a \<and> a < r * S + S" if "0 < S" for a r
    using that div_times_less_eq_dividend [of a S] dividend_less_div_times [of S a] by auto
  have P: "length (?P k) = S * npar \<and> (\<forall>m < S * npar. ?P k ! m =
      (if 1 \<le> m div S \<and> m div S < k then adsc_gf16_mul (acc ! m) (adsc_gf16_pow (m div S)) XOR ?v ! (m mod S)
       else ?acc ! m))" if "k \<le> npar" for k
    using that
  proof (induction k)
    case (Suc k)
    show ?case
    proof (cases "k = 0")
      case False
      have e: "k < 65535" using Suc.prems n by (simp add: max_npar_def)
      have kS: "k * S + S \<le> S * npar"
        using Suc.prems mult_le_mono1 [of "Suc k" npar S] by (simp add: mult.commute)
      have Pk: "length (?P k) = S * npar" "\<And>m. m < S * npar \<Longrightarrow> ?P k ! m =
          (if 1 \<le> m div S \<and> m div S < k then adsc_gf16_mul (acc ! m) (adsc_gf16_pow (m div S)) XOR ?v ! (m mod S)
           else ?acc ! m)"
        using Suc by auto
      have "?P (Suc k) = plane_step S k (k * S) ?v (?P k)" using False by simp
      moreover have "k * S + S \<le> length (?P k)" using kS Pk(1) by simp
      note plane_step_nth [OF this, of k ?v]
      moreover have "k * S \<le> m \<and> m < k * S + S \<longleftrightarrow> m div S = k" if "0 < S" for m
      proof
        assume "k * S \<le> m \<and> m < k * S + S"
        then show "m div S = k" using that by (intro div_nat_eqI) (auto simp: algebra_simps)
      qed (use row [OF that] in auto)
      moreover have "m - k * S = m mod S" if "m div S = k" for m
        using that by (metis minus_div_mult_eq_mod)
      moreover have "S \<le> m" if "m div S = k" "m < S * npar" for m
        using that False by (cases "m < S") auto
      ultimately show ?thesis
        using Pk a False e by (cases "S = 0") (auto simp: gf16_mul_pow_fast less_Suc_eq)
    qed (use a in simp)
  qed (use a in simp)
  have m: "r * S + c < S * npar" "(r * S + c) div S = r" "(r * S + c) mod S = c"
  proof -
    have "r * S + c < Suc r * S" using i by simp
    also have "\<dots> \<le> npar * S" using i by (intro mult_le_mono1) simp
    finally show "r * S + c < S * npar" by (simp add: mult.commute)
  qed (use i in simp_all)
  show "fst (sweep_row pcm first S npar j (acc, crc)) ! (r * S + c) =
      adsc_gf16_mul (acc ! (r * S + c)) (adsc_gf16_pow r) XOR drop (first + j * S) pcm ! c"
    using P [of npar] m i a by (cases "r = 0") (auto simp: sweep_row_def Let_def)
  show "length (fst (sweep_row pcm first S npar j (acc, crc))) = S * npar"
    using P [of npar] by (simp add: sweep_row_def Let_def)
qed

lemma error_syn_Suc:
  "error_syn (Suc n) f r = adsc_gf16_mul (error_syn n f r) (adsc_gf16_pow r) XOR f n"
proof -
  let ?g = "\<lambda>n j. adsc_gf16_mul (f j) (adsc_gf16_pow (r * (n - 1 - j)))"
  have "adsc_gf16_mul (?g n j) (adsc_gf16_pow r) = ?g (Suc n) j" if "j < n" for j
  proof -
    have "r * (n - 1 - j) + r = r * (Suc n - 1 - j)"
    proof -
      have "n - j = Suc (n - Suc j)" using that by simp
      then show ?thesis by simp
    qed
    then show ?thesis by (simp only: g16.mul_assoc UNIV_I g16.mul_pw_pw)
  qed
  then have "map (?g (Suc n)) [0..<n] = map (\<lambda>j. adsc_gf16_mul (adsc_gf16_pow r) (?g n j)) [0..<n]"
    by (simp add: g16.mul_commute)
  moreover have "adsc_gf16_mul (adsc_gf16_pow r) (xor_list (map (?g n) [0..<n])) =
      xor_list (map (\<lambda>j. adsc_gf16_mul (adsc_gf16_pow r) (?g n j)) [0..<n])"
    by (simp add: g16.mul_xor_list o_def)
  ultimately have "xor_list (map (?g (Suc n)) [0..<n]) = adsc_gf16_mul (adsc_gf16_pow r) (error_syn n f r)"
    by (simp only: error_syn_def)
  moreover have "error_syn (Suc n) f r = xor_list (map (?g (Suc n)) [0..<n]) XOR f n"
    by (simp add: error_syn_def)
  ultimately show ?thesis by (simp only: g16.mul_commute UNIV_I)
qed

lemma le_bytes_append': "le_bytes (concat vs) = concat (map le_bytes vs)"
  by (induction vs) (simp_all add: le_bytes_append, simp add: le_bytes_def)

lemma crc_update_append: "crc_update c (a @ b) = crc_update (crc_update c a) b"
  by (simp add: crc_update_run c32.run_append)

text \<open>All rows.\<close>

lemma sweep_rows:
  assumes n: "1 \<le> npar" "npar \<le> max_npar"
  shows "\<exists>acc. fold (sweep_row pcm first S npar) [0..<k] (replicate (S * npar) 0, crc) =
      (acc, crc_update crc (le_bytes (take (k * S) (drop first pcm)))) \<and> length acc = S * npar \<and>
      (\<forall>r < npar. \<forall>c < S. acc ! (r * S + c) = error_syn k (\<lambda>j. drop (first + j * S) pcm ! c) r)"
proof (induction k)
  case 0
  have "r < npar \<Longrightarrow> c < S \<Longrightarrow> r * S + c < S * npar" for r c
    using mult_le_mono1 [of "Suc r" npar S] by (simp add: mult.commute)
  then show ?case by (auto simp: error_syn_def le_bytes_def crc_update_run)
next
  case (Suc k)
  then obtain acc where acc: "fold (sweep_row pcm first S npar) [0..<k] (replicate (S * npar) 0, crc) =
      (acc, crc_update crc (le_bytes (take (k * S) (drop first pcm))))" "length acc = S * npar"
      "\<And>r c. r < npar \<Longrightarrow> c < S \<Longrightarrow> acc ! (r * S + c) = error_syn k (\<lambda>j. drop (first + j * S) pcm ! c) r"
    by blast
  let ?c = "crc_update crc (le_bytes (take (k * S) (drop first pcm)))"
  let ?r = "sweep_row pcm first S npar k (acc, ?c)"
  have "take (Suc k * S) (drop first pcm) = take (k * S) (drop first pcm) @ take S (drop (first + k * S) pcm)"
  proof -
    have "drop (k * S) (drop first pcm) = drop (first + k * S) pcm" by (simp add: add.commute)
    moreover have "Suc k * S = k * S + S" by simp
    ultimately show ?thesis by (simp only: take_add)
  qed
  then have "snd ?r = crc_update crc (le_bytes (take (Suc k * S) (drop first pcm)))"
    by (simp add: sweep_row_def Let_def le_bytes_append crc_update_append)
  moreover have "length (fst ?r) = S * npar"
  proof (cases "S = 0")
    case True
    moreover have "fold (\<lambda>r. plane_step 0 r (f r) v) xs a = a" for f v xs and a :: "u16 list"
      by (induction xs) (simp_all add: plane_step_def)
    ultimately show ?thesis using acc(2) by (simp add: sweep_row_def Let_def)
  next
    case False
    then show ?thesis using sweep_row_nth(2) [OF acc(2) n, of 0 0] n by simp
  qed
  moreover have "fst ?r ! (r * S + c) = error_syn (Suc k) (\<lambda>j. drop (first + j * S) pcm ! c) r"
    if "r < npar" "c < S" for r c
    using sweep_row_nth(1) [OF acc(2) n that] acc(3) [OF that] by (simp add: error_syn_Suc)
  moreover have "fold (sweep_row pcm first S npar) [0..<Suc k] (replicate (S * npar) 0, crc) = ?r"
    using acc(1) by simp
  ultimately show ?case by (metis prod.collapse)
qed

text \<open>The words of column \<open>c\<close> of the codeword region, oldest first.\<close>

definition column :: "u16 list \<Rightarrow> nat \<Rightarrow> nat \<Rightarrow> nat \<Rightarrow> nat \<Rightarrow> u16" where
  "column pcm first S c j = pcm ! (first + c + j * S)"

text \<open>
  What a sweep computes: for every check, plane by plane, the syndrome sum of every column, and the
  checksum of the words swept.
\<close>

definition sweep_reference ::
    "u16 list \<Rightarrow> nat \<Rightarrow> nat \<Rightarrow> nat \<Rightarrow> nat \<Rightarrow> u16 list \<times> u32" where
  "sweep_reference pcm first S sc npar =
     (map (\<lambda>i. error_syn sc (column pcm first S (i mod S)) (i div S)) [0..<S * npar],
      adsc_ctdb_crc32_words (slice first (sc * S) pcm))"

lemma sweep_scalar_reference:
  assumes "1 \<le> npar" "npar \<le> max_npar" and "0 < S" and "first + sc * S \<le> length pcm"
  shows "sweep_scalar pcm first S sc npar (replicate (S * npar) 0) = sweep_reference pcm first S sc npar"
proof -
  obtain acc where acc: "fold (sweep_row pcm first S npar) [0..<sc] (replicate (S * npar) 0, 0xFFFFFFFF) =
      (acc, crc_update 0xFFFFFFFF (le_bytes (take (sc * S) (drop first pcm))))" "length acc = S * npar"
      "\<And>r c. r < npar \<Longrightarrow> c < S \<Longrightarrow> acc ! (r * S + c) = error_syn sc (\<lambda>j. drop (first + j * S) pcm ! c) r"
    using sweep_rows [OF assms(1,2)] by blast
  have "drop (first + j * S) pcm ! c = column pcm first S c j" if "j < sc" "c < S" for j c
  proof -
    have "first + j * S \<le> length pcm"
    proof -
      have "j * S \<le> sc * S" using that by (intro mult_le_mono1) simp
      then show ?thesis using assms(4) by linarith
    qed
    then show ?thesis by (simp add: column_def ac_simps)
  qed
  then have syn: "error_syn sc (\<lambda>j. drop (first + j * S) pcm ! c) r = error_syn sc (column pcm first S c) r"
    if "c < S" for r c
    using that unfolding error_syn_def by (intro arg_cong [where f = xor_list] map_cong) auto
  have "acc ! i = error_syn sc (column pcm first S (i mod S)) (i div S)" if "i < S * npar" for i
  proof -
    have "i div S < npar" using that assms(3) by (simp add: less_mult_imp_div_less mult.commute)
    then show ?thesis using acc(3) [of "i div S" "i mod S"] syn [of "i mod S"] assms(3) by simp
  qed
  then have "acc = map (\<lambda>i. error_syn sc (column pcm first S (i mod S)) (i div S)) [0..<S * npar]"
    using acc(2) by (intro nth_equalityI) simp_all
  then show ?thesis
    using acc(1) by (simp add: sweep_scalar_def sweep_reference_def adsc_ctdb_crc32_words_def slice_def)
qed

end
