(* ===== verification/SweepSimd.thy ===== *)
theory SweepSimd
  imports Sweep
begin

text \<open>
  The vector kernel of the sweep (\<^verbatim>\<open>src/repair/sweep.c\<close>) and the choice between the two. A
  256-bit register is the list of its 32 bytes; the intrinsics the code uses are written out as
  what they do to bytes. The accumulator is held split during the sweep: plane \<open>r\<close> is \<open>S\<close> low
  bytes followed by \<open>S\<close> high bytes. Proved: on a zeroed accumulator the two kernels leave the
  same words and the same checksum.
\<close>

section \<open>Intrinsics\<close>

type_synonym m256 = "u8 list"

definition word_of_bytes :: "u8 \<Rightarrow> u8 \<Rightarrow> u16" where
  "word_of_bytes lo hi = ucast lo OR push_bit 8 (ucast hi)"

definition low_byte :: "u16 \<Rightarrow> u8" where "low_byte w = ucast w"
definition high_byte :: "u16 \<Rightarrow> u8" where "high_byte w = ucast (drop_bit 8 w)"

definition mm256_and :: "m256 \<Rightarrow> m256 \<Rightarrow> m256" where
  "mm256_and a b = map (\<lambda>i. a ! i AND b ! i) [0..<32]"

definition mm256_xor :: "m256 \<Rightarrow> m256 \<Rightarrow> m256" where
  "mm256_xor a b = map (\<lambda>i. a ! i XOR b ! i) [0..<32]"

definition mm256_srli_epi16 :: "m256 \<Rightarrow> nat \<Rightarrow> m256" where
  "mm256_srli_epi16 a k = map (\<lambda>i.
     let w = drop_bit k (word_of_bytes (a ! (2 * (i div 2))) (a ! (2 * (i div 2) + 1)))
     in if even i then low_byte w else high_byte w) [0..<32]"

text \<open>\<open>vpshufb\<close>: within each 128-bit lane.\<close>

definition mm256_shuffle_epi8 :: "m256 \<Rightarrow> m256 \<Rightarrow> m256" where
  "mm256_shuffle_epi8 a b = map (\<lambda>i.
     if bit (b ! i) 7 then 0 else a ! (16 * (i div 16) + unat (b ! i AND 15))) [0..<32]"

definition mm256_unpacklo_epi64 :: "m256 \<Rightarrow> m256 \<Rightarrow> m256" where
  "mm256_unpacklo_epi64 a b =
     slice 0 8 a @ slice 0 8 b @ slice 16 8 a @ slice 16 8 b"

definition mm256_unpackhi_epi64 :: "m256 \<Rightarrow> m256 \<Rightarrow> m256" where
  "mm256_unpackhi_epi64 a b =
     slice 8 8 a @ slice 8 8 b @ slice 24 8 a @ slice 24 8 b"

text \<open>\<open>_mm256_permute4x64_epi64(a, 0xD8)\<close>: quadwords 0, 2, 1, 3.\<close>

definition mm256_permute_D8 :: "m256 \<Rightarrow> m256" where
  "mm256_permute_D8 a = slice 0 8 a @ slice 16 8 a @ slice 8 8 a @ slice 24 8 a"

section \<open>The kernel\<close>

record nib_tab =
  nt_lo :: "m256 list"
  nt_hi :: "m256 list"

definition nib_product :: "nat \<Rightarrow> nat \<Rightarrow> u16 \<Rightarrow> u16" where
  "nib_product i n k = adsc_gf16_mul (push_bit (4 * i) (word_of_nat n)) k"

definition build_nib_tab :: "nat \<Rightarrow> nib_tab" where
  "build_nib_tab e = (let k = adsc_gf16_pow e;
       broadcast = (\<lambda>t. t @ t);
       table = (\<lambda>part i. broadcast (map (\<lambda>n. part (nib_product i n k)) [0..<16]))
     in \<lparr>nt_lo = map (table low_byte) [0..<4], nt_hi = map (table high_byte) [0..<4]\<rparr>)"

definition mul_const32 :: "nib_tab \<Rightarrow> m256 \<times> m256 \<Rightarrow> m256 \<times> m256" where
  "mul_const32 t = (\<lambda>(alo, ahi).
     let m = replicate 32 0x0F;
         n0 = mm256_and alo m;
         n1 = mm256_and (mm256_srli_epi16 alo 4) m;
         n2 = mm256_and ahi m;
         n3 = mm256_and (mm256_srli_epi16 ahi 4) m;
         look = (\<lambda>T. mm256_xor
            (mm256_xor (mm256_shuffle_epi8 (T ! 0) n0) (mm256_shuffle_epi8 (T ! 1) n1))
            (mm256_xor (mm256_shuffle_epi8 (T ! 2) n2) (mm256_shuffle_epi8 (T ! 3) n3)))
     in (look (nt_lo t), look (nt_hi t)))"

definition split32 :: "u16 list \<Rightarrow> m256 \<times> m256" where
  "split32 v =
     (let sh = [0, 2, 4, 6, 8, 10, 12, 14, 1, 3, 5, 7, 9, 11, 13, 15,
                0, 2, 4, 6, 8, 10, 12, 14, 1, 3, 5, 7, 9, 11, 13, 15];
          a = mm256_shuffle_epi8 (le_bytes (slice 0 16 v)) sh;
          b = mm256_shuffle_epi8 (le_bytes (slice 16 16 v)) sh
      in (mm256_permute_D8 (mm256_unpacklo_epi64 a b), mm256_permute_D8 (mm256_unpackhi_epi64 a b)))"

text \<open>A store of a register, and of a byte, at an offset of a byte array.\<close>

definition store256 :: "nat \<Rightarrow> m256 \<Rightarrow> u8 list \<Rightarrow> u8 list" where
  "store256 off v p = take off p @ v @ drop (off + 32) p"

definition split_row :: "nat \<Rightarrow> u16 list \<Rightarrow> u8 list \<Rightarrow> u8 list" where
  "split_row S v scratch =
     (let vec = S div 32;
          s = fold (\<lambda>k s. let (lo, hi) = split32 (drop (32 * k) v)
            in store256 (S + 32 * k) hi (store256 (32 * k) lo s)) [0..<vec] scratch
      in fold (\<lambda>c s. s[c := low_byte (v ! c), S + c := high_byte (v ! c)]) [32 * vec..<S] s)"

definition avx2_block :: "nib_tab \<Rightarrow> nat \<Rightarrow> nat \<Rightarrow> nat \<Rightarrow> u8 list \<Rightarrow> nat \<Rightarrow> u8 list \<Rightarrow> u8 list" where
  "avx2_block tab S r off scratch c p =
     (let lo = slice (off + c) 32 p; hi = slice (off + S + c) 32 p;
          (lo, hi) = (if r \<noteq> 0 then mul_const32 tab (lo, hi) else (lo, hi));
          lo = mm256_xor lo (slice c 32 scratch);
          hi = mm256_xor hi (slice (S + c) 32 scratch)
      in store256 (off + S + c) hi (store256 (off + c) lo p))"

definition avx2_tail :: "nat \<Rightarrow> nat \<Rightarrow> nat \<Rightarrow> u8 list \<Rightarrow> nat \<Rightarrow> u8 list \<Rightarrow> u8 list" where
  "avx2_tail S r off scratch c p =
     (let a = word_of_bytes (p ! (off + c)) (p ! (off + S + c));
          a = adsc_gf16_mul_pow_fast a r XOR word_of_bytes (scratch ! c) (scratch ! (S + c))
      in p[off + c := low_byte a, off + S + c := high_byte a])"

definition avx2_plane :: "(nat \<Rightarrow> nib_tab) \<Rightarrow> nat \<Rightarrow> u8 list \<Rightarrow> nat \<Rightarrow> u8 list \<Rightarrow> u8 list" where
  "avx2_plane tab S scratch r p =
     (let off = r * 2 * S; vec = S div 32;
          p = fold (\<lambda>k. avx2_block (tab r) S r off scratch (32 * k)) [0..<vec] p
      in fold (avx2_tail S r off scratch) [32 * vec..<S] p)"

definition avx2_row ::
    "(nat \<Rightarrow> nib_tab) \<Rightarrow> u16 list \<Rightarrow> nat \<Rightarrow> nat \<Rightarrow> nat \<Rightarrow> nat \<Rightarrow> u8 list \<times> u8 list \<times> u32 \<Rightarrow> u8 list \<times> u8 list \<times> u32" where
  "avx2_row tab pcm first S npar j = (\<lambda>(alt, scratch, crc).
     let v = drop (first + j * S) pcm;
         crc = crc_update crc (le_bytes (take S v));
         scratch = split_row S v scratch
     in (fold (avx2_plane tab S scratch) [0..<npar] alt, scratch, crc))"

text \<open>
  \<open>scratch\<close> is what \<open>malloc\<close> returned; the accumulator's memory is read as bytes, and converted
  back plane by plane.
\<close>

definition sweep_avx2 ::
    "u16 list \<Rightarrow> nat \<Rightarrow> nat \<Rightarrow> nat \<Rightarrow> nat \<Rightarrow> u16 list \<Rightarrow> u8 list \<Rightarrow> u16 list \<times> u32" where
  "sweep_avx2 pcm first S sc npar acc scratch =
     (let (alt, _, crc) = fold (avx2_row build_nib_tab pcm first S npar) [0..<sc]
            (le_bytes acc, scratch, 0xFFFFFFFF);
          out = (\<lambda>r. let p = slice (r * 2 * S) (2 * S) alt in
            map (\<lambda>c. word_of_bytes (p ! c) (p ! (S + c))) [0..<S])
      in (concat (map out [0..<npar]), crc XOR 0xFFFFFFFF))"

text \<open>
  \<open>avx2\<close> is what \<open>kernel_choice\<close> answers, \<open>scratch\<close> the scratch row if it could be allocated.
\<close>

definition kernel_choice :: "bool \<Rightarrow> string option \<Rightarrow> bool" where
  "kernel_choice cpu_has_avx2 env = (if env = Some ''scalar'' then False else cpu_has_avx2)"

definition adsc_ctdb_sweep ::
    "bool \<Rightarrow> u8 list option \<Rightarrow> u16 list \<Rightarrow> nat \<Rightarrow> nat \<Rightarrow> nat \<Rightarrow> nat \<Rightarrow> u16 list \<Rightarrow> u16 list \<times> u32" where
  "adsc_ctdb_sweep avx2 scratch pcm first S sc npar acc =
     (case (avx2, scratch) of
        (True, Some s) \<Rightarrow> sweep_avx2 pcm first S sc npar acc s
      | _ \<Rightarrow> sweep_scalar pcm first S sc npar acc)"

section \<open>Bytes and words\<close>

lemma bit_word_of_bytes:
  "bit (word_of_bytes lo hi) n \<longleftrightarrow> (if n < 8 then bit lo n else bit hi (n - 8))"
  unfolding word_of_bytes_def bit_or_iff bit_push_bit_iff bit_ucast_iff
  by (auto dest: bit_imp_le_length)

lemma bit_low_byte: "bit (low_byte w) n \<longleftrightarrow> n < 8 \<and> bit w n"
  by (auto simp: low_byte_def bit_ucast_iff)

lemma bit_high_byte: "bit (high_byte w) n \<longleftrightarrow> n < 8 \<and> bit w (n + 8)"
  by (auto simp: high_byte_def bit_ucast_iff bit_drop_bit_eq add.commute)

lemma low_byte_word [simp]: "low_byte (word_of_bytes lo hi) = lo"
  by (rule bit_word_eqI) (simp add: bit_low_byte bit_word_of_bytes)

lemma high_byte_word [simp]: "high_byte (word_of_bytes lo hi) = hi"
  by (rule bit_word_eqI) (simp add: bit_high_byte bit_word_of_bytes)

lemma word_of_bytes_parts [simp]: "word_of_bytes (low_byte w) (high_byte w) = w"
  by (rule bit_word_eqI) (auto simp: bit_low_byte bit_high_byte bit_word_of_bytes)

lemma low_byte_xor: "low_byte (a XOR b) = low_byte a XOR low_byte b"
  and high_byte_xor: "high_byte (a XOR b) = high_byte a XOR high_byte b"
  by (rule bit_word_eqI, auto simp: bit_low_byte bit_high_byte bit_xor_iff)+

lemma word_of_bytes_xor:
  "word_of_bytes (a XOR b) (c XOR d) = word_of_bytes a c XOR word_of_bytes b d"
  by (rule bit_word_eqI) (simp add: bit_word_of_bytes bit_xor_iff)

lemma length_mm256 [simp]:
  "length (mm256_and a b) = 32" "length (mm256_xor a b) = 32" "length (mm256_shuffle_epi8 a b) = 32"
  "length (mm256_srli_epi16 a k) = 32"
  by (simp_all add: mm256_and_def mm256_xor_def mm256_shuffle_epi8_def mm256_srli_epi16_def)

lemma nth_mm256 [simp]:
  "i < 32 \<Longrightarrow> mm256_and a b ! i = a ! i AND b ! i"
  "i < 32 \<Longrightarrow> mm256_xor a b ! i = a ! i XOR b ! i"
  by (simp_all add: mm256_and_def mm256_xor_def)

section \<open>The nibble tables multiply\<close>

text \<open>The four nibbles of a word, as the kernel extracts them.\<close>

definition nibble :: "nat \<Rightarrow> u16 \<Rightarrow> u8" where
  "nibble p w = ucast (drop_bit (4 * p) w) AND 15"

lemma bit_nibble: "bit (nibble p w) n \<longleftrightarrow> n < 4 \<and> bit w (4 * p + n)"
  by (auto simp: nibble_def bit_and_iff bit_ucast_iff bit_drop_bit_eq bit_mask_literals)

lemma word_from_nibbles:
  fixes w :: u16
  shows "w = push_bit 0 (ucast (nibble 0 w)) XOR push_bit 4 (ucast (nibble 1 w))
     XOR push_bit 8 (ucast (nibble 2 w)) XOR push_bit 12 (ucast (nibble 3 w))" (is "w = ?sum")
proof (rule bit_word_eqI)
  fix n assume "n < LENGTH(16)"
  then consider "n < 4" | "4 \<le> n" "n < 8" | "8 \<le> n" "n < 12" | "12 \<le> n" "n < 16" by fastforce
  then show "bit w n = bit ?sum n"
    by cases (auto simp: bit_xor_iff bit_push_bit_iff bit_ucast_iff bit_nibble)
qed

lemma nibble_less: "unat (nibble p w) < 16"
proof -
  have "nibble p w = take_bit 4 (nibble p w)"
    by (rule bit_word_eqI) (auto simp: bit_take_bit_iff bit_nibble)
  then have "unat (nibble p w) = take_bit 4 (unat (nibble p w))" by (metis unsigned_take_bit_eq)
  then show ?thesis using take_bit_nat_less_exp [of 4 "unat (nibble p w)"] by simp
qed

lemma srli_nibble:
  assumes "i < 32"
  shows "mm256_srli_epi16 a 4 ! i AND 15 = drop_bit 4 (a ! i) AND 15"
proof -
  have "even i \<Longrightarrow> 2 * (i div 2) = i" "odd i \<Longrightarrow> Suc (2 * (i div 2)) = i" by presburger+
  then show ?thesis
    using assms
    by (intro bit_word_eqI) (auto simp: mm256_srli_epi16_def Let_def bit_and_iff bit_mask_literals bit_low_byte
        bit_high_byte bit_drop_bit_eq bit_word_of_bytes ac_simps)
qed

lemma shuffle_table:
  assumes "length t = 16" and "i < 32" and "\<not> bit (b ! i) 7" and "unat (b ! i AND 15) < 16"
  shows "mm256_shuffle_epi8 (t @ t) b ! i = t ! unat (b ! i AND 15)"
proof -
  let ?k = "unat (b ! i AND 15)"
  have "(t @ t) ! (16 * (i div 16) + ?k) = t ! ?k"
  proof (cases "i < 16")
    case False
    then have "i div 16 = 1" using assms(2) by auto
    then show ?thesis using assms(1) by (simp add: nth_append)
  qed (use assms in \<open>simp add: nth_append\<close>)
  then show ?thesis using assms(2,3) by (simp add: mm256_shuffle_epi8_def)
qed

lemma nibbles_of_bytes:
  "lo AND 15 = nibble 0 (word_of_bytes lo hi)" "drop_bit 4 lo AND 15 = nibble 1 (word_of_bytes lo hi)"
  "hi AND 15 = nibble 2 (word_of_bytes lo hi)" "drop_bit 4 hi AND 15 = nibble 3 (word_of_bytes lo hi)"
  by (rule bit_word_eqI, auto simp: bit_nibble bit_and_iff bit_mask_literals bit_word_of_bytes bit_drop_bit_eq ac_simps)+

lemma mul_const32_mul:
  fixes e :: nat
  assumes "length lo = 32" "length hi = 32"
  defines "r \<equiv> mul_const32 (build_nib_tab e) (lo, hi)"
  shows "length (fst r) = 32" "length (snd r) = 32"
    and "i < 32 \<Longrightarrow> word_of_bytes (fst r ! i) (snd r ! i) =
      adsc_gf16_mul (word_of_bytes (lo ! i) (hi ! i)) (adsc_gf16_pow e)"
proof -
  show "length (fst r) = 32" "length (snd r) = 32"
    by (simp_all add: r_def mul_const32_def Let_def)
  assume i: "i < 32"
  let ?w = "word_of_bytes (lo ! i) (hi ! i)" and ?k = "adsc_gf16_pow e"
  have look: "mm256_shuffle_epi8 (t @ t) b ! i = t ! unat (nibble p ?w)"
    if "b ! i = nibble p ?w" "length t = 16" for t b p
  proof -
    have "nibble p ?w AND 15 = nibble p ?w"
      by (rule bit_word_eqI) (auto simp: bit_and_iff bit_nibble bit_mask_literals)
    then show ?thesis
      using that i nibble_less [of p ?w] by (subst shuffle_table) (auto simp: bit_nibble)
  qed
  let ?m = "replicate 32 0x0F :: u8 list"
  have n: "mm256_and lo ?m ! i = nibble 0 ?w" "mm256_and (mm256_srli_epi16 lo 4) ?m ! i = nibble 1 ?w"
      "mm256_and hi ?m ! i = nibble 2 ?w" "mm256_and (mm256_srli_epi16 hi 4) ?m ! i = nibble 3 ?w"
    using i nibbles_of_bytes [where lo = "lo ! i" and hi = "hi ! i"] by (simp_all add: srli_nibble)
  let ?q = "\<lambda>p. nib_product p (unat (nibble p ?w)) ?k"
  have "fst r ! i = low_byte (?q 0 XOR ?q 1 XOR ?q 2 XOR ?q 3)"
      "snd r ! i = high_byte (?q 0 XOR ?q 1 XOR ?q 2 XOR ?q 3)"
    using i nibble_less
    by (simp_all add: r_def mul_const32_def build_nib_tab_def Let_def look [OF n(1)] look [OF n(2)]
        look [OF n(3)] look [OF n(4)] low_byte_xor high_byte_xor xor.assoc flip: numeral_2_eq_2)
  then have "word_of_bytes (fst r ! i) (snd r ! i) = ?q 0 XOR ?q 1 XOR ?q 2 XOR ?q 3" by simp
  also have "\<dots> = adsc_gf16_mul ?w ?k"
    by (subst (5) word_from_nibbles [of ?w]) (simp add: nib_product_def g16.mul_xor_left)
  finally show "word_of_bytes (fst r ! i) (snd r ! i) = adsc_gf16_mul ?w ?k" .
qed

section \<open>Splitting a row into bytes\<close>

lemma le_bytes_Cons: "le_bytes (w # ws) = low_byte w # high_byte w # le_bytes ws"
  by (simp add: le_bytes_def low_byte_def high_byte_def)

lemma length_le_bytes [simp]: "length (le_bytes v) = 2 * length v"
  by (induction v) (simp_all add: le_bytes_Cons, simp add: le_bytes_def)

lemma le_bytes_nth:
  "k < length v \<Longrightarrow> le_bytes v ! (2 * k) = low_byte (v ! k)"
  "k < length v \<Longrightarrow> le_bytes v ! Suc (2 * k) = high_byte (v ! k)"
proof -
  have "k < length v \<Longrightarrow> le_bytes v ! (2 * k) = low_byte (v ! k) \<and>
      le_bytes v ! Suc (2 * k) = high_byte (v ! k)"
  proof (induction v arbitrary: k)
    case (Cons w v)
    then show ?case by (cases k) (simp_all add: le_bytes_Cons)
  qed simp
  then show "k < length v \<Longrightarrow> le_bytes v ! (2 * k) = low_byte (v ! k)"
    "k < length v \<Longrightarrow> le_bytes v ! Suc (2 * k) = high_byte (v ! k)" by auto
qed

text \<open>Where each byte of the split registers comes from.\<close>

definition lane_shuffle :: "m256 \<Rightarrow> m256" where
  "lane_shuffle a = map (\<lambda>i. a ! (16 * (i div 16) + 2 * (i mod 8) + (i div 8) mod 2)) [0..<32]"

lemma shuffle_split:
  "mm256_shuffle_epi8 a [0, 2, 4, 6, 8, 10, 12, 14, 1, 3, 5, 7, 9, 11, 13, 15,
     0, 2, 4, 6, 8, 10, 12, 14, 1, 3, 5, 7, 9, 11, 13, 15] = lane_shuffle a"
proof -
  let ?sh = "[0, 2, 4, 6, 8, 10, 12, 14, 1, 3, 5, 7, 9, 11, 13, 15,
     0, 2, 4, 6, 8, 10, 12, 14, 1, 3, 5, 7, 9, 11, 13, 15] :: u8 list"
  have "list_all (\<lambda>i. \<not> bit (?sh ! i) 7 \<and>
      16 * (i div 16) + unat (?sh ! i AND 15) = 16 * (i div 16) + 2 * (i mod 8) + (i div 8) mod 2) [0..<32]"
    by code_simp
  then show ?thesis
    unfolding mm256_shuffle_epi8_def lane_shuffle_def list_all_iff
    by (intro map_cong) (auto simp: add.assoc)
qed

lemma unpack_permute:
  assumes "length a = 32" "length b = 32"
  shows "mm256_permute_D8 (mm256_unpacklo_epi64 a b) = slice 0 8 a @ slice 16 8 a @ slice 0 8 b @ slice 16 8 b"
    and "mm256_permute_D8 (mm256_unpackhi_epi64 a b) = slice 8 8 a @ slice 24 8 a @ slice 8 8 b @ slice 24 8 b"
  using assms
  by (simp_all add: mm256_permute_D8_def mm256_unpacklo_epi64_def mm256_unpackhi_epi64_def slice_def
      drop_append take_append)

lemma lane_slices:
  "slice 0 8 (lane_shuffle a) @ slice 16 8 (lane_shuffle a) = map (\<lambda>i. a ! (2 * i)) [0..<16]"
  "slice 8 8 (lane_shuffle a) @ slice 24 8 (lane_shuffle a) = map (\<lambda>i. a ! Suc (2 * i)) [0..<16]"
proof -
  let ?n = "\<lambda>i. 16 * (i div 16) + 2 * (i mod 8) + (i div 8) mod 2"
  have sl: "k \<le> 24 \<Longrightarrow> slice k 8 (lane_shuffle a) = map (\<lambda>i. a ! ?n i) [k..<k + 8]" for k
    by (simp add: lane_shuffle_def slice_def take_map drop_map take_upt)
  have u: "[0..<8] = [0, 1, 2, 3, 4, 5, 6, 7]"
      "[0..<16] = [0, 1, 2, 3, 4, 5, 6, 7, 8, 9, 10, 11, 12, 13, 14, 15]"
    by code_simp+
  show "slice 0 8 (lane_shuffle a) @ slice 16 8 (lane_shuffle a) = map (\<lambda>i. a ! (2 * i)) [0..<16]"
    and "slice 8 8 (lane_shuffle a) @ slice 24 8 (lane_shuffle a) = map (\<lambda>i. a ! Suc (2 * i)) [0..<16]"
    by (simp_all add: sl u) (simp_all add: numeral_2_eq_2 numeral_3_eq_3)
qed

lemma split32_nth:
  assumes "32 \<le> length v" and "i < 32"
  shows "fst (split32 v) ! i = low_byte (v ! i)" "snd (split32 v) ! i = high_byte (v ! i)"
    and "length (fst (split32 v)) = 32" "length (snd (split32 v)) = 32"
proof -
  let ?a = "le_bytes (slice 0 16 v)" and ?b = "le_bytes (slice 16 16 v)"
  have len: "length ?a = 32" "length ?b = 32" "length (lane_shuffle ?a) = 32" "length (lane_shuffle ?b) = 32"
    using assms(1) by (simp_all add: lane_shuffle_def)
  have fst: "fst (split32 v) = map (\<lambda>i. ?a ! (2 * i)) [0..<16] @ map (\<lambda>i. ?b ! (2 * i)) [0..<16]"
    and snd: "snd (split32 v) = map (\<lambda>i. ?a ! Suc (2 * i)) [0..<16] @ map (\<lambda>i. ?b ! Suc (2 * i)) [0..<16]"
    unfolding split32_def Let_def shuffle_split fst_conv snd_conv unpack_permute [OF len(3,4)]
    using lane_slices [of ?a] lane_slices [of ?b] by simp_all
  show "fst (split32 v) ! i = low_byte (v ! i)" "snd (split32 v) ! i = high_byte (v ! i)"
    using assms unfolding fst snd by (cases "i < 16"; simp add: nth_append le_bytes_nth)+
  show "length (fst (split32 v)) = 32" "length (snd (split32 v)) = 32"
    unfolding fst snd by simp_all
qed

section \<open>Writing a plane in blocks\<close>

text \<open>The bytes of a plane at \<open>off\<close> hold \<open>g\<close> up to column \<open>m\<close>; the rest is as in \<open>p0\<close>.\<close>

definition plane_upto :: "u8 list \<Rightarrow> nat \<Rightarrow> nat \<Rightarrow> (nat \<Rightarrow> u16) \<Rightarrow> nat \<Rightarrow> u8 list \<Rightarrow> bool" where
  "plane_upto p0 off S g m p \<longleftrightarrow> length p = length p0 \<and> (\<forall>i < length p0. p ! i =
     (if off \<le> i \<and> i < off + m then low_byte (g (i - off))
      else if off + S \<le> i \<and> i < off + S + m then high_byte (g (i - (off + S))) else p0 ! i))"

lemma length_store256: "length v = 32 \<Longrightarrow> off + 32 \<le> length p \<Longrightarrow> length (store256 off v p) = length p"
  by (simp add: store256_def)

lemma nth_store256:
  "length v = 32 \<Longrightarrow> off + 32 \<le> length p \<Longrightarrow> i < length p \<Longrightarrow>
   store256 off v p ! i = (if off \<le> i \<and> i < off + 32 then v ! (i - off) else p ! i)"
  by (simp add: store256_def nth_append) (auto simp: add.commute)

lemma plane_block:
  assumes p: "plane_upto p0 off S g m p" and m: "m + 32 \<le> S" and off: "off + 2 * S \<le> length p0"
    and lo: "length lo = 32" "\<And>i. i < 32 \<Longrightarrow> lo ! i = low_byte (g (m + i))"
    and hi: "length hi = 32" "\<And>i. i < 32 \<Longrightarrow> hi ! i = high_byte (g (m + i))"
  shows "plane_upto p0 off S g (m + 32) (store256 (off + S + m) hi (store256 (off + m) lo p))"
proof -
  have len: "length p = length p0" using p by (simp add: plane_upto_def)
  let ?q = "store256 (off + m) lo p"
  have q: "length ?q = length p0" using len m off lo(1) by (simp add: length_store256)
  have "store256 (off + S + m) hi ?q ! i =
      (if off \<le> i \<and> i < off + (m + 32) then low_byte (g (i - off))
       else if off + S \<le> i \<and> i < off + S + (m + 32) then high_byte (g (i - (off + S))) else p0 ! i)"
    if i: "i < length p0" for i
  proof -
    have "store256 (off + S + m) hi ?q ! i =
        (if off + S + m \<le> i \<and> i < off + S + m + 32 then hi ! (i - (off + S + m))
         else if off + m \<le> i \<and> i < off + m + 32 then lo ! (i - (off + m)) else p ! i)"
      using i q len m off lo(1) hi(1) by (simp add: nth_store256)
    also have "\<dots> = (if off + S + m \<le> i \<and> i < off + S + m + 32 then high_byte (g (i - (off + S)))
         else if off + m \<le> i \<and> i < off + m + 32 then low_byte (g (i - off)) else p ! i)"
      using lo(2) [of "i - (off + m)"] hi(2) [of "i - (off + S + m)"] by auto
    also have "\<dots> = (if off \<le> i \<and> i < off + (m + 32) then low_byte (g (i - off))
       else if off + S \<le> i \<and> i < off + S + (m + 32) then high_byte (g (i - (off + S))) else p0 ! i)"
      using p i m by (auto simp: plane_upto_def)
    finally show ?thesis .
  qed
  then show ?thesis
    using q m off hi(1) by (simp add: plane_upto_def length_store256)
qed

lemma plane_element:
  assumes p: "plane_upto p0 off S g m p" and m: "m < S" and off: "off + 2 * S \<le> length p0"
  shows "plane_upto p0 off S g (Suc m) (p[off + m := low_byte (g m), off + S + m := high_byte (g m)])"
  using assms by (auto simp: plane_upto_def nth_list_update less_Suc_eq)

lemma plane_fold:
  assumes block: "\<And>m p. plane_upto p0 off S g m p \<Longrightarrow> m + 32 \<le> S \<Longrightarrow> plane_upto p0 off S g (m + 32) (B m p)"
    and element: "\<And>m p. plane_upto p0 off S g m p \<Longrightarrow> m < S \<Longrightarrow> plane_upto p0 off S g (Suc m) (T m p)"
  shows "plane_upto p0 off S g S (fold T [32 * (S div 32)..<S] (fold (\<lambda>k. B (32 * k)) [0..<S div 32] p0))"
proof -
  have "k \<le> S div 32 \<Longrightarrow> plane_upto p0 off S g (32 * k) (fold (\<lambda>k. B (32 * k)) [0..<k] p0)" for k
  proof (induction k)
    case 0
    then show ?case by (auto simp: plane_upto_def)
  next
    case (Suc k)
    have "32 * k + 32 \<le> S" using Suc.prems by (simp add: less_eq_div_iff_mult_less_eq)
    then show ?case using block [OF Suc.IH] Suc.prems by (simp add: add.commute)
  qed
  then have v: "plane_upto p0 off S g (32 * (S div 32)) (fold (\<lambda>k. B (32 * k)) [0..<S div 32] p0)" by simp
  have "plane_upto p0 off S g m (fold T [32 * (S div 32)..<m] (fold (\<lambda>k. B (32 * k)) [0..<S div 32] p0))"
    if "32 * (S div 32) \<le> m" "m \<le> S" for m
    using that
  proof (induction m rule: dec_induct)
    case (step m)
    then show ?case using element by simp
  qed (use v in simp)
  then show ?thesis by simp
qed

section \<open>The two kernels agree\<close>

lemma split_row_spec:
  assumes "2 * S \<le> length s" and "S \<le> length v"
  shows "plane_upto s 0 S (\<lambda>c. v ! c) S (split_row S v s)"
proof -
  let ?B = "\<lambda>m s. store256 (S + m) (snd (split32 (drop m v))) (store256 m (fst (split32 (drop m v))) s)"
  have "split_row S v s = fold (\<lambda>c s. s[c := low_byte (v ! c), S + c := high_byte (v ! c)]) [32 * (S div 32)..<S]
      (fold (\<lambda>k. ?B (32 * k)) [0..<S div 32] s)"
    by (simp add: split_row_def Let_def split_beta)
  also have "plane_upto s 0 S (\<lambda>c. v ! c) S \<dots>"
  proof (rule plane_fold)
    fix m p assume p: "plane_upto s 0 S (\<lambda>c. v ! c) m p" and m: "m + 32 \<le> S"
    have "32 \<le> length (drop m v)" using m assms(2) by simp
    note sp = split32_nth(1,2) [OF this] split32_nth(3,4) [OF this, of 0]
    have d: "i < 32 \<Longrightarrow> drop m v ! i = v ! (m + i)" for i using m assms(2) by simp
    show "plane_upto s 0 S (\<lambda>c. v ! c) (m + 32) (?B m p)"
      using plane_block [OF p m _ sp(3) _ sp(4)] assms(1) sp(1,2) d by auto
  next
    fix m p assume "plane_upto s 0 S (\<lambda>c. v ! c) m p" "m < S"
    then show "plane_upto s 0 S (\<lambda>c. v ! c) (Suc m) (p[m := low_byte (v ! m), S + m := high_byte (v ! m)])"
      using plane_element [of s 0 S "\<lambda>c. v ! c" m p] assms(1) by simp
  qed
  finally show ?thesis .
qed

text \<open>The value of column \<open>c\<close> of the plane at \<open>off\<close>.\<close>

definition plane_word :: "nat \<Rightarrow> nat \<Rightarrow> u8 list \<Rightarrow> nat \<Rightarrow> u16" where
  "plane_word S off p c = word_of_bytes (p ! (off + c)) (p ! (off + S + c))"

lemma plane_upto_word:
  assumes "plane_upto p0 off S g m p" and "off + 2 * S \<le> length p0" and "m \<le> S" and "c < S"
  shows "plane_word S off p c = (if c < m then g c else plane_word S off p0 c)"
  using assms by (auto simp: plane_upto_def plane_word_def)

lemma plane_upto_elsewhere:
  assumes "plane_upto p0 off S g S p" and "off + 2 * S \<le> length p0"
    and "c < S" and "off' + 2 * S \<le> length p0" and "off' + 2 * S \<le> off \<or> off + 2 * S \<le> off'"
  shows "plane_word S off' p c = plane_word S off' p0 c"
  using assms by (auto simp: plane_upto_def plane_word_def)

lemma avx2_plane_spec:
  assumes p: "r * 2 * S + 2 * S \<le> length p" and s: "length s = 2 * S" and r: "r < 65535"
  shows "plane_upto p (r * 2 * S) S
    (\<lambda>c. adsc_gf16_mul (plane_word S (r * 2 * S) p c) (adsc_gf16_pow r) XOR plane_word S 0 s c)
    S (avx2_plane build_nib_tab S s r p)"
proof -
  let ?off = "r * 2 * S"
  let ?g = "\<lambda>c. adsc_gf16_mul (plane_word S ?off p c) (adsc_gf16_pow r) XOR plane_word S 0 s c"
  have "plane_upto p ?off S ?g S (fold (avx2_tail S r ?off s) [32 * (S div 32)..<S]
      (fold (\<lambda>k. avx2_block (build_nib_tab r) S r ?off s (32 * k)) [0..<S div 32] p))"
  proof (rule plane_fold)
    fix m q assume q: "plane_upto p ?off S ?g m q" and m: "m + 32 \<le> S"
    let ?lo = "slice (?off + m) 32 q" and ?hi = "slice (?off + S + m) 32 q"
    let ?r = "if r \<noteq> 0 then mul_const32 (build_nib_tab r) (?lo, ?hi) else (?lo, ?hi)"
    have len: "length q = length p" using q by (simp add: plane_upto_def)
    have sl: "length ?lo = 32" "length ?hi = 32" using len m p by simp_all
    have "i < 32 \<Longrightarrow> word_of_bytes (?lo ! i) (?hi ! i) = plane_word S ?off p (m + i)" for i
      using plane_upto_word [OF q p, of "m + i"] m p len
      by (simp add: plane_word_def add.assoc)
    then have w: "i < 32 \<Longrightarrow> word_of_bytes (fst ?r ! i) (snd ?r ! i) =
        adsc_gf16_mul (plane_word S ?off p (m + i)) (adsc_gf16_pow r)" for i
      using mul_const32_mul(3) [OF sl, of i r] by (cases "r = 0") simp_all
    have x: "i < 32 \<Longrightarrow> slice m 32 s ! i = low_byte (plane_word S 0 s (m + i))"
        "i < 32 \<Longrightarrow> slice (S + m) 32 s ! i = high_byte (plane_word S 0 s (m + i))" for i
      using m s by (simp_all add: plane_word_def add.assoc)
    obtain lo hi where lh: "?r = (lo, hi)" by (rule prod.exhaust)
    have b: "i < 32 \<Longrightarrow> lo ! i = low_byte (adsc_gf16_mul (plane_word S ?off p (m + i)) (adsc_gf16_pow r))"
        "i < 32 \<Longrightarrow> hi ! i = high_byte (adsc_gf16_mul (plane_word S ?off p (m + i)) (adsc_gf16_pow r))" for i
      using w [of i] unfolding lh fst_conv snd_conv by (metis low_byte_word, metis high_byte_word)
    have "avx2_block (build_nib_tab r) S r ?off s m q =
        store256 (?off + S + m) (mm256_xor hi (slice (S + m) 32 s))
          (store256 (?off + m) (mm256_xor lo (slice m 32 s)) q)"
      unfolding avx2_block_def Let_def lh by simp
    moreover have "plane_upto p ?off S ?g (m + 32) (store256 (?off + S + m) (mm256_xor hi (slice (S + m) 32 s))
          (store256 (?off + m) (mm256_xor lo (slice m 32 s)) q))"
      by (rule plane_block [OF q m p]) (simp_all add: b x low_byte_xor high_byte_xor)
    ultimately show "plane_upto p ?off S ?g (m + 32) (avx2_block (build_nib_tab r) S r ?off s m q)" by simp
  next
    fix m q assume q: "plane_upto p ?off S ?g m q" and m: "m < S"
    have "plane_word S ?off q m = plane_word S ?off p m" using plane_upto_word [OF q p, of m] m by simp
    then have "avx2_tail S r ?off s m q = q[?off + m := low_byte (?g m), ?off + S + m := high_byte (?g m)]"
      using r by (simp add: avx2_tail_def Let_def plane_word_def gf16_mul_pow_fast)
    then show "plane_upto p ?off S ?g (Suc m) (avx2_tail S r ?off s m q)"
      using plane_element [OF q m p] by simp
  qed
  then show ?thesis by (simp add: avx2_plane_def Let_def)
qed

text \<open>One row over all planes, then all rows.\<close>

definition same_planes :: "nat \<Rightarrow> nat \<Rightarrow> u8 list \<Rightarrow> u16 list \<Rightarrow> bool" where
  "same_planes S npar alt acc \<longleftrightarrow> length alt = 2 * S * npar \<and> length acc = S * npar \<and>
     (\<forall>r < npar. \<forall>c < S. plane_word S (r * 2 * S) alt c = acc ! (r * S + c))"

lemma plane_bound: "r < npar \<Longrightarrow> r * 2 * S + 2 * S \<le> 2 * S * npar"
  for r :: nat
  using mult_le_mono2 [of "Suc r" npar "2 * S"] by (simp add: algebra_simps)

lemma avx2_planes:
  assumes len: "length alt = 2 * S * npar" and s: "length s = 2 * S" and n: "npar \<le> max_npar"
  shows "k \<le> npar \<Longrightarrow> length (fold (avx2_plane build_nib_tab S s) [0..<k] alt) = length alt \<and>
    (\<forall>r < npar. \<forall>c < S. plane_word S (r * 2 * S) (fold (avx2_plane build_nib_tab S s) [0..<k] alt) c =
      (if r < k then adsc_gf16_mul (plane_word S (r * 2 * S) alt c) (adsc_gf16_pow r) XOR plane_word S 0 s c
       else plane_word S (r * 2 * S) alt c))"
proof (induction k)
  case (Suc k)
  let ?q = "fold (avx2_plane build_nib_tab S s) [0..<k] alt"
  let ?q' = "avx2_plane build_nib_tab S s k ?q"
  have q: "length ?q = 2 * S * npar" using Suc len by simp
  have off: "r < npar \<Longrightarrow> r * 2 * S + 2 * S \<le> length ?q" for r using plane_bound [of r npar S] q by simp
  have k: "k < npar" "k < 65535" using Suc.prems n by (simp_all add: max_npar_def)
  note sp = avx2_plane_spec [OF off [OF k(1)] s k(2)]
  have "plane_word S (r * 2 * S) ?q' c =
      (if r < Suc k then adsc_gf16_mul (plane_word S (r * 2 * S) alt c) (adsc_gf16_pow r) XOR plane_word S 0 s c
       else plane_word S (r * 2 * S) alt c)" if r: "r < npar" "c < S" for r c
  proof (cases "r = k")
    case True
    then show ?thesis using plane_upto_word [OF sp off [OF k(1)] order_refl r(2)] Suc r by simp
  next
    case False
    have "r * 2 * S + 2 * S \<le> k * 2 * S \<or> k * 2 * S + 2 * S \<le> r * 2 * S"
      using False plane_bound [of r k S] plane_bound [of k r S] by (cases "r < k") (auto simp: algebra_simps)
    then have "plane_word S (r * 2 * S) ?q' c = plane_word S (r * 2 * S) ?q c"
      using plane_upto_elsewhere [OF sp off [OF k(1)] r(2) off [OF r(1)]] by simp
    then show ?thesis using Suc r False by (auto simp: less_Suc_eq)
  qed
  moreover have "length ?q' = length alt" using sp q len by (simp add: plane_upto_def)
  ultimately show ?case by simp
qed simp

lemma avx2_row_same:
  assumes sm: "same_planes S npar alt acc" and s: "length s = 2 * S" and n: "1 \<le> npar" "npar \<le> max_npar"
    and v: "first + j * S + S \<le> length pcm" and S: "0 < S"
  shows "\<exists>alt' s'. avx2_row build_nib_tab pcm first S npar j (alt, s, crc) =
      (alt', s', snd (sweep_row pcm first S npar j (acc, crc))) \<and> length s' = 2 * S \<and>
      same_planes S npar alt' (fst (sweep_row pcm first S npar j (acc, crc)))"
proof -
  let ?v = "drop (first + j * S) pcm" and ?row = "sweep_row pcm first S npar j (acc, crc)"
  let ?s = "split_row S ?v s"
  let ?alt = "fold (avx2_plane build_nib_tab S ?s) [0..<npar] alt"
  have acc: "length acc = S * npar" "length alt = 2 * S * npar" using sm by (simp_all add: same_planes_def)
  have sv: "plane_upto s 0 S (\<lambda>c. ?v ! c) S ?s" using s v by (intro split_row_spec) simp_all
  have s': "length ?s = 2 * S" using sv s by (simp add: plane_upto_def)
  have "c < S \<Longrightarrow> plane_word S 0 ?s c = ?v ! c" for c
    using plane_upto_word [OF sv _ order_refl, of c] s by simp
  then have "plane_word S (r * 2 * S) ?alt c = fst ?row ! (r * S + c)" if "r < npar" "c < S" for r c
    using avx2_planes [OF acc(2) s' n(2), of npar] that sm sweep_row_nth(1) [OF acc(1) n that]
    by (simp add: same_planes_def)
  moreover have "length (fst ?row) = S * npar" using sweep_row_nth(2) [OF acc(1) n, of 0 0] n S by simp
  moreover have "length ?alt = 2 * S * npar" using avx2_planes [OF acc(2) s' n(2), of npar] acc by simp
  ultimately have "same_planes S npar ?alt (fst ?row)" by (simp add: same_planes_def)
  then show ?thesis using s' by (simp add: avx2_row_def sweep_row_def Let_def)
qed

lemma avx2_rows_same:
  assumes sm: "same_planes S npar alt acc" and s: "length s = 2 * S" and n: "1 \<le> npar" "npar \<le> max_npar"
    and S: "0 < S"
  shows "first + k * S \<le> length pcm \<Longrightarrow>
    \<exists>alt' s'. fold (avx2_row build_nib_tab pcm first S npar) [0..<k] (alt, s, crc) =
      (alt', s', snd (fold (sweep_row pcm first S npar) [0..<k] (acc, crc))) \<and> length s' = 2 * S \<and>
      same_planes S npar alt' (fst (fold (sweep_row pcm first S npar) [0..<k] (acc, crc)))"
proof (induction k)
  case (Suc k)
  let ?r = "fold (sweep_row pcm first S npar) [0..<k] (acc, crc)"
  obtain a c where r: "?r = (a, c)" by (rule prod.exhaust)
  have "first + k * S \<le> length pcm" using Suc.prems by simp
  then obtain alt' s' where "fold (avx2_row build_nib_tab pcm first S npar) [0..<k] (alt, s, crc) = (alt', s', c)"
      "length s' = 2 * S" "same_planes S npar alt' a" using Suc.IH r by auto
  then show ?case using avx2_row_same [of S npar alt' a s' first k pcm c] n S Suc.prems r by (simp add: add.commute add.left_commute)
qed (use sm s in simp)

lemma planes_concat:
  assumes "length acc = S * npar"
  shows "concat (map (\<lambda>r. map (\<lambda>c. acc ! (r * S + c)) [0..<S]) [0..<npar]) = acc"
proof -
  have "k \<le> npar \<Longrightarrow> concat (map (\<lambda>r. map (\<lambda>c. acc ! (r * S + c)) [0..<S]) [0..<k]) = take (k * S) acc" for k
  proof (induction k)
    case (Suc k)
    have "k * S + S \<le> length acc" using Suc.prems assms mult_le_mono1 [of "Suc k" npar S] by (simp add: mult.commute)
    then have "map (\<lambda>c. acc ! (k * S + c)) [0..<S] = take S (drop (k * S) acc)"
      by (intro nth_equalityI) simp_all
    then show ?case using Suc by (simp add: take_add add.commute [of S])
  qed simp
  from this [of npar] show ?thesis using assms by (simp add: mult.commute)
qed

lemma sweep_scalar_or_avx2:
  assumes n: "1 \<le> npar" "npar \<le> max_npar" and S: "0 < S" and v: "first + sc * S \<le> length pcm"
    and s: "pred_option (\<lambda>s. length s = 2 * S) scratch"
  shows "adsc_ctdb_sweep avx2 scratch pcm first S sc npar (replicate (S * npar) 0) =
    sweep_scalar pcm first S sc npar (replicate (S * npar) 0)"
proof -
  let ?acc = "replicate (S * npar) 0 :: u16 list"
  have "sweep_avx2 pcm first S sc npar ?acc t = sweep_scalar pcm first S sc npar ?acc"
    if t: "length t = 2 * S" for t
  proof -
    have z: "le_bytes (replicate k 0) = replicate (2 * k) 0" for k
      by (induction k) (simp_all add: le_bytes_Cons low_byte_def high_byte_def, simp add: le_bytes_def)
    have "same_planes S npar (le_bytes ?acc) ?acc"
    proof -
      have "r * S + c < S * npar \<and> r * 2 * S + c < 2 * (S * npar) \<and> r * 2 * S + S + c < 2 * (S * npar)" if "r < npar" "c < S" for r c
        using plane_bound [OF that(1), of S] that mult_le_mono1 [of "Suc r" npar S] by (simp add: algebra_simps)
      then show ?thesis
        unfolding same_planes_def z by (auto simp: plane_word_def word_of_bytes_def)
    qed
    from avx2_rows_same [OF this t n S v, of "0xFFFFFFFF"]
    obtain alt s' acc crc where r: "fold (sweep_row pcm first S npar) [0..<sc] (?acc, 0xFFFFFFFF) = (acc, crc)"
        "fold (avx2_row build_nib_tab pcm first S npar) [0..<sc] (le_bytes ?acc, t, 0xFFFFFFFF) = (alt, s', crc)"
        "same_planes S npar alt acc"
      by (cases "fold (sweep_row pcm first S npar) [0..<sc] (?acc, 0xFFFFFFFF)") auto
    have "map (\<lambda>c. word_of_bytes (slice (r * 2 * S) (2 * S) alt ! c) (slice (r * 2 * S) (2 * S) alt ! (S + c))) [0..<S] =
        map (\<lambda>c. acc ! (r * S + c)) [0..<S]" if "r < npar" for r
      using r(3) plane_bound [OF that, of S] that
      by (intro map_cong) (auto simp: same_planes_def plane_word_def add.assoc)
    then have "concat (map (\<lambda>r. map (\<lambda>c. word_of_bytes (slice (r * 2 * S) (2 * S) alt ! c)
        (slice (r * 2 * S) (2 * S) alt ! (S + c))) [0..<S]) [0..<npar]) =
        concat (map (\<lambda>r. map (\<lambda>c. acc ! (r * S + c)) [0..<S]) [0..<npar])"
      by (intro arg_cong [where f = concat] map_cong) auto
    also have "\<dots> = acc" using r(3) by (intro planes_concat) (simp add: same_planes_def)
    finally show ?thesis by (simp add: sweep_avx2_def sweep_scalar_def r(1,2) Let_def)
  qed
  then show ?thesis using s by (cases scratch; cases avx2) (simp_all add: adsc_ctdb_sweep_def)
qed

lemma sweep_any_kernel:
  assumes "1 \<le> npar" "npar \<le> max_npar" and "0 < S" and "first + sc * S \<le> length pcm"
    and "pred_option (\<lambda>s. length s = 2 * S) scratch"
  shows "adsc_ctdb_sweep avx2 scratch pcm first S sc npar (replicate (S * npar) 0) =
    sweep_reference pcm first S sc npar"
  using sweep_scalar_or_avx2 [OF assms] sweep_scalar_reference [OF assms(1-4)] by simp

text \<open>
  C15: whichever kernel the machine, the environment and the allocator lead to - the portable one or
  the vector one over its split rows - a sweep of a span inside the image over a zeroed accumulator
  leaves, for every check and column, the syndrome sum of that column's words, and the checksum of
  exactly the words swept.
\<close>

theorem sweep_kernels_agree:
  assumes "1 \<le> npar" "npar \<le> max_npar" and "0 < S" and "first + sc * S \<le> length pcm"
    and "pred_option (\<lambda>s. length s = 2 * S) scratch"
  shows "adsc_ctdb_sweep (kernel_choice cpu env) scratch pcm first S sc npar (replicate (S * npar) 0) =
    sweep_reference pcm first S sc npar"
  by (rule sweep_any_kernel [OF assms])

theorem sweep_kernels_agree_witness:
  "adsc_ctdb_sweep (kernel_choice True None) (Some [7, 7, 7, 7]) [1, 2, 3, 4, 5] 1 2 2 2 (replicate (2 * 2) 0) =
    sweep_reference [1, 2, 3, 4, 5] 1 2 2 2"
  by (rule sweep_kernels_agree) (simp_all add: max_npar_def)

end
