(* ===== verification/Ctdb.thy ===== *)
theory Ctdb
  imports SweepSimd
begin

text \<open>
  The repair of a finished rip from published parity (\<^verbatim>\<open>src/repair/ctdb.c\<close>): geometry of the
  codeword grid, the two passes, and what the caller is told. Buffers are the lists of their
  bytes; whether the three of them are at even addresses is a field of the request, null pointers
  are not modelled. Sizes and indices stay far below \<open>2^64\<close> and are natural numbers, offsets and
  the signed intermediates integers.
\<close>

section \<open>Request and report\<close>

record accudisc_ctdb_req =
  ctq_size :: nat
  ctq_npar :: nat
  ctq_wire_stride :: nat
  ctq_image_first_frame :: nat
  ctq_image_frames :: nat
  ctq_offset_pairs :: int
  ctq_pcm :: "u8 list"
  ctq_parity :: "u8 list"
  ctq_erasures :: "u8 list option"
  ctq_aligned :: bool

record accudisc_ctdb_report =
  ctr_offset_pairs :: int
  ctr_dirty :: nat
  ctr_repaired :: nat
  ctr_refused :: nat
  ctr_erasure :: nat
  ctr_corrections :: nat
  ctr_crc_before :: u32
  ctr_crc_after :: u32
  ctr_unverified :: nat

datatype ctdb_status = CTDB_OK | CTDB_UNVERIFIED

definition ctdb_req_size :: nat where "ctdb_req_size = 72"
definition ctdb_report_size :: nat where "ctdb_report_size = 40"
definition words_per_frame :: nat where "words_per_frame = 1176"

text \<open>The 16-bit words of a buffer.\<close>

definition le_words :: "u8 list \<Rightarrow> u16 list" where
  "le_words b = map (\<lambda>i. word_of_bytes (b ! (2 * i)) (b ! (2 * i + 1))) [0..<length b div 2]"

section \<open>Geometry\<close>

text \<open>\<open>S\<close>, the number of rows, and the first word of the codeword region at this offset.\<close>

definition ctdb_geometry :: "accudisc_ctdb_req \<Rightarrow> (nat \<times> nat \<times> nat) res" where
  "ctdb_geometry req =
     (if ctq_npar req = 0 \<or> ctq_npar req > max_npar then Inl ERR_INVAL
      else if ctq_wire_stride req = 0 \<or> ctq_wire_stride req > 0x40000000 then Inl ERR_INVAL
      else if ctq_image_frames req = 0 then Inl ERR_INVAL
      else
        let npar = ctq_npar req;
            S = ctq_wire_stride req * 2;
            base = ctq_image_first_frame req * words_per_frame;
            W = ctq_image_frames req * words_per_frame;
            pcm_words = length (ctq_pcm req) div 2;
            delta = ctq_offset_pairs req * 2
        in if length (ctq_parity req) \<noteq> S * npar * 2 then Inl ERR_INVAL
           else if W div S < 3 \<or> W div S - 2 > 65535 then Inl ERR_INVAL
           else
             let sc = W div S - 2;
                 first = int base + int S + delta;
                 last = first + int sc * int S - 1
             in if base + W > pcm_words then Inl ERR_INVAL
                else if first < 0 \<or> last < 0 \<or> last \<ge> int pcm_words then Inl ERR_INVAL
                else if (case ctq_erasures req of None \<Rightarrow> False
                         | Some bm \<Rightarrow> length bm < (pcm_words + 7) div 8) then Inl ERR_INVAL
                else if S * npar > 0xFFFFFFFF then Inl ERR_INVAL
                else Inr (S, sc, nat first))"

section \<open>Columns\<close>

record column_tally =
  ct_dirty :: nat
  ct_repaired :: nat
  ct_refused :: nat
  ct_erasure_cols :: nat
  ct_unverified :: nat
  ct_fixes :: "(nat \<times> u16) list"

definition column_syn :: "nat \<Rightarrow> nat \<Rightarrow> u16 list \<Rightarrow> u16 list \<Rightarrow> nat \<Rightarrow> u16 list" where
  "column_syn npar S acc par c = map (\<lambda>r. acc ! (r * S + c) XOR par ! (r * S + c)) [0..<npar]"

definition erased :: "u8 list \<Rightarrow> nat \<Rightarrow> bool" where
  "erased bm w \<longleftrightarrow> bm ! (w div 8) AND push_bit (w mod 8) 1 \<noteq> 0"

text \<open>The scan stops one past \<open>npar\<close>.\<close>

definition column_erasures ::
    "u8 list option \<Rightarrow> nat \<Rightarrow> nat \<Rightarrow> nat \<Rightarrow> nat \<Rightarrow> nat \<Rightarrow> nat list" where
  "column_erasures er npar S sc first c =
     (case er of None \<Rightarrow> []
      | Some bm \<Rightarrow> take (Suc npar) (filter (\<lambda>p. erased bm (first + c + p * S)) [0..<sc]))"

fun answered :: "(nat \<times> u16) list res \<Rightarrow> bool" where
  "answered (Inr (e # es)) \<longleftrightarrow> True"
| "answered _ \<longleftrightarrow> False"

text \<open>The two attempts, and whether the first one was determined rather than verified.\<close>

definition decode_column ::
    "nat \<Rightarrow> u16 list \<Rightarrow> nat \<Rightarrow> nat list \<Rightarrow> (nat \<times> u16) list res \<times> bool" where
  "decode_column npar E sc es =
     (let n = adsc_rs16_decode npar E sc es (max_npar + 1);
          unverified = (answered n \<and> length es = npar);
          n = (if \<not> answered n \<and> es \<noteq> [] then adsc_rs16_decode npar E sc [] (max_npar + 1) else n)
      in (n, unverified))"

fun add_fixes ::
    "nat \<Rightarrow> u16 list \<Rightarrow> nat \<Rightarrow> nat \<Rightarrow> nat \<Rightarrow> (nat \<times> u16) list \<Rightarrow> (nat \<times> u16) list \<Rightarrow> (nat \<times> u16) list res"
where
  "add_fixes fix_cap pcm S first c [] fixes = Inr fixes"
| "add_fixes fix_cap pcm S first c ((p, v) # es) fixes =
     (let w = first + c + p * S in
      if length fixes \<ge> fix_cap then Inl ERR_NOMEM
      else add_fixes fix_cap pcm S first c es (fixes @ [(w, pcm ! w XOR v)]))"

definition ctdb_column ::
    "u8 list option \<Rightarrow> nat \<Rightarrow> u16 list \<Rightarrow> nat \<Rightarrow> nat \<Rightarrow> nat \<Rightarrow> u16 list \<Rightarrow> u16 list \<Rightarrow> nat \<Rightarrow> column_tally \<Rightarrow> column_tally res"
where
  "ctdb_column er npar pcm S sc first acc par c t =
     (let E = column_syn npar S acc par c in
      if list_all (\<lambda>e. e = 0) E then Inr t
      else
        let t = t\<lparr>ct_dirty := ct_dirty t + 1\<rparr>;
            es = column_erasures er npar S sc first c;
            t = (if es \<noteq> [] then t\<lparr>ct_erasure_cols := ct_erasure_cols t + 1\<rparr> else t);
            (n, unverified) = decode_column npar E sc es;
            t = (if unverified then t\<lparr>ct_unverified := ct_unverified t + 1\<rparr> else t)
        in if \<not> answered n then Inr (t\<lparr>ct_refused := ct_refused t + 1\<rparr>)
           else
             let t = t\<lparr>ct_repaired := ct_repaired t + 1\<rparr> in
             case add_fixes (S * npar) pcm S first c (projr n) (ct_fixes t) of
               Inl e \<Rightarrow> Inl e
             | Inr fixes \<Rightarrow> Inr (t\<lparr>ct_fixes := fixes\<rparr>))"

fun ctdb_columns ::
    "(nat \<Rightarrow> column_tally \<Rightarrow> column_tally res) \<Rightarrow> nat list \<Rightarrow> column_tally \<Rightarrow> column_tally res" where
  "ctdb_columns f [] t = Inr t"
| "ctdb_columns f (c # cs) t = (case f c t of Inl e \<Rightarrow> Inl e | Inr t \<Rightarrow> ctdb_columns f cs t)"

definition no_columns :: column_tally where
  "no_columns = \<lparr>ct_dirty = 0, ct_repaired = 0, ct_refused = 0, ct_erasure_cols = 0, ct_unverified = 0,
     ct_fixes = []\<rparr>"

section \<open>The repair\<close>

definition put_word :: "nat \<times> u16 \<Rightarrow> u8 list \<Rightarrow> u8 list" where
  "put_word = (\<lambda>(w, v) b. b[2 * w := low_byte v, 2 * w + 1 := high_byte v])"

text \<open>
  \<open>avx2\<close> is what the kernel choice answers, \<open>fresh\<close> whether and with which content the scratch
  row is allocated, \<open>callocs\<close> whether the two working arrays are, and \<open>report\<close> the size the caller
  declares for its report if it passes one. The result is the return code, what \<open>out_pcm\<close> holds
  if it is written, and the report if it is.
\<close>

definition accudisc_ctdb_repair ::
    "bool \<Rightarrow> (nat \<Rightarrow> u8) option \<Rightarrow> bool \<Rightarrow> accudisc_ctdb_req \<Rightarrow> nat option \<Rightarrow>
     ctdb_status res \<times> u8 list option \<times> accudisc_ctdb_report option" where
  "accudisc_ctdb_repair avx2 fresh callocs req report =
     (if ctq_size req \<noteq> ctdb_req_size then (Inl ERR_ABI, None, None)
      else if (case report of None \<Rightarrow> False | Some n \<Rightarrow> n \<noteq> ctdb_report_size) then (Inl ERR_ABI, None, None)
      else if \<not> ctq_aligned req then (Inl ERR_INVAL, None, None)
      else case ctdb_geometry req of
        Inl e \<Rightarrow> (Inl e, None, None)
      | Inr (S, sc, first) \<Rightarrow>
          if \<not> callocs then (Inl ERR_NOMEM, None, None)
          else
            let npar = ctq_npar req; pcm = le_words (ctq_pcm req); par = le_words (ctq_parity req);
                scratch = map_option (\<lambda>f. map f [0..<2 * S]) fresh;
                (acc, before) = adsc_ctdb_sweep avx2 scratch pcm first S sc npar (replicate (S * npar) 0)
            in case ctdb_columns (ctdb_column (ctq_erasures req) npar pcm S sc first acc par) [0..<S] no_columns of
                Inl e \<Rightarrow> (Inl e, None, None)
              | Inr t \<Rightarrow>
                  let refused = (ct_refused t \<noteq> 0);
                      dst = fold put_word (ct_fixes t) (ctq_pcm req);
                      after = (if refused \<or> ct_fixes t = [] then before
                        else adsc_ctdb_crc32_words (slice first (sc * S) (le_words dst)));
                      rep = \<lparr>ctr_offset_pairs = ctq_offset_pairs req, ctr_dirty = ct_dirty t,
                        ctr_repaired = ct_repaired t, ctr_refused = ct_refused t,
                        ctr_erasure = ct_erasure_cols t,
                        ctr_corrections = (if refused then 0 else length (ct_fixes t)),
                        ctr_crc_before = before, ctr_crc_after = after,
                        ctr_unverified = (if refused then 0 else ct_unverified t)\<rparr>
                  in (if refused then Inl ERR_NOTFOUND
                      else if ct_unverified t \<noteq> 0 then Inr CTDB_UNVERIFIED else Inr CTDB_OK,
                      if refused then None else Some dst,
                      map_option (\<lambda>_. rep) report))"

end
