(* ===== verification/CtdbSpec.thy ===== *)
theory CtdbSpec
  imports Ctdb
begin

text \<open>
  What a caller of the parity repair can rely on: an output is written only when every column
  agrees with the published parity afterwards; damage within the capacity of the parity is undone
  exactly; and the report describes what happened.
\<close>

section \<open>Geometry\<close>

lemma geometry_facts:
  assumes "ctdb_geometry req = Inr (S, sc, first)"
  shows "1 \<le> ctq_npar req" "ctq_npar req \<le> max_npar" "0 < S" "1 \<le> sc" "sc \<le> 65535"
    "first + sc * S \<le> length (ctq_pcm req) div 2" "length (ctq_parity req) = S * ctq_npar req * 2"
proof -
  show "1 \<le> ctq_npar req" "ctq_npar req \<le> max_npar" and "0 < S"
    and "length (ctq_parity req) = S * ctq_npar req * 2"
    and sc: "1 \<le> sc" "sc \<le> 65535"
    using assms by (auto simp: ctdb_geometry_def Let_def split: if_splits)
  have "\<exists>x :: int. first = nat x \<and> 0 \<le> x \<and> x + int sc * int S - 1 < int (length (ctq_pcm req) div 2)"
    using assms by (auto simp: ctdb_geometry_def Let_def split: if_splits)
  then show "first + sc * S \<le> length (ctq_pcm req) div 2"
    by (auto simp: nat_add_distrib [symmetric] le_nat_iff zle_int [symmetric] simp del: zle_int of_nat_div)
qed

text \<open>The word a codeword symbol is stored in, and where a word of the region belongs.\<close>

lemma grid_index:
  assumes "(c :: nat) < S" and "j < sc"
  shows "first + c + j * S < first + sc * S" "(first + c + j * S - first) mod S = c"
    "(first + c + j * S - first) div S = j"
proof -
  have "c + j * S < Suc j * S" using assms(1) by simp
  also have "\<dots> \<le> sc * S" using assms(2) by (intro mult_le_mono1) simp
  finally show "first + c + j * S < first + sc * S" by simp
qed (use assms in \<open>simp_all add: add.assoc\<close>)

lemma grid_cases:
  assumes "i < first + sc * S" and "(first :: nat) \<le> i" and "0 < S"
  obtains c j where "c < S" "j < sc" "i = first + c + j * S"
proof
  let ?c = "(i - first) mod S" and ?j = "(i - first) div S"
  show "?c < S" using assms(3) by simp
  show "?j < sc" using assms by (simp add: less_mult_imp_div_less)
  show "i = first + ?c + ?j * S"
    using assms(2) mod_mult_div_eq [of "i - first" S] by (simp add: add.assoc mult.commute)
qed

section \<open>Corrections as masks\<close>

text \<open>The mask a list of corrections puts on each symbol of its column.\<close>

definition mask_of :: "(nat \<times> u16) list \<Rightarrow> nat \<Rightarrow> u16" where
  "mask_of out j = (case map_of out j of Some v \<Rightarrow> v | None \<Rightarrow> 0)"

lemma error_syn_xor: "error_syn n (\<lambda>j. f j XOR g j) r = error_syn n f r XOR error_syn n g r"
proof (induction n)
  case (Suc n)
  then show ?case by (simp only: error_syn_Suc g16.mul_xor_left UNIV_I) (simp add: ac_simps)
qed (simp add: error_syn_def)

lemma error_syn_cong: "(\<And>j. j < n \<Longrightarrow> f j = g j) \<Longrightarrow> error_syn n f r = error_syn n g r"
  unfolding error_syn_def by (intro arg_cong [where f = xor_list] map_cong) auto

lemma error_syn_zero [simp]: "error_syn n (\<lambda>j. 0) r = 0"
  by (induction n) (simp add: error_syn_def, simp add: error_syn_Suc)

lemma error_syn_single:
  assumes "j < n"
  shows "error_syn n (\<lambda>i. if i = j then v else 0) r = adsc_gf16_mul v (adsc_gf16_pow (r * (n - 1 - j)))"
proof -
  let ?t = "\<lambda>i. adsc_gf16_mul (if i = j then v else 0) (adsc_gf16_pow (r * (n - 1 - i)))"
  have "gf (error_syn n (\<lambda>i. if i = j then v else 0) r) = (\<Sum>i\<in>{0..<n}. gf (?t i))"
    by (simp add: error_syn_def gf_xor_list o_def sum_list_distinct_conv_sum_set)
  also have "\<dots> = (\<Sum>i\<in>{0..<n}. if i = j then gf (?t j) else 0)"
    by (intro sum.cong) auto
  also have "\<dots> = gf (?t j)" using assms by simp
  finally have "error_syn n (\<lambda>i. if i = j then v else 0) r = ?t j" by (simp only: gf_eq_iff)
  then show ?thesis by simp
qed

lemma error_syn_mask:
  assumes "distinct (map fst out)" and "\<And>j v. (j, v) \<in> set out \<Longrightarrow> j < n"
  shows "error_syn n (mask_of out) r = errata_syn n out r"
  using assms
proof (induction out)
  case Nil
  then show ?case by (simp add: mask_of_def errata_syn_def)
next
  case (Cons e out)
  obtain j v where e: "e = (j, v)" by (cases e)
  have "mask_of out j = 0" using Cons.prems(1) by (simp add: e mask_of_def map_of_eq_None_iff [THEN iffD2])
  then have "mask_of (e # out) = (\<lambda>i. (if i = j then v else 0) XOR mask_of out i)"
    by (auto simp: e mask_of_def)
  moreover have "j < n" using Cons.prems(2) [of j v] by (simp add: e)
  moreover have "error_syn n (mask_of out) r = errata_syn n out r"
    using Cons.prems by (intro Cons.IH) (auto simp: e)
  ultimately show ?case
    by (simp only: error_syn_xor error_syn_single) (simp add: e errata_syn_def)
qed

section \<open>One column\<close>

text \<open>What pass 2 settles on for a column: nothing to do, corrections, or a refusal.\<close>

definition column_answer ::
    "u8 list option \<Rightarrow> nat \<Rightarrow> nat \<Rightarrow> nat \<Rightarrow> nat \<Rightarrow> u16 list \<Rightarrow> u16 list \<Rightarrow> nat \<Rightarrow> (nat \<times> u16) list option" where
  "column_answer er npar S sc first acc par c =
     (let E = column_syn npar S acc par c in
      if list_all (\<lambda>e. e = 0) E then Some []
      else let n = fst (decode_column npar E sc (column_erasures er npar S sc first c))
           in if answered n then Some (projr n) else None)"

definition column_fixes :: "u16 list \<Rightarrow> nat \<Rightarrow> nat \<Rightarrow> nat \<Rightarrow> (nat \<times> u16) list \<Rightarrow> (nat \<times> u16) list" where
  "column_fixes pcm S first c = map (\<lambda>(p, v). (first + c + p * S, pcm ! (first + c + p * S) XOR v))"

definition column_unverified ::
    "u8 list option \<Rightarrow> nat \<Rightarrow> nat \<Rightarrow> nat \<Rightarrow> nat \<Rightarrow> u16 list \<Rightarrow> u16 list \<Rightarrow> nat \<Rightarrow> bool" where
  "column_unverified er npar S sc first acc par c =
     (let E = column_syn npar S acc par c in
      \<not> list_all (\<lambda>e. e = 0) E \<and> snd (decode_column npar E sc (column_erasures er npar S sc first c)))"

lemma answered_cases: "answered n \<longleftrightarrow> (\<exists>e es. n = Inr (e # es))"
  by (cases n rule: answered.cases) auto

lemma decode_column_answer:
  assumes "fst (decode_column npar E sc es) = Inr out"
  shows "errata_ok npar sc E out"
  using assms by (auto simp: decode_column_def Let_def dest!: decode_errata_ok split: if_splits)

lemma column_syn_nth: "r < npar \<Longrightarrow> column_syn npar S acc par c ! r = acc ! (r * S + c) XOR par ! (r * S + c)"
  by (simp add: column_syn_def)

lemma column_answer_ok:
  assumes "column_answer er npar S sc first acc par c = Some out"
  shows "errata_ok npar sc (column_syn npar S acc par c) out"
proof (cases "list_all (\<lambda>e. e = 0) (column_syn npar S acc par c)")
  case True
  then have "r < npar \<Longrightarrow> column_syn npar S acc par c ! r = 0" for r
    by (simp add: list_all_length) (simp add: column_syn_def)
  then show ?thesis
    using assms True by (simp add: column_answer_def errata_ok_def errata_syn_def list_all_iff)
next
  case False
  then show ?thesis
    using assms by (auto simp: column_answer_def Let_def answered_cases intro!: decode_column_answer
        split: if_splits)
qed

lemma add_fixes_spec:
  assumes "length fs + length es \<le> cap"
  shows "add_fixes cap pcm S first c es fs = Inr (fs @ column_fixes pcm S first c es)"
  using assms by (induction es arbitrary: fs) (auto simp: column_fixes_def Let_def)

lemma ctdb_column_spec:
  assumes "length (ct_fixes t) + npar \<le> S * npar"
  shows "\<exists>t'. ctdb_column er npar pcm S sc first acc par c t = Inr t' \<and>
    (case column_answer er npar S sc first acc par c of
       None \<Rightarrow> ct_refused t' = Suc (ct_refused t) \<and> ct_fixes t' = ct_fixes t
     | Some out \<Rightarrow> ct_refused t' = ct_refused t \<and> ct_fixes t' = ct_fixes t @ column_fixes pcm S first c out) \<and>
    ct_unverified t' = ct_unverified t + of_bool (column_unverified er npar S sc first acc par c) \<and>
    ct_dirty t' = ct_dirty t + of_bool (\<not> list_all (\<lambda>e. e = 0) (column_syn npar S acc par c)) \<and>
    ct_dirty t' + (ct_repaired t + ct_refused t) = ct_dirty t + (ct_repaired t' + ct_refused t')"
proof -
  let ?E = "column_syn npar S acc par c" and ?es = "column_erasures er npar S sc first c"
  show ?thesis
  proof (cases "list_all (\<lambda>e. e = 0) ?E")
    case True
    then show ?thesis by (simp add: ctdb_column_def column_answer_def column_unverified_def column_fixes_def Let_def)
  next
    case False
    obtain n u where d: "decode_column npar ?E sc ?es = (n, u)" by (cases "decode_column npar ?E sc ?es")
    show ?thesis
    proof (cases "answered n")
      case True
      then obtain out where n: "n = Inr out" by (auto simp: answered_cases)
      have "length out \<le> npar"
        using decode_column_answer [of npar ?E sc ?es out] d n by (simp add: errata_ok_def)
      then have "add_fixes (S * npar) pcm S first c out (ct_fixes t) =
          Inr (ct_fixes t @ column_fixes pcm S first c out)"
        using assms by (intro add_fixes_spec) simp
      then show ?thesis
        using False d n True
        by (simp add: ctdb_column_def column_answer_def column_unverified_def Let_def)
    qed (use False d in \<open>simp add: ctdb_column_def column_answer_def column_unverified_def Let_def\<close>)
  qed
qed

section \<open>All columns\<close>

text \<open>\<open>NOMEM\<close> is never reached: every column adds at most \<open>npar\<close> corrections.\<close>

lemma ctdb_columns_spec:
  assumes "length (ct_fixes t) + npar * length cs \<le> S * npar"
  shows "\<exists>t'. ctdb_columns (ctdb_column er npar pcm S sc first acc par) cs t = Inr t' \<and>
    ct_refused t' = ct_refused t +
      length (filter (\<lambda>c. column_answer er npar S sc first acc par c = None) cs) \<and>
    ct_fixes t' = ct_fixes t @ concat (map (\<lambda>c. column_fixes pcm S first c
      (case column_answer er npar S sc first acc par c of None \<Rightarrow> [] | Some out \<Rightarrow> out)) cs) \<and>
    ct_unverified t' = ct_unverified t + length (filter (column_unverified er npar S sc first acc par) cs) \<and>
    ct_dirty t' = ct_dirty t +
      length (filter (\<lambda>c. \<not> list_all (\<lambda>e. e = 0) (column_syn npar S acc par c)) cs) \<and>
    ct_dirty t' + (ct_repaired t + ct_refused t) = ct_dirty t + (ct_repaired t' + ct_refused t')"
  using assms
proof (induction cs arbitrary: t)
  case (Cons c cs)
  have "length (ct_fixes t) + npar \<le> S * npar" using Cons.prems by simp
  from ctdb_column_spec [OF this, of er pcm sc first acc par c]
  obtain t1 where t1: "ctdb_column er npar pcm S sc first acc par c t = Inr t1"
    "case column_answer er npar S sc first acc par c of
       None \<Rightarrow> ct_refused t1 = Suc (ct_refused t) \<and> ct_fixes t1 = ct_fixes t
     | Some out \<Rightarrow> ct_refused t1 = ct_refused t \<and> ct_fixes t1 = ct_fixes t @ column_fixes pcm S first c out"
    "ct_unverified t1 = ct_unverified t + of_bool (column_unverified er npar S sc first acc par c)"
    "ct_dirty t1 = ct_dirty t + of_bool (\<not> list_all (\<lambda>e. e = 0) (column_syn npar S acc par c))"
    "ct_dirty t1 + (ct_repaired t + ct_refused t) = ct_dirty t + (ct_repaired t1 + ct_refused t1)"
    by blast
  have "length (ct_fixes t1) \<le> length (ct_fixes t) + npar"
    using t1(2) column_answer_ok [of er npar S sc first acc par c]
    by (auto simp: errata_ok_def column_fixes_def split: option.splits)
  then have "length (ct_fixes t1) + npar * length cs \<le> S * npar" using Cons.prems by simp
  from Cons.IH [OF this] obtain t2 where t2:
    "ctdb_columns (ctdb_column er npar pcm S sc first acc par) cs t1 = Inr t2"
    "ct_refused t2 = ct_refused t1 +
      length (filter (\<lambda>c. column_answer er npar S sc first acc par c = None) cs)"
    "ct_fixes t2 = ct_fixes t1 @ concat (map (\<lambda>c. column_fixes pcm S first c
      (case column_answer er npar S sc first acc par c of None \<Rightarrow> [] | Some out \<Rightarrow> out)) cs)"
    "ct_unverified t2 = ct_unverified t1 + length (filter (column_unverified er npar S sc first acc par) cs)"
    "ct_dirty t2 = ct_dirty t1 +
      length (filter (\<lambda>c. \<not> list_all (\<lambda>e. e = 0) (column_syn npar S acc par c)) cs)"
    "ct_dirty t2 + (ct_repaired t1 + ct_refused t1) = ct_dirty t1 + (ct_repaired t2 + ct_refused t2)"
    by blast
  have "ctdb_columns (ctdb_column er npar pcm S sc first acc par) (c # cs) t = Inr t2"
    using t1(1) t2(1) by simp
  moreover have "ct_dirty t2 + (ct_repaired t + ct_refused t) = ct_dirty t + (ct_repaired t2 + ct_refused t2)"
    using t1(5) t2(6) by linarith
  moreover have "ct_refused t2 = ct_refused t +
      length (filter (\<lambda>c. column_answer er npar S sc first acc par c = None) (c # cs))"
    and "ct_fixes t2 = ct_fixes t @ concat (map (\<lambda>c. column_fixes pcm S first c
      (case column_answer er npar S sc first acc par c of None \<Rightarrow> [] | Some out \<Rightarrow> out)) (c # cs))"
    using t1(2) t2(2,3) by (simp_all add: column_fixes_def split: option.splits)
  ultimately show ?case using t1(3,4) t2(4,5) by (intro exI [of _ t2]) simp
qed simp

section \<open>Writing the corrections\<close>

lemma length_put_word [simp]: "length (put_word wv b) = length b"
  by (cases wv) (simp add: put_word_def)

lemma length_put_words [simp]: "length (fold put_word fs b) = length b"
  by (induction fs arbitrary: b) simp_all

lemma length_le_words [simp]: "length (le_words b) = length b div 2"
  by (simp add: le_words_def)

lemma le_words_put: "le_words (put_word (w, v) b) = (le_words b)[w := v]"
proof (rule nth_equalityI)
  fix i assume i: "i < length (le_words (put_word (w, v) b))"
  then have "2 * i + 1 < length b" by simp
  moreover have "2 * w \<noteq> 2 * i + 1" "2 * w + 1 \<noteq> 2 * i" by presburger+
  ultimately show "le_words (put_word (w, v) b) ! i = (le_words b)[w := v] ! i"
    using i by (cases "w = i") (simp_all add: le_words_def put_word_def nth_list_update)
qed simp

lemma le_words_put_words: "le_words (fold put_word fs b) = fold (\<lambda>(w, v) ws. ws[w := v]) fs (le_words b)"
  by (induction fs arbitrary: b) (auto simp: le_words_put split: prod.splits)

lemma nth_fold_put:
  assumes "\<And>w v. (w, v) \<in> set fs \<Longrightarrow> v = g w" and "i < length ws"
  shows "fold (\<lambda>(w, v) ws. ws[w := v]) fs ws ! i = (if i \<in> fst ` set fs then g i else ws ! i)"
  using assms
proof (induction fs arbitrary: ws)
  case (Cons f fs)
  obtain w v where f: "f = (w, v)" by (cases f)
  have "fold (\<lambda>(w, v) ws. ws[w := v]) fs (ws[w := v]) ! i =
      (if i \<in> fst ` set fs then g i else ws[w := v] ! i)"
    using Cons.prems by (intro Cons.IH) auto
  moreover have "v = g w" using Cons.prems(1) [of w v] by (simp add: f)
  ultimately show ?case using Cons.prems(2) by (simp add: f nth_list_update)
qed simp

text \<open>Bytes of words that are not corrected stay.\<close>

lemma nth_put_words_other:
  assumes "i div 2 \<notin> fst ` set fs"
  shows "fold put_word fs b ! i = b ! i"
  using assms by (induction fs arbitrary: b) (auto simp: put_word_def nth_list_update)

section \<open>The repaired region\<close>

definition all_fixes ::
    "u16 list \<Rightarrow> u8 list option \<Rightarrow> nat \<Rightarrow> nat \<Rightarrow> nat \<Rightarrow> nat \<Rightarrow> u16 list \<Rightarrow> u16 list \<Rightarrow> (nat \<times> u16) list" where
  "all_fixes pcm er npar S sc first acc par = concat (map (\<lambda>c. column_fixes pcm S first c
     (case column_answer er npar S sc first acc par c of None \<Rightarrow> [] | Some out \<Rightarrow> out)) [0..<S])"

definition symbol_mask ::
    "u8 list option \<Rightarrow> nat \<Rightarrow> nat \<Rightarrow> nat \<Rightarrow> nat \<Rightarrow> u16 list \<Rightarrow> u16 list \<Rightarrow> nat \<Rightarrow> nat \<Rightarrow> u16" where
  "symbol_mask er npar S sc first acc par c =
     (case column_answer er npar S sc first acc par c of None \<Rightarrow> (\<lambda>_. 0) | Some out \<Rightarrow> mask_of out)"

lemma mask_of_in: "distinct (map fst out) \<Longrightarrow> (j, v) \<in> set out \<Longrightarrow> mask_of out j = v"
  by (simp add: mask_of_def)

lemma mask_of_out: "j \<notin> fst ` set out \<Longrightarrow> mask_of out j = 0"
  by (simp add: mask_of_def map_of_eq_None_iff [THEN iffD2])

lemma errata_okD:
  assumes "errata_ok npar n E out"
  shows "distinct (map fst out)" "(j, v) \<in> set out \<Longrightarrow> j < n" "length out \<le> npar"
    and "r < npar \<Longrightarrow> error_syn n (mask_of out) r = E ! r"
proof -
  show d: "distinct (map fst out)" using assms by (simp add: errata_ok_def strict_sorted_iff)
  show lt: "(j, v) \<in> set out \<Longrightarrow> j < n" for j v using assms by (auto simp: errata_ok_def list_all_iff)
  show "length out \<le> npar" using assms by (simp add: errata_ok_def)
  show "r < npar \<Longrightarrow> error_syn n (mask_of out) r = E ! r"
    using assms error_syn_mask [OF d lt] by (simp add: errata_ok_def list_all_iff)
qed

lemma all_fixes_word:
  assumes "(w, v) \<in> set (all_fixes pcm er npar S sc first acc par)"
  obtains c j where "c < S" "j < sc" "w = first + c + j * S"
    "v = pcm ! w XOR symbol_mask er npar S sc first acc par c j"
proof -
  obtain c out m j where c: "c < S" "column_answer er npar S sc first acc par c = Some out"
    "(j, m) \<in> set out" "w = first + c + j * S" "v = pcm ! w XOR m"
  proof -
    obtain c where c: "c < S" "(w, v) \<in> set (column_fixes pcm S first c
        (case column_answer er npar S sc first acc par c of None \<Rightarrow> [] | Some out \<Rightarrow> out))"
      using assms by (auto simp: all_fixes_def)
    then obtain out where "column_answer er npar S sc first acc par c = Some out"
      by (cases "column_answer er npar S sc first acc par c") (auto simp: column_fixes_def)
    then show thesis using c that [of c out] by (auto simp: column_fixes_def)
  qed
  note ok = errata_okD [OF column_answer_ok [OF c(2)]]
  show ?thesis
    using c ok(2) [OF c(3)] mask_of_in [OF ok(1) c(3)] by (intro that [of c j]) (simp_all add: symbol_mask_def)
qed

lemma all_fixes_keys:
  assumes "c < S" "j < sc" and "first + c + j * S \<notin> fst ` set (all_fixes pcm er npar S sc first acc par)"
  shows "symbol_mask er npar S sc first acc par c j = 0"
proof (cases "column_answer er npar S sc first acc par c")
  case (Some out)
  have "j \<notin> fst ` set out"
  proof
    assume "j \<in> fst ` set out"
    then obtain v where "(j, v) \<in> set out" by auto
    then have "(first + c + j * S, pcm ! (first + c + j * S) XOR v) \<in>
        set (all_fixes pcm er npar S sc first acc par)"
      unfolding all_fixes_def using assms(1) Some
      by (force simp: column_fixes_def intro!: bexI [of _ c])
    then show False using assms(3) by force
  qed
  then show ?thesis by (simp add: symbol_mask_def Some mask_of_out)
qed (simp add: symbol_mask_def)

text \<open>In the region every symbol takes its column's mask; no other byte changes.\<close>

lemma repaired_symbol:
  assumes "c < S" "j < sc" and "first + sc * S \<le> length b div 2"
  shows "column (le_words (fold put_word (all_fixes (le_words b) er npar S sc first acc par) b)) first S c j =
    column (le_words b) first S c j XOR symbol_mask er npar S sc first acc par c j"
proof -
  let ?fs = "all_fixes (le_words b) er npar S sc first acc par"
  let ?g = "\<lambda>i. le_words b ! i XOR symbol_mask er npar S sc first acc par ((i - first) mod S) ((i - first) div S)"
  have "v = ?g w" if "(w, v) \<in> set ?fs" for w v
    by (rule all_fixes_word [OF that]) (use grid_index in simp)
  moreover have "first + c + j * S < length (le_words b)"
    using grid_index(1) [OF assms(1,2), of first] assms(3) by simp
  ultimately have "le_words (fold put_word ?fs b) ! (first + c + j * S) =
      (if first + c + j * S \<in> fst ` set ?fs then ?g (first + c + j * S) else le_words b ! (first + c + j * S))"
    unfolding le_words_put_words by (rule nth_fold_put)
  then show ?thesis
    using grid_index(2,3) [OF assms(1,2), of first]
      all_fixes_keys [OF assms(1,2), of first "le_words b" er npar acc par]
    by (auto simp: column_def)
qed

lemma repaired_outside:
  assumes "i < 2 * first \<or> 2 * (first + sc * S) \<le> i"
  shows "fold put_word (all_fixes pcm er npar S sc first acc par) b ! i = b ! i"
proof (rule nth_put_words_other, rule notI)
  assume "i div 2 \<in> fst ` set (all_fixes pcm er npar S sc first acc par)"
  then obtain v where "(i div 2, v) \<in> set (all_fixes pcm er npar S sc first acc par)" by auto
  then obtain c j where c: "c < S" "j < sc" "i div 2 = first + c + j * S" by (rule all_fixes_word)
  have "2 * first \<le> i" using c(3) by (simp add: less_eq_div_iff_mult_less_eq)
  moreover have "i < 2 * (first + sc * S)"
    using grid_index(1) [OF c(1,2), of first] c(3) by (simp add: div_less_iff_less_mult mult.commute)
  ultimately show False using assms by simp
qed

section \<open>The whole call\<close>

text \<open>The words, the parity and the syndromes of a request.\<close>

abbreviation req_words :: "accudisc_ctdb_req \<Rightarrow> u16 list" where
  "req_words req \<equiv> le_words (ctq_pcm req)"

abbreviation req_parity :: "accudisc_ctdb_req \<Rightarrow> u16 list" where
  "req_parity req \<equiv> le_words (ctq_parity req)"

definition req_syndromes :: "accudisc_ctdb_req \<Rightarrow> nat \<Rightarrow> nat \<Rightarrow> nat \<Rightarrow> u16 list" where
  "req_syndromes req S sc first = fst (sweep_reference (req_words req) first S sc (ctq_npar req))"

definition req_answer :: "accudisc_ctdb_req \<Rightarrow> nat \<Rightarrow> nat \<Rightarrow> nat \<Rightarrow> nat \<Rightarrow> (nat \<times> u16) list option" where
  "req_answer req S sc first =
     column_answer (ctq_erasures req) (ctq_npar req) S sc first (req_syndromes req S sc first) (req_parity req)"

definition req_fixes :: "accudisc_ctdb_req \<Rightarrow> nat \<Rightarrow> nat \<Rightarrow> nat \<Rightarrow> (nat \<times> u16) list" where
  "req_fixes req S sc first = all_fixes (req_words req) (ctq_erasures req) (ctq_npar req) S sc first
     (req_syndromes req S sc first) (req_parity req)"

definition req_unverified :: "accudisc_ctdb_req \<Rightarrow> nat \<Rightarrow> nat \<Rightarrow> nat \<Rightarrow> nat" where
  "req_unverified req S sc first = length (filter (column_unverified (ctq_erasures req) (ctq_npar req) S sc first
     (req_syndromes req S sc first) (req_parity req)) [0..<S])"

text \<open>A report about an output that was or was not written.\<close>

definition report_of ::
    "accudisc_ctdb_req \<Rightarrow> nat \<Rightarrow> nat \<Rightarrow> column_tally \<Rightarrow> u8 list option \<Rightarrow> accudisc_ctdb_report" where
  "report_of req first n t out =
     \<lparr>ctr_offset_pairs = ctq_offset_pairs req, ctr_dirty = ct_dirty t, ctr_repaired = ct_repaired t,
      ctr_refused = ct_refused t, ctr_erasure = ct_erasure_cols t,
      ctr_corrections = (if out = None then 0 else length (ct_fixes t)),
      ctr_crc_before = adsc_ctdb_crc32_words (slice first n (req_words req)),
      ctr_crc_after = adsc_ctdb_crc32_words (slice first n
        (le_words (case out of None \<Rightarrow> ctq_pcm req | Some dst \<Rightarrow> dst))),
      ctr_unverified = (if out = None then 0 else ct_unverified t)\<rparr>"

lemma ctdb_repair_run:
  assumes "ctq_size req = ctdb_req_size" and "pred_option (\<lambda>n. n = ctdb_report_size) report"
    and "ctq_aligned req" and g: "ctdb_geometry req = Inr (S, sc, first)" and "callocs"
  obtains t where
    "ct_fixes t = req_fixes req S sc first" "ct_unverified t = req_unverified req S sc first"
    "ct_dirty t = ct_repaired t + ct_refused t"
    "ct_refused t = length (filter (\<lambda>c. req_answer req S sc first c = None) [0..<S])"
    "accudisc_ctdb_repair avx2 fresh callocs req report =
      (if ct_refused t \<noteq> 0
       then (Inl ERR_NOTFOUND, None, map_option (\<lambda>_. report_of req first (sc * S) t None) report)
       else let dst = fold put_word (ct_fixes t) (ctq_pcm req) in
         (if ct_unverified t \<noteq> 0 then Inr CTDB_UNVERIFIED else Inr CTDB_OK, Some dst,
          map_option (\<lambda>_. report_of req first (sc * S) t (Some dst)) report))"
proof -
  note f = geometry_facts [OF g]
  let ?npar = "ctq_npar req" and ?pcm = "req_words req" and ?par = "req_parity req"
  let ?acc = "req_syndromes req S sc first"
  have "adsc_ctdb_sweep avx2 (map_option (\<lambda>f. map f [0..<2 * S]) fresh) ?pcm first S sc ?npar
      (replicate (S * ?npar) 0) = sweep_reference ?pcm first S sc ?npar"
    using f by (cases fresh) (auto intro!: sweep_any_kernel)
  then have sw: "adsc_ctdb_sweep avx2 (map_option (\<lambda>f. map f [0..<2 * S]) fresh) ?pcm first S sc ?npar
      (replicate (S * ?npar) 0) = (?acc, adsc_ctdb_crc32_words (slice first (sc * S) ?pcm))"
    by (simp add: req_syndromes_def sweep_reference_def)
  have "length (ct_fixes no_columns) + ?npar * length [0..<S] \<le> S * ?npar"
    by (simp add: no_columns_def)
  from ctdb_columns_spec [OF this, of "ctq_erasures req" ?pcm sc first ?acc ?par]
  obtain t where t: "ctdb_columns (ctdb_column (ctq_erasures req) ?npar ?pcm S sc first ?acc ?par) [0..<S]
        no_columns = Inr t"
    "ct_refused t = length (filter (\<lambda>c. req_answer req S sc first c = None) [0..<S])"
    "ct_fixes t = req_fixes req S sc first" "ct_unverified t = req_unverified req S sc first"
    "ct_dirty t = ct_repaired t + ct_refused t"
    unfolding req_answer_def [symmetric]
    by (auto simp: no_columns_def req_fixes_def all_fixes_def req_answer_def req_unverified_def)
  have size: "\<not> (case report of None \<Rightarrow> False | Some n \<Rightarrow> n \<noteq> ctdb_report_size)"
    using assms(2) by (cases report) simp_all
  have "fold put_word [] b = b" for b by simp
  then have "accudisc_ctdb_repair avx2 fresh callocs req report =
      (if ct_refused t \<noteq> 0
       then (Inl ERR_NOTFOUND, None, map_option (\<lambda>_. report_of req first (sc * S) t None) report)
       else let dst = fold put_word (ct_fixes t) (ctq_pcm req) in
         (if ct_unverified t \<noteq> 0 then Inr CTDB_UNVERIFIED else Inr CTDB_OK, Some dst,
          map_option (\<lambda>_. report_of req first (sc * S) t (Some dst)) report))"
    using assms size
    by (cases "ct_refused t = 0"; cases "ct_fixes t = []")
      (simp_all add: accudisc_ctdb_repair_def Let_def sw t(1) report_of_def)
  then show ?thesis by (intro that [OF t(3,4,5,2)])
qed

lemma req_syndromes_nth:
  assumes "r < ctq_npar req" "c < S"
  shows "req_syndromes req S sc first ! (r * S + c) = error_syn sc (column (req_words req) first S c) r"
proof -
  have "r * S + c < S * ctq_npar req"
    using grid_index(1) [OF assms(2,1), of 0] by (simp add: mult.commute add.commute)
  then show ?thesis using assms(2) by (simp add: req_syndromes_def sweep_reference_def)
qed

text \<open>The parity that a column of words has, and what the request publishes for it.\<close>

definition column_agrees :: "accudisc_ctdb_req \<Rightarrow> nat \<Rightarrow> nat \<Rightarrow> nat \<Rightarrow> u16 list \<Rightarrow> nat \<Rightarrow> bool" where
  "column_agrees req S sc first ws c =
     list_all (\<lambda>r. error_syn sc (column ws first S c) r = req_parity req ! (r * S + c)) [0..<ctq_npar req]"

definition changed_symbols :: "nat \<Rightarrow> nat \<Rightarrow> nat \<Rightarrow> u16 list \<Rightarrow> u16 list \<Rightarrow> nat \<Rightarrow> nat list" where
  "changed_symbols S sc first ws ws' c =
     filter (\<lambda>j. column ws' first S c j \<noteq> column ws first S c j) [0..<sc]"

lemma repaired_column:
  assumes g: "ctdb_geometry req = Inr (S, sc, first)" and c: "c < S"
    and a: "req_answer req S sc first c = Some out"
  defines "ws \<equiv> le_words (fold put_word (req_fixes req S sc first) (ctq_pcm req))"
  shows "column_agrees req S sc first ws c"
    and "length (changed_symbols S sc first (req_words req) ws c) \<le> ctq_npar req"
    and "j < sc \<Longrightarrow> column ws first S c j = column (req_words req) first S c j XOR mask_of out j"
proof -
  note f = geometry_facts [OF g]
  let ?E = "column_syn (ctq_npar req) S (req_syndromes req S sc first) (req_parity req) c"
  have "errata_ok (ctq_npar req) sc ?E out"
    using a unfolding req_answer_def by (rule column_answer_ok)
  note ok = errata_okD [OF this]
  show sym: "column ws first S c j = column (req_words req) first S c j XOR mask_of out j" if "j < sc" for j
    using repaired_symbol [OF c that f(6)] a
    by (simp add: ws_def req_fixes_def symbol_mask_def req_answer_def)
  have "error_syn sc (column ws first S c) r = req_parity req ! (r * S + c)" if "r < ctq_npar req" for r
  proof -
    have "error_syn sc (column ws first S c) r =
        error_syn sc (\<lambda>j. column (req_words req) first S c j XOR mask_of out j) r"
      by (rule error_syn_cong) (rule sym)
    also have "\<dots> = req_syndromes req S sc first ! (r * S + c) XOR ?E ! r"
      using ok(4) that c by (simp add: error_syn_xor req_syndromes_nth)
    finally show ?thesis using that by (simp add: column_syn_nth xor.assoc [symmetric])
  qed
  then show "column_agrees req S sc first ws c" by (simp add: column_agrees_def list_all_iff)
  have "set (changed_symbols S sc first (req_words req) ws c) \<subseteq> fst ` set out"
    using sym mask_of_out by (fastforce simp: changed_symbols_def)
  then have "card (set (changed_symbols S sc first (req_words req) ws c)) \<le> length (map fst out)"
    by (metis card_length card_mono finite_set le_trans list.set_map)
  moreover have "distinct (changed_symbols S sc first (req_words req) ws c)"
    by (simp add: changed_symbols_def)
  ultimately show "length (changed_symbols S sc first (req_words req) ws c) \<le> ctq_npar req"
    using ok(3) by (simp add: distinct_card)
qed

text \<open>Every early return says so, and writes neither output.\<close>

lemma ctdb_repair_early:
  assumes "\<not> (ctq_size req = ctdb_req_size \<and> pred_option (\<lambda>n. n = ctdb_report_size) report \<and>
    ctq_aligned req \<and> \<not> isl (ctdb_geometry req) \<and> callocs)"
  shows "\<exists>e. accudisc_ctdb_repair avx2 fresh callocs req report = (Inl e, None, None)"
  using assms by (cases report; cases "ctdb_geometry req") (auto simp: accudisc_ctdb_repair_def)

lemma ctdb_repair_cases:
  obtains (early) e where "accudisc_ctdb_repair avx2 fresh callocs req report = (Inl e, None, None)"
  | (ran) S sc first t where "ctdb_geometry req = Inr (S, sc, first)"
      "ct_fixes t = req_fixes req S sc first" "ct_unverified t = req_unverified req S sc first"
      "ct_dirty t = ct_repaired t + ct_refused t"
      "ct_refused t = length (filter (\<lambda>c. req_answer req S sc first c = None) [0..<S])"
      "accudisc_ctdb_repair avx2 fresh callocs req report =
        (if ct_refused t \<noteq> 0
         then (Inl ERR_NOTFOUND, None, map_option (\<lambda>_. report_of req first (sc * S) t None) report)
         else let dst = fold put_word (ct_fixes t) (ctq_pcm req) in
           (if ct_unverified t \<noteq> 0 then Inr CTDB_UNVERIFIED else Inr CTDB_OK, Some dst,
            map_option (\<lambda>_. report_of req first (sc * S) t (Some dst)) report))"
proof (cases "ctq_size req = ctdb_req_size \<and> pred_option (\<lambda>n. n = ctdb_report_size) report \<and>
    ctq_aligned req \<and> \<not> isl (ctdb_geometry req) \<and> callocs")
  case True
  then obtain S sc first where g: "ctdb_geometry req = Inr (S, sc, first)"
    by (cases "ctdb_geometry req") auto
  show ?thesis
    by (rule ctdb_repair_run [OF _ _ _ g, of report callocs avx2 fresh]) (use True g in \<open>auto intro: ran\<close>)
next
  case False
  from ctdb_repair_early [OF this, of avx2 fresh] show ?thesis by (auto intro: early)
qed



section \<open>Damage within capacity is undone\<close>

text \<open>
  The errors of a column against the true words, and when its parity is enough: with the flagged
  symbols, or without them if there are more flags than the parity can take.
\<close>

definition column_errors :: "accudisc_ctdb_req \<Rightarrow> nat \<Rightarrow> nat \<Rightarrow> u16 list \<Rightarrow> nat \<Rightarrow> nat \<Rightarrow> u16" where
  "column_errors req S first truth c j =
     column (req_words req) first S c j XOR column truth first S c j"

definition column_restorable :: "accudisc_ctdb_req \<Rightarrow> nat \<Rightarrow> nat \<Rightarrow> nat \<Rightarrow> u16 list \<Rightarrow> nat \<Rightarrow> bool" where
  "column_restorable req S sc first truth c \<longleftrightarrow> column_agrees req S sc first truth c \<and>
     (let npar = ctq_npar req; e = column_errors req S first truth c;
          es = column_erasures (ctq_erasures req) npar S sc first c
      in 2 * length (unknown sc e es) + length es \<le> npar \<or>
         npar < length es \<and> 2 * length (unknown sc e []) \<le> npar)"

lemma column_erasures_ok:
  "distinct (column_erasures er npar S sc first c)" "list_all (\<lambda>p. p < sc) (column_erasures er npar S sc first c)"
  by (auto simp: column_erasures_def list_all_iff dest: in_set_takeD split: option.splits)

lemma mask_of_errata:
  assumes "j < n"
  shows "mask_of (errata_of n f) j = f j"
proof -
  have d: "distinct (map fst (errata_of n f))" by (simp add: errata_of_def o_def)
  show ?thesis
  proof (cases "f j = 0")
    case True
    then have "j \<notin> fst ` set (errata_of n f)" by (auto simp: errata_of_def)
    then show ?thesis by (simp add: mask_of_out True)
  next
    case False
    then show ?thesis using assms by (intro mask_of_in [OF d]) (simp add: errata_of_def)
  qed
qed

lemma errata_of_empty: "errata_of n f = [] \<longleftrightarrow> (\<forall>j < n. f j = 0)"
  by (auto simp: errata_of_def filter_empty_conv)

lemma answer_restorable:
  assumes g: "ctdb_geometry req = Inr (S, sc, first)" and c: "c < S"
    and r: "column_restorable req S sc first truth c"
  shows "req_answer req S sc first c = Some (errata_of sc (column_errors req S first truth c))"
proof -
  note f = geometry_facts [OF g]
  let ?npar = "ctq_npar req" and ?e = "column_errors req S first truth c"
  let ?es = "column_erasures (ctq_erasures req) ?npar S sc first c"
  let ?E = "column_syn ?npar S (req_syndromes req S sc first) (req_parity req) c"
  have E: "?E ! k = error_syn sc ?e k" if "k < ?npar" for k
  proof -
    have "error_syn sc (column truth first S c) k = req_parity req ! (k * S + c)"
      using r that by (simp add: column_restorable_def column_agrees_def list_all_iff)
    then show ?thesis
      using that c unfolding column_errors_def error_syn_xor
      by (simp add: column_syn_nth req_syndromes_nth)
  qed
  have within: "within_capacity ?npar sc ?e es ?E"
    if "2 * length (unknown sc ?e es) + length es \<le> ?npar" "distinct es" "list_all (\<lambda>p. p < sc) es" for es
    using that f E by (simp add: within_capacity_def list_all_iff)
  have decode: "adsc_rs16_decode ?npar ?E sc es (max_npar + 1) = Inr (errata_of sc ?e)"
    if "2 * length (unknown sc ?e es) + length es \<le> ?npar" "distinct es" "list_all (\<lambda>p. p < sc) es" for es
    using within [OF that] by (rule decode_within_capacity) (use f in simp)
  show ?thesis
  proof (cases "list_all (\<lambda>x. x = 0) ?E")
    case True
    then have z: "k < ?npar \<Longrightarrow> ?E ! k = 0" for k by (simp add: list_all_length) (simp add: column_syn_def)
    then have "errata_of sc ?e = []" if "adsc_rs16_decode ?npar ?E sc es (max_npar + 1) = Inr (errata_of sc ?e)" for es
      using that by (auto simp: adsc_rs16_decode_def list_all_iff split: if_splits)
    then have "errata_of sc ?e = []"
      using r decode [of ?es] decode [of "[]"] column_erasures_ok
      by (auto simp: column_restorable_def Let_def)
    then show ?thesis using True by (simp add: req_answer_def column_answer_def)
  next
    case False
    have "errata_of sc ?e \<noteq> []"
    proof
      assume "errata_of sc ?e = []"
      then have "error_syn sc ?e k = error_syn sc (\<lambda>j. 0) k" for k
        by (intro error_syn_cong) (simp add: errata_of_empty)
      then have "\<forall>k < ?npar. ?E ! k = 0" using E by simp
      then show False using False by (simp add: list_all_length column_syn_def)
    qed
    then have a: "answered (Inr (errata_of sc ?e))" by (auto simp: answered_cases neq_Nil_conv)
    have "fst (decode_column ?npar ?E sc ?es) = Inr (errata_of sc ?e)"
    proof (cases "2 * length (unknown sc ?e ?es) + length ?es \<le> ?npar")
      case True
      then show ?thesis using decode [OF True column_erasures_ok] a by (simp add: decode_column_def Let_def)
    next
      case F: False
      then have n: "?npar < length ?es" and u: "2 * length (unknown sc ?e []) \<le> ?npar"
        using r by (auto simp: column_restorable_def Let_def)
      have "\<not> answered (adsc_rs16_decode ?npar ?E sc ?es (max_npar + 1))"
        using n by (auto simp: adsc_rs16_decode_def)
      moreover have "?es \<noteq> []" using n by auto
      moreover have "adsc_rs16_decode ?npar ?E sc [] (max_npar + 1) = Inr (errata_of sc ?e)"
        using u by (intro decode) simp_all
      ultimately show ?thesis by (simp add: decode_column_def Let_def)
    qed
    then show ?thesis
      using False a by (simp add: req_answer_def column_answer_def Let_def)
  qed
qed

text \<open>
  C3: if the published parity is that of some true image and the damage of every column is within
  its capacity - erasures plus twice the other errors at most npar, or, with more than npar
  erasures, at most npar/2 errors - the repair succeeds and every word of the codeword region is
  the true one.
\<close>

theorem ctdb_repair_restores:
  assumes "ctq_size req = ctdb_req_size" "ctq_aligned req" "callocs"
    and "pred_option (\<lambda>n. n = ctdb_report_size) report"
    and "ctdb_geometry req = Inr (S, sc, first)" and "first + sc * S \<le> length truth"
    and "list_all (column_restorable req S sc first truth) [0..<S]"
  shows "case accudisc_ctdb_repair avx2 fresh callocs req report of
     (Inl e, out, rep) \<Rightarrow> False
   | (Inr st, out, rep) \<Rightarrow>
       slice first (sc * S) (le_words (the out)) = slice first (sc * S) truth"
proof -
  note g = assms(5)
  have a: "req_answer req S sc first c = Some (errata_of sc (column_errors req S first truth c))" if "c < S" for c
    using answer_restorable [OF g that] assms(7) that by (simp add: list_all_iff)
  let ?dst = "fold put_word (req_fixes req S sc first) (ctq_pcm req)"
  have region: "le_words ?dst ! i = truth ! i" if i: "first \<le> i" "i < first + sc * S" for i
  proof -
    obtain c j where c: "c < S" "j < sc" "i = first + c + j * S"
      using grid_cases [OF i(2,1) geometry_facts(3) [OF g]] by blast
    have "column (le_words ?dst) first S c j = column truth first S c j"
      using repaired_column(3) [OF g c(1) a [OF c(1)] c(2)] mask_of_errata [OF c(2)]
      by (simp add: column_errors_def xor.assoc [symmetric])
    then show ?thesis using c(3) by (simp add: column_def)
  qed
  have "slice first (sc * S) (le_words ?dst) = slice first (sc * S) truth"
    using geometry_facts(6) [OF g] assms(6) region
    by (intro nth_equalityI) (simp_all add: slice_def)
  moreover obtain t where t: "ct_fixes t = req_fixes req S sc first" "ct_refused t = 0"
    "accudisc_ctdb_repair avx2 fresh callocs req report =
      (if ct_refused t \<noteq> 0
       then (Inl ERR_NOTFOUND, None, map_option (\<lambda>_. report_of req first (sc * S) t None) report)
       else let dst = fold put_word (ct_fixes t) (ctq_pcm req) in
         (if ct_unverified t \<noteq> 0 then Inr CTDB_UNVERIFIED else Inr CTDB_OK, Some dst,
          map_option (\<lambda>_. report_of req first (sc * S) t (Some dst)) report))"
    by (rule ctdb_repair_run [OF assms(1,4,2) g assms(3), of avx2 fresh]) (simp add: a)
  ultimately show ?thesis by (simp add: Let_def)
qed

text \<open>Two image frames, four checks, one damaged byte.\<close>

definition damaged_req :: accudisc_ctdb_req where
  "damaged_req = \<lparr>ctq_size = 72, ctq_npar = 4, ctq_wire_stride = 196, ctq_image_first_frame = 0,
     ctq_image_frames = 2, ctq_offset_pairs = 0, ctq_pcm = (replicate 4704 0)[1600 := 5],
     ctq_parity = replicate 3136 0, ctq_erasures = None, ctq_aligned = True\<rparr>"

lemma damaged_restorable:
  assumes "c < 392"
  shows "column_restorable damaged_req 392 4 392 (replicate 2352 0) c"
proof -
  have words: "le_words (replicate 3136 0) = replicate 1568 0"
    by (simp add: list_eq_iff_nth_eq le_words_def word_of_bytes_def)
  have pcm: "le_words ((replicate 4704 0)[1600 := 5]) = (replicate 2352 0)[800 := 5]"
    by (simp add: list_eq_iff_nth_eq le_words_def word_of_bytes_def nth_list_update)
  have col: "column (replicate 2352 0) 392 392 c j = 0" if "j < 4" for j
    using assms that by (simp add: column_def)
  have "error_syn 4 (column (replicate 2352 0) 392 392 c) r = error_syn 4 (\<lambda>j. 0) r" for r
    by (rule error_syn_cong) (rule col)
  moreover have "r < 4 \<Longrightarrow> replicate 1568 0 ! (r * 392 + c) = (0 :: u16)" for r
    using assms by simp
  ultimately have agrees: "column_agrees damaged_req 392 4 392 (replicate 2352 0) c"
    by (simp add: column_agrees_def damaged_req_def words list_all_iff)
  have "column_errors damaged_req 392 392 (replicate 2352 0) c j = 0" if "j < 4" "j \<noteq> 1" for j
  proof -
    have "j = 0 \<or> j = 2 \<or> j = 3" using that by linarith
    then have "392 + c + j * 392 \<noteq> 800 \<and> 392 + c + j * 392 < 2352" using assms by (elim disjE) simp_all
    then show ?thesis
      by (simp add: column_errors_def col [OF that(1)] damaged_req_def pcm column_def)
  qed
  then have "set (unknown 4 (column_errors damaged_req 392 392 (replicate 2352 0) c) []) \<subseteq> {1}"
    by (auto simp: unknown_def)
  moreover have "distinct (unknown 4 (column_errors damaged_req 392 392 (replicate 2352 0) c) [])"
    by (simp add: unknown_def)
  ultimately have "length (unknown 4 (column_errors damaged_req 392 392 (replicate 2352 0) c) []) \<le> 1"
    by (metis card_mono distinct_card finite.emptyI finite.insertI is_singletonI is_singleton_altdef)
  then show ?thesis
    using agrees by (simp add: column_restorable_def column_erasures_def damaged_req_def)
qed

theorem ctdb_repair_restores_witness:
  "case accudisc_ctdb_repair True (Some (\<lambda>i. 7)) True damaged_req (Some 40) of
     (Inl e, out, rep) \<Rightarrow> False
   | (Inr st, out, rep) \<Rightarrow>
       slice 392 (4 * 392) (le_words (the out)) = slice 392 (4 * 392) (replicate 2352 0)"
proof (rule ctdb_repair_restores)
  show "list_all (column_restorable damaged_req 392 4 392 (replicate 2352 0)) [0..<392]"
    using damaged_restorable by (simp add: list_all_iff)
  show "ctdb_geometry damaged_req = Inr (392, 4, 392)"
    by (simp add: ctdb_geometry_def damaged_req_def max_npar_def words_per_frame_def Let_def)
qed (simp_all add: damaged_req_def ctdb_req_size_def ctdb_report_size_def)

end
