(* ===== verification/WriteOffset.thy ===== *)
theory WriteOffset
  imports Prelude
begin

text \<open>
  The write-offset measurement (\<^verbatim>\<open>src/write/write_offset.c\<close>): the signal a caller burns and the
  locator that finds it in what is read back. Samples are stereo pairs of signed 16-bit values,
  held as integers; a buffer is the list of its pairs. Null pointers are not modelled, and the
  caller's out-struct is taken to have this build's size.
\<close>

definition woff_samples :: nat where "woff_samples = 3307500"
definition woff_pulse_a :: nat where "woff_pulse_a = 44100"
definition woff_pulse_b :: nat where "woff_pulse_b = 2646000"
definition woff_pulse_len :: nat where "woff_pulse_len = 588"
definition woff_search :: int where "woff_search = 8820"
definition woff_threshold :: int where "woff_threshold = 500"
definition woff_run_len :: nat where "woff_run_len = 16"
definition woff_run_min :: nat where "woff_run_min = 8"
definition offset_none :: int where "offset_none = - 2147483648"

lemmas woff_geometry = woff_samples_def woff_pulse_a_def woff_pulse_b_def woff_pulse_len_def
  woff_search_def woff_run_len_def woff_run_min_def

section \<open>The signal\<close>

definition woff_rand :: "u32 \<Rightarrow> u32" where
  "woff_rand x =
     (let x = x XOR push_bit 13 x; x = x XOR drop_bit 17 x; x = x XOR push_bit 5 x in x)"

definition woff_half :: "u32 \<Rightarrow> int" where
  "woff_half x = int (unat (drop_bit 17 x)) - 16384"

fun woff_noise :: "nat \<Rightarrow> u32 \<Rightarrow> (int \<times> int) list" where
  "woff_noise 0 st = []"
| "woff_noise (Suc n) st =
     (let a = woff_rand st; b = woff_rand a in (woff_half a, woff_half b) # woff_noise n b)"

definition woff_burst :: "(int \<times> int) list" where
  "woff_burst = (woff_noise woff_pulse_len 0x9E3779B9)[0 := (32767, - 32768)]"

definition woff_put :: "nat \<Rightarrow> (int \<times> int) list \<Rightarrow> (int \<times> int) list" where
  "woff_put pos pcm = fold (\<lambda>i p. p[pos + i := woff_burst ! i]) [0..<woff_pulse_len] pcm"

definition accudisc_write_offset_signal :: "nat \<Rightarrow> (int \<times> int) list res" where
  "accudisc_write_offset_signal samples =
     (if samples \<noteq> woff_samples then Inl ERR_INVAL
      else Inr (fold woff_put [woff_pulse_a, woff_pulse_b] (replicate samples (0, 0))))"

section \<open>The locator\<close>

definition woff_loud :: "int \<times> int \<Rightarrow> bool" where
  "woff_loud = (\<lambda>(l, r). \<bar>l\<bar> > woff_threshold \<or> \<bar>r\<bar> > woff_threshold)"

text \<open>Does corrected index \<open>i\<close> start a run?\<close>

definition woff_starts :: "(int \<times> int) list \<Rightarrow> int \<Rightarrow> int \<Rightarrow> bool" where
  "woff_starts pcm read_offset i =
     (let raw = i + read_offset in
      if raw < 0 \<or> raw \<ge> int (length pcm) then False
      else if \<not> woff_loud (pcm ! nat raw) then False
      else length (filter (\<lambda>j. woff_loud (pcm ! j)) [nat raw..<min (nat raw + woff_run_len) (length pcm)])
        \<ge> woff_run_min)"

function woff_find :: "(int \<times> int) list \<Rightarrow> int \<Rightarrow> int \<Rightarrow> int \<Rightarrow> int" where
  "woff_find pcm read_offset i hi =
     (if i \<ge> hi then -1
      else if woff_starts pcm read_offset i then i
      else woff_find pcm read_offset (i + 1) hi)"
  by auto
termination by (relation "measure (\<lambda>(pcm, r, i, hi). nat (hi - i))") auto

declare woff_find.simps [simp del]

record accudisc_write_offset_info =
  wo_write_offset :: int
  wo_offset_a :: int
  wo_offset_b :: int
  wo_found_a :: int
  wo_found_b :: int
  wo_flags :: nat

definition woff_info_size :: nat where "woff_info_size = 28"
definition woff_inconsistent :: nat where "woff_inconsistent = 1"

text \<open>How many bytes past the \<open>size\<close> member the clearing of a struct of a declared size covers.\<close>

definition cleared_len :: "nat \<Rightarrow> nat" where
  "cleared_len sz = unat (word_of_nat sz - 4 :: u64)"

definition woff_pulse :: "(int \<times> int) list \<Rightarrow> int \<Rightarrow> nat \<Rightarrow> int" where
  "woff_pulse pcm read_offset pos =
     (let lo = int pos - woff_search; hi = int pos + woff_search
      in woff_find pcm read_offset (if lo < 0 then 0 else lo) hi)"

definition accudisc_write_offset_locate ::
    "(int \<times> int) list \<Rightarrow> int \<Rightarrow> nat \<Rightarrow> unit res \<times> accudisc_write_offset_info option" where
  "accudisc_write_offset_locate pcm read_offset sz =
     (if sz = 0 \<or> sz > woff_info_size then (Inl ERR_ABI, None)
      else if length pcm < woff_samples then (Inl ERR_INVAL, None)
      else
        let a = woff_pulse pcm read_offset woff_pulse_a;
            b = woff_pulse pcm read_offset woff_pulse_b;
            off_a = (if a < 0 then 0 else a - int woff_pulse_a);
            off_b = (if b < 0 then 0 else b - int woff_pulse_b);
            out = \<lparr>wo_write_offset = offset_none, wo_offset_a = off_a, wo_offset_b = off_b,
              wo_found_a = (if a < 0 then offset_none else a),
              wo_found_b = (if b < 0 then offset_none else b), wo_flags = 0\<rparr>
        in if a < 0 \<or> b < 0 then (Inl ERR_NOTFOUND, Some out)
           else if off_a \<noteq> off_b then (Inl ERR_AMBIGUOUS, Some (out\<lparr>wo_flags := woff_inconsistent\<rparr>))
           else (Inr (), Some (out\<lparr>wo_write_offset := off_a\<rparr>)))"

section \<open>What the locator finds\<close>

lemma woff_find_first:
  assumes "lo \<le> k" "k < hi" and "woff_starts pcm r k" and "\<And>i. lo \<le> i \<Longrightarrow> i < k \<Longrightarrow> \<not> woff_starts pcm r i"
  shows "woff_find pcm r lo hi = k"
  using assms
proof (induction "nat (k - lo)" arbitrary: lo)
  case 0
  then show ?case by (subst woff_find.simps) simp
next
  case (Suc n)
  then have "lo < k" by simp
  moreover have "woff_find pcm r (lo + 1) hi = k" using Suc calculation by (intro Suc.hyps(1)) auto
  ultimately show ?case using Suc.prems by (subst woff_find.simps) simp
qed

lemma woff_find_sound:
  "woff_find pcm r lo hi = -1 \<and> (\<forall>i. lo \<le> i \<longrightarrow> i < hi \<longrightarrow> \<not> woff_starts pcm r i) \<or>
   lo \<le> woff_find pcm r lo hi \<and> woff_find pcm r lo hi < hi \<and> woff_starts pcm r (woff_find pcm r lo hi)"
proof (induction pcm r lo hi rule: woff_find.induct)
  case (1 pcm r i hi)
  show ?case
  proof (cases "i < hi \<and> \<not> woff_starts pcm r i")
    case True
    then have "woff_find pcm r i hi = woff_find pcm r (i + 1) hi" by (subst woff_find.simps) simp
    moreover have "\<not> woff_starts pcm r k" if "\<forall>k. i + 1 \<le> k \<longrightarrow> k < hi \<longrightarrow> \<not> woff_starts pcm r k" "i \<le> k" "k < hi" for k
      using that True by (cases "k = i") auto
    ultimately show ?thesis using 1 True by auto
  next
    case False
    then show ?thesis by (subst (1 2 3 4) woff_find.simps) auto
  qed
qed

text \<open>The locator's contract: any burst that is loud enough at both positions is measured.\<close>

definition pulse_at :: "(int \<times> int) list \<Rightarrow> int \<Rightarrow> int \<Rightarrow> nat \<Rightarrow> bool" where
  "pulse_at pcm r d pos \<longleftrightarrow> woff_starts pcm r (int pos + d) \<and>
     (\<forall>i. int pos - woff_search \<le> i \<longrightarrow> i < int pos + d \<longrightarrow> \<not> woff_starts pcm r i)"

lemma woff_pulse_at:
  assumes "pulse_at pcm r d pos" and "- woff_search \<le> d" "d < woff_search" and "woff_search \<le> int pos"
  shows "woff_pulse pcm r pos = int pos + d"
  using assms unfolding woff_pulse_def Let_def pulse_at_def by (auto intro!: woff_find_first)

lemma locate_pulses:
  assumes "pulse_at pcm r d woff_pulse_a" "pulse_at pcm r d woff_pulse_b"
    and "- woff_search \<le> d" "d < woff_search" and "1 \<le> sz" "sz \<le> woff_info_size" "woff_samples \<le> length pcm"
  shows "accudisc_write_offset_locate pcm r sz =
    (Inr (), Some \<lparr>wo_write_offset = d, wo_offset_a = d, wo_offset_b = d, wo_found_a = int woff_pulse_a + d,
       wo_found_b = int woff_pulse_b + d, wo_flags = 0\<rparr>)"
  using woff_pulse_at [OF assms(1,3,4)] woff_pulse_at [OF assms(2-4)] assms(3-)
  by (simp add: accudisc_write_offset_locate_def woff_geometry)

section \<open>The signal is found again\<close>

lemma length_woff_noise [simp]: "length (woff_noise n st) = n"
  by (induction n arbitrary: st) (simp_all add: Let_def)

lemma length_woff_burst [simp]: "length woff_burst = woff_pulse_len"
  by (simp add: woff_burst_def)

lemma take_woff_noise: "k \<le> n \<Longrightarrow> take k (woff_noise n st) = woff_noise k st"
proof (induction n arbitrary: k st)
  case (Suc n)
  then show ?case by (cases k) (simp_all add: Let_def)
qed simp

lemma woff_noise_numeral:
  "woff_noise (numeral k) st =
     (woff_half (woff_rand st), woff_half (woff_rand (woff_rand st))) #
       woff_noise (pred_numeral k) (woff_rand (woff_rand st))"
  "woff_noise 1 st = [(woff_half (woff_rand st), woff_half (woff_rand (woff_rand st)))]"
  by (simp_all add: numeral_eq_Suc Let_def)

text \<open>The first draws of the generator.\<close>

lemma woff_draws:
  "woff_rand 0x9E3779B9 = 0x510C4619"
  "woff_rand 0x510C4619 = 0xE02E553E"
  "woff_rand 0xE02E553E = 0x7BB98F3A"
  "woff_rand 0x7BB98F3A = 0x183A8B5"
  "woff_rand 0x183A8B5 = 0xE6336D1F"
  "woff_rand 0xE6336D1F = 0xF989D237"
  "woff_rand 0xF989D237 = 0xBA2529D0"
  "woff_rand 0xBA2529D0 = 0xFCFBEDBF"
  "woff_rand 0xFCFBEDBF = 0xA8C5EE39"
  "woff_rand 0xA8C5EE39 = 0xB55A53B8"
  "woff_rand 0xB55A53B8 = 0x1A88A9EE"
  "woff_rand 0x1A88A9EE = 0xF918A8B4"
  "woff_rand 0xF918A8B4 = 0x6DC588D3"
  "woff_rand 0x6DC588D3 = 0x472F513C"
  "woff_rand 0x472F513C = 0xC1870B8"
  "woff_rand 0xC1870B8 = 0x43E1465F"
  by (simp_all add: woff_rand_def)

lemma burst_loud: "woff_loud (woff_burst ! 0)"
  "woff_run_min \<le> length (filter (\<lambda>j. woff_loud (woff_burst ! j)) [0..<woff_run_len])"
proof -
  have t: "take 8 woff_burst = (woff_noise 8 0x9E3779B9)[0 := (32767, - 32768)]"
    by (simp add: woff_burst_def take_update_swap take_woff_noise woff_pulse_len_def)
  have "woff_noise 8 0x9E3779B9 = [(-6010, 12311), (-548, -16191), (13081, 15556), (7442, 15997),
      (5218, 6829), (-12988, 15500), (-2334, -7273), (-14836, -7696)]"
    by (simp add: woff_noise_numeral woff_draws woff_half_def)
  then have "list_all woff_loud (take 8 woff_burst)"
    unfolding t by (simp add: woff_loud_def woff_threshold_def)
  then have "\<forall>j < 8. woff_loud (take 8 woff_burst ! j)"
    by (auto simp: list_all_length woff_pulse_len_def)
  then have l: "woff_loud (woff_burst ! j)" if "j < 8" for j using that by simp
  then show "woff_loud (woff_burst ! 0)" by simp
  have u: "[0..<16] = [0..<8] @ [8..<16 :: nat]" by code_simp
  have "filter (\<lambda>j. woff_loud (woff_burst ! j)) [0..<8] = [0..<8]" using l by (simp add: filter_id_conv)
  then have "8 \<le> length (filter (\<lambda>j. woff_loud (woff_burst ! j)) [0..<16])"
    unfolding u filter_append length_append by (simp only: length_upt)
  then show "woff_run_min \<le> length (filter (\<lambda>j. woff_loud (woff_burst ! j)) [0..<woff_run_len])"
    by (simp only: woff_run_min_def woff_run_len_def)
qed

lemma woff_put_nth:
  assumes "pos + woff_pulse_len \<le> length pcm"
  shows "woff_put pos pcm ! n =
      (if pos \<le> n \<and> n < pos + woff_pulse_len then woff_burst ! (n - pos) else pcm ! n)"
    and "length (woff_put pos pcm) = length pcm"
proof -
  let ?F = "\<lambda>k. fold (\<lambda>i p. p[pos + i := woff_burst ! i]) [0..<k] pcm"
  have len: "length (?F k) = length pcm" for k by (induction k) simp_all
  have "?F k ! n = (if pos \<le> n \<and> n < pos + k then woff_burst ! (n - pos) else pcm ! n)"
    if "pos + k \<le> length pcm" for k
    using that
  proof (induction k)
    case (Suc k)
    then show ?case using len [of k] by (cases "n = pos + k") (auto simp: nth_list_update)
  qed auto
  from this [OF assms] show "woff_put pos pcm ! n =
      (if pos \<le> n \<and> n < pos + woff_pulse_len then woff_burst ! (n - pos) else pcm ! n)"
    by (simp add: woff_put_def)
  show "length (woff_put pos pcm) = length pcm" using len by (simp add: woff_put_def)
qed

text \<open>The signal extended with silence on both sides, and what a drive that burns \<open>w\<close> late and
  reads \<open>r\<close> early hands back.\<close>

definition silence_around :: "(int \<times> int) list \<Rightarrow> int \<Rightarrow> int \<times> int" where
  "silence_around pcm i = (if 0 \<le> i \<and> i < int (length pcm) then pcm ! nat i else (0, 0))"

definition read_back :: "(int \<times> int) list \<Rightarrow> int \<Rightarrow> int \<Rightarrow> nat \<Rightarrow> (int \<times> int) list" where
  "read_back pcm w r n = map (\<lambda>raw. silence_around pcm (int raw - r - w)) [0..<n]"

lemma signal_at:
  assumes "accudisc_write_offset_signal samples = Inr sig"
  shows "silence_around sig i =
    (if int woff_pulse_a \<le> i \<and> i < int (woff_pulse_a + woff_pulse_len) then woff_burst ! nat (i - int woff_pulse_a)
     else if int woff_pulse_b \<le> i \<and> i < int (woff_pulse_b + woff_pulse_len) then woff_burst ! nat (i - int woff_pulse_b)
     else (0, 0))"
    and "length sig = woff_samples"
proof -
  let ?z = "replicate woff_samples (0 :: int, 0 :: int)"
  have sig: "sig = woff_put woff_pulse_b (woff_put woff_pulse_a ?z)" "samples = woff_samples"
    using assms by (auto simp: accudisc_write_offset_signal_def split: if_splits)
  have fit: "woff_pulse_a + woff_pulse_len \<le> length ?z" "woff_pulse_b + woff_pulse_len \<le> length ?z"
    by (simp_all add: woff_geometry)
  then have b: "woff_pulse_b + woff_pulse_len \<le> length (woff_put woff_pulse_a ?z)"
    by (simp only: woff_put_nth(2) [OF fit(1)])
  show len: "length sig = woff_samples"
    unfolding sig by (simp only: woff_put_nth(2) [OF b] woff_put_nth(2) [OF fit(1)] length_replicate)
  have zero: "?z ! n = (0, 0)" if "n < woff_samples" for n using that by (rule nth_replicate)
  show "silence_around sig i =
    (if int woff_pulse_a \<le> i \<and> i < int (woff_pulse_a + woff_pulse_len) then woff_burst ! nat (i - int woff_pulse_a)
     else if int woff_pulse_b \<le> i \<and> i < int (woff_pulse_b + woff_pulse_len) then woff_burst ! nat (i - int woff_pulse_b)
     else (0, 0))"
  proof (cases "0 \<le> i \<and> i < int woff_samples")
    case True
    then have n: "nat i < woff_samples" by (simp add: nat_less_iff)
    have "sig ! nat i = (if woff_pulse_b \<le> nat i \<and> nat i < woff_pulse_b + woff_pulse_len
        then woff_burst ! (nat i - woff_pulse_b)
        else if woff_pulse_a \<le> nat i \<and> nat i < woff_pulse_a + woff_pulse_len then woff_burst ! (nat i - woff_pulse_a)
        else (0, 0))"
      unfolding sig(1) woff_put_nth(1) [OF b] woff_put_nth(1) [OF fit(1)] zero [OF n] ..
    moreover have "nat (i - int k) = nat i - k" for k by (simp add: nat_diff_distrib')
    moreover have "k \<le> nat i \<longleftrightarrow> int k \<le> i" "nat i < k \<longleftrightarrow> i < int k" for k using True by auto
    moreover have "\<not> (int woff_pulse_a \<le> i \<and> i < int (woff_pulse_a + woff_pulse_len) \<and> int woff_pulse_b \<le> i)"
      by (simp add: woff_geometry)
    ultimately show ?thesis using True by (auto simp: silence_around_def len)
  next
    case False
    then show ?thesis by (auto simp: silence_around_def len woff_geometry)
  qed
qed

lemma read_back_pulse:
  assumes sig: "accudisc_write_offset_signal samples = Inr sig"
    and w: "- woff_search \<le> w" "w < woff_search"
    and pos: "pos = woff_pulse_a \<or> pos = woff_pulse_b"
    and r: "0 \<le> int pos + w + r" "int pos + w + r + int woff_run_len \<le> int n"
  shows "pulse_at (read_back sig w r n) r w pos"
proof -
  let ?rb = "read_back sig w r n"
  let ?raw = "nat (int pos + w + r)"
  have raw: "int ?raw = int pos + w + r" "?raw + woff_run_len \<le> n" using r by linarith+
  have burst: "?rb ! (?raw + k) = woff_burst ! k" if "k < woff_run_len" for k
  proof -
    have "?rb ! (?raw + k) = silence_around sig (int (?raw + k) - r - w)"
      using that raw(2) by (simp add: read_back_def del: of_nat_add)
    also have "int (?raw + k) - r - w = int pos + int k" using raw(1) by simp
    also have "silence_around sig (int pos + int k) = woff_burst ! k"
      using pos that by (auto simp: signal_at(1) [OF sig] woff_geometry)
    finally show ?thesis .
  qed
  have "[?raw..<?raw + woff_run_len] = map (\<lambda>k. ?raw + k) [0..<woff_run_len]"
    by (simp add: map_add_upt [symmetric] add.commute)
  then have "length (filter (\<lambda>j. woff_loud (?rb ! j)) [?raw..<?raw + woff_run_len]) =
      length (filter (\<lambda>k. woff_loud (?rb ! (?raw + k))) [0..<woff_run_len])"
    by (simp only: filter_map length_map o_def)
  also have "filter (\<lambda>k. woff_loud (?rb ! (?raw + k))) [0..<woff_run_len] =
      filter (\<lambda>k. woff_loud (woff_burst ! k)) [0..<woff_run_len]"
    using burst by (intro filter_cong) auto
  finally have "woff_run_min \<le> length (filter (\<lambda>j. woff_loud (?rb ! j)) [?raw..<?raw + woff_run_len])"
    using burst_loud(2) by (simp only:)
  moreover have "woff_loud (?rb ! ?raw)"
    using burst [of 0] burst_loud(1) by (simp add: woff_run_len_def)
  moreover have "length ?rb = n" by (simp add: read_back_def)
  ultimately have "woff_starts ?rb r (int pos + w)"
    using r raw(2) by (simp add: woff_starts_def Let_def woff_run_len_def)
  moreover have "\<not> woff_starts ?rb r i" if i: "int pos - woff_search \<le> i" "i < int pos + w" for i
  proof (cases "0 \<le> i + r \<and> i + r < int n")
    case True
    then have "nat (i + r) < n" by (simp add: nat_less_iff)
    then have "?rb ! nat (i + r) = silence_around sig (i - w)" using True by (simp add: read_back_def)
    also have "\<dots> = (0, 0)"
      unfolding signal_at(1) [OF sig] using i w pos by (auto simp: woff_geometry)
    finally show ?thesis by (simp add: woff_starts_def woff_loud_def woff_threshold_def Let_def)
  qed (auto simp: woff_starts_def read_back_def Let_def)
  ultimately show ?thesis by (simp add: pulse_at_def)
qed



text \<open>
  A declared size of one, two or three bytes passes the size check, and the length of the clearing
  that follows wraps round: it runs past the end of every struct.
\<close>

lemma cleared_len_small:
  assumes "1 \<le> sz" "sz < 4"
  shows "2 ^ 64 - 4 < cleared_len sz"
proof -
  have "sz = 1 \<or> sz = 2 \<or> sz = 3" using assms by auto
  then show ?thesis by (elim disjE) (simp_all add: cleared_len_def unsigned_minus_1_eq_mask mask_eq_exp_minus_1)
qed

end
