(* ===== verification/Offsets.thy ===== *)
theory Offsets
  imports Mmc WriteOffset
begin

text \<open>
  The read-offset lookup (\<^verbatim>\<open>src/drive/offsets.c\<close>): the folding of INQUIRY strings and the scan of
  the drive table. Strings are the lists of their bytes before the terminator, \<open>toupper\<close> is that
  of the C locale. The table is generated, so it is the parameter \<open>db\<close>. The caller's out-struct is
  taken to have this build's size, whatever size it declares.
\<close>

section \<open>Folding\<close>

definition blank :: "u8 \<Rightarrow> bool" where "blank c \<longleftrightarrow> c = 32 \<or> c = 9"

definition to_upper :: "u8 \<Rightarrow> u8" where
  "to_upper c = (if 97 \<le> c \<and> c \<le> 122 then c - 32 else c)"

text \<open>The bytes stored before the terminator, whose index is the length.\<close>

fun normalize_loop :: "nat \<Rightarrow> bool \<Rightarrow> u8 list \<Rightarrow> u8 list \<Rightarrow> u8 list" where
  "normalize_loop cap in_space dst [] = dst"
| "normalize_loop cap in_space dst (c # src) =
     (if \<not> length dst + 1 < cap then dst
      else if blank c then normalize_loop cap True dst src
      else
        let dst = (if in_space \<and> length dst > 0 then dst @ [32] else dst)
        in normalize_loop cap False (dst @ [to_upper c]) src)"

definition adsc_inquiry_normalize :: "u8 list \<Rightarrow> nat \<Rightarrow> u8 list" where
  "adsc_inquiry_normalize src cap = normalize_loop cap True [] src"

definition offset_key :: "u8 list \<Rightarrow> u8 list" where
  "offset_key s = adsc_inquiry_normalize s 32"

section \<open>The table and the answer\<close>

record offset_entry =
  oe_vendor :: "u8 list"
  oe_product :: "u8 list"
  oe_read_offset :: int
  oe_ar_submissions :: nat
  oe_ar_agree_pct :: nat
  oe_sources :: nat
  oe_flags :: nat
  oe_ar_acc_ok :: nat
  oe_ar_acc_bad :: nat

record accudisc_offset_info =
  oi_read_offset :: int
  oi_ar_submissions :: nat
  oi_ar_agree_pct :: nat
  oi_sources :: nat
  oi_flags :: nat
  oi_n_values :: nat
  oi_values :: "(int \<times> nat) list"
  oi_ar_acc_ok :: nat
  oi_ar_acc_bad :: nat

definition offset_info_size :: nat where "offset_info_size = 44"
definition offset_values_end :: nat where "offset_values_end = 36"
definition offset_max_values :: nat where "offset_max_values = 4"
definition OFFSET_F_TRUNCATED :: nat where "OFFSET_F_TRUNCATED = 2"
definition OFFSET_F_GENERIC :: nat where "OFFSET_F_GENERIC = 8"

definition offset_info_zero :: accudisc_offset_info where
  "offset_info_zero = \<lparr>oi_read_offset = offset_none, oi_ar_submissions = 0, oi_ar_agree_pct = 0,
     oi_sources = 0, oi_flags = 0, oi_n_values = 0, oi_values = [], oi_ar_acc_ok = 0, oi_ar_acc_bad = 0\<rparr>"

section \<open>The scan\<close>

record offset_scan =
  os_sources :: nat
  os_flags :: nat
  os_best :: "offset_entry option"
  os_vals :: "(int \<times> nat) list"
  os_overflow :: bool

definition no_rows :: offset_scan where
  "no_rows = \<lparr>os_sources = 0, os_flags = 0, os_best = None, os_vals = [], os_overflow = False\<rparr>"

text \<open>The search for a value already seen; \<open>None\<close> when there is none.\<close>

fun merge_value :: "int \<Rightarrow> nat \<Rightarrow> (int \<times> nat) list \<Rightarrow> (int \<times> nat) list option" where
  "merge_value off src [] = None"
| "merge_value off src ((v, s) # vals) =
     (if v = off then Some ((v, s OR src) # vals)
      else map_option (\<lambda>vals. (v, s) # vals) (merge_value off src vals))"

definition offset_take :: "offset_entry \<Rightarrow> offset_scan \<Rightarrow> offset_scan" where
  "offset_take e st =
     (let st = st\<lparr>os_sources := os_sources st OR oe_sources e, os_flags := os_flags st OR oe_flags e,
            os_best := (case os_best st of None \<Rightarrow> Some e
              | Some b \<Rightarrow> if oe_ar_submissions e > oe_ar_submissions b then Some e else Some b)\<rparr>
      in case merge_value (oe_read_offset e) (oe_sources e) (os_vals st) of
          Some vals \<Rightarrow> st\<lparr>os_vals := vals\<rparr>
        | None \<Rightarrow>
            if length (os_vals st) < offset_max_values
            then st\<lparr>os_vals := os_vals st @ [(oe_read_offset e, oe_sources e)]\<rparr>
            else st\<lparr>os_overflow := True\<rparr>)"

fun vendor_narrows :: "u8 list \<Rightarrow> u8 list \<Rightarrow> offset_entry list \<Rightarrow> bool" where
  "vendor_narrows want_v want_p [] = False"
| "vendor_narrows want_v want_p (e # db) =
     (if want_p \<noteq> offset_key (oe_product e) then vendor_narrows want_v want_p db
      else if want_v = offset_key (oe_vendor e) then True
      else vendor_narrows want_v want_p db)"

definition offset_row :: "u8 list \<Rightarrow> u8 list \<Rightarrow> bool \<Rightarrow> offset_entry \<Rightarrow> offset_scan \<Rightarrow> offset_scan" where
  "offset_row want_v want_p vendor_hit e st =
     (if want_p \<noteq> offset_key (oe_product e) then st
      else if vendor_hit then
        (if want_v \<noteq> offset_key (oe_vendor e) then st else offset_take e st)
      else if oe_flags e AND OFFSET_F_GENERIC \<noteq> 0 then st
      else offset_take e st)"

definition offset_answer :: "nat \<Rightarrow> offset_scan \<Rightarrow> unit res \<times> accudisc_offset_info" where
  "offset_answer sz st =
     (let out = offset_info_zero\<lparr>oi_sources := os_sources st, oi_flags := os_flags st\<rparr> in
      case os_best st of None \<Rightarrow> (Inl ERR_NOTFOUND, out)
      | Some best \<Rightarrow>
          let out = (if sz \<ge> offset_values_end then out\<lparr>oi_values := os_vals st\<rparr> else out);
              out = out\<lparr>oi_n_values := length (os_vals st)\<rparr>;
              out = (if os_overflow st then out\<lparr>oi_flags := oi_flags out OR OFFSET_F_TRUNCATED\<rparr> else out)
          in if length (os_vals st) > 1 then (Inl ERR_AMBIGUOUS, out)
             else
               let out = out\<lparr>oi_ar_submissions := oe_ar_submissions best,
                     oi_ar_agree_pct := oe_ar_agree_pct best\<rparr>;
                   out = (if sz \<ge> offset_info_size
                     then out\<lparr>oi_ar_acc_ok := oe_ar_acc_ok best, oi_ar_acc_bad := oe_ar_acc_bad best\<rparr> else out)
               in (Inr (), out\<lparr>oi_read_offset := fst (os_vals st ! 0)\<rparr>))"

definition accudisc_offset_for_inquiry ::
    "offset_entry list \<Rightarrow> u8 list \<Rightarrow> u8 list \<Rightarrow> nat \<Rightarrow> unit res \<times> accudisc_offset_info option" where
  "accudisc_offset_for_inquiry db vendor product sz =
     (if sz = 0 \<or> sz > offset_info_size then (Inl ERR_ABI, None)
      else
        let want_v = offset_key vendor; want_p = offset_key product in
        if want_p = [] then (Inl ERR_NOTFOUND, Some offset_info_zero)
        else
          let vendor_hit = vendor_narrows want_v want_p db
          in map_prod id Some (offset_answer sz (fold (offset_row want_v want_p vendor_hit) db no_rows)))"

definition accudisc_offset_for_device ::
    "'k kernel \<Rightarrow> offset_entry list \<Rightarrow> nat \<Rightarrow> 'k accudisc_device \<Rightarrow>
     unit res \<times> accudisc_offset_info option \<times> 'k accudisc_device" where
  "accudisc_offset_for_device K db sz dev =
     (case adsc_dev_identify K dev of
        (Inl e, dev) \<Rightarrow> (Inl e, None, dev)
      | (Inr _, dev) \<Rightarrow>
          let (rc, out) = accudisc_offset_for_inquiry db (id_vendor (dev_id dev)) (id_product (dev_id dev)) sz
          in (rc, out, dev))"

definition accudisc_read_offset ::
    "'k kernel \<Rightarrow> offset_entry list \<Rightarrow> 'k accudisc_device \<Rightarrow> int res \<times> 'k accudisc_device" where
  "accudisc_read_offset K db dev =
     (case accudisc_offset_for_device K db offset_info_size dev of
        (Inl e, out, dev) \<Rightarrow> (Inl e, dev)
      | (Inr _, out, dev) \<Rightarrow> (Inr (oi_read_offset (the out)), dev))"

section \<open>What folding does\<close>

text \<open>The words of a string, and the words joined by single spaces.\<close>

fun blank_words :: "u8 list \<Rightarrow> u8 list \<Rightarrow> u8 list list" where
  "blank_words w [] = (if w = [] then [] else [w])"
| "blank_words w (c # cs) =
     (if blank c then (if w = [] then blank_words [] cs else w # blank_words [] cs)
      else blank_words (w @ [to_upper c]) cs)"

fun join_words :: "u8 list list \<Rightarrow> u8 list" where
  "join_words [] = []"
| "join_words [w] = w"
| "join_words (w # v # vs) = w @ [32] @ join_words (v # vs)"

lemma join_words_Cons: "vs \<noteq> [] \<Longrightarrow> join_words (w # vs) = w @ 32 # join_words vs"
  by (cases vs) simp_all

lemma normalize_loop_prefix: "length dst \<le> length (normalize_loop cap sp dst src)"
proof (induction cap sp dst src rule: normalize_loop.induct)
  case (2 cap sp dst c src)
  then show ?case by (auto simp: Let_def)
qed simp

lemma normalize_loop_bound: "length dst \<le> cap \<Longrightarrow> length (normalize_loop cap sp dst src) \<le> cap"
  by (induction cap sp dst src rule: normalize_loop.induct) (auto simp: Let_def)

lemma blank_words_nil: "w \<noteq> [] \<Longrightarrow> blank_words w cs \<noteq> []"
  by (induction w cs rule: blank_words.induct) auto

lemma join_words_prefix: "w \<noteq> [] \<Longrightarrow> \<exists>t. join_words (blank_words w cs) = w @ t"
proof (induction w cs rule: blank_words.induct)
  case (2 w c cs)
  show ?case
  proof (cases "blank c")
    case True
    then show ?thesis using 2(4) by (cases "blank_words [] cs") (simp_all add: join_words_Cons)
  next
    case False
    then show ?thesis using 2(3) by auto
  qed
qed simp

lemma join_words_nonempty: "blank_words [] cs \<noteq> [] \<Longrightarrow> join_words (blank_words [] cs) \<noteq> []"
proof (induction cs)
  case (Cons c cs)
  then show ?case using join_words_prefix [of "[to_upper c]" cs] by (auto split: if_splits)
qed simp

text \<open>Unless the buffer is too short, folding joins the upper-cased words.\<close>

lemma normalize_loop_words:
  "(\<forall>dst. length (if blank_words [] src = [] then dst else if dst = [] then join_words (blank_words [] src)
      else dst @ 32 # join_words (blank_words [] src)) < cap \<longrightarrow>
    normalize_loop cap True dst src =
     (if blank_words [] src = [] then dst else if dst = [] then join_words (blank_words [] src)
      else dst @ 32 # join_words (blank_words [] src))) \<and>
   (\<forall>w pre. w \<noteq> [] \<longrightarrow> length (pre @ join_words (blank_words w src)) < cap \<longrightarrow>
    normalize_loop cap False (pre @ w) src = pre @ join_words (blank_words w src))"
  (is "(\<forall>dst. ?A dst src) \<and> (\<forall>w pre. ?B w pre src)")
proof (induction src)
  case (Cons c src)
  have A: "?A dst src" and B: "?B w pre src" for dst w pre using Cons.IH by blast+
  have "?A dst (c # src)" for dst
  proof (cases "blank c")
    case True
    then show ?thesis
      using A [of dst] join_words_nonempty [of src]
      by (cases "cap = 0"; cases "cap = 1") (auto split: if_splits)
  next
    case False
    obtain t where t: "join_words (blank_words [to_upper c] src) = to_upper c # t"
      using join_words_prefix [of "[to_upper c]" src] by auto
    show ?thesis
      using False t B [of "[to_upper c]" "if dst = [] then [] else dst @ [32]"]
        blank_words_nil [of "[to_upper c]" src]
      by (cases "dst = []") (auto simp: Let_def)
  qed
  moreover have "?B w pre (c # src)" for w pre
  proof (intro impI)
    assume w: "w \<noteq> []" and len: "length (pre @ join_words (blank_words w (c # src))) < cap"
    obtain t where t: "join_words (blank_words w (c # src)) = w @ t"
      using join_words_prefix [OF w] by blast
    show "normalize_loop cap False (pre @ w) (c # src) = pre @ join_words (blank_words w (c # src))"
    proof (cases "length (pre @ w) + 1 < cap")
      case False
      then have "t = []" using len unfolding t by (cases t) simp_all
      then show ?thesis using False t by simp
    next
      case True
      show ?thesis
      proof (cases "blank c")
        case b: True
        then show ?thesis
          using w len True A [of "pre @ w"]
          by (cases "blank_words [] src = []") (simp_all add: join_words_Cons)
      next
        case False
        then show ?thesis using w len True B [of "w @ [to_upper c]" pre] by simp
      qed
    qed
  qed
  ultimately show ?case by blast
qed simp

lemma normalize_words:
  assumes "length (join_words (blank_words [] s)) < cap"
  shows "adsc_inquiry_normalize s cap = join_words (blank_words [] s)"
  using assms normalize_loop_words [of s cap]
  by (cases "blank_words [] s = []") (auto simp: adsc_inquiry_normalize_def dest!: spec [of _ "[]"])

text \<open>
  The terminator fits only if the length stays below the capacity. A space that falls on the last
  byte but one is followed by a character without another test, and the terminator goes one past
  the buffer.
\<close>

lemma normalize_overruns: "length (adsc_inquiry_normalize (replicate 30 65 @ [32, 66]) 32) = 32"
  by code_simp

section \<open>What the scan answers\<close>

text \<open>The rows that may answer, and the distinct values of a list in the order of their first
  occurrence.\<close>

definition offset_candidates ::
    "offset_entry list \<Rightarrow> u8 list \<Rightarrow> u8 list \<Rightarrow> offset_entry list" where
  "offset_candidates db vendor product =
     (let same_product = (\<lambda>e. offset_key (oe_product e) = offset_key product);
          same_vendor = (\<lambda>e. offset_key (oe_vendor e) = offset_key vendor);
          narrows = list_ex (\<lambda>e. same_product e \<and> same_vendor e) db
      in if offset_key product = [] then []
         else filter (\<lambda>e. same_product e \<and>
           (if narrows then same_vendor e else oe_flags e AND OFFSET_F_GENERIC = 0)) db)"

definition firsts :: "'a list \<Rightarrow> 'a list" where "firsts xs = rev (remdups (rev xs))"

lemma firsts_snoc: "firsts (xs @ [x]) = (if x \<in> set xs then firsts xs else firsts xs @ [x])"
  by (simp add: firsts_def)

lemma set_firsts [simp]: "set (firsts xs) = set xs"
  by (simp add: firsts_def)

lemma firsts_eq_Nil [simp]: "firsts xs = [] \<longleftrightarrow> xs = []"
  by (simp add: firsts_def)

lemma merge_value_spec:
  "case merge_value off src vals of
     None \<Rightarrow> off \<notin> fst ` set vals
   | Some vals' \<Rightarrow> off \<in> fst ` set vals \<and> map fst vals' = map fst vals"
  by (induction off src vals rule: merge_value.induct) (force split: option.splits)+

lemma offset_take_fields:
  "os_best (offset_take e st) = (case os_best st of None \<Rightarrow> Some e
     | Some b \<Rightarrow> if oe_ar_submissions e > oe_ar_submissions b then Some e else Some b)"
  "os_flags (offset_take e st) = os_flags st OR oe_flags e"
  "os_vals (offset_take e st) = (case merge_value (oe_read_offset e) (oe_sources e) (os_vals st) of
     Some vals \<Rightarrow> vals
   | None \<Rightarrow> os_vals st @ (if length (os_vals st) < offset_max_values then [(oe_read_offset e, oe_sources e)] else []))"
  "os_overflow (offset_take e st) \<longleftrightarrow> os_overflow st \<or>
     merge_value (oe_read_offset e) (oe_sources e) (os_vals st) = None \<and> \<not> length (os_vals st) < offset_max_values"
  by (auto simp add: offset_take_def Let_def split: option.splits)

lemma vendor_narrows_ex:
  "vendor_narrows want_v want_p db \<longleftrightarrow>
     list_ex (\<lambda>e. offset_key (oe_product e) = want_p \<and> offset_key (oe_vendor e) = want_v) db"
  by (induction db) auto

lemma offset_rows_candidates:
  assumes "offset_key product \<noteq> []"
  shows "fold (offset_row (offset_key vendor) (offset_key product)
      (vendor_narrows (offset_key vendor) (offset_key product) db)) db st =
    fold offset_take (offset_candidates db vendor product) st"
proof -
  have "fold (offset_row v p hit) es st =
      fold offset_take (filter (\<lambda>e. offset_key (oe_product e) = p \<and>
        (if hit then offset_key (oe_vendor e) = v else oe_flags e AND OFFSET_F_GENERIC = 0)) es) st"
    for v p hit es
    by (induction es arbitrary: st) (auto simp: offset_row_def)
  then show ?thesis using assms by (simp add: offset_candidates_def vendor_narrows_ex Let_def)
qed

definition best_row :: "offset_entry list \<Rightarrow> offset_entry option \<Rightarrow> bool" where
  "best_row rows b \<longleftrightarrow> (case b of None \<Rightarrow> rows = []
     | Some b \<Rightarrow> b \<in> set rows \<and> (\<forall>e \<in> set rows. oe_ar_submissions e \<le> oe_ar_submissions b))"

lemma offset_scan_rows:
  "map fst (os_vals (fold offset_take rows no_rows)) = take offset_max_values (firsts (map oe_read_offset rows)) \<and>
   (os_overflow (fold offset_take rows no_rows) \<longleftrightarrow>
      offset_max_values < length (firsts (map oe_read_offset rows))) \<and>
   best_row rows (os_best (fold offset_take rows no_rows)) \<and>
   (bit (os_flags (fold offset_take rows no_rows)) 1 \<longleftrightarrow> list_ex (\<lambda>e. bit (oe_flags e) 1) rows)"
proof (induction rows rule: rev_induct)
  case Nil
  then show ?case by (simp add: no_rows_def firsts_def best_row_def)
next
  case (snoc e rows)
  let ?st = "fold offset_take rows no_rows" and ?offs = "firsts (map oe_read_offset rows)"
  let ?off = "oe_read_offset e"
  have vals: "fst ` set (os_vals ?st) = set (take offset_max_values ?offs)"
    using snoc.IH by (metis list.set_map)
  have len: "length (os_vals ?st) = min offset_max_values (length ?offs)"
    using snoc.IH by (metis length_map length_take min.commute)
  note m = merge_value_spec [where off = ?off and src = "oe_sources e" and vals = "os_vals ?st"]
  have "best_row (rows @ [e]) (os_best (offset_take e ?st))"
    using snoc.IH by (auto simp: offset_take_fields best_row_def split: option.splits)
  moreover have "bit (os_flags (offset_take e ?st)) 1 \<longleftrightarrow> list_ex (\<lambda>e. bit (oe_flags e) 1) (rows @ [e])"
    using snoc.IH by (auto simp: offset_take_fields bit_or_iff)
  moreover have "map fst (os_vals (offset_take e ?st)) = take offset_max_values (firsts (map oe_read_offset (rows @ [e])))
      \<and> (os_overflow (offset_take e ?st) \<longleftrightarrow>
        offset_max_values < length (firsts (map oe_read_offset (rows @ [e]))))"
  proof (cases "merge_value ?off (oe_sources e) (os_vals ?st)")
    case (Some vals')
    then have "?off \<in> set (map oe_read_offset rows)"
      using m vals by (auto dest: in_set_takeD)
    then show ?thesis using Some m snoc.IH by (simp add: offset_take_fields firsts_snoc)
  next
    case None
    then have new: "?off \<notin> set (take offset_max_values ?offs)" using m vals by simp
    show ?thesis
    proof (cases "length ?offs < offset_max_values")
      case True
      then have "?off \<notin> set (map oe_read_offset rows)" using new by simp
      then show ?thesis using None True snoc.IH len by (simp add: offset_take_fields firsts_snoc)
    next
      case False
      have "offset_max_values < length ?offs" if "?off \<in> set (map oe_read_offset rows)"
      proof -
        have "take offset_max_values ?offs \<noteq> ?offs" using that new by (metis set_firsts)
        then show ?thesis by (simp add: not_le [symmetric])
      qed
      then show ?thesis using None False snoc.IH len
        by (auto simp: offset_take_fields firsts_snoc)
    qed
  qed
  ultimately show ?case by simp
qed


end
