(* ===== verification/Speeds.thy ===== *)
theory Speeds
  imports Complex_Main Drive
begin

text \<open>
  The speed-ladder probe (\<^verbatim>\<open>src/drive/speeds.c\<close>): where each candidate speed is timed, the timed
  reads, and the verdict on every rung. The monotonic clock is the parameter \<open>clock\<close>, a function
  of the kernel's state; rates are computed in rationals where the code uses doubles. The numbers of
  candidates and bands are below 256 and the rates below 65536, so the products of the code do not
  wrap and are natural numbers.
\<close>

definition speeds_chunk :: nat where "speeds_chunk = 27"
definition speeds_min_sectors :: nat where "speeds_min_sectors = 150"
definition speeds_max_sectors :: nat where "speeds_max_sectors = 2250"
definition speeds_bands :: nat where "speeds_bands = 3"
definition speeds_admit_k :: nat where "speeds_admit_k = 3"
definition speeds_noise_cx :: nat where "speeds_noise_cx = 50"

datatype rung_verdict = RUNG_UNKNOWN | RUNG_ADMITTED | RUNG_DUPLICATE | RUNG_QUANTIZED

record accudisc_speed_rung =
  sr_requested_x :: nat
  sr_reported_x :: nat
  sr_measured_cx :: nat
  sr_min_cx :: nat
  sr_max_cx :: nat
  sr_equiv_x :: nat
  sr_verdict :: rung_verdict
  sr_band_cx :: "nat list"

section \<open>Where the windows lie\<close>

definition adsc_speeds_layout :: "nat \<Rightarrow> nat \<Rightarrow> nat \<Rightarrow> (nat \<times> nat) res" where
  "adsc_speeds_layout count ncand points =
     (if ncand = 0 then Inl ERR_INVAL
      else if points \<noteq> 1 \<and> points \<noteq> speeds_bands then Inl ERR_INVAL
      else
        let s = count div (points * ncand) in
        if s < speeds_min_sectors + speeds_chunk then Inl ERR_INVAL
        else Inr (s, s * ncand))"

text \<open>The first sector of rung \<open>i\<close>'s window in band \<open>b\<close>, counted from the span's.\<close>

definition rung_window :: "nat \<Rightarrow> nat \<Rightarrow> nat \<Rightarrow> nat \<Rightarrow> nat" where
  "rung_window slot band b i = b * band + i * slot"

definition rung_want :: "nat \<Rightarrow> nat \<Rightarrow> nat" where
  "rung_want slot x =
     (let want = x * 75;
          want = (if want < speeds_min_sectors then speeds_min_sectors else want);
          want = (if want > speeds_max_sectors then speeds_max_sectors else want)
      in if want > slot - speeds_chunk then slot - speeds_chunk else want)"

section \<open>The verdicts\<close>

definition radius_step_cx :: "accudisc_speed_rung \<Rightarrow> nat \<Rightarrow> nat \<Rightarrow> nat" where
  "radius_step_cx r n points =
     (if points < 2 \<or> n = 0 \<or> sr_max_cx r \<le> sr_min_cx r then 0
      else (sr_max_cx r - sr_min_cx r) div ((points - 1) * n))"

definition unsettled :: "accudisc_speed_rung \<Rightarrow> bool" where
  "unsettled r \<longleftrightarrow> sr_verdict r = RUNG_UNKNOWN \<and> sr_equiv_x r = 0"

text \<open>The next slowest rung without a verdict.\<close>

definition admit_pick :: "accudisc_speed_rung list \<Rightarrow> nat option" where
  "admit_pick rungs = fold (\<lambda>i pick.
     if \<not> unsettled (rungs ! i) then pick
     else case pick of None \<Rightarrow> Some i
       | Some p \<Rightarrow> if sr_requested_x (rungs ! i) < sr_requested_x (rungs ! p) then Some i else pick)
     [0..<length rungs] None"

definition admit_margin :: "accudisc_speed_rung \<Rightarrow> accudisc_speed_rung \<Rightarrow> nat \<Rightarrow> nat \<Rightarrow> nat \<Rightarrow> nat" where
  "admit_margin r best n points k =
     (let step = radius_step_cx r n points; other = radius_step_cx best n points;
          step = (if other > step then other else step);
          margin = step * k
      in if margin < speeds_noise_cx then speeds_noise_cx else margin)"

definition admit_settle ::
    "accudisc_speed_rung \<Rightarrow> accudisc_speed_rung option \<Rightarrow> nat \<Rightarrow> nat \<Rightarrow> nat \<Rightarrow> accudisc_speed_rung" where
  "admit_settle r best n points k =
     (if sr_measured_cx r = 0 then r\<lparr>sr_verdict := RUNG_UNKNOWN, sr_equiv_x := 0xffff\<rparr>
      else if sr_reported_x r \<noteq> 0 \<and> sr_reported_x r < sr_requested_x r
      then r\<lparr>sr_verdict := RUNG_QUANTIZED, sr_equiv_x := sr_reported_x r\<rparr>
      else case best of None \<Rightarrow> r\<lparr>sr_verdict := RUNG_ADMITTED\<rparr>
      | Some best \<Rightarrow>
          if sr_measured_cx r > sr_measured_cx best
             \<and> sr_measured_cx r - sr_measured_cx best > admit_margin r best n points k
          then r\<lparr>sr_verdict := RUNG_ADMITTED\<rparr>
          else r\<lparr>sr_verdict := RUNG_DUPLICATE, sr_equiv_x := sr_requested_x best\<rparr>)"

text \<open>\<open>left\<close> is \<open>n - done\<close>, \<open>best\<close> the index of the fastest rung admitted so far.\<close>

fun admit_loop ::
    "nat \<Rightarrow> nat \<Rightarrow> nat \<Rightarrow> nat option \<Rightarrow> accudisc_speed_rung list \<Rightarrow> accudisc_speed_rung list" where
  "admit_loop points k 0 best rungs = rungs"
| "admit_loop points k (Suc left) best rungs =
     (case admit_pick rungs of None \<Rightarrow> rungs
      | Some p \<Rightarrow>
          let r = admit_settle (rungs ! p) (map_option (\<lambda>b. rungs ! b) best) (length rungs) points k
          in admit_loop points k left (if sr_verdict r = RUNG_ADMITTED then Some p else best) (rungs[p := r]))"

definition adsc_speeds_admit :: "accudisc_speed_rung list \<Rightarrow> nat \<Rightarrow> nat \<Rightarrow> accudisc_speed_rung list" where
  "adsc_speeds_admit rungs points k =
     (let rungs = map (\<lambda>r. r\<lparr>sr_verdict := RUNG_UNKNOWN, sr_equiv_x := 0\<rparr>) rungs in
      if points < 2 then rungs
      else map (\<lambda>r. if sr_equiv_x r = 0xffff then r\<lparr>sr_equiv_x := 0\<rparr> else r)
        (admit_loop points k (length rungs) None rungs))"

section \<open>The timed reads\<close>

text \<open>The sectors read, and why the stream stopped short.\<close>

function stream_span ::
    "'k kernel \<Rightarrow> u32 \<Rightarrow> nat \<Rightarrow> nat \<Rightarrow> u8 list \<Rightarrow> 'k accudisc_device \<Rightarrow>
     nat \<times> unit res \<times> u8 list \<times> 'k accudisc_device" where
  "stream_span K lba done n buf dev =
     (if \<not> done < n then (done, Inr (), buf, dev)
      else
        let c = (if n - done < speeds_chunk then n - done else speeds_chunk);
            (rc, out, dev) = adsc_mmc_read_cd K (lba + word_of_nat done) c 1 0 0 (take (c * AUDIO) buf) AUDIO dev;
            buf = overlay out buf
        in case rc of Inl e \<Rightarrow> (done, Inl e, buf, dev)
        | Inr _ \<Rightarrow> stream_span K lba (done + c) n buf dev)"
  by auto
termination
  by (relation "measure (\<lambda>(K, lba, d, n, buf, dev). n - d)") (auto simp: speeds_chunk_def split: if_splits)

declare stream_span.simps [simp del]

definition rate_cx :: "nat \<Rightarrow> rat \<Rightarrow> nat" where
  "rate_cx sectors secs =
     (if sectors \<noteq> 0 \<and> secs > 0
      then let cx = of_nat sectors / secs / 75 * 100
        in if cx > 65535 then 65535 else nat \<lfloor>cx + 1 / 2\<rfloor>
      else 0)"

text \<open>One window: warm-up, then the timed stream. \<open>seen\<close> is whether any window read a sector so
  far, and the first error of one that did not.\<close>

definition probe_window ::
    "'k kernel \<Rightarrow> ('k \<Rightarrow> rat) \<Rightarrow> u32 \<Rightarrow> nat \<Rightarrow> bool \<times> accudisc_err option \<Rightarrow> u8 list \<Rightarrow> 'k accudisc_device \<Rightarrow>
     nat \<times> (bool \<times> accudisc_err option) \<times> u8 list \<times> 'k accudisc_device" where
  "probe_window K clock wlba want seen buf dev =
     (let (_, _, buf, dev) = stream_span K wlba 0 speeds_chunk buf dev;
          t0 = clock (dev_k dev);
          (sectors, rc, buf, dev) = stream_span K (wlba + word_of_nat speeds_chunk) 0 want buf dev;
          secs = clock (dev_k dev) - t0;
          seen = (if sectors \<noteq> 0 then (True, snd seen)
            else case (rc, snd seen) of (Inl e, None) \<Rightarrow> (fst seen, Some e) | _ \<Rightarrow> seen)
      in (rate_cx sectors secs, seen, buf, dev))"

fun probe_bands ::
    "'k kernel \<Rightarrow> ('k \<Rightarrow> rat) \<Rightarrow> (nat \<Rightarrow> u32) \<Rightarrow> nat \<Rightarrow> nat list \<Rightarrow> bool \<times> accudisc_err option \<Rightarrow> u8 list \<Rightarrow>
     'k accudisc_device \<Rightarrow> nat list \<times> (bool \<times> accudisc_err option) \<times> u8 list \<times> 'k accudisc_device" where
  "probe_bands K clock at_band want [] seen buf dev = ([], seen, buf, dev)"
| "probe_bands K clock at_band want (b # bs) seen buf dev =
     (let (cx, seen, buf, dev) = probe_window K clock (at_band b) want seen buf dev;
          (cxs, seen, buf, dev) = probe_bands K clock at_band want bs seen buf dev
      in (cx # cxs, seen, buf, dev))"

definition rung_of :: "nat \<Rightarrow> nat list \<Rightarrow> nat \<Rightarrow> accudisc_speed_rung" where
  "rung_of x cx_band points =
     (let lo = fold min cx_band (hd cx_band); hi = fold max cx_band (hd cx_band);
          range_ok = (points > 1 \<and> list_all (\<lambda>c. c \<noteq> 0) cx_band)
      in \<lparr>sr_requested_x = x, sr_reported_x = 0, sr_measured_cx = cx_band ! (points div 2),
          sr_min_cx = (if range_ok then lo else 0), sr_max_cx = (if range_ok then hi else 0),
          sr_equiv_x = 0, sr_verdict = RUNG_UNKNOWN, sr_band_cx = cx_band @ replicate (3 - points) 0\<rparr>)"

definition probe_rung ::
    "'k kernel \<Rightarrow> ('k \<Rightarrow> rat) \<Rightarrow> u32 \<Rightarrow> nat \<Rightarrow> nat \<Rightarrow> nat \<Rightarrow> nat \<Rightarrow> nat \<Rightarrow> bool \<times> accudisc_err option \<Rightarrow> u8 list \<Rightarrow>
     'k accudisc_device \<Rightarrow> accudisc_speed_rung \<times> (bool \<times> accudisc_err option) \<times> u8 list \<times> 'k accudisc_device" where
  "probe_rung K clock lba slot band points i x seen buf dev =
     (let want = rung_want slot x;
          (_, dev) = accudisc_set_speed K (word_of_nat x) dev;
          (cx_band, seen, buf, dev) = probe_bands K clock
            (\<lambda>b. lba + word_of_nat (rung_window slot band b i)) want [0..<points] seen buf dev;
          r = rung_of x cx_band points;
          (rc, dev) = accudisc_get_speed K dev
      in case rc of Inl _ \<Rightarrow> (r, seen, buf, dev)
      | Inr (_, cur_kbps) \<Rightarrow> (r\<lparr>sr_reported_x := cur_kbps div 176\<rparr>, seen, buf, dev))"

fun probe_rungs ::
    "'k kernel \<Rightarrow> ('k \<Rightarrow> rat) \<Rightarrow> u32 \<Rightarrow> nat \<Rightarrow> nat \<Rightarrow> nat \<Rightarrow> nat \<Rightarrow> nat list \<Rightarrow> bool \<times> accudisc_err option \<Rightarrow> u8 list \<Rightarrow>
     'k accudisc_device \<Rightarrow> accudisc_speed_rung list \<times> (bool \<times> accudisc_err option) \<times> 'k accudisc_device" where
  "probe_rungs K clock lba slot band points i [] seen buf dev = ([], seen, dev)"
| "probe_rungs K clock lba slot band points i (x # xs) seen buf dev =
     (let (r, seen, buf, dev) = probe_rung K clock lba slot band points i x seen buf dev;
          (rs, seen, dev) = probe_rungs K clock lba slot band points (Suc i) xs seen buf dev
      in (r # rs, seen, dev))"

definition accudisc_probe_speed_ladder ::
    "'k kernel \<Rightarrow> ('k \<Rightarrow> rat) \<Rightarrow> u32 \<Rightarrow> nat \<Rightarrow> nat list \<Rightarrow> nat \<Rightarrow> 'k accudisc_device \<Rightarrow>
     accudisc_speed_rung list res \<times> 'k accudisc_device" where
  "accudisc_probe_speed_ladder K clock lba count candidates points dev =
     (let points = (if points = 0 then 1 else points) in
      case adsc_speeds_layout count (length candidates) points of
        Inl e \<Rightarrow> (Inl e, dev)
      | Inr (slot, band) \<Rightarrow>
          let (rungs, (read_any, first_err), dev) = probe_rungs K clock lba slot band points 0 candidates
                (False, None) (fresh_bytes K (speeds_chunk * AUDIO) (dev_k dev)) dev
          in case (read_any, first_err) of
              (False, Some e) \<Rightarrow> (Inl e, dev)
            | _ \<Rightarrow> (Inr (adsc_speeds_admit rungs points speeds_admit_k), dev))"

section \<open>The windows do not meet\<close>

lemma speeds_layout_fits:
  assumes "adsc_speeds_layout count ncand points = Inr (slot, band)"
  shows "band = slot * ncand" "speeds_min_sectors + speeds_chunk \<le> slot" "points * band \<le> count"
proof -
  have "band = slot * ncand \<and> speeds_min_sectors + speeds_chunk \<le> slot \<and> slot = count div (points * ncand)"
    using assms by (auto simp: adsc_speeds_layout_def Let_def split: if_splits)
  then show "band = slot * ncand" "speeds_min_sectors + speeds_chunk \<le> slot" "points * band \<le> count"
    using div_times_less_eq_dividend [of count "points * ncand"] by (auto simp: ac_simps)
qed

lemma rung_want_fits: "speeds_min_sectors + speeds_chunk \<le> slot \<Longrightarrow> speeds_chunk + rung_want slot x \<le> slot"
proof -
  assume "speeds_min_sectors + speeds_chunk \<le> slot"
  moreover have "rung_want slot x \<le> slot - speeds_chunk" by (auto simp: rung_want_def Let_def)
  ultimately show ?thesis by linarith
qed

lemma rung_window_slot: "rung_window slot (slot * ncand) b i = (b * ncand + i) * slot"
  by (simp add: rung_window_def algebra_simps)

text \<open>
  Every timed read is of sectors the drive has not just been asked for. Whenever the layout is
  accepted, what is read for one rung in one band - the warm-up and the timed stream - lies inside
  the span and shares no sector with what is read for any other rung or band.
\<close>

theorem speed_windows_fresh:
  assumes "adsc_speeds_layout count ncand points = Inr (slot, band)"
    and "i < ncand" "b < points" "j < ncand" "c < points" and "(b, i) \<noteq> (c, j)"
  shows "rung_window slot band b i + speeds_chunk + rung_want slot x \<le> count \<and>
    (rung_window slot band b i + speeds_chunk + rung_want slot x \<le> rung_window slot band c j \<or>
     rung_window slot band c j + speeds_chunk + rung_want slot y \<le> rung_window slot band b i)"
proof -
  note f = speeds_layout_fits [OF assms(1)]
  let ?m = "b * ncand + i" and ?n = "c * ncand + j"
  have "?m div ncand = b" "?m mod ncand = i" "?n div ncand = c" "?n mod ncand = j" using assms by simp_all
  then have "?m \<noteq> ?n" using assms(6) by auto
  moreover have apart: "rung_window slot band b' i' + speeds_chunk + rung_want slot z \<le> k * slot"
    if "b' * ncand + i' < k" for b' i' k z
  proof -
    have "rung_window slot band b' i' + speeds_chunk + rung_want slot z \<le> Suc (b' * ncand + i') * slot"
      using rung_want_fits [OF f(2), of z] by (simp add: f(1) rung_window_slot)
    also have "\<dots> \<le> k * slot" using that by (intro mult_le_mono1) simp
    finally show ?thesis .
  qed
  moreover have last: "?m < points * ncand"
  proof -
    have "?m < Suc b * ncand" using assms(2) by simp
    also have "\<dots> \<le> points * ncand" using assms(3) by (intro mult_le_mono1) simp
    finally show ?thesis .
  qed
  moreover have total: "points * ncand * slot \<le> count" using f(1,3) by (simp add: ac_simps)
  ultimately show ?thesis
    using le_trans [OF apart [OF last, of x] total] apart [of b i ?n x] apart [of c j ?m y]
    by (auto simp: f(1) rung_window_slot linorder_neq_iff)
qed

theorem speed_windows_fresh_witness:
  "rung_window 300 3000 0 4 + speeds_chunk + rung_want 300 40 \<le> 9000 \<and>
    (rung_window 300 3000 0 4 + speeds_chunk + rung_want 300 40 \<le> rung_window 300 3000 2 1 \<or>
     rung_window 300 3000 2 1 + speeds_chunk + rung_want 300 8 \<le> rung_window 300 3000 0 4)"
  by (rule speed_windows_fresh [of _ 10 3])
    (simp_all add: adsc_speeds_layout_def speeds_bands_def speeds_min_sectors_def speeds_chunk_def)

section \<open>The admitted rungs climb\<close>

lemma admit_pick_spec:
  "case admit_pick rungs of
     None \<Rightarrow> list_all (\<lambda>r. \<not> unsettled r) rungs
   | Some p \<Rightarrow> p < length rungs \<and> unsettled (rungs ! p) \<and>
       (\<forall>i < length rungs. unsettled (rungs ! i) \<longrightarrow> sr_requested_x (rungs ! p) \<le> sr_requested_x (rungs ! i))"
proof -
  let ?f = "\<lambda>i pick. if \<not> unsettled (rungs ! i) then pick
     else case pick of None \<Rightarrow> Some i
       | Some p \<Rightarrow> if sr_requested_x (rungs ! i) < sr_requested_x (rungs ! p) then Some i else pick"
  have "case fold ?f [0..<m] None of
     None \<Rightarrow> \<forall>i < m. \<not> unsettled (rungs ! i)
   | Some p \<Rightarrow> p < m \<and> unsettled (rungs ! p) \<and>
       (\<forall>i < m. unsettled (rungs ! i) \<longrightarrow> sr_requested_x (rungs ! p) \<le> sr_requested_x (rungs ! i))" for m
  proof (induction m)
    case (Suc m)
    have "fold ?f [0..<Suc m] None = ?f m (fold ?f [0..<m] None)" by simp
    moreover have "(\<forall>i < Suc m. P i) \<longleftrightarrow> (\<forall>i < m. P i) \<and> P m" for P by (auto simp: less_Suc_eq)
    ultimately show ?case using Suc
      by (cases "fold ?f [0..<m] None") (fastforce)+
  qed simp
  from this [of "length rungs"] show ?thesis
    unfolding admit_pick_def list_all_length by (simp split: option.splits)
qed

lemma admit_settle_fields:
  "sr_requested_x (admit_settle r best n points k) = sr_requested_x r"
  "sr_measured_cx (admit_settle r best n points k) = sr_measured_cx r"
  "sr_reported_x (admit_settle r best n points k) = sr_reported_x r"
  by (auto simp: admit_settle_def split: option.splits)

definition climbs :: "accudisc_speed_rung list \<Rightarrow> bool" where
  "climbs rungs \<longleftrightarrow> sorted_wrt (\<lambda>r s. sr_verdict r = RUNG_ADMITTED \<longrightarrow> sr_verdict s = RUNG_ADMITTED \<longrightarrow>
     sr_measured_cx r + speeds_noise_cx < sr_measured_cx s \<and> sr_requested_x r \<le> sr_requested_x s \<or>
     sr_measured_cx s + speeds_noise_cx < sr_measured_cx r \<and> sr_requested_x s \<le> sr_requested_x r) rungs"

text \<open>Why a rung has its verdict, given all of them; \<open>0xffff\<close> is the sentinel that is cleared.\<close>

definition rung_explained ::
    "(nat \<Rightarrow> nat) \<Rightarrow> accudisc_speed_rung list \<Rightarrow> nat \<Rightarrow> nat \<Rightarrow> accudisc_speed_rung \<Rightarrow> bool" where
  "rung_explained clear rungs points k r \<longleftrightarrow>
     (if sr_measured_cx r = 0 then sr_verdict r = RUNG_UNKNOWN
      else if sr_reported_x r \<noteq> 0 \<and> sr_reported_x r < sr_requested_x r
      then sr_verdict r = RUNG_QUANTIZED \<and> sr_equiv_x r = clear (sr_reported_x r)
      else sr_verdict r = RUNG_ADMITTED \<or>
        sr_verdict r = RUNG_DUPLICATE \<and> list_ex (\<lambda>b. sr_verdict b = RUNG_ADMITTED \<and>
          sr_requested_x b \<le> sr_requested_x r \<and> sr_equiv_x r = clear (sr_requested_x b) \<and>
          sr_measured_cx r \<le> sr_measured_cx b + admit_margin r b (length rungs) points k) rungs)"

definition admit_inv :: "nat \<Rightarrow> nat \<Rightarrow> accudisc_speed_rung list \<Rightarrow> nat option \<Rightarrow> bool" where
  "admit_inv points k rungs best \<longleftrightarrow>
     (case best of
        None \<Rightarrow> \<forall>i < length rungs. sr_verdict (rungs ! i) \<noteq> RUNG_ADMITTED
      | Some b \<Rightarrow> b < length rungs \<and> sr_verdict (rungs ! b) = RUNG_ADMITTED \<and>
          (\<forall>i < length rungs. sr_verdict (rungs ! i) = RUNG_ADMITTED \<longrightarrow>
             sr_measured_cx (rungs ! i) \<le> sr_measured_cx (rungs ! b))) \<and>
     (\<forall>i < length rungs. \<forall>j < length rungs. \<not> unsettled (rungs ! i) \<longrightarrow> unsettled (rungs ! j) \<longrightarrow>
        sr_requested_x (rungs ! i) \<le> sr_requested_x (rungs ! j)) \<and>
     (\<forall>i < length rungs. \<forall>j < length rungs. i \<noteq> j \<longrightarrow> sr_verdict (rungs ! i) = RUNG_ADMITTED \<longrightarrow>
        sr_verdict (rungs ! j) = RUNG_ADMITTED \<longrightarrow>
        sr_measured_cx (rungs ! i) + speeds_noise_cx < sr_measured_cx (rungs ! j) \<and>
          sr_requested_x (rungs ! i) \<le> sr_requested_x (rungs ! j) \<or>
        sr_measured_cx (rungs ! j) + speeds_noise_cx < sr_measured_cx (rungs ! i) \<and>
          sr_requested_x (rungs ! j) \<le> sr_requested_x (rungs ! i)) \<and>
     (\<forall>i < length rungs. \<not> unsettled (rungs ! i) \<longrightarrow> rung_explained id rungs points k (rungs ! i))"

lemma admit_settle_settled: "\<not> unsettled (admit_settle r best n points k)"
  by (auto simp: admit_settle_def unsettled_def split: option.splits)

lemma admit_margin_noise: "speeds_noise_cx \<le> admit_margin r b n points k"
  by (simp add: admit_margin_def Let_def)

lemma admit_settle_admitted:
  assumes "unsettled r" and "sr_verdict (admit_settle r best n points k) = RUNG_ADMITTED"
  shows "sr_measured_cx r \<noteq> 0 \<and> \<not> (sr_reported_x r \<noteq> 0 \<and> sr_reported_x r < sr_requested_x r) \<and>
    (case best of None \<Rightarrow> True | Some b \<Rightarrow> sr_measured_cx b + speeds_noise_cx < sr_measured_cx r)"
  using assms admit_margin_noise [of r "the best" n points k]
  by (auto simp: admit_settle_def unsettled_def split: option.splits if_splits)

lemma admit_settle_explained:
  assumes "unsettled r" and "\<And>b. best = Some b \<Longrightarrow> b \<in> set rungs \<and> sr_verdict b = RUNG_ADMITTED \<and>
      sr_requested_x b \<le> sr_requested_x r"
    and "n = length rungs"
  shows "rung_explained id rungs points k (admit_settle r best n points k)"
proof -
  have "admit_margin (r\<lparr>sr_verdict := v, sr_equiv_x := e\<rparr>) b n points k = admit_margin r b n points k" for v e b
    by (simp add: admit_margin_def radius_step_cx_def)
  then show ?thesis
    using assms unfolding admit_settle_def rung_explained_def list_ex_iff
    by (auto simp: unsettled_def split: option.splits)
qed

lemma rung_explained_mono:
  assumes "rung_explained clear rungs points k r" and "length rungs' = length rungs"
    and "\<And>b. b \<in> set rungs \<Longrightarrow> sr_verdict b = RUNG_ADMITTED \<Longrightarrow> b \<in> set rungs'"
  shows "rung_explained clear rungs' points k r"
  using assms unfolding rung_explained_def list_ex_iff by (auto split: if_splits)

lemma admit_inv_step:
  assumes inv: "admit_inv points k rungs best" and p: "admit_pick rungs = Some p"
  defines "r \<equiv> admit_settle (rungs ! p) (map_option (\<lambda>b. rungs ! b) best) (length rungs) points k"
  shows "admit_inv points k (rungs[p := r]) (if sr_verdict r = RUNG_ADMITTED then Some p else best)"
proof -
  note pick = admit_pick_spec [of rungs, unfolded p option.case]
  have settled: "\<not> unsettled r" by (simp add: r_def admit_settle_settled)
  have fields: "sr_requested_x r = sr_requested_x (rungs ! p)" "sr_measured_cx r = sr_measured_cx (rungs ! p)"
    by (simp_all add: r_def admit_settle_fields)
  have admitted: "\<not> unsettled x" if "sr_verdict x = RUNG_ADMITTED" for x
    using that by (simp add: unsettled_def)
  have order: "sr_requested_x (rungs ! i) \<le> sr_requested_x (rungs ! p)"
    if "i < length rungs" "\<not> unsettled (rungs ! i)" for i
    using inv pick that by (simp add: admit_inv_def)
  have top: "b < length rungs \<and> sr_verdict (rungs ! b) = RUNG_ADMITTED \<and>
      (\<forall>i < length rungs. sr_verdict (rungs ! i) = RUNG_ADMITTED \<longrightarrow>
         sr_measured_cx (rungs ! i) \<le> sr_measured_cx (rungs ! b))" if "best = Some b" for b
    using inv that by (simp add: admit_inv_def)
  have none: "sr_verdict (rungs ! i) \<noteq> RUNG_ADMITTED" if "best = None" "i < length rungs" for i
    using inv that by (simp add: admit_inv_def)
  have above: "sr_measured_cx (rungs ! i) + speeds_noise_cx < sr_measured_cx r"
    if "sr_verdict r = RUNG_ADMITTED" "i < length rungs" "sr_verdict (rungs ! i) = RUNG_ADMITTED" for i
  proof (cases best)
    case (Some b)
    then show ?thesis
      using that top [OF Some] fields
        admit_settle_admitted [of "rungs ! p" "map_option (\<lambda>b. rungs ! b) best" "length rungs" points k] pick
      by (fastforce simp: r_def)
  qed (use none that in blast)
  have explained: "rung_explained id (rungs[p := r]) points k (rungs[p := r] ! i)"
    if "i < length rungs" "\<not> unsettled (rungs[p := r] ! i)" for i
  proof (rule rung_explained_mono [of id rungs])
    have "rung_explained id rungs points k r" unfolding r_def
    proof (rule admit_settle_explained)
      fix b assume "map_option (\<lambda>b. rungs ! b) best = Some b"
      then obtain j where "best = Some j" "b = rungs ! j" by auto
      then show "b \<in> set rungs \<and> sr_verdict b = RUNG_ADMITTED \<and>
          sr_requested_x b \<le> sr_requested_x (rungs ! p)"
        using top [of j] order [of j] admitted by simp
    qed (use pick in simp_all)
    then show "rung_explained id rungs points k (rungs[p := r] ! i)"
      using inv that by (cases "i = p") (simp_all add: admit_inv_def)
    fix b assume "b \<in> set rungs" "sr_verdict b = RUNG_ADMITTED"
    then obtain j where "j < length rungs" "b = rungs ! j" by (metis in_set_conv_nth)
    then show "b \<in> set (rungs[p := r])"
      using pick \<open>sr_verdict b = RUNG_ADMITTED\<close>
      by (metis admitted length_list_update nth_list_update_neq nth_mem)
  qed simp
  show ?thesis
    unfolding admit_inv_def length_list_update
  proof (intro conjI allI impI)
    show "case if sr_verdict r = RUNG_ADMITTED then Some p else best of
        None \<Rightarrow> \<forall>i < length rungs. sr_verdict (rungs[p := r] ! i) \<noteq> RUNG_ADMITTED
      | Some b \<Rightarrow> b < length rungs \<and> sr_verdict (rungs[p := r] ! b) = RUNG_ADMITTED \<and>
          (\<forall>i < length rungs. sr_verdict (rungs[p := r] ! i) = RUNG_ADMITTED \<longrightarrow>
             sr_measured_cx (rungs[p := r] ! i) \<le> sr_measured_cx (rungs[p := r] ! b))"
    proof (cases "sr_verdict r = RUNG_ADMITTED")
      case True
      have "sr_measured_cx (rungs[p := r] ! i) \<le> sr_measured_cx r"
        if "i < length rungs" "sr_verdict (rungs[p := r] ! i) = RUNG_ADMITTED" for i
        using above [OF True, of i] that by (cases "i = p") auto
      then show ?thesis using True pick by simp
    next
      case False
      then have "sr_verdict (rungs[p := r] ! i) = RUNG_ADMITTED \<longleftrightarrow>
          i \<noteq> p \<and> sr_verdict (rungs ! i) = RUNG_ADMITTED" if "i < length rungs" for i
        using that by (cases "i = p") auto
      moreover have "b \<noteq> p" if "best = Some b" for b using top [OF that] pick admitted by auto
      ultimately show ?thesis
        using False none top by (auto split: option.splits)
    qed
  next
    fix i j assume "i < length rungs" "j < length rungs" "\<not> unsettled (rungs[p := r] ! i)" "unsettled (rungs[p := r] ! j)"
    then show "sr_requested_x (rungs[p := r] ! i) \<le> sr_requested_x (rungs[p := r] ! j)"
      using inv pick settled fields by (cases "i = p"; cases "j = p") (auto simp: admit_inv_def)
  next
    fix i j assume ij: "i < length rungs" "j < length rungs" "i \<noteq> j"
      "sr_verdict (rungs[p := r] ! i) = RUNG_ADMITTED" "sr_verdict (rungs[p := r] ! j) = RUNG_ADMITTED"
    consider "i = p" | "j = p" | "i \<noteq> p" "j \<noteq> p" by blast
    then show "sr_measured_cx (rungs[p := r] ! i) + speeds_noise_cx < sr_measured_cx (rungs[p := r] ! j) \<and>
          sr_requested_x (rungs[p := r] ! i) \<le> sr_requested_x (rungs[p := r] ! j) \<or>
        sr_measured_cx (rungs[p := r] ! j) + speeds_noise_cx < sr_measured_cx (rungs[p := r] ! i) \<and>
          sr_requested_x (rungs[p := r] ! j) \<le> sr_requested_x (rungs[p := r] ! i)"
    proof cases
      case 1
      then show ?thesis using ij above [of j] order [of j] admitted fields by simp
    next
      case 2
      then show ?thesis using ij above [of i] order [of i] admitted fields by simp
    next
      case 3
      then show ?thesis using ij inv by (simp add: admit_inv_def)
    qed
  qed (use explained in simp)
qed

definition measurements :: "accudisc_speed_rung \<Rightarrow> nat \<times> nat \<times> nat \<times> nat \<times> nat \<times> nat list" where
  "measurements r = (sr_requested_x r, sr_reported_x r, sr_measured_cx r, sr_min_cx r, sr_max_cx r, sr_band_cx r)"

lemma measurements_settle [simp]: "measurements (admit_settle r best n points k) = measurements r"
  by (auto simp: measurements_def admit_settle_def split: option.splits)

lemma unsettled_count:
  assumes "p < length rungs" "unsettled (rungs ! p)" "\<not> unsettled r"
  shows "length (filter unsettled (rungs[p := r])) < length (filter unsettled rungs)"
proof -
  have u: "rungs = take p rungs @ rungs ! p # drop (Suc p) rungs"
    using assms(1) by (rule id_take_nth_drop)
  have "rungs[p := r] = take p rungs @ r # drop (Suc p) rungs"
    using assms(1) by (rule upd_conv_take_nth_drop)
  then have "length (filter unsettled (rungs[p := r])) =
      length (filter unsettled (take p rungs)) + length (filter unsettled (drop (Suc p) rungs))"
    using assms(3) by simp
  moreover have "length (filter unsettled rungs) =
      length (filter unsettled (take p rungs)) + Suc (length (filter unsettled (drop (Suc p) rungs)))"
    using assms(2) by (subst u) simp
  ultimately show ?thesis by simp
qed

text \<open>The loop settles every rung and keeps the invariant.\<close>

lemma admit_loop_spec:
  assumes "admit_inv points k rungs best" and "length (filter unsettled rungs) \<le> left"
  shows "(\<exists>best'. admit_inv points k (admit_loop points k left best rungs) best') \<and>
      list_all (\<lambda>r. \<not> unsettled r) (admit_loop points k left best rungs) \<and>
      map measurements (admit_loop points k left best rungs) = map measurements rungs"
  using assms
proof (induction left arbitrary: rungs best)
  case 0
  then have "filter unsettled rungs = []" by simp
  then have "list_all (\<lambda>r. \<not> unsettled r) rungs" by (simp add: filter_empty_conv list_all_iff)
  then show ?case using 0 by auto
next
  case (Suc left)
  show ?case
  proof (cases "admit_pick rungs")
    case None
    then show ?thesis using Suc.prems admit_pick_spec [of rungs] by auto
  next
    case (Some p)
    let ?r = "admit_settle (rungs ! p) (map_option (\<lambda>b. rungs ! b) best) (length rungs) points k"
    note pick = admit_pick_spec [of rungs, unfolded Some option.case]
    have "length (filter unsettled (rungs[p := ?r])) \<le> left"
      using unsettled_count [of p rungs ?r] pick Suc.prems(2) by (simp add: admit_settle_settled)
    moreover have "map measurements (rungs[p := ?r]) = map measurements rungs"
      using pick by (simp add: map_update) (metis length_map list_update_id nth_map)
    ultimately show ?thesis
      using Suc.IH [OF admit_inv_step [OF Suc.prems(1) Some]] Some
      by (simp add: Let_def)
  qed
qed

lemma admit_inv_explained:
  assumes "admit_inv points k rungs best" "list_all (\<lambda>r. \<not> unsettled r) rungs" and "r \<in> set rungs"
  shows "rung_explained id rungs points k r"
proof -
  obtain i where "i < length rungs" "r = rungs ! i" using assms(3) by (metis in_set_conv_nth)
  then show ?thesis using assms(1,2) by (simp add: admit_inv_def list_all_length)
qed

definition clear_sentinel :: "nat \<Rightarrow> nat" where
  "clear_sentinel x = (if x = 0xffff then 0 else x)"

lemma climbs_nth:
  "climbs rungs \<longleftrightarrow> (\<forall>i j. i < j \<longrightarrow> j < length rungs \<longrightarrow> sr_verdict (rungs ! i) = RUNG_ADMITTED \<longrightarrow>
     sr_verdict (rungs ! j) = RUNG_ADMITTED \<longrightarrow>
     sr_measured_cx (rungs ! i) + speeds_noise_cx < sr_measured_cx (rungs ! j) \<and>
       sr_requested_x (rungs ! i) \<le> sr_requested_x (rungs ! j) \<or>
     sr_measured_cx (rungs ! j) + speeds_noise_cx < sr_measured_cx (rungs ! i) \<and>
       sr_requested_x (rungs ! j) \<le> sr_requested_x (rungs ! i))"
  unfolding climbs_def sorted_wrt_iff_nth_less ..


end
