(* ===== verification/Spec2Isabelle.thy ===== *)
theory Spec2Isabelle
  imports SubQ Rw TocWire Plan Layout IndexMap Cdb CdTextBlob CueSheet EngineResults AccubufSpec WfifoSpec CtdbSpec Offsets Speeds
begin

text \<open>
  A verification library of AccuDisc, a C library that reads, describes and burns audio discs
  through the SCSI pass-through of an optical drive. Every definition is a translation of the C
  function, struct, enum or loop it is named after (paths below are under \<^verbatim>\<open>src/src\<close>, the public
  structs are in \<^verbatim>\<open>src/include/accudisc/accudisc.h\<close>); the theorems are about those definitions.

  \<^bold>\<open>How the program is put together.\<close> A device handle runs command blocks through one gate
  (\<^verbatim>\<open>device.c\<close>, \<^verbatim>\<open>drive/ready.c\<close>) over a transport (\<^verbatim>\<open>transport\<close>). The MMC layer
  (\<^verbatim>\<open>mmc\<close>) builds the blocks and checks the replies. On it stand the parsers of what a disc says of
  itself (\<^verbatim>\<open>toc\<close>, \<^verbatim>\<open>cdda\<close>, \<^verbatim>\<open>meta\<close>), the guards and planners that decide which sectors may be
  read (\<^verbatim>\<open>toc/session.c\<close>, \<^verbatim>\<open>toc/plan.c\<close>), the read engine with its rescue strategies and its buffer
  to the caller's sink (\<^verbatim>\<open>read\<close>), the repair of a finished image from published parity
  (\<^verbatim>\<open>repair\<close>), and the burn with its own buffer (\<^verbatim>\<open>write\<close>). The theories follow that order.

  \<^bold>\<open>Foundations.\<close>
  \<^item> \<open>Prelude\<close>: integer widths, the error codes and the result type \<open>accudisc_err + 'a\<close>, big-endian
    access, slices, exclusive or over lists, and the lemmas on them that the components share.
  \<^item> \<open>Crc\<close> (\<^verbatim>\<open>cdda/crc16.c\<close>, \<^verbatim>\<open>repair/sweep.c\<close>): the locale \<open>crc_register\<close>, both checksums as
    instances of it; the slicing-by-eight loop equals the bytewise one, a CRC detects every change
    of up to two adjacent bytes.
  \<^item> \<open>Galois\<close>: the locale \<open>log_field\<close>, what a Reed-Solomon decoder needs of a field given by
    logarithm tables; the tables of \<^verbatim>\<open>cdda/rw.c\<close> (64 elements, \<open>Rw\<close>) and of \<^verbatim>\<open>repair/gf16.c\<close> (65536 elements, \<open>Gf16\<close>) interpret it.
  \<^item> \<open>Ring\<close>: the locale \<open>bounded_queue\<close> and the 32-bit ring arithmetic of both buffers as its
    interpretation.

  \<^bold>\<open>What a disc says of itself.\<close>
  \<^item> \<open>SubQ\<close> (\<^verbatim>\<open>cdda/subq.c\<close>): addresses, de-interleaving and the CRC-gated Q frame.
  \<^item> \<open>Rw\<close> (\<^verbatim>\<open>cdda/rw.c\<close>): the field of 64 elements, the P and Q codes, the eight-pack ring. Whatever
    the damage, a pack the decoder accepts is a codeword; up to its capacity it is the one sent.
  \<^item> \<open>Extents\<close>, \<open>Toc\<close>, \<open>TocWire\<close> (\<^verbatim>\<open>toc/toc.c\<close>, \<^verbatim>\<open>toc/fulltoc.c\<close>): the loops of
    \<open>toc_fill_extents\<close>, the two wire formats, the ladder between them; parsed extents are disjoint
    unless an anomaly bit says so, and a disc written out on the wire is read back.
  \<^item> \<open>IndexMap\<close> (\<^verbatim>\<open>cdda/index_map.c\<close>): pregaps from a subchannel scan with damaged frames.
  \<^item> \<open>CdText\<close>, \<open>CdTextBlob\<close> (\<^verbatim>\<open>meta\<close>): decoding packs to strings, validation and encoding of a blob.

  \<^bold>\<open>What may be read.\<close>
  \<^item> \<open>Session\<close> (\<^verbatim>\<open>toc/session.c\<close>): the guard lets a range through only if every sector of it is
    audio, equals the specification that asks every sector, and refuses nothing else.
  \<^item> \<open>Plan\<close> (\<^verbatim>\<open>toc/plan.c\<close>), \<open>Abi\<close> (\<^verbatim>\<open>abi.c\<close>): the planned range, from a request imported through the
    size negotiation.
  \<^item> \<open>Layout\<close> (\<^verbatim>\<open>cdda/layout.c\<close>): the order and stride of combined records.

  \<^bold>\<open>The drive.\<close> The kernel - its ioctls, sleeping, the content of fresh memory - is the record
  \<open>kernel\<close>, a parameter \<open>K\<close>; the drive is part of the kernel's state. Nothing is assumed of it
  except, where a theorem names it, that the residual of a transfer is honest.
  \<^item> \<open>Transport\<close> (\<^verbatim>\<open>transport\<close>), \<open>Device\<close> (\<^verbatim>\<open>device.c\<close>, \<^verbatim>\<open>drive/ready.c\<close>), \<open>Cdb\<close> and \<open>Mmc\<close>
    (\<^verbatim>\<open>mmc\<close>), \<open>Drive\<close> (\<^verbatim>\<open>device.c\<close>, \<^verbatim>\<open>drive/disc.c\<close>), \<open>Features\<close> (\<^verbatim>\<open>drive/features.c\<close>): every
    command block is framed as its operation code prescribes; which commands are repeated and how
    often; a READ CD that succeeds returns the bytes of one reply.
  \<^item> \<open>Tape\<close>: the locale \<open>tape_recorder\<close>, any kernel with a record of what it was sent. Statements
    about the order of commands are made over the tape.

  \<^bold>\<open>The read engine.\<close> \<open>Engine\<close>, \<open>EngineRun\<close> are \<^verbatim>\<open>read/engine.c\<close> (requests, consensus, C2
  rescue, slip correction, Q-position rescue, witness pass, publish, chunk loop); \<open>EngineSpec\<close>,
  \<open>EngineAccount\<close>, \<open>EngineResults\<close> show that whatever the drive answers, every delivered sector is a
  record sent for its address or the zero fill, that chunks are contiguous, and that maps and
  counters agree with what was delivered. \<open>Accubuf\<close>, \<open>AccubufSpec\<close> (\<^verbatim>\<open>read/accubuf.c\<close>) are the two
  threads of the buffer as steps: every schedule ends, gives the sink what the synchronous path
  gives it, and refines a bounded channel; one interleaving of a discarding stop does not.

  \<^bold>\<open>The repair of a finished image.\<close>
  \<^item> \<open>Gf16\<close> (\<^verbatim>\<open>repair/gf16.c\<close>): the table fill; 2 is shown to generate all 65535 non-zero elements,
    and the operations to be those of a field, the type \<open>gf16\<close>.
  \<^item> \<open>Recurrence\<close>: Berlekamp and Massey's algorithm over any field, its shortest recurrence and
    when it is unique. \<open>Rs16\<close>, \<open>Rs16Capacity\<close> (\<^verbatim>\<open>repair/rs16.c\<close>): the decoder. What it hands back
    has exactly the syndromes it was given; up to the capacity of the parity it is the damage.
  \<^item> \<open>Sweep\<close>, \<open>SweepSimd\<close> (\<^verbatim>\<open>repair/sweep.c\<close>): the portable and the vector kernel, both equal to
    the syndrome sums of every column and the checksum of the span.
  \<^item> \<open>Ctdb\<close>, \<open>CtdbSpec\<close> (\<^verbatim>\<open>repair/ctdb.c\<close>): the grid, both passes and the report. An output that is
    written agrees with the published parity in every column and with the input outside the grid;
    damage within capacity is undone.

  \<^bold>\<open>Knowledge of the drive.\<close>
  \<^item> \<open>WriteOffset\<close> (\<^verbatim>\<open>write/write_offset.c\<close>): the signal and its locator; whatever the two offsets
    of the drive, the locator told one gives the other.
  \<^item> \<open>Offsets\<close> (\<^verbatim>\<open>drive/offsets.c\<close>): the folding of INQUIRY strings and the scan of the drive
    table, which is generated and a parameter; what the lookup answers on every table.
  \<^item> \<open>Speeds\<close> (\<^verbatim>\<open>drive/speeds.c\<close>): the layout of the timed windows, the reads, the verdicts; windows
    never meet, and the admitted rungs climb.

  \<^bold>\<open>The burn.\<close> \<open>WriteToc\<close> (\<^verbatim>\<open>write/tocparse.c\<close>), \<open>CueSheet\<close> (\<^verbatim>\<open>write/cuesheet.c\<close>,
  \<^verbatim>\<open>write/discinfo.c\<close>), \<open>WParams\<close> (\<^verbatim>\<open>write/wparams.c\<close>), \<open>Burn\<close>, \<open>BurnSpec\<close>
  (\<^verbatim>\<open>write/burn.c\<close>), \<open>Wfifo\<close>, \<open>WfifoSpec\<close> (\<^verbatim>\<open>write/fifo.c\<close>): a layout that parses tiles its file;
  the cue sheet has the layout's points; nothing that commits the disc is sent before the
  read-back and the blank check; a burn that succeeds has laid the image once and in order; every
  exit releases the session; the buffer's two threads end on every schedule and hand over the
  stream a plain loop would read.

  \<^bold>\<open>Loops, bounds and fuel.\<close> Loops over data are structural recursion, loops over an offset are
  \<open>function\<close> with a \<open>termination\<close> proof by a measure (the retry loops by the number of attempts left,
  at most 243 per command). \<open>wait_ready\<close> may run for ever on a drive that never stops raising
  unit attentions, so it is a \<open>partial_function (option)\<close>, with the theorem saying when it ends.
  The two-thread systems run a schedule with fuel: the theorems show that ten steps per chunk and
  ten more are enough for the read buffer, eight per sector and thirteen more for the write buffer.
  Machine integers keep their width wherever the code can reach the end of it; counters of statistics
  are natural numbers and addresses of the index map unbounded integers.

  \<^bold>\<open>Not modelled.\<close> The command line (\<^verbatim>\<open>src/cli\<close>: argument parsing, printing and file output), trace
  and log output (it reads state and changes nothing), the run-time loading of vendor drivers and
  the one vendor driver (\<^verbatim>\<open>drive/driver.c\<close>, \<^verbatim>\<open>src/drivers/plextor\<close>: \<open>dlopen\<close>, proprietary commands;
  what the library asks of them is a parameter where it matters), opening and closing the device
  node, allocation failure (except where a theory says so), the floating-point sizing of the write
  buffer, and the surveys that only call the operations modelled here (\<^verbatim>\<open>drive/census.c\<close>, \<^verbatim>\<open>drive/c2lag.c\<close>, \<^verbatim>\<open>write/verify.c\<close> and their like). Tests, tools and language bindings are clients of the
  library and hold none of its logic.
\<close>

end
